(* ===== verification/Prelude.thy ===== *)
theory Prelude imports Main "HOL-Library.Word" "HOL-Library.Monad_Syntax" "HOL-Library.Code_Target_Nat" begin

section \<open>Prelude: result types, machine integers and little-endian bytes\<close>

text \<open>
  Shared vocabulary of the development.

  \<^item> A C function that returns \<open>bool\<close> and changes a state (a stream, the memory) is modelled
    by a function into \<open>('a option \<times> 's) option\<close>. The outer \<open>None\<close> is undefined behaviour of
    the C code (an access outside the mapped memory, a call through a null function pointer, a
    loop that never returns); \<open>Some (None, s)\<close> is a return of \<open>false\<close> with the state left
    in \<open>s\<close>; \<open>Some (Some v, s)\<close> is a return of \<open>true\<close>, \<open>v\<close> being what the function stored
    through its out-parameters.
  \<^item> \<open>ok_then\<close> is the C idiom \<open>if (!f(...)) return false; ...\<close>.
  \<^item> \<open>le_bytes\<close> and \<open>of_le\<close> are the little-endian representation used for values in memory.
\<close>

type_synonym u8 = "8 word"
type_synonym u16 = "16 word"
type_synonym u32 = "32 word"
type_synonym u64 = "64 word"

type_synonym ('a, 's) outcome = "('a option \<times> 's) option"

named_theorems outcome_simps \<open>equations that drive a computation in the outcome type\<close>
named_theorems stream_simps \<open>what the stream operations leave unchanged\<close>
named_theorems mem_simps \<open>loads, stores and mapped regions of the memory\<close>

subsection \<open>Sequencing of bool-returning C functions\<close>

definition ok_then ::
  "('a, 's) outcome \<Rightarrow> ('a \<Rightarrow> 's \<Rightarrow> ('b, 's) outcome) \<Rightarrow> ('b, 's) outcome" where
  "ok_then r k =
     (case r of None \<Rightarrow> None
      | Some (None, s) \<Rightarrow> Some (None, s)
      | Some (Some a, s) \<Rightarrow> k a s)"

lemma ok_then_simps [simp, outcome_simps]:
  "ok_then None k = None"
  "ok_then (Some (None, s)) k = Some (None, s)"
  "ok_then (Some (Some a, s)) k = k a s"
  by (simp_all add: ok_then_def)

lemma ok_then_cong [fundef_cong]:
  assumes "r = r'" and "\<And>a s. r' = Some (Some a, s) \<Longrightarrow> k a s = k' a s"
  shows "ok_then r k = ok_then r' k'"
  using assms by (auto simp: ok_then_def split: option.splits)

lemma ok_then_SomeE:
  assumes "ok_then r k = Some (Some b, t)"
  obtains a s where "r = Some (Some a, s)" and "k a s = Some (Some b, t)"
  using assms by (auto simp: ok_then_def split: option.splits)

lemma ok_then_split:
  "P (ok_then r k) \<longleftrightarrow>
     (r = None \<longrightarrow> P None) \<and> (\<forall>s. r = Some (None, s) \<longrightarrow> P (Some (None, s))) \<and>
     (\<forall>a s. r = Some (Some a, s) \<longrightarrow> P (k a s))"
  by (auto simp: ok_then_def split: option.splits)

lemma ok_then_assoc:
  "ok_then (ok_then r k) l = ok_then r (\<lambda>a s. ok_then (k a s) l)"
  by (auto simp: ok_then_def split: option.splits)

lemma ok_then_as_bind:
  "ok_then r k =
     Option.bind r (\<lambda>p. case p of (v, s) \<Rightarrow> (case v of None \<Rightarrow> Some (None, s) | Some a \<Rightarrow> k a s))"
  by (auto simp: ok_then_def split: option.splits prod.splits)

lemma ok_then_mono [partial_function_mono]:
  assumes "mono_option B" and "\<And>a s. mono_option (\<lambda>f. C a s f)"
  shows "mono_option (\<lambda>f. ok_then (B f) (\<lambda>a s. C a s f))"
proof -
  have C: "mono_option (\<lambda>f. (case v of None \<Rightarrow> Some (None, s) | Some a \<Rightarrow> C a s f))" for v s
    using assms(2) by (cases v) (auto intro: option.const_mono)
  have "mono_option (\<lambda>f. case r of (v, s) \<Rightarrow> (case v of None \<Rightarrow> Some (None, s) | Some a \<Rightarrow> C a s f))" for r
    using C by (cases r) simp
  with assms(1) show ?thesis unfolding ok_then_as_bind by (rule bind_mono)
qed

subsection \<open>Postconditions\<close>

text \<open>
  \<open>safe Q r\<close>: the computation \<open>r\<close> has no undefined behaviour and its result and final
  state satisfy \<open>Q\<close>. Total correctness of the C function, both return values included.
\<close>

definition safe :: "('a option \<Rightarrow> 's \<Rightarrow> bool) \<Rightarrow> ('a, 's) outcome \<Rightarrow> bool" where
  "safe Q r \<longleftrightarrow> (case r of None \<Rightarrow> False | Some (v, s) \<Rightarrow> Q v s)"

lemma safe_simps [simp]:
  "safe Q None \<longleftrightarrow> False"
  "safe Q (Some (v, s)) \<longleftrightarrow> Q v s"
  by (simp_all add: safe_def)

lemma safeE:
  assumes "safe Q r"
  obtains v s where "r = Some (v, s)" and "Q v s"
proof (cases r)
  case None
  with assms show ?thesis by simp
next
  case (Some p)
  with assms that show ?thesis by (cases p) auto
qed

lemma safe_weaken: "safe Q r \<Longrightarrow> (\<And>v s. Q v s \<Longrightarrow> R v s) \<Longrightarrow> safe R r"
  by (auto elim!: safeE)

lemma safe_ok_then:
  assumes "safe P r"
    and "\<And>s. P None s \<Longrightarrow> Q None s"
    and "\<And>a s. P (Some a) s \<Longrightarrow> safe Q (k a s)"
  shows "safe Q (ok_then r k)"
proof -
  from assms(1) obtain v s where r: "r = Some (v, s)" and P: "P v s" by (rule safeE)
  show ?thesis
  proof (cases v)
    case None
    with r P assms(2) show ?thesis by simp
  next
    case (Some a)
    with r P assms(3) show ?thesis by simp
  qed
qed

lemma safe_not_None: "safe Q r \<Longrightarrow> r \<noteq> None"
  by (auto elim!: safeE)

subsection \<open>Little-endian bytes\<close>

fun le_bytes :: "nat \<Rightarrow> nat \<Rightarrow> u8 list" where
  "le_bytes 0 v = []"
| "le_bytes (Suc n) v = of_nat v # le_bytes n (v div 256)"

fun of_le :: "u8 list \<Rightarrow> nat" where
  "of_le [] = 0"
| "of_le (b # bs) = unat b + 256 * of_le bs"

lemma length_le_bytes [simp]: "length (le_bytes n v) = n"
  by (induction n arbitrary: v) auto

lemma unat_of_nat_u8: "unat (of_nat v :: u8) = v mod 256"
  by (simp add: unat_of_nat)

lemma of_le_le_bytes: "of_le (le_bytes n v) = v mod 256 ^ n"
proof (induction n arbitrary: v)
  case 0
  then show ?case by simp
next
  case (Suc n)
  have "v mod (256 * 256 ^ n) = 256 * (v div 256 mod 256 ^ n) + v mod 256"
    by (rule mod_mult2_eq)
  then show ?case by (simp add: Suc unat_of_nat_u8)
qed

lemma of_le_le_bytes_small [simp]: "v < 256 ^ n \<Longrightarrow> of_le (le_bytes n v) = v"
  by (simp add: of_le_le_bytes)

lemma of_le_less: "of_le bs < 256 ^ length bs"
proof (induction bs)
  case (Cons b bs)
  have "unat b < 256" using unsigned_less [of b] by simp
  with Cons show ?case by simp
qed simp

lemma le_bytes_of_le [simp]: "le_bytes (length bs) (of_le bs) = bs"
proof (induction bs)
  case (Cons b bs)
  have "(of_nat (256 * of_le bs) :: u8) = 0"
    by (rule word_of_nat_eq_0_iff [THEN iffD2]) simp
  then have "(of_nat (unat b + 256 * of_le bs) :: u8) = b" by simp
  moreover have "unat b < 256" using unsigned_less [of b] by simp
  ultimately show ?case using Cons by simp
qed simp

lemma unat_u8_less [simp]: "unat (b :: u8) < 256"
  using unsigned_less [of b] by simp

lemma unat_u32_less [simp]: "unat (w :: u32) < 4294967296"
  using unsigned_less [of w] by simp

lemma unat_u64_less [simp]: "unat (w :: u64) < 18446744073709551616"
  using unsigned_less [of w] by simp

end
