(* ===== verification/Memory.thy ===== *)
theory Memory imports Prelude begin

section \<open>The byte-addressed memory and the heap\<close>

text \<open>
  The structures nanopb encodes from and decodes into are reached through \<open>void*\<close> pointers and
  byte offsets, so the model keeps them as bytes. An address is a natural number, 0 is \<open>NULL\<close>.
  \<open>bytes\<close> maps the addresses that are part of a live object; an access to any other address is
  undefined behaviour and gives \<open>None\<close>. \<open>blocks\<close> holds the live heap blocks with their sizes;
  \<open>brk\<close> is the first address no block has used, and an allocation that would pass \<open>limit\<close>
  fails as \<open>malloc\<close> may. \<open>junk\<close> is the unspecified content of fresh heap memory. The target is the
  one the pods are built for: little endian, 8-byte pointers and \<open>size_t\<close>, 1-byte \<open>bool\<close>.
\<close>

type_synonym addr = nat

record mem =
  bytes :: "addr \<Rightarrow> u8 option"
  blocks :: "addr \<Rightarrow> nat option"
  brk :: addr
  limit :: addr
  junk :: "addr \<Rightarrow> u8"

definition mapped :: "mem \<Rightarrow> addr \<Rightarrow> nat \<Rightarrow> bool" where
  "mapped m a n \<longleftrightarrow> list_all (\<lambda>x. bytes m x \<noteq> None) [a..<a + n]"

definition load_bytes :: "mem \<Rightarrow> addr \<Rightarrow> nat \<Rightarrow> u8 list option" where
  "load_bytes m a n =
     (if mapped m a n then Some (map (\<lambda>x. the (bytes m x)) [a..<a + n]) else None)"

definition store_bytes :: "mem \<Rightarrow> addr \<Rightarrow> u8 list \<Rightarrow> mem option" where
  "store_bytes m a bs =
     (if mapped m a (length bs)
      then Some (m\<lparr>bytes := (\<lambda>x. if a \<le> x \<and> x < a + length bs then Some (bs ! (x - a)) else bytes m x)\<rparr>)
      else None)"

definition load_u8 :: "mem \<Rightarrow> addr \<Rightarrow> u8 option" where
  "load_u8 m a = map_option (\<lambda>bs. of_nat (of_le bs)) (load_bytes m a 1)"

definition load_u16 :: "mem \<Rightarrow> addr \<Rightarrow> u16 option" where
  "load_u16 m a = map_option (\<lambda>bs. of_nat (of_le bs)) (load_bytes m a 2)"

definition load_u32 :: "mem \<Rightarrow> addr \<Rightarrow> u32 option" where
  "load_u32 m a = map_option (\<lambda>bs. of_nat (of_le bs)) (load_bytes m a 4)"

definition load_u64 :: "mem \<Rightarrow> addr \<Rightarrow> u64 option" where
  "load_u64 m a = map_option (\<lambda>bs. of_nat (of_le bs)) (load_bytes m a 8)"

definition load_ptr :: "mem \<Rightarrow> addr \<Rightarrow> addr option" where
  "load_ptr m a = map_option of_le (load_bytes m a 8)"

definition store_u8 :: "mem \<Rightarrow> addr \<Rightarrow> u8 \<Rightarrow> mem option" where
  "store_u8 m a w = store_bytes m a (le_bytes 1 (unat w))"

definition store_u16 :: "mem \<Rightarrow> addr \<Rightarrow> u16 \<Rightarrow> mem option" where
  "store_u16 m a w = store_bytes m a (le_bytes 2 (unat w))"

definition store_u32 :: "mem \<Rightarrow> addr \<Rightarrow> u32 \<Rightarrow> mem option" where
  "store_u32 m a w = store_bytes m a (le_bytes 4 (unat w))"

definition store_u64 :: "mem \<Rightarrow> addr \<Rightarrow> u64 \<Rightarrow> mem option" where
  "store_u64 m a w = store_bytes m a (le_bytes 8 (unat w))"

definition store_ptr :: "mem \<Rightarrow> addr \<Rightarrow> addr \<Rightarrow> mem option" where
  "store_ptr m a p = store_bytes m a (le_bytes 8 p)"

definition memset0 :: "mem \<Rightarrow> addr \<Rightarrow> nat \<Rightarrow> mem option" where
  "memset0 m a n = store_bytes m a (replicate n 0)"

text \<open>
  The C library's \<open>free\<close> and \<open>realloc\<close>: freeing what is not a live block is undefined,
  \<open>realloc\<close> moves to a fresh block, keeps the common prefix, and leaves everything as it was when
  it fails with \<open>NULL\<close>.
\<close>

definition pb_free :: "mem \<Rightarrow> addr \<Rightarrow> mem option" where
  "pb_free m p =
     (if p = 0 then Some m
      else case blocks m p of
        None \<Rightarrow> None
      | Some n \<Rightarrow> Some (m\<lparr>bytes := (\<lambda>x. if p \<le> x \<and> x < p + n then None else bytes m x),
                        blocks := (blocks m)(p := None)\<rparr>))"

definition pb_realloc :: "mem \<Rightarrow> addr \<Rightarrow> nat \<Rightarrow> (addr \<times> mem) option" where
  "pb_realloc m p n =
     (if p \<noteq> 0 \<and> blocks m p = None then None
      else if limit m < brk m + n then Some (0, m)
      else let a = brk m; old = (if p = 0 then 0 else the (blocks m p))
        in Some (a, m\<lparr>
             bytes := (\<lambda>x. if a \<le> x \<and> x < a + n
                           then (if x - a < old then bytes m (p + (x - a)) else Some (junk m x))
                           else if p \<le> x \<and> x < p + old then None else bytes m x),
             blocks := (blocks m)(p := None, a := Some n),
             brk := a + n\<rparr>))"

text \<open>A memory whose only live object is \<open>bs\<close> at address \<open>a\<close>.\<close>

definition one_object :: "addr \<Rightarrow> u8 list \<Rightarrow> mem" where
  "one_object a bs =
     \<lparr>bytes = (\<lambda>x. if a \<le> x \<and> x < a + length bs then Some (bs ! (x - a)) else None),
      blocks = (\<lambda>_. None), brk = a + length bs, limit = a + length bs, junk = (\<lambda>_. 0)\<rparr>"

subsection \<open>Regions\<close>

definition disjoint :: "addr \<Rightarrow> nat \<Rightarrow> addr \<Rightarrow> nat \<Rightarrow> bool" where
  "disjoint a n b k \<longleftrightarrow> a + n \<le> b \<or> b + k \<le> a \<or> n = 0 \<or> k = 0"

text \<open>\<open>frame m m' a n\<close>: the two memories differ in the bytes of \<open>[a, a+n)\<close> only, and the same
  addresses are mapped.\<close>

definition frame :: "mem \<Rightarrow> mem \<Rightarrow> addr \<Rightarrow> nat \<Rightarrow> bool" where
  "frame m m' a n \<longleftrightarrow>
     (\<forall>x. (bytes m' x = None) = (bytes m x = None)) \<and>
     (\<forall>x. x < a \<or> a + n \<le> x \<longrightarrow> bytes m' x = bytes m x) \<and>
     blocks m' = blocks m \<and> brk m' = brk m \<and> limit m' = limit m \<and> junk m' = junk m"

lemma mapped_iff: "mapped m a n \<longleftrightarrow> (\<forall>x. a \<le> x \<and> x < a + n \<longrightarrow> bytes m x \<noteq> None)"
  by (auto simp: mapped_def list_all_iff)

lemma mapped_one_object [simp]: "mapped (one_object a bs) b n = (n = 0 \<or> (a \<le> b \<and> b + n \<le> a + length bs))"
proof (cases n)
  case (Suc k)
  have "mapped (one_object a bs) b n = (\<forall>x. b \<le> x \<and> x < b + n \<longrightarrow> a \<le> x \<and> x < a + length bs)"
    by (auto simp: mapped_iff one_object_def)
  also have "\<dots> = (a \<le> b \<and> b + n \<le> a + length bs)"
  proof (intro iffI conjI)
    assume all: "\<forall>x. b \<le> x \<and> x < b + n \<longrightarrow> a \<le> x \<and> x < a + length bs"
    show "a \<le> b" using all [rule_format, of b] Suc by simp
    show "b + n \<le> a + length bs" using all [rule_format, of "b + k"] Suc by simp
  qed auto
  finally show ?thesis using Suc by simp
qed (simp add: mapped_def)

lemma mapped_sub: "mapped m a n \<Longrightarrow> a \<le> b \<Longrightarrow> b + k \<le> a + n \<Longrightarrow> mapped m b k"
  by (auto simp: mapped_iff)

lemma load_bytes_Some: "load_bytes m a n = Some bs \<Longrightarrow> length bs = n \<and> mapped m a n"
  by (auto simp: load_bytes_def split: if_splits)

lemma load_bytes_mapped [mem_simps]: "mapped m a n \<Longrightarrow> \<exists>bs. load_bytes m a n = Some bs \<and> length bs = n"
  by (simp add: load_bytes_def)

lemma store_bytes_ok [mem_simps]: "mapped m a (length bs) \<Longrightarrow> \<exists>m'. store_bytes m a bs = Some m'"
  by (simp add: store_bytes_def)

lemma store_bytes_mapped: "store_bytes m a bs = Some m' \<Longrightarrow> mapped m a (length bs)"
  by (auto simp: store_bytes_def split: if_splits)

lemma mapped_store [simp]: "store_bytes m a bs = Some m' \<Longrightarrow> mapped m' b n = mapped m b n"
  by (auto simp: store_bytes_def mapped_iff split: if_splits)

lemma bytes_store_same:
  assumes "store_bytes m a bs = Some m'" and "i < length bs"
  shows "bytes m' (a + i) = Some (bs ! i)"
proof -
  have mp: "mapped m a (length bs)" using assms(1) by (rule store_bytes_mapped)
  have "m' = m\<lparr>bytes := (\<lambda>x. if a \<le> x \<and> x < a + length bs then Some (bs ! (x - a)) else bytes m x)\<rparr>"
    using assms(1) unfolding store_bytes_def if_P [OF mp] option.inject by (rule sym)
  then show ?thesis using assms(2) by simp
qed

lemma load_store_same:
  assumes "store_bytes m a bs = Some m'"
  shows "load_bytes m' a (length bs) = Some bs"
proof -
  have "mapped m' a (length bs)"
    using store_bytes_mapped [OF assms] mapped_store [OF assms] by simp
  moreover have "map (\<lambda>x. the (bytes m' x)) [a..<a + length bs] = bs"
    by (rule nth_equalityI) (simp_all add: bytes_store_same [OF assms])
  ultimately show ?thesis by (simp add: load_bytes_def)
qed

lemma frame_refl [simp]: "frame m m a n"
  by (simp add: frame_def)

lemma frame_trans: "frame m m' a n \<Longrightarrow> frame m' m'' a n \<Longrightarrow> frame m m'' a n"
  unfolding frame_def by metis

lemma frame_mono: "frame m m' b k \<Longrightarrow> a \<le> b \<Longrightarrow> b + k \<le> a + n \<Longrightarrow> frame m m' a n"
  by (auto simp: frame_def)

lemma frame_mapped [simp]: "frame m m' a n \<Longrightarrow> mapped m' b k = mapped m b k"
  by (auto simp: frame_def mapped_iff)

lemma store_bytes_frame: "store_bytes m a bs = Some m' \<Longrightarrow> frame m m' a (length bs)"
  by (force simp: store_bytes_def frame_def mapped_iff split: if_splits)

lemma frame_bytes_other: "frame m m' a n \<Longrightarrow> x < a \<or> a + n \<le> x \<Longrightarrow> bytes m' x = bytes m x"
  by (auto simp: frame_def)

lemma load_bytes_cong:
  assumes "\<And>x. b \<le> x \<Longrightarrow> x < b + k \<Longrightarrow> bytes m' x = bytes m x"
  shows "load_bytes m' b k = load_bytes m b k"
proof -
  have "mapped m' b k = mapped m b k" using assms by (auto simp: mapped_iff)
  moreover have "map (\<lambda>x. the (bytes m' x)) [b..<b + k] = map (\<lambda>x. the (bytes m x)) [b..<b + k]"
    using assms by simp
  ultimately show ?thesis by (simp add: load_bytes_def)
qed

lemma frame_load_other:
  assumes "frame m m' a n" and "disjoint a n b k"
  shows "load_bytes m' b k = load_bytes m b k"
proof (rule load_bytes_cong)
  fix x assume "b \<le> x" and "x < b + k"
  with assms(2) have "x < a \<or> a + n \<le> x" by (auto simp: disjoint_def)
  with assms(1) show "bytes m' x = bytes m x" by (rule frame_bytes_other)
qed

lemma load_store_other:
  assumes "store_bytes m a bs = Some m'" and "disjoint a (length bs) b n"
  shows "load_bytes m' b n = load_bytes m b n"
  using store_bytes_frame [OF assms(1)] assms(2) by (rule frame_load_other)

end
