(* ===== verification/Pb_Types.thy ===== *)
theory Pb_Types imports Memory begin

unbundle bit_operations_syntax

section \<open>Field descriptors and constants (pb.h)\<close>

text \<open>
  The data model of \<open>nanopb/pb.h\<close> under the flags of the pods' build settings
  (\<open>PB_FIELD_32BIT\<close>, \<open>PB_NO_PACKED_STRUCTS\<close>, \<open>PB_ENABLE_MALLOC\<close>): \<open>pb_size_t\<close> is a
  32-bit word, \<open>pb_type_t\<close> a byte. A descriptor's \<open>ptr\<close> is \<open>const void*\<close>: a null pointer, the
  descriptor array of a submessage, or the bytes of a default value.
\<close>

subsection \<open>Types of a field\<close>

abbreviation (input) PB_LTYPE_BOOL :: u8 where "PB_LTYPE_BOOL \<equiv> 0x00"
abbreviation (input) PB_LTYPE_VARINT :: u8 where "PB_LTYPE_VARINT \<equiv> 0x01"
abbreviation (input) PB_LTYPE_UVARINT :: u8 where "PB_LTYPE_UVARINT \<equiv> 0x02"
abbreviation (input) PB_LTYPE_SVARINT :: u8 where "PB_LTYPE_SVARINT \<equiv> 0x03"
abbreviation (input) PB_LTYPE_FIXED32 :: u8 where "PB_LTYPE_FIXED32 \<equiv> 0x04"
abbreviation (input) PB_LTYPE_FIXED64 :: u8 where "PB_LTYPE_FIXED64 \<equiv> 0x05"
abbreviation (input) PB_LTYPE_LAST_PACKABLE :: u8 where "PB_LTYPE_LAST_PACKABLE \<equiv> 0x05"
abbreviation (input) PB_LTYPE_BYTES :: u8 where "PB_LTYPE_BYTES \<equiv> 0x06"
abbreviation (input) PB_LTYPE_STRING :: u8 where "PB_LTYPE_STRING \<equiv> 0x07"
abbreviation (input) PB_LTYPE_SUBMESSAGE :: u8 where "PB_LTYPE_SUBMESSAGE \<equiv> 0x08"
abbreviation (input) PB_LTYPE_EXTENSION :: u8 where "PB_LTYPE_EXTENSION \<equiv> 0x09"
abbreviation (input) PB_LTYPE_FIXED_LENGTH_BYTES :: u8 where "PB_LTYPE_FIXED_LENGTH_BYTES \<equiv> 0x0A"

abbreviation (input) PB_HTYPE_REQUIRED :: u8 where "PB_HTYPE_REQUIRED \<equiv> 0x00"
abbreviation (input) PB_HTYPE_OPTIONAL :: u8 where "PB_HTYPE_OPTIONAL \<equiv> 0x10"
abbreviation (input) PB_HTYPE_REPEATED :: u8 where "PB_HTYPE_REPEATED \<equiv> 0x20"
abbreviation (input) PB_HTYPE_ONEOF :: u8 where "PB_HTYPE_ONEOF \<equiv> 0x30"

abbreviation (input) PB_ATYPE_STATIC :: u8 where "PB_ATYPE_STATIC \<equiv> 0x00"
abbreviation (input) PB_ATYPE_POINTER :: u8 where "PB_ATYPE_POINTER \<equiv> 0x80"
abbreviation (input) PB_ATYPE_CALLBACK :: u8 where "PB_ATYPE_CALLBACK \<equiv> 0x40"

definition PB_ATYPE :: "u8 \<Rightarrow> u8" where "PB_ATYPE x = x AND 0xC0"
definition PB_HTYPE :: "u8 \<Rightarrow> u8" where "PB_HTYPE x = x AND 0x30"
definition PB_LTYPE :: "u8 \<Rightarrow> u8" where "PB_LTYPE x = x AND 0x0F"

abbreviation (input) PB_SIZE_MAX :: u32 where "PB_SIZE_MAX \<equiv> 0xFFFFFFFF"
abbreviation (input) PB_MAX_REQUIRED_FIELDS :: nat where "PB_MAX_REQUIRED_FIELDS \<equiv> 64"
abbreviation (input) sizeof_ptr :: nat where "sizeof_ptr \<equiv> 8"

text \<open>Offset of the member \<open>bytes\<close> in \<open>pb_bytes_array_t\<close>, and the size of such a structure.\<close>

abbreviation (input) pb_bytes_offset :: nat where "pb_bytes_offset \<equiv> 4"

definition PB_BYTES_ARRAY_T_ALLOCSIZE :: "u32 \<Rightarrow> u64" where
  "PB_BYTES_ARRAY_T_ALLOCSIZE n = ucast n + of_nat pb_bytes_offset"

subsection \<open>Wire types\<close>

text \<open>\<open>pb_wire_type_t\<close>, stored as the low three bits of a tag: the C code casts any of the
  eight values to the enum.\<close>

type_synonym pb_wire_type = u32

abbreviation (input) PB_WT_VARINT :: pb_wire_type where "PB_WT_VARINT \<equiv> 0"
abbreviation (input) PB_WT_64BIT :: pb_wire_type where "PB_WT_64BIT \<equiv> 1"
abbreviation (input) PB_WT_STRING :: pb_wire_type where "PB_WT_STRING \<equiv> 2"
abbreviation (input) PB_WT_32BIT :: pb_wire_type where "PB_WT_32BIT \<equiv> 5"

subsection \<open>Descriptors\<close>

datatype pb_field =
  Pb_Field (f_tag: u32) (f_type: u8) (f_data_offset: u32) (f_size_offset: "32 word")
    (f_data_size: u32) (f_array_size: u32) (f_ptr: pb_ptr)
and pb_ptr =
  Null_ptr
| Submsg_fields "pb_field list"
| Default_value "u8 list"

definition PB_LAST_FIELD :: pb_field where
  "PB_LAST_FIELD = Pb_Field 0 0 0 0 0 0 Null_ptr"

abbreviation f_ltype :: "pb_field \<Rightarrow> u8" where "f_ltype f \<equiv> PB_LTYPE (f_type f)"
abbreviation f_htype :: "pb_field \<Rightarrow> u8" where "f_htype f \<equiv> PB_HTYPE (f_type f)"
abbreviation f_atype :: "pb_field \<Rightarrow> u8" where "f_atype f \<equiv> PB_ATYPE (f_type f)"

subsection \<open>The masks partition the type byte\<close>

lemma PB_HTYPE_cases:
  obtains "PB_HTYPE x = PB_HTYPE_REQUIRED" | "PB_HTYPE x = PB_HTYPE_OPTIONAL"
    | "PB_HTYPE x = PB_HTYPE_REPEATED" | "PB_HTYPE x = PB_HTYPE_ONEOF"
proof -
  have "PB_HTYPE x = (if bit x 4 then 16 else 0) OR (if bit x 5 then 32 else 0)"
    unfolding PB_HTYPE_def
    by (rule bit_word_eqI) (auto simp: bit_simps less_Suc_eq numeral_eq_Suc)
  then show ?thesis using that by (auto split: if_splits)
qed

lemma PB_ATYPE_cases:
  obtains "PB_ATYPE x = PB_ATYPE_STATIC" | "PB_ATYPE x = PB_ATYPE_CALLBACK"
    | "PB_ATYPE x = PB_ATYPE_POINTER" | "PB_ATYPE x = 0xC0"
proof -
  have "PB_ATYPE x = (if bit x 6 then 64 else 0) OR (if bit x 7 then 128 else 0)"
    unfolding PB_ATYPE_def
    by (rule bit_word_eqI) (auto simp: bit_simps less_Suc_eq numeral_eq_Suc)
  then show ?thesis using that by (auto split: if_splits)
qed

lemma PB_LTYPE_less: "unat (PB_LTYPE x) < 16"
proof -
  have "x AND 0x0F \<le> 0x0F" by (rule word_and_le1)
  then show ?thesis by (simp add: PB_LTYPE_def word_le_nat_alt)
qed

end
