(* ===== verification/Istream.thy ===== *)
theory Istream imports Pb_Types begin

section \<open>Input streams and the wire-format readers (pb_decode.c)\<close>

text \<open>
  \<open>pb_istream_t\<close> and the functions of \<open>pb_decode.c\<close> that read from it without touching a
  destination structure. \<open>i_state\<close> is what the \<open>state\<close> pointer of the C stream points at: for a
  buffer stream the bytes of the caller's buffer from the current position on, for a
  user-supplied callback the bytes of its private state. \<open>bytes_left\<close> is a \<open>size_t\<close>; every
  subtraction from it in the code is guarded, so it is kept as a natural number. A callback
  follows the rules of \<open>pb_decode.h\<close>: it only changes \<open>state\<close>, and on success delivers exactly
  \<open>count\<close> bytes. Error messages are kept as the code sets them.
\<close>

datatype icallback = Buf_read | User_read "u8 list \<Rightarrow> nat \<Rightarrow> bool \<times> u8 list \<times> u8 list"

record istream =
  i_callback :: icallback
  i_state :: "u8 list"
  bytes_left :: nat
  i_errmsg :: "string option"

definition i_set_error :: "istream \<Rightarrow> string \<Rightarrow> istream" where
  "i_set_error s msg =
     s\<lparr>i_errmsg := (case i_errmsg s of None \<Rightarrow> Some msg | Some e \<Rightarrow> Some e)\<rparr>"

definition i_error :: "istream \<Rightarrow> string \<Rightarrow> ('a, istream) outcome" where
  "i_error s msg = Some (None, i_set_error s msg)"

subsection \<open>Reading bytes\<close>

definition buf_read :: "istream \<Rightarrow> nat \<Rightarrow> (u8 list, istream) outcome" where
  "buf_read s count =
     (if count \<le> length (i_state s)
      then Some (Some (take count (i_state s)), s\<lparr>i_state := drop count (i_state s)\<rparr>)
      else None)"

definition i_call :: "istream \<Rightarrow> nat \<Rightarrow> (u8 list, istream) outcome" where
  "i_call s count =
     (case i_callback s of
        Buf_read \<Rightarrow> buf_read s count
      | User_read f \<Rightarrow>
          (case f (i_state s) count of (ok, bs, st) \<Rightarrow>
             if \<not> ok then Some (None, s\<lparr>i_state := st\<rparr>)
             else if length bs = count then Some (Some bs, s\<lparr>i_state := st\<rparr>)
             else None))"

text \<open>The part of \<open>pb_read\<close> after the skipping shortcut.\<close>

definition pb_read_checked :: "istream \<Rightarrow> nat \<Rightarrow> (u8 list, istream) outcome" where
  "pb_read_checked s count =
     (if count = 0 then Some (Some [], s)
      else if bytes_left s < count then i_error s ''end-of-stream''
      else case i_call s count of
          None \<Rightarrow> None
        | Some (None, s') \<Rightarrow> i_error s' ''io error''
        | Some (Some bs, s') \<Rightarrow> Some (Some bs, s'\<lparr>bytes_left := bytes_left s' - count\<rparr>))"

fun pb_read_skip :: "istream \<Rightarrow> nat \<Rightarrow> (u8 list, istream) outcome" where
  "pb_read_skip s count =
     (if count > 16
      then ok_then (pb_read_checked s 16) (\<lambda>_ s'. pb_read_skip s' (count - 16))
      else pb_read_checked s count)"

declare pb_read_skip.simps [simp del]

text \<open>\<open>pb_read stream buf count\<close>: the flag says whether \<open>buf\<close> is not \<open>NULL\<close>; the bytes
  stored through it are the result. A callback that fails has stored nothing; what the C callback may have left in
  the buffer before it failed is not modelled (the callers return at once and do not look at it).\<close>

definition pb_read :: "istream \<Rightarrow> bool \<Rightarrow> nat \<Rightarrow> (u8 list, istream) outcome" where
  "pb_read s buf count =
     (if count = 0 then Some (Some [], s)
      else if \<not> buf \<and> (case i_callback s of Buf_read \<Rightarrow> False | User_read _ \<Rightarrow> True)
      then pb_read_skip s count
      else pb_read_checked s count)"

definition pb_readbyte :: "istream \<Rightarrow> (u8, istream) outcome" where
  "pb_readbyte s =
     (if bytes_left s = 0 then i_error s ''end-of-stream''
      else case i_call s 1 of
          None \<Rightarrow> None
        | Some (None, s') \<Rightarrow> i_error s' ''io error''
        | Some (Some bs, s') \<Rightarrow> Some (Some (hd bs), s'\<lparr>bytes_left := bytes_left s' - 1\<rparr>))"

definition pb_istream_from_buffer :: "u8 list \<Rightarrow> nat \<Rightarrow> istream" where
  "pb_istream_from_buffer buf bufsize =
     \<lparr>i_callback = Buf_read, i_state = buf, bytes_left = bufsize, i_errmsg = None\<rparr>"

lemma i_call_left: "i_call s n = Some (r, s') \<Longrightarrow> bytes_left s' = bytes_left s"
  by (auto simp: i_call_def buf_read_def split: icallback.splits prod.splits if_splits)

lemma pb_readbyte_left: "pb_readbyte s = Some (Some b, s') \<Longrightarrow> bytes_left s' < bytes_left s"
  by (auto simp: pb_readbyte_def i_error_def split: if_splits option.splits dest!: i_call_left)

lemma pb_read_checked_left:
  "pb_read_checked s n = Some (Some b, s') \<Longrightarrow> 0 < n \<Longrightarrow> bytes_left s' < bytes_left s"
  by (auto simp: pb_read_checked_def i_error_def split: if_splits option.splits dest!: i_call_left)

lemma pb_read_left:
  "pb_read s True n = Some (Some b, s') \<Longrightarrow> 0 < n \<Longrightarrow> bytes_left s' < bytes_left s"
  by (auto simp: pb_read_def dest: pb_read_checked_left)

subsection \<open>Varints\<close>

text \<open>
  \<open>pb_decode_varint32_eof\<close>. \<open>bitpos\<close> is a \<open>uint_fast8_t\<close>, 8 bits wide on the target, and wraps.
  The loop returns the accumulated value, the final \<open>bitpos\<close> and the last byte.
\<close>

function varint32_loop :: "istream \<Rightarrow> u8 \<Rightarrow> u32 \<Rightarrow> (u32 \<times> u8 \<times> u8, istream) outcome" where
  "varint32_loop s bitpos result =
     ok_then (pb_readbyte s) (\<lambda>byte s'.
       if bitpos \<ge> 32 \<and> byte AND 0x7F \<noteq> 0 \<and>
          (drop_bit 31 result = 0 \<or> byte \<noteq> (if bitpos < 63 then 0xFF else 0x01))
       then i_error s' ''varint overflow''
       else let result' = (if bitpos \<ge> 32 then result
                           else result OR push_bit (unat bitpos) (ucast (byte AND 0x7F)));
                bitpos' = bitpos + 7
            in if byte AND 0x80 \<noteq> 0 then varint32_loop s' bitpos' result'
               else Some (Some (result', bitpos', byte), s'))"
  by pat_completeness auto
termination
  by (relation "measure (\<lambda>(s, _, _). bytes_left s)") (auto dest: pb_readbyte_left)

declare varint32_loop.simps [simp del]

definition pb_decode_varint32_eof ::
  "istream \<Rightarrow> bool \<Rightarrow> (u32 option \<times> bool \<times> istream) option" where
  "pb_decode_varint32_eof s eof =
     (case pb_readbyte s of
        None \<Rightarrow> None
      | Some (None, s') \<Rightarrow> Some (None, if bytes_left s' = 0 then True else eof, s')
      | Some (Some byte, s') \<Rightarrow>
          if byte AND 0x80 = 0 then Some (Some (ucast byte), eof, s')
          else case varint32_loop s' 7 (ucast (byte AND 0x7F)) of
              None \<Rightarrow> None
            | Some (None, s'') \<Rightarrow> Some (None, eof, s'')
            | Some (Some (result, bitpos, byte'), s'') \<Rightarrow>
                if bitpos = 35 \<and> byte' AND 0x70 \<noteq> 0
                then Some (None, eof, i_set_error s'' ''varint overflow'')
                else Some (Some result, eof, s''))"

definition pb_decode_varint32 :: "istream \<Rightarrow> (u32, istream) outcome" where
  "pb_decode_varint32 s = map_option (\<lambda>(v, _, s'). (v, s')) (pb_decode_varint32_eof s False)"

function varint_loop :: "istream \<Rightarrow> u8 \<Rightarrow> u64 \<Rightarrow> (u64, istream) outcome" where
  "varint_loop s bitpos result =
     (if bitpos \<ge> 64 then i_error s ''varint overflow''
      else ok_then (pb_readbyte s) (\<lambda>byte s'.
        let result' = result OR push_bit (unat bitpos) (ucast (byte AND 0x7F))
        in if byte AND 0x80 \<noteq> 0 then varint_loop s' (bitpos + 7) result'
           else Some (Some result', s')))"
  by pat_completeness auto
termination
  by (relation "measure (\<lambda>(s, _, _). bytes_left s)") (auto dest: pb_readbyte_left)

declare varint_loop.simps [simp del]

definition pb_decode_varint :: "istream \<Rightarrow> (u64, istream) outcome" where
  "pb_decode_varint s = varint_loop s 0 0"

subsection \<open>Skipping\<close>

function pb_skip_varint :: "istream \<Rightarrow> (unit, istream) outcome" where
  "pb_skip_varint s =
     ok_then (pb_read s True 1) (\<lambda>bs s'.
       if hd bs AND 0x80 \<noteq> 0 then pb_skip_varint s' else Some (Some (), s'))"
  by pat_completeness auto
termination
  by (relation "measure bytes_left") (auto dest: pb_read_left)

declare pb_skip_varint.simps [simp del]

definition discard :: "('a, 's) outcome \<Rightarrow> (unit, 's) outcome" where
  "discard r = ok_then r (\<lambda>_ s. Some (Some (), s))"

definition pb_skip_string :: "istream \<Rightarrow> (unit, istream) outcome" where
  "pb_skip_string s =
     ok_then (pb_decode_varint32 s) (\<lambda>length s'. discard (pb_read s' False (unat length)))"

definition pb_skip_field :: "istream \<Rightarrow> pb_wire_type \<Rightarrow> (unit, istream) outcome" where
  "pb_skip_field s wire_type =
     (if wire_type = PB_WT_VARINT then pb_skip_varint s
      else if wire_type = PB_WT_64BIT then discard (pb_read s False 8)
      else if wire_type = PB_WT_STRING then pb_skip_string s
      else if wire_type = PB_WT_32BIT then discard (pb_read s False 4)
      else i_error s ''invalid wire_type'')"

subsection \<open>Tags\<close>

text \<open>The result of \<open>pb_decode_tag\<close>: wire type and tag on success, the end-of-message flag on
  either return.\<close>

definition pb_decode_tag ::
  "istream \<Rightarrow> ((pb_wire_type \<times> u32) option \<times> bool \<times> istream) option" where
  "pb_decode_tag s =
     (case pb_decode_varint32_eof s False of
        None \<Rightarrow> None
      | Some (None, eof, s') \<Rightarrow> Some (None, eof, s')
      | Some (Some temp, eof, s') \<Rightarrow>
          if temp = 0 then Some (None, True, s')
          else Some (Some (temp AND 7, drop_bit 3 temp), eof, s'))"

subsection \<open>Raw values and substreams\<close>

text \<open>The varint case of \<open>read_raw_value\<close>: \<open>size\<close> bytes are read already, \<open>max_size\<close> is the
  size of the caller's buffer; running past it returns \<open>false\<close> with no message.\<close>

function raw_varint_loop :: "istream \<Rightarrow> nat \<Rightarrow> u8 list \<Rightarrow> (u8 list, istream) outcome" where
  "raw_varint_loop s max_size acc =
     (if length acc + 1 > max_size then Some (None, s)
      else ok_then (pb_read s True 1) (\<lambda>bs s'.
        if hd bs AND 0x80 \<noteq> 0 then raw_varint_loop s' max_size (acc @ bs)
        else Some (Some (acc @ bs), s')))"
  by pat_completeness auto
termination
  by (relation "measure (\<lambda>(s, _, _). bytes_left s)") (auto dest: pb_read_left)

declare raw_varint_loop.simps [simp del]

definition read_raw_value :: "istream \<Rightarrow> pb_wire_type \<Rightarrow> nat \<Rightarrow> (u8 list, istream) outcome" where
  "read_raw_value s wire_type max_size =
     (if wire_type = PB_WT_VARINT then raw_varint_loop s max_size []
      else if wire_type = PB_WT_64BIT then pb_read s True 8
      else if wire_type = PB_WT_32BIT then pb_read s True 4
      else i_error s ''invalid wire_type'')"

definition pb_make_string_substream :: "istream \<Rightarrow> (istream, istream) outcome" where
  "pb_make_string_substream s =
     ok_then (pb_decode_varint32 s) (\<lambda>size s'.
       if bytes_left s' < unat size then i_error s' ''parent stream too short''
       else Some (Some (s'\<lparr>bytes_left := unat size\<rparr>),
                  s'\<lparr>bytes_left := bytes_left s' - unat size\<rparr>))"

definition pb_close_string_substream :: "istream \<Rightarrow> istream \<Rightarrow> (unit, istream) outcome" where
  "pb_close_string_substream s substream =
     (case (if bytes_left substream \<noteq> 0 then pb_read substream False (bytes_left substream)
            else Some (Some [], substream)) of
        None \<Rightarrow> None
      | Some (None, _) \<Rightarrow> Some (None, s)
      | Some (Some _, sub') \<Rightarrow>
          Some (Some (), s\<lparr>i_state := i_state sub', i_errmsg := i_errmsg sub'\<rparr>))"

subsection \<open>Scalars\<close>

definition pb_decode_svarint :: "istream \<Rightarrow> (u64, istream) outcome" where
  "pb_decode_svarint s =
     ok_then (pb_decode_varint s) (\<lambda>value s'.
       Some (Some (if value AND 1 \<noteq> 0 then NOT (drop_bit 1 value) else drop_bit 1 value), s'))"

definition pb_decode_fixed32 :: "istream \<Rightarrow> (u32, istream) outcome" where
  "pb_decode_fixed32 s =
     ok_then (pb_read s True 4) (\<lambda>bytes s'.
       Some (Some (push_bit 0 (ucast (bytes ! 0)) OR push_bit 8 (ucast (bytes ! 1)) OR
                   push_bit 16 (ucast (bytes ! 2)) OR push_bit 24 (ucast (bytes ! 3))), s'))"

definition pb_decode_fixed64 :: "istream \<Rightarrow> (u64, istream) outcome" where
  "pb_decode_fixed64 s =
     ok_then (pb_read s True 8) (\<lambda>bytes s'.
       Some (Some (push_bit 0 (ucast (bytes ! 0)) OR push_bit 8 (ucast (bytes ! 1)) OR
                   push_bit 16 (ucast (bytes ! 2)) OR push_bit 24 (ucast (bytes ! 3)) OR
                   push_bit 32 (ucast (bytes ! 4)) OR push_bit 40 (ucast (bytes ! 5)) OR
                   push_bit 48 (ucast (bytes ! 6)) OR push_bit 56 (ucast (bytes ! 7))), s'))"

definition pb_decode_bool :: "istream \<Rightarrow> (bool, istream) outcome" where
  "pb_decode_bool s =
     ok_then (pb_decode_varint32 s) (\<lambda>value s'. Some (Some (value \<noteq> 0), s'))"

end
