(* ===== verification/Ostream.thy ===== *)
theory Ostream imports Pb_Types begin

section \<open>Output streams and the wire-format writers (pb_encode.c)\<close>

text \<open>
  \<open>pb_ostream_t\<close> and the functions of \<open>pb_encode.c\<close> that write values without reading a source
  structure. \<open>o_state\<close> is what the \<open>state\<close> pointer of the C stream points at: the caller's
  buffer with the write position, or a user callback's private state in the same shape.
  \<open>max_size\<close> and \<open>bytes_written\<close> are \<open>size_t\<close> words that wrap. A null callback is a sizing
  stream, which only counts. A callback follows the rules of \<open>pb_encode.h\<close>: it only changes
  \<open>state\<close>.
\<close>

type_synonym ostate = "u8 list \<times> nat"

datatype ocallback = Null_cb | Buf_write | User_write "ostate \<Rightarrow> u8 list \<Rightarrow> bool \<times> ostate"

record ostream =
  o_callback :: ocallback
  o_state :: ostate
  max_size :: u64
  bytes_written :: u64
  o_errmsg :: "string option"

definition o_set_error :: "ostream \<Rightarrow> string \<Rightarrow> ostream" where
  "o_set_error s msg =
     s\<lparr>o_errmsg := (case o_errmsg s of None \<Rightarrow> Some msg | Some e \<Rightarrow> Some e)\<rparr>"

definition o_error :: "ostream \<Rightarrow> string \<Rightarrow> ('a, ostream) outcome" where
  "o_error s msg = Some (None, o_set_error s msg)"

definition PB_OSTREAM_SIZING :: ostream where
  "PB_OSTREAM_SIZING =
     \<lparr>o_callback = Null_cb, o_state = ([], 0), max_size = 0, bytes_written = 0, o_errmsg = None\<rparr>"

abbreviation sizing :: "ostream \<Rightarrow> bool" where
  "sizing s \<equiv> (case o_callback s of Null_cb \<Rightarrow> True | _ \<Rightarrow> False)"

subsection \<open>Writing bytes\<close>

definition buf_write :: "ostream \<Rightarrow> u8 list \<Rightarrow> (unit, ostream) outcome" where
  "buf_write s bs =
     (case o_state s of (buf, pos) \<Rightarrow>
        if pos + length bs \<le> length buf
        then Some (Some (), s\<lparr>o_state := (take pos buf @ bs @ drop (pos + length bs) buf,
                                         pos + length bs)\<rparr>)
        else None)"

definition pb_ostream_from_buffer :: "u8 list \<Rightarrow> u64 \<Rightarrow> ostream" where
  "pb_ostream_from_buffer buf bufsize =
     \<lparr>o_callback = Buf_write, o_state = (buf, 0), max_size = bufsize, bytes_written = 0,
      o_errmsg = None\<rparr>"

definition o_call :: "ostream \<Rightarrow> u8 list \<Rightarrow> (unit, ostream) outcome" where
  "o_call s bs =
     (case o_callback s of
        Null_cb \<Rightarrow> None
      | Buf_write \<Rightarrow> buf_write s bs
      | User_write f \<Rightarrow>
          (case f (o_state s) bs of (ok, st) \<Rightarrow>
             Some (if ok then Some () else None, s\<lparr>o_state := st\<rparr>)))"

text \<open>\<open>pb_write stream buf count\<close>: \<open>None\<close> stands for a \<open>NULL\<close> buffer; a buffer of fewer than
  \<open>count\<close> bytes is read past its end.\<close>

definition pb_write :: "ostream \<Rightarrow> u8 list option \<Rightarrow> u64 \<Rightarrow> (unit, ostream) outcome" where
  "pb_write s buf count =
     (if count > 0 \<and> \<not> sizing s
      then if bytes_written s + count < bytes_written s \<or> bytes_written s + count > max_size s
        then o_error s ''stream full''
        else case buf of
            None \<Rightarrow> None
          | Some bs \<Rightarrow>
              if length bs < unat count then None
              else case o_call s (take (unat count) bs) of
                  None \<Rightarrow> None
                | Some (None, s') \<Rightarrow> o_error s' ''io error''
                | Some (Some _, s') \<Rightarrow>
                    Some (Some (), s'\<lparr>bytes_written := bytes_written s' + count\<rparr>)
      else Some (Some (), s\<lparr>bytes_written := bytes_written s + count\<rparr>))"

subsection \<open>Varints and fixed-width integers\<close>

text \<open>The bytes the loop of \<open>pb_encode_varint\<close> stores into its local buffer, before the top bit
  of the last one is cleared.\<close>

function encode_varint_loop :: "u64 \<Rightarrow> u8 list" where
  "encode_varint_loop value =
     (if value = 0 then []
      else (ucast (value AND 0x7F) OR 0x80) # encode_varint_loop (drop_bit 7 value))"
  by pat_completeness auto
termination
proof (relation "measure unat", goal_cases)
  case (2 w)
  have "unat (drop_bit 7 w) = unat w div 2 ^ 7"
    by (metis drop_bit_eq_div unat_drop_bit_eq)
  moreover have "0 < unat w" using 2 by (simp add: unat_gt_0)
  ultimately show ?case by simp
qed simp

declare encode_varint_loop.simps [simp del]

definition pb_encode_varint :: "ostream \<Rightarrow> u64 \<Rightarrow> (unit, ostream) outcome" where
  "pb_encode_varint s value =
     (if value \<le> 0x7F then pb_write s (Some [ucast value]) 1
      else let buffer = encode_varint_loop value; i = length buffer
           in pb_write s (Some (buffer[i - 1 := buffer ! (i - 1) AND 0x7F])) (of_nat i))"

definition pb_encode_svarint :: "ostream \<Rightarrow> u64 \<Rightarrow> (unit, ostream) outcome" where
  "pb_encode_svarint s value =
     pb_encode_varint s (if sint value < 0 then NOT (push_bit 1 value) else push_bit 1 value)"

definition pb_encode_fixed32 :: "ostream \<Rightarrow> u32 \<Rightarrow> (unit, ostream) outcome" where
  "pb_encode_fixed32 s val =
     pb_write s (Some [ucast (val AND 0xFF), ucast (drop_bit 8 val AND 0xFF),
                       ucast (drop_bit 16 val AND 0xFF), ucast (drop_bit 24 val AND 0xFF)]) 4"

definition pb_encode_fixed64 :: "ostream \<Rightarrow> u64 \<Rightarrow> (unit, ostream) outcome" where
  "pb_encode_fixed64 s val =
     pb_write s (Some [ucast (val AND 0xFF), ucast (drop_bit 8 val AND 0xFF),
                       ucast (drop_bit 16 val AND 0xFF), ucast (drop_bit 24 val AND 0xFF),
                       ucast (drop_bit 32 val AND 0xFF), ucast (drop_bit 40 val AND 0xFF),
                       ucast (drop_bit 48 val AND 0xFF), ucast (drop_bit 56 val AND 0xFF)]) 8"

subsection \<open>Tags and length-delimited values\<close>

definition pb_encode_tag :: "ostream \<Rightarrow> pb_wire_type \<Rightarrow> u32 \<Rightarrow> (unit, ostream) outcome" where
  "pb_encode_tag s wiretype field_number =
     pb_encode_varint s (push_bit 3 (ucast field_number) OR ucast wiretype)"

definition pb_encode_tag_for_field :: "ostream \<Rightarrow> pb_field \<Rightarrow> (unit, ostream) outcome" where
  "pb_encode_tag_for_field s field =
     (let lt = PB_LTYPE (f_type field) in
      if lt = PB_LTYPE_BOOL \<or> lt = PB_LTYPE_VARINT \<or> lt = PB_LTYPE_UVARINT \<or> lt = PB_LTYPE_SVARINT
      then pb_encode_tag s PB_WT_VARINT (f_tag field)
      else if lt = PB_LTYPE_FIXED32 then pb_encode_tag s PB_WT_32BIT (f_tag field)
      else if lt = PB_LTYPE_FIXED64 then pb_encode_tag s PB_WT_64BIT (f_tag field)
      else if lt = PB_LTYPE_BYTES \<or> lt = PB_LTYPE_STRING \<or> lt = PB_LTYPE_SUBMESSAGE \<or>
              lt = PB_LTYPE_FIXED_LENGTH_BYTES
      then pb_encode_tag s PB_WT_STRING (f_tag field)
      else o_error s ''invalid field type'')"

definition pb_encode_string :: "ostream \<Rightarrow> u8 list option \<Rightarrow> u64 \<Rightarrow> (unit, ostream) outcome" where
  "pb_encode_string s buffer sz =
     ok_then (pb_encode_varint s sz) (\<lambda>_ s'. pb_write s' buffer sz)"

end
