(* ===== verification/User_Code.thy ===== *)
theory User_Code imports Istream Ostream begin

section \<open>Code supplied by the library's user\<close>

text \<open>
  Callback fields and extension handlers are function pointers to code that is not part of the
  library. The model takes them as a parameter: \<open>user_code\<close> says which function each pointer
  value found in memory calls (\<open>None\<close>: the pointer calls nothing valid, so the call is
  undefined). A decoding callback reads a stream and may write memory; an encoding callback
  writes a stream and reads memory. The objects they hang on are in memory:
  \<open>pb_callback_t\<close> is \<open>{funcs @0, arg @8}\<close> and \<open>pb_extension_t\<close> is
  \<open>{type @0, dest @8, next @16, found @24}\<close>.
\<close>

record pb_extension_type =
  x_decode :: addr
  x_encode :: addr
  x_arg :: pb_field

record user_code =
  u_decode :: "addr \<Rightarrow> (istream \<Rightarrow> pb_field \<Rightarrow> addr \<Rightarrow> mem \<Rightarrow> (unit, istream \<times> mem) outcome) option"
  u_encode :: "addr \<Rightarrow> (mem \<Rightarrow> ostream \<Rightarrow> pb_field \<Rightarrow> addr \<Rightarrow> (unit, ostream) outcome) option"
  u_ext_type :: "addr \<Rightarrow> pb_extension_type option"
  u_ext_decode :: "addr \<Rightarrow>
     (istream \<Rightarrow> addr \<Rightarrow> u32 \<Rightarrow> pb_wire_type \<Rightarrow> mem \<Rightarrow> (unit, istream \<times> mem) outcome) option"
  u_ext_encode :: "addr \<Rightarrow> (mem \<Rightarrow> ostream \<Rightarrow> addr \<Rightarrow> (unit, ostream) outcome) option"

definition no_user_code :: user_code where
  "no_user_code = \<lparr>u_decode = (\<lambda>_. None), u_encode = (\<lambda>_. None), u_ext_type = (\<lambda>_. None),
                   u_ext_decode = (\<lambda>_. None), u_ext_encode = (\<lambda>_. None)\<rparr>"

definition extension_type :: "user_code \<Rightarrow> mem \<Rightarrow> addr \<Rightarrow> pb_extension_type option" where
  "extension_type u m extn = do { t \<leftarrow> load_ptr m extn; u_ext_type u t }"

definition extension_dest :: "mem \<Rightarrow> addr \<Rightarrow> addr option" where
  "extension_dest m extn = load_ptr m (extn + 8)"

definition extension_next :: "mem \<Rightarrow> addr \<Rightarrow> addr option" where
  "extension_next m extn = load_ptr m (extn + 16)"

end
