(* ===== verification/Field_Iter.thy ===== *)
theory Field_Iter imports Pb_Types begin

section \<open>The field iterator (pb_common.c)\<close>

text \<open>
  \<open>pb_field_iter_t\<close> and its three operations. The descriptor array \<open>start\<close> is a list that ends
  with \<open>PB_LAST_FIELD\<close> (tag 0); \<open>pos\<close> is an index into it, and a read past its end is undefined.
  \<open>pSize\<close> normally points into the message structure (\<open>In_struct\<close>); \<open>pb_decode_noinit\<close> makes it
  point to one of its own locals, the counter of a fixed-count field (\<open>Local_count\<close>).
  \<open>do_while_next\<close> is the loop \<open>do { body } while (pb_field_iter_next(&iter))\<close> of all the
  functions that walk a message.
\<close>

datatype size_loc = In_struct addr | Local_count

record pb_field_iter =
  start :: "pb_field list"
  pos :: nat
  required_field_index :: nat
  dest_struct :: addr
  pData :: addr
  pSize :: size_loc

definition field_at :: "pb_field list \<Rightarrow> nat \<Rightarrow> pb_field option" where
  "field_at fds i = (if i < length fds then Some (fds ! i) else None)"

definition offset_addr :: "addr \<Rightarrow> 32 word \<Rightarrow> addr" where
  "offset_addr p d = nat (int p + sint d)"

definition pb_field_iter_begin :: "pb_field list \<Rightarrow> addr \<Rightarrow> (bool \<times> pb_field_iter) option" where
  "pb_field_iter_begin fds dest =
     do { f \<leftarrow> field_at fds 0;
          let d = dest + unat (f_data_offset f);
          Some (f_tag f \<noteq> 0,
                \<lparr>start = fds, pos = 0, required_field_index = 0, dest_struct = dest,
                 pData = d, pSize = In_struct (offset_addr d (f_size_offset f))\<rparr>) }"

text \<open>The size by which \<open>pb_field_iter_next\<close> moves \<open>pData\<close> past the previous field.\<close>

definition prev_field_size :: "pb_field \<Rightarrow> nat" where
  "prev_field_size prev =
     (if PB_ATYPE (f_type prev) = PB_ATYPE_STATIC \<and> PB_HTYPE (f_type prev) = PB_HTYPE_REPEATED
      then unat (f_data_size prev) * unat (f_array_size prev)
      else if PB_ATYPE (f_type prev) = PB_ATYPE_POINTER then sizeof_ptr
      else unat (f_data_size prev))"

definition pb_field_iter_next :: "pb_field_iter \<Rightarrow> (bool \<times> pb_field_iter) option" where
  "pb_field_iter_next it =
     do { prev \<leftarrow> field_at (start it) (pos it);
          if f_tag prev = 0 then Some (False, it)
          else do { f \<leftarrow> field_at (start it) (Suc (pos it));
            if f_tag f = 0
            then map_option (\<lambda>(_, it'). (False, it')) (pb_field_iter_begin (start it) (dest_struct it))
            else if PB_HTYPE (f_type prev) = PB_HTYPE_ONEOF \<and> PB_HTYPE (f_type f) = PB_HTYPE_ONEOF \<and>
                    f_data_offset f = PB_SIZE_MAX
            then Some (True, it\<lparr>pos := Suc (pos it)\<rparr>)
            else let d = pData it + prev_field_size prev + unat (f_data_offset f)
              in Some (True, it\<lparr>pos := Suc (pos it),
                   required_field_index := (if PB_HTYPE (f_type prev) = PB_HTYPE_REQUIRED
                                            then Suc (required_field_index it)
                                            else required_field_index it),
                   pData := d, pSize := In_struct (offset_addr d (f_size_offset f))\<rparr>) } }"

text \<open>The \<open>do ... while (iter->pos != start)\<close> loops of \<open>pb_field_iter_find\<close> and
  \<open>find_extension_field\<close>: \<open>p\<close> is the test of the loop body.\<close>

partial_function (option) iter_search ::
  "(pb_field \<Rightarrow> bool) \<Rightarrow> nat \<Rightarrow> pb_field_iter \<Rightarrow> (bool \<times> pb_field_iter) option" where
  "iter_search p first it =
     do { f \<leftarrow> field_at (start it) (pos it);
          if p f then Some (True, it)
          else do { (_, it') \<leftarrow> pb_field_iter_next it;
                    if pos it' \<noteq> first then iter_search p first it' else Some (False, it') } }"

declare iter_search.simps [code]

definition pb_field_iter_find :: "pb_field_iter \<Rightarrow> u32 \<Rightarrow> (bool \<times> pb_field_iter) option" where
  "pb_field_iter_find it tag =
     iter_search (\<lambda>f. f_tag f = tag \<and> PB_LTYPE (f_type f) \<noteq> PB_LTYPE_EXTENSION) (pos it) it"

partial_function (option) do_while_next ::
  "(pb_field_iter \<Rightarrow> 's \<Rightarrow> (unit, 's) outcome) \<Rightarrow> pb_field_iter \<Rightarrow> 's \<Rightarrow> (unit, 's) outcome" where
  "do_while_next body it s =
     ok_then (body it s) (\<lambda>_ s'.
       do { (again, it') \<leftarrow> pb_field_iter_next it;
            if again then do_while_next body it' s' else Some (Some (), s') })"

declare do_while_next.simps [code]

end
