(* ===== verification/Encode.thy ===== *)
theory Encode imports User_Code Field_Iter begin

section \<open>Encoding a message (pb_encode.c)\<close>

text \<open>
  The functions of \<open>pb_encode.c\<close> that read a message structure from memory and write it to a
  stream. The source structure is \<open>const\<close>, so the memory is only read. \<open>d\<close> bounds the depth of
  nested messages (the recursion \<open>pb_encode \<rightarrow> ... \<rightarrow> pb_encode_submessage \<rightarrow> pb_encode\<close>); a
  helper receives the encoder of the next level as \<open>enc\<close>. A depth of more than the nesting of
  the descriptors is enough.
\<close>

definition safe_read_bool :: "mem \<Rightarrow> addr \<Rightarrow> bool option" where
  "safe_read_bool m p = map_option (\<lambda>b. b \<noteq> 0) (load_u8 m p)"

subsection \<open>Submessages\<close>

definition pb_encode_submessage ::
  "(ostream \<Rightarrow> pb_field list \<Rightarrow> addr \<Rightarrow> (unit, ostream) outcome) \<Rightarrow>
   ostream \<Rightarrow> pb_field list \<Rightarrow> addr \<Rightarrow> (unit, ostream) outcome" where
  "pb_encode_submessage enc s fds src =
     (case enc PB_OSTREAM_SIZING fds src of
        None \<Rightarrow> None
      | Some (None, sub) \<Rightarrow> Some (None, s\<lparr>o_errmsg := o_errmsg sub\<rparr>)
      | Some (Some _, sub) \<Rightarrow>
          (let sz = bytes_written sub in
           ok_then (pb_encode_varint s sz) (\<lambda>_ s1.
             if sizing s1 then pb_write s1 None sz
             else if bytes_written s1 + sz > max_size s1 then o_error s1 ''stream full''
             else case enc (s1\<lparr>max_size := sz, bytes_written := 0, o_errmsg := None\<rparr>) fds src of
                 None \<Rightarrow> None
               | Some (status, sub2) \<Rightarrow>
                   (let s2 = s1\<lparr>bytes_written := bytes_written s1 + bytes_written sub2,
                                o_state := o_state sub2, o_errmsg := o_errmsg sub2\<rparr>
                    in if bytes_written sub2 \<noteq> sz then o_error s2 ''submsg size changed''
                       else Some (status, s2)))))"

subsection \<open>Field encoders\<close>

definition pb_enc_bool :: "mem \<Rightarrow> ostream \<Rightarrow> pb_field \<Rightarrow> addr \<Rightarrow> (unit, ostream) outcome" where
  "pb_enc_bool m s field src =
     do { b \<leftarrow> safe_read_bool m src; pb_encode_varint s (if b then 1 else 0) }"

text \<open>The integer an \<open>n\<close>-byte field holds, widened to \<open>int64_t\<close> or \<open>uint64_t\<close>;
  the inner \<open>None\<close> is the unsupported size.\<close>

definition read_signed :: "mem \<Rightarrow> u32 \<Rightarrow> addr \<Rightarrow> u64 option option" where
  "read_signed m n src =
     (if n = 1 then map_option (\<lambda>w. Some (scast w)) (load_u8 m src)
      else if n = 2 then map_option (\<lambda>w. Some (scast w)) (load_u16 m src)
      else if n = 4 then map_option (\<lambda>w. Some (scast w)) (load_u32 m src)
      else if n = 8 then map_option Some (load_u64 m src)
      else Some None)"

definition read_unsigned :: "mem \<Rightarrow> u32 \<Rightarrow> addr \<Rightarrow> u64 option option" where
  "read_unsigned m n src =
     (if n = 1 then map_option (\<lambda>w. Some (ucast w)) (load_u8 m src)
      else if n = 2 then map_option (\<lambda>w. Some (ucast w)) (load_u16 m src)
      else if n = 4 then map_option (\<lambda>w. Some (ucast w)) (load_u32 m src)
      else if n = 8 then map_option Some (load_u64 m src)
      else Some None)"

definition pb_enc_varint :: "mem \<Rightarrow> ostream \<Rightarrow> pb_field \<Rightarrow> addr \<Rightarrow> (unit, ostream) outcome" where
  "pb_enc_varint m s field src =
     do { v \<leftarrow> read_signed m (f_data_size field) src;
          case v of None \<Rightarrow> o_error s ''invalid data_size'' | Some w \<Rightarrow> pb_encode_varint s w }"

definition pb_enc_uvarint :: "mem \<Rightarrow> ostream \<Rightarrow> pb_field \<Rightarrow> addr \<Rightarrow> (unit, ostream) outcome" where
  "pb_enc_uvarint m s field src =
     do { v \<leftarrow> read_unsigned m (f_data_size field) src;
          case v of None \<Rightarrow> o_error s ''invalid data_size'' | Some w \<Rightarrow> pb_encode_varint s w }"

definition pb_enc_svarint :: "mem \<Rightarrow> ostream \<Rightarrow> pb_field \<Rightarrow> addr \<Rightarrow> (unit, ostream) outcome" where
  "pb_enc_svarint m s field src =
     do { v \<leftarrow> read_signed m (f_data_size field) src;
          case v of None \<Rightarrow> o_error s ''invalid data_size'' | Some w \<Rightarrow> pb_encode_svarint s w }"

definition pb_enc_fixed32 :: "mem \<Rightarrow> ostream \<Rightarrow> pb_field \<Rightarrow> addr \<Rightarrow> (unit, ostream) outcome" where
  "pb_enc_fixed32 m s field src = do { v \<leftarrow> load_u32 m src; pb_encode_fixed32 s v }"

definition pb_enc_fixed64 :: "mem \<Rightarrow> ostream \<Rightarrow> pb_field \<Rightarrow> addr \<Rightarrow> (unit, ostream) outcome" where
  "pb_enc_fixed64 m s field src = do { v \<leftarrow> load_u64 m src; pb_encode_fixed64 s v }"

text \<open>The bytes a pointer points at are handed to \<open>pb_encode_string\<close> as they are in memory; a
  sizing stream never reads them, so an unreadable region is an error only for a real write.\<close>

definition pb_enc_bytes :: "mem \<Rightarrow> ostream \<Rightarrow> pb_field \<Rightarrow> addr \<Rightarrow> (unit, ostream) outcome" where
  "pb_enc_bytes m s field src =
     (if src = 0 then pb_encode_string s None 0
      else do { sz \<leftarrow> load_u32 m src;
        let allocsize = PB_BYTES_ARRAY_T_ALLOCSIZE sz;
        if allocsize < ucast sz \<or>
           (PB_ATYPE (f_type field) = PB_ATYPE_STATIC \<and> allocsize > ucast (f_data_size field))
        then o_error s ''bytes size exceeded''
        else pb_encode_string s (load_bytes m (src + pb_bytes_offset) (unat sz)) (ucast sz) })"

partial_function (option) string_length :: "mem \<Rightarrow> addr \<Rightarrow> nat \<Rightarrow> nat \<Rightarrow> nat option" where
  "string_length m p sz max_sz =
     (if sz < max_sz
      then do { c \<leftarrow> load_u8 m p;
                if c \<noteq> 0 then string_length m (p + 1) (sz + 1) max_sz else Some sz }
      else Some sz)"

declare string_length.simps [code]

definition pb_enc_string :: "mem \<Rightarrow> ostream \<Rightarrow> pb_field \<Rightarrow> addr \<Rightarrow> (unit, ostream) outcome" where
  "pb_enc_string m s field src =
     do { sz \<leftarrow> (if src = 0 then Some 0
                 else string_length m src 0
                   (if PB_ATYPE (f_type field) = PB_ATYPE_POINTER then 2 ^ 64 - 1
                    else unat (f_data_size field)));
          pb_encode_string s (load_bytes m src sz) (of_nat sz) }"

definition pb_enc_submessage ::
  "(ostream \<Rightarrow> pb_field list \<Rightarrow> addr \<Rightarrow> (unit, ostream) outcome) \<Rightarrow>
   ostream \<Rightarrow> pb_field \<Rightarrow> addr \<Rightarrow> (unit, ostream) outcome" where
  "pb_enc_submessage enc s field src =
     (case f_ptr field of
        Null_ptr \<Rightarrow> o_error s ''invalid field descriptor''
      | Submsg_fields fds \<Rightarrow> pb_encode_submessage enc s fds src
      | Default_value _ \<Rightarrow> None)"

definition pb_enc_fixed_length_bytes ::
  "mem \<Rightarrow> ostream \<Rightarrow> pb_field \<Rightarrow> addr \<Rightarrow> (unit, ostream) outcome" where
  "pb_enc_fixed_length_bytes m s field src =
     pb_encode_string s (load_bytes m src (unat (f_data_size field))) (ucast (f_data_size field))"

text \<open>\<open>PB_ENCODERS\<close>: the table indexed by the field's LTYPE; calling the null entry of
  extensions is undefined.\<close>

definition PB_ENCODERS ::
  "(ostream \<Rightarrow> pb_field list \<Rightarrow> addr \<Rightarrow> (unit, ostream) outcome) \<Rightarrow> mem \<Rightarrow> u8 \<Rightarrow>
   ostream \<Rightarrow> pb_field \<Rightarrow> addr \<Rightarrow> (unit, ostream) outcome" where
  "PB_ENCODERS enc m lt =
     (if lt = PB_LTYPE_BOOL then pb_enc_bool m
      else if lt = PB_LTYPE_VARINT then pb_enc_varint m
      else if lt = PB_LTYPE_UVARINT then pb_enc_uvarint m
      else if lt = PB_LTYPE_SVARINT then pb_enc_svarint m
      else if lt = PB_LTYPE_FIXED32 then pb_enc_fixed32 m
      else if lt = PB_LTYPE_FIXED64 then pb_enc_fixed64 m
      else if lt = PB_LTYPE_BYTES then pb_enc_bytes m
      else if lt = PB_LTYPE_STRING then pb_enc_string m
      else if lt = PB_LTYPE_SUBMESSAGE then pb_enc_submessage enc
      else if lt = PB_LTYPE_FIXED_LENGTH_BYTES then pb_enc_fixed_length_bytes m
      else (\<lambda>_ _ _. None))"

subsection \<open>Arrays\<close>

text \<open>The loop \<open>for (i = 0; i < count; i++) { ...; p += data_size; }\<close>.\<close>

fun each_item ::
  "(addr \<Rightarrow> 's \<Rightarrow> (unit, 's) outcome) \<Rightarrow> addr \<Rightarrow> nat \<Rightarrow> nat \<Rightarrow> 's \<Rightarrow> (unit, 's) outcome" where
  "each_item f p step 0 s = Some (Some (), s)"
| "each_item f p step (Suc n) s = ok_then (f p s) (\<lambda>_ s'. each_item f (p + step) step n s')"

definition encode_array ::
  "mem \<Rightarrow> ostream \<Rightarrow> pb_field \<Rightarrow> addr \<Rightarrow> nat \<Rightarrow>
   (ostream \<Rightarrow> pb_field \<Rightarrow> addr \<Rightarrow> (unit, ostream) outcome) \<Rightarrow> (unit, ostream) outcome" where
  "encode_array m s field p count func =
     (let ft = f_type field; step = unat (f_data_size field) in
      if count = 0 then Some (Some (), s)
      else if PB_ATYPE ft \<noteq> PB_ATYPE_POINTER \<and> count > unat (f_array_size field)
      then o_error s ''array max size exceeded''
      else if PB_LTYPE ft \<le> PB_LTYPE_LAST_PACKABLE
      then ok_then (pb_encode_tag s PB_WT_STRING (f_tag field)) (\<lambda>_ s1.
        case (if PB_LTYPE ft = PB_LTYPE_FIXED32 then Some (Some (4 * of_nat count))
              else if PB_LTYPE ft = PB_LTYPE_FIXED64 then Some (Some (8 * of_nat count))
              else case each_item (\<lambda>a t. func t field a) p step count PB_OSTREAM_SIZING of
                  None \<Rightarrow> None
                | Some (None, _) \<Rightarrow> Some None
                | Some (Some _, sub) \<Rightarrow> Some (Some (bytes_written sub))) of
          None \<Rightarrow> None
        | Some None \<Rightarrow> Some (None, s1)
        | Some (Some sz) \<Rightarrow>
            ok_then (pb_encode_varint s1 sz) (\<lambda>_ s2.
              if sizing s2 then pb_write s2 None sz
              else each_item (\<lambda>a t. func t field a) p step count s2))
      else each_item (\<lambda>a t.
        ok_then (pb_encode_tag_for_field t field) (\<lambda>_ t1.
          if PB_ATYPE ft = PB_ATYPE_POINTER \<and>
             (PB_LTYPE ft = PB_LTYPE_STRING \<or> PB_LTYPE ft = PB_LTYPE_BYTES)
          then do { a' \<leftarrow> load_ptr m a; func t1 field a' }
          else func t1 field a)) p step count s)"

subsection \<open>The proto3 default test\<close>

fun bytes_all_zero :: "mem \<Rightarrow> addr \<Rightarrow> nat \<Rightarrow> bool option" where
  "bytes_all_zero m p 0 = Some True"
| "bytes_all_zero m p (Suc n) =
     do { b \<leftarrow> load_u8 m p; if b \<noteq> 0 then Some False else bytes_all_zero m (p + 1) n }"

primrec pb_check_proto3_default_value :: "nat \<Rightarrow> mem \<Rightarrow> pb_field \<Rightarrow> addr \<Rightarrow> bool option" where
  "pb_check_proto3_default_value 0 m field p = None"
| "pb_check_proto3_default_value (Suc d) m field p =
     (let ft = f_type field;
          p_size = offset_addr p (f_size_offset field);
          rest =
            (if PB_ATYPE ft = PB_ATYPE_STATIC \<and> PB_LTYPE ft = PB_LTYPE_BYTES
             then map_option (\<lambda>n. n = 0) (load_u32 m p)
             else if PB_ATYPE ft = PB_ATYPE_STATIC \<and> PB_LTYPE ft = PB_LTYPE_STRING
             then map_option (\<lambda>c. c = 0) (load_u8 m p)
             else if PB_ATYPE ft = PB_ATYPE_STATIC \<and> PB_LTYPE ft = PB_LTYPE_FIXED_LENGTH_BYTES
             then Some (f_data_size field = 0)
             else if PB_ATYPE ft = PB_ATYPE_STATIC \<and> PB_LTYPE ft = PB_LTYPE_SUBMESSAGE
             then (case f_ptr field of
                 Submsg_fields fds \<Rightarrow>
                   do { (nonempty, it) \<leftarrow> pb_field_iter_begin fds p;
                        if nonempty
                        then map_option (\<lambda>(r, _). r \<noteq> None)
                          (do_while_next (\<lambda>it (_::unit).
                             do { f \<leftarrow> field_at (start it) (pos it);
                                  z \<leftarrow> pb_check_proto3_default_value d m f (pData it);
                                  Some (if z then Some () else None, ()) }) it ())
                        else Some True }
               | _ \<Rightarrow> None)
             else if PB_ATYPE ft = PB_ATYPE_POINTER \<and> PB_LTYPE ft > PB_LTYPE_LAST_PACKABLE
             then map_option (\<lambda>q. q = 0) (load_ptr m p)
             else bytes_all_zero m p (unat (f_data_size field)))
      in if PB_HTYPE ft = PB_HTYPE_REQUIRED then Some False
         else if PB_HTYPE ft = PB_HTYPE_REPEATED
         then (if f_size_offset field \<noteq> 0 then map_option (\<lambda>n. n = 0) (load_u32 m p_size)
               else if PB_ATYPE ft = PB_ATYPE_STATIC then Some False
               else rest)
         else if PB_HTYPE ft = PB_HTYPE_ONEOF then map_option (\<lambda>n. n = 0) (load_u32 m p_size)
         else if PB_HTYPE ft = PB_HTYPE_OPTIONAL \<and> f_size_offset field \<noteq> 0
         then map_option Not (safe_read_bool m p_size)
         else rest)"

subsection \<open>Fields\<close>

text \<open>In \<open>encode_basic_field\<close> the pointer \<open>pSize\<close> is \<open>None\<close> while it points to the local
  \<open>implicit_has\<close>, whose content is \<open>has\<close>.\<close>

definition encode_basic_field ::
  "nat \<Rightarrow> (ostream \<Rightarrow> pb_field list \<Rightarrow> addr \<Rightarrow> (unit, ostream) outcome) \<Rightarrow> mem \<Rightarrow>
   ostream \<Rightarrow> pb_field \<Rightarrow> addr \<Rightarrow> (unit, ostream) outcome" where
  "encode_basic_field d enc m s field p =
     (if PB_LTYPE (f_type field) > 0x0A then None
      else
      let ft = f_type field;
          func = PB_ENCODERS enc m (PB_LTYPE ft);
          p_size = (if f_size_offset field \<noteq> 0 then Some (offset_addr p (f_size_offset field)) else None)
      in do {
        has \<leftarrow> (if f_size_offset field \<noteq> 0 then Some False
                else if PB_HTYPE ft = PB_HTYPE_OPTIONAL
                then map_option Not (pb_check_proto3_default_value d m field p)
                else Some True);
        (p', has') \<leftarrow> (if PB_ATYPE ft = PB_ATYPE_POINTER
                then map_option (\<lambda>q. (q, q \<noteq> 0)) (load_ptr m p)
                else Some (p, has));
        if PB_HTYPE ft = PB_HTYPE_REQUIRED
        then (if p' = 0 then o_error s ''missing required field''
              else ok_then (pb_encode_tag_for_field s field) (\<lambda>_ s1. func s1 field p'))
        else if PB_HTYPE ft = PB_HTYPE_OPTIONAL
        then do { present \<leftarrow> (case p_size of None \<Rightarrow> Some has' | Some a \<Rightarrow> safe_read_bool m a);
                  if present
                  then ok_then (pb_encode_tag_for_field s field) (\<lambda>_ s1. func s1 field p')
                  else Some (Some (), s) }
        else if PB_HTYPE ft = PB_HTYPE_REPEATED
        then do { count \<leftarrow> (case p_size of None \<Rightarrow> Some (f_array_size field) | Some a \<Rightarrow> load_u32 m a);
                  encode_array m s field p' (unat count) func }
        else if PB_HTYPE ft = PB_HTYPE_ONEOF
        then do { which \<leftarrow> (case p_size of None \<Rightarrow> None | Some a \<Rightarrow> load_u32 m a);
                  if which = f_tag field
                  then ok_then (pb_encode_tag_for_field s field) (\<lambda>_ s1. func s1 field p')
                  else Some (Some (), s) }
        else o_error s ''invalid field type'' })"

definition encode_callback_field ::
  "user_code \<Rightarrow> mem \<Rightarrow> ostream \<Rightarrow> pb_field \<Rightarrow> addr \<Rightarrow> (unit, ostream) outcome" where
  "encode_callback_field u m s field p =
     do { fn \<leftarrow> load_ptr m p;
          if fn = 0 then Some (Some (), s)
          else do { f \<leftarrow> u_encode u fn;
                    case f m s field (p + 8) of
                      None \<Rightarrow> None
                    | Some (None, s') \<Rightarrow> o_error s' ''callback error''
                    | Some (Some _, s') \<Rightarrow> Some (Some (), s') } }"

definition encode_field ::
  "nat \<Rightarrow> (ostream \<Rightarrow> pb_field list \<Rightarrow> addr \<Rightarrow> (unit, ostream) outcome) \<Rightarrow> user_code \<Rightarrow> mem \<Rightarrow>
   ostream \<Rightarrow> pb_field \<Rightarrow> addr \<Rightarrow> (unit, ostream) outcome" where
  "encode_field d enc u m s field p =
     (let at = PB_ATYPE (f_type field) in
      if at = PB_ATYPE_STATIC \<or> at = PB_ATYPE_POINTER then encode_basic_field d enc m s field p
      else if at = PB_ATYPE_CALLBACK then encode_callback_field u m s field p
      else o_error s ''invalid field type'')"

subsection \<open>Extensions\<close>

definition default_extension_encoder ::
  "nat \<Rightarrow> (ostream \<Rightarrow> pb_field list \<Rightarrow> addr \<Rightarrow> (unit, ostream) outcome) \<Rightarrow> user_code \<Rightarrow> mem \<Rightarrow>
   ostream \<Rightarrow> addr \<Rightarrow> (unit, ostream) outcome" where
  "default_extension_encoder d enc u m s extn =
     do { t \<leftarrow> extension_type u m extn;
          if PB_ATYPE (f_type (x_arg t)) = PB_ATYPE_POINTER
          then encode_field d enc u m s (x_arg t) (extn + 8)
          else do { dest \<leftarrow> extension_dest m extn; encode_field d enc u m s (x_arg t) dest } }"

partial_function (option) encode_extensions ::
  "nat \<Rightarrow> (ostream \<Rightarrow> pb_field list \<Rightarrow> addr \<Rightarrow> (unit, ostream) outcome) \<Rightarrow> user_code \<Rightarrow> mem \<Rightarrow>
   ostream \<Rightarrow> addr \<Rightarrow> (unit, ostream) outcome" where
  "encode_extensions d enc u m s extn =
     (if extn = 0 then Some (Some (), s)
      else do { t \<leftarrow> extension_type u m extn;
        ok_then (if x_encode t \<noteq> 0
                 then do { f \<leftarrow> u_ext_encode u (x_encode t); f m s extn }
                 else default_extension_encoder d enc u m s extn)
          (\<lambda>_ s'. do { nxt \<leftarrow> extension_next m extn; encode_extensions d enc u m s' nxt }) })"

declare encode_extensions.simps [code]

definition encode_extension_field ::
  "nat \<Rightarrow> (ostream \<Rightarrow> pb_field list \<Rightarrow> addr \<Rightarrow> (unit, ostream) outcome) \<Rightarrow> user_code \<Rightarrow> mem \<Rightarrow>
   ostream \<Rightarrow> pb_field \<Rightarrow> addr \<Rightarrow> (unit, ostream) outcome" where
  "encode_extension_field d enc u m s field p =
     do { extn \<leftarrow> load_ptr m p; encode_extensions d enc u m s extn }"

subsection \<open>Messages\<close>

primrec pb_encode ::
  "nat \<Rightarrow> user_code \<Rightarrow> mem \<Rightarrow> ostream \<Rightarrow> pb_field list \<Rightarrow> addr \<Rightarrow> (unit, ostream) outcome" where
  "pb_encode 0 u m s fds src = None"
| "pb_encode (Suc d) u m s fds src =
     do { (nonempty, it) \<leftarrow> pb_field_iter_begin fds src;
          if \<not> nonempty then Some (Some (), s)
          else do_while_next (\<lambda>it s.
            do { f \<leftarrow> field_at (start it) (pos it);
                 if PB_LTYPE (f_type f) = PB_LTYPE_EXTENSION
                 then encode_extension_field (Suc d) (pb_encode d u m) u m s f (pData it)
                 else encode_field (Suc d) (pb_encode d u m) u m s f (pData it) }) it s }"

definition pb_encode_delimited ::
  "nat \<Rightarrow> user_code \<Rightarrow> mem \<Rightarrow> ostream \<Rightarrow> pb_field list \<Rightarrow> addr \<Rightarrow> (unit, ostream) outcome" where
  "pb_encode_delimited d u m s fds src = pb_encode_submessage (pb_encode d u m) s fds src"

definition pb_encode_nullterminated ::
  "nat \<Rightarrow> user_code \<Rightarrow> mem \<Rightarrow> ostream \<Rightarrow> pb_field list \<Rightarrow> addr \<Rightarrow> (unit, ostream) outcome" where
  "pb_encode_nullterminated d u m s fds src =
     ok_then (pb_encode d u m s fds src) (\<lambda>_ s'. pb_write s' (Some [0]) 1)"

definition pb_get_encoded_size ::
  "nat \<Rightarrow> user_code \<Rightarrow> mem \<Rightarrow> pb_field list \<Rightarrow> addr \<Rightarrow> u64 option option" where
  "pb_get_encoded_size d u m fds src =
     map_option (\<lambda>(r, s). if r = None then None else Some (bytes_written s))
       (pb_encode d u m PB_OSTREAM_SIZING fds src)"

end
