(* ===== verification/Defaults.thy ===== *)
theory Defaults imports User_Code Field_Iter begin

section \<open>Initialising and releasing a message (pb_decode.c)\<close>

text \<open>
  \<open>pb_message_set_to_defaults\<close>, \<open>pb_release\<close> and their helpers: the walks over a message that
  only change memory. \<open>d\<close> bounds the nesting of messages and of extension descriptors, as the
  recursion of the C functions does; running out of it is \<open>None\<close>.
\<close>

definition for_each_field ::
  "(pb_field_iter \<Rightarrow> mem \<Rightarrow> mem option) \<Rightarrow> pb_field list \<Rightarrow> addr \<Rightarrow> mem \<Rightarrow> mem option" where
  "for_each_field body fds dest m =
     do { (nonempty, it) \<leftarrow> pb_field_iter_begin fds dest;
          if nonempty
          then map_option snd
                 (do_while_next (\<lambda>it m. map_option (\<lambda>m'. (Some (), m')) (body it m)) it m)
          else Some m }"

definition read_count :: "size_loc \<Rightarrow> u32 \<Rightarrow> mem \<Rightarrow> u32 option" where
  "read_count loc fc m = (case loc of In_struct a \<Rightarrow> load_u32 m a | Local_count \<Rightarrow> Some fc)"

definition write_count :: "size_loc \<Rightarrow> u32 \<Rightarrow> u32 \<Rightarrow> mem \<Rightarrow> (u32 \<times> mem) option" where
  "write_count loc v fc m =
     (case loc of In_struct a \<Rightarrow> map_option (\<lambda>m'. (fc, m')) (store_u32 m a v)
      | Local_count \<Rightarrow> Some (v, m))"

text \<open>A store through \<open>pSize\<close> where it is known to point into the structure.\<close>

definition struct_addr :: "size_loc \<Rightarrow> addr option" where
  "struct_addr loc = (case loc of In_struct a \<Rightarrow> Some a | Local_count \<Rightarrow> None)"

definition iter_from_extension :: "user_code \<Rightarrow> mem \<Rightarrow> addr \<Rightarrow> pb_field_iter option" where
  "iter_from_extension u m extn =
     do { t \<leftarrow> extension_type u m extn;
          dest \<leftarrow> extension_dest m extn;
          (_, it) \<leftarrow> pb_field_iter_begin [x_arg t] dest;
          Some (it\<lparr>pData := (if PB_ATYPE (f_type (x_arg t)) = PB_ATYPE_POINTER then extn + 8 else dest),
                   pSize := In_struct (extn + 24)\<rparr>) }"

text \<open>The loop \<open>while (ext != NULL) { ...; ext = ext->next; }\<close>.\<close>

partial_function (option) for_each_extension ::
  "(addr \<Rightarrow> mem \<Rightarrow> mem option) \<Rightarrow> addr \<Rightarrow> mem \<Rightarrow> mem option" where
  "for_each_extension body extn m =
     (if extn = 0 then Some m
      else do { m' \<leftarrow> body extn m;
                nxt \<leftarrow> extension_next m' extn;
                for_each_extension body nxt m' })"

declare for_each_extension.simps [code]

subsection \<open>Default values\<close>

primrec pb_field_set_to_default :: "nat \<Rightarrow> user_code \<Rightarrow> pb_field_iter \<Rightarrow> mem \<Rightarrow> mem option" where
  "pb_field_set_to_default 0 u it m = None"
| "pb_field_set_to_default (Suc d) u it m =
     do { f \<leftarrow> field_at (start it) (pos it);
          let ft = f_type f;
          if PB_LTYPE ft = PB_LTYPE_EXTENSION
          then do { extn \<leftarrow> load_ptr m (pData it);
                    for_each_extension (\<lambda>e m.
                      do { m1 \<leftarrow> store_u8 m (e + 24) 0;
                           ext_it \<leftarrow> iter_from_extension u m1 e;
                           pb_field_set_to_default d u ext_it m1 }) extn m }
          else if PB_ATYPE ft = PB_ATYPE_STATIC
          then do {
            (init_data, m1) \<leftarrow>
              (if PB_HTYPE ft = PB_HTYPE_OPTIONAL \<and> pSize it \<noteq> In_struct (pData it)
               then do { a \<leftarrow> struct_addr (pSize it); m' \<leftarrow> store_u8 m a 0; Some (True, m') }
               else if PB_HTYPE ft = PB_HTYPE_REPEATED \<or> PB_HTYPE ft = PB_HTYPE_ONEOF
               then do { a \<leftarrow> struct_addr (pSize it); m' \<leftarrow> store_u32 m a 0; Some (False, m') }
               else Some (True, m));
            if \<not> init_data then Some m1
            else if PB_LTYPE ft = PB_LTYPE_SUBMESSAGE
            then (case f_ptr f of
                    Submsg_fields fds \<Rightarrow> for_each_field (pb_field_set_to_default d u) fds (pData it) m1
                  | _ \<Rightarrow> None)
            else (case f_ptr f of
                    Default_value bs \<Rightarrow>
                      if length bs < unat (f_data_size f) then None
                      else store_bytes m1 (pData it) (take (unat (f_data_size f)) bs)
                  | Submsg_fields _ \<Rightarrow> None
                  | Null_ptr \<Rightarrow> memset0 m1 (pData it) (unat (f_data_size f))) }
          else if PB_ATYPE ft = PB_ATYPE_POINTER
          then do { m1 \<leftarrow> store_ptr m (pData it) 0;
                    if PB_HTYPE ft = PB_HTYPE_REPEATED \<or> PB_HTYPE ft = PB_HTYPE_ONEOF
                    then do { a \<leftarrow> struct_addr (pSize it); store_u32 m1 a 0 }
                    else Some m1 }
          else Some m }"

definition pb_message_set_to_defaults ::
  "nat \<Rightarrow> user_code \<Rightarrow> pb_field list \<Rightarrow> addr \<Rightarrow> mem \<Rightarrow> mem option" where
  "pb_message_set_to_defaults d u fds dest m =
     for_each_field (pb_field_set_to_default d u) fds dest m"

subsection \<open>Releasing allocated fields\<close>

text \<open>\<open>while (count--) { body(pItem); pItem += step; }\<close>\<close>

fun repeat_items :: "(addr \<Rightarrow> mem \<Rightarrow> mem option) \<Rightarrow> nat \<Rightarrow> nat \<Rightarrow> addr \<Rightarrow> mem \<Rightarrow> mem option" where
  "repeat_items body step 0 p m = Some m"
| "repeat_items body step (Suc n) p m =
     do { m' \<leftarrow> body p m; repeat_items body step n (p + step) m' }"

text \<open>The entries of an array of strings or bytes: \<open>pb_free(*pItem); *pItem++ = NULL;\<close>\<close>

definition release_entry :: "addr \<Rightarrow> mem \<Rightarrow> mem option" where
  "release_entry p m = do { q \<leftarrow> load_ptr m p; m' \<leftarrow> pb_free m q; store_ptr m' p 0 }"

definition release_message ::
  "(pb_field_iter \<Rightarrow> mem \<Rightarrow> mem option) \<Rightarrow> pb_field list \<Rightarrow> addr \<Rightarrow> mem \<Rightarrow> mem option" where
  "release_message single fds dest m = (if dest = 0 then Some m else for_each_field single fds dest m)"

text \<open>The part of \<open>pb_release_single_field\<close> that frees a pointer field itself.\<close>

definition release_pointer :: "pb_field \<Rightarrow> pb_field_iter \<Rightarrow> mem \<Rightarrow> mem option" where
  "release_pointer f it m =
     (let ft = f_type f in do {
        m1 \<leftarrow> (if PB_HTYPE ft = PB_HTYPE_REPEATED \<and>
                   (PB_LTYPE ft = PB_LTYPE_STRING \<or> PB_LTYPE ft = PB_LTYPE_BYTES)
               then do { p \<leftarrow> load_ptr m (pData it);
                         a \<leftarrow> struct_addr (pSize it);
                         count \<leftarrow> load_u32 m a;
                         repeat_items release_entry sizeof_ptr (unat count) p m }
               else Some m);
        m2 \<leftarrow> (if PB_HTYPE ft = PB_HTYPE_REPEATED
               then do { a \<leftarrow> struct_addr (pSize it); store_u32 m1 a 0 }
               else Some m1);
        release_entry (pData it) m2 })"

primrec pb_release_single_field :: "nat \<Rightarrow> user_code \<Rightarrow> pb_field_iter \<Rightarrow> mem \<Rightarrow> mem option" where
  "pb_release_single_field 0 u it m = None"
| "pb_release_single_field (Suc d) u it m =
     do { f \<leftarrow> field_at (start it) (pos it);
          let ft = f_type f;
          current \<leftarrow> (if PB_HTYPE ft = PB_HTYPE_ONEOF
                      then do { a \<leftarrow> struct_addr (pSize it);
                                w \<leftarrow> load_u32 m a; Some (w = f_tag f) }
                      else Some True);
          if \<not> current then Some m
          else do {
            m1 \<leftarrow>
              (if PB_LTYPE ft = PB_LTYPE_EXTENSION
               then do { extn \<leftarrow> load_ptr m (pData it);
                         for_each_extension (\<lambda>e m.
                           do { ext_it \<leftarrow> iter_from_extension u m e;
                                pb_release_single_field d u ext_it m }) extn m }
               else if PB_LTYPE ft = PB_LTYPE_SUBMESSAGE \<and> PB_ATYPE ft \<noteq> PB_ATYPE_CALLBACK
               then do {
                 item \<leftarrow> (if PB_ATYPE ft = PB_ATYPE_POINTER then load_ptr m (pData it)
                         else Some (pData it));
                 count \<leftarrow>
                   (if PB_HTYPE ft = PB_HTYPE_REPEATED
                    then do {
                      c \<leftarrow> (if PB_ATYPE ft = PB_ATYPE_STATIC \<and> pSize it = In_struct (pData it)
                            then Some (f_array_size f)
                            else do { a \<leftarrow> struct_addr (pSize it); load_u32 m a });
                      Some (if PB_ATYPE ft = PB_ATYPE_STATIC \<and> c > f_array_size f
                            then f_array_size f else c) }
                    else Some 1);
                 if item = 0 then Some m
                 else repeat_items (\<lambda>p m.
                        case f_ptr f of
                          Submsg_fields fds \<Rightarrow>
                            release_message (pb_release_single_field d u) fds p m
                        | _ \<Rightarrow> None) (unat (f_data_size f)) (unat count) item m }
               else Some m);
            if PB_ATYPE ft = PB_ATYPE_POINTER then release_pointer f it m1 else Some m1 } }"

definition pb_release :: "nat \<Rightarrow> user_code \<Rightarrow> pb_field list \<Rightarrow> addr \<Rightarrow> mem \<Rightarrow> mem option" where
  "pb_release d u fds dest m = release_message (pb_release_single_field d u) fds dest m"

end
