(* ===== verification/Decode_Field.thy ===== *)
theory Decode_Field imports Defaults begin

section \<open>Decoding a field into memory (pb_decode.c)\<close>

text \<open>
  The field decoders and the functions that store a decoded field in the message structure. The
  state is a stream and the memory (\<open>world\<close>). A helper receives the message decoder of the next
  nesting level as \<open>dec\<close>; its flag tells \<open>pb_decode\<close> (\<open>True\<close>, initialises) from
  \<open>pb_decode_noinit\<close>. The result of a successful field decoder that may go through \<open>pSize\<close> is
  the content of \<open>pb_decode_noinit\<close>'s local counter (\<open>fc\<close>), which \<open>pSize\<close> may point to.
\<close>

type_synonym world = "istream \<times> mem"
type_synonym message_decoder =
  "bool \<Rightarrow> istream \<Rightarrow> pb_field list \<Rightarrow> addr \<Rightarrow> mem \<Rightarrow> (unit, world) outcome"

definition w_error :: "istream \<Rightarrow> mem \<Rightarrow> string \<Rightarrow> ('a, world) outcome" where
  "w_error s m msg = Some (None, (i_set_error s msg, m))"

text \<open>A stream operation in a world.\<close>

definition on_stream :: "('a, istream) outcome \<Rightarrow> mem \<Rightarrow> ('a, world) outcome" where
  "on_stream r m = map_option (\<lambda>(v, s). (v, (s, m))) r"

definition ret :: "'a \<Rightarrow> istream \<Rightarrow> mem \<Rightarrow> ('a, world) outcome" where
  "ret v s m = Some (Some v, (s, m))"

subsection \<open>Allocation\<close>

definition allocate_field ::
  "istream \<Rightarrow> mem \<Rightarrow> addr \<Rightarrow> u64 \<Rightarrow> u64 \<Rightarrow> (unit, world) outcome" where
  "allocate_field s m p data_size array_size =
     do { q \<leftarrow> load_ptr m p;
          if data_size = 0 \<or> array_size = 0 then w_error s m ''invalid size''
          else let check_limit = push_bit 32 1 in
          if (data_size \<ge> check_limit \<or> array_size \<ge> check_limit) \<and> (-1) div array_size < data_size
          then w_error s m ''size too large''
          else do { (q', m1) \<leftarrow> pb_realloc m q (unat (array_size * data_size));
                    if q' = 0 then w_error s m1 ''realloc failed''
                    else do { m2 \<leftarrow> store_ptr m1 p q'; ret () s m2 } } }"

definition initialize_pointer_field ::
  "nat \<Rightarrow> user_code \<Rightarrow> addr \<Rightarrow> pb_field \<Rightarrow> mem \<Rightarrow> mem option" where
  "initialize_pointer_field d u item f m =
     (let lt = PB_LTYPE (f_type f) in
      if lt = PB_LTYPE_STRING \<or> lt = PB_LTYPE_BYTES then store_ptr m item 0
      else if lt = PB_LTYPE_SUBMESSAGE
      then do { m1 \<leftarrow> memset0 m item (unat (f_data_size f));
                case f_ptr f of
                  Submsg_fields fds \<Rightarrow> pb_message_set_to_defaults d u fds item m1
                | _ \<Rightarrow> None }
      else Some m)"

subsection \<open>Field decoders\<close>

definition pb_dec_bool :: "istream \<Rightarrow> pb_field \<Rightarrow> addr \<Rightarrow> mem \<Rightarrow> (unit, world) outcome" where
  "pb_dec_bool s field dest m =
     ok_then (on_stream (pb_decode_bool s) m) (\<lambda>v (s', m).
       do { m' \<leftarrow> store_u8 m dest (if v then 1 else 0); ret () s' m' })"

text \<open>Storing a signed value cast to the field's size; the result is the stored value widened
  back to \<open>int64_t\<close>. The inner \<open>None\<close> is the unsupported size.\<close>

definition store_signed :: "u32 \<Rightarrow> addr \<Rightarrow> u64 \<Rightarrow> mem \<Rightarrow> (u64 \<times> mem) option option" where
  "store_signed n dest v m =
     (if n = 8 then map_option (\<lambda>m'. Some (v, m')) (store_u64 m dest v)
      else if n = 4 then map_option (\<lambda>m'. Some (scast (ucast v :: u32), m')) (store_u32 m dest (ucast v))
      else if n = 2 then map_option (\<lambda>m'. Some (scast (ucast v :: u16), m')) (store_u16 m dest (ucast v))
      else if n = 1 then map_option (\<lambda>m'. Some (scast (ucast v :: u8), m')) (store_u8 m dest (ucast v))
      else Some None)"

definition store_unsigned :: "u32 \<Rightarrow> addr \<Rightarrow> u64 \<Rightarrow> mem \<Rightarrow> (u64 \<times> mem) option option" where
  "store_unsigned n dest v m =
     (if n = 8 then map_option (\<lambda>m'. Some (v, m')) (store_u64 m dest v)
      else if n = 4 then map_option (\<lambda>m'. Some (ucast (ucast v :: u32), m')) (store_u32 m dest (ucast v))
      else if n = 2 then map_option (\<lambda>m'. Some (ucast (ucast v :: u16), m')) (store_u16 m dest (ucast v))
      else if n = 1 then map_option (\<lambda>m'. Some (ucast (ucast v :: u8), m')) (store_u8 m dest (ucast v))
      else Some None)"

text \<open>The common tail of the three integer decoders: the clamped value must be the value.\<close>

definition finish_integer ::
  "istream \<Rightarrow> mem \<Rightarrow> u64 \<Rightarrow> (u64 \<times> mem) option option \<Rightarrow> (unit, world) outcome" where
  "finish_integer s m v stored =
     do { r \<leftarrow> stored;
          case r of
            None \<Rightarrow> w_error s m ''invalid data_size''
          | Some (clamped, m') \<Rightarrow>
              if clamped \<noteq> v then w_error s m' ''integer too large'' else ret () s m' }"

definition pb_dec_varint :: "istream \<Rightarrow> pb_field \<Rightarrow> addr \<Rightarrow> mem \<Rightarrow> (unit, world) outcome" where
  "pb_dec_varint s field dest m =
     ok_then (on_stream (pb_decode_varint s) m) (\<lambda>v (s', m).
       let svalue = (if f_data_size field = 8 then v else scast (ucast v :: u32))
       in finish_integer s' m svalue (store_signed (f_data_size field) dest svalue m))"

definition pb_dec_uvarint :: "istream \<Rightarrow> pb_field \<Rightarrow> addr \<Rightarrow> mem \<Rightarrow> (unit, world) outcome" where
  "pb_dec_uvarint s field dest m =
     ok_then (on_stream (pb_decode_varint s) m) (\<lambda>v (s', m).
       finish_integer s' m v (store_unsigned (f_data_size field) dest v m))"

definition pb_dec_svarint :: "istream \<Rightarrow> pb_field \<Rightarrow> addr \<Rightarrow> mem \<Rightarrow> (unit, world) outcome" where
  "pb_dec_svarint s field dest m =
     ok_then (on_stream (pb_decode_svarint s) m) (\<lambda>v (s', m).
       finish_integer s' m v (store_signed (f_data_size field) dest v m))"

definition pb_dec_fixed32 :: "istream \<Rightarrow> pb_field \<Rightarrow> addr \<Rightarrow> mem \<Rightarrow> (unit, world) outcome" where
  "pb_dec_fixed32 s field dest m =
     ok_then (on_stream (pb_decode_fixed32 s) m) (\<lambda>v (s', m).
       do { m' \<leftarrow> store_u32 m dest v; ret () s' m' })"

definition pb_dec_fixed64 :: "istream \<Rightarrow> pb_field \<Rightarrow> addr \<Rightarrow> mem \<Rightarrow> (unit, world) outcome" where
  "pb_dec_fixed64 s field dest m =
     ok_then (on_stream (pb_decode_fixed64 s) m) (\<lambda>v (s', m).
       do { m' \<leftarrow> store_u64 m dest v; ret () s' m' })"

definition pb_dec_bytes :: "istream \<Rightarrow> pb_field \<Rightarrow> addr \<Rightarrow> mem \<Rightarrow> (unit, world) outcome" where
  "pb_dec_bytes s field dest m =
     ok_then (on_stream (pb_decode_varint32 s) m) (\<lambda>sz (s1, m).
       let alloc_size = PB_BYTES_ARRAY_T_ALLOCSIZE sz in
       if sz > PB_SIZE_MAX then w_error s1 m ''bytes overflow''
       else if ucast sz > alloc_size then w_error s1 m ''size too large''
       else ok_then
         (if PB_ATYPE (f_type field) = PB_ATYPE_POINTER
          then if bytes_left s1 < unat sz then w_error s1 m ''end-of-stream''
               else ok_then (allocate_field s1 m dest alloc_size 1) (\<lambda>_ (s2, m2).
                 do { bdest \<leftarrow> load_ptr m2 dest; ret bdest s2 m2 })
          else if alloc_size > ucast (f_data_size field) then w_error s1 m ''bytes overflow''
               else ret dest s1 m)
         (\<lambda>bdest (s2, m2).
            do { m3 \<leftarrow> store_u32 m2 bdest sz;
                 ok_then (on_stream (pb_read s2 True (unat sz)) m3) (\<lambda>bs (s4, m4).
                   do { m5 \<leftarrow> store_bytes m4 (bdest + pb_bytes_offset) bs; ret () s4 m5 }) }))"

definition pb_dec_string :: "istream \<Rightarrow> pb_field \<Rightarrow> addr \<Rightarrow> mem \<Rightarrow> (unit, world) outcome" where
  "pb_dec_string s field dest m =
     ok_then (on_stream (pb_decode_varint32 s) m) (\<lambda>sz (s1, m).
       let alloc_size = ucast (sz + 1 :: u32) :: u64 in
       if alloc_size < ucast sz then w_error s1 m ''size too large''
       else ok_then
         (if PB_ATYPE (f_type field) = PB_ATYPE_POINTER
          then if bytes_left s1 < unat sz then w_error s1 m ''end-of-stream''
               else ok_then (allocate_field s1 m dest alloc_size 1) (\<lambda>_ (s2, m2).
                 do { q \<leftarrow> load_ptr m2 dest; ret q s2 m2 })
          else if alloc_size > ucast (f_data_size field) then w_error s1 m ''string overflow''
               else ret dest s1 m)
         (\<lambda>q (s2, m2).
            do { (status, s3) \<leftarrow> pb_read s2 True (unat sz);
                 m3 \<leftarrow> (case status of None \<Rightarrow> Some m2 | Some bs \<Rightarrow> store_bytes m2 q bs);
                 m4 \<leftarrow> store_u8 m3 (q + unat sz) 0;
                 Some (map_option (\<lambda>_. ()) status, (s3, m4)) }))"

definition pb_dec_submessage ::
  "message_decoder \<Rightarrow> istream \<Rightarrow> pb_field \<Rightarrow> addr \<Rightarrow> mem \<Rightarrow> (unit, world) outcome" where
  "pb_dec_submessage dec s field dest m =
     ok_then (on_stream (pb_make_string_substream s) m) (\<lambda>sub (s1, m).
       case f_ptr field of
         Null_ptr \<Rightarrow> w_error s1 m ''invalid field descriptor''
       | Default_value _ \<Rightarrow> None
       | Submsg_fields fds \<Rightarrow>
           do { (status, (sub', m')) \<leftarrow>
                  dec (PB_HTYPE (f_type field) = PB_HTYPE_REPEATED) sub fds dest m;
                ok_then (on_stream (pb_close_string_substream s1 sub') m') (\<lambda>_ (s2, m2).
                  Some (status, (s2, m2))) })"

definition pb_dec_fixed_length_bytes ::
  "istream \<Rightarrow> pb_field \<Rightarrow> addr \<Rightarrow> mem \<Rightarrow> (unit, world) outcome" where
  "pb_dec_fixed_length_bytes s field dest m =
     ok_then (on_stream (pb_decode_varint32 s) m) (\<lambda>sz (s1, m).
       if sz > PB_SIZE_MAX then w_error s1 m ''bytes overflow''
       else if sz = 0
       then do { m' \<leftarrow> memset0 m dest (unat (f_data_size field)); ret () s1 m' }
       else if sz \<noteq> f_data_size field
       then w_error s1 m ''incorrect fixed length bytes size''
       else ok_then (on_stream (pb_read s1 True (unat (f_data_size field))) m) (\<lambda>bs (s2, m2).
         do { m' \<leftarrow> store_bytes m2 dest bs; ret () s2 m' }))"

definition PB_DECODERS ::
  "message_decoder \<Rightarrow> u8 \<Rightarrow> istream \<Rightarrow> pb_field \<Rightarrow> addr \<Rightarrow> mem \<Rightarrow> (unit, world) outcome" where
  "PB_DECODERS dec lt =
     (if lt = PB_LTYPE_BOOL then pb_dec_bool
      else if lt = PB_LTYPE_VARINT then pb_dec_varint
      else if lt = PB_LTYPE_UVARINT then pb_dec_uvarint
      else if lt = PB_LTYPE_SVARINT then pb_dec_svarint
      else if lt = PB_LTYPE_FIXED32 then pb_dec_fixed32
      else if lt = PB_LTYPE_FIXED64 then pb_dec_fixed64
      else if lt = PB_LTYPE_BYTES then pb_dec_bytes
      else if lt = PB_LTYPE_STRING then pb_dec_string
      else if lt = PB_LTYPE_SUBMESSAGE then pb_dec_submessage dec
      else if lt = PB_LTYPE_FIXED_LENGTH_BYTES then pb_dec_fixed_length_bytes
      else (\<lambda>_ _ _ _. None))"

subsection \<open>Statically allocated fields\<close>

text \<open>The loop over a packed array: it stops at the end of the substream, at the array's
  capacity, or where an entry fails to decode (status \<open>False\<close>).\<close>

partial_function (option) packed_loop ::
  "(istream \<Rightarrow> pb_field \<Rightarrow> addr \<Rightarrow> mem \<Rightarrow> (unit, world) outcome) \<Rightarrow> pb_field \<Rightarrow> addr \<Rightarrow> size_loc \<Rightarrow>
   u32 \<Rightarrow> istream \<Rightarrow> mem \<Rightarrow> (bool \<times> u32 \<times> istream \<times> mem) option" where
  "packed_loop func f p loc fc sub m =
     (if bytes_left sub = 0 then Some (True, fc, sub, m)
      else do { n \<leftarrow> read_count loc fc m;
        if \<not> n < f_array_size f then Some (True, fc, sub, m)
        else do {
          (status, (sub', m')) \<leftarrow> func sub f (p + unat (f_data_size f * n)) m;
          if status = None then Some (False, fc, sub', m')
          else do { n' \<leftarrow> read_count loc fc m';
                    (fc', m'') \<leftarrow> write_count loc (n' + 1) fc m';
                    packed_loop func f p loc fc' sub' m'' } } })"

declare packed_loop.simps [code]

definition decode_static_field ::
  "nat \<Rightarrow> message_decoder \<Rightarrow> user_code \<Rightarrow> pb_wire_type \<Rightarrow> pb_field_iter \<Rightarrow> u32 \<Rightarrow>
   istream \<Rightarrow> mem \<Rightarrow> (u32, world) outcome" where
  "decode_static_field d dec u wire_type it fc s m =
     do { f \<leftarrow> field_at (start it) (pos it);
          let ft = f_type f;
          let func = PB_DECODERS dec (PB_LTYPE ft);
          if PB_LTYPE ft > 0x0A then None
          else if PB_HTYPE ft = PB_HTYPE_REQUIRED
          then ok_then (func s f (pData it) m) (\<lambda>_ (s', m'). ret fc s' m')
          else if PB_HTYPE ft = PB_HTYPE_OPTIONAL
          then do { m1 \<leftarrow> (if pSize it \<noteq> In_struct (pData it)
                           then do { a \<leftarrow> struct_addr (pSize it); store_u8 m a 1 }
                           else Some m);
                    ok_then (func s f (pData it) m1) (\<lambda>_ (s', m'). ret fc s' m') }
          else if PB_HTYPE ft = PB_HTYPE_REPEATED
          then (if wire_type = PB_WT_STRING \<and> PB_LTYPE ft \<le> PB_LTYPE_LAST_PACKABLE
            then ok_then (on_stream (pb_make_string_substream s) m) (\<lambda>sub (s1, m).
              do { (status, fc', sub', m') \<leftarrow> packed_loop func f (pData it) (pSize it) fc sub m;
                   if bytes_left sub' \<noteq> 0 then w_error s1 m' ''array overflow''
                   else ok_then (on_stream (pb_close_string_substream s1 sub') m') (\<lambda>_ (s2, m2).
                     Some (if status then Some fc' else None, (s2, m2))) })
            else do { n \<leftarrow> read_count (pSize it) fc m;
                      (fc', m1) \<leftarrow> write_count (pSize it) (n + 1) fc m;
                      if n \<ge> f_array_size f then w_error s m1 ''array overflow''
                      else ok_then (func s f (pData it + unat (f_data_size f * n)) m1)
                             (\<lambda>_ (s', m'). ret fc' s' m') })
          else if PB_HTYPE ft = PB_HTYPE_ONEOF
          then do {
            which \<leftarrow> read_count (pSize it) fc m;
            m1 \<leftarrow> (if PB_LTYPE ft = PB_LTYPE_SUBMESSAGE \<and> which \<noteq> f_tag f
                   then do { m' \<leftarrow> memset0 m (pData it) (unat (f_data_size f));
                             case f_ptr f of
                               Submsg_fields fds \<Rightarrow> pb_message_set_to_defaults d u fds (pData it) m'
                             | _ \<Rightarrow> None }
                   else Some m);
            (fc', m2) \<leftarrow> write_count (pSize it) (f_tag f) fc m1;
            ok_then (func s f (pData it) m2) (\<lambda>_ (s', m'). ret fc' s' m') }
          else w_error s m ''invalid field type'' }"

end
