(* ===== verification/Decode.thy ===== *)
theory Decode imports Decode_Field begin

section \<open>Decoding a message (pb_decode.c)\<close>

text \<open>
  Pointer and callback fields, extensions, and the message loop \<open>pb_decode_noinit\<close> with its
  bookkeeping of required and fixed-count fields. Loops of the C code that end only because the
  input does are \<open>partial_function\<close>s: not returning is \<open>None\<close>.
\<close>

subsection \<open>Pointer fields\<close>

text \<open>The loop over a packed array of a pointer field. \<open>s\<close> is the parent stream, whose message
  the C code sets when the array has the maximal number of entries.\<close>

partial_function (option) packed_pointer_loop ::
  "nat \<Rightarrow> user_code \<Rightarrow> (istream \<Rightarrow> pb_field \<Rightarrow> addr \<Rightarrow> mem \<Rightarrow> (unit, world) outcome) \<Rightarrow> pb_field \<Rightarrow>
   addr \<Rightarrow> size_loc \<Rightarrow> u64 \<Rightarrow> u32 \<Rightarrow> istream \<Rightarrow> istream \<Rightarrow> mem \<Rightarrow>
   (bool \<times> u32 \<times> istream \<times> istream \<times> mem) option" where
  "packed_pointer_loop d u func f p loc allocated fc s sub m =
     (if bytes_left sub = 0 then Some (True, fc, s, sub, m)
      else do { n \<leftarrow> read_count loc fc m;
        if n = PB_SIZE_MAX
        then Some (False, fc, s\<lparr>i_errmsg := Some ''too many array entries''\<rparr>, sub, m)
        else if ucast n + 1 > allocated \<and> f_data_size f = 0 then None
        else do {
          (r, allocated', sub1, m1) \<leftarrow>
            (if ucast n + 1 > allocated
             then let remain = (of_nat (bytes_left sub) - 1) div ucast (f_data_size f) + 1;
                      a' = (if remain < ucast PB_SIZE_MAX - allocated then allocated + remain
                            else allocated + 1)
               in map_option (\<lambda>(r, (sub1, m1)). (r, a', sub1, m1))
                    (allocate_field sub m p (ucast (f_data_size f)) a')
             else Some (Some (), allocated, sub, m));
          if r = None then Some (False, fc, s, sub1, m1)
          else do {
            base \<leftarrow> load_ptr m1 p;
            n1 \<leftarrow> read_count loc fc m1;
            let item = base + unat (f_data_size f * n1);
            m2 \<leftarrow> initialize_pointer_field d u item f m1;
            (status, (sub3, m3)) \<leftarrow> func sub1 f item m2;
            if status = None then Some (False, fc, s, sub3, m3)
            else do { n3 \<leftarrow> read_count loc fc m3;
                      (fc', m4) \<leftarrow> write_count loc (n3 + 1) fc m3;
                      packed_pointer_loop d u func f p loc allocated' fc' s sub3 m4 } } } })"

declare packed_pointer_loop.simps [code]

definition decode_pointer_field ::
  "nat \<Rightarrow> message_decoder \<Rightarrow> user_code \<Rightarrow> pb_wire_type \<Rightarrow> pb_field_iter \<Rightarrow> u32 \<Rightarrow>
   istream \<Rightarrow> mem \<Rightarrow> (u32, world) outcome" where
  "decode_pointer_field d dec u wire_type it fc s m =
     do { f \<leftarrow> field_at (start it) (pos it);
          let ft = f_type f;
          let func = PB_DECODERS dec (PB_LTYPE ft);
          if PB_LTYPE ft > 0x0A then None
          else if PB_HTYPE ft = PB_HTYPE_REQUIRED \<or> PB_HTYPE ft = PB_HTYPE_OPTIONAL \<or>
                  PB_HTYPE ft = PB_HTYPE_ONEOF
          then do {
            m1 \<leftarrow> (if PB_LTYPE ft = PB_LTYPE_SUBMESSAGE
                   then do { q \<leftarrow> load_ptr m (pData it);
                             if q \<noteq> 0 then pb_release_single_field d u it m else Some m }
                   else Some m);
            (fc', m2) \<leftarrow> (if PB_HTYPE ft = PB_HTYPE_ONEOF
                          then write_count (pSize it) (f_tag f) fc m1 else Some (fc, m1));
            if PB_LTYPE ft = PB_LTYPE_STRING \<or> PB_LTYPE ft = PB_LTYPE_BYTES
            then ok_then (func s f (pData it) m2) (\<lambda>_ (s', m'). ret fc' s' m')
            else ok_then (allocate_field s m2 (pData it) (ucast (f_data_size f)) 1) (\<lambda>_ (s3, m3).
              do { q \<leftarrow> load_ptr m3 (pData it);
                   m4 \<leftarrow> initialize_pointer_field d u q f m3;
                   ok_then (func s3 f q m4) (\<lambda>_ (s', m'). ret fc' s' m') }) }
          else if PB_HTYPE ft = PB_HTYPE_REPEATED
          then (if wire_type = PB_WT_STRING \<and> PB_LTYPE ft \<le> PB_LTYPE_LAST_PACKABLE
            then do {
              n \<leftarrow> read_count (pSize it) fc m;
              ok_then (on_stream (pb_make_string_substream s) m) (\<lambda>sub (s1, m).
                do { (status, fc', s2, sub', m') \<leftarrow>
                       packed_pointer_loop d u func f (pData it) (pSize it) (ucast n) fc s1 sub m;
                     ok_then (on_stream (pb_close_string_substream s2 sub') m') (\<lambda>_ (s3, m3).
                       Some (if status then Some fc' else None, (s3, m3))) }) }
            else do {
              n \<leftarrow> read_count (pSize it) fc m;
              if n = PB_SIZE_MAX then w_error s m ''too many array entries''
              else ok_then (allocate_field s m (pData it) (ucast (f_data_size f)) (ucast (n + 1)))
                (\<lambda>_ (s1, m1).
                  do { base \<leftarrow> load_ptr m1 (pData it);
                       n1 \<leftarrow> read_count (pSize it) fc m1;
                       let item = base + unat (f_data_size f * n1);
                       (fc', m2) \<leftarrow> write_count (pSize it) (n1 + 1) fc m1;
                       m3 \<leftarrow> initialize_pointer_field d u item f m2;
                       ok_then (func s1 f item m3) (\<lambda>_ (s', m'). ret fc' s' m') }) })
          else w_error s m ''invalid field type'' }"

subsection \<open>Callback fields\<close>

partial_function (option) callback_loop ::
  "(istream \<Rightarrow> pb_field \<Rightarrow> addr \<Rightarrow> mem \<Rightarrow> (unit, world) outcome) \<Rightarrow> pb_field \<Rightarrow> addr \<Rightarrow>
   istream \<Rightarrow> mem \<Rightarrow> (unit, world) outcome" where
  "callback_loop cb f arg sub m =
     ok_then (cb sub f arg m) (\<lambda>_ (sub', m').
       if bytes_left sub' \<noteq> 0 then callback_loop cb f arg sub' m' else ret () sub' m')"

declare callback_loop.simps [code]

definition decode_callback_field ::
  "user_code \<Rightarrow> pb_wire_type \<Rightarrow> pb_field_iter \<Rightarrow> istream \<Rightarrow> mem \<Rightarrow> (unit, world) outcome" where
  "decode_callback_field u wire_type it s m =
     do { f \<leftarrow> field_at (start it) (pos it);
          fn \<leftarrow> (if pData it = 0 then Some 0 else load_ptr m (pData it));
          if fn = 0 then on_stream (pb_skip_field s wire_type) m
          else do { cb \<leftarrow> u_decode u fn;
            let arg = pData it + 8;
            if wire_type = PB_WT_STRING
            then ok_then (on_stream (pb_make_string_substream s) m) (\<lambda>sub (s1, m).
              case callback_loop cb f arg sub m of
                None \<Rightarrow> None
              | Some (None, (_, m')) \<Rightarrow> w_error s1 m' ''callback failed''
              | Some (Some _, (sub', m')) \<Rightarrow> on_stream (pb_close_string_substream s1 sub') m')
            else ok_then (on_stream (read_raw_value s wire_type 10) m) (\<lambda>buffer (s1, m).
              map_option (\<lambda>(r, (_, m')). (r, (s1, m')))
                (cb (pb_istream_from_buffer buffer (length buffer)) f arg m)) } }"

subsection \<open>Oneof fields and dispatch\<close>

text \<open>\<open>pb_release_union_field\<close> moves the iterator to the old member and back; on success the
  result is the iterator.\<close>

definition pb_release_union_field ::
  "nat \<Rightarrow> user_code \<Rightarrow> pb_field_iter \<Rightarrow> istream \<Rightarrow> mem \<Rightarrow> (pb_field_iter, world) outcome" where
  "pb_release_union_field d u it s m =
     do { f \<leftarrow> field_at (start it) (pos it);
          a \<leftarrow> struct_addr (pSize it);
          old_tag \<leftarrow> load_u32 m a;
          let new_tag = f_tag f;
          if old_tag = 0 then ret it s m
          else if old_tag = new_tag then ret it s m
          else do {
            (found, it1) \<leftarrow> pb_field_iter_find it old_tag;
            if \<not> found then w_error s m ''invalid union tag''
            else do {
              m1 \<leftarrow> pb_release_single_field d u it1 m;
              (found2, it2) \<leftarrow> pb_field_iter_find it1 new_tag;
              if \<not> found2 then w_error s m1 ''iterator error''
              else do {
                g \<leftarrow> field_at (start it2) (pos it2);
                if PB_ATYPE (f_type g) = PB_ATYPE_POINTER
                then do { m2 \<leftarrow> store_ptr m1 (pData it2) 0; ret it2 s m2 }
                else ret it2 s m1 } } } }"

definition decode_field ::
  "nat \<Rightarrow> message_decoder \<Rightarrow> user_code \<Rightarrow> pb_wire_type \<Rightarrow> pb_field_iter \<Rightarrow> u32 \<Rightarrow>
   istream \<Rightarrow> mem \<Rightarrow> (pb_field_iter \<times> u32, world) outcome" where
  "decode_field d dec u wire_type it fc s m =
     do { f \<leftarrow> field_at (start it) (pos it);
          ok_then (if PB_HTYPE (f_type f) = PB_HTYPE_ONEOF then pb_release_union_field d u it s m
                   else ret it s m) (\<lambda>it' (s1, m1).
            do { g \<leftarrow> field_at (start it') (pos it');
                 let at = PB_ATYPE (f_type g);
                 if at = PB_ATYPE_STATIC
                 then ok_then (decode_static_field d dec u wire_type it' fc s1 m1)
                        (\<lambda>fc' (s2, m2). ret (it', fc') s2 m2)
                 else if at = PB_ATYPE_POINTER
                 then ok_then (decode_pointer_field d dec u wire_type it' fc s1 m1)
                        (\<lambda>fc' (s2, m2). ret (it', fc') s2 m2)
                 else if at = PB_ATYPE_CALLBACK
                 then ok_then (decode_callback_field u wire_type it' s1 m1)
                        (\<lambda>_ (s2, m2). ret (it', fc) s2 m2)
                 else w_error s1 m1 ''invalid field type'' }) }"

subsection \<open>Extensions\<close>

definition default_extension_decoder ::
  "nat \<Rightarrow> message_decoder \<Rightarrow> user_code \<Rightarrow> addr \<Rightarrow> u32 \<Rightarrow> pb_wire_type \<Rightarrow>
   istream \<Rightarrow> mem \<Rightarrow> (unit, world) outcome" where
  "default_extension_decoder d dec u extn tag wire_type s m =
     do { t \<leftarrow> extension_type u m extn;
          if f_tag (x_arg t) \<noteq> tag then ret () s m
          else do { it \<leftarrow> iter_from_extension u m extn;
                    m1 \<leftarrow> store_u8 m (extn + 24) 1;
                    ok_then (decode_field d dec u wire_type it 0 s m1)
                      (\<lambda>_ (s2, m2). ret () s2 m2) } }"

partial_function (option) extension_loop ::
  "nat \<Rightarrow> message_decoder \<Rightarrow> user_code \<Rightarrow> nat \<Rightarrow> addr \<Rightarrow> u32 \<Rightarrow> pb_wire_type \<Rightarrow>
   istream \<Rightarrow> mem \<Rightarrow> (unit, world) outcome" where
  "extension_loop d dec u left0 extn tag wire_type s m =
     (if extn = 0 \<or> left0 \<noteq> bytes_left s then ret () s m
      else do { t \<leftarrow> extension_type u m extn;
        ok_then (if x_decode t \<noteq> 0
                 then do { g \<leftarrow> u_ext_decode u (x_decode t); g s extn tag wire_type m }
                 else default_extension_decoder d dec u extn tag wire_type s m)
          (\<lambda>_ (s', m'). do { nxt \<leftarrow> extension_next m' extn;
                             extension_loop d dec u left0 nxt tag wire_type s' m' }) })"

declare extension_loop.simps [code]

definition decode_extension ::
  "nat \<Rightarrow> message_decoder \<Rightarrow> user_code \<Rightarrow> u32 \<Rightarrow> pb_wire_type \<Rightarrow> pb_field_iter \<Rightarrow>
   istream \<Rightarrow> mem \<Rightarrow> (unit, world) outcome" where
  "decode_extension d dec u tag wire_type it s m =
     do { extn \<leftarrow> load_ptr m (pData it);
          extension_loop d dec u (bytes_left s) extn tag wire_type s m }"

definition find_extension_field :: "pb_field_iter \<Rightarrow> (bool \<times> pb_field_iter) option" where
  "find_extension_field it =
     iter_search (\<lambda>f. PB_LTYPE (f_type f) = PB_LTYPE_EXTENSION) (pos it) it"

end
