(* ===== verification/Decode_Message.thy ===== *)
theory Decode_Message imports Decode begin

section \<open>The message decoder (pb_decode.c)\<close>

text \<open>
  \<open>pb_decode_noinit\<close>: the loop over the tags of the input with its local variables as a
  record, the checks after the loop, and the functions built on it.
\<close>

record dec_state =
  ds_iter :: pb_field_iter
  ds_fields_seen :: "u32 list"
  ds_ext_start :: u32
  ds_fixed_field :: "nat option"
  ds_fixed_size :: u32

datatype loop_step = Continue dec_state | Break dec_state

subsection \<open>One iteration\<close>

definition skip_unknown ::
  "dec_state \<Rightarrow> pb_wire_type \<Rightarrow> istream \<Rightarrow> mem \<Rightarrow> (loop_step, world) outcome" where
  "skip_unknown st wire_type s m =
     ok_then (on_stream (pb_skip_field s wire_type) m) (\<lambda>_ (s', m'). ret (Continue st) s' m')"

text \<open>The branch for a tag that no field of the message has.\<close>

definition unknown_field ::
  "nat \<Rightarrow> message_decoder \<Rightarrow> user_code \<Rightarrow> dec_state \<Rightarrow> u32 \<Rightarrow> pb_wire_type \<Rightarrow>
   istream \<Rightarrow> mem \<Rightarrow> (loop_step, world) outcome" where
  "unknown_field d dec u st tag wire_type s m =
     (if tag \<ge> ds_ext_start st
      then do {
        (found, it) \<leftarrow> find_extension_field (ds_iter st);
        f \<leftarrow> field_at (start it) (pos it);
        let st' = st\<lparr>ds_iter := it, ds_ext_start := (if found then f_tag f else 0xFFFFFFFF)\<rparr>;
        if tag \<ge> ds_ext_start st'
        then ok_then (decode_extension d dec u tag wire_type it s m) (\<lambda>_ (s', m').
               if bytes_left s \<noteq> bytes_left s' then ret (Continue st') s' m'
               else skip_unknown st' wire_type s' m')
        else skip_unknown st' wire_type s m }
      else skip_unknown st wire_type s m)"

text \<open>A repeated field without a counter in the structure uses the local counter; the result
  \<open>None\<close> is the error of an incomplete previous one.\<close>

definition enter_fixed_count :: "dec_state \<Rightarrow> dec_state option option" where
  "enter_fixed_count st =
     do { f \<leftarrow> field_at (start (ds_iter st)) (pos (ds_iter st));
          let it = ds_iter st;
          if PB_HTYPE (f_type f) = PB_HTYPE_REPEATED \<and> pSize it = In_struct (pData it)
          then (if ds_fixed_field st \<noteq> Some (pos it)
            then do {
              complete \<leftarrow> (case ds_fixed_field st of None \<Rightarrow> Some True
                 | Some i \<Rightarrow> map_option (\<lambda>g. ds_fixed_size st = f_array_size g) (field_at (start it) i));
              Some (if complete
                    then Some (st\<lparr>ds_fixed_field := Some (pos it), ds_fixed_size := 0,
                                  ds_iter := it\<lparr>pSize := Local_count\<rparr>\<rparr>)
                    else None) }
            else Some (Some (st\<lparr>ds_iter := it\<lparr>pSize := Local_count\<rparr>\<rparr>)))
          else Some (Some st) }"

definition mark_required :: "dec_state \<Rightarrow> dec_state option" where
  "mark_required st =
     do { f \<leftarrow> field_at (start (ds_iter st)) (pos (ds_iter st));
          let i = required_field_index (ds_iter st);
          if PB_HTYPE (f_type f) = PB_HTYPE_REQUIRED \<and> i < PB_MAX_REQUIRED_FIELDS
          then Some (st\<lparr>ds_fields_seen := (ds_fields_seen st)
                 [i div 32 := (ds_fields_seen st ! (i div 32)) OR push_bit (i mod 32) 1]\<rparr>)
          else Some st }"

definition known_field ::
  "nat \<Rightarrow> message_decoder \<Rightarrow> user_code \<Rightarrow> dec_state \<Rightarrow> pb_wire_type \<Rightarrow>
   istream \<Rightarrow> mem \<Rightarrow> (loop_step, world) outcome" where
  "known_field d dec u st wire_type s m =
     do { entered \<leftarrow> enter_fixed_count st;
          case entered of
            None \<Rightarrow> w_error s m ''wrong size for fixed count field''
          | Some st1 \<Rightarrow> do {
              st2 \<leftarrow> mark_required st1;
              ok_then (decode_field d dec u wire_type (ds_iter st2) (ds_fixed_size st2) s m)
                (\<lambda>(it', fc') (s', m').
                   ret (Continue (st2\<lparr>ds_iter := it', ds_fixed_size := fc'\<rparr>)) s' m') } }"

definition noinit_step ::
  "nat \<Rightarrow> message_decoder \<Rightarrow> user_code \<Rightarrow> dec_state \<Rightarrow> istream \<Rightarrow> mem \<Rightarrow> (loop_step, world) outcome" where
  "noinit_step d dec u st s m =
     do { (decoded, eof, s1) \<leftarrow> pb_decode_tag s;
          case decoded of
            None \<Rightarrow> (if eof then ret (Break st) s1 m else Some (None, (s1, m)))
          | Some (wire_type, tag) \<Rightarrow> do {
              (found, it) \<leftarrow> pb_field_iter_find (ds_iter st) tag;
              let st' = st\<lparr>ds_iter := it\<rparr>;
              if \<not> found then unknown_field d dec u st' tag wire_type s1 m
              else known_field d dec u st' wire_type s1 m } }"

partial_function (option) noinit_loop ::
  "nat \<Rightarrow> message_decoder \<Rightarrow> user_code \<Rightarrow> dec_state \<Rightarrow> istream \<Rightarrow> mem \<Rightarrow> (dec_state, world) outcome" where
  "noinit_loop d dec u st s m =
     (if bytes_left s = 0 then ret st s m
      else ok_then (noinit_step d dec u st s m) (\<lambda>r (s', m').
        case r of Break st' \<Rightarrow> ret st' s' m'
        | Continue st' \<Rightarrow> noinit_loop d dec u st' s' m'))"

declare noinit_loop.simps [code]

subsection \<open>The checks after the loop\<close>

text \<open>Seeking to the end of the descriptors: the index of required fields and the type of the
  last field, and the iterator, which has wrapped around.\<close>

partial_function (option) seek_last :: "pb_field_iter \<Rightarrow> (nat \<times> u8 \<times> pb_field_iter) option" where
  "seek_last it =
     do { f \<leftarrow> field_at (start it) (pos it);
          (again, it') \<leftarrow> pb_field_iter_next it;
          if again then seek_last it' else Some (required_field_index it, f_type f, it') }"

declare seek_last.simps [code]

text \<open>Whether the bits of the first \<open>n\<close> required fields are all set.\<close>

definition required_seen :: "u32 list \<Rightarrow> nat \<Rightarrow> bool" where
  "required_seen seen n \<longleftrightarrow>
     list_all (\<lambda>i. seen ! i = (-1)) [0..<n div 32] \<and>
     (n mod 32 \<noteq> 0 \<longrightarrow> seen ! (n div 32) = drop_bit (32 - n mod 32) (-1))"

definition required_field_count :: "pb_field_iter \<Rightarrow> nat option" where
  "required_field_count it =
     do { (n, last_type, it') \<leftarrow> seek_last it;
          f \<leftarrow> field_at (start it') (pos it');
          let n' = (if PB_HTYPE last_type = PB_HTYPE_REQUIRED \<and> f_tag f \<noteq> 0 then n + 1 else n);
          Some (min n' PB_MAX_REQUIRED_FIELDS) }"

definition finish_message :: "dec_state \<Rightarrow> istream \<Rightarrow> mem \<Rightarrow> (unit, world) outcome" where
  "finish_message st s m =
     do { complete \<leftarrow> (case ds_fixed_field st of None \<Rightarrow> Some True
            | Some i \<Rightarrow> map_option (\<lambda>g. ds_fixed_size st = f_array_size g)
                          (field_at (start (ds_iter st)) i));
          if \<not> complete then w_error s m ''wrong size for fixed count field''
          else do {
            n \<leftarrow> required_field_count (ds_iter st);
            if n > 0 \<and> \<not> required_seen (ds_fields_seen st) n
            then w_error s m ''missing required field''
            else ret () s m } }"

subsection \<open>Entry points\<close>

definition noinit_with ::
  "nat \<Rightarrow> message_decoder \<Rightarrow> user_code \<Rightarrow> istream \<Rightarrow> pb_field list \<Rightarrow> addr \<Rightarrow> mem \<Rightarrow>
   (unit, world) outcome" where
  "noinit_with d dec u s fds dest m =
     do { (_, it) \<leftarrow> pb_field_iter_begin fds dest;
          ok_then (noinit_loop d dec u
                     \<lparr>ds_iter = it, ds_fields_seen = [0, 0], ds_ext_start = 0,
                      ds_fixed_field = None, ds_fixed_size = 0\<rparr> s m)
            (\<lambda>st (s', m'). finish_message st s' m') }"

definition init_with ::
  "nat \<Rightarrow> message_decoder \<Rightarrow> user_code \<Rightarrow> istream \<Rightarrow> pb_field list \<Rightarrow> addr \<Rightarrow> mem \<Rightarrow>
   (unit, world) outcome" where
  "init_with d dec u s fds dest m =
     do { m1 \<leftarrow> pb_message_set_to_defaults d u fds dest m;
          (status, (s', m2)) \<leftarrow> noinit_with d dec u s fds dest m1;
          m3 \<leftarrow> (if status = None then pb_release d u fds dest m2 else Some m2);
          Some (status, (s', m3)) }"

primrec decode_message :: "nat \<Rightarrow> user_code \<Rightarrow> message_decoder" where
  "decode_message 0 u = (\<lambda>_ _ _ _ _. None)"
| "decode_message (Suc d) u = (\<lambda>init s fds dest m.
     if init then init_with (Suc d) (decode_message d u) u s fds dest m
     else noinit_with (Suc d) (decode_message d u) u s fds dest m)"

definition pb_decode_noinit ::
  "nat \<Rightarrow> user_code \<Rightarrow> istream \<Rightarrow> pb_field list \<Rightarrow> addr \<Rightarrow> mem \<Rightarrow> (unit, world) outcome" where
  "pb_decode_noinit d u s fds dest m = decode_message d u False s fds dest m"

definition pb_decode ::
  "nat \<Rightarrow> user_code \<Rightarrow> istream \<Rightarrow> pb_field list \<Rightarrow> addr \<Rightarrow> mem \<Rightarrow> (unit, world) outcome" where
  "pb_decode d u s fds dest m = decode_message d u True s fds dest m"

definition delimited ::
  "message_decoder \<Rightarrow> bool \<Rightarrow> istream \<Rightarrow> pb_field list \<Rightarrow> addr \<Rightarrow> mem \<Rightarrow> (unit, world) outcome" where
  "delimited dec init s fds dest m =
     ok_then (on_stream (pb_make_string_substream s) m) (\<lambda>sub (s1, m).
       do { (status, (sub', m')) \<leftarrow> dec init sub fds dest m;
            ok_then (on_stream (pb_close_string_substream s1 sub') m') (\<lambda>_ (s2, m2).
              Some (status, (s2, m2))) })"

definition pb_decode_delimited_noinit ::
  "nat \<Rightarrow> user_code \<Rightarrow> istream \<Rightarrow> pb_field list \<Rightarrow> addr \<Rightarrow> mem \<Rightarrow> (unit, world) outcome" where
  "pb_decode_delimited_noinit d u s fds dest m = delimited (decode_message d u) False s fds dest m"

definition pb_decode_delimited ::
  "nat \<Rightarrow> user_code \<Rightarrow> istream \<Rightarrow> pb_field list \<Rightarrow> addr \<Rightarrow> mem \<Rightarrow> (unit, world) outcome" where
  "pb_decode_delimited d u s fds dest m = delimited (decode_message d u) True s fds dest m"

definition pb_decode_nullterminated ::
  "nat \<Rightarrow> user_code \<Rightarrow> istream \<Rightarrow> pb_field list \<Rightarrow> addr \<Rightarrow> mem \<Rightarrow> (unit, world) outcome" where
  "pb_decode_nullterminated d u s fds dest m = pb_decode d u s fds dest m"

end
