(* ===== verification/Descriptors.thy ===== *)
theory Descriptors imports Field_Iter begin

section \<open>Descriptor macros (pb.h) and generated tables\<close>

text \<open>
  The macros of \<open>pb.h\<close> that build a \<open>pb_field_t\<close> from a structure type, and the tables
  generated for the messages of GoogleDataTransport (\<open>cct.nanopb.c\<close>) and
  FirebaseCoreDiagnostics (\<open>firebasecore.nanopb.c\<close>). A structure type is the list of its
  members with size, alignment and, for pointers and arrays, the size of an element
  (\<open>sizeof m[0]\<close>); the layout is the C layout of the target (no packing).
\<close>

subsection \<open>Structure layout\<close>

record member =
  m_name :: string
  m_size :: nat
  m_align :: nat
  m_elem :: nat

definition align_up :: "nat \<Rightarrow> nat \<Rightarrow> nat" where
  "align_up n a = (n + a - 1) div a * a"

fun layout :: "nat \<Rightarrow> member list \<Rightarrow> (string \<times> nat) list" where
  "layout n [] = []"
| "layout n (x # xs) =
     (let o' = align_up n (m_align x) in (m_name x, o') # layout (o' + m_size x) xs)"

fun layout_end :: "nat \<Rightarrow> member list \<Rightarrow> nat" where
  "layout_end n [] = n"
| "layout_end n (x # xs) = layout_end (align_up n (m_align x) + m_size x) xs"

definition struct_align :: "member list \<Rightarrow> nat" where
  "struct_align st = fold (\<lambda>x n. max (m_align x) n) st 1"

definition sizeof :: "member list \<Rightarrow> nat" where
  "sizeof st = align_up (layout_end 0 st) (struct_align st)"

definition offsetof :: "member list \<Rightarrow> string \<Rightarrow> nat" where
  "offsetof st x = the (map_of (layout 0 st) x)"

definition the_member :: "member list \<Rightarrow> string \<Rightarrow> member" where
  "the_member st x = the (find (\<lambda>y. m_name y = x) st)"

definition pb_membersize :: "member list \<Rightarrow> string \<Rightarrow> nat" where
  "pb_membersize st x = m_size (the_member st x)"

definition pb_elemsize :: "member list \<Rightarrow> string \<Rightarrow> nat" where
  "pb_elemsize st x = m_elem (the_member st x)"

definition pb_arraysize :: "member list \<Rightarrow> string \<Rightarrow> nat" where
  "pb_arraysize st x = pb_membersize st x div pb_elemsize st x"

definition pb_delta :: "member list \<Rightarrow> string \<Rightarrow> string \<Rightarrow> int" where
  "pb_delta st x y = int (offsetof st x) - int (offsetof st y)"

subsection \<open>PB_FIELD\<close>

datatype pb_proto_type =
  BOOL | BYTES | DOUBLE | ENUM | UENUM | FIXED32 | FIXED64 | FLOAT | INT32 | INT64 | MESSAGE
| SFIXED32 | SFIXED64 | SINT32 | SINT64 | STRING | UINT32 | UINT64 | EXTENSION
| FIXED_LENGTH_BYTES

fun PB_LTYPE_MAP :: "pb_proto_type \<Rightarrow> u8" where
  "PB_LTYPE_MAP BOOL = PB_LTYPE_BOOL"
| "PB_LTYPE_MAP BYTES = PB_LTYPE_BYTES"
| "PB_LTYPE_MAP DOUBLE = PB_LTYPE_FIXED64"
| "PB_LTYPE_MAP ENUM = PB_LTYPE_VARINT"
| "PB_LTYPE_MAP UENUM = PB_LTYPE_UVARINT"
| "PB_LTYPE_MAP FIXED32 = PB_LTYPE_FIXED32"
| "PB_LTYPE_MAP FIXED64 = PB_LTYPE_FIXED64"
| "PB_LTYPE_MAP FLOAT = PB_LTYPE_FIXED32"
| "PB_LTYPE_MAP INT32 = PB_LTYPE_VARINT"
| "PB_LTYPE_MAP INT64 = PB_LTYPE_VARINT"
| "PB_LTYPE_MAP MESSAGE = PB_LTYPE_SUBMESSAGE"
| "PB_LTYPE_MAP SFIXED32 = PB_LTYPE_FIXED32"
| "PB_LTYPE_MAP SFIXED64 = PB_LTYPE_FIXED64"
| "PB_LTYPE_MAP SINT32 = PB_LTYPE_SVARINT"
| "PB_LTYPE_MAP SINT64 = PB_LTYPE_SVARINT"
| "PB_LTYPE_MAP STRING = PB_LTYPE_STRING"
| "PB_LTYPE_MAP UINT32 = PB_LTYPE_UVARINT"
| "PB_LTYPE_MAP UINT64 = PB_LTYPE_UVARINT"
| "PB_LTYPE_MAP EXTENSION = PB_LTYPE_EXTENSION"
| "PB_LTYPE_MAP FIXED_LENGTH_BYTES = PB_LTYPE_FIXED_LENGTH_BYTES"

datatype pb_rules = REQUIRED | OPTIONAL | SINGULAR | REPEATED | OPTEXT
datatype pb_allocation = STATIC | POINTER | CALLBACK
datatype pb_placement = FIRST | OTHER | UNION

fun PB_DATAOFFSET :: "pb_placement \<Rightarrow> member list \<Rightarrow> string \<Rightarrow> string \<Rightarrow> u32" where
  "PB_DATAOFFSET FIRST st m1 m2 = of_nat (offsetof st m1)"
| "PB_DATAOFFSET OTHER st m1 m2 =
     of_int (int (offsetof st m1) - int (offsetof st m2) - int (pb_membersize st m2))"
| "PB_DATAOFFSET UNION st m1 m2 = PB_SIZE_MAX"

definition mk_field ::
  "u32 \<Rightarrow> u8 \<Rightarrow> u8 \<Rightarrow> u8 \<Rightarrow> u32 \<Rightarrow> int \<Rightarrow> nat \<Rightarrow> nat \<Rightarrow> pb_ptr \<Rightarrow> pb_field" where
  "mk_field tag at ht lt fd size_offset data_size array_size p =
     Pb_Field tag (at OR ht OR lt) fd (of_int size_offset) (of_nat data_size) (of_nat array_size) p"

definition has_member :: "string \<Rightarrow> string" where "has_member x = ''has_'' @ x"
definition count_member :: "string \<Rightarrow> string" where "count_member x = x @ ''_count''"

text \<open>The macros \<open>PB_<rules>_<allocation>(tag, st, m, fd, ltype, ptr)\<close>.\<close>

fun PB_RULES ::
  "pb_rules \<Rightarrow> pb_allocation \<Rightarrow> u32 \<Rightarrow> member list \<Rightarrow> string \<Rightarrow> u32 \<Rightarrow> u8 \<Rightarrow> pb_ptr \<Rightarrow> pb_field" where
  "PB_RULES REQUIRED STATIC tag st m fd lt p =
     mk_field tag PB_ATYPE_STATIC PB_HTYPE_REQUIRED lt fd 0 (pb_membersize st m) 0 p"
| "PB_RULES OPTIONAL STATIC tag st m fd lt p =
     mk_field tag PB_ATYPE_STATIC PB_HTYPE_OPTIONAL lt fd (pb_delta st (has_member m) m) (pb_membersize st m) 0 p"
| "PB_RULES SINGULAR STATIC tag st m fd lt p =
     mk_field tag PB_ATYPE_STATIC PB_HTYPE_OPTIONAL lt fd 0 (pb_membersize st m) 0 p"
| "PB_RULES REPEATED STATIC tag st m fd lt p =
     mk_field tag PB_ATYPE_STATIC PB_HTYPE_REPEATED lt fd (pb_delta st (count_member m) m)
       (pb_elemsize st m) (pb_arraysize st m) p"
| "PB_RULES REQUIRED POINTER tag st m fd lt p =
     mk_field tag PB_ATYPE_POINTER PB_HTYPE_REQUIRED lt fd 0 (pb_elemsize st m) 0 p"
| "PB_RULES OPTIONAL POINTER tag st m fd lt p =
     mk_field tag PB_ATYPE_POINTER PB_HTYPE_OPTIONAL lt fd 0 (pb_elemsize st m) 0 p"
| "PB_RULES SINGULAR POINTER tag st m fd lt p =
     mk_field tag PB_ATYPE_POINTER PB_HTYPE_OPTIONAL lt fd 0 (pb_elemsize st m) 0 p"
| "PB_RULES REPEATED POINTER tag st m fd lt p =
     mk_field tag PB_ATYPE_POINTER PB_HTYPE_REPEATED lt fd (pb_delta st (count_member m) m)
       (pb_elemsize st m) 0 p"
| "PB_RULES REQUIRED CALLBACK tag st m fd lt p =
     mk_field tag PB_ATYPE_CALLBACK PB_HTYPE_REQUIRED lt fd 0 (pb_membersize st m) 0 p"
| "PB_RULES OPTIONAL CALLBACK tag st m fd lt p =
     mk_field tag PB_ATYPE_CALLBACK PB_HTYPE_OPTIONAL lt fd 0 (pb_membersize st m) 0 p"
| "PB_RULES SINGULAR CALLBACK tag st m fd lt p =
     mk_field tag PB_ATYPE_CALLBACK PB_HTYPE_OPTIONAL lt fd 0 (pb_membersize st m) 0 p"
| "PB_RULES REPEATED CALLBACK tag st m fd lt p =
     mk_field tag PB_ATYPE_CALLBACK PB_HTYPE_REPEATED lt fd 0 (pb_membersize st m) 0 p"
| "PB_RULES OPTEXT STATIC tag st m fd lt p =
     mk_field tag PB_ATYPE_STATIC PB_HTYPE_REQUIRED lt 0 0 (pb_membersize st m) 0 p"
| "PB_RULES OPTEXT POINTER tag st m fd lt p =
     mk_field tag PB_ATYPE_POINTER PB_HTYPE_OPTIONAL lt fd 0 (pb_elemsize st m) 0 p"
| "PB_RULES OPTEXT CALLBACK tag st m fd lt p =
     mk_field tag PB_ATYPE_CALLBACK PB_HTYPE_OPTIONAL lt fd 0 (pb_membersize st m) 0 p"

definition PB_FIELD ::
  "u32 \<Rightarrow> pb_proto_type \<Rightarrow> pb_rules \<Rightarrow> pb_allocation \<Rightarrow> pb_placement \<Rightarrow> member list \<Rightarrow>
   string \<Rightarrow> string \<Rightarrow> pb_ptr \<Rightarrow> pb_field" where
  "PB_FIELD tag ty rules allocation placement message field prevfield p =
     PB_RULES rules allocation tag message field
       (PB_DATAOFFSET placement message field prevfield) (PB_LTYPE_MAP ty) p"

definition PB_REPEATED_FIXED_COUNT ::
  "u32 \<Rightarrow> pb_proto_type \<Rightarrow> pb_placement \<Rightarrow> member list \<Rightarrow> string \<Rightarrow> string \<Rightarrow> pb_ptr \<Rightarrow> pb_field" where
  "PB_REPEATED_FIXED_COUNT tag ty placement message field prevfield p =
     mk_field tag PB_ATYPE_STATIC PB_HTYPE_REPEATED (PB_LTYPE_MAP ty)
       (PB_DATAOFFSET placement message field prevfield) 0
       (pb_elemsize message field) (pb_arraysize message field) p"

subsection \<open>Well-formed descriptor arrays\<close>

text \<open>A descriptor array ends with its only entry of tag 0.\<close>

definition terminated :: "pb_field list \<Rightarrow> bool" where
  "terminated fds \<longleftrightarrow>
     fds \<noteq> [] \<and> f_tag (last fds) = 0 \<and> list_all (\<lambda>f. f_tag f \<noteq> 0) (butlast fds)"

subsection \<open>Member types\<close>

definition mem_bool :: "string \<Rightarrow> member" where
  "mem_bool x = \<lparr>m_name = x, m_size = 1, m_align = 1, m_elem = 1\<rparr>"
definition mem_int32 :: "string \<Rightarrow> member" where
  "mem_int32 x = \<lparr>m_name = x, m_size = 4, m_align = 4, m_elem = 4\<rparr>"
definition mem_int64 :: "string \<Rightarrow> member" where
  "mem_int64 x = \<lparr>m_name = x, m_size = 8, m_align = 8, m_elem = 8\<rparr>"
definition mem_pointer :: "string \<Rightarrow> nat \<Rightarrow> member" where
  "mem_pointer x n = \<lparr>m_name = x, m_size = sizeof_ptr, m_align = 8, m_elem = n\<rparr>"
definition mem_struct :: "string \<Rightarrow> member list \<Rightarrow> member" where
  "mem_struct x st = \<lparr>m_name = x, m_size = sizeof st, m_align = struct_align st, m_elem = sizeof st\<rparr>"

text \<open>\<open>sizeof (pb_bytes_array_t)\<close>: a 4-byte size and a 1-byte array, padded to 8.\<close>

definition mem_bytes :: "string \<Rightarrow> member" where
  "mem_bytes x = mem_pointer x 8"

text \<open>An enum of the target is a 4-byte integer.\<close>

abbreviation mem_enum :: "string \<Rightarrow> member" where "mem_enum \<equiv> mem_int32"

end
