(* ===== verification/Cct_Tables.thy ===== *)
theory Cct_Tables imports Descriptors begin

section \<open>The generated message tables\<close>

text \<open>
  The message structures of \<open>cct.nanopb.h\<close> and \<open>firebasecore.nanopb.h\<close> and the descriptor
  tables of \<open>cct.nanopb.c\<close> and \<open>firebasecore.nanopb.c\<close>, entry by entry, in the order that
  resolves the references between them.
\<close>

subsection \<open>cct.nanopb.h: structures\<close>

definition gdt_cct_NetworkConnectionInfo :: "member list" where
  "gdt_cct_NetworkConnectionInfo =
     [mem_bool ''has_network_type'', mem_enum ''network_type'',
      mem_bool ''has_mobile_subtype'', mem_enum ''mobile_subtype'']"

definition gdt_cct_IosClientInfo :: "member list" where
  "gdt_cct_IosClientInfo =
     [mem_bytes ''os_major_version'', mem_bytes ''os_full_version'', mem_bytes ''application_build'',
      mem_bytes ''country'', mem_bytes ''model'', mem_bytes ''language_code'',
      mem_bytes ''application_bundle_id'']"

definition gdt_cct_ClientInfo :: "member list" where
  "gdt_cct_ClientInfo =
     [mem_bool ''has_client_type'', mem_enum ''client_type'',
      mem_bool ''has_ios_client_info'', mem_struct ''ios_client_info'' gdt_cct_IosClientInfo]"

definition gdt_cct_QosTierConfiguration :: "member list" where
  "gdt_cct_QosTierConfiguration =
     [mem_bool ''has_qos_tier'', mem_enum ''qos_tier'',
      mem_bool ''has_log_source'', mem_int32 ''log_source'']"

definition gdt_cct_QosTiersOverride :: "member list" where
  "gdt_cct_QosTiersOverride =
     [mem_int32 ''qos_tier_configuration_count'',
      mem_pointer ''qos_tier_configuration'' (sizeof gdt_cct_QosTierConfiguration),
      mem_bool ''has_qos_tier_fingerprint'', mem_int64 ''qos_tier_fingerprint'']"

definition gdt_cct_LogEvent :: "member list" where
  "gdt_cct_LogEvent =
     [mem_bool ''has_event_time_ms'', mem_int64 ''event_time_ms'',
      mem_bytes ''source_extension'',
      mem_bool ''has_event_code'', mem_int32 ''event_code'',
      mem_bool ''has_timezone_offset_seconds'', mem_int64 ''timezone_offset_seconds'',
      mem_bool ''has_event_uptime_ms'', mem_int64 ''event_uptime_ms'',
      mem_bool ''has_network_connection_info'',
      mem_struct ''network_connection_info'' gdt_cct_NetworkConnectionInfo]"

definition gdt_cct_LogRequest :: "member list" where
  "gdt_cct_LogRequest =
     [mem_bool ''has_client_info'', mem_struct ''client_info'' gdt_cct_ClientInfo,
      mem_bool ''has_log_source'', mem_int32 ''log_source'',
      mem_int32 ''log_event_count'', mem_pointer ''log_event'' (sizeof gdt_cct_LogEvent),
      mem_bool ''has_request_time_ms'', mem_int64 ''request_time_ms'',
      mem_bool ''has_request_uptime_ms'', mem_int64 ''request_uptime_ms'',
      mem_bool ''has_qos_tier'', mem_enum ''qos_tier'']"

definition gdt_cct_BatchedLogRequest :: "member list" where
  "gdt_cct_BatchedLogRequest =
     [mem_int32 ''log_request_count'', mem_pointer ''log_request'' (sizeof gdt_cct_LogRequest)]"

definition gdt_cct_LogResponse :: "member list" where
  "gdt_cct_LogResponse =
     [mem_bool ''has_next_request_wait_millis'', mem_int64 ''next_request_wait_millis'',
      mem_bool ''has_qos_tier'', mem_struct ''qos_tier'' gdt_cct_QosTiersOverride]"

subsection \<open>cct.nanopb.c: default values\<close>

definition enum_bytes :: "int \<Rightarrow> u8 list" where
  "enum_bytes v = le_bytes 4 (unat (of_int v :: u32))"

definition gdt_cct_NetworkConnectionInfo_network_type_default :: "u8 list" where
  "gdt_cct_NetworkConnectionInfo_network_type_default = enum_bytes (-1)"
definition gdt_cct_NetworkConnectionInfo_mobile_subtype_default :: "u8 list" where
  "gdt_cct_NetworkConnectionInfo_mobile_subtype_default = enum_bytes 0"
definition gdt_cct_LogRequest_qos_tier_default :: "u8 list" where
  "gdt_cct_LogRequest_qos_tier_default = enum_bytes 0"
definition gdt_cct_QosTierConfiguration_log_source_default :: "u8 list" where
  "gdt_cct_QosTierConfiguration_log_source_default = enum_bytes 0"

subsection \<open>cct.nanopb.c: tables\<close>

definition gdt_cct_NetworkConnectionInfo_fields :: "pb_field list" where
  "gdt_cct_NetworkConnectionInfo_fields = (let st = gdt_cct_NetworkConnectionInfo in
    [PB_FIELD 1 ENUM OPTIONAL STATIC FIRST st ''network_type'' ''network_type''
       (Default_value gdt_cct_NetworkConnectionInfo_network_type_default),
     PB_FIELD 2 UENUM OPTIONAL STATIC OTHER st ''mobile_subtype'' ''network_type''
       (Default_value gdt_cct_NetworkConnectionInfo_mobile_subtype_default),
     PB_LAST_FIELD])"

definition gdt_cct_LogEvent_fields :: "pb_field list" where
  "gdt_cct_LogEvent_fields = (let st = gdt_cct_LogEvent in
    [PB_FIELD 1 INT64 OPTIONAL STATIC FIRST st ''event_time_ms'' ''event_time_ms'' Null_ptr,
     PB_FIELD 6 BYTES OPTIONAL POINTER OTHER st ''source_extension'' ''event_time_ms'' Null_ptr,
     PB_FIELD 11 INT32 OPTIONAL STATIC OTHER st ''event_code'' ''source_extension'' Null_ptr,
     PB_FIELD 15 SINT64 OPTIONAL STATIC OTHER st ''timezone_offset_seconds'' ''event_code'' Null_ptr,
     PB_FIELD 17 INT64 OPTIONAL STATIC OTHER st ''event_uptime_ms'' ''timezone_offset_seconds'' Null_ptr,
     PB_FIELD 23 MESSAGE OPTIONAL STATIC OTHER st ''network_connection_info'' ''event_uptime_ms''
       (Submsg_fields gdt_cct_NetworkConnectionInfo_fields),
     PB_LAST_FIELD])"

definition gdt_cct_IosClientInfo_fields :: "pb_field list" where
  "gdt_cct_IosClientInfo_fields = (let st = gdt_cct_IosClientInfo in
    [PB_FIELD 3 BYTES OPTIONAL POINTER FIRST st ''os_major_version'' ''os_major_version'' Null_ptr,
     PB_FIELD 4 BYTES OPTIONAL POINTER OTHER st ''os_full_version'' ''os_major_version'' Null_ptr,
     PB_FIELD 5 BYTES OPTIONAL POINTER OTHER st ''application_build'' ''os_full_version'' Null_ptr,
     PB_FIELD 6 BYTES OPTIONAL POINTER OTHER st ''country'' ''application_build'' Null_ptr,
     PB_FIELD 7 BYTES OPTIONAL POINTER OTHER st ''model'' ''country'' Null_ptr,
     PB_FIELD 8 BYTES OPTIONAL POINTER OTHER st ''language_code'' ''model'' Null_ptr,
     PB_FIELD 11 BYTES OPTIONAL POINTER OTHER st ''application_bundle_id'' ''language_code'' Null_ptr,
     PB_LAST_FIELD])"

definition gdt_cct_ClientInfo_fields :: "pb_field list" where
  "gdt_cct_ClientInfo_fields = (let st = gdt_cct_ClientInfo in
    [PB_FIELD 1 UENUM OPTIONAL STATIC FIRST st ''client_type'' ''client_type'' Null_ptr,
     PB_FIELD 4 MESSAGE OPTIONAL STATIC OTHER st ''ios_client_info'' ''client_type''
       (Submsg_fields gdt_cct_IosClientInfo_fields),
     PB_LAST_FIELD])"

definition gdt_cct_LogRequest_fields :: "pb_field list" where
  "gdt_cct_LogRequest_fields = (let st = gdt_cct_LogRequest in
    [PB_FIELD 1 MESSAGE OPTIONAL STATIC FIRST st ''client_info'' ''client_info''
       (Submsg_fields gdt_cct_ClientInfo_fields),
     PB_FIELD 2 INT32 OPTIONAL STATIC OTHER st ''log_source'' ''client_info'' Null_ptr,
     PB_FIELD 3 MESSAGE REPEATED POINTER OTHER st ''log_event'' ''log_source''
       (Submsg_fields gdt_cct_LogEvent_fields),
     PB_FIELD 4 INT64 OPTIONAL STATIC OTHER st ''request_time_ms'' ''log_event'' Null_ptr,
     PB_FIELD 8 INT64 OPTIONAL STATIC OTHER st ''request_uptime_ms'' ''request_time_ms'' Null_ptr,
     PB_FIELD 9 UENUM OPTIONAL STATIC OTHER st ''qos_tier'' ''request_uptime_ms''
       (Default_value gdt_cct_LogRequest_qos_tier_default),
     PB_LAST_FIELD])"

definition gdt_cct_BatchedLogRequest_fields :: "pb_field list" where
  "gdt_cct_BatchedLogRequest_fields = (let st = gdt_cct_BatchedLogRequest in
    [PB_FIELD 1 MESSAGE REPEATED POINTER FIRST st ''log_request'' ''log_request''
       (Submsg_fields gdt_cct_LogRequest_fields),
     PB_LAST_FIELD])"

definition gdt_cct_QosTierConfiguration_fields :: "pb_field list" where
  "gdt_cct_QosTierConfiguration_fields = (let st = gdt_cct_QosTierConfiguration in
    [PB_FIELD 2 UENUM OPTIONAL STATIC FIRST st ''qos_tier'' ''qos_tier'' Null_ptr,
     PB_FIELD 3 INT32 OPTIONAL STATIC OTHER st ''log_source'' ''qos_tier''
       (Default_value gdt_cct_QosTierConfiguration_log_source_default),
     PB_LAST_FIELD])"

definition gdt_cct_QosTiersOverride_fields :: "pb_field list" where
  "gdt_cct_QosTiersOverride_fields = (let st = gdt_cct_QosTiersOverride in
    [PB_FIELD 1 MESSAGE REPEATED POINTER FIRST st ''qos_tier_configuration'' ''qos_tier_configuration''
       (Submsg_fields gdt_cct_QosTierConfiguration_fields),
     PB_FIELD 2 INT64 OPTIONAL STATIC OTHER st ''qos_tier_fingerprint'' ''qos_tier_configuration'' Null_ptr,
     PB_LAST_FIELD])"

definition gdt_cct_LogResponse_fields :: "pb_field list" where
  "gdt_cct_LogResponse_fields = (let st = gdt_cct_LogResponse in
    [PB_FIELD 1 INT64 OPTIONAL STATIC FIRST st ''next_request_wait_millis'' ''next_request_wait_millis'' Null_ptr,
     PB_FIELD 3 MESSAGE OPTIONAL STATIC OTHER st ''qos_tier'' ''next_request_wait_millis''
       (Submsg_fields gdt_cct_QosTiersOverride_fields),
     PB_LAST_FIELD])"

subsection \<open>firebasecore.nanopb\<close>

definition logs_proto_mobilesdk_ios_ICoreConfiguration :: "member list" where
  "logs_proto_mobilesdk_ios_ICoreConfiguration =
     [mem_bool ''has_configuration_type'', mem_enum ''configuration_type'',
      mem_int32 ''sdk_service_installed_count'', mem_pointer ''sdk_service_installed'' 4,
      mem_bytes ''device_model'', mem_bytes ''app_id'', mem_bytes ''bundle_id'',
      mem_bool ''has_pod_name'', mem_enum ''pod_name'',
      mem_bytes ''icore_version'', mem_bytes ''sdk_version'',
      mem_bool ''has_sdk_name'', mem_enum ''sdk_name'',
      mem_bool ''has_app_count'', mem_int32 ''app_count'',
      mem_bytes ''os_version'', mem_bytes ''min_supported_ios_version'',
      mem_bool ''has_use_default_app'', mem_bool ''use_default_app'',
      mem_bool ''has_deployed_in_app_store'', mem_bool ''deployed_in_app_store'',
      mem_bool ''has_dynamic_framework_count'', mem_int32 ''dynamic_framework_count'',
      mem_bytes ''apple_framework_version'',
      mem_bool ''has_using_zip_file'', mem_bool ''using_zip_file'',
      mem_bool ''has_deployment_type'', mem_enum ''deployment_type'',
      mem_bytes ''platform_info'',
      mem_bool ''has_swizzling_enabled'', mem_bool ''swizzling_enabled'',
      mem_bool ''has_using_gdt'', mem_bool ''using_gdt'']"

definition logs_proto_mobilesdk_ios_ICoreConfiguration_fields :: "pb_field list" where
  "logs_proto_mobilesdk_ios_ICoreConfiguration_fields =
    (let st = logs_proto_mobilesdk_ios_ICoreConfiguration in
    [PB_FIELD 1 UENUM OPTIONAL STATIC FIRST st ''configuration_type'' ''configuration_type'' Null_ptr,
     PB_FIELD 7 UENUM REPEATED POINTER OTHER st ''sdk_service_installed'' ''configuration_type'' Null_ptr,
     PB_FIELD 9 BYTES OPTIONAL POINTER OTHER st ''device_model'' ''sdk_service_installed'' Null_ptr,
     PB_FIELD 10 BYTES OPTIONAL POINTER OTHER st ''app_id'' ''device_model'' Null_ptr,
     PB_FIELD 12 BYTES OPTIONAL POINTER OTHER st ''bundle_id'' ''app_id'' Null_ptr,
     PB_FIELD 16 UENUM OPTIONAL STATIC OTHER st ''pod_name'' ''bundle_id'' Null_ptr,
     PB_FIELD 18 BYTES OPTIONAL POINTER OTHER st ''icore_version'' ''pod_name'' Null_ptr,
     PB_FIELD 19 BYTES OPTIONAL POINTER OTHER st ''sdk_version'' ''icore_version'' Null_ptr,
     PB_FIELD 20 UENUM OPTIONAL STATIC OTHER st ''sdk_name'' ''sdk_version'' Null_ptr,
     PB_FIELD 21 INT32 OPTIONAL STATIC OTHER st ''app_count'' ''sdk_name'' Null_ptr,
     PB_FIELD 22 BYTES OPTIONAL POINTER OTHER st ''os_version'' ''app_count'' Null_ptr,
     PB_FIELD 24 BYTES OPTIONAL POINTER OTHER st ''min_supported_ios_version'' ''os_version'' Null_ptr,
     PB_FIELD 25 BOOL OPTIONAL STATIC OTHER st ''use_default_app'' ''min_supported_ios_version'' Null_ptr,
     PB_FIELD 26 BOOL OPTIONAL STATIC OTHER st ''deployed_in_app_store'' ''use_default_app'' Null_ptr,
     PB_FIELD 27 INT32 OPTIONAL STATIC OTHER st ''dynamic_framework_count'' ''deployed_in_app_store'' Null_ptr,
     PB_FIELD 28 BYTES OPTIONAL POINTER OTHER st ''apple_framework_version'' ''dynamic_framework_count'' Null_ptr,
     PB_FIELD 29 BOOL OPTIONAL STATIC OTHER st ''using_zip_file'' ''apple_framework_version'' Null_ptr,
     PB_FIELD 30 UENUM OPTIONAL STATIC OTHER st ''deployment_type'' ''using_zip_file'' Null_ptr,
     PB_FIELD 31 BYTES OPTIONAL POINTER OTHER st ''platform_info'' ''deployment_type'' Null_ptr,
     PB_FIELD 33 BOOL OPTIONAL STATIC OTHER st ''swizzling_enabled'' ''platform_info'' Null_ptr,
     PB_FIELD 36 BOOL OPTIONAL STATIC OTHER st ''using_gdt'' ''swizzling_enabled'' Null_ptr,
     PB_LAST_FIELD])"

end
