(* ===== verification/Wire_Bytes.thy ===== *)
theory Wire_Bytes imports Prelude begin

unbundle bit_operations_syntax

section \<open>The wire formats as byte lists\<close>

text \<open>
  The base-128 format (\<open>varint_bytes\<close> with its inverse \<open>varint_value\<close>, and \<open>continuation\<close>) and
  little-endian words, as lists of bytes: the reference that the varint and fixed-width functions
  of nanopb and of leveldb are proved against.
\<close>

subsection \<open>Base 128\<close>

fun varint_bytes :: "nat \<Rightarrow> u8 list" where
  "varint_bytes n = (if n < 128 then [of_nat n] else of_nat (n mod 128 + 128) # varint_bytes (n div 128))"

declare varint_bytes.simps [simp del]

fun varint_value :: "u8 list \<Rightarrow> nat" where
  "varint_value [] = 0"
| "varint_value (b # bs) = unat b mod 128 + 128 * varint_value bs"

text \<open>How many bytes with the continuation bit a list starts with.\<close>

fun continuation :: "u8 list \<Rightarrow> nat" where
  "continuation [] = 0"
| "continuation (b # bs) = (if unat b < 128 then 0 else Suc (continuation bs))"

lemma unat_low_bits: "unat ((b :: u8) AND 0x7F) = unat b mod 128"
proof -
  have "(0x7F :: u8) = mask 7" by (simp add: mask_eq_exp_minus_1)
  then have "b AND 0x7F = take_bit 7 b" by (simp only: take_bit_eq_mask)
  then show ?thesis by (simp only: unsigned_take_bit_eq) (simp add: take_bit_eq_mod)
qed

lemma u8_low_bits: "ucast ((b :: u8) AND 0x7F) = (of_nat (unat b mod 128) :: 'a::len word)"
  unfolding unat_low_bits [symmetric] by simp

lemma u8_top_bit: "(b :: u8) AND 0x80 = 0 \<longleftrightarrow> unat b < 128"
proof -
  have "b AND 0x80 = 0 \<longleftrightarrow> \<not> bit b 7"
    using and_exp_eq_0_iff_not_bit [of b 7] by simp
  also have "bit b 7 = bit (unat b) 7" by (simp add: bit_unsigned_iff)
  also have "\<dots> = odd (unat b div 128)" by (simp add: bit_iff_odd)
  also have "\<dots> = (128 \<le> unat b)"
  proof -
    have "unat b div 128 < 2" by (simp add: less_mult_imp_div_less)
    then have "odd (unat b div 128) = (unat b div 128 \<noteq> 0)"
      by (cases "unat b div 128 = 0") (auto simp: less_2_cases_iff)
    then show ?thesis by (simp add: div_eq_0_iff not_less)
  qed
  finally show ?thesis by auto
qed

lemma or_push_bit_nat: "(x :: nat) < 2 ^ k \<Longrightarrow> x OR push_bit k y = x + 2 ^ k * y"
proof -
  assume "x < 2 ^ k"
  then have "take_bit k x = x" by (simp add: take_bit_eq_mod)
  moreover have "take_bit k x AND push_bit k y = 0" by (rule bit_eqI) (auto simp: bit_simps)
  ultimately show ?thesis
    by (simp add: disjunctive_add_eq_or [symmetric] push_bit_eq_mult mult.commute)
qed

lemma of_nat_or_push_bit:
  assumes "x < 2 ^ k"
  shows "(of_nat x OR push_bit k (of_nat y) :: 'a::len word) = of_nat (x + 2 ^ k * y)"
proof -
  have "(of_nat x OR push_bit k (of_nat y) :: 'a word) = of_nat (x OR push_bit k y)"
    by (simp add: of_nat_or_eq of_nat_push_bit)
  then show ?thesis using or_push_bit_nat [OF assms] by simp
qed

lemma continuation_le: "continuation bs \<le> length bs"
  by (induction bs) auto

lemma continuation_drop:
  "n \<le> continuation bs \<Longrightarrow> continuation (drop n bs) = continuation bs - n"
proof (induction n arbitrary: bs)
  case (Suc n)
  then show ?case by (cases bs) (auto split: if_splits)
qed simp

lemma varint_value_less: "varint_value bs < 128 ^ length bs"
proof (induction bs)
  case (Cons b bs)
  have "unat b mod 128 < 128" by simp
  with Cons show ?case by simp
qed simp

lemma varint_value_append:
  "varint_value (as @ bs) = varint_value as + 128 ^ length as * varint_value bs"
  by (induction as) (simp_all add: algebra_simps)

lemma u8_bitpos: "k < 256 \<Longrightarrow> unat (of_nat k :: u8) = k"
  by (simp add: unat_of_nat)

lemma or_byte_group:
  assumes "r < 2 ^ (7 * j)" "j \<le> 10"
  shows "(of_nat r OR push_bit (unat (of_nat (7 * j) :: u8)) (ucast ((b :: u8) AND 0x7F)) :: 'a::len word)
         = of_nat (r + 2 ^ (7 * j) * (unat b mod 128))"
  using assms by (simp add: u8_bitpos u8_low_bits of_nat_or_push_bit del: of_nat_mult of_nat_add)

lemma group_less:
  assumes "r < 2 ^ (7 * j)"
  shows "r + 2 ^ (7 * j) * (unat (b :: u8) mod 128) < 2 ^ (7 * Suc j)"
proof -
  have "r + 2 ^ (7 * j) * (unat b mod 128) < 2 ^ (7 * j) * (1 + unat b mod 128)"
    using assms by simp
  also have "\<dots> \<le> 2 ^ (7 * j) * 128" by (rule mult_le_mono2) (simp add: Suc_leI)
  finally show ?thesis by (simp add: power_add)
qed

lemma varint_bytes_nonempty [simp]: "varint_bytes n \<noteq> []"
  by (subst varint_bytes.simps) simp

lemma u64_low_bits: "v AND 0x7F = (of_nat (unat (v :: u64) mod 128) :: u64)"
proof -
  have "(0x7F :: u64) = mask 7" by (simp add: mask_eq_exp_minus_1)
  then have "v AND 0x7F = take_bit 7 v" by (simp only: take_bit_eq_mask)
  then have "unat (v AND 0x7F) = unat v mod 128"
    by (simp only: unsigned_take_bit_eq) (simp add: take_bit_eq_mod)
  moreover have "unat (of_nat (unat v mod 128) :: u64) = unat v mod 128"
    by (simp add: unsigned_of_nat take_bit_eq_mod mod_mod_trivial)
  ultimately show ?thesis by (simp only: word_unat_eq_iff)
qed

lemma unat_drop_7: "unat (drop_bit 7 (v :: u64)) = unat v div 128"
proof -
  have "unat (drop_bit 7 v) = drop_bit 7 (take_bit 64 (unat v))"
    using unsigned_drop_bit_eq [of 7 v] by (simp only: len_of_numeral_defs) simp
  also have "take_bit 64 (unat v) = unat v" by (simp add: take_bit_nat_eq_self)
  finally show ?thesis by (simp add: drop_bit_eq_div)
qed

lemma encoded_byte: "ucast (v AND 0x7F) OR (0x80 :: u8) = of_nat (unat (v :: u64) mod 128 + 128)"
proof -
  have "ucast (v AND 0x7F) OR (0x80 :: u8) = of_nat (unat v mod 128) OR push_bit 7 (of_nat 1)"
    unfolding u64_low_bits by (simp add: unsigned_of_nat take_bit_eq_mod)
  also have "\<dots> = of_nat (unat v mod 128 + 2 ^ 7 * 1)"
    by (rule of_nat_or_push_bit) simp
  finally show ?thesis by simp
qed

lemma clear_top_bit: "n < 128 \<Longrightarrow> of_nat (n + 128) AND 0x7F = (of_nat n :: u8)"
  by (rule word_unat_eq_iff [THEN iffD2]) (simp add: unat_low_bits unat_of_nat_u8 mod_mod_cancel del: of_nat_add)

lemma length_varint_bytes: "n < 128 ^ k \<Longrightarrow> 0 < k \<Longrightarrow> length (varint_bytes n) \<le> k"
proof (induction k arbitrary: n)
  case (Suc k)
  show ?case
  proof (cases "n < 128")
    case False
    with Suc.prems have "k > 0" by (cases k) auto
    moreover have "n div 128 < 128 ^ k" using Suc.prems by (simp add: less_mult_imp_div_less mult.commute)
    ultimately show ?thesis using Suc.IH False by (simp add: varint_bytes.simps [of n])
  qed (simp add: varint_bytes.simps [of n])
qed simp

lemma length_varint_bytes_u64: "length (varint_bytes (unat (v :: u64))) \<le> 10"
  by (rule length_varint_bytes) (use less_trans [OF unat_u64_less [of v]] in simp_all)

lemma continuation_varint_bytes [simp]:
  "continuation (varint_bytes n @ bs) = length (varint_bytes n) - 1"
proof (induction n rule: varint_bytes.induct)
  case (1 n)
  show ?case
  proof (cases "n < 128")
    case True
    then show ?thesis by (simp add: varint_bytes.simps [of n] unat_of_nat_u8)
  next
    case False
    have "n mod 128 + 128 < 256" by simp
    with 1 [OF False] False show ?thesis
      by (simp add: varint_bytes.simps [of n] unat_of_nat_u8 del: of_nat_add)
  qed
qed

lemma varint_value_bytes [simp]: "varint_value (varint_bytes n) = n"
proof (induction n rule: varint_bytes.induct)
  case (1 n)
  show ?case
  proof (cases "n < 128")
    case True
    then show ?thesis by (simp add: varint_bytes.simps [of n] unat_of_nat_u8)
  next
    case False
    have "unat (of_nat (n mod 128 + 128) :: u8) mod 128 = n mod 128"
      by (simp add: unat_of_nat_u8 mod_mod_cancel del: of_nat_add)
    with 1 [OF False] False show ?thesis
      by (simp add: varint_bytes.simps [of n] del: of_nat_add)
  qed
qed

subsection \<open>Little-endian words\<close>

lemma ucast_low_byte: "ucast (w AND 0xFF) = (of_nat (unat (w :: 'a::len word)) :: u8)"
proof -
  have "(0xFF :: 'a word) = mask 8" by (simp add: mask_eq_exp_minus_1)
  then have "w AND 0xFF = take_bit 8 w" by (simp only: take_bit_eq_mask)
  then have "ucast (w AND 0xFF) = (ucast w :: u8)"
    by (simp only:) (intro bit_word_eqI, auto simp: bit_simps)
  then show ?thesis by simp
qed

lemma unat_drop_bit_le: "unat (drop_bit k (w :: 'a::len word)) = unat w div 2 ^ k"
proof -
  have "unat w < 2 ^ LENGTH('a)" by simp
  then have "take_bit LENGTH('a) (unat w) = unat w" by (simp add: take_bit_nat_eq_self)
  then have "unat (drop_bit k w) = drop_bit k (unat w)" by (simp only: unsigned_drop_bit_eq)
  then show ?thesis by (simp only: drop_bit_eq_div)
qed

lemma le_bytes_4:
  "le_bytes 4 v = [of_nat v, of_nat (v div 2 ^ 8), of_nat (v div 2 ^ 16), of_nat (v div 2 ^ 24)]"
proof -
  have four: "(4 :: nat) = Suc (Suc (Suc (Suc 0)))" by simp
  show ?thesis unfolding four le_bytes.simps by (simp add: div_mult2_eq [symmetric])
qed

lemma le_bytes_8:
  "le_bytes 8 v = [of_nat v, of_nat (v div 2 ^ 8), of_nat (v div 2 ^ 16), of_nat (v div 2 ^ 24),
     of_nat (v div 2 ^ 32), of_nat (v div 2 ^ 40), of_nat (v div 2 ^ 48), of_nat (v div 2 ^ 56)]"
proof -
  have eight: "(8 :: nat) = Suc (Suc (Suc (Suc (Suc (Suc (Suc (Suc 0)))))))" by simp
  show ?thesis unfolding eight le_bytes.simps by (simp add: div_mult2_eq [symmetric])
qed

lemma fixed32_bytes:
  "[ucast ((v::u32) AND 0xFF), ucast (drop_bit 8 v AND 0xFF), ucast (drop_bit 16 v AND 0xFF),
    ucast (drop_bit 24 v AND 0xFF)] = le_bytes 4 (unat v)"
  unfolding ucast_low_byte unat_drop_bit_le le_bytes_4 by (rule refl)

lemma fixed64_bytes:
  "[ucast ((v::u64) AND 0xFF), ucast (drop_bit 8 v AND 0xFF), ucast (drop_bit 16 v AND 0xFF),
    ucast (drop_bit 24 v AND 0xFF), ucast (drop_bit 32 v AND 0xFF), ucast (drop_bit 40 v AND 0xFF),
    ucast (drop_bit 48 v AND 0xFF), ucast (drop_bit 56 v AND 0xFF)] = le_bytes 8 (unat v)"
  unfolding ucast_low_byte unat_drop_bit_le le_bytes_8 by (rule refl)

lemma or_byte_le:
  "length bs = n \<Longrightarrow> k = 8 * n \<Longrightarrow>
   (of_nat (of_le bs) OR push_bit k (ucast (b :: u8)) :: 'a::len word) = of_nat (of_le (bs @ [b]))"
proof -
  assume "length bs = n" "k = 8 * n"
  moreover have "of_le (bs @ [b]) = of_le bs + 256 ^ length bs * unat b"
    by (induction bs) (simp_all add: algebra_simps)
  moreover have "(256 :: nat) ^ n = 2 ^ (8 * n)" by (simp add: power_mult)
  moreover have "of_le bs < 256 ^ length bs" by (rule of_le_less)
  ultimately show ?thesis using of_nat_or_push_bit [of "of_le bs" k "unat b", where 'a = 'a]
    by simp
qed

lemma first_byte_le: "push_bit 0 (ucast (b :: u8)) = (of_nat (of_le [b]) :: 'a::len word)"
  by simp

lemma fixed32_word:
  "push_bit 0 (ucast (b0::u8)) OR push_bit 8 (ucast (b1::u8)) OR push_bit 16 (ucast (b2::u8)) OR
   push_bit 24 (ucast (b3::u8)) = (of_nat (of_le [b0,b1,b2,b3]) :: u32)"
proof -
  have "push_bit 0 (ucast b0) OR push_bit 8 (ucast b1) = (of_nat (of_le [b0,b1]) :: u32)"
    unfolding first_byte_le by (subst or_byte_le [of _ 1]) simp_all
  moreover have "of_nat (of_le [b0,b1]) OR push_bit 16 (ucast b2) = (of_nat (of_le [b0,b1,b2]) :: u32)"
    by (subst or_byte_le [of _ 2]) simp_all
  moreover have "of_nat (of_le [b0,b1,b2]) OR push_bit 24 (ucast b3) = (of_nat (of_le [b0,b1,b2,b3]) :: u32)"
    by (subst or_byte_le [of _ 3]) simp_all
  ultimately show ?thesis by (simp only: or.assoc [symmetric])
qed

lemma fixed64_word:
  "push_bit 0 (ucast (b0::u8)) OR push_bit 8 (ucast (b1::u8)) OR push_bit 16 (ucast (b2::u8)) OR
   push_bit 24 (ucast (b3::u8)) OR push_bit 32 (ucast (b4::u8)) OR push_bit 40 (ucast (b5::u8)) OR
   push_bit 48 (ucast (b6::u8)) OR push_bit 56 (ucast (b7::u8))
     = (of_nat (of_le [b0,b1,b2,b3,b4,b5,b6,b7]) :: u64)"
proof -
  have "push_bit 0 (ucast b0) OR push_bit 8 (ucast b1) = (of_nat (of_le [b0,b1]) :: u64)"
    unfolding first_byte_le by (subst or_byte_le [of _ 1]) simp_all
  moreover have "of_nat (of_le [b0,b1]) OR push_bit 16 (ucast b2) = (of_nat (of_le [b0,b1,b2]) :: u64)"
    by (subst or_byte_le [of _ 2]) simp_all
  moreover have "of_nat (of_le [b0,b1,b2]) OR push_bit 24 (ucast b3) = (of_nat (of_le [b0,b1,b2,b3]) :: u64)"
    by (subst or_byte_le [of _ 3]) simp_all
  moreover have "of_nat (of_le [b0,b1,b2,b3]) OR push_bit 32 (ucast b4)
      = (of_nat (of_le [b0,b1,b2,b3,b4]) :: u64)"
    by (subst or_byte_le [of _ 4]) simp_all
  moreover have "of_nat (of_le [b0,b1,b2,b3,b4]) OR push_bit 40 (ucast b5)
      = (of_nat (of_le [b0,b1,b2,b3,b4,b5]) :: u64)"
    by (subst or_byte_le [of _ 5]) simp_all
  moreover have "of_nat (of_le [b0,b1,b2,b3,b4,b5]) OR push_bit 48 (ucast b6)
      = (of_nat (of_le [b0,b1,b2,b3,b4,b5,b6]) :: u64)"
    by (subst or_byte_le [of _ 6]) simp_all
  moreover have "of_nat (of_le [b0,b1,b2,b3,b4,b5,b6]) OR push_bit 56 (ucast b7)
      = (of_nat (of_le [b0,b1,b2,b3,b4,b5,b6,b7]) :: u64)"
    by (subst or_byte_le [of _ 7]) simp_all
  ultimately show ?thesis by (simp only: or.assoc [symmetric])
qed

lemma nths_4: "length bs = 4 \<Longrightarrow> [bs ! 0, bs ! 1, bs ! 2, bs ! 3] = bs"
  by (auto simp: list_eq_iff_nth_eq numeral_eq_Suc less_Suc_eq)

lemma nths_8: "length bs = 8 \<Longrightarrow>
   [bs ! 0, bs ! 1, bs ! 2, bs ! 3, bs ! 4, bs ! 5, bs ! 6, bs ! 7] = bs"
  by (auto simp: list_eq_iff_nth_eq numeral_eq_Suc less_Suc_eq)

end
