(* ===== verification/Varint.thy ===== *)
theory Varint imports Istream Ostream Wire_Bytes begin

section \<open>Varints: the code against the format\<close>

text \<open>
  The proofs that the loops of \<open>pb_encode_varint\<close>, \<open>pb_decode_varint\<close> and
  \<open>pb_decode_varint32\<close> implement the base-128 format of theory Wire_Bytes.
\<close>

subsection \<open>Streams over a buffer\<close>

text \<open>\<open>buffered s\<close>: a stream made by \<open>pb_istream_from_buffer\<close> whose length is right, at any
  position; \<open>pending s\<close> are the bytes it can still deliver.\<close>

definition buffered :: "istream \<Rightarrow> bool" where
  "buffered s \<longleftrightarrow> i_callback s = Buf_read \<and> bytes_left s \<le> length (i_state s)"

definition pending :: "istream \<Rightarrow> u8 list" where
  "pending s = take (bytes_left s) (i_state s)"

definition advance :: "istream \<Rightarrow> nat \<Rightarrow> istream" where
  "advance s n = s\<lparr>i_state := drop n (i_state s), bytes_left := bytes_left s - n\<rparr>"

lemma advance_0 [simp]: "advance s 0 = s"
  by (simp add: advance_def)

lemma advance_advance [simp]: "advance (advance s m) n = advance s (m + n)"
  by (simp add: advance_def add.commute)

lemma buffered_advance [simp]: "buffered s \<Longrightarrow> buffered (advance s n)"
  by (auto simp: buffered_def advance_def)

lemma pending_advance [simp]: "pending (advance s n) = drop n (pending s)"
  by (simp add: pending_def advance_def drop_take)

lemma length_pending [simp]: "buffered s \<Longrightarrow> length (pending s) = bytes_left s"
  by (simp add: pending_def buffered_def)

lemma advance_sel [simp]:
  "i_callback (advance s n) = i_callback s" "bytes_left (advance s n) = bytes_left s - n"
  "i_errmsg (advance s n) = i_errmsg s"
  by (simp_all add: advance_def)

lemma readbyte_buffered:
  assumes "buffered s"
  shows "pb_readbyte s =
    (case pending s of [] \<Rightarrow> i_error s ''end-of-stream''
     | b # _ \<Rightarrow> Some (Some b, advance s 1))"
  using assms
  by (cases "i_state s"; cases "bytes_left s")
     (auto simp: pb_readbyte_def i_call_def buf_read_def buffered_def pending_def advance_def)

lemma read_checked_buffered:
  assumes "buffered s"
  shows "pb_read_checked s n =
    (if n \<le> bytes_left s then Some (Some (take n (pending s)), advance s n)
     else i_error s ''end-of-stream'')"
  using assms
  by (auto simp: pb_read_checked_def i_call_def buf_read_def buffered_def pending_def advance_def
      min_def)

lemma read_buffered:
  assumes "buffered s"
  shows "pb_read s buf n =
    (if n \<le> bytes_left s then Some (Some (take n (pending s)), advance s n)
     else i_error s ''end-of-stream'')"
  using read_checked_buffered [OF assms] assms
  by (auto simp: pb_read_def buffered_def)

subsection \<open>Reading varints\<close>

text \<open>What the 64-bit decoding loop does on a buffer, at byte \<open>j\<close> of the varint.\<close>

definition varint_outcome :: "istream \<Rightarrow> nat \<Rightarrow> nat \<Rightarrow> (u64, istream) outcome" where
  "varint_outcome s j r =
     (let c = continuation (pending s) in
      if 10 \<le> j + c then i_error (advance s (10 - j)) ''varint overflow''
      else if c = bytes_left s then i_error (advance s c) ''end-of-stream''
      else Some (Some (of_nat (r + 2 ^ (7 * j) * varint_value (take (c + 1) (pending s)))),
                 advance s (c + 1)))"

lemma varint_loop_step:
  assumes "buffered s" "r < 2 ^ (7 * j)" "j < 10"
  shows "varint_loop s (of_nat (7 * j)) (of_nat r) =
    (case pending s of [] \<Rightarrow> i_error s ''end-of-stream''
     | b # _ \<Rightarrow> (let r' = r + 2 ^ (7 * j) * (unat b mod 128) in
        if unat b < 128 then Some (Some (of_nat r'), advance s 1)
        else varint_loop (advance s 1) (of_nat (7 * Suc j)) (of_nat r')))"
proof -
  have "\<not> (of_nat (7 * j) :: u8) \<ge> 64" using assms(3) 
    by (simp add: word_le_nat_alt u8_bitpos del: of_nat_mult)
  moreover have "(of_nat (7 * j) :: u8) + 7 = of_nat (7 * Suc j)" by simp
  ultimately show ?thesis
    using assms or_byte_group [OF assms(2), where 'a = 64]
    by (subst varint_loop.simps)
       (cases "pending s"; simp add: readbyte_buffered Let_def u8_top_bit i_error_def
          del: of_nat_mult of_nat_add)
qed

lemma varint_loop_buffered:
  assumes "buffered s" "r < 2 ^ (7 * j)" "j \<le> 10"
  shows "varint_loop s (of_nat (7 * j)) (of_nat r) = varint_outcome s j r"
  using assms
proof (induction "10 - j" arbitrary: s j r)
  case 0
  then have "j = 10" by simp
  then show ?case
    by (subst varint_loop.simps) (simp add: varint_outcome_def)
next
  case (Suc n)
  then have j: "j < 10" and n: "n = 10 - Suc j" by auto
  show ?case
  proof (cases "pending s")
    case Nil
    then have "bytes_left s = 0" using length_pending [OF Suc.prems(1)] by simp
    with Nil j show ?thesis
      by (simp add: varint_loop_step [OF Suc.prems(1,2) j] varint_outcome_def del: of_nat_mult of_nat_add)
  next
    case (Cons b bs)
    then have left: "bytes_left s = Suc (length bs)" using length_pending [OF Suc.prems(1)] by simp
    let ?r = "r + 2 ^ (7 * j) * (unat b mod 128)"
    show ?thesis
    proof (cases "unat b < 128")
      case True
      with Cons j left show ?thesis
        by (simp add: varint_loop_step [OF Suc.prems(1,2) j] varint_outcome_def del: of_nat_mult of_nat_add)
    next
      case False
      have "varint_loop s (of_nat (7 * j)) (of_nat r) = varint_outcome (advance s 1) (Suc j) ?r"
        using Suc.hyps(1) [OF n _ group_less [OF Suc.prems(2)], of "advance s 1"] Suc.prems j Cons False
        by (simp add: varint_loop_step [OF Suc.prems(1,2) j] Let_def del: of_nat_mult of_nat_add)
      also have "\<dots> = varint_outcome s j r"
        using Cons False left Suc_diff_Suc [OF j]
        by (simp add: varint_outcome_def Let_def algebra_simps power_add)
      finally show ?thesis .
    qed
  qed
qed

lemma decode_varint_buffered:
  assumes "buffered s"
  shows "pb_decode_varint s =
    (let c = continuation (pending s) in
      if 10 \<le> c then i_error (advance s 10) ''varint overflow''
      else if c = bytes_left s then i_error (advance s c) ''end-of-stream''
      else Some (Some (of_nat (varint_value (take (c + 1) (pending s)))), advance s (c + 1)))"
  using varint_loop_buffered [OF assms, of 0 0]
  by (simp add: pb_decode_varint_def varint_outcome_def Let_def)


subsection \<open>Writing varints\<close>

definition close_varint :: "u8 list \<Rightarrow> u8 list" where
  "close_varint l = l[length l - 1 := l ! (length l - 1) AND 0x7F]"

lemma close_varint_Cons: "l \<noteq> [] \<Longrightarrow> close_varint (b # l) = b # close_varint l"
  by (cases l) (auto simp: close_varint_def)

lemma encode_varint_loop_bytes:
  "v \<noteq> 0 \<Longrightarrow> encode_varint_loop v \<noteq> [] \<and> close_varint (encode_varint_loop v) = varint_bytes (unat v)"
proof (induction v rule: encode_varint_loop.induct)
  case (1 v)
  let ?w = "drop_bit 7 v"
  have loop: "encode_varint_loop v = of_nat (unat v mod 128 + 128) # encode_varint_loop ?w"
    using 1(2) encoded_byte [of v] by (subst encode_varint_loop.simps) simp
  show ?case
  proof (cases "unat v < 128")
    case True
    then have "unat ?w = 0" using unat_drop_7 [of v] by simp
    then have "encode_varint_loop ?w = []" by (simp add: encode_varint_loop.simps unat_eq_zero)
    with loop True show ?thesis
      by (simp add: close_varint_def clear_top_bit varint_bytes.simps [of "unat v"] del: of_nat_add)
  next
    case False
    then have "?w \<noteq> 0" using unat_drop_7 [of v] by (auto simp: unat_eq_zero [symmetric])
    then show ?thesis using 1 loop False unat_drop_7 [of v]
      by (simp add: close_varint_Cons varint_bytes.simps [of "unat v"] del: of_nat_add)
  qed
qed

lemma pb_encode_varint_bytes:
  "pb_encode_varint s v =
     pb_write s (Some (varint_bytes (unat v))) (of_nat (length (varint_bytes (unat v))))"
proof (cases "v \<le> 0x7F")
  case True
  then have "unat v < 128" by (simp add: word_le_nat_alt)
  then show ?thesis using True by (simp add: pb_encode_varint_def varint_bytes.simps [of "unat v"])
next
  case False
  then have "v \<noteq> 0" by auto
  then show ?thesis using False encode_varint_loop_bytes [of v]
    by (simp add: pb_encode_varint_def close_varint_def Let_def)
     (metis length_list_update)
qed

text \<open>Decoding what the encoder wrote.\<close>

lemma decode_varint_bytes:
  assumes "buffered s" "pending s = varint_bytes (unat v) @ bs"
  shows "pb_decode_varint s = Some (Some v, advance s (length (varint_bytes (unat v))))"
proof -
  let ?l = "varint_bytes (unat v)"
  have "length (pending s) = length ?l + length bs" using assms by simp
  then have "bytes_left s = length ?l + length bs" using assms(1) by simp
  moreover have "0 < length ?l" by simp
  moreover note length_varint_bytes_u64 [of v]
  moreover have "\<not> 10 \<le> length ?l - Suc 0" using calculation by linarith
  moreover have "length ?l - Suc 0 \<noteq> length ?l + length bs" using calculation by linarith
  ultimately show ?thesis using assms
    by (simp add: decode_varint_buffered Let_def)
qed

subsection \<open>The 32-bit decoder\<close>

text \<open>The value of the varint at the front of the stream.\<close>

definition front_varint :: "istream \<Rightarrow> nat" where
  "front_varint s = varint_value (take (continuation (pending s) + 1) (pending s))"

lemma unat_u8_masked: "unat (b :: u8) mod 128 = 0 \<Longrightarrow> b AND 0x7F = 0"
  using unat_low_bits [of b] by (simp add: unat_eq_zero)

lemma varint32_loop_step:
  assumes "buffered s" "pending s = b # bs" "r < 2 ^ (7 * j)" "j < 10"
    and small: "r + 2 ^ (7 * j) * (unat b mod 128) < 2 ^ 32"
  shows "varint32_loop s (of_nat (7 * j)) (of_nat r) =
    (let r' = r + 2 ^ (7 * j) * (unat b mod 128) in
        if unat b < 128 then Some (Some (of_nat r', of_nat (7 * Suc j), b), advance s 1)
        else varint32_loop (advance s 1) (of_nat (7 * Suc j)) (of_nat r'))"
proof -
  have zero: "unat b mod 128 = 0" if "5 \<le> j"
  proof (rule ccontr)
    assume "unat b mod 128 \<noteq> 0"
    then have "(2::nat) ^ (7 * j) \<le> 2 ^ (7 * j) * (unat b mod 128)" by simp
    moreover have "(2::nat) ^ 35 \<le> 2 ^ (7 * j)" by (rule power_increasing) (use that in auto)
    moreover have "2 ^ (7 * j) * (unat b mod 128) < 2 ^ 32" using small by linarith
    ultimately have "(2::nat) ^ 35 < 2 ^ 32" by linarith
    then show False by simp
  qed
  have ge: "((of_nat (7 * j) :: u8) \<ge> 32) = (5 \<le> j)" using assms(4)
    by (auto simp: word_le_nat_alt u8_bitpos simp del: of_nat_mult)
  have next_pos: "(of_nat (7 * j) :: u8) + 7 = of_nat (7 * Suc j)" by simp
  show ?thesis
  proof (cases "5 \<le> j")
    case True
    then show ?thesis using assms(1,2) ge next_pos zero [OF True] unat_u8_masked [OF zero [OF True]]
      by (subst varint32_loop.simps)
        (simp add: readbyte_buffered Let_def u8_top_bit del: of_nat_mult of_nat_add)
  next
    case False
    have "j \<le> 10" using assms(4) by simp
    with False show ?thesis using assms(1,2) ge next_pos or_byte_group [OF assms(3), where 'a = 32]
      by (subst varint32_loop.simps)
        (simp add: readbyte_buffered Let_def u8_top_bit del: of_nat_mult of_nat_add)
  qed
qed

lemma varint32_loop_buffered:
  assumes "buffered s" "r < 2 ^ (7 * j)" "j + continuation (pending s) < 10"
    and "continuation (pending s) < bytes_left s"
    and "r + 2 ^ (7 * j) * front_varint s < 2 ^ 32"
  shows "varint32_loop s (of_nat (7 * j)) (of_nat r) =
     Some (Some (of_nat (r + 2 ^ (7 * j) * front_varint s),
                 of_nat (7 * (j + continuation (pending s) + 1)),
                 pending s ! continuation (pending s)),
           advance s (continuation (pending s) + 1))"
  using assms
proof (induction "continuation (pending s)" arbitrary: s j r)
  case 0
  then obtain b bs where p: "pending s = b # bs" using length_pending [OF 0(2)]
    by (cases "pending s") auto
  with 0 have b: "unat b < 128" by (auto split: if_splits)
  then have "front_varint s = unat b" using p by (simp add: front_varint_def)
  with 0 p b show ?case
    by (simp add: varint32_loop_step [OF 0(2) p 0(3)] Let_def del: of_nat_mult of_nat_add)
next
  case (Suc n)
  obtain b bs where p: "pending s = b # bs" using Suc.prems length_pending [OF Suc.prems(1)]
    by (cases "pending s") auto
  with Suc have b: "\<not> unat b < 128" and n: "n = continuation bs" by (auto split: if_splits)
  let ?r = "r + 2 ^ (7 * j) * (unat b mod 128)"
  let ?s = "advance s 1"
  have "front_varint s = unat b mod 128 + 128 * front_varint ?s"
    using p b by (simp add: front_varint_def)
  then have total: "?r + 2 ^ (7 * Suc j) * front_varint ?s = r + 2 ^ (7 * j) * front_varint s"
    by (simp add: algebra_simps power_add)
  have "?r \<le> ?r + 2 ^ (7 * Suc j) * front_varint ?s" by simp
  then have small: "?r < 2 ^ 32" using total Suc.prems(5) by linarith
  have "varint32_loop ?s (of_nat (7 * Suc j)) (of_nat ?r) =
     Some (Some (of_nat (?r + 2 ^ (7 * Suc j) * front_varint ?s),
                 of_nat (7 * (Suc j + continuation (pending ?s) + 1)),
                 pending ?s ! continuation (pending ?s)),
           advance ?s (continuation (pending ?s) + 1))"
  proof (rule Suc.hyps(1))
    show "n = continuation (pending ?s)" using p n by simp
    show "buffered ?s" using Suc.prems by simp
    show "?r < 2 ^ (7 * Suc j)" by (rule group_less [OF Suc.prems(2)])
    show "Suc j + continuation (pending ?s) < 10" using Suc.prems p b by simp
    show "continuation (pending ?s) < bytes_left ?s" using Suc.prems p b by simp
    show "?r + 2 ^ (7 * Suc j) * front_varint ?s < 2 ^ 32" using total Suc.prems by simp
  qed
  note ih = this [unfolded total]
  have "j < 10" using Suc.prems by simp
  with ih show ?case using varint32_loop_step [OF Suc.prems(1) p Suc.prems(2) _ small] p b
    by (simp add: Let_def del: of_nat_mult of_nat_add)
qed

lemma continuation_end: "continuation bs < length bs \<Longrightarrow> unat (bs ! continuation bs) < 128"
  by (induction bs) auto

lemma varint_value_last:
  "c < length bs \<Longrightarrow> 128 ^ c * (unat (bs ! c) mod 128) \<le> varint_value (take (c + 1) bs)"
  by (simp add: take_Suc_conv_app_nth varint_value_append)

lemma and_0x70: "unat (b :: u8) < 16 \<Longrightarrow> b AND 0x70 = 0"
proof -
  assume "unat b < 16"
  then have "unat (take_bit 4 b) = unat b"
    by (simp only: unsigned_take_bit_eq) (simp add: take_bit_eq_mod)
  then have "b = take_bit 4 b" by (simp only: word_unat_eq_iff)
  also have "\<dots> = b AND 0x0F" by (simp add: take_bit_eq_mask mask_eq_exp_minus_1)
  finally have "b AND 0x70 = b AND (0x0F AND 0x70)" by (metis and.assoc)
  then show ?thesis by simp
qed

lemma decode_varint32_buffered:
  assumes "buffered s" "continuation (pending s) < 10"
    and "continuation (pending s) < bytes_left s" "front_varint s < 2 ^ 32"
  shows "pb_decode_varint32_eof s eof =
           Some (Some (of_nat (front_varint s)), eof, advance s (continuation (pending s) + 1))"
proof -
  obtain b bs where p: "pending s = b # bs" using assms length_pending [OF assms(1)]
    by (cases "pending s") auto
  let ?s = "advance s 1"
  show ?thesis
  proof (cases "unat b < 128")
    case True
    then show ?thesis using p assms
      by (simp add: pb_decode_varint32_eof_def readbyte_buffered u8_top_bit front_varint_def)
  next
    case False
    let ?c = "continuation (pending ?s)"
    have front: "front_varint s = unat b mod 128 + 128 * front_varint ?s"
      using p False by (simp add: front_varint_def)
    have loop: "varint32_loop ?s (of_nat (7 * 1)) (of_nat (unat b mod 128)) =
       Some (Some (of_nat (unat b mod 128 + 2 ^ (7 * 1) * front_varint ?s),
                   of_nat (7 * (1 + ?c + 1)), pending ?s ! ?c), advance ?s (?c + 1))"
      by (rule varint32_loop_buffered) (use assms p False front in auto)
    have "pending ?s ! ?c AND 0x70 = 0" if "(of_nat (7 * (1 + ?c + 1)) :: u8) = 35"
    proof -
      have "(of_nat (7 * (1 + ?c + 1)) :: u8) = of_nat 35" using that by simp
      then have "7 * (1 + ?c + 1) = (35 :: nat)" 
        using u8_bitpos [of "7 * (1 + ?c + 1)"] u8_bitpos [of 35] assms(2) p False by simp
      then have c: "?c = 3" by simp
      have cont: "continuation (pending s) = 4" using c p False by simp
      have nth: "pending ?s ! ?c = pending s ! 4" using c p by simp
      have "unat (pending s ! 4) < 128" using continuation_end [of "pending s"] cont assms by simp
      moreover have "128 ^ 4 * (unat (pending s ! 4) mod 128) < 2 ^ 32"
        using varint_value_last [of 4 "pending s"] cont assms by (simp add: front_varint_def)
      ultimately show ?thesis unfolding nth by (intro and_0x70) simp
    qed
    then show ?thesis using p assms False loop front
      by (auto simp: pb_decode_varint32_eof_def readbyte_buffered u8_top_bit u8_low_bits
        simp del: of_nat_mult of_nat_add)
  qed
qed

end
