(* ===== verification/Codec.thy ===== *)
theory Codec imports Varint begin

section \<open>Encoders and decoders over buffers\<close>

text \<open>
  Streams over memory buffers on the output side, and the contract of one encoder with one
  decoder: \<open>wire_codec\<close> says which bytes the encoder appends and that the decoder reads them
  back. Its lemmas (fresh buffers, full buffers, runs of values as in packed arrays) hold for
  every pair that is shown to be an instance.
\<close>

subsection \<open>Output buffers\<close>

text \<open>\<open>out s\<close> is what a buffer stream holds so far, \<open>room s\<close> how many bytes \<open>max_size\<close> still
  allows, \<open>put s bs\<close> the stream after \<open>bs\<close> went into it.\<close>

definition out :: "ostream \<Rightarrow> u8 list" where
  "out s = take (snd (o_state s)) (fst (o_state s))"

definition room :: "ostream \<Rightarrow> nat" where
  "room s = unat (max_size s) - unat (bytes_written s)"

definition obuffered :: "ostream \<Rightarrow> bool" where
  "obuffered s \<longleftrightarrow> o_callback s = Buf_write \<and> bytes_written s \<le> max_size s \<and>
     snd (o_state s) + room s \<le> length (fst (o_state s))"

definition append_bytes :: "ostream \<Rightarrow> u8 list \<Rightarrow> ostream" where
  "append_bytes s bs =
     s\<lparr>o_state := (take (snd (o_state s)) (fst (o_state s)) @ bs @
                    drop (snd (o_state s) + length bs) (fst (o_state s)),
                  snd (o_state s) + length bs),
       bytes_written := bytes_written s + of_nat (length bs)\<rparr>"

lemma unat_add_of_nat: "unat w + n < 2 ^ 64 \<Longrightarrow> unat ((w :: u64) + of_nat n) = unat w + n"
  by (simp add: unat_word_ariths unsigned_of_nat take_bit_eq_mod mod_simps)

lemma append_bytes_Nil [simp]: "append_bytes s [] = s"
  by (simp add: append_bytes_def)

lemma out_append [simp]: "obuffered s \<Longrightarrow> out (append_bytes s bs) = out s @ bs"
  by (simp add: out_def append_bytes_def obuffered_def)

lemma append_append [simp]:
  "obuffered s \<Longrightarrow> append_bytes (append_bytes s as) bs = append_bytes s (as @ bs)"
  by (simp add: append_bytes_def obuffered_def algebra_simps)

lemma written_append:
  assumes "length bs \<le> room s" "bytes_written s \<le> max_size s"
  shows "unat (bytes_written (append_bytes s bs)) = unat (bytes_written s) + length bs"
proof -
  have "unat (bytes_written s) + length bs \<le> unat (max_size s)"
    using assms by (simp add: room_def word_le_nat_alt)
  moreover have "unat (max_size s) < 2 ^ 64" using unat_u64_less [of "max_size s"] by simp
  ultimately have "unat (bytes_written s) + length bs < 2 ^ 64" by linarith
  from unat_add_of_nat [OF this] show ?thesis by (simp add: append_bytes_def)
qed

lemma append_sel [simp]:
  "o_callback (append_bytes s bs) = o_callback s" "max_size (append_bytes s bs) = max_size s"
  "o_errmsg (append_bytes s bs) = o_errmsg s"
  "snd (o_state (append_bytes s bs)) = snd (o_state s) + length bs"
  by (simp_all add: append_bytes_def)

lemma room_append [simp]:
  "obuffered s \<Longrightarrow> length bs \<le> room s \<Longrightarrow> room (append_bytes s bs) = room s - length bs"
  by (simp add: room_def [of "append_bytes s bs"] written_append obuffered_def) (simp add: room_def)

lemma length_buffer_append:
  "snd (o_state s) + length bs \<le> length (fst (o_state s)) \<Longrightarrow>
     length (fst (o_state (append_bytes s bs))) = length (fst (o_state s))"
  by (simp add: append_bytes_def)

lemma obuffered_append [simp]:
  assumes "obuffered s" "length bs \<le> room s"
  shows "obuffered (append_bytes s bs)"
proof -
  have "unat (bytes_written (append_bytes s bs)) = unat (bytes_written s) + length bs"
    using assms by (simp add: written_append obuffered_def)
  moreover have "length (fst (o_state (append_bytes s bs))) = length (fst (o_state s))"
    using assms by (intro length_buffer_append) (simp add: obuffered_def)
  ultimately show ?thesis using assms room_append [OF assms]
    by (simp add: obuffered_def word_le_nat_alt) (simp add: room_def, linarith)
qed

lemma overflow_check:
  fixes w m :: u64
  assumes "w \<le> m" "n < 2 ^ 64"
  shows "(w + of_nat n < w \<or> w + of_nat n > m) = (unat m - unat w < n)"
proof (cases "unat w + n < 2 ^ 64")
  case True
  then show ?thesis using assms by (auto simp: word_less_nat_alt word_le_nat_alt unat_add_of_nat)
next
  case False
  have "unat (w + of_nat n) = (unat w + n) mod 2 ^ 64"
    by (simp add: unat_word_ariths unsigned_of_nat take_bit_eq_mod mod_simps)
  also have "\<dots> = unat w + n - 2 ^ 64"
  proof -
    have "unat w < 2 ^ 64" by simp
    then have "unat w + n - 2 ^ 64 < 2 ^ 64" using assms(2) False by linarith
    then show ?thesis using False by (simp add: le_mod_geq)
  qed
  finally have "unat (w + of_nat n) < unat w" using assms(2) False by linarith
  moreover have "unat m < 2 ^ 64" by simp
  then have "unat m < unat w + n" using False by linarith
  then have "unat m - unat w < n" using assms(1) [unfolded word_le_nat_alt] by linarith
  ultimately show ?thesis by (simp add: word_less_nat_alt)
qed

lemma write_buffered:
  assumes "obuffered s" "length bs < 2 ^ 64"
  shows "pb_write s (Some bs) (of_nat (length bs)) =
    (if length bs \<le> room s then Some (Some (), append_bytes s bs) else o_error s ''stream full'')"
proof -
  have n: "unat (of_nat (length bs) :: u64) = length bs"
    using assms by (simp add: unsigned_of_nat take_bit_nat_eq_self)
  have pos: "((of_nat (length bs) :: u64) > 0) = (bs \<noteq> [])"
    using n by (cases bs) (auto simp: word_less_nat_alt simp del: of_nat_Suc)
  have chk: "(bytes_written s + of_nat (length bs) < bytes_written s \<or>
              bytes_written s + of_nat (length bs) > max_size s) = (room s < length bs)"
    using overflow_check [of "bytes_written s" "max_size s" "length bs"] assms
    by (simp add: obuffered_def room_def)
  show ?thesis
  proof (cases "length bs \<le> room s \<and> bs \<noteq> []")
    case True
    then have "snd (o_state s) + length bs \<le> length (fst (o_state s))"
      using assms by (simp add: obuffered_def)
    with True assms pos chk n show ?thesis
      by (cases "o_state s")
        (simp add: pb_write_def obuffered_def o_call_def buf_write_def append_bytes_def)
  next
    case False
    with assms pos chk show ?thesis
      by (auto simp: pb_write_def obuffered_def)
  qed
qed


lemma room_fresh [simp]: "room (pb_ostream_from_buffer buf n) = unat n"
  by (simp add: room_def pb_ostream_from_buffer_def)

lemma out_fresh [simp]: "out (pb_ostream_from_buffer buf n) = []"
  by (simp add: out_def pb_ostream_from_buffer_def)

lemma obuffered_fresh [simp]:
  "unat n \<le> length buf \<Longrightarrow> obuffered (pb_ostream_from_buffer buf n)"
  by (simp add: obuffered_def room_def pb_ostream_from_buffer_def)

subsection \<open>What an encoder writes and a decoder reads\<close>

text \<open>\<open>writes enc bs\<close>: the encoder appends \<open>bs\<close>, or, when \<open>max_size\<close> does not allow it, fails
  with \<open>stream full\<close> after a part that does fit. \<open>reads dec bs v\<close>: wherever a stream goes on
  with \<open>bs\<close>, the decoder returns \<open>v\<close> and consumes exactly \<open>bs\<close>.\<close>

definition writes :: "(ostream \<Rightarrow> (unit, ostream) outcome) \<Rightarrow> u8 list \<Rightarrow> bool" where
  "writes enc bs \<longleftrightarrow> (\<forall>s. obuffered s \<longrightarrow>
     (if length bs \<le> room s then enc s = Some (Some (), append_bytes s bs)
      else \<exists>k \<le> room s. enc s = o_error (append_bytes s (take k bs)) ''stream full''))"

definition reads :: "(istream \<Rightarrow> ('a, istream) outcome) \<Rightarrow> u8 list \<Rightarrow> 'a \<Rightarrow> bool" where
  "reads dec bs v \<longleftrightarrow> (\<forall>s rest. buffered s \<and> pending s = bs @ rest \<longrightarrow>
     dec s = Some (Some v, advance s (length bs)))"

lemma writesD: "writes enc bs \<Longrightarrow> obuffered s \<Longrightarrow> length bs \<le> room s \<Longrightarrow>
    enc s = Some (Some (), append_bytes s bs)"
  by (simp add: writes_def)

lemma readsD: "reads dec bs v \<Longrightarrow> buffered s \<Longrightarrow> pending s = bs @ rest \<Longrightarrow>
    dec s = Some (Some v, advance s (length bs))"
  by (auto simp: reads_def)

lemma writes_write: "length bs < 2 ^ 64 \<Longrightarrow> n = of_nat (length bs) \<Longrightarrow>
   writes (\<lambda>s. pb_write s (Some bs) n) bs"
  by (auto simp: writes_def write_buffered intro!: exI [of _ 0])

lemma writes_then:
  assumes "writes e as" "writes f bs"
  shows "writes (\<lambda>s. ok_then (e s) (\<lambda>_ s'. f s')) (as @ bs)"
  unfolding writes_def
proof (intro allI impI)
  fix s assume s: "obuffered s"
  show "if length (as @ bs) \<le> room s
        then ok_then (e s) (\<lambda>_. f) = Some (Some (), append_bytes s (as @ bs))
        else \<exists>k \<le> room s. ok_then (e s) (\<lambda>_. f) = o_error (append_bytes s (take k (as @ bs))) ''stream full''"
  proof (cases "length as \<le> room s")
    case True
    let ?t = "append_bytes s as"
    have e: "e s = Some (Some (), ?t)" by (rule writesD [OF assms(1) s True])
    show ?thesis
    proof (cases "length bs \<le> room ?t")
      case fits: True
      then have "f ?t = Some (Some (), append_bytes ?t bs)"
        using writesD [OF assms(2)] s True by simp
      moreover have "length (as @ bs) \<le> room s" using fits True s by simp
      ultimately show ?thesis using e s by simp
    next
      case False
      then obtain k where k: "k \<le> room ?t" "f ?t = o_error (append_bytes ?t (take k bs)) ''stream full''"
        using assms(2) s True unfolding writes_def by (metis obuffered_append)
      with e s True False show ?thesis
        by (auto simp: o_error_def intro!: exI [of _ "length as + k"])
    qed
  next
    case False
    then obtain k where "k \<le> room s" "e s = o_error (append_bytes s (take k as)) ''stream full''"
      using assms(1) s unfolding writes_def by metis
    with False show ?thesis by (auto simp: o_error_def intro!: exI [of _ k])
  qed
qed

lemma writes_nothing: "writes (\<lambda>s. Some (Some (), s)) []"
  by (simp add: writes_def)

locale wire_codec =
  fixes encode :: "ostream \<Rightarrow> 'a \<Rightarrow> (unit, ostream) outcome"
    and decode :: "istream \<Rightarrow> ('a, istream) outcome"
    and repr :: "'a \<Rightarrow> u8 list"
    and valid :: "'a \<Rightarrow> bool"
  assumes encode_writes: "valid v \<Longrightarrow> writes (\<lambda>s. encode s v) (repr v)"
    and decode_reads: "valid v \<Longrightarrow> reads decode (repr v) v"
begin

primrec encode_all :: "ostream \<Rightarrow> 'a list \<Rightarrow> (unit, ostream) outcome" where
  "encode_all s [] = Some (Some (), s)"
| "encode_all s (v # vs) = ok_then (encode s v) (\<lambda>_ s'. encode_all s' vs)"

primrec decode_all :: "istream \<Rightarrow> nat \<Rightarrow> ('a list, istream) outcome" where
  "decode_all s 0 = Some (Some [], s)"
| "decode_all s (Suc n) =
     ok_then (decode s) (\<lambda>v s'. ok_then (decode_all s' n) (\<lambda>vs s''. Some (Some (v # vs), s'')))"

lemma encode_all_buffered:
  assumes "obuffered s" "\<forall>v \<in> set vs. valid v" "length (concat (map repr vs)) \<le> room s"
  shows "encode_all s vs = Some (Some (), append_bytes s (concat (map repr vs)))"
  using assms
proof (induction vs arbitrary: s)
  case (Cons v vs)
  then have e: "encode s v = Some (Some (), append_bytes s (repr v))"
    by (intro writesD [OF encode_writes]) auto
  have "encode_all (append_bytes s (repr v)) vs =
      Some (Some (), append_bytes (append_bytes s (repr v)) (concat (map repr vs)))"
    by (rule Cons.IH) (use Cons.prems in auto)
  with e Cons.prems show ?case by simp
qed simp

lemma decode_all_buffered:
  assumes "buffered s" "\<forall>v \<in> set vs. valid v" "pending s = concat (map repr vs) @ rest"
  shows "decode_all s (length vs) = Some (Some vs, advance s (length (concat (map repr vs))))"
  using assms
proof (induction vs arbitrary: s)
  case (Cons v vs)
  then have d: "decode s = Some (Some v, advance s (length (repr v)))"
    by (intro readsD [OF decode_reads]) auto
  have "decode_all (advance s (length (repr v))) (length vs) =
      Some (Some vs, advance (advance s (length (repr v))) (length (concat (map repr vs))))"
    by (rule Cons.IH) (use Cons.prems in auto)
  with d show ?case by simp
qed simp

text \<open>A value written to a fresh buffer is read back from the bytes written, all of them.\<close>

lemma fresh_roundtrip:
  assumes "valid v" "length (repr v) \<le> unat n" "unat n \<le> length buf"
  shows "\<exists>s i. encode (pb_ostream_from_buffer buf n) v = Some (Some (), s) \<and> out s = repr v \<and>
     unat (bytes_written s) = length (repr v) \<and>
     decode (pb_istream_from_buffer (fst (o_state s)) (unat (bytes_written s))) = Some (Some v, i) \<and>
     bytes_left i = 0"
proof -
  let ?o = "pb_ostream_from_buffer buf n"
  let ?s = "append_bytes ?o (repr v)"
  let ?i = "pb_istream_from_buffer (fst (o_state ?s)) (length (repr v))"
  have o: "obuffered ?o" using assms by simp
  have enc: "encode ?o v = Some (Some (), ?s)"
    by (rule writesD [OF encode_writes [OF assms(1)] o]) (use assms in simp)
  have w: "unat (bytes_written ?s) = length (repr v)"
    using written_append [of "repr v" ?o] assms
    by (simp add: pb_ostream_from_buffer_def room_def)
  have st: "fst (o_state ?s) = repr v @ drop (length (repr v)) buf"
    by (simp add: append_bytes_def pb_ostream_from_buffer_def)
  have "buffered ?i" "pending ?i = repr v @ []"
    unfolding st by (simp_all add: buffered_def pending_def pb_istream_from_buffer_def)
  from readsD [OF decode_reads [OF assms(1)] this]
  have "decode ?i = Some (Some v, advance ?i (length (repr v)))" .
  moreover have "bytes_left (advance ?i (length (repr v))) = 0"
    by (simp add: pb_istream_from_buffer_def)
  ultimately show ?thesis using enc w o by auto
qed

text \<open>A buffer that is too small is refused.\<close>

lemma full_buffer:
  assumes "valid v" "unat n < length (repr v)" "unat n \<le> length buf"
  shows "\<exists>k \<le> unat n. encode (pb_ostream_from_buffer buf n) v =
    o_error (append_bytes (pb_ostream_from_buffer buf n) (take k (repr v))) ''stream full''"
proof -
  have "obuffered (pb_ostream_from_buffer buf n)" using assms by simp
  with encode_writes [OF assms(1)] assms(2) show ?thesis by (auto simp: writes_def)
qed

lemma encode_all_writes:
  "\<forall>v \<in> set vs. valid v \<Longrightarrow> writes (\<lambda>s. encode_all s vs) (concat (map repr vs))"
  by (induction vs) (auto intro: writes_then encode_writes simp: writes_nothing)

end

lemma writes_varint: "writes (\<lambda>s. pb_encode_varint s v) (varint_bytes (unat v))"
  unfolding pb_encode_varint_bytes
  by (rule writes_write) (use le_less_trans [OF length_varint_bytes_u64 [of v]] in simp_all)

lemma reads_varint: "reads pb_decode_varint (varint_bytes (unat v)) v"
  by (auto simp: reads_def intro: decode_varint_bytes)

interpretation varint: wire_codec pb_encode_varint pb_decode_varint "\<lambda>v. varint_bytes (unat v)" "\<lambda>_. True"
  by unfold_locales (simp_all add: writes_varint reads_varint)

end
