(* ===== verification/Wire_Format.thy ===== *)
theory Wire_Format imports Codec begin

section \<open>The scalar encodings are codecs\<close>

text \<open>
  For each scalar of the wire format the pair of functions of \<open>pb_encode.c\<close> and
  \<open>pb_decode.c\<close> is an instance of \<open>wire_codec\<close>: varints, zigzag varints, fixed 32 and 64
  bit little-endian integers, field tags and length-delimited strings; and
  \<open>pb_skip_field\<close> skips each of them.
\<close>

subsection \<open>Zigzag\<close>

definition zigzag :: "u64 \<Rightarrow> u64" where
  "zigzag v = (if sint v < 0 then NOT (push_bit 1 v) else push_bit 1 v)"

definition unzigzag :: "u64 \<Rightarrow> u64" where
  "unzigzag z = (if z AND 1 \<noteq> 0 then NOT (drop_bit 1 z) else drop_bit 1 z)"

lemma sint_neg_bit: "sint (v :: u64) < 0 \<longleftrightarrow> bit v 63"
  using bit_last_iff [of v] by simp

lemma and_1_bit: "(z :: u64) AND 1 \<noteq> 0 \<longleftrightarrow> bit z 0"
  by (simp add: and_one_eq odd_iff_mod_2_eq_one bit_0)

lemma drop_push_1: "bit (drop_bit 1 (push_bit 1 (v :: u64))) n \<longleftrightarrow> n < 63 \<and> bit v n"
  unfolding bit_drop_bit_eq bit_push_bit_iff o_def by (auto dest: bit_imp_le_length)

lemma drop_not_push_1: "bit (drop_bit 1 (NOT (push_bit 1 (v :: u64)))) n \<longleftrightarrow> n < 63 \<and> \<not> bit v n"
  unfolding bit_drop_bit_eq bit_push_bit_iff bit_not_iff o_def by auto

lemma unzigzag_zigzag: "unzigzag (zigzag v) = v"
proof (cases "bit v 63")
  case True
  then have z: "zigzag v = NOT (push_bit 1 v)" by (simp only: zigzag_def sint_neg_bit if_True)
  have "bit (zigzag v) 0" unfolding z bit_not_iff bit_push_bit_iff by simp
  then have "unzigzag (zigzag v) = NOT (drop_bit 1 (zigzag v))"
    by (simp only: unzigzag_def and_1_bit if_True)
  also have "\<dots> = v"
    unfolding z
  proof (rule bit_word_eqI)
    fix n assume "n < LENGTH(64)"
    then have "n < 63 \<or> n = 63" by auto
    with True show "bit (NOT (drop_bit 1 (NOT (push_bit 1 v)))) n = bit v n"
      unfolding bit_not_iff drop_not_push_1 by auto
  qed
  finally show ?thesis .
next
  case False
  then have z: "zigzag v = push_bit 1 v" by (simp only: zigzag_def sint_neg_bit if_False)
  have "\<not> bit (zigzag v) 0" unfolding z bit_push_bit_iff by simp
  then have "unzigzag (zigzag v) = drop_bit 1 (zigzag v)"
    by (simp only: unzigzag_def and_1_bit if_False)
  also have "\<dots> = v"
    unfolding z
  proof (rule bit_word_eqI)
    fix n assume "n < LENGTH(64)"
    then have "n < 63 \<or> n = 63" by auto
    with False show "bit (drop_bit 1 (push_bit 1 v)) n = bit v n"
      unfolding drop_push_1 by auto
  qed
  finally show ?thesis .
qed

subsection \<open>Instances\<close>

lemma pb_decode_svarint_alt:
  "pb_decode_svarint s = ok_then (pb_decode_varint s) (\<lambda>z s'. Some (Some (unzigzag z), s'))"
  by (simp add: pb_decode_svarint_def unzigzag_def)

lemma writes_svarint: "writes (\<lambda>s. pb_encode_svarint s v) (varint_bytes (unat (zigzag v)))"
  unfolding pb_encode_svarint_def zigzag_def [symmetric] by (rule writes_varint)

lemma reads_ok_then:
  "reads d bs v \<Longrightarrow> (\<And>s. k v s = Some (Some w, s)) \<Longrightarrow> reads (\<lambda>s. ok_then (d s) k) bs w"
  by (auto simp: reads_def)

lemma reads_svarint: "reads pb_decode_svarint (varint_bytes (unat (zigzag v))) v"
  unfolding pb_decode_svarint_alt
  by (rule reads_ok_then [OF reads_varint]) (simp add: unzigzag_zigzag)

lemma reads_read: "n = length bs \<Longrightarrow> reads (\<lambda>s. pb_read s buf n) bs bs"
proof -
  have "length bs \<le> bytes_left s" if "buffered s" "pending s = bs @ rest" for s rest
    using length_pending [OF that(1)] that(2) by simp
  then show "n = length bs \<Longrightarrow> ?thesis" by (auto simp: reads_def read_buffered)
qed

lemma writes_fixed32: "writes (\<lambda>s. pb_encode_fixed32 s v) (le_bytes 4 (unat v))"
  unfolding pb_encode_fixed32_def fixed32_bytes by (rule writes_write) simp_all

lemma writes_fixed64: "writes (\<lambda>s. pb_encode_fixed64 s v) (le_bytes 8 (unat v))"
  unfolding pb_encode_fixed64_def fixed64_bytes by (rule writes_write) simp_all

lemma reads_fixed32: "reads pb_decode_fixed32 (le_bytes 4 (unat v)) v"
  unfolding pb_decode_fixed32_def fixed32_word
  by (rule reads_ok_then [OF reads_read]) (simp_all only: nths_4 length_le_bytes of_le_le_bytes_small, simp)

lemma reads_fixed64: "reads pb_decode_fixed64 (le_bytes 8 (unat v)) v"
  unfolding pb_decode_fixed64_def fixed64_word
  by (rule reads_ok_then [OF reads_read]) (simp_all only: nths_8 length_le_bytes of_le_le_bytes_small, simp)

lemma reads_varint32:
  assumes "n < 2 ^ 32"
  shows "reads (\<lambda>s. map_option (\<lambda>(v, _, s'). (v, s')) (pb_decode_varint32_eof s eof))
    (varint_bytes n) (of_nat n)"
  unfolding reads_def
proof (intro allI impI, elim conjE)
  fix s rest assume b: "buffered s" and p: "pending s = varint_bytes n @ rest"
  let ?c = "continuation (pending s)"
  have pos: "0 < length (varint_bytes n)" by simp
  have c: "?c = length (varint_bytes n) - 1" using p by simp
  have "length (varint_bytes n) \<le> 5" by (rule length_varint_bytes) (use assms in simp_all)
  with c have "?c < 10" by simp
  moreover have "bytes_left s = length (varint_bytes n) + length rest"
    using length_pending [OF b] p by simp
  with c pos have "?c < bytes_left s" by linarith
  moreover have "front_varint s = n"
    using p pos by (simp add: front_varint_def)
  ultimately show "map_option (\<lambda>(v, _, s'). (v, s')) (pb_decode_varint32_eof s eof) =
      Some (Some (of_nat n), advance s (length (varint_bytes n)))"
    using decode_varint32_buffered [OF b, of eof] assms c pos by simp
qed

lemma reads_decode_varint32: "n < 2 ^ 32 \<Longrightarrow> reads pb_decode_varint32 (varint_bytes n) (of_nat n)"
  using reads_varint32 [of n False] by (simp add: pb_decode_varint32_def [abs_def])

subsection \<open>Tags\<close>

definition tag_number :: "pb_wire_type \<times> u32 \<Rightarrow> nat" where
  "tag_number t = 8 * unat (snd t) + unat (fst t)"

definition valid_tag :: "pb_wire_type \<times> u32 \<Rightarrow> bool" where
  "valid_tag t \<longleftrightarrow> fst t < 8 \<and> 0 < snd t \<and> snd t < 2 ^ 29"

lemma tag_word:
  assumes "wt < (8::u32)"
  shows "push_bit 3 (ucast fn) OR ucast wt = (of_nat (tag_number (wt, fn)) :: u64)"
proof -
  have "unat wt < 2 ^ 3" using assms by (simp add: word_less_nat_alt)
  then have "(of_nat (unat wt) OR push_bit 3 (of_nat (unat fn)) :: u64)
      = of_nat (unat wt + 2 ^ 3 * unat fn)"
    by (rule of_nat_or_push_bit)
  then show ?thesis by (simp add: tag_number_def or.commute add.commute)
qed

lemma tag_number_less: "valid_tag t \<Longrightarrow> tag_number t < 2 ^ 32"
  by (simp add: valid_tag_def tag_number_def word_less_nat_alt)

lemma unat_tag_number:
  "valid_tag t \<Longrightarrow> unat (of_nat (tag_number t) :: u64) = tag_number t"
  using tag_number_less [of t] by (simp add: unsigned_of_nat take_bit_nat_eq_self)

lemma split_tag:
  assumes "valid_tag t"
  shows "(of_nat (tag_number t) AND 7, drop_bit 3 (of_nat (tag_number t))) = t"
    and "of_nat (tag_number t) \<noteq> (0 :: u32)"
proof -
  let ?w = "of_nat (tag_number t) :: u32"
  have w: "unat ?w = tag_number t"
    using tag_number_less [OF assms] by (simp add: unsigned_of_nat take_bit_nat_eq_self)
  have "(7 :: u32) = mask 3" by (simp add: mask_eq_exp_minus_1)
  then have "?w AND 7 = take_bit 3 ?w" by (simp only: take_bit_eq_mask)
  then have "unat (?w AND 7) = tag_number t mod 8"
    using w by (simp only: unsigned_take_bit_eq) (simp add: take_bit_eq_mod)
  moreover have "unat (fst t) < 8" using assms by (simp add: valid_tag_def word_less_nat_alt)
  ultimately have 1: "?w AND 7 = fst t" by (simp add: word_unat_eq_iff tag_number_def)
  have "unat (drop_bit 3 ?w) = tag_number t div 8"
    unfolding unat_drop_bit_le w by simp
  with \<open>unat (fst t) < 8\<close> have "drop_bit 3 ?w = snd t"
    by (simp only: word_unat_eq_iff tag_number_def)
  with 1 show "(?w AND 7, drop_bit 3 ?w) = t" by (cases t) simp
  have "0 < tag_number t" using assms by (simp add: valid_tag_def tag_number_def word_less_nat_alt)
  with w show "?w \<noteq> 0" by (metis less_irrefl unsigned_0)
qed

lemma writes_tag:
  "valid_tag t \<Longrightarrow> writes (\<lambda>s. pb_encode_tag s (fst t) (snd t)) (varint_bytes (tag_number t))"
  using writes_varint [of "of_nat (tag_number t)"] tag_word [of "fst t" "snd t"]
  by (simp add: pb_encode_tag_def unat_tag_number valid_tag_def)

definition decode_tag :: "istream \<Rightarrow> (pb_wire_type \<times> u32, istream) outcome" where
  "decode_tag s = map_option (\<lambda>(v, _, s'). (v, s')) (pb_decode_tag s)"

lemma reads_tag_eof:
  assumes "valid_tag t"
  shows "\<forall>s rest. buffered s \<and> pending s = varint_bytes (tag_number t) @ rest \<longrightarrow>
    pb_decode_tag s = Some (Some t, False, advance s (length (varint_bytes (tag_number t))))"
proof (intro allI impI, elim conjE)
  fix s rest assume s: "buffered s" "pending s = varint_bytes (tag_number t) @ rest"
  have "map_option (\<lambda>(v, _, s'). (v, s')) (pb_decode_varint32_eof s False) =
      Some (Some (of_nat (tag_number t)), advance s (length (varint_bytes (tag_number t))))"
    by (rule readsD [OF reads_varint32 [OF tag_number_less [OF assms]] s])
  moreover have "e = False" if "pb_decode_varint32_eof s False = Some (Some v, e, s')" for v e s'
    using that by (auto simp: pb_decode_varint32_eof_def split: option.splits if_splits)
  ultimately show "pb_decode_tag s =
      Some (Some t, False, advance s (length (varint_bytes (tag_number t))))"
    using split_tag [OF assms] by (auto simp: pb_decode_tag_def split: option.splits)
qed

lemma reads_tag: "valid_tag t \<Longrightarrow> reads decode_tag (varint_bytes (tag_number t)) t"
  using reads_tag_eof [of t] by (auto simp: reads_def decode_tag_def)

interpretation svarint: wire_codec pb_encode_svarint pb_decode_svarint
  "\<lambda>v. varint_bytes (unat (zigzag v))" "\<lambda>_. True"
  by unfold_locales (simp_all add: writes_svarint reads_svarint)

interpretation fixed32: wire_codec pb_encode_fixed32 pb_decode_fixed32 "\<lambda>v. le_bytes 4 (unat v)" "\<lambda>_. True"
  by unfold_locales (simp_all add: writes_fixed32 reads_fixed32)

interpretation fixed64: wire_codec pb_encode_fixed64 pb_decode_fixed64 "\<lambda>v. le_bytes 8 (unat v)" "\<lambda>_. True"
  by unfold_locales (simp_all add: writes_fixed64 reads_fixed64)

interpretation tag: wire_codec "\<lambda>s t. pb_encode_tag s (fst t) (snd t)" decode_tag
  "\<lambda>t. varint_bytes (tag_number t)" valid_tag
  by unfold_locales (simp_all add: writes_tag reads_tag)


subsection \<open>Length-delimited values\<close>

text \<open>\<open>pb_decode_string\<close> puts together what \<open>pb_dec_bytes\<close> and the submessage decoders do on
  the stream: open the substream, read all of it, close it.\<close>

definition decode_string :: "istream \<Rightarrow> (u8 list, istream) outcome" where
  "decode_string s =
     ok_then (pb_make_string_substream s) (\<lambda>sub s'.
       case pb_read sub True (bytes_left sub) of
         None \<Rightarrow> None
       | Some (None, _) \<Rightarrow> Some (None, s')
       | Some (Some bs, sub') \<Rightarrow>
           ok_then (pb_close_string_substream s' sub') (\<lambda>_ s''. Some (Some bs, s'')))"

definition string_repr :: "u8 list \<Rightarrow> u8 list" where
  "string_repr bs = varint_bytes (length bs) @ bs"

lemma make_substream_buffered:
  assumes "buffered s" "pending s = string_repr bs @ rest" "length bs < 2 ^ 32"
  shows "\<exists>sub par. pb_make_string_substream s = Some (Some sub, par) \<and>
     buffered sub \<and> pending sub = bs \<and> i_errmsg sub = i_errmsg s \<and>
     (\<forall>n \<le> length bs. pb_close_string_substream par (advance sub n) =
        Some (Some (), advance s (length (string_repr bs))))"
proof -
  let ?n = "length (varint_bytes (length bs))"
  let ?s = "advance s ?n"
  let ?sub = "?s\<lparr>bytes_left := length bs\<rparr>"
  let ?par = "?s\<lparr>bytes_left := bytes_left ?s - length bs\<rparr>"
  have b: "buffered ?s" "pending ?s = bs @ rest" using assms by (simp_all add: string_repr_def)
  then have left: "bytes_left ?s = length bs + length rest" using length_pending [of ?s] by simp
  have u: "unat (of_nat (length bs) :: u32) = length bs"
    using assms(3) by (simp add: unsigned_of_nat take_bit_nat_eq_self)
  have "pb_decode_varint32 s = Some (Some (of_nat (length bs)), ?s)"
    using readsD [OF reads_decode_varint32 [OF assms(3)] assms(1)] assms(2)
    by (simp add: string_repr_def)
  then have make: "pb_make_string_substream s = Some (Some ?sub, ?par)"
    using left u by (simp add: pb_make_string_substream_def)
  have sub: "buffered ?sub" "pending ?sub = bs"
    using b left by (auto simp: buffered_def pending_def advance_def) (metis append_eq_conv_conj take_take min.absorb1 le_add1)
  have "pb_close_string_substream ?par (advance ?sub n) =
      Some (Some (), advance s (length (string_repr bs)))" if n: "n \<le> length bs" for n
  proof -
    let ?m = "bytes_left (advance ?sub n)"
    have m: "?m = length bs - n" by simp
    have "pb_read (advance ?sub n) False ?m = Some (Some (take ?m (pending (advance ?sub n))), advance ?sub (length bs))"
      using sub n by (simp add: read_buffered)
    moreover have "advance ?sub n = advance ?sub (length bs)" if "?m = 0"
    proof -
      have "n = length bs" using m n that by linarith
      then show ?thesis by simp
    qed
    ultimately have "pb_close_string_substream ?par (advance ?sub n) =
       Some (Some (), ?par\<lparr>i_state := i_state (advance ?sub (length bs)),
                          i_errmsg := i_errmsg (advance ?sub (length bs))\<rparr>)"
      unfolding pb_close_string_substream_def by (cases "?m = 0") (simp_all only: if_True if_False not_False_eq_True not_True_eq_False option.case prod.case simp_thms)
    then show ?thesis by (simp add: advance_def string_repr_def add.commute)
  qed
  with make sub show ?thesis by (intro exI [of _ ?sub] exI [of _ ?par]) simp
qed

lemma reads_string: "length bs < 2 ^ 32 \<Longrightarrow> reads decode_string (string_repr bs) bs"
  unfolding reads_def
proof (intro allI impI, elim conjE)
  fix s rest assume n: "length bs < 2 ^ 32" and b: "buffered s" and p: "pending s = string_repr bs @ rest"
  from make_substream_buffered [OF b p n] obtain sub par where
    make: "pb_make_string_substream s = Some (Some sub, par)" and
    sub: "buffered sub" "pending sub = bs" and
    close: "pb_close_string_substream par (advance sub (length bs)) =
        Some (Some (), advance s (length (string_repr bs)))" by auto
  have "bytes_left sub = length bs" using length_pending [OF sub(1)] sub(2) by simp
  with make sub close show "decode_string s = Some (Some bs, advance s (length (string_repr bs)))"
    by (simp add: decode_string_def read_buffered)
qed

lemma writes_string:
  assumes "length bs < 2 ^ 32"
  shows "writes (\<lambda>s. pb_encode_string s (Some bs) (of_nat (length bs))) (string_repr bs)"
proof -
  have "unat (of_nat (length bs) :: u64) = length bs"
    using assms by (simp add: unsigned_of_nat take_bit_nat_eq_self)
  then have "writes (\<lambda>s. pb_encode_varint s (of_nat (length bs))) (varint_bytes (length bs))"
    using writes_varint [of "of_nat (length bs)"] by simp
  then show ?thesis unfolding pb_encode_string_def string_repr_def
    by (rule writes_then) (rule writes_write, use assms in simp_all)
qed

interpretation bytestring: wire_codec "\<lambda>s bs. pb_encode_string s (Some bs) (of_nat (length bs))"
  decode_string string_repr "\<lambda>bs. length bs < 2 ^ 32"
  by unfold_locales (simp_all add: writes_string reads_string)

subsection \<open>Skipping\<close>

lemma reads_discard: "reads d bs v \<Longrightarrow> reads (\<lambda>s. discard (d s)) bs ()"
  unfolding discard_def by (rule reads_ok_then) simp_all

lemma hd_take_1: "xs \<noteq> [] \<Longrightarrow> hd (take 1 xs) = hd xs"
  by (cases xs) simp_all

lemma reads_skip_varint: "reads pb_skip_varint (varint_bytes n) ()"
proof (induction n rule: varint_bytes.induct)
  case (1 n)
  show ?case unfolding reads_def
  proof (intro allI impI, elim conjE)
    fix s rest assume b: "buffered s" and p: "pending s = varint_bytes n @ rest"
    obtain x xs where l: "varint_bytes n = x # xs" by (cases "varint_bytes n") simp_all
    have "1 \<le> bytes_left s" using length_pending [OF b] p l by simp
    then have r: "pb_read s True 1 = Some (Some [x], advance s 1)"
      using b p l by (simp add: read_buffered)
    show "pb_skip_varint s = Some (Some (), advance s (length (varint_bytes n)))"
    proof (cases "n < 128")
      case True
      then have "x AND 0x80 = 0" "xs = []"
        using l by (auto simp: varint_bytes.simps [of n] u8_top_bit unat_of_nat_u8)
      then show ?thesis using r l by (subst pb_skip_varint.simps) simp
    next
      case False
      have "n mod 128 + 128 < 256" by simp
      then have "x AND 0x80 \<noteq> 0" "xs = varint_bytes (n div 128)"
        using l False by (auto simp: varint_bytes.simps [of n] u8_top_bit unat_of_nat_u8 simp del: of_nat_add)
      moreover have "pb_skip_varint (advance s 1) =
          Some (Some (), advance (advance s 1) (length (varint_bytes (n div 128))))"
        by (rule readsD [OF 1 [OF False]]) (use b p l calculation in simp_all)
      ultimately show ?thesis using r l by (subst pb_skip_varint.simps) simp
    qed
  qed
qed

lemma reads_skip_string:
  assumes "length bs < 2 ^ 32"
  shows "reads pb_skip_string (string_repr bs) ()"
  unfolding reads_def
proof (intro allI impI, elim conjE)
  fix s rest assume b: "buffered s" and p: "pending s = string_repr bs @ rest"
  let ?n = "length (varint_bytes (length bs))"
  have "pb_decode_varint32 s = Some (Some (of_nat (length bs)), advance s ?n)"
    using readsD [OF reads_decode_varint32 [OF assms] b] p by (simp add: string_repr_def)
  moreover have "discard (pb_read (advance s ?n) False (length bs)) = Some (Some (), advance (advance s ?n) (length bs))"
    by (rule readsD [OF reads_discard [OF reads_read]]) (use b p in \<open>simp_all add: string_repr_def\<close>)
  moreover have "unat (of_nat (length bs) :: u32) = length bs"
    using assms by (simp add: unsigned_of_nat take_bit_nat_eq_self)
  ultimately show "pb_skip_string s = Some (Some (), advance s (length (string_repr bs)))"
    by (simp add: pb_skip_string_def string_repr_def)
qed

end
