(* ===== verification/Wire_Theorems.thy ===== *)
theory Wire_Theorems imports Wire_Format begin

section \<open>Properties of the wire format\<close>

text \<open>The properties of the scalar encoders and decoders, as statements about streams over
  memory buffers at any position.\<close>

subsection \<open>Overlong varints\<close>

lemma varint32_zero_groups:
  assumes "buffered s" "pending s = replicate n 0x80 @ rest"
  shows "varint32_loop s bitpos r = varint32_loop (advance s n) (bitpos + 7 * of_nat n) r"
  using assms
proof (induction n arbitrary: s bitpos)
  case (Suc n)
  then have "pb_readbyte s = Some (Some 0x80, advance s 1)"
    by (simp add: readbyte_buffered)
  then have "varint32_loop s bitpos r = varint32_loop (advance s 1) (bitpos + 7) r"
    by (subst varint32_loop.simps) simp
  also have "\<dots> = varint32_loop (advance (advance s 1) n) (bitpos + 7 + 7 * of_nat n) r"
    by (rule Suc.IH) (use Suc.prems in simp_all)
  finally show ?case by (simp add: algebra_simps)
qed simp

lemma continuation_replicate: "continuation (replicate n 0x80 @ bs) = n + continuation bs"
  by (induction n) simp_all

abbreviation (input) overlong :: "nat \<Rightarrow> istream" where
  "overlong k \<equiv> pb_istream_from_buffer (replicate (37 + 256 * k) 0x80 @ [0x01]) (38 + 256 * k)"

lemma overlong_stream:
  "buffered (overlong k)" "pending (overlong k) = replicate (37 + 256 * k) 0x80 @ [0x01]"
  by (simp_all add: buffered_def pending_def pb_istream_from_buffer_def)

lemma overlong_varint:
  "pb_decode_varint (overlong k) = i_error (advance (overlong k) 10) ''varint overflow''"
  using overlong_stream [of k] by (simp add: decode_varint_buffered continuation_replicate Let_def)

lemma overlong_varint32:
  "pb_decode_varint32 (overlong k) = Some (Some 8, advance (overlong k) (38 + 256 * k))"
proof -
  let ?s = "overlong k" and ?n = "36 + 256 * k"
  let ?t = "advance ?s 1"
  have s: "buffered ?s" "pending ?s = 0x80 # replicate ?n 0x80 @ [0x01]"
  proof -
    have "replicate (Suc ?n) (0x80 :: u8) = 0x80 # replicate ?n 0x80" by (rule replicate_Suc)
    moreover have "37 + 256 * k = Suc ?n" by simp
    ultimately show "buffered ?s" "pending ?s = 0x80 # replicate ?n 0x80 @ [0x01]"
      using overlong_stream [of k] by (simp_all only: append_Cons)
  qed
  then have t: "buffered ?t" "pending ?t = replicate ?n 0x80 @ [0x01]" by simp_all
  have "(7 + 7 * of_nat ?n :: u8) = 3"
    by (rule word_unat_eq_iff [THEN iffD2]) (simp add: unat_word_ariths unat_of_nat_u8 mod_simps)
  moreover have "pb_readbyte (advance ?t ?n) = Some (Some 0x01, advance ?s (38 + 256 * k))"
  proof -
    have "pending (advance ?t ?n) = drop ?n (pending ?t)" by (rule pending_advance)
    then have "pending (advance ?t ?n) = [0x01]" unfolding t(2) by simp
    moreover have "advance (advance ?t ?n) 1 = advance ?s (38 + 256 * k)" by (simp add: add.assoc)
    ultimately show ?thesis using readbyte_buffered [OF buffered_advance [OF t(1)], of ?n]
      by (simp only: list.case)
  qed
  then have "varint32_loop (advance ?t ?n) 3 0 = Some (Some (8, 10, 1), advance ?s (38 + 256 * k))"
    by (subst varint32_loop.simps) simp
  ultimately have "varint32_loop ?t 7 0 = Some (Some (8, 10, 1), advance ?s (38 + 256 * k))"
    using varint32_zero_groups [OF t, of 7 0] by (simp only:)
  moreover have "pb_readbyte ?s = Some (Some 0x80, ?t)" using s by (simp add: readbyte_buffered)
  ultimately show ?thesis by (simp add: pb_decode_varint32_def pb_decode_varint32_eof_def)
qed

subsection \<open>The properties\<close>

text \<open>C21: \<open>pb_encode_varint\<close> appends the base-128 encoding of its argument, at most ten bytes,
  or fails with "stream full" when the buffer is too small; \<open>pb_decode_varint\<close> reads that
  encoding back to the same value, wherever it stands and whatever follows, and consumes exactly
  its bytes. This holds for all \<open>2 ^ 64\<close> values.\<close>

theorem varint_roundtrip:
  "writes (\<lambda>s. pb_encode_varint s v) (varint_bytes (unat v)) \<and>
   reads pb_decode_varint (varint_bytes (unat v)) v \<and>
   length (varint_bytes (unat v)) \<le> 10"
  by (simp add: writes_varint reads_varint length_varint_bytes_u64)

text \<open>C22: the complete behaviour of \<open>pb_decode_varint\<close> on a buffer, malformed input included.
  With ten continuation bytes in front it fails with "varint overflow" after reading exactly ten
  bytes; when the data end inside the varint it fails with "end-of-stream" having consumed all
  of it; otherwise it returns the value of the groups of seven bits modulo \<open>2 ^ 64\<close>.\<close>

theorem decode_varint_spec:
  assumes "buffered s"
  shows "pb_decode_varint s =
    (let c = continuation (pending s) in
      if 10 \<le> c then i_error (advance s 10) ''varint overflow''
      else if c = bytes_left s then i_error (advance s c) ''end-of-stream''
      else Some (Some (of_nat (varint_value (take (c + 1) (pending s)))), advance s (c + 1)))"
  by (rule decode_varint_buffered [OF assms])

lemma decode_varint_spec_witness:
  "pb_decode_varint (pb_istream_from_buffer [0xAC, 0x02, 0x55] 3) =
     Some (Some 300, advance (pb_istream_from_buffer [0xAC, 0x02, 0x55] 3) 2)"
  by (subst decode_varint_spec)
    (simp_all add: buffered_def pending_def pb_istream_from_buffer_def, simp add: numeral_2_eq_2)

text \<open>C23: \<open>pb_decode_varint32\<close>, the decoder used for tags and lengths, agrees with the 64-bit
  decoder, result and stream, on every varint of at most ten bytes whose value is below
  \<open>2 ^ 32\<close>, padded encodings included.\<close>

theorem varint32_agrees:
  assumes "buffered s" "continuation (pending s) < 10" "continuation (pending s) < bytes_left s"
    and "front_varint s < 2 ^ 32"
  shows "\<exists>v s'. pb_decode_varint s = Some (Some v, s') \<and>
    pb_decode_varint32 s = Some (Some (ucast v), s') \<and> unat v = front_varint s"
proof -
  have "pb_decode_varint s = Some (Some (of_nat (front_varint s)), advance s (continuation (pending s) + 1))"
    using assms by (simp add: decode_varint_buffered front_varint_def Let_def)
  moreover have "unat (of_nat (front_varint s) :: u64) = front_varint s"
    using assms(4) by (simp add: unsigned_of_nat take_bit_nat_eq_self)
  ultimately show ?thesis using decode_varint32_buffered [OF assms, of False]
    by (simp add: pb_decode_varint32_def) (metis of_nat_unat)
qed

lemma varint32_agrees_witness:
  "\<exists>v s'. pb_decode_varint (pb_istream_from_buffer [0xAC, 0x82, 0x00] 3) = Some (Some v, s') \<and>
    pb_decode_varint32 (pb_istream_from_buffer [0xAC, 0x82, 0x00] 3) = Some (Some (ucast v), s') \<and>
    unat v = 300"
  using varint32_agrees [of "pb_istream_from_buffer [0xAC, 0x82, 0x00] 3"]
  by (simp add: buffered_def pending_def pb_istream_from_buffer_def front_varint_def)

text \<open>C24: the two decoders do not agree on overlong input. \<open>bitpos\<close> is an 8-bit counter and
  \<open>pb_decode_varint32_eof\<close> has no limit on the number of bytes, so the counter wraps past 255:
  after \<open>37 + 256 k\<close> bytes \<open>0x80\<close> it stands at 3, and a final \<open>0x01\<close> is accepted with the
  result 8, where \<open>pb_decode_varint\<close> stops with "varint overflow" after ten bytes.\<close>

theorem varint32_overlong:
  "(let s = pb_istream_from_buffer (replicate (37 + 256 * k) 0x80 @ [0x01]) (38 + 256 * k)
    in pb_decode_varint32 s = Some (Some 8, advance s (38 + 256 * k)) \<and>
       pb_decode_varint s = i_error (advance s 10) ''varint overflow'')"
  using overlong_varint32 [of k] overlong_varint [of k] by (simp only: Let_def simp_thms)

text \<open>zigzag varints (\<open>pb_encode_svarint\<close> and \<open>pb_decode_svarint\<close>) round-trip every signed
  64-bit value.\<close>

theorem svarint_roundtrip:
  "writes (\<lambda>s. pb_encode_svarint s v) (varint_bytes (unat (zigzag v))) \<and>
   reads pb_decode_svarint (varint_bytes (unat (zigzag v))) v"
  by (simp add: writes_svarint reads_svarint)

text \<open>\<open>pb_encode_fixed32\<close> and \<open>pb_encode_fixed64\<close> append the little-endian bytes of the
  value, and the decoders read them back.\<close>

theorem fixed_roundtrip:
  "writes (\<lambda>s. pb_encode_fixed32 s v) (le_bytes 4 (unat v)) \<and>
   reads pb_decode_fixed32 (le_bytes 4 (unat v)) v \<and>
   writes (\<lambda>s. pb_encode_fixed64 s w) (le_bytes 8 (unat w)) \<and>
   reads pb_decode_fixed64 (le_bytes 8 (unat w)) w"
  by (simp add: writes_fixed32 reads_fixed32 writes_fixed64 reads_fixed64)

text \<open>C25: a tag written by \<open>pb_encode_tag\<close> with a field number below \<open>2 ^ 29\<close> and a three-bit
  wire type is read back by \<open>pb_decode_tag\<close>, without raising the end-of-message flag.\<close>

theorem tag_roundtrip:
  assumes "wt < 8" "0 < n" "n < 2 ^ 29"
  shows "writes (\<lambda>s. pb_encode_tag s wt n) (varint_bytes (8 * unat n + unat wt)) \<and>
    (\<forall>s rest. buffered s \<and> pending s = varint_bytes (8 * unat n + unat wt) @ rest \<longrightarrow>
       pb_decode_tag s =
         Some (Some (wt, n), False, advance s (length (varint_bytes (8 * unat n + unat wt)))))"
  using writes_tag [of "(wt, n)"] reads_tag_eof [of "(wt, n)"] assms
  by (simp add: valid_tag_def tag_number_def)

lemma tag_roundtrip_witness:
  "writes (\<lambda>s. pb_encode_tag s 2 5) [42] \<and>
   pb_decode_tag (pb_istream_from_buffer [42, 7] 2) =
     Some (Some (2, 5), False, advance (pb_istream_from_buffer [42, 7] 2) 1)"
proof -
  have v: "varint_bytes 42 = [42]" by (simp add: varint_bytes.simps)
  have "buffered (pb_istream_from_buffer [42, 7] 2)"
    "pending (pb_istream_from_buffer [42, 7] 2) = varint_bytes 42 @ [7]"
    by (simp_all add: buffered_def pending_def pb_istream_from_buffer_def v)
  then show ?thesis using tag_roundtrip [of 2 5] v by simp
qed

text \<open>C26: \<open>pb_encode_string\<close> writes the length as a varint and then the data; opening a substream
  on it, reading the substream to its end and closing it returns the data and leaves the parent
  stream right behind them.\<close>

theorem string_roundtrip:
  assumes "length bs < 2 ^ 32"
  shows "writes (\<lambda>s. pb_encode_string s (Some bs) (of_nat (length bs))) (string_repr bs) \<and>
    reads decode_string (string_repr bs) bs"
  using writes_string [OF assms] reads_string [OF assms] by (rule conjI)

lemma string_roundtrip_witness:
  "writes (\<lambda>s. pb_encode_string s (Some [1, 2, 3]) 3) (string_repr [1, 2, 3]) \<and>
    reads decode_string (string_repr [1, 2, 3]) [1, 2, 3]"
  using string_roundtrip [of "[1, 2, 3]"] by simp

text \<open>C34: \<open>pb_skip_field\<close> steps over a value of each wire type, as the encoders write it, exactly:
  unknown fields of a newer sender do not disturb what follows. Any other wire type is refused
  without reading.\<close>

theorem skip_field_exact:
  assumes "length bs < 2 ^ 32" "wt \<notin> {0, 1, 2, 5}"
  shows "reads (\<lambda>s. pb_skip_field s 0) (varint_bytes n) () \<and>
    reads (\<lambda>s. pb_skip_field s 1) (le_bytes 8 m) () \<and>
    reads (\<lambda>s. pb_skip_field s 5) (le_bytes 4 k) () \<and>
    reads (\<lambda>s. pb_skip_field s 2) (string_repr bs) () \<and>
    pb_skip_field s wt = i_error s ''invalid wire_type''"
  using assms reads_skip_varint reads_skip_string [OF assms(1)]
    reads_discard [OF reads_read [of 8 "le_bytes 8 m" False]]
    reads_discard [OF reads_read [of 4 "le_bytes 4 k" False]]
  by (simp add: pb_skip_field_def)

lemma skip_field_exact_witness:
  "reads (\<lambda>s. pb_skip_field s 0) (varint_bytes 1000) () \<and>
    reads (\<lambda>s. pb_skip_field s 1) (le_bytes 8 7) () \<and>
    reads (\<lambda>s. pb_skip_field s 5) (le_bytes 4 7) () \<and>
    reads (\<lambda>s. pb_skip_field s 2) (string_repr [9, 9]) () \<and>
    pb_skip_field (pb_istream_from_buffer [1] 1) 3 =
      i_error (pb_istream_from_buffer [1] 1) ''invalid wire_type''"
  by (rule skip_field_exact) simp_all

end
