(* ===== verification/Base64.thy ===== *)
theory Base64 imports Prelude begin

unbundle bit_operations_syntax

section \<open>Base 64 (SocketRocket/fbase64.c)\<close>

text \<open>
  \<open>f_b64_ntop\<close> and \<open>f_b64_pton\<close>. Buffers are byte lists: \<open>src\<close> of the encoder is the
  \<open>srclength\<close> bytes it is given, \<open>src\<close> of the decoder the readable bytes at the pointer (its
  terminating zero included), \<open>target\<close> the caller's buffer. A read or write outside a list is
  undefined and gives \<open>None\<close>; \<open>Some (None, target)\<close> is the return of \<open>-1\<close>. \<open>u_int\<close> counters
  are 32-bit words, the returned \<open>int\<close> is the 32-bit two's complement value of the length.
\<close>

definition Base64 :: "u8 list" where
  "Base64 = map of_char ''ABCDEFGHIJKLMNOPQRSTUVWXYZabcdefghijklmnopqrstuvwxyz0123456789+/''"

definition Pad64 :: u8 where "Pad64 = of_char CHR ''=''"

definition int_of_size :: "nat \<Rightarrow> int" where
  "int_of_size n = sint (of_nat n :: u32)"

text \<open>\<open>target[i++] = b\<close> for each \<open>b\<close> of a list.\<close>

definition write_at :: "u8 list \<Rightarrow> nat \<Rightarrow> u8 list \<Rightarrow> u8 list option" where
  "write_at buf i bs =
     (if i + length bs \<le> length buf then Some (take i buf @ bs @ drop (i + length bs) buf) else None)"

subsection \<open>Encoding\<close>

definition sextet0 :: "u8 \<Rightarrow> u8" where "sextet0 a = drop_bit 2 a"
definition sextet1 :: "u8 \<Rightarrow> u8 \<Rightarrow> u8" where "sextet1 a b = push_bit 4 (a AND 0x03) + drop_bit 4 b"
definition sextet2 :: "u8 \<Rightarrow> u8 \<Rightarrow> u8" where "sextet2 b c = push_bit 2 (b AND 0x0f) + drop_bit 6 c"
definition sextet3 :: "u8 \<Rightarrow> u8" where "sextet3 c = c AND 0x3f"

definition b64_char :: "u8 \<Rightarrow> u8" where "b64_char x = Base64 ! unat x"

text \<open>The loop over full groups; it returns the bytes left and the length written.\<close>

fun ntop_groups :: "u8 list \<Rightarrow> u8 list \<Rightarrow> nat \<Rightarrow> nat \<Rightarrow> (u8 list \<times> nat, u8 list) outcome" where
  "ntop_groups (a # b # c # src) target n targsize =
     (if n + 4 > targsize then Some (None, target)
      else do { t \<leftarrow> write_at target n [b64_char (sextet0 a), b64_char (sextet1 a b),
                                       b64_char (sextet2 b c), b64_char (sextet3 c)];
                ntop_groups src t (n + 4) targsize })"
| "ntop_groups src target n targsize = Some (Some (src, n), target)"

definition ntop_padding :: "u8 list \<Rightarrow> u8 list \<Rightarrow> nat \<Rightarrow> nat \<Rightarrow> (nat, u8 list) outcome" where
  "ntop_padding src target n targsize =
     (case src of
        [] \<Rightarrow> Some (Some n, target)
      | a # src' \<Rightarrow>
          (let b = (case src' of [] \<Rightarrow> 0 | b # _ \<Rightarrow> b) in
           if n + 4 > targsize then Some (None, target)
           else do { t \<leftarrow> write_at target n [b64_char (sextet0 a), b64_char (sextet1 a b),
                       (if length src = 1 then Pad64 else b64_char (sextet2 b 0)), Pad64];
                     Some (Some (n + 4), t) }))"

definition f_b64_ntop :: "u8 list \<Rightarrow> u8 list \<Rightarrow> nat \<Rightarrow> (int, u8 list) outcome" where
  "f_b64_ntop src target targsize =
     ok_then (ntop_groups src target 0 targsize) (\<lambda>(rest, n) t.
       ok_then (ntop_padding rest t n targsize) (\<lambda>n t.
         if n \<ge> targsize then Some (None, t)
         else do { t' \<leftarrow> write_at t n [0]; Some (Some (int_of_size n), t') }))"

subsection \<open>Decoding\<close>

definition isspace :: "u8 \<Rightarrow> bool" where
  "isspace c \<longleftrightarrow> c = 32 \<or> (9 \<le> c \<and> c \<le> 13)"

text \<open>\<open>strchr(Base64, ch) - Base64\<close>.\<close>

fun index_of :: "u8 \<Rightarrow> u8 list \<Rightarrow> nat option" where
  "index_of c [] = None"
| "index_of c (x # xs) = (if x = c then Some 0 else map_option Suc (index_of c xs))"

definition strchr_Base64 :: "u8 \<Rightarrow> u8 option" where
  "strchr_Base64 ch = map_option of_nat (index_of ch Base64)"

text \<open>\<open>target[i] = v\<close> and \<open>target[i] |= v\<close>, skipped when the target pointer is null.\<close>

definition set_byte :: "u8 list option \<Rightarrow> nat \<Rightarrow> u8 \<Rightarrow> u8 list option option" where
  "set_byte target i v =
     (case target of None \<Rightarrow> Some None
      | Some t \<Rightarrow> if i < length t then Some (Some (t[i := v])) else None)"

definition or_byte :: "u8 list option \<Rightarrow> nat \<Rightarrow> u8 \<Rightarrow> u8 list option option" where
  "or_byte target i v =
     (case target of None \<Rightarrow> Some None
      | Some t \<Rightarrow> if i < length t then Some (Some (t[i := t ! i OR v])) else None)"

text \<open>The \<open>switch (state)\<close> of the loop: the new \<open>tarindex\<close> and \<open>state\<close>.\<close>

definition pton_step ::
  "u8 \<Rightarrow> nat \<Rightarrow> u32 \<Rightarrow> nat \<Rightarrow> u8 list option \<Rightarrow> (u32 \<times> nat, u8 list option) outcome" where
  "pton_step p targsize ti state target =
     (if state = 0 then
        (if target \<noteq> None \<and> unat ti \<ge> targsize then Some (None, target)
         else do { t \<leftarrow> set_byte target (unat ti) (push_bit 2 p); Some (Some (ti, 1), t) })
      else if state = 1 then
        (if target \<noteq> None \<and> unat (ti + 1) \<ge> targsize then Some (None, target)
         else do { t \<leftarrow> or_byte target (unat ti) (drop_bit 4 p);
                   t' \<leftarrow> set_byte t (unat (ti + 1)) (push_bit 4 (p AND 0x0f));
                   Some (Some (ti + 1, 2), t') })
      else if state = 2 then
        (if target \<noteq> None \<and> unat (ti + 1) \<ge> targsize then Some (None, target)
         else do { t \<leftarrow> or_byte target (unat ti) (drop_bit 2 p);
                   t' \<leftarrow> set_byte t (unat (ti + 1)) (push_bit 6 (p AND 0x03));
                   Some (Some (ti + 1, 3), t') })
      else if state = 3 then
        (if target \<noteq> None \<and> unat ti \<ge> targsize then Some (None, target)
         else do { t \<leftarrow> or_byte target (unat ti) p; Some (Some (ti + 1, 0), t) })
      else Some (Some (ti, state), target))"

text \<open>The loop ends at the terminator or at a pad character; it returns that character, the
  source after it, \<open>tarindex\<close> and \<open>state\<close>.\<close>

fun pton_loop ::
  "u8 list \<Rightarrow> nat \<Rightarrow> u32 \<Rightarrow> nat \<Rightarrow> u8 list option \<Rightarrow>
   (u8 \<times> u8 list \<times> u32 \<times> nat, u8 list option) outcome" where
  "pton_loop [] targsize ti state target = None"
| "pton_loop (ch # src) targsize ti state target =
     (if ch = 0 then Some (Some (ch, src, ti, state), target)
      else if isspace ch then pton_loop src targsize ti state target
      else if ch = Pad64 then Some (Some (ch, src, ti, state), target)
      else case strchr_Base64 ch of
          None \<Rightarrow> Some (None, target)
        | Some p \<Rightarrow> ok_then (pton_step p targsize ti state target)
            (\<lambda>(ti', state') t. pton_loop src targsize ti' state' t))"

text \<open>\<open>for (; ch != 0; ch = *src++) if (!isspace(ch)) break;\<close>, giving the last \<open>ch\<close> and the
  source after it; the argument starts with \<open>ch\<close>.\<close>

fun skip_spaces :: "u8 list \<Rightarrow> (u8 \<times> u8 list) option" where
  "skip_spaces [] = None"
| "skip_spaces (ch # src) = (if ch \<noteq> 0 \<and> isspace ch then skip_spaces src else Some (ch, src))"

text \<open>The check after the last pad character: nothing but spaces up to the terminator, and no
  bits left over in the last byte.\<close>

definition pton_trailer :: "u8 list \<Rightarrow> u32 \<Rightarrow> u8 list option \<Rightarrow> (unit, u8 list option) outcome" where
  "pton_trailer src ti target =
     do { (ch, _) \<leftarrow> skip_spaces src;
          if ch \<noteq> 0 then Some (None, target)
          else case target of
              None \<Rightarrow> Some (Some (), target)
            | Some t \<Rightarrow> if unat ti < length t
                then Some (if t ! unat ti \<noteq> 0 then None else Some (), target) else None }"

definition pton_finish ::
  "u8 \<Rightarrow> u8 list \<Rightarrow> u32 \<Rightarrow> nat \<Rightarrow> u8 list option \<Rightarrow> (unit, u8 list option) outcome" where
  "pton_finish ch src ti state target =
     (if ch = Pad64
      then (case src of
          [] \<Rightarrow> None
        | _ \<Rightarrow>
            if state = 0 \<or> state = 1 then Some (None, target)
            else if state = 2
            then do { (ch', src') \<leftarrow> skip_spaces src;
                      if ch' \<noteq> Pad64 then Some (None, target) else pton_trailer src' ti target }
            else if state = 3 then pton_trailer src ti target
            else Some (Some (), target))
      else if state \<noteq> 0 then Some (None, target) else Some (Some (), target))"

definition f_b64_pton :: "u8 list \<Rightarrow> u8 list option \<Rightarrow> nat \<Rightarrow> (int, u8 list option) outcome" where
  "f_b64_pton src target targsize =
     ok_then (pton_loop src targsize 0 0 target) (\<lambda>(ch, rest, ti, state) t.
       ok_then (pton_finish ch rest ti state t) (\<lambda>_ t'. Some (Some (sint ti), t')))"

end
