(* ===== verification/Base64_Theorems.thy ===== *)
theory Base64_Theorems imports Base64 begin

section \<open>Facts on base 64\<close>

text \<open>
  The bit-level and table-level facts of \<open>fbase64.c\<close>, the reference text of a byte string
  (\<open>b64_text\<close>), and what the encoder and the decoder do with it.
\<close>

subsection \<open>Sextets and the alphabet\<close>

lemma and_masks: "(a :: u8) AND 0x03 = take_bit 2 a" "a AND 0x0f = take_bit 4 a" "a AND 0x3f = take_bit 6 a"
  by (simp_all only: take_bit_eq_mask) (simp_all add: mask_eq_exp_minus_1)

lemma sextet1_or: "sextet1 a b = push_bit 4 (take_bit 2 a) OR drop_bit 4 b"
  unfolding sextet1_def and_masks
proof (rule disjunctive_add)
  show "\<not> bit (push_bit 4 (take_bit 2 a)) n \<or> \<not> bit (drop_bit 4 b) n" for n
    unfolding bit_push_bit_iff bit_take_bit_iff bit_drop_bit_eq o_def by (auto dest: bit_imp_le_length)
qed

lemma sextet2_or: "sextet2 a b = push_bit 2 (take_bit 4 a) OR drop_bit 6 b"
  unfolding sextet2_def and_masks
proof (rule disjunctive_add)
  show "\<not> bit (push_bit 2 (take_bit 4 a)) n \<or> \<not> bit (drop_bit 6 b) n" for n
    unfolding bit_push_bit_iff bit_take_bit_iff bit_drop_bit_eq o_def by (auto dest: bit_imp_le_length)
qed

lemmas sextet_bits = sextet0_def sextet1_or sextet2_or sextet3_def and_masks
  bit_or_iff bit_push_bit_iff bit_take_bit_iff bit_drop_bit_eq o_def

lemma byte0: "push_bit 2 (sextet0 a) OR drop_bit 4 (sextet1 a b) = a"
proof (rule bit_word_eqI)
  fix n assume "n < LENGTH(8)"
  moreover have "n < 2 \<or> 2 + (n - 2) = n" by auto
  ultimately show "bit (push_bit 2 (sextet0 a) OR drop_bit 4 (sextet1 a b)) n = bit a n"
    unfolding sextet_bits by (elim disjE) (auto dest: bit_imp_le_length simp del: add_2_eq_Suc)
qed

lemma byte1: "push_bit 4 (take_bit 4 (sextet1 a b)) OR drop_bit 2 (sextet2 b c) = b"
proof (rule bit_word_eqI)
  fix n assume "n < LENGTH(8)"
  then show "bit (push_bit 4 (take_bit 4 (sextet1 a b)) OR drop_bit 2 (sextet2 b c)) n = bit b n"
    unfolding sextet_bits by (auto dest: bit_imp_le_length)
qed

lemma byte2: "push_bit 6 (take_bit 2 (sextet2 b c)) OR sextet3 c = c"
proof (rule bit_word_eqI)
  fix n assume "n < LENGTH(8)"
  then show "bit (push_bit 6 (take_bit 2 (sextet2 b c)) OR sextet3 c) n = bit c n"
    unfolding sextet_bits by (auto dest: bit_imp_le_length)
qed

lemma slop1: "push_bit 4 (take_bit 4 (sextet1 a 0)) = 0"
  by (rule bit_word_eqI, unfold sextet_bits) (auto dest: bit_imp_le_length)
lemma slop2: "push_bit 6 (take_bit 2 (sextet2 b 0)) = 0"
  by (rule bit_word_eqI, unfold sextet_bits) (auto dest: bit_imp_le_length)

lemma unat_less_64: "(\<And>n. bit x n \<Longrightarrow> n < 6) \<Longrightarrow> unat (x :: u8) < 64"
proof -
  assume b: "\<And>n. bit x n \<Longrightarrow> n < 6"
  have "take_bit 6 x = x"
    by (rule bit_word_eqI) (use b in \<open>auto simp: bit_take_bit_iff\<close>)
  then have "unat x = unat (take_bit 6 x)" by simp
  also have "\<dots> < 2 ^ 6" by (simp only: unsigned_take_bit_eq take_bit_nat_less_exp)
  finally show ?thesis by simp
qed

lemma sextet_less [simp]:
  "unat (sextet0 a) < 64" "unat (sextet1 a b) < 64" "unat (sextet2 a b) < 64" "unat (sextet3 a) < 64"
  by (rule unat_less_64, unfold sextet_bits, auto dest: bit_imp_le_length)+

lemma Base64_list: "Base64 = [65, 66, 67, 68, 69, 70, 71, 72, 73, 74, 75, 76, 77, 78, 79, 80, 81, 82,
  83, 84, 85, 86, 87, 88, 89, 90, 97, 98, 99, 100, 101, 102, 103, 104, 105, 106, 107, 108, 109, 110,
  111, 112, 113, 114, 115, 116, 117, 118, 119, 120, 121, 122, 48, 49, 50, 51, 52, 53, 54, 55, 56, 57,
  43, 47]"
  by (simp add: Base64_def)

lemma Base64_plain: "list_all (\<lambda>x. \<not> isspace x \<and> x \<noteq> Pad64 \<and> x \<noteq> 0) Base64"
  unfolding Base64_list by (simp add: isspace_def Pad64_def)

lemma Base64_distinct: "distinct Base64"
  unfolding Base64_list by simp

lemma Base64_length [simp]: "length Base64 = 64"
  unfolding Base64_list by simp

lemma index_of_nth: "distinct xs \<Longrightarrow> p < length xs \<Longrightarrow> index_of (xs ! p) xs = Some p"
proof (induction xs arbitrary: p)
  case (Cons x xs)
  then show ?case by (cases p) auto
qed simp

lemma b64_char_facts [simp]:
  assumes "unat x < 64"
  shows "strchr_Base64 (b64_char x) = Some x" "\<not> isspace (b64_char x)" "b64_char x \<noteq> Pad64"
    "b64_char x \<noteq> 0"
  using assms Base64_plain index_of_nth [OF Base64_distinct, of "unat x"]
  by (auto simp: strchr_Base64_def b64_char_def list_all_length)

subsection \<open>The reference\<close>

text \<open>
  The text by its definition (RFC 4648), on numbers: three bytes are a number of 24 bits, its four digits to the base 64
  are written most significant first, and a digit below 26 is a capital letter, below 52 a small one, below 62 a decimal
  digit, then \<open>+\<close> and \<open>/\<close>. One or two bytes at the end are completed by zero bits, and \<open>=\<close> stands for the digits
  that hold none of theirs.
\<close>

definition b64_digit :: "nat \<Rightarrow> u8" where
  "b64_digit v = of_nat (if v < 26 then 65 + v else if v < 52 then 97 + (v - 26) else if v < 62 then 48 + (v - 52)
     else if v = 62 then 43 else 47)"

definition b64_number :: "u8 \<Rightarrow> u8 \<Rightarrow> u8 \<Rightarrow> nat" where
  "b64_number a b c = unat a * 65536 + unat b * 256 + unat c"

definition b64_digits :: "nat \<Rightarrow> u8 list" where
  "b64_digits n = map (\<lambda>k. b64_digit (n div 64 ^ k mod 64)) [3, 2, 1, 0]"

fun b64_text :: "u8 list \<Rightarrow> u8 list" where
  "b64_text [] = []"
| "b64_text [a] = take 2 (b64_digits (b64_number a 0 0)) @ [61, 61]"
| "b64_text [a, b] = take 3 (b64_digits (b64_number a b 0)) @ [61]"
| "b64_text (a # b # c # src) = b64_digits (b64_number a b c) @ b64_text src"

declare b64_text.simps(2-4) [simp del]

lemma b64_char_digit: "unat x < 64 \<Longrightarrow> b64_char x = b64_digit (unat x)"
proof -
  have "map b64_digit [0..<64] = Base64" unfolding Base64_list by code_simp
  then have "Base64 ! v = b64_digit v" if "v < 64" for v using that by (metis add_0 diff_zero length_upt nth_map nth_upt)
  then show "unat x < 64 \<Longrightarrow> b64_char x = b64_digit (unat x)" by (simp add: b64_char_def)
qed

lemma unat_sextets:
  "unat (sextet0 a) = unat a div 4" "unat (sextet1 a b) = 16 * (unat a mod 4) + unat b div 16"
  "unat (sextet2 b c) = 4 * (unat b mod 16) + unat c div 64" "unat (sextet3 c) = unat c mod 64"
proof -
  have drop: "unat (drop_bit k x) = unat x div 2 ^ k" for k and x :: u8
    by (simp only: unsigned_drop_bit_eq) (simp add: drop_bit_eq_div take_bit_nat_eq_self)
  have take: "unat (take_bit k x) = unat x mod 2 ^ k" if "k < 8" for k and x :: u8
    using that by (simp only: unsigned_take_bit_eq) (simp add: take_bit_eq_mod)
  have push: "unat (push_bit k (take_bit l x)) = 2 ^ k * (unat x mod 2 ^ l)" if "k + l \<le> 8" "l < 8" for k l and x :: u8
  proof -
    have "unat x mod 2 ^ l * 2 ^ k < 2 ^ l * 2 ^ k" by simp
    also have "2 ^ l * 2 ^ k = (2 :: nat) ^ (k + l)" by (simp add: power_add)
    also have "\<dots> \<le> 2 ^ 8" using that(1) by (intro power_increasing) simp_all
    finally have small: "unat x mod 2 ^ l * 2 ^ k < 2 ^ 8" .
    show ?thesis
      by (simp only: unsigned_push_bit_eq take [OF that(2)]) (use small in \<open>simp add: push_bit_eq_mult take_bit_nat_eq_self mult.commute\<close>)
  qed
  have add: "unat (x + y) = unat x + unat y" if "unat x + unat y < 256" for x y :: u8
    using that by (simp add: unat_word_ariths)
  have b: "unat x < 256" for x :: u8 using unat_u8_less [of x] by simp
  show "unat (sextet0 a) = unat a div 4" using drop [of 2 a] by (simp add: sextet0_def)
  show "unat (sextet3 c) = unat c mod 64" using take [of 6 c] by (simp add: sextet3_def and_masks)
  have "unat a mod 4 < 4" "unat b div 16 < 16" using b [of b] by (simp_all add: less_mult_imp_div_less)
  then show "unat (sextet1 a b) = 16 * (unat a mod 4) + unat b div 16"
    using push [of 4 2 a] drop [of 4 b] by (simp add: sextet1_def and_masks add)
  have "unat b mod 16 < 16" "unat c div 64 < 4" using b [of c] by (simp_all add: less_mult_imp_div_less)
  then show "unat (sextet2 b c) = 4 * (unat b mod 16) + unat c div 64"
    using push [of 2 4 b] drop [of 6 c] by (simp add: sextet2_def and_masks add)
qed

lemma b64_number_sextets:
  "b64_number a b c div 64 ^ 3 mod 64 = unat (sextet0 a)" "b64_number a b c div 64 ^ 2 mod 64 = unat (sextet1 a b)"
  "b64_number a b c div 64 ^ 1 mod 64 = unat (sextet2 b c)" "b64_number a b c div 64 ^ 0 mod 64 = unat (sextet3 c)"
proof -
  define s0 s1 s2 s3 where "s0 = unat (sextet0 a)" and "s1 = unat (sextet1 a b)" and "s2 = unat (sextet2 b c)" and "s3 = unat (sextet3 c)"
  have arith: "A = q * 4 + r \<Longrightarrow> B = s * 16 + t \<Longrightarrow> C = u * 64 + v \<Longrightarrow>
      A * 65536 + B * 256 + C = 262144 * q + 4096 * (16 * r + s) + 64 * (4 * t + u) + v" for A B C q r s t u v :: nat
    by simp
  have n: "b64_number a b c = 262144 * s0 + 4096 * s1 + 64 * s2 + s3"
    using arith [OF div_mult_mod_eq [symmetric] div_mult_mod_eq [symmetric] div_mult_mod_eq [symmetric]]
    unfolding b64_number_def s0_def s1_def s2_def s3_def unat_sextets .
  have less: "s0 < 64" "s1 < 64" "s2 < 64" "s3 < 64" by (simp_all add: s0_def s1_def s2_def s3_def)
  have "b64_number a b c div 262144 = s0" unfolding n by (rule div_nat_eqI) (use less in simp_all)
  moreover have "b64_number a b c div 4096 = 64 * s0 + s1" unfolding n by (rule div_nat_eqI) (use less in simp_all)
  moreover have "b64_number a b c div 64 = 64 * (64 * s0 + s1) + s2" unfolding n by (rule div_nat_eqI) (use less in simp_all)
  moreover have "b64_number a b c = 64 * (64 * (64 * s0 + s1) + s2) + s3" unfolding n by simp
  moreover have "(64 * x + y) mod 64 = y" if "y < 64" for x y :: nat using that by simp
  ultimately show "b64_number a b c div 64 ^ 3 mod 64 = unat (sextet0 a)" "b64_number a b c div 64 ^ 2 mod 64 = unat (sextet1 a b)"
    "b64_number a b c div 64 ^ 1 mod 64 = unat (sextet2 b c)" "b64_number a b c div 64 ^ 0 mod 64 = unat (sextet3 c)"
    using less by (simp_all only: s0_def s1_def s2_def s3_def power_0 power_one_right div_by_1 mod_less) simp_all
qed

lemma b64_digits_sextets:
  "b64_digits (b64_number a b c) = [b64_char (sextet0 a), b64_char (sextet1 a b), b64_char (sextet2 b c), b64_char (sextet3 c)]"
  by (simp only: b64_digits_def list.map b64_number_sextets b64_char_digit sextet_less)

text \<open>The text in the code's own terms, which the proofs on the encoder and the decoder follow.\<close>

lemma b64_text_sextets [simp]:
  "b64_text [a] = [b64_char (sextet0 a), b64_char (sextet1 a 0), Pad64, Pad64]"
  "b64_text [a, b] = [b64_char (sextet0 a), b64_char (sextet1 a b), b64_char (sextet2 b 0), Pad64]"
  "b64_text (a # b # c # src) =
     b64_char (sextet0 a) # b64_char (sextet1 a b) # b64_char (sextet2 b c) # b64_char (sextet3 c) #
     b64_text src"
  by (simp_all add: b64_text.simps b64_digits_sextets Pad64_def)

lemma length_b64_text: "length (b64_text src) = 4 * ((length src + 2) div 3)"
proof (induction src rule: b64_text.induct)
  case (4 a b c src)
  have "(length (a # b # c # src) + 2) div 3 = Suc ((length src + 2) div 3)" by (simp add: div_if)
  with 4 show ?case by simp
qed simp_all

subsection \<open>The encoder\<close>

definition ntop_body :: "u8 list \<Rightarrow> u8 list \<Rightarrow> nat \<Rightarrow> nat \<Rightarrow> (nat, u8 list) outcome" where
  "ntop_body src t i ts =
     ok_then (ntop_groups src t i ts) (\<lambda>(rest, n) t'. ntop_padding rest t' n ts)"

lemma Suc4: "Suc (Suc (Suc (Suc n))) = n + 4"
  by simp

lemma write_at_append:
  "length bs \<le> length post \<Longrightarrow>
   write_at (pre @ post) (length pre) bs = Some (pre @ bs @ drop (length bs) post)"
  by (simp add: write_at_def)

lemma ntop_body_fits:
  assumes "ts \<le> length pre + length post" "length pre + length (b64_text src) \<le> ts"
  shows "ntop_body src (pre @ post) (length pre) ts =
    Some (Some (length pre + length (b64_text src)), pre @ b64_text src @ drop (length (b64_text src)) post)"
  using assms
proof (induction src arbitrary: pre post rule: b64_text.induct)
  case (4 a b c src)
  let ?g = "[b64_char (sextet0 a), b64_char (sextet1 a b), b64_char (sextet2 b c), b64_char (sextet3 c)]"
  have w: "write_at (pre @ post) (length pre) ?g = Some ((pre @ ?g) @ drop 4 post)"
    using write_at_append [of ?g post pre] 4(2,3) by (simp add: Suc4)
  have "ntop_body src ((pre @ ?g) @ drop 4 post) (length (pre @ ?g)) ts =
      Some (Some (length (pre @ ?g) + length (b64_text src)),
            (pre @ ?g) @ b64_text src @ drop (length (b64_text src)) (drop 4 post))"
    by (rule 4(1)) (use 4(2,3) in auto)
  with w 4(2,3) show ?case by (simp add: ntop_body_def Suc4)
qed (auto simp: ntop_body_def ntop_padding_def write_at_append)

lemma ntop_body_full:
  assumes "ts \<le> length pre + length post" "ts < length pre + length (b64_text src)" "length pre \<le> ts"
  shows "\<exists>t. ntop_body src (pre @ post) (length pre) ts = Some (None, t) \<and>
    length t = length pre + length post"
  using assms
proof (induction src arbitrary: pre post rule: b64_text.induct)
  case (4 a b c src)
  let ?g = "[b64_char (sextet0 a), b64_char (sextet1 a b), b64_char (sextet2 b c), b64_char (sextet3 c)]"
  show ?case
  proof (cases "length pre + 4 \<le> ts")
    case True
    have w: "write_at (pre @ post) (length pre) ?g = Some ((pre @ ?g) @ drop 4 post)"
      using write_at_append [of ?g post pre] 4(2-) True by (simp add: Suc4)
    have "\<exists>t. ntop_body src ((pre @ ?g) @ drop 4 post) (length (pre @ ?g)) ts = Some (None, t) \<and>
        length t = length (pre @ ?g) + length (drop 4 post)"
      by (rule 4(1)) (use 4(2-) True in auto)
    with w 4(2-) True show ?thesis by (simp add: ntop_body_def Suc4)
  next
    case False
    then show ?thesis by (simp add: ntop_body_def)
  qed
qed (auto simp: ntop_body_def ntop_padding_def write_at_append)

lemma ntop_alt: "f_b64_ntop src target ts =
     ok_then (ntop_body src target 0 ts) (\<lambda>n t.
         if n \<ge> ts then Some (None, t)
         else do { t' \<leftarrow> write_at t n [0]; Some (Some (int_of_size n), t') })"
  unfolding f_b64_ntop_def ntop_body_def ok_then_assoc by (rule ok_then_cong) (auto split: prod.splits)

lemma ntop_fits:
  assumes "ts \<le> length target" "length (b64_text src) < ts"
  shows "f_b64_ntop src target ts = Some (Some (int_of_size (length (b64_text src))),
     b64_text src @ [0] @ drop (length (b64_text src) + 1) target)"
  using ntop_body_fits [of ts "[]" target src] assms
    write_at_append [of "[0]" "drop (length (b64_text src)) target" "b64_text src"]
  by (simp add: ntop_alt)

lemma ntop_full:
  assumes "ts \<le> length target" "ts \<le> length (b64_text src)"
  shows "\<exists>t. f_b64_ntop src target ts = Some (None, t) \<and> length t = length target"
proof (cases "ts = length (b64_text src)")
  case True
  then show ?thesis using ntop_body_fits [of ts "[]" target src] assms by (simp add: ntop_alt)
next
  case False
  then show ?thesis using ntop_body_full [of ts "[]" target src] assms by (auto simp: ntop_alt)
qed

subsection \<open>The decoder on encoded text\<close>

definition slop :: "u8 list \<Rightarrow> u8 list" where
  "slop xs = (if length xs mod 3 = 0 then [] else [0])"

lemma slop_4 [simp]: "slop (a # b # c # xs) = slop xs"
  by (simp add: slop_def)

definition pton_body :: "u8 list \<Rightarrow> nat \<Rightarrow> nat \<Rightarrow> u8 list \<Rightarrow> (int, u8 list option) outcome" where
  "pton_body src ts i t =
     ok_then (pton_loop src ts (of_nat i) 0 (Some t)) (\<lambda>(ch, rest, ti, state) t.
       ok_then (pton_finish ch rest ti state t) (\<lambda>_ t'. Some (Some (sint ti), t')))"

lemma Pad64_facts [simp]: "Pad64 \<noteq> 0" "\<not> isspace Pad64"
  by (simp_all add: Pad64_def isspace_def)

lemma idx32: "i < 2 ^ 31 \<Longrightarrow> unat (of_nat i :: u32) = i"
  by (simp add: unsigned_of_nat take_bit_nat_eq_self)

lemma pton_loop_char:
  "unat x < 64 \<Longrightarrow> pton_loop (b64_char x # src) ts ti st t =
     ok_then (pton_step x ts ti st t) (\<lambda>(ti', st') t. pton_loop src ts ti' st' t)"
  by simp

lemma idx32_next: "(of_nat i :: u32) + 1 = of_nat (i + 1)"
  by simp

lemma pton_step_0:
  assumes "length pre < ts" "length pre < 2 ^ 31"
  shows "pton_step p ts (of_nat (length pre)) 0 (Some (pre @ x # post)) =
      Some (Some (of_nat (length pre), 1), Some (pre @ push_bit 2 p # post))"
  using assms unfolding pton_step_def set_byte_def by (simp add: idx32)

lemma pton_step_1:
  assumes "length pre + 1 < ts" "length pre + 1 < 2 ^ 31"
  shows "pton_step p ts (of_nat (length pre)) 1 (Some (pre @ x # y # post)) =
      Some (Some (of_nat (length (pre @ [x OR drop_bit 4 p])), 2),
            Some ((pre @ [x OR drop_bit 4 p]) @ push_bit 4 (take_bit 4 p) # post))"
proof -
  have "unat (of_nat (length pre) :: u32) = length pre" "unat (of_nat (length pre + 1) :: u32) = length pre + 1"
    by (rule idx32, use assms in simp)+
  then show ?thesis using assms unfolding pton_step_def idx32_next and_masks
    by (simp add: set_byte_def or_byte_def nth_append list_update_append del: of_nat_Suc of_nat_add)
qed

lemma pton_step_2:
  assumes "length pre + 1 < ts" "length pre + 1 < 2 ^ 31"
  shows "pton_step p ts (of_nat (length pre)) 2 (Some (pre @ x # y # post)) =
      Some (Some (of_nat (length (pre @ [x OR drop_bit 2 p])), 3),
            Some ((pre @ [x OR drop_bit 2 p]) @ push_bit 6 (take_bit 2 p) # post))"
proof -
  have "unat (of_nat (length pre) :: u32) = length pre" "unat (of_nat (length pre + 1) :: u32) = length pre + 1"
    by (rule idx32, use assms in simp)+
  then show ?thesis using assms unfolding pton_step_def idx32_next and_masks
    by (simp add: set_byte_def or_byte_def nth_append list_update_append del: of_nat_Suc of_nat_add)
qed

lemma pton_step_3:
  assumes "length pre < ts" "length pre + 1 < 2 ^ 31"
  shows "pton_step p ts (of_nat (length pre)) 3 (Some (pre @ x # post)) =
      Some (Some (of_nat (length (pre @ [x OR p])), 0), Some ((pre @ [x OR p]) @ post))"
proof -
  have "unat (of_nat (length pre) :: u32) = length pre"
    by (rule idx32, use assms in simp)+
  then show ?thesis using assms unfolding pton_step_def idx32_next and_masks
    by (simp add: or_byte_def nth_append list_update_append del: of_nat_Suc of_nat_add)
qed

lemmas pton_chars = pton_loop_char [OF sextet_less(1)] pton_loop_char [OF sextet_less(2)]
  pton_loop_char [OF sextet_less(3)] pton_loop_char [OF sextet_less(4)]

lemma pton_single:
  assumes "length pre + 1 < ts" "length pre + 1 < 2 ^ 31"
  shows "pton_loop (b64_char (sextet0 a) # b64_char (sextet1 a b) # src) ts (of_nat (length pre)) 0
      (Some (pre @ x # y # post)) =
    pton_loop src ts (of_nat (length (pre @ [a]))) 2
      (Some ((pre @ [a]) @ push_bit 4 (take_bit 4 (sextet1 a b)) # post))"
proof -
  let ?x = "push_bit 2 (sextet0 a)"
  have "pton_step (sextet0 a) ts (of_nat (length pre)) 0 (Some (pre @ x # y # post)) =
    Some (Some (of_nat (length pre), 1), Some (pre @ ?x # y # post))"
    by (rule pton_step_0) (use assms in auto)
  moreover have "pton_step (sextet1 a b) ts (of_nat (length pre)) 1 (Some (pre @ ?x # y # post)) =
    Some (Some (of_nat (length (pre @ [a])), 2),
          Some ((pre @ [a]) @ push_bit 4 (take_bit 4 (sextet1 a b)) # post))"
    using pton_step_1 [of pre ts "sextet1 a b" ?x y post] assms by (simp only: byte0)
  ultimately show ?thesis by (simp only: pton_chars ok_then_simps prod.case)
qed

lemma pton_pair:
  assumes "length pre + 2 < ts" "length pre + 2 < 2 ^ 31"
  shows "pton_loop (b64_char (sextet0 a) # b64_char (sextet1 a b) # b64_char (sextet2 b c) # src)
      ts (of_nat (length pre)) 0 (Some (pre @ x # y # z # post)) =
    pton_loop src ts (of_nat (length (pre @ [a, b]))) 3
      (Some ((pre @ [a, b]) @ push_bit 6 (take_bit 2 (sextet2 b c)) # post))"
proof -
  let ?y = "push_bit 4 (take_bit 4 (sextet1 a b))"
  have "pton_step (sextet2 b c) ts (of_nat (length (pre @ [a]))) 2 (Some ((pre @ [a]) @ ?y # z # post)) =
    Some (Some (of_nat (length ((pre @ [a]) @ [b])), 3),
          Some (((pre @ [a]) @ [b]) @ push_bit 6 (take_bit 2 (sextet2 b c)) # post))"
    using pton_step_2 [of "pre @ [a]" ts "sextet2 b c" ?y z post] assms by (simp only: byte1) simp
  moreover note pton_single [of pre ts a b "b64_char (sextet2 b c) # src" x y "z # post"]
  moreover have "(pre @ [a]) @ [b] = pre @ [a, b]" by simp
  ultimately show ?thesis using assms by (simp only: pton_chars(3) ok_then_simps prod.case)
qed

lemma pton_group:
  assumes "length pre + 2 < ts" "length pre + 3 < 2 ^ 31"
  shows "pton_loop (b64_char (sextet0 a) # b64_char (sextet1 a b) # b64_char (sextet2 b c) #
                    b64_char (sextet3 c) # src) ts (of_nat (length pre)) 0 (Some (pre @ x # y # z # post)) =
    pton_loop src ts (of_nat (length (pre @ [a, b, c]))) 0 (Some ((pre @ [a, b, c]) @ post))"
proof -
  let ?z = "push_bit 6 (take_bit 2 (sextet2 b c))"
  have "pton_step (sextet3 c) ts (of_nat (length (pre @ [a, b]))) 3 (Some ((pre @ [a, b]) @ ?z # post)) =
    Some (Some (of_nat (length ((pre @ [a, b]) @ [c])), 0), Some (((pre @ [a, b]) @ [c]) @ post))"
    using pton_step_3 [of "pre @ [a, b]" ts "sextet3 c" ?z post] assms by (simp only: byte2) simp
  moreover have "(pre @ [a, b]) @ [c] = pre @ [a, b, c]" by simp
  moreover note pton_pair [of pre ts a b c "b64_char (sextet3 c) # src" x y z post]
  ultimately show ?thesis using assms by (simp only: pton_chars(4) ok_then_simps prod.case)
qed

lemma sint_of_nat: "n < 2 ^ 31 \<Longrightarrow> sint (of_nat n :: u32) = int n"
  by (simp add: signed_of_nat signed_take_bit_int_eq_self)

lemma pton_body_text:
  assumes "length mid = length xs + length (slop xs)" "length pre + length mid \<le> ts"
    and "length pre + length mid < 2 ^ 31"
  shows "pton_body (b64_text xs @ 0 # rest) ts (length pre) (pre @ mid @ post) =
    Some (Some (int (length pre + length xs)), Some (pre @ xs @ slop xs @ post))"
  using assms
proof (induction xs arbitrary: pre mid rule: b64_text.induct)
  case 1
  then show ?case by (simp add: pton_body_def pton_finish_def slop_def Pad64_def sint_of_nat)
next
  case (2 a)
  then obtain x y where m: "mid = [x, y]" by (auto simp: slop_def length_Suc_conv)
  have "length (pre @ [a]) < 2 ^ 31" using 2 m by simp
  note * = idx32 [OF this] sint_of_nat [OF this]
  show ?case using 2 m pton_single [of pre ts a 0 "Pad64 # Pad64 # 0 # rest" x y post] *
    by (simp add: pton_body_def slop1 pton_finish_def pton_trailer_def slop_def nth_append del: of_nat_Suc of_nat_add)
next
  case (3 a b)
  then obtain x y z where m: "mid = [x, y, z]" by (auto simp: slop_def length_Suc_conv)
  have "length (pre @ [a, b]) < 2 ^ 31" using 3 m by simp
  note * = idx32 [OF this] sint_of_nat [OF this]
  show ?case using 3 m pton_pair [of pre ts a b 0 "Pad64 # 0 # rest" x y z post] *
    by (simp add: pton_body_def slop2 pton_finish_def pton_trailer_def slop_def nth_append del: of_nat_Suc of_nat_add)
next
  case (4 a b c xs)
  then obtain x y z mid' where m: "mid = x # y # z # mid'" by (auto simp: length_Suc_conv)
  have g: "pton_body (b64_text (a # b # c # xs) @ 0 # rest) ts (length pre) (pre @ mid @ post) =
      pton_body (b64_text xs @ 0 # rest) ts (length (pre @ [a, b, c])) ((pre @ [a, b, c]) @ mid' @ post)"
    using pton_group [of pre ts a b c "b64_text xs @ 0 # rest" x y z "mid' @ post"] 4(3,4) m
    by (simp add: pton_body_def del: of_nat_Suc of_nat_add pton_loop.simps)
  have "pton_body (b64_text xs @ 0 # rest) ts (length (pre @ [a, b, c])) ((pre @ [a, b, c]) @ mid' @ post) =
     Some (Some (int (length (pre @ [a, b, c]) + length xs)), Some ((pre @ [a, b, c]) @ xs @ slop xs @ post))"
    by (rule 4(1)) (use 4(2-4) m in simp_all)
  then show ?case unfolding g by simp
qed

lemma pton_body_no_slop:
  assumes "length xs mod 3 \<noteq> 0" "ts = length pre + length xs"
    and "length mid = length xs" "ts < 2 ^ 31"
  shows "\<exists>t. pton_body (b64_text xs @ 0 # rest) ts (length pre) (pre @ mid @ post) = Some (None, Some t)"
  using assms
proof (induction xs arbitrary: pre mid rule: b64_text.induct)
  case (2 a)
  then obtain x where m: "mid = [x]" by (auto simp: length_Suc_conv)
  have i: "unat (of_nat (length pre) :: u32) = length pre" "unat (of_nat (length pre + 1) :: u32) = length pre + 1"
    by (rule idx32, use 2 in simp)+
  show ?case using 2 m i pton_step_0 [of pre ts "sextet0 a" x post]
    by (simp add: pton_body_def pton_step_def [of _ _ _ "Suc 0"] idx32_next del: of_nat_Suc of_nat_add)
next
  case (3 a b)
  then obtain x y where m: "mid = [x, y]" by (auto simp: length_Suc_conv)
  have i: "unat (of_nat (length pre + 1) :: u32) = length pre + 1" "unat (of_nat (length pre + 2) :: u32) = length pre + 2"
    by (rule idx32, use 3 in simp)+
  have s: "of_nat (length pre + 1) + 1 = (of_nat (length pre + 2) :: u32)" by simp
  show ?case using 3 m i s pton_single [of pre ts a b "b64_char (sextet2 b 0) # Pad64 # 0 # rest" x y post]
    by (simp add: pton_body_def pton_step_def [of _ _ _ 2] del: of_nat_Suc of_nat_add)
next
  case (4 a b c xs)
  then obtain x y z mid' where m: "mid = x # y # z # mid'" by (auto simp: length_Suc_conv)
  have pos: "0 < length xs" using 4(2) by (cases xs) auto
  have g: "pton_body (b64_text (a # b # c # xs) @ 0 # rest) ts (length pre) (pre @ mid @ post) =
      pton_body (b64_text xs @ 0 # rest) ts (length (pre @ [a, b, c])) ((pre @ [a, b, c]) @ mid' @ post)"
    using pton_group [of pre ts a b c "b64_text xs @ 0 # rest" x y z "mid' @ post"] 4(3-5) m pos
    by (simp add: pton_body_def del: of_nat_Suc of_nat_add pton_loop.simps)
  show ?case unfolding g by (rule 4(1)) (use 4(2-5) m in simp_all)
qed simp

subsection \<open>The decoder on arbitrary text\<close>

text \<open>\<open>target_ok t0 ts t\<close>: the target still has its size, and nothing from \<open>ts\<close> on has changed.\<close>

definition target_ok :: "u8 list \<Rightarrow> nat \<Rightarrow> u8 list option \<Rightarrow> bool" where
  "target_ok t0 ts t \<longleftrightarrow>
     (\<exists>t'. t = Some t' \<and> length t' = length t0 \<and> drop ts t' = drop ts t0)"

definition pton_inv :: "u8 list \<Rightarrow> nat \<Rightarrow> u32 \<Rightarrow> nat \<Rightarrow> u8 list option \<Rightarrow> bool" where
  "pton_inv t0 ts ti state t \<longleftrightarrow> target_ok t0 ts t \<and> state \<le> 3 \<and> unat ti \<le> ts \<and>
     (state \<noteq> 0 \<longrightarrow> unat ti < ts)"

lemma unat_inc: "unat (ti :: u32) < ts \<Longrightarrow> ts < 2 ^ 31 \<Longrightarrow> unat (ti + 1) = unat ti + 1"
  by (simp add: unat_word_ariths)

lemma set_byte_ok:
  "target_ok t0 ts t \<Longrightarrow> ts \<le> length t0 \<Longrightarrow> i < ts \<Longrightarrow> \<exists>t'. set_byte t i v = Some t' \<and> target_ok t0 ts t'"
  by (auto simp: target_ok_def set_byte_def)

lemma or_byte_ok:
  "target_ok t0 ts t \<Longrightarrow> ts \<le> length t0 \<Longrightarrow> i < ts \<Longrightarrow> \<exists>t'. or_byte t i v = Some t' \<and> target_ok t0 ts t'"
  by (auto simp: target_ok_def or_byte_def)

lemma pton_step_ok:
  assumes "pton_inv t0 ts ti state t" "ts \<le> length t0" "ts < 2 ^ 31"
  shows "safe (\<lambda>r t'. target_ok t0 ts t' \<and> (\<forall>ti' st'. r = Some (ti', st') \<longrightarrow> pton_inv t0 ts ti' st' t'))
    (pton_step p ts ti state t)"
proof -
  have t: "target_ok t0 ts t" "t \<noteq> None" using assms(1) by (auto simp: pton_inv_def target_ok_def)
  consider "state = 0" | "state = 1" | "state = 2" | "state = 3"
    using assms(1) by (auto simp: pton_inv_def le_Suc_eq numeral_eq_Suc)
  then show ?thesis
  proof cases
    case 1
    then show ?thesis using t set_byte_ok [OF t(1) assms(2), of "unat ti" "push_bit 2 p"]
      by (auto simp: pton_step_def pton_inv_def)
  next
    case 2
    then have ti: "unat ti < ts" using assms(1) by (simp add: pton_inv_def)
    obtain t1 where t1: "or_byte t (unat ti) (drop_bit 4 p) = Some t1" "target_ok t0 ts t1"
      using or_byte_ok [OF t(1) assms(2) ti] by blast
    with 2 t ti show ?thesis
      using set_byte_ok [OF t1(2) assms(2), of "unat (ti + 1)" "push_bit 4 (p AND 0x0f)"] unat_inc [OF ti assms(3)]
      by (auto simp: pton_step_def pton_inv_def)
  next
    case 3
    then have ti: "unat ti < ts" using assms(1) by (simp add: pton_inv_def)
    obtain t1 where t1: "or_byte t (unat ti) (drop_bit 2 p) = Some t1" "target_ok t0 ts t1"
      using or_byte_ok [OF t(1) assms(2) ti] by blast
    with 3 t ti show ?thesis
      using set_byte_ok [OF t1(2) assms(2), of "unat (ti + 1)" "push_bit 6 (p AND 0x03)"] unat_inc [OF ti assms(3)]
      by (auto simp: pton_step_def pton_inv_def)
  next
    case 4
    then have ti: "unat ti < ts" using assms(1) by (simp add: pton_inv_def)
    with 4 t show ?thesis
      using or_byte_ok [OF t(1) assms(2) ti, of p] unat_inc [OF ti assms(3)]
      by (auto simp: pton_step_def pton_inv_def)
  qed
qed

lemma pton_loop_ok:
  assumes "pton_inv t0 ts ti state t" "ts \<le> length t0" "ts < 2 ^ 31" "0 \<in> set src"
  shows "safe (\<lambda>r t'. target_ok t0 ts t' \<and> (\<forall>ch rest ti' st'. r = Some (ch, rest, ti', st') \<longrightarrow>
      pton_inv t0 ts ti' st' t' \<and> (ch = Pad64 \<longrightarrow> 0 \<in> set rest))) (pton_loop src ts ti state t)"
  using assms
proof (induction src arbitrary: ti state t)
  case (Cons ch src)
  have tok: "target_ok t0 ts t" using Cons.prems by (simp add: pton_inv_def)
  consider "ch = 0" | "ch \<noteq> 0" "isspace ch" | "ch \<noteq> 0" "ch = Pad64"
    | "ch \<noteq> 0" "\<not> isspace ch" "ch \<noteq> Pad64" by auto
  then show ?case
  proof cases
    case 4
    show ?thesis
    proof (cases "strchr_Base64 ch")
      case None
      with 4 tok show ?thesis by simp
    next
      case (Some p)
      have "safe (\<lambda>r t'. target_ok t0 ts t' \<and> (\<forall>ch rest ti' st'. r = Some (ch, rest, ti', st') \<longrightarrow>
          pton_inv t0 ts ti' st' t' \<and> (ch = Pad64 \<longrightarrow> 0 \<in> set rest)))
        (ok_then (pton_step p ts ti state t) (\<lambda>(ti', state') t. pton_loop src ts ti' state' t))"
      proof (rule safe_ok_then [OF pton_step_ok [OF Cons.prems(1-3)]], goal_cases)
        case (2 a s)
        then show ?case using Cons.IH 4 Cons.prems by (cases a) auto
      qed simp
      with 4 Some show ?thesis by simp
    qed
  qed (use Cons tok in auto)
qed simp

lemma skip_spaces_ok:
  "0 \<in> set src \<Longrightarrow> \<exists>ch rest. skip_spaces src = Some (ch, rest) \<and> (ch \<noteq> 0 \<longrightarrow> 0 \<in> set rest)"
  by (induction src) auto

lemma pton_trailer_ok:
  assumes "pton_inv t0 ts ti state t" "ts \<le> length t0" "0 \<in> set src" "state \<noteq> 0"
  shows "safe (\<lambda>r t'. t' = t) (pton_trailer src ti t)"
  using assms skip_spaces_ok [OF assms(3)]
  by (auto simp: pton_trailer_def pton_inv_def target_ok_def)

lemma pton_finish_ok:
  assumes "pton_inv t0 ts ti state t" "ts \<le> length t0" "ch = Pad64 \<longrightarrow> 0 \<in> set src"
  shows "safe (\<lambda>r t'. t' = t) (pton_finish ch src ti state t)"
proof (cases "ch = Pad64")
  case True
  with assms have z: "0 \<in> set src" by simp
  then have ne: "src \<noteq> []" by auto
  obtain ch' src' where s: "skip_spaces src = Some (ch', src')" "ch' \<noteq> 0 \<longrightarrow> 0 \<in> set src'"
    using skip_spaces_ok [OF z] by blast
  then show ?thesis
    using True ne pton_trailer_ok [OF assms(1,2) z] pton_trailer_ok [OF assms(1,2), of src']
    by (auto simp: pton_finish_def split: list.splits)
qed (simp add: pton_finish_def)

lemma pton_safe:
  assumes "ts \<le> length t" "ts < 2 ^ 31" "0 \<in> set src"
  shows "safe (\<lambda>r t'. target_ok t ts t' \<and> (\<forall>n. r = Some n \<longrightarrow> 0 \<le> n \<and> n \<le> int ts)) (f_b64_pton src (Some t) ts)"
  unfolding f_b64_pton_def
proof (rule safe_ok_then)
  have "pton_inv t ts 0 0 (Some t)" by (simp add: pton_inv_def target_ok_def)
  from pton_loop_ok [OF this assms] show "safe (\<lambda>r t'. target_ok t ts t' \<and>
      (\<forall>ch (rest :: u8 list) ti' st'. r = Some (ch, rest, ti', st') \<longrightarrow>
        pton_inv t ts ti' st' t' \<and> (ch = Pad64 \<longrightarrow> 0 \<in> set rest))) (pton_loop src ts 0 0 (Some t))" .
next
  fix a s
  assume s: "target_ok t ts s \<and> (\<forall>ch (rest :: u8 list) ti' st'. Some a = Some (ch, rest, ti', st') \<longrightarrow>
        pton_inv t ts ti' st' s \<and> (ch = Pad64 \<longrightarrow> 0 \<in> set rest))"
  obtain ch rest ti st where a: "a = (ch, rest, ti, st)" by (cases a) auto
  with s have inv: "pton_inv t ts ti st s" and z: "ch = Pad64 \<longrightarrow> 0 \<in> set rest" by auto
  have "unat ti \<le> ts" using inv by (simp add: pton_inv_def)
  then have le: "int (unat ti) \<le> int ts" by (simp only: of_nat_le_iff)
  have "sint (of_nat (unat ti) :: u32) = int (unat ti)"
    by (rule sint_of_nat) (use \<open>unat ti \<le> ts\<close> assms(2) in simp)
  then have n: "0 \<le> sint ti" "sint ti \<le> int ts" using le by simp_all
  have "safe (\<lambda>r t'. target_ok t ts t' \<and> (\<forall>n. r = Some n \<longrightarrow> 0 \<le> n \<and> n \<le> int ts))
      (ok_then (pton_finish ch rest ti st s) (\<lambda>_ t'. Some (Some (sint ti), t')))"
    by (rule safe_ok_then [OF pton_finish_ok [OF inv assms(1) z]]) (use s n in auto)
  then show "safe (\<lambda>r t'. target_ok t ts t' \<and> (\<forall>n. r = Some n \<longrightarrow> 0 \<le> n \<and> n \<le> int ts))
      ((case a of (ch, rest, ti, state) \<Rightarrow> \<lambda>t.
         ok_then (pton_finish ch rest ti state t) (\<lambda>_ t'. Some (Some (sint ti), t'))) s)"
    using a by simp
qed auto

subsection \<open>What the decoder accepts\<close>

definition b64_legal :: "u8 \<Rightarrow> bool" where
  "b64_legal c \<longleftrightarrow> c \<in> set Base64 \<or> c = Pad64 \<or> isspace c"

lemma index_of_Some: "index_of c xs = Some p \<Longrightarrow> c \<in> set xs"
  by (induction xs arbitrary: p) (auto split: if_splits)

lemma pton_step_state: "pton_step p ts ti st t = Some (Some (ti', st'), t') \<Longrightarrow> st \<le> 3 \<Longrightarrow> st' \<le> 3"
  by (auto simp: pton_step_def split: if_splits bind_splits)

lemma pton_loop_legal:
  "pton_loop src ts ti st t = Some (Some (ch, rest, ti', st'), t') \<Longrightarrow> st \<le> 3 \<Longrightarrow> st' \<le> 3 \<and>
   (\<exists>pre. src = pre @ ch # rest \<and> (\<forall>c \<in> set pre. b64_legal c \<and> c \<noteq> 0) \<and> (ch = 0 \<or> ch = Pad64))"
proof (induction src arbitrary: ti st t)
  case (Cons c src)
  show ?case
  proof (cases "c = 0 \<or> c = Pad64")
    case True
    with Cons.prems show ?thesis by (auto split: if_splits)
  next
    case False
    have "b64_legal c \<and> (\<exists>ti st t. st \<le> 3 \<and> pton_loop src ts ti st t = Some (Some (ch, rest, ti', st'), t'))"
    proof (cases "isspace c")
      case True
      with False Cons.prems show ?thesis by (auto simp: b64_legal_def)
    next
      case space: False
      with False Cons.prems obtain p where p: "strchr_Base64 c = Some p"
        by (auto split: option.splits)
      then have "b64_legal c" by (auto simp: b64_legal_def strchr_Base64_def dest: index_of_Some)
      with p False space Cons.prems show ?thesis by (auto elim!: ok_then_SomeE dest: pton_step_state)
    qed
    then obtain ti st t where c: "b64_legal c" and st: "st \<le> 3" and l: "pton_loop src ts ti st t = Some (Some (ch, rest, ti', st'), t')"
      by blast
    from Cons.IH [OF l st] obtain pre where "st' \<le> 3" "src = pre @ ch # rest" "\<forall>c \<in> set pre. b64_legal c \<and> c \<noteq> 0"
      "ch = 0 \<or> ch = Pad64" by blast
    with c False show ?thesis by (intro conjI exI [of _ "c # pre"]) auto
  qed
qed simp

lemma skip_spaces_legal:
  "skip_spaces src = Some (ch, rest) \<Longrightarrow> \<exists>pre. src = pre @ ch # rest \<and> (\<forall>c \<in> set pre. isspace c \<and> c \<noteq> 0)"
proof (induction src)
  case (Cons c src)
  show ?case
  proof (cases "c \<noteq> 0 \<and> isspace c")
    case True
    with Cons obtain pre where "src = pre @ ch # rest" "\<forall>c \<in> set pre. isspace c \<and> c \<noteq> 0" by auto
    with True show ?thesis by (intro exI [of _ "c # pre"]) auto
  qed (use Cons.prems in auto)
qed simp


lemma pton_trailer_legal:
  assumes "pton_trailer src ti t = Some (Some (), t')"
  shows "\<exists>pre rest. src = pre @ 0 # rest \<and> (\<forall>c \<in> set pre. b64_legal c \<and> c \<noteq> 0)"
proof -
  from assms obtain rest where "skip_spaces src = Some (0, rest)"
    by (auto simp: pton_trailer_def split: if_splits bind_splits)
  then show ?thesis by (auto simp: b64_legal_def dest!: skip_spaces_legal)
qed

lemma pton_finish_legal:
  assumes "pton_finish Pad64 src ti st t = Some (Some (), t')" "st \<le> 3"
  shows "\<exists>pre rest. src = pre @ 0 # rest \<and> (\<forall>c \<in> set pre. b64_legal c \<and> c \<noteq> 0)"
proof -
  have "st = 2 \<or> st = 3" using assms by (auto simp: pton_finish_def le_Suc_eq numeral_eq_Suc split: list.splits)
  then show ?thesis
  proof
    assume "st = 2"
    with assms obtain src' where s: "skip_spaces src = Some (Pad64, src')" "pton_trailer src' ti t = Some (Some (), t')"
      by (auto simp: pton_finish_def split: list.splits if_splits bind_splits)
    obtain pre where p: "src = pre @ Pad64 # src'" "\<forall>c \<in> set pre. isspace c \<and> c \<noteq> 0"
      using skip_spaces_legal [OF s(1)] by blast
    obtain pre' rest where q: "src' = pre' @ 0 # rest" "\<forall>c \<in> set pre'. b64_legal c \<and> c \<noteq> 0"
      using pton_trailer_legal [OF s(2)] by blast
    have "src = (pre @ Pad64 # pre') @ 0 # rest" using p q by simp
    moreover have "\<forall>c \<in> set (pre @ Pad64 # pre'). b64_legal c \<and> c \<noteq> 0"
      using p q by (auto simp: b64_legal_def)
    ultimately show ?thesis by blast
  next
    assume "st = 3"
    with assms have "pton_trailer src ti t = Some (Some (), t')"
      by (auto simp: pton_finish_def split: list.splits)
    then show ?thesis by (rule pton_trailer_legal)
  qed
qed

lemma pton_legal:
  assumes "f_b64_pton src target ts = Some (Some n, t)"
  shows "\<exists>pre rest. src = pre @ 0 # rest \<and> (\<forall>c \<in> set pre. b64_legal c \<and> c \<noteq> 0)"
proof -
  from assms obtain ch rest ti st t1 where l: "pton_loop src ts 0 0 target = Some (Some (ch, rest, ti, st), t1)"
    and f: "\<exists>t'. pton_finish ch rest ti st t1 = Some (Some (), t')"
    by (auto simp: f_b64_pton_def elim!: ok_then_SomeE)
  obtain pre where p: "st \<le> 3" "src = pre @ ch # rest" "\<forall>c \<in> set pre. b64_legal c \<and> c \<noteq> 0"
    "ch = 0 \<or> ch = Pad64" using pton_loop_legal [OF l] by auto
  show ?thesis
  proof (cases "ch = 0")
    case True
    with p show ?thesis by blast
  next
    case False
    then have ch: "ch = Pad64" using p by simp
    with f p(1) obtain pre' rest' where q: "rest = pre' @ 0 # rest'" "\<forall>c \<in> set pre'. b64_legal c \<and> c \<noteq> 0"
      using pton_finish_legal by blast
    have "src = (pre @ Pad64 # pre') @ 0 # rest'" using p q ch by simp
    moreover have "\<forall>c \<in> set (pre @ Pad64 # pre'). b64_legal c \<and> c \<noteq> 0"
      using p q by (auto simp: b64_legal_def)
    ultimately show ?thesis by blast
  qed
qed

section \<open>Properties of the base 64 routines\<close>

text \<open>What \<open>f_b64_ntop\<close> and \<open>f_b64_pton\<close> promise: the exact text and its size, the round trip,
  the bounds of the target buffer on every input, and what the decoder refuses.\<close>

text \<open>C27: \<open>f_b64_ntop\<close> writes the base 64 text of its input (the base 64 digits of the number that each
  three bytes are, padded) and a terminating zero, touches nothing behind them and returns the length
  of the text, if the target size leaves room for text and terminator; otherwise it returns -1,
  and never writes outside the target.\<close>

theorem ntop_spec:
  assumes "targsize \<le> length target"
  shows "length (b64_text src) = 4 * ((length src + 2) div 3) \<and>
    (if length (b64_text src) < targsize
     then f_b64_ntop src target targsize =
       Some (Some (int_of_size (length (b64_text src))),
             b64_text src @ [0] @ drop (length (b64_text src) + 1) target)
     else \<exists>t. f_b64_ntop src target targsize = Some (None, t) \<and> length t = length target)"
  using length_b64_text ntop_fits [OF assms] ntop_full [OF assms] by simp

lemma ntop_spec_witness:
  "length (b64_text [1, 2, 3, 4]) = 8 \<and>
   (\<exists>t. f_b64_ntop [1, 2, 3, 4] (replicate 8 0) 8 = Some (None, t) \<and> length t = 8)"
  using ntop_spec [of 8 "replicate 8 0" "[1, 2, 3, 4]"] by simp

text \<open>C28: round trip. \<open>f_b64_pton\<close> on the text \<open>f_b64_ntop\<close> produces, with anything after its
  terminator, returns the number of the original bytes and puts them at the start of the target.
  The target must have one byte more than the data unless their number is a multiple of three;
  that byte is set to 0. Everything behind is left alone.\<close>

theorem pton_ntop:
  assumes "length src + length (slop src) \<le> targsize" "targsize \<le> length target"
    and "targsize < 2 ^ 31"
  shows "f_b64_pton (b64_text src @ 0 # rest) (Some target) targsize =
    Some (Some (int (length src)),
          Some (src @ slop src @ drop (length src + length (slop src)) target))"
proof -
  let ?n = "length src + length (slop src)"
  have "take ?n target @ drop ?n target = target" by (rule append_take_drop_id)
  then show ?thesis
    using pton_body_text [of "take ?n target" src "[]" targsize rest "drop ?n target"] assms
    by (simp add: pton_body_def f_b64_pton_def)
qed

lemma pton_ntop_witness:
  "f_b64_pton (b64_text [0xFF, 7] @ 0 # [1]) (Some [9, 9, 9, 9]) 3 =
     Some (Some 2, Some [0xFF, 7, 0, 9])"
  using pton_ntop [of "[0xFF, 7]" 3 "[9, 9, 9, 9]" "[1]"] by (simp add: slop_def)

text \<open>C29: the spare byte is needed. When the number of bytes is not a multiple of three and the
  target has exactly the size of the data, \<open>f_b64_pton\<close> returns -1 although the data would
  fit: it stores the left-over bits of the last character behind them.\<close>

theorem pton_needs_spare_byte:
  assumes "length src mod 3 \<noteq> 0" "length target = length src" "length src < 2 ^ 31"
  shows "\<exists>t. f_b64_pton (b64_text src @ 0 # rest) (Some target) (length src) = Some (None, Some t)"
  using pton_body_no_slop [of src "length src" "[]" target rest "[]"] assms
  by (simp add: pton_body_def f_b64_pton_def)

lemma pton_needs_spare_byte_witness:
  "\<exists>t. f_b64_pton (b64_text [0xFF, 7] @ 0 # []) (Some [9, 9]) (length [0xFF :: u8, 7]) = Some (None, Some t)"
  by (rule pton_needs_spare_byte) simp_all

text \<open>memory safety of \<open>f_b64_pton\<close> on any zero-terminated text: it returns, reads nothing
  behind the terminator, writes nothing at or behind \<open>targsize\<close>, and a returned length is between
  0 and \<open>targsize\<close>.\<close>

theorem pton_safety:
  assumes "targsize \<le> length target" "targsize < 2 ^ 31"
  shows "\<exists>r t. f_b64_pton (text @ [0]) (Some target) targsize = Some (r, Some t) \<and>
    length t = length target \<and> drop targsize t = drop targsize target \<and>
    (case r of None \<Rightarrow> True | Some n \<Rightarrow> 0 \<le> n \<and> n \<le> int targsize)"
  using pton_safe [OF assms, of "text @ [0]"] unfolding target_ok_def
  by (auto elim!: safeE split: option.splits)

lemma pton_safety_witness:
  "\<exists>r t. f_b64_pton ([65, 66, 61, 61] @ [0]) (Some [1, 2, 3]) 2 = Some (r, Some t) \<and>
    length t = length [1, 2, 3 :: u8] \<and> drop 2 t = drop 2 [1, 2, 3] \<and>
    (case r of None \<Rightarrow> True | Some n \<Rightarrow> 0 \<le> n \<and> n \<le> int 2)"
  by (rule pton_safety) simp_all

text \<open>what \<open>f_b64_pton\<close> accepts consists, up to its terminator, of characters of the alphabet,
  pad characters and white space only.\<close>

theorem pton_accepts_only_legal:
  assumes "f_b64_pton src target targsize = Some (Some n, t)"
  shows "\<exists>text rest. src = text @ 0 # rest \<and>
    (\<forall>c \<in> set text. (c \<in> set Base64 \<or> c = Pad64 \<or> isspace c) \<and> c \<noteq> 0)"
  using pton_legal [OF assms] by (simp add: b64_legal_def)

lemma pton_accepts_only_legal_witness:
  "\<exists>text rest. b64_text [0xFF, 7] @ 0 # [1] = text @ 0 # rest \<and>
    list_all (\<lambda>c. (c \<in> set Base64 \<or> c = Pad64 \<or> isspace c) \<and> c \<noteq> 0) text"
proof -
  have "f_b64_pton (b64_text [0xFF, 7] @ 0 # [1]) (Some [9, 9, 9, 9]) 3 =
      Some (Some 2, Some [0xFF, 7, 0, 9])"
    using pton_body_text [of "[9, 9, 9]" "[0xFF, 7]" "[]" 3 "[1]" "[9]"]
    by (simp add: slop_def pton_body_def f_b64_pton_def)
  from pton_accepts_only_legal [OF this] show ?thesis by (simp add: list_all_iff)
qed

end
