(* ===== verification/Field_Iter_Theorems.thy ===== *)
theory Field_Iter_Theorems imports Decode_Message Descriptors Cct_Tables begin

section \<open>The iterator walks the descriptors\<close>

text \<open>
  \<open>iter_at fds dest i\<close> is the iterator on field \<open>i\<close> of a message at \<open>dest\<close>. For a descriptor
  array that ends with its only entry of tag 0, \<open>pb_field_iter_next\<close> goes from one to the next
  and wraps, \<open>pb_field_iter_find\<close> is a cyclic search, and \<open>do_while_next\<close> runs its body once
  for each field, in order.
\<close>

definition begin_iter :: "pb_field list \<Rightarrow> addr \<Rightarrow> pb_field_iter" where
  "begin_iter fds dest =
     (let d = dest + unat (f_data_offset (hd fds)) in
      \<lparr>start = fds, pos = 0, required_field_index = 0, dest_struct = dest,
       pData = d, pSize = In_struct (offset_addr d (f_size_offset (hd fds)))\<rparr>)"

definition step_iter :: "pb_field_iter \<Rightarrow> pb_field_iter" where
  "step_iter it =
     (let prev = start it ! pos it; f = start it ! Suc (pos it) in
      if PB_HTYPE (f_type prev) = PB_HTYPE_ONEOF \<and> PB_HTYPE (f_type f) = PB_HTYPE_ONEOF \<and>
         f_data_offset f = PB_SIZE_MAX
      then it\<lparr>pos := Suc (pos it)\<rparr>
      else let d = pData it + prev_field_size prev + unat (f_data_offset f)
        in it\<lparr>pos := Suc (pos it),
              required_field_index := (if PB_HTYPE (f_type prev) = PB_HTYPE_REQUIRED
                                       then Suc (required_field_index it)
                                       else required_field_index it),
              pData := d, pSize := In_struct (offset_addr d (f_size_offset f))\<rparr>)"

primrec iter_at :: "pb_field list \<Rightarrow> addr \<Rightarrow> nat \<Rightarrow> pb_field_iter" where
  "iter_at fds dest 0 = begin_iter fds dest"
| "iter_at fds dest (Suc i) = step_iter (iter_at fds dest i)"

text \<open>The number of fields of a message type.\<close>

definition field_count :: "pb_field list \<Rightarrow> nat" where
  "field_count fds = length fds - 1"

subsection \<open>Terminated arrays\<close>

lemma terminated_nth:
  assumes "terminated fds"
  shows "i < field_count fds \<Longrightarrow> f_tag (fds ! i) \<noteq> 0"
    and "f_tag (fds ! field_count fds) = 0" and "field_count fds < length fds"
  using assms by (auto simp: terminated_def field_count_def last_conv_nth list_all_length nth_butlast)

lemma field_at_terminated:
  assumes "terminated fds" "i \<le> field_count fds"
  shows "field_at fds i = Some (fds ! i)"
  using assms terminated_nth(3) [OF assms(1)] by (simp add: field_at_def)

lemma iter_at_sel [simp]:
  "start (iter_at fds dest i) = fds" "pos (iter_at fds dest i) = i"
  "dest_struct (iter_at fds dest i) = dest"
  by (induction i) (simp_all add: begin_iter_def step_iter_def Let_def)

lemmas iter_at_simps = iter_at.simps

declare iter_at.simps [simp del, code]

lemma iter_begin_at:
  assumes "terminated fds"
  shows "pb_field_iter_begin fds dest = Some (field_count fds > 0, iter_at fds dest 0)"
proof -
  have ne: "fds \<noteq> []" using assms by (simp add: terminated_def)
  have "(f_tag (fds ! 0) \<noteq> 0) = (0 < field_count fds)"
    using terminated_nth [OF assms] by (metis gr0I less_irrefl)
  then show ?thesis using ne field_at_terminated [OF assms, of 0]
    by (simp add: pb_field_iter_begin_def iter_at_simps begin_iter_def hd_conv_nth Let_def)
qed

lemma iter_next_at:
  assumes "terminated fds" "i < field_count fds"
  shows "pb_field_iter_next (iter_at fds dest i) =
    (if Suc i < field_count fds then Some (True, iter_at fds dest (Suc i))
     else Some (False, iter_at fds dest 0))"
proof -
  note t = terminated_nth [OF assms(1)]
  have f: "field_at fds i = Some (fds ! i)" "field_at fds (Suc i) = Some (fds ! Suc i)"
    using field_at_terminated [OF assms(1)] assms(2) by simp_all
  show ?thesis
  proof (cases "Suc i < field_count fds")
    case True
    then show ?thesis using f t(1) [OF assms(2)] t(1) [OF True]
      by (simp add: pb_field_iter_next_def iter_at_simps step_iter_def Let_def)
  next
    case False
    then have "Suc i = field_count fds" using assms(2) by simp
    then show ?thesis using f t(1) [OF assms(2)] t(2) iter_begin_at [OF assms(1), of dest]
      by (simp add: pb_field_iter_next_def)
  qed
qed

lemma iter_next_empty:
  assumes "terminated fds" "field_count fds = 0"
  shows "pb_field_iter_next (iter_at fds dest 0) = Some (False, iter_at fds dest 0)"
  using field_at_terminated [OF assms(1), of 0] terminated_nth(2) [OF assms(1)] assms(2)
  by (simp add: pb_field_iter_next_def)

subsection \<open>Walking all fields\<close>

fun each_field ::
  "(pb_field_iter \<Rightarrow> 's \<Rightarrow> (unit, 's) outcome) \<Rightarrow> pb_field list \<Rightarrow> addr \<Rightarrow> nat list \<Rightarrow> 's \<Rightarrow> (unit, 's) outcome" where
  "each_field body fds dest [] s = Some (Some (), s)"
| "each_field body fds dest (i # is) s =
     ok_then (body (iter_at fds dest i) s) (\<lambda>_ s'. each_field body fds dest is s')"

lemma each_field_Nil [simp]: "each_field body fds dest [] = (\<lambda>s. Some (Some (), s))"
  by (rule ext) simp

declare each_field.simps(1) [simp del]

lemma do_while_next_from:
  assumes "terminated fds" "i < field_count fds"
  shows "do_while_next body (iter_at fds dest i) s = each_field body fds dest [i..<field_count fds] s"
  using assms(2)
proof (induction "field_count fds - i" arbitrary: i s)
  case (Suc n)
  have up: "[i..<field_count fds] = i # [Suc i..<field_count fds]"
    using Suc.prems by (rule upt_conv_Cons)
  have loop: "do_while_next body (iter_at fds dest i) s =
      ok_then (body (iter_at fds dest i) s) (\<lambda>_ s'.
        if Suc i < field_count fds then do_while_next body (iter_at fds dest (Suc i)) s'
        else Some (Some (), s'))"
    by (subst do_while_next.simps) (simp add: iter_next_at [OF assms(1) Suc.prems])
  show ?case
  proof (cases "Suc i < field_count fds")
    case True
    have "do_while_next body (iter_at fds dest (Suc i)) s' =
        each_field body fds dest [Suc i..<field_count fds] s'" for s'
      by (rule Suc.hyps(1)) (use Suc.hyps(2) True in simp_all)
    then show ?thesis using loop True by (simp add: up)
  next
    case False
    then have "[Suc i..<field_count fds] = []" by simp
    then show ?thesis using loop False by (simp add: up)
  qed
qed simp

lemma do_while_next_all:
  assumes "terminated fds" "0 < field_count fds"
  shows "do_while_next body (iter_at fds dest 0) s = each_field body fds dest [0..<field_count fds] s"
  using do_while_next_from [OF assms] .

subsection \<open>Searching\<close>

definition cyclic :: "nat \<Rightarrow> nat \<Rightarrow> nat list" where
  "cyclic i n = [i..<n] @ [0..<i]"

lemma iter_search_from:
  assumes "terminated fds" "first < field_count fds"
    and "i < field_count fds" "js = (if first < i \<or> i = first then [i..<field_count fds] @ [0..<first] else [i..<first])"
  shows "iter_search p first (iter_at fds dest i) =
    (case find (\<lambda>j. p (fds ! j)) js of
       Some j \<Rightarrow> Some (True, iter_at fds dest j)
     | None \<Rightarrow> Some (False, iter_at fds dest first))"
  using assms(3-)
proof (induction "length js" arbitrary: i js)
  case 0
  then show ?case using assms(2) by (auto split: if_splits)
next
  case (Suc n)
  let ?N = "field_count fds"
  have f: "field_at fds i = Some (fds ! i)"
    using field_at_terminated [OF assms(1)] Suc.prems(1) by simp
  define i' where "i' = (if Suc i < ?N then Suc i else 0)"
  have nx: "pb_field_iter_next (iter_at fds dest i) = Some (Suc i < ?N, iter_at fds dest i')"
    using iter_next_at [OF assms(1) Suc.prems(1), of dest] by (auto simp: i'_def)
  have step: "iter_search p first (iter_at fds dest i) =
      (if p (fds ! i) then Some (True, iter_at fds dest i)
       else if i' \<noteq> first then iter_search p first (iter_at fds dest i')
       else Some (False, iter_at fds dest first))"
    by (subst iter_search.simps) (simp add: f nx)
  define js' where "js' = (if first < i' \<or> i' = first then [i'..<?N] @ [0..<first] else [i'..<first])"
  have js: "js = i # (if i' = first then [] else js')"
    using Suc.prems assms(2) unfolding js'_def i'_def
    by (auto simp: upt_conv_Cons not_less le_Suc_eq less_Suc_eq)
  show ?case
  proof (cases "p (fds ! i)")
    case True
    then show ?thesis by (simp add: step js)
  next
    case False
    show ?thesis
    proof (cases "i' = first")
      case True
      with False show ?thesis by (simp add: step js)
    next
      case ne: False
      have "iter_search p first (iter_at fds dest i') =
        (case find (\<lambda>j. p (fds ! j)) js' of Some j \<Rightarrow> Some (True, iter_at fds dest j)
         | None \<Rightarrow> Some (False, iter_at fds dest first))"
        by (rule Suc.hyps(1)) (use Suc.hyps(2) js ne Suc.prems(1) in \<open>auto simp: js'_def i'_def\<close>)
      with False ne show ?thesis by (simp add: step js)
    qed
  qed
qed

lemma iter_search_cyclic:
  assumes "terminated fds" "i < field_count fds"
  shows "iter_search p i (iter_at fds dest i) =
    (case find (\<lambda>j. p (fds ! j)) (cyclic i (field_count fds)) of
       Some j \<Rightarrow> Some (True, iter_at fds dest j)
     | None \<Rightarrow> Some (False, iter_at fds dest i))"
  by (rule iter_search_from [OF assms(1) assms(2) assms(2)]) (simp add: cyclic_def)

subsection \<open>Counting required fields\<close>

definition is_required :: "pb_field \<Rightarrow> bool" where
  "is_required f \<longleftrightarrow> PB_HTYPE (f_type f) = PB_HTYPE_REQUIRED"

lemma required_index_at:
  assumes "terminated fds" "i < field_count fds"
  shows "required_field_index (iter_at fds dest i) = length (filter is_required (take i fds))"
  using assms(2)
proof (induction i)
  case (Suc i)
  have "i < length fds" using Suc.prems terminated_nth(3) [OF assms(1)] by simp
  then have "take (Suc i) fds = take i fds @ [fds ! i]" by (rule take_Suc_conv_app_nth)
  with Suc show ?case
    by (simp add: iter_at_simps step_iter_def Let_def is_required_def)
qed (simp add: iter_at_simps begin_iter_def Let_def)

lemma seek_last_at:
  assumes "terminated fds" "i < field_count fds"
  shows "seek_last (iter_at fds dest i) =
    Some (required_field_index (iter_at fds dest (field_count fds - 1)),
          f_type (fds ! (field_count fds - 1)), iter_at fds dest 0)"
  using assms(2)
proof (induction "field_count fds - i" arbitrary: i)
  case (Suc n)
  have f: "field_at fds i = Some (fds ! i)" using field_at_terminated [OF assms(1)] Suc.prems by simp
  show ?case
  proof (cases "Suc i < field_count fds")
    case True
    have "seek_last (iter_at fds dest (Suc i)) =
      Some (required_field_index (iter_at fds dest (field_count fds - 1)),
            f_type (fds ! (field_count fds - 1)), iter_at fds dest 0)"
      by (rule Suc.hyps(1)) (use Suc.hyps(2) True in simp_all)
    then show ?thesis using f True iter_next_at [OF assms(1) Suc.prems, of dest]
      by (subst seek_last.simps) simp
  next
    case False
    then have "field_count fds - 1 = i" using Suc.prems by simp
    then show ?thesis using f False iter_next_at [OF assms(1) Suc.prems, of dest]
      by (subst seek_last.simps) simp
  qed
qed simp

lemma required_count_at:
  assumes "terminated fds" "i < field_count fds"
  shows "required_field_count (iter_at fds dest i) =
    Some (min (length (filter is_required (butlast fds))) 64)"
proof -
  let ?n = "field_count fds - 1"
  have n: "?n < field_count fds" "Suc ?n = field_count fds" using assms(2) by simp_all
  have b: "butlast fds = take ?n fds @ [fds ! ?n]"
  proof -
    have "butlast fds = take (Suc ?n) fds" using n(2) by (simp add: butlast_conv_take field_count_def)
    also have "\<dots> = take ?n fds @ [fds ! ?n]"
      by (rule take_Suc_conv_app_nth) (use n terminated_nth(3) [OF assms(1)] in simp)
    finally show ?thesis .
  qed
  have "field_at fds 0 = Some (fds ! 0)" "f_tag (fds ! 0) \<noteq> 0"
    using field_at_terminated [OF assms(1), of 0] terminated_nth(1) [OF assms(1), of 0] assms(2) by simp_all
  then show ?thesis using required_index_at [OF assms(1) n(1), of dest] b
    by (simp add: required_field_count_def seek_last_at [OF assms] is_required_def)
qed

section \<open>The iterator on the generated tables\<close>

text \<open>
  The properties of the field iterator, for every descriptor array and then for the tables of the
  repository: the offsets the macros compute lead the iterator to the members of the structures.
\<close>

subsection \<open>Offsets\<close>

lemma iter_pData: "pData (iter_at fds dest i) = dest + pData (iter_at fds 0 i)"
proof (induction i)
  case (Suc i)
  then show ?case by (simp add: iter_at_simps step_iter_def Let_def)
qed (simp add: iter_at_simps begin_iter_def Let_def)

definition shift_loc :: "addr \<Rightarrow> size_loc \<Rightarrow> size_loc" where
  "shift_loc dest l = (case l of In_struct a \<Rightarrow> In_struct (dest + a) | Local_count \<Rightarrow> Local_count)"

lemma offset_addr_shift: "0 \<le> int p + sint d \<Longrightarrow> offset_addr (dest + p) d = dest + offset_addr p d"
  by (simp add: offset_addr_def nat_add_distrib add.assoc [symmetric])

lemma iter_pSize:
  assumes "\<And>j. j \<le> i \<Longrightarrow> 0 \<le> int (pData (iter_at fds 0 j)) + sint (f_size_offset (fds ! j))" "fds \<noteq> []"
  shows "pSize (iter_at fds dest i) = shift_loc dest (pSize (iter_at fds 0 i))"
  using assms(1)
proof (induction i)
  case 0
  have "0 \<le> int (pData (iter_at fds 0 0)) + sint (f_size_offset (fds ! 0))" using 0 by simp
  then show ?case using assms(2)
    by (simp add: iter_at_simps begin_iter_def Let_def shift_loc_def offset_addr_shift hd_conv_nth)
next
  case (Suc i)
  have nn: "0 \<le> int (pData (iter_at fds 0 (Suc i))) + sint (f_size_offset (fds ! Suc i))"
    by (rule Suc.prems) simp
  have ih: "pSize (iter_at fds dest i) = shift_loc dest (pSize (iter_at fds 0 i))"
    by (rule Suc.IH) (simp add: Suc.prems)
  show ?case using nn ih iter_pData [of fds dest i]
    by (auto simp: iter_at_simps step_iter_def Let_def shift_loc_def add.assoc offset_addr_shift)
qed

subsection \<open>What a table must say of its structure\<close>

text \<open>
  The member that holds the presence flag or the count of a member, by the members the structure declares: \<open>has_x\<close> or
  \<open>x_count\<close> where there is one, and the member itself where there is none.
\<close>

definition flag_member :: "member list \<Rightarrow> string \<Rightarrow> string" where
  "flag_member st x =
     (if ''has_'' @ x \<in> set (map m_name st) then ''has_'' @ x
      else if x @ ''_count'' \<in> set (map m_name st) then x @ ''_count'' else x)"

text \<open>
  \<open>describes fds st tags\<close>: the table has a field for each of the field numbers \<open>tags\<close>, and the iterator on it points to the
  member of that name, to its flag or count, and gives the size of the member or of what it points to.
\<close>

definition describes :: "pb_field list \<Rightarrow> member list \<Rightarrow> (u32 \<times> string) list \<Rightarrow> bool" where
  "describes fds st tags \<longleftrightarrow>
     terminated fds \<and> map f_tag (butlast fds) = map fst tags \<and> distinct (map fst tags) \<and> tags \<noteq> [] \<and>
     list_all (\<lambda>i. let it = iter_at fds 0 i; x = snd (tags ! i) in
        f_ltype (fds ! i) \<noteq> PB_LTYPE_EXTENSION \<and> unat (f_data_size (fds ! i)) = pb_elemsize st x \<and>
        0 \<le> int (pData it) + sint (f_size_offset (fds ! i)) \<and>
        pData it = offsetof st x \<and> pSize it = In_struct (offsetof st (flag_member st x)))
       [0..<length tags]"

text \<open>The field numbers and names of the generated headers, in ascending order.\<close>

definition NetworkConnectionInfo_tags :: "(u32 \<times> string) list" where
  "NetworkConnectionInfo_tags = [(1, ''network_type''), (2, ''mobile_subtype'')]"
definition LogEvent_tags :: "(u32 \<times> string) list" where
  "LogEvent_tags = [(1, ''event_time_ms''), (6, ''source_extension''), (11, ''event_code''), (15, ''timezone_offset_seconds''),
     (17, ''event_uptime_ms''), (23, ''network_connection_info'')]"
definition IosClientInfo_tags :: "(u32 \<times> string) list" where
  "IosClientInfo_tags = [(3, ''os_major_version''), (4, ''os_full_version''), (5, ''application_build''), (6, ''country''),
     (7, ''model''), (8, ''language_code''), (11, ''application_bundle_id'')]"
definition ClientInfo_tags :: "(u32 \<times> string) list" where
  "ClientInfo_tags = [(1, ''client_type''), (4, ''ios_client_info'')]"
definition LogRequest_tags :: "(u32 \<times> string) list" where
  "LogRequest_tags = [(1, ''client_info''), (2, ''log_source''), (3, ''log_event''), (4, ''request_time_ms''),
     (8, ''request_uptime_ms''), (9, ''qos_tier'')]"
definition BatchedLogRequest_tags :: "(u32 \<times> string) list" where
  "BatchedLogRequest_tags = [(1, ''log_request'')]"
definition QosTierConfiguration_tags :: "(u32 \<times> string) list" where
  "QosTierConfiguration_tags = [(2, ''qos_tier''), (3, ''log_source'')]"
definition QosTiersOverride_tags :: "(u32 \<times> string) list" where
  "QosTiersOverride_tags = [(1, ''qos_tier_configuration''), (2, ''qos_tier_fingerprint'')]"
definition LogResponse_tags :: "(u32 \<times> string) list" where
  "LogResponse_tags = [(1, ''next_request_wait_millis''), (3, ''qos_tier'')]"
definition ICoreConfiguration_tags :: "(u32 \<times> string) list" where
  "ICoreConfiguration_tags = [(1, ''configuration_type''), (7, ''sdk_service_installed''), (9, ''device_model''), (10, ''app_id''),
     (12, ''bundle_id''), (16, ''pod_name''), (18, ''icore_version''), (19, ''sdk_version''), (20, ''sdk_name''), (21, ''app_count''),
     (22, ''os_version''), (24, ''min_supported_ios_version''), (25, ''use_default_app''), (26, ''deployed_in_app_store''),
     (27, ''dynamic_framework_count''), (28, ''apple_framework_version''), (29, ''using_zip_file''), (30, ''deployment_type''),
     (31, ''platform_info''), (33, ''swizzling_enabled''), (36, ''using_gdt'')]"

lemma describes_NetworkConnectionInfo:
  "describes gdt_cct_NetworkConnectionInfo_fields gdt_cct_NetworkConnectionInfo NetworkConnectionInfo_tags" by code_simp

lemma describes_LogEvent: "describes gdt_cct_LogEvent_fields gdt_cct_LogEvent LogEvent_tags" by code_simp

lemma describes_IosClientInfo: "describes gdt_cct_IosClientInfo_fields gdt_cct_IosClientInfo IosClientInfo_tags" by code_simp

lemma describes_ClientInfo: "describes gdt_cct_ClientInfo_fields gdt_cct_ClientInfo ClientInfo_tags" by code_simp

lemma describes_LogRequest: "describes gdt_cct_LogRequest_fields gdt_cct_LogRequest LogRequest_tags" by code_simp

lemma describes_BatchedLogRequest:
  "describes gdt_cct_BatchedLogRequest_fields gdt_cct_BatchedLogRequest BatchedLogRequest_tags" by code_simp

lemma describes_QosTierConfiguration:
  "describes gdt_cct_QosTierConfiguration_fields gdt_cct_QosTierConfiguration QosTierConfiguration_tags" by code_simp

lemma describes_QosTiersOverride:
  "describes gdt_cct_QosTiersOverride_fields gdt_cct_QosTiersOverride QosTiersOverride_tags" by code_simp

lemma describes_LogResponse: "describes gdt_cct_LogResponse_fields gdt_cct_LogResponse LogResponse_tags" by code_simp

lemma f_tag_PB_FIELD: "f_tag (PB_FIELD tag ty r a p st x y d) = tag"
  unfolding PB_FIELD_def by (cases r; cases a) (simp_all add: mk_field_def)

lemma ICoreConfiguration_tags:
  "terminated logs_proto_mobilesdk_ios_ICoreConfiguration_fields"
  "map f_tag (butlast logs_proto_mobilesdk_ios_ICoreConfiguration_fields) = map fst ICoreConfiguration_tags"
  unfolding logs_proto_mobilesdk_ios_ICoreConfiguration_fields_def Let_def terminated_def ICoreConfiguration_tags_def
  by (simp_all add: f_tag_PB_FIELD PB_LAST_FIELD_def)

text \<open>The search of a message at any address, over a table that describes it.\<close>

definition finds_members :: "pb_field list \<Rightarrow> member list \<Rightarrow> (u32 \<times> string) list \<Rightarrow> bool" where
  "finds_members fds st tags \<longleftrightarrow> (\<forall>dest. \<exists>it0. pb_field_iter_begin fds dest = Some (True, it0) \<and>
     (\<forall>(tag, x) \<in> set tags. \<exists>it. pb_field_iter_find it0 tag = Some (True, it) \<and>
        unat (f_data_size (fds ! pos it)) = pb_elemsize st x \<and> pData it = dest + offsetof st x \<and>
        pSize it = In_struct (dest + offsetof st (flag_member st x))) \<and>
     (\<forall>tag. tag \<notin> fst ` set tags \<longrightarrow> pb_field_iter_find it0 tag = Some (False, it0)))"

lemma describes_field:
  assumes "describes fds st tags" "i < length tags"
  shows "field_count fds = length tags" "f_tag (fds ! i) = fst (tags ! i)" "f_ltype (fds ! i) \<noteq> PB_LTYPE_EXTENSION"
    and "unat (f_data_size (fds ! i)) = pb_elemsize st (snd (tags ! i))"
    and "pData (iter_at fds dest i) = dest + offsetof st (snd (tags ! i))"
    and "pSize (iter_at fds dest i) = In_struct (dest + offsetof st (flag_member st (snd (tags ! i))))"
proof -
  have tags: "map f_tag (butlast fds) = map fst tags" and t: "terminated fds" using assms(1) by (simp_all add: describes_def)
  from tags have "length (butlast fds) = length tags" by (metis length_map)
  then show n: "field_count fds = length tags" by (simp add: field_count_def)
  have all: "f_ltype (fds ! j) \<noteq> PB_LTYPE_EXTENSION" "unat (f_data_size (fds ! j)) = pb_elemsize st (snd (tags ! j))"
    "0 \<le> int (pData (iter_at fds 0 j)) + sint (f_size_offset (fds ! j))" "pData (iter_at fds 0 j) = offsetof st (snd (tags ! j))"
    "pSize (iter_at fds 0 j) = In_struct (offsetof st (flag_member st (snd (tags ! j))))" if "j < length tags" for j
  proof -
    have "\<forall>i \<in> set [0..<length tags]. f_ltype (fds ! i) \<noteq> PB_LTYPE_EXTENSION \<and>
        unat (f_data_size (fds ! i)) = pb_elemsize st (snd (tags ! i)) \<and>
        0 \<le> int (pData (iter_at fds 0 i)) + sint (f_size_offset (fds ! i)) \<and> pData (iter_at fds 0 i) = offsetof st (snd (tags ! i)) \<and>
        pSize (iter_at fds 0 i) = In_struct (offsetof st (flag_member st (snd (tags ! i))))"
      using assms(1) unfolding describes_def list_all_iff Let_def by blast
    from bspec [OF this, of j] that show "f_ltype (fds ! j) \<noteq> PB_LTYPE_EXTENSION" "unat (f_data_size (fds ! j)) = pb_elemsize st (snd (tags ! j))"
      "0 \<le> int (pData (iter_at fds 0 j)) + sint (f_size_offset (fds ! j))" "pData (iter_at fds 0 j) = offsetof st (snd (tags ! j))"
      "pSize (iter_at fds 0 j) = In_struct (offsetof st (flag_member st (snd (tags ! j))))" by simp_all
  qed
  show "f_ltype (fds ! i) \<noteq> PB_LTYPE_EXTENSION" "unat (f_data_size (fds ! i)) = pb_elemsize st (snd (tags ! i))"
    using all(1,2) [OF assms(2)] by simp_all
  have "map f_tag (butlast fds) ! i = map fst tags ! i" by (simp add: tags)
  then show "f_tag (fds ! i) = fst (tags ! i)" using assms(2) n by (simp add: nth_butlast field_count_def)
  show "pData (iter_at fds dest i) = dest + offsetof st (snd (tags ! i))"
    using iter_pData [of fds dest i] all(4) [OF assms(2)] by simp
  have "pSize (iter_at fds dest i) = shift_loc dest (pSize (iter_at fds 0 i))"
    using all(3) assms(2) t by (intro iter_pSize) (simp_all add: terminated_def)
  then show "pSize (iter_at fds dest i) = In_struct (dest + offsetof st (flag_member st (snd (tags ! i))))"
    using all(5) [OF assms(2)] by (simp add: shift_loc_def)
qed

lemma describes_finds: "describes fds st tags \<Longrightarrow> finds_members fds st tags"
  unfolding finds_members_def
proof (intro allI)
  fix dest assume d: "describes fds st tags"
  then have t: "terminated fds" "distinct (map fst tags)" "0 < length tags" by (simp_all add: describes_def)
  have n: "field_count fds = length tags" by (rule describes_field(1) [OF d t(3)])
  let ?it0 = "iter_at fds dest 0"
  have find: "pb_field_iter_find ?it0 tag =
      (case find (\<lambda>j. fst (tags ! j) = tag) [0..<length tags] of Some j \<Rightarrow> Some (True, iter_at fds dest j) | None \<Rightarrow> Some (False, ?it0))" for tag
  proof -
    have "find (\<lambda>j. f_tag (fds ! j) = tag \<and> f_ltype (fds ! j) \<noteq> PB_LTYPE_EXTENSION) [0..<length tags] =
        find (\<lambda>j. fst (tags ! j) = tag) [0..<length tags]"
      using describes_field(2,3) [OF d] by (intro find_cong) auto
    then show ?thesis
      using iter_search_cyclic [OF t(1), of 0 "\<lambda>f. f_tag f = tag \<and> f_ltype f \<noteq> PB_LTYPE_EXTENSION" dest] t(3) n
      by (simp add: pb_field_iter_find_def cyclic_def)
  qed
  have "\<exists>it. pb_field_iter_find ?it0 tag = Some (True, it) \<and> unat (f_data_size (fds ! pos it)) = pb_elemsize st x \<and>
      pData it = dest + offsetof st x \<and> pSize it = In_struct (dest + offsetof st (flag_member st x))" if m: "(tag, x) \<in> set tags" for tag x
  proof -
    obtain i where i: "i < length tags" "tags ! i = (tag, x)" using m by (auto simp: in_set_conv_nth)
    have "fst (tags ! j) \<noteq> tag" if "j < i" for j
      using nth_eq_iff_index_eq [OF t(2), of j i] that i by simp
    with i have "find (\<lambda>j. fst (tags ! j) = tag) [0..<length tags] = Some i"
      unfolding find_Some_iff by (intro exI [of _ i]) auto
    then show ?thesis using find describes_field(4-6) [OF d i(1)] i(2) by simp
  qed
  moreover have "pb_field_iter_find ?it0 tag = Some (False, ?it0)" if "tag \<notin> fst ` set tags" for tag
  proof -
    have "find (\<lambda>j. fst (tags ! j) = tag) [0..<length tags] = None" using that by (auto simp: find_None_iff)
    then show ?thesis using find by simp
  qed
  moreover have "pb_field_iter_begin fds dest = Some (True, ?it0)" using iter_begin_at [OF t(1), of dest] n t(3) by simp
  ultimately show "\<exists>it0. pb_field_iter_begin fds dest = Some (True, it0) \<and>
     (\<forall>(tag, x) \<in> set tags. \<exists>it. pb_field_iter_find it0 tag = Some (True, it) \<and>
        unat (f_data_size (fds ! pos it)) = pb_elemsize st x \<and> pData it = dest + offsetof st x \<and>
        pSize it = In_struct (dest + offsetof st (flag_member st x))) \<and>
     (\<forall>tag. tag \<notin> fst ` set tags \<longrightarrow> pb_field_iter_find it0 tag = Some (False, it0))"
    by (intro exI [of _ ?it0] conjI ballI allI impI) (auto simp: case_prod_unfold)
qed

subsection \<open>The properties\<close>

text \<open>C30: \<open>pb_field_iter_find\<close>, from any field of a message, terminates; if the message has a
  field with the tag (extension fields apart) it returns true with the iterator exactly on such a
  field, its data pointers and required-field index included; otherwise it returns false with
  the iterator where it was.\<close>

theorem iter_find_correct:
  assumes "terminated fds" "i < field_count fds"
  shows "if \<exists>j < field_count fds. f_tag (fds ! j) = tag \<and> f_ltype (fds ! j) \<noteq> PB_LTYPE_EXTENSION
    then \<exists>j < field_count fds. f_tag (fds ! j) = tag \<and> f_ltype (fds ! j) \<noteq> PB_LTYPE_EXTENSION \<and>
           pb_field_iter_find (iter_at fds dest i) tag = Some (True, iter_at fds dest j)
    else pb_field_iter_find (iter_at fds dest i) tag = Some (False, iter_at fds dest i)"
proof -
  let ?p = "\<lambda>j. f_tag (fds ! j) = tag \<and> f_ltype (fds ! j) \<noteq> PB_LTYPE_EXTENSION"
  have s: "set (cyclic i (field_count fds)) = {..<field_count fds}"
    using assms(2) by (auto simp: cyclic_def)
  have e: "pb_field_iter_find (iter_at fds dest i) tag =
     (case find ?p (cyclic i (field_count fds)) of
       Some j \<Rightarrow> Some (True, iter_at fds dest j) | None \<Rightarrow> Some (False, iter_at fds dest i))"
    using iter_search_cyclic [OF assms, of "\<lambda>f. f_tag f = tag \<and> f_ltype f \<noteq> PB_LTYPE_EXTENSION" dest]
    by (simp add: pb_field_iter_find_def)
  show ?thesis
  proof (cases "find ?p (cyclic i (field_count fds))")
    case None
    then have "\<not> (\<exists>j < field_count fds. ?p j)" using s by (auto simp: find_None_iff)
    with None e show ?thesis by simp
  next
    case (Some j)
    then have "j < field_count fds" "?p j" using s by (auto simp: find_Some_iff dest: nth_mem)
    with Some e show ?thesis by auto
  qed
qed

lemma iter_find_correct_witness:
  "pb_field_iter_find (iter_at gdt_cct_LogResponse_fields 1000 1) 7 =
     Some (False, iter_at gdt_cct_LogResponse_fields 1000 1)"
proof -
  let ?t = gdt_cct_LogResponse_fields
  have n: "terminated ?t" "field_count ?t = 2"
    using describes_LogResponse
    by (simp_all add: describes_def field_count_def gdt_cct_LogResponse_fields_def)
  have "map f_tag ?t = [1, 3, 0]"
    by (simp add: gdt_cct_LogResponse_fields_def Let_def f_tag_PB_FIELD PB_LAST_FIELD_def)
  moreover have "length ?t = 3" by (simp add: gdt_cct_LogResponse_fields_def)
  ultimately have "f_tag (?t ! j) = [1, 3, 0] ! j" if "j < 2" for j
    using that by (metis less_SucI nth_map numeral_2_eq_2 numeral_3_eq_3)
  from this [of 0] this [of 1] have "f_tag (?t ! j) \<noteq> 7" if "j < 2" for j
    using that by (auto simp: less_2_cases_iff)
  then have "\<not> (\<exists>j < field_count ?t. f_tag (?t ! j) = 7 \<and> f_ltype (?t ! j) \<noteq> PB_LTYPE_EXTENSION)"
    unfolding n(2) by blast
  then show ?thesis using iter_find_correct [OF n(1), of 1 7 1000] n(2) by (simp only: if_False)
qed

text \<open>C31: the loop \<open>do { ... } while (pb_field_iter_next(&iter))\<close> runs its body once for each
  field, in the order of the table, with the iterator on that field, and stops at the first body
  that fails; it ends for every table.\<close>

theorem walk_all_fields:
  assumes "terminated fds" "0 < field_count fds"
  shows "do_while_next body (iter_at fds dest 0) s = each_field body fds dest [0..<field_count fds] s"
  by (rule do_while_next_all [OF assms])

lemma walk_all_fields_witness:
  "do_while_next (\<lambda>it n. Some (Some (), n + pData it)) (iter_at gdt_cct_BatchedLogRequest_fields 64 0) 0 =
     each_field (\<lambda>it n. Some (Some (), n + pData it)) gdt_cct_BatchedLogRequest_fields 64 [0..<1] 0"
proof -
  have "terminated gdt_cct_BatchedLogRequest_fields" "field_count gdt_cct_BatchedLogRequest_fields = 1"
    using describes_BatchedLogRequest
    by (simp_all add: describes_def field_count_def gdt_cct_BatchedLogRequest_fields_def)
  then show ?thesis 
    using walk_all_fields [of gdt_cct_BatchedLogRequest_fields "\<lambda>it n. Some (Some (), n + pData it)" 64 0]
    by simp
qed

text \<open>the number of required fields \<open>pb_decode_noinit\<close> computes after its loop by seeking to
  the end of the table is the number of required fields of the message type, at most 64, from
  whatever field the iterator stands on.\<close>

theorem required_count_correct:
  assumes "terminated fds" "i < field_count fds"
  shows "required_field_count (iter_at fds dest i) =
    Some (min (length (filter (\<lambda>f. f_htype f = PB_HTYPE_REQUIRED) (butlast fds))) 64)"
  using required_count_at [OF assms] by (simp add: is_required_def [abs_def])

lemma required_count_correct_witness:
  "required_field_count (iter_at [Pb_Field 1 0 0 0 4 0 Null_ptr, PB_LAST_FIELD] 8 0) = Some 1"
  by (subst required_count_correct)
    (simp_all add: terminated_def field_count_def PB_LAST_FIELD_def PB_HTYPE_def)


end
