(* ===== verification/Safe_Stream.thy ===== *)
theory Safe_Stream imports Varint begin

section \<open>Reading never leaves the input\<close>

text \<open>
  The contract of an input stream, as the decoders use it: every read returns, keeps the stream
  \<open>ok\<close> and moves it on by \<open>R\<close>; so do setting an error, cutting a substream off and closing it.
  From it follows that all readers of the wire format return and move the stream on, whatever
  the input is. Streams over a buffer, and streams whose callback keeps to the rules of
  \<open>pb_decode.h\<close>, meet the contract.
\<close>

locale safe_stream =
  fixes ok :: "istream \<Rightarrow> bool"
    and R :: "istream \<Rightarrow> istream \<Rightarrow> bool"
  assumes R_refl: "R s s"
    and R_trans: "R s t \<Longrightarrow> R t v \<Longrightarrow> R s v"
    and R_left: "R s t \<Longrightarrow> bytes_left t \<le> bytes_left s"
    and error_ok: "ok s \<Longrightarrow> ok (i_set_error s msg) \<and> R s (i_set_error s msg)"
    and byte_ok: "ok s \<Longrightarrow>
      safe (\<lambda>r t. ok t \<and> R s t \<and> (r \<noteq> None \<longrightarrow> bytes_left t < bytes_left s)) (pb_readbyte s)"
    and read_ok: "ok s \<Longrightarrow>
      safe (\<lambda>r t. ok t \<and> R s t \<and> (r \<noteq> None \<longrightarrow> bytes_left t + n = bytes_left s \<and>
                  (buf \<longrightarrow> length (the r) = n))) (pb_read s buf n)"
    and cut_ok: "ok s \<Longrightarrow> n \<le> bytes_left s \<Longrightarrow> ok (s\<lparr>bytes_left := n\<rparr>) \<and> R s (s\<lparr>bytes_left := n\<rparr>)"
    and close_ok: "ok s \<Longrightarrow> n \<le> bytes_left s \<Longrightarrow> R (s\<lparr>bytes_left := n\<rparr>) t \<Longrightarrow> ok t \<Longrightarrow>
      ok (s\<lparr>bytes_left := bytes_left s - n, i_state := i_state t, i_errmsg := i_errmsg t\<rparr>) \<and>
      R s (s\<lparr>bytes_left := bytes_left s - n, i_state := i_state t, i_errmsg := i_errmsg t\<rparr>)"
begin

definition moved :: "istream \<Rightarrow> 'a option \<Rightarrow> istream \<Rightarrow> bool" where
  "moved s r t \<longleftrightarrow> ok t \<and> R s t"

definition shrunk :: "istream \<Rightarrow> 'a option \<Rightarrow> istream \<Rightarrow> bool" where
  "shrunk s r t \<longleftrightarrow> ok t \<and> R s t \<and> (r \<noteq> None \<longrightarrow> bytes_left t < bytes_left s)"

lemma moved_refl: "ok s \<Longrightarrow> moved s r s"
  by (simp add: moved_def R_refl)

lemma shrunk_moved: "safe (shrunk s) r \<Longrightarrow> safe (moved s) r"
  by (erule safe_weaken) (simp add: moved_def shrunk_def)

lemma moved_then:
  assumes "safe (moved s) r" "\<And>a t. r = Some (Some a, t) \<Longrightarrow> ok t \<Longrightarrow> safe (moved t) (k a t)"
  shows "safe (moved s) (ok_then r k)"
proof -
  obtain v t where r: "r = Some (v, t)" and t: "moved s v t" using assms(1) by (rule safeE)
  show ?thesis
  proof (cases v)
    case None
    then show ?thesis using r t by (simp add: moved_def)
  next
    case (Some a)
    then have "safe (moved t) (k a t)" using assms(2) r t by (simp add: moved_def)
    then show ?thesis using r t Some by (auto simp: moved_def elim!: safeE intro: R_trans)
  qed
qed

lemma shrunk_then:
  assumes "safe (shrunk s) r" "\<And>a t. r = Some (Some a, t) \<Longrightarrow> ok t \<Longrightarrow> safe (moved t) (k a t)"
  shows "safe (shrunk s) (ok_then r k)"
proof -
  obtain v t where r: "r = Some (v, t)" and t: "shrunk s v t" using assms(1) by (rule safeE)
  show ?thesis
  proof (cases v)
    case None
    then show ?thesis using r t by (simp add: shrunk_def)
  next
    case (Some a)
    then have "safe (moved t) (k a t)" using assms(2) r t by (simp add: shrunk_def)
    then obtain w v' where k: "k a t = Some (w, v')" and m: "moved t w v'" by (rule safeE)
    then have "bytes_left v' \<le> bytes_left t" using R_left by (simp add: moved_def)
    then show ?thesis using r t Some k m by (auto simp: moved_def shrunk_def intro: R_trans)
  qed
qed

lemma moved_error: "ok s \<Longrightarrow> safe (moved s) (i_error s msg)"
  by (simp add: i_error_def moved_def error_ok)

lemma moved_ret: "ok s \<Longrightarrow> safe (moved s) (Some (Some v, s))"
  by (simp add: moved_def R_refl)

lemma byte_shrunk: "ok s \<Longrightarrow> safe (shrunk s) (pb_readbyte s)"
  using byte_ok [of s] by (simp add: shrunk_def [abs_def])

lemma byte_moved: "ok s \<Longrightarrow> safe (moved s) (pb_readbyte s)"
  by (rule shrunk_moved) (rule byte_shrunk)

lemma read_moved: "ok s \<Longrightarrow> safe (moved s) (pb_read s buf n)"
  by (rule safe_weaken, erule read_ok [of s n buf]) (auto simp: moved_def)

lemma read_shrunk: "ok s \<Longrightarrow> 0 < n \<Longrightarrow> safe (shrunk s) (pb_read s buf n)"
  by (rule safe_weaken, erule read_ok [of s n buf]) (auto simp: shrunk_def neq_Nil_conv)

subsection \<open>The readers\<close>

lemma varint32_loop_ok: "ok s \<Longrightarrow> safe (moved s) (varint32_loop s b r)"
proof (induction s b r rule: varint32_loop.induct)
  case (1 s b r)
  show ?case
    by (subst varint32_loop.simps)
      (rule moved_then [OF byte_moved [OF 1(2)]], simp add: Let_def moved_error moved_refl 1(1))
qed

lemma varint32_eof_ok:
  assumes "ok s"
  shows "\<exists>r e t. pb_decode_varint32_eof s eof = Some (r, e, t) \<and> shrunk s r t"
proof -
  obtain r t where r: "pb_readbyte s = Some (r, t)" and t: "shrunk s r t"
    using byte_shrunk [OF assms] by (rule safeE)
  show ?thesis
  proof (cases r)
    case None
    then show ?thesis using r t by (simp add: pb_decode_varint32_eof_def shrunk_def)
  next
    case (Some b)
    have okt: "ok t" using t by (simp add: shrunk_def)
    obtain v t' where l: "varint32_loop t 7 (ucast (b AND 0x7F)) = Some (v, t')" and m: "moved t v t'"
      using varint32_loop_ok [OF okt, of 7 "ucast (b AND 0x7F)"] by (rule safeE)
    have lt: "bytes_left t' < bytes_left s" "ok t'" "R s t'"
      using m t Some R_left [of t t'] R_trans [of s t t'] by (auto simp: moved_def shrunk_def)
    show ?thesis
      using r t Some l lt error_ok [OF lt(2), of "''varint overflow''"] R_trans [of s t']
      by (auto simp: pb_decode_varint32_eof_def shrunk_def split: option.splits)
  qed
qed

lemma varint32_shrunk: "ok s \<Longrightarrow> safe (shrunk s) (pb_decode_varint32 s)"
  using varint32_eof_ok [of s False] by (auto simp: pb_decode_varint32_def)

lemma varint32_ok: "ok s \<Longrightarrow> safe (moved s) (pb_decode_varint32 s)"
  by (rule shrunk_moved) (rule varint32_shrunk)

lemma varint_loop_ok: "ok s \<Longrightarrow> safe (moved s) (varint_loop s b r)"
proof (induction s b r rule: varint_loop.induct)
  case (1 s b r)
  show ?case
  proof (cases "b \<ge> 64")
    case True
    then show ?thesis by (subst varint_loop.simps) (simp add: moved_error [OF 1(2)])
  next
    case False
    then show ?thesis
      by (subst varint_loop.simps, simp only: if_False)
        (rule moved_then [OF byte_moved [OF 1(2)]], simp add: Let_def moved_refl 1(1) False)
  qed
qed

lemma varint_ok: "ok s \<Longrightarrow> safe (moved s) (pb_decode_varint s)"
  by (simp add: pb_decode_varint_def varint_loop_ok)

lemma svarint_ok: "ok s \<Longrightarrow> safe (moved s) (pb_decode_svarint s)"
  unfolding pb_decode_svarint_def by (erule moved_then [OF varint_ok]) (erule moved_ret)

lemma fixed32_ok: "ok s \<Longrightarrow> safe (moved s) (pb_decode_fixed32 s)"
  unfolding pb_decode_fixed32_def by (erule moved_then [OF read_moved]) (erule moved_ret)

lemma fixed64_ok: "ok s \<Longrightarrow> safe (moved s) (pb_decode_fixed64 s)"
  unfolding pb_decode_fixed64_def by (erule moved_then [OF read_moved]) (erule moved_ret)

lemma bool_ok: "ok s \<Longrightarrow> safe (moved s) (pb_decode_bool s)"
  unfolding pb_decode_bool_def by (erule moved_then [OF varint32_ok]) (erule moved_ret)

lemma skip_varint_ok: "ok s \<Longrightarrow> safe (moved s) (pb_skip_varint s)"
proof (induction s rule: pb_skip_varint.induct)
  case (1 s)
  show ?case
    by (subst pb_skip_varint.simps)
      (rule moved_then [OF read_moved [OF 1(2)]], simp add: moved_refl 1(1))
qed

lemma discard_ok: "safe (moved s) r \<Longrightarrow> safe (moved s) (discard r)"
  unfolding discard_def by (erule moved_then) (rule moved_ret)

lemma skip_field_ok: "ok s \<Longrightarrow> safe (moved s) (pb_skip_field s wt)"
  unfolding pb_skip_field_def pb_skip_string_def
  by (auto intro!: skip_varint_ok discard_ok read_moved moved_error moved_then [OF varint32_ok])

lemma decode_tag_ok:
  assumes "ok s"
  shows "\<exists>r e t. pb_decode_tag s = Some (r, e, t) \<and> shrunk s r t \<and>
    (\<forall>wt tag. r = Some (wt, tag) \<longrightarrow> tag < 2 ^ 29)"
proof -
  obtain r e t where r: "pb_decode_varint32_eof s False = Some (r, e, t)" and t: "shrunk s r t"
    using varint32_eof_ok [OF assms] by blast
  have "drop_bit 3 v < (2 ^ 29 :: u32)" for v :: u32
  proof -
    have "unat v < 2 ^ 32" by simp
    then have "unat v div 8 < 2 ^ 29" by (simp add: less_mult_imp_div_less)
    then show ?thesis by (simp add: word_less_nat_alt unat_div drop_bit_eq_div)
  qed
  then show ?thesis using r t
    by (cases r) (auto simp: pb_decode_tag_def shrunk_def)
qed

lemma raw_varint_loop_ok: "ok s \<Longrightarrow> safe (moved s) (raw_varint_loop s n acc)"
proof (induction s n acc rule: raw_varint_loop.induct)
  case (1 s n acc)
  show ?case
  proof (cases "length acc + 1 > n")
    case True
    then show ?thesis by (subst raw_varint_loop.simps) (simp add: moved_refl 1(2))
  next
    case False
    then show ?thesis
      by (subst raw_varint_loop.simps, simp only: if_False)
        (rule moved_then [OF read_moved [OF 1(2)]], use False in \<open>simp add: moved_refl 1(1)\<close>)
  qed
qed

lemma raw_value_ok: "ok s \<Longrightarrow> safe (moved s) (read_raw_value s wt n)"
  unfolding read_raw_value_def by (auto intro!: raw_varint_loop_ok read_moved moved_error)

subsection \<open>Substreams\<close>

text \<open>A substream and its parent, cut from \<open>s\<close> after its length was read: they share the rest of
  the input, and the substream has \<open>n\<close> bytes of it.\<close>

definition substream_of :: "istream \<Rightarrow> istream \<Rightarrow> istream \<Rightarrow> bool" where
  "substream_of s sub par \<longleftrightarrow>
     (\<exists>b n. ok b \<and> R s b \<and> bytes_left b < bytes_left s \<and> n \<le> bytes_left b \<and>
            sub = b\<lparr>bytes_left := n\<rparr> \<and> par = b\<lparr>bytes_left := bytes_left b - n\<rparr>)"

lemma substream_ok:
  assumes "substream_of s sub par"
  shows "ok sub" "ok par" "R s par" "bytes_left sub < bytes_left s" "bytes_left par < bytes_left s"
proof -
  obtain b n where b: "ok b" "R s b" "bytes_left b < bytes_left s" "n \<le> bytes_left b"
    "sub = b\<lparr>bytes_left := n\<rparr>" "par = b\<lparr>bytes_left := bytes_left b - n\<rparr>"
    using assms unfolding substream_of_def by blast
  then show "ok sub" "ok par" "bytes_left sub < bytes_left s" "bytes_left par < bytes_left s"
    using cut_ok [OF b(1)] by auto
  show "R s par" using cut_ok [OF b(1), of "bytes_left b - n"] b R_trans [of s b] by simp
qed

lemma make_substream_ok:
  assumes "ok s"
  shows "safe (\<lambda>r t. moved s r t \<and> (\<forall>sub. r = Some sub \<longrightarrow> substream_of s sub t))
    (pb_make_string_substream s)"
proof -
  obtain r t where r: "pb_decode_varint32 s = Some (r, t)" and t: "shrunk s r t"
    using varint32_shrunk [OF assms] by (rule safeE)
  show ?thesis
  proof (cases r)
    case None
    then show ?thesis using r t by (simp add: pb_make_string_substream_def moved_def shrunk_def)
  next
    case (Some n)
    have okt: "ok t" "R s t" "bytes_left t < bytes_left s" using t Some by (simp_all add: shrunk_def)
    show ?thesis
    proof (cases "bytes_left t < unat n")
      case True
      then show ?thesis using r Some okt error_ok [OF okt(1)] R_trans [OF okt(2)]
        by (auto simp: pb_make_string_substream_def i_error_def moved_def)
    next
      case False
      have "substream_of s (t\<lparr>bytes_left := unat n\<rparr>) (t\<lparr>bytes_left := bytes_left t - unat n\<rparr>)"
        using False okt unfolding substream_of_def by (intro exI [of _ t] exI [of _ "unat n"]) simp
      then show ?thesis using r Some False substream_ok [of s "t\<lparr>bytes_left := unat n\<rparr>"]
        by (auto simp: pb_make_string_substream_def moved_def)
    qed
  qed
qed

lemma close_substream_ok:
  assumes "substream_of s sub par" "R sub sub'" "ok sub'"
  shows "safe (moved s) (pb_close_string_substream par sub')"
proof -
  obtain b n where b: "ok b" "R s b" "bytes_left b < bytes_left s" "n \<le> bytes_left b"
    "sub = b\<lparr>bytes_left := n\<rparr>" "par = b\<lparr>bytes_left := bytes_left b - n\<rparr>"
    using assms(1) unfolding substream_of_def by blast
  obtain r t where rd: "(if bytes_left sub' \<noteq> 0 then pb_read sub' False (bytes_left sub')
      else Some (Some [], sub')) = Some (r, t)" and t: "moved sub' r t"
  proof (rule safeE)
    show "safe (moved sub') (if bytes_left sub' \<noteq> 0 then pb_read sub' False (bytes_left sub')
        else Some (Some [], sub'))"
      using read_moved [OF assms(3), of False "bytes_left sub'"]
      by (simp add: moved_refl [OF assms(3)])
  qed
  have "R sub t" "ok t" using t assms(2) R_trans [of sub sub' t] by (simp_all add: moved_def)
  then have "ok (par\<lparr>i_state := i_state t, i_errmsg := i_errmsg t\<rparr>) \<and>
      R b (par\<lparr>i_state := i_state t, i_errmsg := i_errmsg t\<rparr>)"
    using close_ok [OF b(1,4), of t] b by simp
  moreover note substream_ok [OF assms(1)]
  ultimately show ?thesis using rd b(2) R_trans [of s b]
    unfolding pb_close_string_substream_def rd
    by (cases r) (auto simp: moved_def)
qed

end

subsection \<open>Streams over a buffer\<close>

text \<open>\<open>within s t\<close>: the stream has moved on in the same data and ends no later.\<close>

definition within :: "istream \<Rightarrow> istream \<Rightarrow> bool" where
  "within s t \<longleftrightarrow> (\<exists>k. i_state t = drop k (i_state s) \<and> k + bytes_left t \<le> bytes_left s)"

lemma within_trans: "within s t \<Longrightarrow> within t v \<Longrightarrow> within s v"
  unfolding within_def by (elim exE conjE) (rule exI, auto simp: add.commute)

lemma within_advance: "n \<le> bytes_left s \<Longrightarrow> within s (advance s n)"
  unfolding within_def advance_def by (intro exI [of _ n]) simp

lemma error_step: "buffered s \<Longrightarrow> buffered (i_set_error s msg) \<and> within s (i_set_error s msg)"
  by (auto simp: buffered_def within_def i_set_error_def intro: exI [of _ 0])

interpretation buffer: safe_stream buffered within
proof
  fix s t v :: istream and n :: nat and buf :: bool and msg :: string
  show "within s s" by (auto simp: within_def intro: exI [of _ 0])
  show "within s t \<Longrightarrow> within t v \<Longrightarrow> within s v" by (rule within_trans)
  show "within s t \<Longrightarrow> bytes_left t \<le> bytes_left s" by (auto simp: within_def)
  show "buffered s \<Longrightarrow> buffered (i_set_error s msg) \<and> within s (i_set_error s msg)"
    by (rule error_step)
  show "buffered s \<Longrightarrow> safe (\<lambda>r t. buffered t \<and> within s t \<and>
      (r \<noteq> None \<longrightarrow> bytes_left t < bytes_left s)) (pb_readbyte s)"
  proof -
    assume b: "buffered s"
    show ?thesis
    proof (cases "pending s")
      case Nil
      then show ?thesis using b error_step [OF b] by (simp add: readbyte_buffered i_error_def)
    next
      case (Cons c cs)
      then have "1 \<le> bytes_left s" using length_pending [OF b] by simp
      then show ?thesis using b Cons within_advance [of 1 s] by (simp add: readbyte_buffered)
    qed
  qed
  show "buffered s \<Longrightarrow> safe (\<lambda>r t. buffered t \<and> within s t \<and>
      (r \<noteq> None \<longrightarrow> bytes_left t + n = bytes_left s \<and> (buf \<longrightarrow> length (the r) = n))) (pb_read s buf n)"
    using error_step [of s] within_advance [of n s] by (auto simp: read_buffered i_error_def)
  show "buffered s \<Longrightarrow> n \<le> bytes_left s \<Longrightarrow>
      buffered (s\<lparr>bytes_left := n\<rparr>) \<and> within s (s\<lparr>bytes_left := n\<rparr>)"
    by (auto simp: buffered_def within_def intro: exI [of _ 0])
  show "buffered s \<Longrightarrow> n \<le> bytes_left s \<Longrightarrow> within (s\<lparr>bytes_left := n\<rparr>) t \<Longrightarrow> buffered t \<Longrightarrow>
      buffered (s\<lparr>bytes_left := bytes_left s - n, i_state := i_state t, i_errmsg := i_errmsg t\<rparr>) \<and>
      within s (s\<lparr>bytes_left := bytes_left s - n, i_state := i_state t, i_errmsg := i_errmsg t\<rparr>)"
    by (auto simp: buffered_def within_def)
qed

subsection \<open>Streams over a user callback\<close>

text \<open>A callback that keeps to the rules: when it succeeds it has delivered what was asked for.\<close>

definition well_behaved :: "istream \<Rightarrow> bool" where
  "well_behaved s \<longleftrightarrow> (case i_callback s of Buf_read \<Rightarrow> False
     | User_read f \<Rightarrow> \<forall>st n bs st'. f st n = (True, bs, st') \<longrightarrow> length bs = n)"

definition no_longer :: "istream \<Rightarrow> istream \<Rightarrow> bool" where
  "no_longer s t \<longleftrightarrow> bytes_left t \<le> bytes_left s"

lemma user_call:
  assumes "well_behaved s"
  shows "safe (\<lambda>r t. well_behaved t \<and> bytes_left t = bytes_left s \<and> (r \<noteq> None \<longrightarrow> length (the r) = n)) (i_call s n)"
  using assms by (auto simp: well_behaved_def i_call_def split: icallback.splits prod.splits)

lemma user_error: "well_behaved s \<Longrightarrow> well_behaved (i_set_error s msg)"
  by (simp add: well_behaved_def i_set_error_def)

lemma user_read_checked:
  assumes "well_behaved s"
  shows "safe (\<lambda>r t. well_behaved t \<and> no_longer s t \<and> (r \<noteq> None \<longrightarrow> bytes_left t + n = bytes_left s \<and>
     length (the r) = n)) (pb_read_checked s n)"
proof -
  obtain r t where c: "i_call s n = Some (r, t)" "well_behaved t" "bytes_left t = bytes_left s"
    "r \<noteq> None \<longrightarrow> length (the r) = n" using user_call [OF assms, of n] by (auto elim: safeE)
  then show ?thesis using assms user_error [OF assms] user_error [OF c(2)]
    by (cases r)
      (auto simp: pb_read_checked_def i_error_def no_longer_def well_behaved_def i_set_error_def)
qed

lemma user_read_skip:
  "well_behaved s \<Longrightarrow> safe (\<lambda>r t. well_behaved t \<and> no_longer s t \<and>
     (r \<noteq> None \<longrightarrow> bytes_left t + n = bytes_left s)) (pb_read_skip s n)"
proof (induction s n rule: pb_read_skip.induct)
  case (1 s n)
  show ?case
  proof (cases "n > 16")
    case False
    then show ?thesis using user_read_checked [OF 1(2), of n]
      by (subst pb_read_skip.simps) (auto elim!: safe_weaken)
  next
    case True
    obtain r t where c: "pb_read_checked s 16 = Some (r, t)" "well_behaved t" "no_longer s t"
      "r \<noteq> None \<longrightarrow> bytes_left t + 16 = bytes_left s"
      using user_read_checked [OF 1(2), of 16] by (auto elim: safeE)
    show ?thesis
    proof (cases r)
      case None
      then show ?thesis using True c by (subst pb_read_skip.simps) simp
    next
      case (Some x)
      have "safe (\<lambda>r v. well_behaved v \<and> no_longer t v \<and>
         (r \<noteq> None \<longrightarrow> bytes_left v + (n - 16) = bytes_left t)) (pb_read_skip t (n - 16))"
        by (rule 1(1) [OF True]) (use c Some in auto)
      then show ?thesis using True c Some
        by (subst pb_read_skip.simps) (auto simp: no_longer_def elim!: safe_weaken)
    qed
  qed
qed

interpretation user: safe_stream well_behaved no_longer
proof
  fix s t v :: istream and n :: nat and buf :: bool and msg :: string
  show "no_longer s s" by (simp add: no_longer_def)
  show "no_longer s t \<Longrightarrow> no_longer t v \<Longrightarrow> no_longer s v" by (simp add: no_longer_def)
  show "no_longer s t \<Longrightarrow> bytes_left t \<le> bytes_left s" by (simp add: no_longer_def)
  show "well_behaved s \<Longrightarrow> well_behaved (i_set_error s msg) \<and> no_longer s (i_set_error s msg)"
    using user_error [of s msg] by (simp add: no_longer_def i_set_error_def)
  show "well_behaved s \<Longrightarrow> safe (\<lambda>r t. well_behaved t \<and> no_longer s t \<and>
      (r \<noteq> None \<longrightarrow> bytes_left t < bytes_left s)) (pb_readbyte s)"
  proof -
    assume w: "well_behaved s"
    obtain r t where c: "i_call s 1 = Some (r, t)" "well_behaved t" "bytes_left t = bytes_left s"
      using user_call [OF w, of 1] by (auto elim: safeE)
    then show ?thesis using w user_error [OF w] user_error [OF c(2)]
      by (cases r) (auto simp: pb_readbyte_def i_error_def no_longer_def well_behaved_def i_set_error_def)
  qed
  show "well_behaved s \<Longrightarrow> safe (\<lambda>r t. well_behaved t \<and> no_longer s t \<and>
      (r \<noteq> None \<longrightarrow> bytes_left t + n = bytes_left s \<and> (buf \<longrightarrow> length (the r) = n))) (pb_read s buf n)"
    using user_read_checked [of s n] user_read_skip [of s n]
    by (auto simp: pb_read_def no_longer_def elim!: safe_weaken)
  show "well_behaved s \<Longrightarrow> n \<le> bytes_left s \<Longrightarrow>
      well_behaved (s\<lparr>bytes_left := n\<rparr>) \<and> no_longer s (s\<lparr>bytes_left := n\<rparr>)"
    by (simp add: well_behaved_def no_longer_def)
  show "well_behaved s \<Longrightarrow> n \<le> bytes_left s \<Longrightarrow> no_longer (s\<lparr>bytes_left := n\<rparr>) t \<Longrightarrow> well_behaved t \<Longrightarrow>
      well_behaved (s\<lparr>bytes_left := bytes_left s - n, i_state := i_state t, i_errmsg := i_errmsg t\<rparr>) \<and>
      no_longer s (s\<lparr>bytes_left := bytes_left s - n, i_state := i_state t, i_errmsg := i_errmsg t\<rparr>)"
    by (simp add: well_behaved_def no_longer_def)
qed

end
