(* ===== verification/Static_Messages.thy ===== *)
theory Static_Messages imports Field_Iter_Theorems Safe_Stream begin

section \<open>Statically allocated messages\<close>

text \<open>
  \<open>fits d fds n\<close>: the descriptor array \<open>fds\<close> describes a structure of \<open>n\<close> bytes whose fields are
  all statically allocated, with the members inside the structure and submessages nested less
  than \<open>d\<close> deep. For such messages the walks that set defaults and release touch only the
  structure and always return.
\<close>

definition slot_size :: "pb_field \<Rightarrow> nat" where
  "slot_size f =
     (if PB_HTYPE (f_type f) = PB_HTYPE_REPEATED
      then unat (f_data_size f) * unat (f_array_size f) else unat (f_data_size f))"

definition value_fits :: "(pb_field list \<Rightarrow> nat \<Rightarrow> bool) \<Rightarrow> pb_field \<Rightarrow> bool" where
  "value_fits sub f \<longleftrightarrow>
     (let lt = PB_LTYPE (f_type f); sz = unat (f_data_size f) in
      lt \<le> 0x0A \<and> lt \<noteq> PB_LTYPE_EXTENSION \<and>
      (lt = PB_LTYPE_BOOL \<longrightarrow> 1 \<le> sz) \<and> (lt = PB_LTYPE_FIXED32 \<longrightarrow> 4 \<le> sz) \<and>
      (lt = PB_LTYPE_FIXED64 \<longrightarrow> 8 \<le> sz) \<and>
      (case f_ptr f of
         Null_ptr \<Rightarrow> lt \<noteq> PB_LTYPE_SUBMESSAGE
       | Default_value bs \<Rightarrow> lt \<noteq> PB_LTYPE_SUBMESSAGE \<and> sz \<le> length bs
       | Submsg_fields fds \<Rightarrow> lt = PB_LTYPE_SUBMESSAGE \<and> sub fds sz))"

definition size_fits :: "nat \<Rightarrow> pb_field \<Rightarrow> pb_field_iter \<Rightarrow> bool" where
  "size_fits n f it \<longleftrightarrow>
     (case pSize it of
        Local_count \<Rightarrow> False
      | In_struct a \<Rightarrow>
          (if PB_HTYPE (f_type f) = PB_HTYPE_OPTIONAL then a = pData it \<or> a + 1 \<le> n
           else if PB_HTYPE (f_type f) = PB_HTYPE_REQUIRED then True
           else a + 4 \<le> n))"

definition static_message :: "(pb_field list \<Rightarrow> nat \<Rightarrow> bool) \<Rightarrow> pb_field list \<Rightarrow> nat \<Rightarrow> bool" where
  "static_message sub fds n \<longleftrightarrow>
     terminated fds \<and> 0 < field_count fds \<and>
     list_all (\<lambda>i. let f = fds ! i; it = iter_at fds 0 i in
        PB_ATYPE (f_type f) = PB_ATYPE_STATIC \<and> value_fits sub f \<and>
        pData it + slot_size f \<le> n \<and> slot_size f < 2 ^ 32 \<and>
        0 \<le> int (pData it) + sint (f_size_offset f) \<and> size_fits n f it) [0..<field_count fds]"

primrec fits :: "nat \<Rightarrow> pb_field list \<Rightarrow> nat \<Rightarrow> bool" where
  "fits 0 fds n = False"
| "fits (Suc d) fds n = static_message (fits d) fds n"

lemma static_messageD:
  assumes "static_message sub fds n"
  shows "terminated fds" "0 < field_count fds"
    and "i < field_count fds \<Longrightarrow> PB_ATYPE (f_type (fds ! i)) = PB_ATYPE_STATIC"
    and "i < field_count fds \<Longrightarrow> value_fits sub (fds ! i)"
    and "i < field_count fds \<Longrightarrow> pData (iter_at fds 0 i) + slot_size (fds ! i) \<le> n"
    and "i < field_count fds \<Longrightarrow> slot_size (fds ! i) < 2 ^ 32"
    and "i < field_count fds \<Longrightarrow> 0 \<le> int (pData (iter_at fds 0 i)) + sint (f_size_offset (fds ! i))"
    and "i < field_count fds \<Longrightarrow> size_fits n (fds ! i) (iter_at fds 0 i)"
  using assms by (auto simp: static_message_def list_all_iff Let_def)

lemma value_fits_mono: "(\<And>fds n. sub fds n \<Longrightarrow> sub' fds n) \<Longrightarrow> value_fits sub f \<Longrightarrow> value_fits sub' f"
  by (auto simp: value_fits_def Let_def split: pb_ptr.splits)

lemma static_message_mono:
  "(\<And>fds n. sub fds n \<Longrightarrow> sub' fds n) \<Longrightarrow> static_message sub fds n \<Longrightarrow> static_message sub' fds n"
  by (auto simp: static_message_def list_all_iff Let_def intro: value_fits_mono)

lemma fits_Suc: "fits d fds n \<Longrightarrow> fits (Suc d) fds n"
proof (induction d arbitrary: fds n)
  case (Suc d)
  then have "static_message (fits d) fds n" by simp
  then have "static_message (fits (Suc d)) fds n"
    using static_message_mono [of "fits d" "fits (Suc d)" fds n] Suc.IH by blast
  then show ?case by simp
qed simp

subsection \<open>Positions relative to the structure\<close>

lemma static_pSize:
  assumes "static_message sub fds n" "i < field_count fds"
  obtains a where "pSize (iter_at fds dest i) = In_struct (dest + a)"
    and "pSize (iter_at fds 0 i) = In_struct a"
proof -
  have "fds \<noteq> []" using static_messageD(1) [OF assms(1)] by (simp add: terminated_def)
  then have "pSize (iter_at fds dest i) = shift_loc dest (pSize (iter_at fds 0 i))"
    using static_messageD(7) [OF assms(1)] assms(2) by (intro iter_pSize) auto
  moreover have "size_fits n (fds ! i) (iter_at fds 0 i)" using static_messageD(8) [OF assms] .
  ultimately show ?thesis using that
    by (auto simp: size_fits_def shift_loc_def split: size_loc.splits)
qed

subsection \<open>Stores inside a region\<close>

lemma store_inside:
  assumes "mapped m a n" "a \<le> x" "x + length bs \<le> a + n"
  shows "\<exists>m'. store_bytes m x bs = Some m' \<and> frame m m' a n"
proof -
  have "mapped m x (length bs)" using assms by (rule mapped_sub)
  then obtain m' where "store_bytes m x bs = Some m'" using store_bytes_ok by blast
  then show ?thesis using frame_mono [OF store_bytes_frame assms(2,3)] by blast
qed

lemma load_inside:
  assumes "mapped m a n" "a \<le> x" "x + k \<le> a + n"
  shows "\<exists>bs. load_bytes m x k = Some bs \<and> length bs = k"
  using load_bytes_mapped [OF mapped_sub [OF assms]] .

lemma store_u8_inside: "mapped m a n \<Longrightarrow> a \<le> x \<Longrightarrow> x + 1 \<le> a + n \<Longrightarrow> \<exists>m'. store_u8 m x v = Some m' \<and> frame m m' a n"
  unfolding store_u8_def by (rule store_inside) simp_all

lemma store_u32_inside: "mapped m a n \<Longrightarrow> a \<le> x \<Longrightarrow> x + 4 \<le> a + n \<Longrightarrow> \<exists>m'. store_u32 m x v = Some m' \<and> frame m m' a n"
  unfolding store_u32_def by (rule store_inside) simp_all

lemma load_u32_inside: "mapped m a n \<Longrightarrow> a \<le> x \<Longrightarrow> x + 4 \<le> a + n \<Longrightarrow> \<exists>v. load_u32 m x = Some v"
  using load_inside [of m a n x 4] by (auto simp: load_u32_def)

lemma memset0_inside: "mapped m a n \<Longrightarrow> a \<le> x \<Longrightarrow> x + k \<le> a + n \<Longrightarrow> \<exists>m'. memset0 m x k = Some m' \<and> frame m m' a n"
  unfolding memset0_def by (rule store_inside) simp_all


subsection \<open>Defaults and release\<close>

lemma for_each_field_ok:
  assumes "terminated fds" "0 < field_count fds" "mapped m a n"
    and body: "\<And>i m. i < field_count fds \<Longrightarrow> mapped m a n \<Longrightarrow>
      \<exists>m'. body (iter_at fds dest i) m = Some m' \<and> frame m m' a n"
  shows "\<exists>m'. for_each_field body fds dest m = Some m' \<and> frame m m' a n"
proof -
  let ?b = "\<lambda>it m. map_option (\<lambda>m'. (Some (), m')) (body it m)"
  have "\<exists>m'. each_field ?b fds dest is m = Some (Some (), m') \<and> frame m m' a n"
    if "\<forall>i \<in> set is. i < field_count fds" "mapped m a n" for "is" m
    using that
  proof (induction "is" arbitrary: m)
    case (Cons i "is")
    then obtain m1 where m1: "body (iter_at fds dest i) m = Some m1" "frame m m1 a n"
      using body by (meson list.set_intros(1))
    obtain m2 where "each_field ?b fds dest is m1 = Some (Some (), m2)" "frame m1 m2 a n"
      using Cons.IH [of m1] Cons.prems m1(2) by auto
    with m1 show ?case using frame_trans [OF m1(2)] by auto
  qed simp
  from this [of "[0..<field_count fds]" m] show ?thesis using assms(1-3)
    by (auto simp: for_each_field_def iter_begin_at do_while_next_all)
qed

lemma default_field_ok:
  assumes "static_message (fits d) fds n" "i < field_count fds" "mapped m dest n"
    and sub: "\<And>fds k dest m. fits d fds k \<Longrightarrow> mapped m dest k \<Longrightarrow>
      \<exists>m'. for_each_field (pb_field_set_to_default d u) fds dest m = Some m' \<and> frame m m' dest k"
  shows "\<exists>m'. pb_field_set_to_default (Suc d) u (iter_at fds dest i) m = Some m' \<and> frame m m' dest n"
proof -
  let ?it = "iter_at fds dest i" and ?f = "fds ! i"
  note D = static_messageD [OF assms(1)]
  have f: "field_at fds i = Some ?f" using field_at_terminated [OF D(1)] assms(2) by simp
  have at: "PB_ATYPE (f_type ?f) = PB_ATYPE_STATIC" and v: "value_fits (fits d) ?f"
    using D assms(2) by simp_all
  have lt: "PB_LTYPE (f_type ?f) \<noteq> PB_LTYPE_EXTENSION" using v by (simp add: value_fits_def Let_def)
  have p: "pData ?it = dest + pData (iter_at fds 0 i)" by (rule iter_pData)
  obtain a where a: "pSize ?it = In_struct (dest + a)" "pSize (iter_at fds 0 i) = In_struct a"
    by (rule static_pSize [OF assms(1,2)])
  have sf: "size_fits n ?f (iter_at fds 0 i)" and slot: "pData (iter_at fds 0 i) + slot_size ?f \<le> n"
    using D assms(2) by simp_all
  have data: "\<exists>m'. (if PB_LTYPE (f_type ?f) = PB_LTYPE_SUBMESSAGE
            then (case f_ptr ?f of
                    Submsg_fields fds \<Rightarrow> for_each_field (pb_field_set_to_default d u) fds (pData ?it) m1
                  | _ \<Rightarrow> None)
            else (case f_ptr ?f of
                    Default_value bs \<Rightarrow>
                      if length bs < unat (f_data_size ?f) then None
                      else store_bytes m1 (pData ?it) (take (unat (f_data_size ?f)) bs)
                  | Submsg_fields _ \<Rightarrow> None
                  | Null_ptr \<Rightarrow> memset0 m1 (pData ?it) (unat (f_data_size ?f)))) = Some m' \<and> frame m1 m' dest n"
    if m1: "mapped m1 dest n" and nr: "PB_HTYPE (f_type ?f) \<noteq> PB_HTYPE_REPEATED" for m1
  proof -
    have r: "dest \<le> pData ?it" "pData ?it + unat (f_data_size ?f) \<le> dest + n"
      using slot nr p by (simp_all add: slot_size_def)
    show ?thesis
    proof (cases "f_ptr ?f")
      case Null_ptr
      then show ?thesis using v memset0_inside [OF m1 r] by (simp add: value_fits_def Let_def)
    next
      case (Submsg_fields sfds)
      then have s: "fits d sfds (unat (f_data_size ?f))" "PB_LTYPE (f_type ?f) = PB_LTYPE_SUBMESSAGE"
        using v by (simp_all add: value_fits_def Let_def)
      have "mapped m1 (pData ?it) (unat (f_data_size ?f))" by (rule mapped_sub [OF m1 r])
      from sub [OF s(1) this] show ?thesis using Submsg_fields s(2) frame_mono [OF _ r] by auto
    next
      case (Default_value bs)
      then have "unat (f_data_size ?f) \<le> length bs" "PB_LTYPE (f_type ?f) \<noteq> PB_LTYPE_SUBMESSAGE"
        using v by (simp_all add: value_fits_def Let_def)
      then show ?thesis using Default_value store_inside [OF m1 r(1), of "take (unat (f_data_size ?f)) bs"] r(2)
        by simp
    qed
  qed
  consider (req) "PB_HTYPE (f_type ?f) = PB_HTYPE_REQUIRED" | (opt) "PB_HTYPE (f_type ?f) = PB_HTYPE_OPTIONAL"
    | (rep) "PB_HTYPE (f_type ?f) = PB_HTYPE_REPEATED" | (one) "PB_HTYPE (f_type ?f) = PB_HTYPE_ONEOF"
    using PB_HTYPE_cases by blast
  then show ?thesis
  proof cases
    case req
    then show ?thesis using f at lt data [OF assms(3)] by (simp add: Let_def)
  next
    case opt
    show ?thesis
    proof (cases "pSize ?it = In_struct (pData ?it)")
      case True
      then show ?thesis using opt f at lt data [OF assms(3)] by (simp add: Let_def)
    next
      case False
      then have "a + 1 \<le> n" using sf opt a p by (auto simp: size_fits_def)
      then obtain m1 where m1: "store_u8 m (dest + a) 0 = Some m1" "frame m m1 dest n"
        using store_u8_inside [OF assms(3), of "dest + a" 0] by auto
      then have "mapped m1 dest n" using assms(3) by simp
      from data [OF this] show ?thesis using False opt f at lt m1 a frame_trans [OF m1(2)]
        by (auto simp: Let_def struct_addr_def)
    qed
  next
    case rep
    then have "a + 4 \<le> n" using sf a by (auto simp: size_fits_def)
    then obtain m1 where "store_u32 m (dest + a) 0 = Some m1" "frame m m1 dest n"
      using store_u32_inside [OF assms(3), of "dest + a" 0] by auto
    then show ?thesis using rep f at lt a by (simp add: Let_def struct_addr_def)
  next
    case one
    then have "a + 4 \<le> n" using sf a by (auto simp: size_fits_def)
    then obtain m1 where "store_u32 m (dest + a) 0 = Some m1" "frame m m1 dest n"
      using store_u32_inside [OF assms(3), of "dest + a" 0] by auto
    then show ?thesis using one f at lt a by (simp add: Let_def struct_addr_def)
  qed
qed

lemma defaults_each:
  "fits d fds n \<Longrightarrow> mapped m dest n \<Longrightarrow>
     \<exists>m'. for_each_field (pb_field_set_to_default d u) fds dest m = Some m' \<and> frame m m' dest n"
proof (induction d arbitrary: fds n dest m)
  case (Suc d)
  then have s: "static_message (fits d) fds n" by simp
  show ?case
    by (rule for_each_field_ok [OF static_messageD(1,2) [OF s] Suc.prems(2)])
      (rule default_field_ok [OF s _ _ Suc.IH])
qed simp

lemma defaults_ok:
  "fits d fds n \<Longrightarrow> mapped m dest n \<Longrightarrow>
     \<exists>m'. pb_message_set_to_defaults d u fds dest m = Some m' \<and> frame m m' dest n"
  unfolding pb_message_set_to_defaults_def by (rule defaults_each)


lemma each_field_same:
  assumes "\<And>i. i \<in> set is \<Longrightarrow> body (iter_at fds dest i) m = Some m"
  shows "each_field (\<lambda>it m. map_option (\<lambda>m'. (Some (), m')) (body it m)) fds dest is m = Some (Some (), m)"
  using assms by (induction "is") auto

lemma for_each_field_same:
  assumes "terminated fds" "0 < field_count fds"
    and "\<And>i. i < field_count fds \<Longrightarrow> body (iter_at fds dest i) m = Some m"
  shows "for_each_field body fds dest m = Some m"
proof -
  have "each_field (\<lambda>it m. map_option (\<lambda>m'. (Some (), m')) (body it m)) fds dest
      [0..<field_count fds] m = Some (Some (), m)"
    by (rule each_field_same) (simp add: assms(3))
  then show ?thesis using assms(1,2)
    by (simp add: for_each_field_def iter_begin_at do_while_next_all)
qed

lemma repeat_items_same:
  assumes "\<And>i. i < k \<Longrightarrow> body (p + i * step) m = Some m"
  shows "repeat_items body step k p m = Some m"
  using assms
proof (induction k arbitrary: p)
  case (Suc k)
  have "body p m = Some m" using Suc.prems [of 0] by simp
  moreover have "repeat_items body step k (p + step) m = Some m"
    by (rule Suc.IH) (use Suc.prems [of "Suc i" for i] in \<open>auto simp: add.assoc\<close>)
  ultimately show ?case by simp
qed simp

lemma release_field_same:
  assumes "static_message (fits d) fds n" "i < field_count fds" "mapped m dest n"
    and sub: "\<And>fds k dest m. fits d fds k \<Longrightarrow> mapped m dest k \<Longrightarrow>
      for_each_field (pb_release_single_field d u) fds dest m = Some m"
  shows "pb_release_single_field (Suc d) u (iter_at fds dest i) m = Some m"
proof -
  let ?it = "iter_at fds dest i" and ?f = "fds ! i"
  note D = static_messageD [OF assms(1)]
  have f: "field_at fds i = Some ?f" using field_at_terminated [OF D(1)] assms(2) by simp
  have at: "PB_ATYPE (f_type ?f) = PB_ATYPE_STATIC" and v: "value_fits (fits d) ?f"
    using D assms(2) by simp_all
  have lt: "PB_LTYPE (f_type ?f) \<noteq> PB_LTYPE_EXTENSION" using v by (simp add: value_fits_def Let_def)
  have p: "pData ?it = dest + pData (iter_at fds 0 i)" by (rule iter_pData)
  obtain a where a: "pSize ?it = In_struct (dest + a)" "pSize (iter_at fds 0 i) = In_struct a"
    by (rule static_pSize [OF assms(1,2)])
  have sf: "size_fits n ?f (iter_at fds 0 i)" and slot: "pData (iter_at fds 0 i) + slot_size ?f \<le> n"
    using D assms(2) by simp_all
  let ?z = "unat (f_data_size ?f)"
  have items: "repeat_items (\<lambda>p m. case f_ptr ?f of
         Submsg_fields fds \<Rightarrow> release_message (pb_release_single_field d u) fds p m | _ \<Rightarrow> None)
       ?z k (pData ?it) m = Some m"
    if sm: "PB_LTYPE (f_type ?f) = PB_LTYPE_SUBMESSAGE" and kz: "k * ?z \<le> slot_size ?f" for k
  proof (rule repeat_items_same)
    fix j assume j: "j < k"
    obtain sfds where s: "f_ptr ?f = Submsg_fields sfds" "fits d sfds ?z"
      using v sm by (auto simp: value_fits_def Let_def split: pb_ptr.splits)
    have "Suc j * ?z \<le> k * ?z" using j by (intro mult_le_mono1) simp
    then have "mapped m (pData ?it + j * ?z) ?z"
      by (intro mapped_sub [OF assms(3)]) (use p slot kz in simp_all)
    from sub [OF s(2) this] show "(case f_ptr ?f of
         Submsg_fields fds \<Rightarrow> release_message (pb_release_single_field d u) fds (pData ?it + j * ?z) m
       | _ \<Rightarrow> None) = Some m"
      by (simp add: s release_message_def)
  qed
  have count: "\<exists>c. (if PB_HTYPE (f_type ?f) = PB_HTYPE_REPEATED
                    then do {
                      c \<leftarrow> (if PB_ATYPE (f_type ?f) = PB_ATYPE_STATIC \<and> pSize ?it = In_struct (pData ?it)
                            then Some (f_array_size ?f)
                            else do { a \<leftarrow> struct_addr (pSize ?it); load_u32 m a });
                      Some (if PB_ATYPE (f_type ?f) = PB_ATYPE_STATIC \<and> c > f_array_size ?f
                            then f_array_size ?f else c) }
                    else Some 1) = Some c \<and> unat c * ?z \<le> slot_size ?f"
  proof (cases "PB_HTYPE (f_type ?f) = PB_HTYPE_REPEATED")
    case True
    then have "a + 4 \<le> n" using sf a by (auto simp: size_fits_def)
    then obtain w where w: "load_u32 m (dest + a) = Some w"
      using load_u32_inside [OF assms(3), of "dest + a"] by auto
    have le: "unat c * ?z \<le> slot_size ?f" if "c \<le> f_array_size ?f" for c
      using that True by (simp add: slot_size_def word_le_nat_alt mult.commute)
    show ?thesis using True w a at le [of "f_array_size ?f"] le [of w]
      by (auto simp: struct_addr_def not_less)
  next
    case False
    then show ?thesis by (simp add: slot_size_def)
  qed
  have current: "\<exists>b. (if PB_HTYPE (f_type ?f) = PB_HTYPE_ONEOF
                      then do { a \<leftarrow> struct_addr (pSize ?it);
                                w \<leftarrow> load_u32 m a; Some (w = f_tag ?f) }
                      else Some True) = Some b"
  proof (cases "PB_HTYPE (f_type ?f) = PB_HTYPE_ONEOF")
    case True
    then have "a + 4 \<le> n" using sf a by (auto simp: size_fits_def)
    then obtain w where "load_u32 m (dest + a) = Some w"
      using load_u32_inside [OF assms(3), of "dest + a"] by auto
    then show ?thesis using True a by (simp add: struct_addr_def)
  next
    case False
    then show ?thesis by (intro exI [of _ True]) simp
  qed
  show ?thesis
  proof (cases "PB_LTYPE (f_type ?f) = PB_LTYPE_SUBMESSAGE")
    case True
    obtain c where "unat c * ?z \<le> slot_size ?f" and c: "(if PB_HTYPE (f_type ?f) = PB_HTYPE_REPEATED
                    then do {
                      c \<leftarrow> (if PB_ATYPE (f_type ?f) = PB_ATYPE_STATIC \<and> pSize ?it = In_struct (pData ?it)
                            then Some (f_array_size ?f)
                            else do { a \<leftarrow> struct_addr (pSize ?it); load_u32 m a });
                      Some (if PB_ATYPE (f_type ?f) = PB_ATYPE_STATIC \<and> c > f_array_size ?f
                            then f_array_size ?f else c) }
                    else Some 1) = Some c" using count by blast
    note it = items [OF True \<open>unat c * ?z \<le> slot_size ?f\<close>]
    obtain b where b: "(if PB_HTYPE (f_type ?f) = PB_HTYPE_ONEOF
                      then do { a \<leftarrow> struct_addr (pSize ?it);
                                w \<leftarrow> load_u32 m a; Some (w = f_tag ?f) }
                      else Some True) = Some b" using current by blast
    show ?thesis unfolding pb_release_single_field.simps iter_at_sel f bind.simps Let_def b c
      using True at lt it by simp
  next
    case False
    obtain b where b: "(if PB_HTYPE (f_type ?f) = PB_HTYPE_ONEOF
                      then do { a \<leftarrow> struct_addr (pSize ?it);
                                w \<leftarrow> load_u32 m a; Some (w = f_tag ?f) }
                      else Some True) = Some b" using current by blast
    show ?thesis unfolding pb_release_single_field.simps iter_at_sel f bind.simps Let_def b
      using False at lt by simp
  qed
qed

lemma release_each:
  "fits d fds n \<Longrightarrow> mapped m dest n \<Longrightarrow> for_each_field (pb_release_single_field d u) fds dest m = Some m"
proof (induction d arbitrary: fds n dest m)
  case (Suc d)
  then have s: "static_message (fits d) fds n" by simp
  show ?case
    by (rule for_each_field_same [OF static_messageD(1,2) [OF s]])
      (rule release_field_same [OF s _ Suc.prems(2) Suc.IH])
qed simp

lemma release_ok: "fits d fds n \<Longrightarrow> mapped m dest n \<Longrightarrow> pb_release d u fds dest m = Some m"
  by (simp add: pb_release_def release_message_def release_each)

end
