(* ===== verification/Dec_Fields.thy ===== *)
theory Dec_Fields imports Static_Messages begin

section \<open>The field decoders stay inside their field\<close>

text \<open>
  What a decoder of the library promises when it is called on a region \<open>[a, a+n)\<close> of memory: it
  returns, moves the stream on as the stream's contract allows, and changes no byte outside the
  region (\<open>held\<close>); a decoder that succeeds may have to consume input, too (\<open>taken\<close>). The locale
  \<open>submessage_decoder\<close> is the interface between the field decoders and the decoder of the next
  nesting level.
\<close>

lemma ltype_cases:
  fixes lt :: u8
  obtains (bool) "lt = PB_LTYPE_BOOL" | (varint) "lt = PB_LTYPE_VARINT" | (uvarint) "lt = PB_LTYPE_UVARINT"
    | (svarint) "lt = PB_LTYPE_SVARINT" | (fixed32) "lt = PB_LTYPE_FIXED32"
    | (fixed64) "lt = PB_LTYPE_FIXED64" | (bytes) "lt = PB_LTYPE_BYTES" | (string) "lt = PB_LTYPE_STRING"
    | (submessage) "lt = PB_LTYPE_SUBMESSAGE" | (extension) "lt = PB_LTYPE_EXTENSION"
    | (fixed_bytes) "lt = PB_LTYPE_FIXED_LENGTH_BYTES" | (big) "lt > 0x0A"
proof (cases "lt > 0x0A")
  case False
  then have "lt = of_nat (unat lt)" "unat lt \<le> 10" by (simp_all add: word_le_nat_alt not_less)
  then obtain n where n: "lt = of_nat n" "n \<le> 10" by blast
  then have "n \<in> {0, 1, 2, 3, 4, 5, 6, 7, 8, 9, 10}" by simp arith
  then have "lt \<in> {0, 1, 2, 3, 4, 5, 6, 7, 8, 9, 10}" unfolding n(1) by auto
  then show ?thesis using that by auto
qed (rule that)

context safe_stream begin

definition held :: "addr \<Rightarrow> nat \<Rightarrow> istream \<Rightarrow> mem \<Rightarrow> 'a option \<Rightarrow> world \<Rightarrow> bool" where
  "held a n s m r w \<longleftrightarrow> ok (fst w) \<and> R s (fst w) \<and> frame m (snd w) a n"

definition taken :: "addr \<Rightarrow> nat \<Rightarrow> istream \<Rightarrow> mem \<Rightarrow> 'a option \<Rightarrow> world \<Rightarrow> bool" where
  "taken a n s m r w \<longleftrightarrow> held a n s m r w \<and> (r \<noteq> None \<longrightarrow> bytes_left (fst w) < bytes_left s)"

lemma heldI: "ok t \<Longrightarrow> R s t \<Longrightarrow> frame m m' a n \<Longrightarrow> held a n s m r (t, m')"
  by (simp add: held_def)

lemma taken_held: "safe (taken a n s m) r \<Longrightarrow> safe (held a n s m) r"
  by (erule safe_weaken) (simp add: taken_def)

lemma held_then:
  assumes "safe (held a n s m) r"
    and "\<And>v t m'. r = Some (Some v, (t, m')) \<Longrightarrow> ok t \<Longrightarrow> R s t \<Longrightarrow> frame m m' a n \<Longrightarrow>
      safe (held a n t m') (k v (t, m'))"
  shows "safe (held a n s m) (ok_then r k)"
proof -
  obtain v w where r: "r = Some (v, w)" and h: "held a n s m v w" using assms(1) by (rule safeE)
  show ?thesis
  proof (cases v)
    case None
    then show ?thesis using r h by (simp add: held_def)
  next
    case (Some x)
    then have "safe (held a n (fst w) (snd w)) (k x w)"
      using assms(2) [of x "fst w" "snd w"] r h by (simp add: held_def)
    then show ?thesis using r h Some
      by (auto simp: held_def elim!: safe_weaken intro: R_trans frame_trans)
  qed
qed

lemma taken_then:
  assumes "safe (taken a n s m) r"
    and "\<And>v t m'. r = Some (Some v, (t, m')) \<Longrightarrow> ok t \<Longrightarrow> R s t \<Longrightarrow> frame m m' a n \<Longrightarrow>
      safe (held a n t m') (k v (t, m'))"
  shows "safe (taken a n s m) (ok_then r k)"
proof -
  obtain v w where r: "r = Some (v, w)" and h: "taken a n s m v w" using assms(1) by (rule safeE)
  show ?thesis
  proof (cases v)
    case None
    then show ?thesis using r h by (simp add: held_def taken_def)
  next
    case (Some x)
    then have k: "safe (held a n (fst w) (snd w)) (k x w)"
      using assms(2) [of x "fst w" "snd w"] r h by (simp add: held_def taken_def)
    then obtain y w' where y: "k x w = Some (y, w')" "held a n (fst w) (snd w) y w'" by (rule safeE)
    then have "bytes_left (fst w') \<le> bytes_left (fst w)" using R_left by (simp add: held_def)
    then show ?thesis using y r h Some
      by (auto simp: held_def taken_def intro: R_trans frame_trans)
  qed
qed

lemma world_then [simp]:
  "ok_then (w_error s m msg) k = w_error s m msg"
  "ok_then (ret v s m) k = k v (s, m)"
  by (simp_all add: w_error_def ret_def)

lemma held_ret: "ok s \<Longrightarrow> frame m m' a n \<Longrightarrow> safe (held a n s m) (ret v s m')"
  by (simp add: ret_def held_def R_refl)

lemma held_Some: "ok s \<Longrightarrow> frame m m' a n \<Longrightarrow> safe (held a n s m) (Some (r, (s, m')))"
  by (simp add: held_def R_refl)

lemma held_error: "ok s \<Longrightarrow> frame m m' a n \<Longrightarrow> safe (held a n s m) (w_error s m' msg)"
  by (simp add: w_error_def held_def error_ok)

lemma held_on_stream: "safe (moved s) r \<Longrightarrow> safe (held a n s m) (on_stream r m)"
  by (auto simp: on_stream_def held_def moved_def elim!: safeE)

lemma taken_on_stream: "safe (shrunk s) r \<Longrightarrow> safe (taken a n s m) (on_stream r m)"
  by (auto simp: on_stream_def held_def taken_def shrunk_def elim!: safeE)

lemma held_mono: "safe (held b k s m) r \<Longrightarrow> a \<le> b \<Longrightarrow> b + k \<le> a + n \<Longrightarrow> safe (held a n s m) r"
  by (erule safe_weaken) (auto simp: held_def intro: frame_mono)

lemma taken_mono: "safe (taken b k s m) r \<Longrightarrow> a \<le> b \<Longrightarrow> b + k \<le> a + n \<Longrightarrow> safe (taken a n s m) r"
  by (erule safe_weaken) (auto simp: held_def taken_def intro: frame_mono)

lemma held_frame: "frame m m1 a n \<Longrightarrow> safe (held a n s m1) r \<Longrightarrow> safe (held a n s m) r"
  by (erule safe_weaken) (auto simp: held_def intro: frame_trans)

lemma on_streamD: "on_stream r m = Some (v, (s, m')) \<Longrightarrow> r = Some (v, s) \<and> m' = m"
  by (auto simp: on_stream_def)

lemma varint_loop_shrunk: "ok s \<Longrightarrow> b < 64 \<Longrightarrow> safe (shrunk s) (varint_loop s b r)"
  by (subst varint_loop.simps, simp only: not_le [symmetric] if_False)
    (erule shrunk_then [OF byte_shrunk], simp add: Let_def moved_refl varint_loop_ok)

lemma varint_shrunk: "ok s \<Longrightarrow> safe (shrunk s) (pb_decode_varint s)"
  by (simp add: pb_decode_varint_def varint_loop_shrunk)

lemma svarint_shrunk: "ok s \<Longrightarrow> safe (shrunk s) (pb_decode_svarint s)"
  unfolding pb_decode_svarint_def by (erule shrunk_then [OF varint_shrunk]) (erule moved_ret)

lemma fixed32_shrunk: "ok s \<Longrightarrow> safe (shrunk s) (pb_decode_fixed32 s)"
  unfolding pb_decode_fixed32_def by (erule shrunk_then [OF read_shrunk]) (simp, erule moved_ret)

lemma fixed64_shrunk: "ok s \<Longrightarrow> safe (shrunk s) (pb_decode_fixed64 s)"
  unfolding pb_decode_fixed64_def by (erule shrunk_then [OF read_shrunk]) (simp, erule moved_ret)

lemma bool_shrunk: "ok s \<Longrightarrow> safe (shrunk s) (pb_decode_bool s)"
  unfolding pb_decode_bool_def by (erule shrunk_then [OF varint32_shrunk]) (erule moved_ret)

subsection \<open>Scalar decoders\<close>

lemma store_bytes_held:
  assumes "mapped m p k" "length bs \<le> k"
  shows "\<exists>m'. store_bytes m p bs = Some m' \<and> frame m m' p k"
  using store_inside [OF assms(1), of p bs] assms(2) by simp

lemma dec_bool_taken:
  assumes "ok s" "mapped m p k" "1 \<le> k"
  shows "safe (taken p k s m) (pb_dec_bool s f p m)"
  unfolding pb_dec_bool_def
proof (rule taken_then [OF taken_on_stream [OF bool_shrunk [OF assms(1)]]], simp only: prod.case)
  fix v t m' assume t: "ok t" "frame m m' p k"
  then obtain m2 where "store_u8 m' p (if v then 1 else 0) = Some m2" "frame m' m2 p k"
    using store_u8_inside [of m' p k p] assms(2,3) by auto
  then show "safe (held p k t m') (do { m' \<leftarrow> store_u8 m' p (if v then 1 else 0); ret () t m' })"
    using held_ret [OF t(1)] by simp
qed

lemma store_signed_held:
  assumes "mapped m p (unat z)"
  shows "store_signed z p v m = Some None \<or>
    (\<exists>c m'. store_signed z p v m = Some (Some (c, m')) \<and> frame m m' p (unat z))"
  using store_inside [OF assms, of p] unfolding store_signed_def
  by (auto simp: store_u64_def store_u32_def store_u16_def store_u8_def)

lemma store_unsigned_held:
  assumes "mapped m p (unat z)"
  shows "store_unsigned z p v m = Some None \<or>
    (\<exists>c m'. store_unsigned z p v m = Some (Some (c, m')) \<and> frame m m' p (unat z))"
  using store_inside [OF assms, of p] unfolding store_unsigned_def
  by (auto simp: store_u64_def store_u32_def store_u16_def store_u8_def)

lemma finish_integer_held:
  assumes "ok s" "st = Some None \<or> (\<exists>c m'. st = Some (Some (c, m')) \<and> frame m m' p k)"
  shows "safe (held p k s m) (finish_integer s m v st)"
  using assms(2) by (auto simp: finish_integer_def held_error [OF assms(1)] held_ret [OF assms(1)])

lemma dec_integers_taken:
  assumes "ok s" "mapped m p (unat (f_data_size f))"
  shows "safe (taken p (unat (f_data_size f)) s m) (pb_dec_varint s f p m)"
    and "safe (taken p (unat (f_data_size f)) s m) (pb_dec_uvarint s f p m)"
    and "safe (taken p (unat (f_data_size f)) s m) (pb_dec_svarint s f p m)"
proof -
  have mp: "mapped m' p (unat (f_data_size f))" if "frame m m' p (unat (f_data_size f))" for m'
    using assms(2) that by simp
  show "safe (taken p (unat (f_data_size f)) s m) (pb_dec_varint s f p m)"
    unfolding pb_dec_varint_def Let_def
    by (rule taken_then [OF taken_on_stream [OF varint_shrunk [OF assms(1)]]], simp only: prod.case)
      (intro finish_integer_held store_signed_held mp, simp_all)
  show "safe (taken p (unat (f_data_size f)) s m) (pb_dec_uvarint s f p m)"
    unfolding pb_dec_uvarint_def
    by (rule taken_then [OF taken_on_stream [OF varint_shrunk [OF assms(1)]]], simp only: prod.case)
      (intro finish_integer_held store_unsigned_held mp, simp_all)
  show "safe (taken p (unat (f_data_size f)) s m) (pb_dec_svarint s f p m)"
    unfolding pb_dec_svarint_def
    by (rule taken_then [OF taken_on_stream [OF svarint_shrunk [OF assms(1)]]], simp only: prod.case)
      (intro finish_integer_held store_signed_held mp, simp_all)
qed

lemma dec_fixed32_taken:
  assumes "ok s" "mapped m p k" "4 \<le> k"
  shows "safe (taken p k s m) (pb_dec_fixed32 s f p m)"
  unfolding pb_dec_fixed32_def
proof (rule taken_then [OF taken_on_stream [OF fixed32_shrunk [OF assms(1)]]], simp only: prod.case)
  fix v t m' assume t: "ok t" "frame m m' p k"
  then obtain m2 where "store_u32 m' p v = Some m2" "frame m' m2 p k"
    using store_u32_inside [of m' p k p v] assms(2,3) by auto
  then show "safe (held p k t m') (do { m' \<leftarrow> store_u32 m' p v; ret () t m' })"
    using held_ret [OF t(1)] by simp
qed

lemma dec_fixed64_taken:
  assumes "ok s" "mapped m p k" "8 \<le> k"
  shows "safe (taken p k s m) (pb_dec_fixed64 s f p m)"
  unfolding pb_dec_fixed64_def
proof (rule taken_then [OF taken_on_stream [OF fixed64_shrunk [OF assms(1)]]], simp only: prod.case)
  fix v t m' assume t: "ok t" "frame m m' p k"
  then obtain m2 where "store_u64 m' p v = Some m2" "frame m' m2 p k"
    using store_bytes_held [of m' p k "le_bytes 8 (unat v)"] assms(2,3) by (auto simp: store_u64_def)
  then show "safe (held p k t m') (do { m' \<leftarrow> store_u64 m' p v; ret () t m' })"
    using held_ret [OF t(1)] by simp
qed

subsection \<open>Strings and bytes\<close>

lemma held_into:
  assumes "safe (moved s) r" "mapped m p k"
    and "\<And>bs t. r = Some (Some bs, t) \<Longrightarrow> q bs + length bs \<le> p + k \<and> p \<le> q bs"
  shows "safe (held p k s m) (ok_then (on_stream r m) (\<lambda>bs (t, m').
     do { m2 \<leftarrow> store_bytes m' (q bs) bs; ret () t m2 }))"
proof (rule held_then [OF held_on_stream [OF assms(1)]], simp only: prod.case)
  fix bs t m' assume r: "on_stream r m = Some (Some bs, t, m')" and t: "ok t" "frame m m' p k"
  then have "r = Some (Some bs, t)" by (auto dest: on_streamD)
  with assms(3) obtain m2 where "store_bytes m' (q bs) bs = Some m2" "frame m' m2 p k"
    using store_inside [of m' p k "q bs" bs] t(2) assms(2) by auto
  then show "safe (held p k t m') (do { m2 \<leftarrow> store_bytes m' (q bs) bs; ret () t m2 })"
    using held_ret [OF t(1)] by simp
qed

lemma read_count_bytes:
  assumes "ok s" "pb_read s True n = Some (Some bs, t)"
  shows "length bs = n"
  using read_ok [OF assms(1), of n True] assms(2) by simp

lemma unat_ucast_64: "unat (ucast (w :: u32) :: u64) = unat w"
proof -
  have "unat w < 2 ^ 64" by (rule less_trans [OF unat_u32_less]) simp
  then show ?thesis unfolding unsigned_ucast_eq by (simp add: take_bit_nat_eq_self)
qed

lemma alloc_size_bytes: "PB_BYTES_ARRAY_T_ALLOCSIZE z \<le> ucast (w :: u32) \<Longrightarrow> unat z + 4 \<le> unat w"
proof -
  have z: "unat z < 2 ^ 32" by simp
  have "unat (PB_BYTES_ARRAY_T_ALLOCSIZE z) = unat z + 4"
    unfolding PB_BYTES_ARRAY_T_ALLOCSIZE_def using z
    by (simp add: unat_word_ariths unat_ucast_64 del: unat_u32_less)
  then show "PB_BYTES_ARRAY_T_ALLOCSIZE z \<le> ucast (w :: u32) \<Longrightarrow> unat z + 4 \<le> unat w"
    by (simp add: word_le_nat_alt unat_ucast_64)
qed

lemma dec_bytes_held:
  assumes "ok s" "mapped m p (unat (f_data_size f))" "PB_ATYPE (f_type f) = PB_ATYPE_STATIC"
  shows "safe (held p (unat (f_data_size f)) s m) (pb_dec_bytes s f p m)"
  unfolding pb_dec_bytes_def Let_def
proof (rule held_then [OF held_on_stream [OF varint32_ok [OF assms(1)]]], simp only: prod.case)
  let ?k = "unat (f_data_size f)"
  fix z :: u32 and t m' assume t: "ok t" "frame m m' p ?k"
  have mp: "mapped m' p ?k" using assms(2) t(2) by simp
  show "safe (held p ?k t m')
    (if z > PB_SIZE_MAX then w_error t m' ''bytes overflow''
     else if ucast z > PB_BYTES_ARRAY_T_ALLOCSIZE z then w_error t m' ''size too large''
     else ok_then
       (if PB_ATYPE (f_type f) = PB_ATYPE_POINTER
        then if bytes_left t < unat z then w_error t m' ''end-of-stream''
             else ok_then (allocate_field t m' p (PB_BYTES_ARRAY_T_ALLOCSIZE z) 1) (\<lambda>_ (s2, m2).
               do { bdest \<leftarrow> load_ptr m2 p; ret bdest s2 m2 })
        else if PB_BYTES_ARRAY_T_ALLOCSIZE z > ucast (f_data_size f) then w_error t m' ''bytes overflow''
             else ret p t m')
       (\<lambda>bdest (s2, m2).
          do { m3 \<leftarrow> store_u32 m2 bdest z;
               ok_then (on_stream (pb_read s2 True (unat z)) m3) (\<lambda>bs (s4, m4).
                 do { m5 \<leftarrow> store_bytes m4 (bdest + pb_bytes_offset) bs; ret () s4 m5 }) }))"
  proof (cases "PB_BYTES_ARRAY_T_ALLOCSIZE z > ucast (f_data_size f)")
    case True
    then show ?thesis by (simp add: assms(3) held_error [OF t(1)])
  next
    case False
    then have z: "unat z + 4 \<le> ?k" by (intro alloc_size_bytes) simp
    obtain m3 where m3: "store_u32 m' p z = Some m3" "frame m' m3 p ?k"
      using store_u32_inside [OF mp, of p z] z by auto
    have "safe (held p ?k t m3) (ok_then (on_stream (pb_read t True (unat z)) m3) (\<lambda>bs (s4, m4).
                 do { m5 \<leftarrow> store_bytes m4 (p + pb_bytes_offset) bs; ret () s4 m5 }))"
      by (rule held_into [OF read_moved [OF t(1)]])
        (use mp m3(2) z read_count_bytes [OF t(1)] in auto)
    then have "safe (held p ?k t m') (ok_then (on_stream (pb_read t True (unat z)) m3) (\<lambda>bs (s4, m4).
                 do { m5 \<leftarrow> store_bytes m4 (p + pb_bytes_offset) bs; ret () s4 m5 }))"
      by (rule held_frame [OF m3(2)])
    then show ?thesis using False m3(1) by (simp add: assms(3) held_error [OF t(1)])
  qed
qed

lemma alloc_size_string:
  assumes "\<not> ucast (z + 1 :: u32) < (ucast z :: u64)" "\<not> ucast (z + 1 :: u32) > (ucast (w :: u32) :: u64)"
  shows "unat z + 1 \<le> unat w"
proof -
  have "unat z \<le> unat (z + 1)" "unat (z + 1) \<le> unat w"
    using assms by (simp_all add: word_less_nat_alt unat_ucast_64)
  moreover have "unat (z + 1) = (if unat z + 1 < 4294967296 then unat z + 1 else 0)"
  proof (cases "unat z + 1 < 4294967296")
    case False
    then have "unat z = 4294967295" using unat_u32_less [of z] by linarith
    then show ?thesis by (simp add: unat_word_ariths)
  qed (simp add: unat_word_ariths)
  ultimately show ?thesis using unat_u32_less [of z] by (auto split: if_splits)
qed

lemma dec_string_held:
  assumes "ok s" "mapped m p (unat (f_data_size f))" "PB_ATYPE (f_type f) = PB_ATYPE_STATIC"
  shows "safe (held p (unat (f_data_size f)) s m) (pb_dec_string s f p m)"
  unfolding pb_dec_string_def Let_def
proof (rule held_then [OF held_on_stream [OF varint32_ok [OF assms(1)]]], simp only: prod.case)
  let ?k = "unat (f_data_size f)"
  fix z :: u32 and t m' assume t: "ok t" "frame m m' p ?k"
  have mp: "mapped m' p ?k" using assms(2) t(2) by simp
  let ?store = "do { (status, s3) \<leftarrow> pb_read t True (unat z);
       m3 \<leftarrow> (case status of None \<Rightarrow> Some m' | Some bs \<Rightarrow> store_bytes m' p bs);
       m4 \<leftarrow> store_u8 m3 (p + unat z) 0;
       Some (map_option (\<lambda>_. ()) status, (s3, m4)) }"
  have body: "safe (held p ?k t m') ?store" if z: "unat z + 1 \<le> ?k"
  proof -
    obtain st t2 where rd: "pb_read t True (unat z) = Some (st, t2)" "moved t st t2"
      using read_moved [OF t(1), of True "unat z"] by (rule safeE)
    obtain m3 where m3: "(case st of None \<Rightarrow> Some m' | Some bs \<Rightarrow> store_bytes m' p bs) = Some m3"
      "frame m' m3 p ?k"
    proof (cases st)
      case None
      then show thesis using that [of m'] by simp
    next
      case (Some bs)
      then have "length bs = unat z" using read_count_bytes [OF t(1)] rd(1) by blast
      then show thesis using store_inside [OF mp, of p bs] z that Some by auto
    qed
    obtain m4 where m4: "store_u8 m3 (p + unat z) 0 = Some m4" "frame m3 m4 p ?k"
      using store_u8_inside [of m3 p ?k "p + unat z" 0] mp m3(2) z by auto
    show ?thesis using rd m3 m4 frame_trans [OF m3(2) m4(2)]
      by (auto simp: held_def moved_def)
  qed
  show "safe (held p ?k t m')
    (if (ucast (z + 1 :: u32) :: u64) < ucast z then w_error t m' ''size too large''
     else ok_then
       (if PB_ATYPE (f_type f) = PB_ATYPE_POINTER
        then if bytes_left t < unat z then w_error t m' ''end-of-stream''
             else ok_then (allocate_field t m' p (ucast (z + 1 :: u32)) 1) (\<lambda>_ (s2, m2).
               do { q \<leftarrow> load_ptr m2 p; ret q s2 m2 })
        else if ucast (z + 1 :: u32) > (ucast (f_data_size f) :: u64) then w_error t m' ''string overflow''
             else ret p t m')
       (\<lambda>q (s2, m2).
          do { (status, s3) \<leftarrow> pb_read s2 True (unat z);
               m3 \<leftarrow> (case status of None \<Rightarrow> Some m2 | Some bs \<Rightarrow> store_bytes m2 q bs);
               m4 \<leftarrow> store_u8 m3 (q + unat z) 0;
               Some (map_option (\<lambda>_. ()) status, (s3, m4)) }))"
    using body alloc_size_string [of z "f_data_size f"]
    by (simp add: assms(3) held_error [OF t(1)])
qed

lemma dec_fixed_length_bytes_held:
  assumes "ok s" "mapped m p (unat (f_data_size f))"
  shows "safe (held p (unat (f_data_size f)) s m) (pb_dec_fixed_length_bytes s f p m)"
  unfolding pb_dec_fixed_length_bytes_def
proof (rule held_then [OF held_on_stream [OF varint32_ok [OF assms(1)]]], simp only: prod.case)
  let ?k = "unat (f_data_size f)"
  fix z :: u32 and t m' assume t: "ok t" "frame m m' p ?k"
  have mp: "mapped m' p ?k" using assms(2) t(2) by simp
  obtain m2 where m2: "memset0 m' p ?k = Some m2" "frame m' m2 p ?k"
    using memset0_inside [OF mp, of p ?k] by auto
  have "safe (held p ?k t m') (ok_then (on_stream (pb_read t True ?k) m') (\<lambda>bs (s2, m2).
         do { m' \<leftarrow> store_bytes m2 p bs; ret () s2 m' }))"
    by (rule held_into [OF read_moved [OF t(1)] mp, where q = "\<lambda>_. p"])
      (use read_count_bytes [OF t(1)] in auto)
  then show "safe (held p ?k t m')
    (if z > PB_SIZE_MAX then w_error t m' ''bytes overflow''
     else if z = 0 then do { m' \<leftarrow> memset0 m' p ?k; ret () t m' }
     else if z \<noteq> f_data_size f then w_error t m' ''incorrect fixed length bytes size''
     else ok_then (on_stream (pb_read t True ?k) m') (\<lambda>bs (s2, m2).
       do { m' \<leftarrow> store_bytes m2 p bs; ret () s2 m' }))"
    using m2 by (simp add: held_error [OF t(1)] held_ret [OF t(1)])
qed

end

subsection \<open>Submessages and the table of decoders\<close>

text \<open>The decoder of the next nesting level keeps the same promise for messages nested less than
  \<open>d\<close> deep.\<close>

locale submessage_decoder = safe_stream +
  fixes dec :: message_decoder and d :: nat
  assumes dec_held: "fits d fds k \<Longrightarrow> mapped m dest k \<Longrightarrow> ok s \<Longrightarrow>
    safe (held dest k s m) (dec init s fds dest m)"
begin

lemma dec_submessage_held:
  assumes "ok s" "mapped m p (unat (f_data_size f))"
    and "f_ptr f = Submsg_fields fds" "fits d fds (unat (f_data_size f))"
  shows "safe (held p (unat (f_data_size f)) s m) (pb_dec_submessage dec s f p m)"
proof -
  let ?k = "unat (f_data_size f)"
  obtain r t where mk: "pb_make_string_substream s = Some (r, t)" "moved s r t"
    "\<And>sub. r = Some sub \<Longrightarrow> substream_of s sub t"
    using make_substream_ok [OF assms(1)] by (auto elim!: safeE)
  show ?thesis
  proof (cases r)
    case None
    then show ?thesis using mk by (simp add: pb_dec_submessage_def on_stream_def held_def moved_def)
  next
    case (Some sub)
    then have sub: "substream_of s sub t" using mk(3) by simp
    note ok = substream_ok [OF sub]
    obtain st w where dec: "dec (PB_HTYPE (f_type f) = PB_HTYPE_REPEATED) sub fds p m = Some (st, w)"
      "held p ?k sub m st w"
      using dec_held [OF assms(4,2) ok(1)] by (rule safeE)
    obtain c t2 where close: "pb_close_string_substream t (fst w) = Some (c, t2)" "moved s c t2"
      using close_substream_ok [OF sub, of "fst w"] dec(2) by (auto simp: held_def elim: safeE)
    then show ?thesis using mk(1) Some dec assms(3)
      by (cases w; cases c) (simp_all add: pb_dec_submessage_def on_stream_def held_def moved_def)
  qed
qed

lemma decoder_held:
  assumes "ok s" "mapped m p (unat (f_data_size f))"
    and "value_fits (fits d) f" "PB_ATYPE (f_type f) = PB_ATYPE_STATIC"
  shows "safe (held p (unat (f_data_size f)) s m) (PB_DECODERS dec (PB_LTYPE (f_type f)) s f p m)"
proof (cases "PB_LTYPE (f_type f)" rule: ltype_cases)
  case big
  then show ?thesis using assms(3) by (auto simp: value_fits_def Let_def dest: leD)
next
  case submessage
  then obtain fds where "f_ptr f = Submsg_fields fds" "fits d fds (unat (f_data_size f))"
    using assms(3) by (auto simp: value_fits_def Let_def split: pb_ptr.splits)
  from dec_submessage_held [OF assms(1,2) this] show ?thesis
    unfolding submessage PB_DECODERS_def by simp
next
  case extension
  then show ?thesis using assms(3) by (simp add: value_fits_def Let_def)
qed (use assms(3) taken_held [OF dec_bool_taken [OF assms(1,2)]]
       taken_held [OF dec_fixed32_taken [OF assms(1,2)]]
       taken_held [OF dec_fixed64_taken [OF assms(1,2)]]
       dec_integers_taken [OF assms(1,2), THEN taken_held]
       dec_bytes_held [OF assms(1,2,4)] dec_string_held [OF assms(1,2,4)]
       dec_fixed_length_bytes_held [OF assms(1,2)]
     in \<open>simp_all add: PB_DECODERS_def value_fits_def Let_def\<close>)

lemma packable_taken:
  assumes "ok s" "mapped m p (unat (f_data_size f))"
    and "value_fits (fits d) f" "PB_LTYPE (f_type f) \<le> PB_LTYPE_LAST_PACKABLE"
  shows "safe (taken p (unat (f_data_size f)) s m) (PB_DECODERS dec (PB_LTYPE (f_type f)) s f p m)"
proof (cases "PB_LTYPE (f_type f)" rule: ltype_cases)
  case big
  then have "PB_LTYPE_LAST_PACKABLE < PB_LTYPE (f_type f)" by (rule less_trans [rotated]) simp
  then show ?thesis using assms(4) by simp
qed (use assms(3,4) dec_bool_taken [OF assms(1,2)] dec_fixed32_taken [OF assms(1,2)]
       dec_fixed64_taken [OF assms(1,2)] dec_integers_taken [OF assms(1,2)]
     in \<open>simp_all add: PB_DECODERS_def value_fits_def Let_def\<close>)

end

end
