(* ===== verification/Dec_Static.thy ===== *)
theory Dec_Static imports Dec_Fields begin

section \<open>Decoding a static field stays inside the structure\<close>

text \<open>
  \<open>msg_iter fds dest it\<close>: the iterators that \<open>pb_decode_noinit\<close> works with, on a field of the
  message, with \<open>pSize\<close> as the iterator computed it or redirected to the local counter of a
  repeated field. For each of them, storing the field keeps inside the \<open>n\<close> bytes of the structure.
\<close>

definition msg_iter :: "pb_field list \<Rightarrow> addr \<Rightarrow> pb_field_iter \<Rightarrow> bool" where
  "msg_iter fds dest it \<longleftrightarrow>
     (\<exists>i < field_count fds. it = iter_at fds dest i \<or>
        (it = (iter_at fds dest i)\<lparr>pSize := Local_count\<rparr> \<and> PB_HTYPE (f_type (fds ! i)) = PB_HTYPE_REPEATED))"

text \<open>\<open>count_loc loc dest n\<close>: a counter that is local or lies in the structure.\<close>

definition count_loc :: "size_loc \<Rightarrow> addr \<Rightarrow> nat \<Rightarrow> bool" where
  "count_loc loc dest n \<longleftrightarrow>
     (case loc of Local_count \<Rightarrow> True | In_struct a \<Rightarrow> dest \<le> a \<and> a + 4 \<le> dest + n)"

lemma read_count_ok: "count_loc loc dest n \<Longrightarrow> mapped m dest n \<Longrightarrow> \<exists>w. read_count loc fc m = Some w"
  by (auto simp: count_loc_def read_count_def load_u32_inside split: size_loc.splits)

lemma write_count_ok:
  "count_loc loc dest n \<Longrightarrow> mapped m dest n \<Longrightarrow>
     \<exists>fc' m'. write_count loc v fc m = Some (fc', m') \<and> frame m m' dest n"
proof (cases loc)
  case (In_struct a)
  assume "count_loc loc dest n" "mapped m dest n"
  then obtain m' where "store_u32 m a v = Some m'" "frame m m' dest n"
    using store_u32_inside [of m dest n a v] In_struct by (auto simp: count_loc_def)
  then show ?thesis using In_struct by (simp add: write_count_def)
qed (simp add: write_count_def)

lemma item_inside:
  assumes "PB_HTYPE (f_type f) = PB_HTYPE_REPEATED" "slot_size f < 2 ^ 32" "k < f_array_size f"
  shows "unat (f_data_size f * k) + unat (f_data_size f) \<le> slot_size f"
proof -
  have slot: "slot_size f = unat (f_data_size f) * unat (f_array_size f)"
    using assms(1) by (simp add: slot_size_def)
  have "unat k + 1 \<le> unat (f_array_size f)" using assms(3) by (simp add: word_less_nat_alt)
  then have le: "unat (f_data_size f) * (unat k + 1) \<le> slot_size f"
    unfolding slot by (rule mult_le_mono2)
  then have "unat (f_data_size f) * unat k < 2 ^ 32" using assms(2) by simp
  then have "unat (f_data_size f * k) = unat (f_data_size f) * unat k"
    by (simp add: unat_word_ariths)
  with le show ?thesis by simp
qed

text \<open>What an iterator of the message gives: its field and where its value and size are.\<close>

lemma msg_iterE:
  assumes "static_message sub fds n" "msg_iter fds dest it"
  obtains f where "field_at (start it) (pos it) = Some f" "f = fds ! pos it" "start it = fds"
    "pos it < field_count fds"
    "PB_ATYPE (f_type f) = PB_ATYPE_STATIC" "value_fits sub f" "slot_size f < 2 ^ 32"
    "dest \<le> pData it" "pData it + slot_size f \<le> dest + n"
    "PB_HTYPE (f_type f) = PB_HTYPE_REPEATED \<or> PB_HTYPE (f_type f) = PB_HTYPE_ONEOF \<Longrightarrow>
       count_loc (pSize it) dest n"
    "PB_HTYPE (f_type f) \<noteq> PB_HTYPE_REPEATED \<Longrightarrow>
       it = iter_at fds dest (pos it) \<and> (\<exists>a. pSize it = In_struct a \<and>
         (PB_HTYPE (f_type f) = PB_HTYPE_OPTIONAL \<longrightarrow> a = pData it \<or> (dest \<le> a \<and> a + 1 \<le> dest + n)))"
proof -
  obtain i where i: "i < field_count fds" "it = iter_at fds dest i \<or>
      (it = (iter_at fds dest i)\<lparr>pSize := Local_count\<rparr> \<and> PB_HTYPE (f_type (fds ! i)) = PB_HTYPE_REPEATED)"
    using assms(2) unfolding msg_iter_def by blast
  note D = static_messageD [OF assms(1)]
  obtain a where a: "pSize (iter_at fds dest i) = In_struct (dest + a)" "pSize (iter_at fds 0 i) = In_struct a"
    by (rule static_pSize [OF assms(1) i(1)])
  have sf: "size_fits n (fds ! i) (iter_at fds 0 i)" using D(8) [OF i(1)] .
  have p: "pData it = dest + pData (iter_at fds 0 i)" using i(2) iter_pData [of fds dest i] by auto
  have sel: "start it = fds" "pos it = i" using i(2) by auto
  show ?thesis
  proof (rule that [of "fds ! i"])
    show "field_at (start it) (pos it) = Some (fds ! i)"
      using field_at_terminated [OF D(1)] i(1) sel by simp
    show "dest \<le> pData it" "pData it + slot_size (fds ! i) \<le> dest + n"
      using p D(5) [OF i(1)] by simp_all
    show "PB_HTYPE (f_type (fds ! i)) = PB_HTYPE_REPEATED \<or> PB_HTYPE (f_type (fds ! i)) = PB_HTYPE_ONEOF \<Longrightarrow>
       count_loc (pSize it) dest n"
      using i(2) sf a by (auto simp: count_loc_def size_fits_def)
    show "PB_HTYPE (f_type (fds ! i)) \<noteq> PB_HTYPE_REPEATED \<Longrightarrow>
       it = iter_at fds dest (pos it) \<and> (\<exists>a. pSize it = In_struct a \<and>
         (PB_HTYPE (f_type (fds ! i)) = PB_HTYPE_OPTIONAL \<longrightarrow> a = pData it \<or> (dest \<le> a \<and> a + 1 \<le> dest + n)))"
      using i(2) sf a p sel by (auto simp: size_fits_def)
  qed (use sel i(1) D in simp_all)
qed

context safe_stream begin

text \<open>The loop over a packed array, for any decoder of the entries that consumes input.\<close>

lemma packed_loop_held:
  assumes item: "\<And>k s m. k < f_array_size f \<Longrightarrow> ok s \<Longrightarrow> mapped m dest n \<Longrightarrow>
      safe (taken dest n s m) (func s f (p + unat (f_data_size f * k)) m)"
    and loc: "count_loc loc dest n" and "ok sub" "mapped m dest n"
  shows "\<exists>st fc' sub' m'. packed_loop func f p loc fc sub m = Some (st, fc', sub', m') \<and>
    ok sub' \<and> R sub sub' \<and> frame m m' dest n"
  using assms(3-)
proof (induction "bytes_left sub" arbitrary: sub fc m rule: less_induct)
  case less
  note loop = packed_loop.simps [of func f p loc fc sub m]
  show ?case
  proof (cases "bytes_left sub = 0")
    case True
    then show ?thesis using less.prems by (intro exI [of _ True]) (simp add: loop R_refl)
  next
    case ne: False
    obtain k where k: "read_count loc fc m = Some k" using read_count_ok [OF loc less.prems(2)] by blast
    show ?thesis
    proof (cases "k < f_array_size f")
      case False
      then show ?thesis using ne k less.prems by (intro exI [of _ True]) (simp add: loop R_refl)
    next
      case True
      obtain st w where fn: "func sub f (p + unat (f_data_size f * k)) m = Some (st, w)"
        and t: "taken dest n sub m st w"
        using item [OF True less.prems] by (rule safeE)
      have w: "ok (fst w)" "R sub (fst w)" "frame m (snd w) dest n" "mapped (snd w) dest n"
        using t less.prems(2) by (auto simp: taken_def held_def)
      show ?thesis
      proof (cases st)
        case None
        then show ?thesis using ne k True fn w by (cases w) (intro exI [of _ False], simp add: loop)
      next
        case (Some x)
        obtain k' where k': "read_count loc fc (snd w) = Some k'" using read_count_ok [OF loc w(4)] by blast
        obtain fc2 m2 where wc: "write_count loc (k' + 1) fc (snd w) = Some (fc2, m2)" "frame (snd w) m2 dest n"
          using write_count_ok [OF loc w(4)] by blast
        have "bytes_left (fst w) < bytes_left sub" using t Some by (simp add: taken_def)
        from less.hyps [OF this w(1), of m2 fc2] wc(2) w(4)
        obtain st' fc' sub' m' where "packed_loop func f p loc fc2 (fst w) m2 = Some (st', fc', sub', m')"
          "ok sub'" "R (fst w) sub'" "frame m2 m' dest n" by auto
        then show ?thesis using ne k True fn Some k' wc w R_trans [of sub "fst w" sub']
            frame_trans [OF frame_trans [OF w(3) wc(2)], of m']
          by (cases w) (simp add: loop)
      qed
    qed
  qed
qed

end

subsection \<open>The three kinds of static fields\<close>

context submessage_decoder begin

lemma decoder_in_message:
  assumes "ok s" "mapped m dest n" "value_fits (fits d) f" "PB_ATYPE (f_type f) = PB_ATYPE_STATIC"
    and "dest \<le> p" "p + unat (f_data_size f) \<le> dest + n"
  shows "safe (held dest n s m) (PB_DECODERS dec (PB_LTYPE (f_type f)) s f p m)"
  by (rule held_mono [OF decoder_held [OF assms(1) mapped_sub [OF assms(2,5,6)] assms(3,4)] assms(5,6)])

lemma field_then_held:
  assumes "safe (held dest n s m) r" "frame m0 m dest n"
  shows "safe (held dest n s m0) (ok_then r (\<lambda>_ (s', m'). ret fc s' m'))"
  by (rule held_frame [OF assms(2)], rule held_then [OF assms(1)]) (simp add: held_ret)

lemma packed_field_held:
  assumes f: "PB_HTYPE (f_type f) = PB_HTYPE_REPEATED" "value_fits (fits d) f" "slot_size f < 2 ^ 32"
      "PB_LTYPE (f_type f) \<le> PB_LTYPE_LAST_PACKABLE"
    and p: "dest \<le> p" "p + slot_size f \<le> dest + n" "count_loc loc dest n"
    and "ok s" "mapped m dest n"
  shows "safe (held dest n s m) (ok_then (on_stream (pb_make_string_substream s) m) (\<lambda>sub (s1, m).
      do { (status, fc', sub', m') \<leftarrow>
             packed_loop (PB_DECODERS dec (PB_LTYPE (f_type f))) f p loc fc sub m;
           if bytes_left sub' \<noteq> 0 then w_error s1 m' ''array overflow''
           else ok_then (on_stream (pb_close_string_substream s1 sub') m') (\<lambda>_ (s2, m2).
             Some (if status then Some fc' else None, (s2, m2))) }))"
proof -
  obtain r t where mk: "pb_make_string_substream s = Some (r, t)" "moved s r t"
    "\<And>sub. r = Some sub \<Longrightarrow> substream_of s sub t"
    using make_substream_ok [OF assms(8)] by (auto elim!: safeE)
  show ?thesis
  proof (cases r)
    case None
    then show ?thesis using mk by (simp add: on_stream_def held_def moved_def)
  next
    case (Some sub)
    then have sub: "substream_of s sub t" using mk(3) by simp
    note oks = substream_ok [OF sub]
    have item: "safe (taken dest n s m) (PB_DECODERS dec (PB_LTYPE (f_type f)) s f
        (p + unat (f_data_size f * k)) m)"
      if "k < f_array_size f" "ok s" "mapped m dest n" for k s m
    proof -
      have r: "dest \<le> p + unat (f_data_size f * k)"
        "p + unat (f_data_size f * k) + unat (f_data_size f) \<le> dest + n"
        using p item_inside [OF f(1,3) that(1)] by simp_all
      show ?thesis
        by (rule taken_mono [OF packable_taken [OF that(2) mapped_sub [OF that(3) r] f(2,4)] r])
    qed
    obtain st fc' sub' m' where loop:
      "packed_loop (PB_DECODERS dec (PB_LTYPE (f_type f))) f p loc fc sub m = Some (st, fc', sub', m')"
      and w: "ok sub'" "R sub sub'" "frame m m' dest n"
      using packed_loop_held [where func = "PB_DECODERS dec (PB_LTYPE (f_type f))" and f = f
          and p = p and loc = loc and fc = fc and sub = sub, OF item p(3) oks(1) assms(9)] by blast
    obtain c t2 where close: "pb_close_string_substream t sub' = Some (c, t2)" "moved s c t2"
      using close_substream_ok [OF sub w(2,1)] by (auto elim: safeE)
    show ?thesis using mk(1) Some loop w close oks error_ok [OF oks(2)] R_trans [OF oks(3)]
      by (cases c) (auto simp: on_stream_def held_def moved_def w_error_def)
  qed
qed

lemma reset_member_ok:
  assumes "mapped m dest n" "value_fits (fits d) f" "dest \<le> p" "p + unat (f_data_size f) \<le> dest + n"
  shows "\<exists>m1. (if PB_LTYPE (f_type f) = PB_LTYPE_SUBMESSAGE \<and> w \<noteq> f_tag f
        then do { m' \<leftarrow> memset0 m p (unat (f_data_size f));
                  case f_ptr f of
                    Submsg_fields fds \<Rightarrow> pb_message_set_to_defaults (Suc d) u fds p m'
                  | _ \<Rightarrow> None }
        else Some m) = Some m1 \<and> frame m m1 dest n"
proof (cases "PB_LTYPE (f_type f) = PB_LTYPE_SUBMESSAGE \<and> w \<noteq> f_tag f")
  case True
  then obtain fds where sub: "f_ptr f = Submsg_fields fds" "fits d fds (unat (f_data_size f))"
    using assms(2) by (auto simp: value_fits_def Let_def split: pb_ptr.splits)
  obtain m1 where m1: "memset0 m p (unat (f_data_size f)) = Some m1" "frame m m1 dest n"
    using memset0_inside [OF assms(1,3,4)] by blast
  have "mapped m1 p (unat (f_data_size f))"
    using mapped_sub [OF assms(1,3,4)] m1(2) by simp
  from defaults_ok [OF fits_Suc [OF sub(2)] this]
  obtain m2 where "pb_message_set_to_defaults (Suc d) u fds p m1 = Some m2"
    "frame m1 m2 p (unat (f_data_size f))" by blast
  then show ?thesis using True sub(1) m1 frame_trans [OF m1(2) frame_mono [OF _ assms(3,4)]] by simp
next
  case False
  then show ?thesis unfolding if_not_P [OF False] by simp
qed

lemma decode_static_field_held:
  assumes s: "static_message (fits d) fds n" and it: "msg_iter fds dest it"
    and "ok s" "mapped m dest n"
  shows "safe (held dest n s m) (decode_static_field (Suc d) dec u wt it fc s m)"
proof -
  obtain f where f: "field_at (start it) (pos it) = Some f"
    and v: "PB_ATYPE (f_type f) = PB_ATYPE_STATIC" "value_fits (fits d) f" "slot_size f < 2 ^ 32"
    and p: "dest \<le> pData it" "pData it + slot_size f \<le> dest + n"
    and c: "PB_HTYPE (f_type f) = PB_HTYPE_REPEATED \<or> PB_HTYPE (f_type f) = PB_HTYPE_ONEOF \<Longrightarrow>
       count_loc (pSize it) dest n"
    and z: "PB_HTYPE (f_type f) \<noteq> PB_HTYPE_REPEATED \<Longrightarrow>
       \<exists>a. pSize it = In_struct a \<and>
         (PB_HTYPE (f_type f) = PB_HTYPE_OPTIONAL \<longrightarrow> a = pData it \<or> (dest \<le> a \<and> a + 1 \<le> dest + n))"
    by (rule msg_iterE [OF s it]) blast
  have lt: "\<not> PB_LTYPE (f_type f) > 0x0A" using v(2) by (auto simp: value_fits_def Let_def dest: leD)
  have whole: "safe (held dest n s m') (PB_DECODERS dec (PB_LTYPE (f_type f)) s f (pData it) m')"
    if "frame m m' dest n" "PB_HTYPE (f_type f) \<noteq> PB_HTYPE_REPEATED" for m'
    by (rule decoder_in_message [OF assms(3) _ v(2,1) p(1)])
      (use that p assms(4) in \<open>simp_all add: slot_size_def\<close>)
  show ?thesis
  proof (cases "f_type f" rule: PB_HTYPE_cases)
    case 1
    then show ?thesis
      using f lt field_then_held [OF whole [OF frame_refl] frame_refl] by (simp add: decode_static_field_def Let_def)
  next
    case 2
    obtain a where a: "pSize it = In_struct a" "a = pData it \<or> (dest \<le> a \<and> a + 1 \<le> dest + n)"
      using z 2 by auto
    then obtain m1 where m1: "(if pSize it \<noteq> In_struct (pData it)
        then do { a \<leftarrow> struct_addr (pSize it); store_u8 m a 1 } else Some m) = Some m1" "frame m m1 dest n"
      using store_u8_inside [OF assms(4), of a 1] by (cases "a = pData it") (auto simp: struct_addr_def)
    show ?thesis
      using f lt 2 field_then_held [OF whole [OF m1(2)] m1(2)]
      unfolding decode_static_field_def Let_def by (simp add: m1(1))
  next
    case 3
    show ?thesis
    proof (cases "wt = PB_WT_STRING \<and> PB_LTYPE (f_type f) \<le> PB_LTYPE_LAST_PACKABLE")
      case True
      show ?thesis
        using f lt 3 True packed_field_held [OF 3 v(2,3) _ p c assms(3,4), of fc]
        by (simp add: decode_static_field_def Let_def)
    next
      case False
      obtain k where k: "read_count (pSize it) fc m = Some k" using read_count_ok [OF c assms(4)] 3 by blast
      obtain fc1 m1 where w: "write_count (pSize it) (k + 1) fc m = Some (fc1, m1)" "frame m m1 dest n"
        using write_count_ok [OF c assms(4)] 3 by blast
      show ?thesis
      proof (cases "k \<ge> f_array_size f")
        case True
        then show ?thesis using f lt 3 False k w(1)
          unfolding decode_static_field_def Let_def by (auto simp: held_error [OF assms(3) w(2)])
      next
        case inside: False
        then have "k < f_array_size f" by simp
        then have r: "dest \<le> pData it + unat (f_data_size f * k)"
          "pData it + unat (f_data_size f * k) + unat (f_data_size f) \<le> dest + n"
          using p item_inside [OF 3 v(3), of k] by simp_all
        have "safe (held dest n s m1) (PB_DECODERS dec (PB_LTYPE (f_type f)) s f
            (pData it + unat (f_data_size f * k)) m1)"
          by (rule decoder_in_message [OF assms(3) _ v(2,1) r]) (use w assms(4) in simp)
        from field_then_held [OF this w(2)] show ?thesis using f lt 3 False k w(1) inside
          unfolding decode_static_field_def Let_def by auto
      qed
    qed
  next
    case 4
    obtain w where w: "read_count (pSize it) fc m = Some w" using read_count_ok [OF c assms(4)] 4 by blast
    have r: "dest \<le> pData it" "pData it + unat (f_data_size f) \<le> dest + n"
      using p 4 by (simp_all add: slot_size_def)
    obtain m1 where m1: "(if PB_LTYPE (f_type f) = PB_LTYPE_SUBMESSAGE \<and> w \<noteq> f_tag f
        then do { m' \<leftarrow> memset0 m (pData it) (unat (f_data_size f));
                  case f_ptr f of
                    Submsg_fields fds \<Rightarrow> pb_message_set_to_defaults (Suc d) u fds (pData it) m'
                  | _ \<Rightarrow> None }
        else Some m) = Some m1" "frame m m1 dest n"
      using reset_member_ok [OF assms(4) v(2) r] by blast
    have mp1: "mapped m1 dest n" using m1(2) assms(4) by simp
    obtain fc2 m2 where m2: "write_count (pSize it) (f_tag f) fc m1 = Some (fc2, m2)" "frame m1 m2 dest n"
      using write_count_ok [OF c mp1] 4 by blast
    have "frame m m2 dest n" by (rule frame_trans [OF m1(2) m2(2)])
    then have "safe (held dest n s m) (ok_then (PB_DECODERS dec (PB_LTYPE (f_type f)) s f (pData it) m2)
        (\<lambda>_ (s', m'). ret fc2 s' m'))"
      using field_then_held [OF whole] 4 by simp
    then show ?thesis using f lt 4 w m2(1)
      unfolding decode_static_field_def Let_def by (simp add: m1(1))
  qed
qed

end

end
