(* ===== verification/Decode_Safety.thy ===== *)
theory Decode_Safety imports Dec_Static begin

section \<open>Decoding a static message is safe\<close>

text \<open>
  The message loop on a message whose fields are all static: it ends for every input, has no
  undefined behaviour, and changes nothing outside the structure.
\<close>

subsection \<open>Iterators of the loop\<close>

lemma msg_iterI: "i < field_count fds \<Longrightarrow> msg_iter fds dest (iter_at fds dest i)"
  by (auto simp: msg_iter_def)

lemma next_local:
  assumes "terminated fds" "i < field_count fds" "PB_HTYPE (f_type (fds ! i)) = PB_HTYPE_REPEATED"
  shows "pb_field_iter_next ((iter_at fds dest i)\<lparr>pSize := l\<rparr>) = pb_field_iter_next (iter_at fds dest i)"
  using field_at_terminated [OF assms(1), of i] field_at_terminated [OF assms(1), of "Suc i"]
    terminated_nth(1) [OF assms(1,2)] assms(2,3)
  by (simp add: pb_field_iter_next_def Let_def)

text \<open>A search ends on a field, or where it began.\<close>

lemma iter_search_msg:
  assumes "terminated fds" "msg_iter fds dest it"
  shows "\<exists>it'. msg_iter fds dest it' \<and>
    iter_search p (pos it) it = Some (\<exists>i < field_count fds. p (fds ! i), it') \<and>
    ((\<exists>i < field_count fds. p (fds ! i)) \<longrightarrow> p (fds ! pos it'))"
proof -
  obtain i where i: "i < field_count fds" "it = iter_at fds dest i \<or>
      (it = (iter_at fds dest i)\<lparr>pSize := Local_count\<rparr> \<and> PB_HTYPE (f_type (fds ! i)) = PB_HTYPE_REPEATED)"
    using assms(2) unfolding msg_iter_def by blast
  have all: "set (cyclic i (field_count fds)) = {..<field_count fds}"
    using i(1) by (auto simp: cyclic_def)
  have found: "\<exists>it'. msg_iter fds dest it' \<and>
    iter_search p i (iter_at fds dest i) = Some (\<exists>i < field_count fds. p (fds ! i), it') \<and>
    ((\<exists>i < field_count fds. p (fds ! i)) \<longrightarrow> p (fds ! pos it'))"
  proof (cases "find (\<lambda>j. p (fds ! j)) (cyclic i (field_count fds))")
    case None
    then have "\<forall>j < field_count fds. \<not> p (fds ! j)" using all by (auto simp: find_None_iff)
    then show ?thesis using iter_search_cyclic [OF assms(1) i(1), of p dest] msg_iterI [OF i(1)]
      by (auto simp: None)
  next
    case (Some j)
    then have "p (fds ! j)" "j \<in> set (cyclic i (field_count fds))"
      by (auto simp: find_Some_iff)
    then show ?thesis using iter_search_cyclic [OF assms(1) i(1), of p dest] Some all
      by (auto simp: msg_iterI)
  qed
  from i(2) show ?thesis
  proof
    assume "it = iter_at fds dest i"
    then show ?thesis using found by simp
  next
    assume l: "it = (iter_at fds dest i)\<lparr>pSize := Local_count\<rparr> \<and> PB_HTYPE (f_type (fds ! i)) = PB_HTYPE_REPEATED"
    have f: "field_at fds i = Some (fds ! i)" using field_at_terminated [OF assms(1)] i(1) by simp
    show ?thesis
    proof (cases "p (fds ! i)")
      case True
      then have "iter_search p i it = Some (True, it)" using l f by (subst iter_search.simps) simp
      then show ?thesis using l True i(1) assms(2) by auto
    next
      case False
      have "iter_search p i it = iter_search p i (iter_at fds dest i)"
        using l f False next_local [OF assms(1) i(1)]
        by (subst (1 2) iter_search.simps) simp
      then show ?thesis using found l by simp
    qed
  qed
qed

lemma iter_find_msg:
  assumes "terminated fds" "msg_iter fds dest it"
  shows "\<exists>found it'. msg_iter fds dest it' \<and> pb_field_iter_find it tag = Some (found, it')"
  using iter_search_msg [OF assms, of "\<lambda>f. f_tag f = tag \<and> PB_LTYPE (f_type f) \<noteq> PB_LTYPE_EXTENSION"]
  unfolding pb_field_iter_find_def by auto

lemma iter_find_at:
  assumes "terminated fds" "i < field_count fds"
  shows "\<exists>found j. j < field_count fds \<and> pb_field_iter_find (iter_at fds dest i) tag = Some (found, iter_at fds dest j)"
proof -
  let ?p = "\<lambda>f. f_tag f = tag \<and> PB_LTYPE (f_type f) \<noteq> PB_LTYPE_EXTENSION"
  have "j < field_count fds" if "find (\<lambda>j. ?p (fds ! j)) (cyclic i (field_count fds)) = Some j" for j
  proof -
    have "j \<in> set (cyclic i (field_count fds))" using that by (auto simp: find_Some_iff)
    then show ?thesis using assms(2) by (auto simp: cyclic_def)
  qed
  then show ?thesis using iter_search_cyclic [OF assms, of ?p dest] assms(2)
    by (cases "find (\<lambda>j. ?p (fds ! j)) (cyclic i (field_count fds))")
      (auto simp: pb_field_iter_find_def)
qed

lemma find_extension_none:
  assumes "static_message (fits d) fds n" "msg_iter fds dest it"
  shows "\<exists>it'. msg_iter fds dest it' \<and> find_extension_field it = Some (False, it')"
proof -
  have "\<not> (\<exists>i < field_count fds. PB_LTYPE (f_type (fds ! i)) = PB_LTYPE_EXTENSION)"
    using static_messageD(4) [OF assms(1)] by (auto simp: value_fits_def Let_def)
  moreover obtain it' where "msg_iter fds dest it'" "find_extension_field it =
      Some (\<exists>i < field_count fds. PB_LTYPE (f_type (fds ! i)) = PB_LTYPE_EXTENSION, it')"
    using iter_search_msg [OF static_messageD(1) [OF assms(1)] assms(2),
        of "\<lambda>f. PB_LTYPE (f_type f) = PB_LTYPE_EXTENSION"]
    unfolding find_extension_field_def by blast
  ultimately show ?thesis by auto
qed

lemma msg_iter_field:
  assumes "terminated fds" "msg_iter fds dest it"
  shows "start it = fds" "pos it < field_count fds" "field_at (start it) (pos it) = Some (fds ! pos it)"
  using assms field_at_terminated [OF assms(1)] by (auto simp: msg_iter_def)

lemma seek_last_from:
  assumes "terminated fds" "i < field_count fds"
  shows "\<exists>r ty. seek_last (iter_at fds dest i) = Some (r, ty, iter_at fds dest 0)"
  using assms(2)
proof (induction "field_count fds - i" arbitrary: i)
  case (Suc k)
  have f: "field_at fds i = Some (fds ! i)" using field_at_terminated [OF assms(1)] Suc.prems by simp
  show ?case
  proof (cases "Suc i < field_count fds")
    case True
    then show ?thesis using Suc.hyps(1) [of "Suc i"] Suc.hyps(2) iter_next_at [OF assms(1) Suc.prems] f
      by (subst seek_last.simps) simp
  next
    case False
    then show ?thesis using iter_next_at [OF assms(1) Suc.prems] f
      by (subst seek_last.simps) simp
  qed
qed simp

lemma required_field_count_ok:
  assumes "terminated fds" "msg_iter fds dest it"
  shows "\<exists>k. required_field_count it = Some k"
proof -
  obtain i where i: "i < field_count fds" "it = iter_at fds dest i \<or>
      (it = (iter_at fds dest i)\<lparr>pSize := Local_count\<rparr> \<and> PB_HTYPE (f_type (fds ! i)) = PB_HTYPE_REPEATED)"
    using assms(2) unfolding msg_iter_def by blast
  have f: "field_at fds i = Some (fds ! i)" "field_at fds 0 = Some (fds ! 0)"
    using field_at_terminated [OF assms(1)] i(1) by simp_all
  have "seek_last it = seek_last (iter_at fds dest i)"
    using i f next_local [OF assms(1) i(1), where l = Local_count and dest = dest]
    by (subst (1 2) seek_last.simps) (auto cong: if_cong)
  then show ?thesis using seek_last_from [OF assms(1) i(1), of dest] f
    by (auto simp: required_field_count_def Let_def)
qed

subsection \<open>Decoding one field\<close>

context submessage_decoder begin

lemma release_union_ok:
  assumes s: "static_message (fits d) fds n" and it: "msg_iter fds dest it"
    and h: "PB_HTYPE (f_type (fds ! pos it)) = PB_HTYPE_ONEOF" and "ok s" and m: "mapped m dest n"
  shows "safe (\<lambda>r w. held dest n s m r w \<and> (\<forall>it'. r = Some it' \<longrightarrow> msg_iter fds dest it'))
    (pb_release_union_field (Suc d) u it s m)"
proof -
  note D = static_messageD [OF s]
  obtain f where f: "field_at (start it) (pos it) = Some f" "f = fds ! pos it"
    and c: "PB_HTYPE (f_type f) = PB_HTYPE_REPEATED \<or> PB_HTYPE (f_type f) = PB_HTYPE_ONEOF \<Longrightarrow>
       count_loc (pSize it) dest n"
    and z: "PB_HTYPE (f_type f) \<noteq> PB_HTYPE_REPEATED \<Longrightarrow>
       it = iter_at fds dest (pos it) \<and> (\<exists>a. pSize it = In_struct a)"
    by (rule msg_iterE [OF s it]) blast
  obtain a where a: "pSize it = In_struct a" "dest \<le> a" "a + 4 \<le> dest + n"
    using c z h f(2) by (auto simp: count_loc_def)
  obtain old where old: "load_u32 m a = Some old" using load_u32_inside [OF m a(2,3)] by blast
  have same: "held dest n s m r (s, m)" for r by (rule heldI [OF assms(4) R_refl frame_refl])
  have err: "held dest n s m r (i_set_error s msg, m)" for r msg
    using error_ok [OF assms(4)] by (intro heldI) auto
  have at: "it = iter_at fds dest (pos it)" "pos it < field_count fds"
    using z h f(2) msg_iter_field [OF D(1) it] by simp_all
  obtain found i1 where i1: "i1 < field_count fds"
    "pb_field_iter_find it old = Some (found, iter_at fds dest i1)"
    using iter_find_at [OF D(1) at(2), of dest old] unfolding at(1) [symmetric] by blast
  obtain found2 i2 where i2: "i2 < field_count fds"
    "pb_field_iter_find (iter_at fds dest i1) (f_tag f) = Some (found2, iter_at fds dest i2)"
    using iter_find_at [OF D(1) i1(1)] by blast
  have st: "field_at fds i2 = Some (fds ! i2)" "PB_ATYPE (f_type (fds ! i2)) = PB_ATYPE_STATIC"
    using field_at_terminated [OF D(1)] D(3) [OF i2(1)] i2(1) by simp_all
  have rel: "pb_release_single_field (Suc d) u (iter_at fds dest i1) m = Some m"
    by (rule release_field_same [OF s i1(1) m release_each])
  show ?thesis
    using f(1) a(1) old i1(2) i2(2) it rel st same err msg_iterI [OF i2(1), of dest]
    by (auto simp: pb_release_union_field_def Let_def struct_addr_def ret_def w_error_def)
qed

lemma decode_field_held:
  assumes s: "static_message (fits d) fds n" and it: "msg_iter fds dest it"
    and "ok s" and m: "mapped m dest n"
  shows "safe (\<lambda>r w. held dest n s m r w \<and> (\<forall>p. r = Some p \<longrightarrow> msg_iter fds dest (fst p)))
    (decode_field (Suc d) dec u wt it fc s m)"
proof -
  note D = static_messageD [OF s]
  have rel: "safe (\<lambda>r w. held dest n s m r w \<and> (\<forall>it'. r = Some it' \<longrightarrow> msg_iter fds dest it'))
     (if PB_HTYPE (f_type (fds ! pos it)) = PB_HTYPE_ONEOF then pb_release_union_field (Suc d) u it s m
      else ret it s m)"
    using release_union_ok [OF s it _ assms(3) m] it assms(3)
    by (simp add: ret_def held_def R_refl)
  have f: "field_at (start it) (pos it) = Some (fds ! pos it)" using msg_iter_field [OF D(1) it] by simp
  show ?thesis unfolding decode_field_def f bind.simps
  proof (rule safe_ok_then [OF rel])
    fix it' w assume w: "held dest n s m (Some it') w \<and> (\<forall>x. Some it' = Some x \<longrightarrow> msg_iter fds dest x)"
    have g: "field_at (start it') (pos it') = Some (fds ! pos it')"
      "PB_ATYPE (f_type (fds ! pos it')) = PB_ATYPE_STATIC"
      using msg_iter_field [OF D(1), of dest it'] D(3) w by simp_all
    have "safe (held dest n (fst w) (snd w)) (decode_static_field (Suc d) dec u wt it' fc (fst w) (snd w))"
      by (rule decode_static_field_held [OF s]) (use w m in \<open>auto simp: held_def\<close>)
    then have "safe (held dest n s m) (decode_static_field (Suc d) dec u wt it' fc (fst w) (snd w))"
      using w by (auto simp: held_def elim!: safe_weaken intro: R_trans frame_trans)
    then show "safe (\<lambda>r w. held dest n s m r w \<and> (\<forall>p. r = Some p \<longrightarrow> msg_iter fds dest (fst p)))
      (case w of (s1, m1) \<Rightarrow> field_at (start it') (pos it') \<bind> (\<lambda>g. let at = PB_ATYPE (f_type g) in
         if at = PB_ATYPE_STATIC
         then ok_then (decode_static_field (Suc d) dec u wt it' fc s1 m1)
                (\<lambda>fc' (s2, m2). ret (it', fc') s2 m2)
         else if at = PB_ATYPE_POINTER
         then ok_then (decode_pointer_field (Suc d) dec u wt it' fc s1 m1)
                (\<lambda>fc' (s2, m2). ret (it', fc') s2 m2)
         else if at = PB_ATYPE_CALLBACK
         then ok_then (decode_callback_field u wt it' s1 m1)
                (\<lambda>_ (s2, m2). ret (it', fc) s2 m2)
         else w_error s1 m1 ''invalid field type''))"
      using w by (cases w) (auto simp: g Let_def ret_def held_def elim!: safe_ok_then)
  qed (simp add: held_def)
qed

subsection \<open>One iteration\<close>

definition loop_inv :: "pb_field list \<Rightarrow> addr \<Rightarrow> dec_state \<Rightarrow> bool" where
  "loop_inv fds dest st \<longleftrightarrow> msg_iter fds dest (ds_iter st) \<and>
     (\<forall>i. ds_fixed_field st = Some i \<longrightarrow> i < field_count fds)"

definition stepped :: "pb_field list \<Rightarrow> addr \<Rightarrow> nat \<Rightarrow> istream \<Rightarrow> mem \<Rightarrow> loop_step option \<Rightarrow> world \<Rightarrow> bool" where
  "stepped fds dest n s m r w \<longleftrightarrow> held dest n s m r w \<and>
     (case r of None \<Rightarrow> True | Some (Continue st) \<Rightarrow> loop_inv fds dest st | Some (Break st) \<Rightarrow> loop_inv fds dest st)"

lemma skip_unknown_ok:
  assumes "ok s" "loop_inv fds dest st"
  shows "safe (stepped fds dest n s m) (skip_unknown st wt s m)"
proof -
  obtain r t where "pb_skip_field s wt = Some (r, t)" "moved s r t"
    using skip_field_ok [OF assms(1)] by (rule safeE)
  then show ?thesis using assms(2)
    by (cases r) (simp_all add: skip_unknown_def on_stream_def ret_def stepped_def held_def moved_def)
qed

lemma unknown_field_ok:
  assumes s: "static_message (fits d) fds n" and inv: "loop_inv fds dest st"
    and "ok s" "tag < 2 ^ 29"
  shows "safe (stepped fds dest n s m) (unknown_field (Suc d) dec u st tag wt s m)"
proof -
  obtain it where it: "msg_iter fds dest it" "find_extension_field (ds_iter st) = Some (False, it)"
    using find_extension_none [OF s] inv unfolding loop_inv_def by blast
  have f: "field_at (start it) (pos it) = Some (fds ! pos it)"
    using msg_iter_field [OF static_messageD(1) [OF s] it(1)] by simp
  have "tag < 0xFFFFFFFF" using assms(4) by (rule less_trans) simp
  then have "\<not> 0xFFFFFFFF \<le> tag" by (simp only: not_le)
  moreover have "loop_inv fds dest (st\<lparr>ds_iter := it, ds_ext_start := 0xFFFFFFFF\<rparr>)"
    using inv it by (simp add: loop_inv_def)
  ultimately show ?thesis
    using it f inv by (auto simp: unknown_field_def Let_def skip_unknown_ok [OF assms(3)] dest: leD)
qed

lemma enter_fixed_count_ok:
  assumes t: "terminated fds" and inv: "loop_inv fds dest st"
  shows "\<exists>r. enter_fixed_count st = Some r \<and> (\<forall>st'. r = Some st' \<longrightarrow> loop_inv fds dest st')"
proof -
  let ?it = "ds_iter st"
  have it: "msg_iter fds dest ?it" "\<And>i. ds_fixed_field st = Some i \<Longrightarrow> i < field_count fds"
    using inv by (simp_all add: loop_inv_def)
  note f = msg_iter_field [OF t it(1)]
  have l: "msg_iter fds dest (?it\<lparr>pSize := Local_count\<rparr>)"
    if "PB_HTYPE (f_type (fds ! pos ?it)) = PB_HTYPE_REPEATED"
    using it(1) that by (auto simp: msg_iter_def)
  have c: "\<exists>b. (case ds_fixed_field st of None \<Rightarrow> Some True
                 | Some i \<Rightarrow> map_option (\<lambda>g. ds_fixed_size st = f_array_size g) (field_at (start ?it) i)) = Some b"
    using it(2) field_at_terminated [OF t] f(1) by (auto split: option.splits)
  then obtain b where b: "(case ds_fixed_field st of None \<Rightarrow> Some True
                 | Some i \<Rightarrow> map_option (\<lambda>g. ds_fixed_size st = f_array_size g) (field_at (start ?it) i)) = Some b"
    by blast
  show ?thesis unfolding enter_fixed_count_def Let_def b f(3) bind.simps
    using l inv f(2) by (auto simp: loop_inv_def)
qed

lemma mark_required_ok:
  assumes "terminated fds" "loop_inv fds dest st"
  shows "\<exists>st'. mark_required st = Some st' \<and> loop_inv fds dest st'"
  using msg_iter_field(3) [OF assms(1), of dest "ds_iter st"] assms(2)
  by (auto simp: mark_required_def loop_inv_def Let_def)

lemma known_field_ok:
  assumes s: "static_message (fits d) fds n" and inv: "loop_inv fds dest st"
    and "ok s" and m: "mapped m dest n"
  shows "safe (stepped fds dest n s m) (known_field (Suc d) dec u st wt s m)"
proof -
  note t = static_messageD(1) [OF s]
  obtain r where r: "enter_fixed_count st = Some r" "\<And>st'. r = Some st' \<Longrightarrow> loop_inv fds dest st'"
    using enter_fixed_count_ok [OF t inv] by blast
  show ?thesis
  proof (cases r)
    case None
    then show ?thesis using r error_ok [OF assms(3)]
      by (simp add: known_field_def w_error_def stepped_def held_def)
  next
    case (Some st1)
    then obtain st2 where st2: "mark_required st1 = Some st2" "loop_inv fds dest st2"
      using mark_required_ok [OF t r(2)] by blast
    have "safe (\<lambda>r w. held dest n s m r w \<and> (\<forall>p. r = Some p \<longrightarrow> msg_iter fds dest (fst p)))
      (decode_field (Suc d) dec u wt (ds_iter st2) (ds_fixed_size st2) s m)"
      by (rule decode_field_held [OF s _ assms(3) m]) (use st2(2) in \<open>simp add: loop_inv_def\<close>)
    then obtain r w where df: "decode_field (Suc d) dec u wt (ds_iter st2) (ds_fixed_size st2) s m = Some (r, w)"
      "held dest n s m r w" "\<And>p. r = Some p \<Longrightarrow> msg_iter fds dest (fst p)" by (auto elim!: safeE)
    show ?thesis
    proof (cases r)
      case None
      then show ?thesis using r Some \<open>enter_fixed_count st = Some _\<close> st2 df
        by (simp add: known_field_def stepped_def held_def)
    next
      case (Some p)
      then show ?thesis using \<open>enter_fixed_count st = Some _\<close> \<open>_ = Some st1\<close> st2 df
        by (cases p; cases w) (simp add: known_field_def stepped_def held_def ret_def loop_inv_def)
    qed
  qed
qed

lemma noinit_step_ok:
  assumes s: "static_message (fits d) fds n" and inv: "loop_inv fds dest st"
    and "ok s" and m: "mapped m dest n"
  shows "safe (\<lambda>r w. stepped fds dest n s m r w \<and>
      (\<forall>st'. r = Some (Continue st') \<longrightarrow> bytes_left (fst w) < bytes_left s))
    (noinit_step (Suc d) dec u st s m)"
proof -
  note t = static_messageD(1) [OF s]
  obtain r e s1 where r: "pb_decode_tag s = Some (r, e, s1)" "shrunk s r s1"
    "\<And>wt tag. r = Some (wt, tag) \<Longrightarrow> tag < 2 ^ 29"
    using decode_tag_ok [OF assms(3)] by blast
  have s1: "ok s1" "R s s1" using r(2) by (simp_all add: shrunk_def)
  show ?thesis
  proof (cases r)
    case None
    then show ?thesis using r inv s1 by (simp add: noinit_step_def ret_def stepped_def held_def)
  next
    case (Some p)
    obtain wt tag where p: "p = (wt, tag)" by (cases p)
    have less: "bytes_left s1 < bytes_left s" "tag < 2 ^ 29" using r Some p by (simp_all add: shrunk_def)
    obtain found it where it: "msg_iter fds dest it" "pb_field_iter_find (ds_iter st) tag = Some (found, it)"
      using iter_find_msg [OF t] inv unfolding loop_inv_def by blast
    have inv': "loop_inv fds dest (st\<lparr>ds_iter := it\<rparr>)" using inv it(1) by (simp add: loop_inv_def)
    have "safe (stepped fds dest n s1 m)
      (if \<not> found then unknown_field (Suc d) dec u (st\<lparr>ds_iter := it\<rparr>) tag wt s1 m
       else known_field (Suc d) dec u (st\<lparr>ds_iter := it\<rparr>) wt s1 m)"
      using unknown_field_ok [OF s inv' s1(1) less(2)] known_field_ok [OF s inv' s1(1) m] by simp
    then obtain r2 w where "(if \<not> found then unknown_field (Suc d) dec u (st\<lparr>ds_iter := it\<rparr>) tag wt s1 m
       else known_field (Suc d) dec u (st\<lparr>ds_iter := it\<rparr>) wt s1 m) = Some (r2, w)"
      and w: "stepped fds dest n s1 m r2 w" by (rule safeE)
    then have step: "noinit_step (Suc d) dec u st s m = Some (r2, w)"
      using r(1) Some p it(2) by (simp add: noinit_step_def Let_def)
    have h: "held dest n s1 m r2 w" using w by (simp add: stepped_def)
    have "bytes_left (fst w) < bytes_left s" "R s (fst w)"
      using h less(1) R_left [of s1 "fst w"] R_trans [OF s1(2)] by (auto simp: held_def)
    then show ?thesis using step w by (simp add: stepped_def held_def)
  qed
qed

subsection \<open>The loop and the message\<close>

lemma noinit_loop_ok:
  assumes s: "static_message (fits d) fds n" and "loop_inv fds dest st" "ok s" "mapped m dest n"
  shows "safe (\<lambda>r w. held dest n s m r w \<and> (\<forall>st'. r = Some st' \<longrightarrow> loop_inv fds dest st'))
    (noinit_loop (Suc d) dec u st s m)"
  using assms(2-)
proof (induction "bytes_left s" arbitrary: s st m rule: less_induct)
  case less
  note loop = noinit_loop.simps [of "Suc d" dec u st s m]
  show ?case
  proof (cases "bytes_left s = 0")
    case True
    then show ?thesis using less.prems by (simp add: loop ret_def held_def R_refl)
  next
    case False
    obtain r w where step: "noinit_step (Suc d) dec u st s m = Some (r, w)" "stepped fds dest n s m r w"
      "\<And>st'. r = Some (Continue st') \<Longrightarrow> bytes_left (fst w) < bytes_left s"
      using noinit_step_ok [OF s less.prems, where u = u] by (auto elim!: safeE)
    have h: "ok (fst w)" "R s (fst w)" "frame m (snd w) dest n" "mapped (snd w) dest n"
      using step(2) less.prems(3) by (auto simp: stepped_def held_def)
    show ?thesis
    proof (cases r)
      case None
      then show ?thesis using step(1) h False by (simp add: loop held_def)
    next
      case (Some ls)
      show ?thesis
      proof (cases ls)
        case (Break st')
        then show ?thesis using step(1,2) Some h False
          by (cases w) (simp add: loop held_def ret_def stepped_def)
      next
        case (Continue st')
        have "safe (\<lambda>r v. held dest n (fst w) (snd w) r v \<and> (\<forall>st'. r = Some st' \<longrightarrow> loop_inv fds dest st'))
            (noinit_loop (Suc d) dec u st' (fst w) (snd w))"
          by (rule less.hyps) (use step Some Continue h in \<open>simp_all add: stepped_def\<close>)
        then show ?thesis using step(1) Some Continue h False R_trans [OF h(2)] frame_trans [OF h(3)]
          by (cases w) (auto simp: loop held_def elim!: safe_weaken)
      qed
    qed
  qed
qed

lemma finish_message_ok:
  assumes t: "terminated fds" and inv: "loop_inv fds dest st" and "ok s"
  shows "safe (held dest n s m) (finish_message st s m)"
proof -
  have it: "msg_iter fds dest (ds_iter st)" "\<And>i. ds_fixed_field st = Some i \<Longrightarrow> i < field_count fds"
    using inv by (simp_all add: loop_inv_def)
  obtain b where b: "(case ds_fixed_field st of None \<Rightarrow> Some True
      | Some i \<Rightarrow> map_option (\<lambda>g. ds_fixed_size st = f_array_size g)
                    (field_at (start (ds_iter st)) i)) = Some b"
    using it(2) field_at_terminated [OF t] msg_iter_field(1) [OF t it(1)]
    by (cases "ds_fixed_field st") auto
  obtain k where k: "required_field_count (ds_iter st) = Some k"
    using required_field_count_ok [OF t it(1)] by blast
  show ?thesis unfolding finish_message_def b k bind.simps
    by (simp add: held_error [OF assms(3)] held_ret [OF assms(3)])
qed

lemma noinit_with_ok:
  assumes s: "static_message (fits d) fds n" and "ok s" "mapped m dest n"
  shows "safe (held dest n s m) (noinit_with (Suc d) dec u s fds dest m)"
proof -
  note D = static_messageD [OF s]
  let ?st = "\<lparr>ds_iter = iter_at fds dest 0, ds_fields_seen = [0, 0], ds_ext_start = 0,
              ds_fixed_field = None, ds_fixed_size = 0\<rparr>"
  have inv: "loop_inv fds dest ?st" using msg_iterI [OF D(2)] by (simp add: loop_inv_def)
  have loop: "safe (\<lambda>r w. held dest n s m r w \<and> (\<forall>st'. r = Some st' \<longrightarrow> loop_inv fds dest st'))
    (noinit_loop (Suc d) dec u ?st s m)"
    by (rule noinit_loop_ok [OF s inv assms(2,3)])
  have "safe (held dest n s m) (ok_then (noinit_loop (Suc d) dec u ?st s m)
      (\<lambda>st (s', m'). finish_message st s' m'))"
  proof (rule safe_ok_then [OF loop])
    fix st w assume w: "held dest n s m (Some st) w \<and> (\<forall>st'. Some st = Some st' \<longrightarrow> loop_inv fds dest st')"
    then have "safe (held dest n (fst w) (snd w)) (finish_message st (fst w) (snd w))"
      by (intro finish_message_ok [OF D(1)]) (auto simp: held_def)
    then show "safe (held dest n s m) (case w of (s', m') \<Rightarrow> finish_message st s' m')"
      using w by (cases w) (auto simp: held_def elim!: safe_weaken intro: R_trans frame_trans)
  qed (simp add: held_def)
  then show ?thesis by (simp add: noinit_with_def iter_begin_at [OF D(1)])
qed

lemma init_with_ok:
  assumes s: "static_message (fits d) fds n" and "ok s" "mapped m dest n"
  shows "safe (held dest n s m) (init_with (Suc d) dec u s fds dest m)"
proof -
  have fit: "fits (Suc d) fds n" using s by simp
  obtain m1 where m1: "pb_message_set_to_defaults (Suc d) u fds dest m = Some m1" "frame m m1 dest n"
    using defaults_ok [OF fit assms(3)] by blast
  have mp: "mapped m1 dest n" using m1(2) assms(3) by simp
  obtain r w where w: "noinit_with (Suc d) dec u s fds dest m1 = Some (r, w)" "held dest n s m1 r w"
    using noinit_with_ok [OF s assms(2) mp] by (rule safeE)
  have h: "held dest n s m r w" using w(2) frame_trans [OF m1(2)] by (simp add: held_def)
  have "mapped (snd w) dest n" using h assms(3) by (auto simp: held_def)
  from release_ok [OF fit this] have "pb_release (Suc d) u fds dest (snd w) = Some (snd w)" .
  then show ?thesis using m1(1) w(1) h by (cases w; cases r) (simp_all add: init_with_def)
qed

end

context safe_stream begin

text \<open>Each nesting level meets the contract of the next one, so the decoder of messages meets it.\<close>

lemma decode_message_held:
  "fits d fds k \<Longrightarrow> mapped m dest k \<Longrightarrow> ok s \<Longrightarrow>
     safe (held dest k s m) (decode_message d u init s fds dest m)"
proof (induction d arbitrary: fds k m dest s init)
  case (Suc d)
  have contract: "submessage_decoder ok R (decode_message d u) d"
    by unfold_locales (rule Suc.IH)
  have "static_message (fits d) fds k" using Suc.prems(1) by simp
  then show ?case using submessage_decoder.init_with_ok [OF contract _ Suc.prems(3,2)]
      submessage_decoder.noinit_with_ok [OF contract _ Suc.prems(3,2)]
    by simp
qed simp

end

subsection \<open>The decoder on its two kinds of streams\<close>

interpretation buffer_level: submessage_decoder buffered within "decode_message d u" d for d u
  by unfold_locales (rule buffer.decode_message_held)

interpretation user_level: submessage_decoder well_behaved no_longer "decode_message d u" d for d u
  by unfold_locales (rule user.decode_message_held)

end
