(* ===== verification/Required_Fields.thy ===== *)
theory Required_Fields imports Decode_Safety begin

section \<open>Required fields are all checked\<close>

text \<open>
  \<open>pb_decode_noinit\<close> keeps one bit for each of the first 64 required fields. The set of these
  bits is the set of the required fields whose tags the loop has read, and the decoder succeeds exactly
  when none is missing.
\<close>

definition seen_bits :: "u32 list \<Rightarrow> nat set" where
  "seen_bits seen = {i. i < 64 \<and> bit (seen ! (i div 32)) (i mod 32)}"

lemma full_word: "(w :: u32) = - 1 \<longleftrightarrow> (\<forall>i < 32. bit w i)"
  by (auto simp: bit_eq_iff)

lemma low_mask: "0 < r \<Longrightarrow> r < 32 \<Longrightarrow> (w :: u32) = drop_bit (32 - r) (- 1) \<longleftrightarrow> (\<forall>i < 32. bit w i = (i < r))"
  by (auto simp: bit_eq_iff bit_simps)

lemma required_seen_bits:
  assumes "n \<le> 64" "seen_bits seen \<subseteq> {..<n}"
  shows "required_seen seen n = ({..<n} \<subseteq> seen_bits seen)"
proof -
  define q r where "q = n div 32" and "r = n mod 32"
  have n: "n = 32 * q + r" "r < 32" by (simp_all add: q_def r_def)
  have bits: "bit (seen ! k) i = (32 * k + i \<in> seen_bits seen)" if "k < 2" "i < 32" for k i
    using that by (simp add: seen_bits_def)
  have rest: "(seen ! q = drop_bit (32 - r) (- 1)) = (\<forall>i < r. 32 * q + i \<in> seen_bits seen)" if "r \<noteq> 0"
  proof -
    have q: "q < 2" using that assms(1) n by simp
    have "(\<forall>i < 32. bit (seen ! q) i = (i < r)) = (\<forall>i < r. 32 * q + i \<in> seen_bits seen)"
      using bits [OF q] assms(2) n by (auto dest: subsetD)
    then show ?thesis using low_mask [of r "seen ! q"] that n(2) by simp
  qed
  have front: "(seen ! k = - 1) = (\<forall>i < 32. 32 * k + i \<in> seen_bits seen)" if "k < q" for k
  proof -
    have "k < 2" using that assms(1) n by simp
    then show ?thesis using full_word [of "seen ! k"] bits [of k] by auto
  qed
  have "required_seen seen n = ((\<forall>k < q. \<forall>i < 32. 32 * k + i \<in> seen_bits seen) \<and>
      (\<forall>i < r. 32 * q + i \<in> seen_bits seen))"
    using rest front unfolding required_seen_def list_all_iff q_def [symmetric] r_def [symmetric]
    by (cases "r = 0") (simp_all add: Ball_def)
  also have "\<dots> = ({..<n} \<subseteq> seen_bits seen)"
  proof safe
    fix j assume all: "\<forall>k < q. \<forall>i < 32. 32 * k + i \<in> seen_bits seen" "\<forall>i < r. 32 * q + i \<in> seen_bits seen"
      and j: "j < n"
    have split: "j = 32 * (j div 32) + j mod 32" "j mod 32 < 32" by simp_all
    show "j \<in> seen_bits seen"
    proof (cases "j div 32 < q")
      case True
      from all(1) [rule_format, OF this split(2)] show ?thesis by simp
    next
      case False
      have "j < (q + 1) * 32" using j n by simp
      then have "j div 32 < q + 1" by (rule less_mult_imp_div_less)
      with False have d: "j div 32 = q" by simp
      have "32 * q + j mod 32 = j" using mult_div_mod_eq [of 32 j] unfolding d .
      then have "j mod 32 < r" using j n(1) by linarith
      then have "32 * q + j mod 32 \<in> seen_bits seen" using all(2) by blast
      then show ?thesis unfolding d [symmetric] by simp
    qed
  next
    fix k i :: nat assume sub: "{..<n} \<subseteq> seen_bits seen" and "k < q" "i < 32"
    then have "Suc k \<le> q" by simp
    then have "32 * Suc k \<le> 32 * q" by (rule mult_le_mono2)
    then have "32 * k + i < n" using \<open>i < 32\<close> n(1) by simp
    then show "32 * k + i \<in> seen_bits seen" by (intro subsetD [OF sub]) simp
  next
    fix i assume sub: "{..<n} \<subseteq> seen_bits seen" and "i < r"
    then have "32 * q + i < n" using n(1) by simp
    then show "32 * q + i \<in> seen_bits seen" by (intro subsetD [OF sub]) simp
  qed
  finally show ?thesis .
qed

lemma mark_bit:
  assumes "i < 64" "length seen = 2"
  shows "seen_bits (seen[i div 32 := (seen ! (i div 32)) OR push_bit (i mod 32) 1]) = insert i (seen_bits seen)"
proof -
  have lt: "i div 32 < 2" using assms(1) by simp
  have "bit (seen[i div 32 := (seen ! (i div 32)) OR push_bit (i mod 32) 1] ! (j div 32)) (j mod 32) =
      (bit (seen ! (j div 32)) (j mod 32) \<or> j = i)" for j
  proof (cases "j div 32 = i div 32")
    case True
    have "(j mod 32 = i mod 32) = (j = i)" using True by (metis div_mult_mod_eq)
    then show ?thesis using True lt assms(2) by (auto simp: bit_simps)
  next
    case False
    then show ?thesis by auto
  qed
  then show ?thesis using assms(1) by (auto simp: seen_bits_def)
qed

subsection \<open>The fields of a message\<close>

text \<open>The required fields before position \<open>i\<close>.\<close>

definition required_before :: "pb_field list \<Rightarrow> nat \<Rightarrow> nat" where
  "required_before fds i = length (filter is_required (take i fds))"

lemma required_before_Suc:
  "i < length fds \<Longrightarrow> required_before fds (Suc i) = required_before fds i + (if is_required (fds ! i) then 1 else 0)"
  by (simp add: required_before_def take_Suc_conv_app_nth)

lemma required_before_mono: "i \<le> j \<Longrightarrow> required_before fds i \<le> required_before fds j"
proof (induction j)
  case (Suc j)
  have "required_before fds j \<le> required_before fds (Suc j)"
    by (cases "j < length fds") (simp_all add: required_before_Suc, simp add: required_before_def)
  then show ?case using Suc by (cases "i = Suc j") auto
qed simp

lemma required_before_less:
  assumes "i < j" "i < length fds" "is_required (fds ! i)"
  shows "required_before fds i < required_before fds j"
  using required_before_mono [of "Suc i" j fds] required_before_Suc [OF assms(2)] assms(1,3) by simp

lemma required_before_inj:
  assumes "i < length fds" "j < length fds" "is_required (fds ! i)" "is_required (fds ! j)"
    and "required_before fds i = required_before fds j"
  shows "i = j"
  using required_before_less [of i j fds] required_before_less [of j i fds] assms
  by (cases i j rule: linorder_cases) auto

lemma required_before_onto:
  "k < required_before fds n \<Longrightarrow> n \<le> length fds \<Longrightarrow>
     \<exists>i < n. is_required (fds ! i) \<and> required_before fds i = k"
proof (induction n)
  case (Suc n)
  show ?case
  proof (cases "k < required_before fds n")
    case True
    then show ?thesis using Suc by (auto intro: less_SucI)
  next
    case False
    then have "is_required (fds ! n)" "required_before fds n = k"
      using Suc.prems required_before_Suc [of n fds] by (auto split: if_splits)
    then show ?thesis by blast
  qed
qed (simp add: required_before_def)


lemma required_before_all: "terminated fds \<Longrightarrow> length (filter is_required (butlast fds)) = required_before fds (field_count fds)"
  by (simp add: required_before_def field_count_def butlast_conv_take)

subsection \<open>The tags a message is decoded from\<close>

text \<open>
  \<open>noinit_run d dec u st s m tags st' s' m'\<close>: the loop of \<open>pb_decode_noinit\<close> goes from \<open>st\<close>, the stream \<open>s\<close> and the
  memory \<open>m\<close> to the primed ones without an error, and \<open>tags\<close> are the field numbers that \<open>pb_decode_tag\<close> reads on the way.
\<close>

inductive noinit_run ::
  "nat \<Rightarrow> message_decoder \<Rightarrow> user_code \<Rightarrow> dec_state \<Rightarrow> istream \<Rightarrow> mem \<Rightarrow> u32 list \<Rightarrow> dec_state \<Rightarrow> istream \<Rightarrow> mem \<Rightarrow> bool"
  for d dec u where
  run_end: "bytes_left s = 0 \<Longrightarrow> noinit_run d dec u st s m [] st s m"
| run_break: "bytes_left s \<noteq> 0 \<Longrightarrow> noinit_step d dec u st s m = Some (Some (Break st'), (s', m')) \<Longrightarrow>
    noinit_run d dec u st s m [] st' s' m'"
| run_field: "bytes_left s \<noteq> 0 \<Longrightarrow> pb_decode_tag s = Some (Some (wt, tag), eof, s0) \<Longrightarrow>
    noinit_step d dec u st s m = Some (Some (Continue st1), (s1, m1)) \<Longrightarrow>
    noinit_run d dec u st1 s1 m1 tags st' s' m' \<Longrightarrow> noinit_run d dec u st s m (tag # tags) st' s' m'"

text \<open>The run of a whole message, and what the checks after it are to decide.\<close>

definition message_run ::
  "nat \<Rightarrow> user_code \<Rightarrow> istream \<Rightarrow> pb_field list \<Rightarrow> addr \<Rightarrow> mem \<Rightarrow> u32 list \<Rightarrow> dec_state \<Rightarrow> istream \<Rightarrow> mem \<Rightarrow> bool" where
  "message_run d u s fds dest m tags st s' m' \<longleftrightarrow> (\<exists>found it. pb_field_iter_begin fds dest = Some (found, it) \<and>
     noinit_run d (decode_message (d - 1) u) u
       \<lparr>ds_iter = it, ds_fields_seen = [0, 0], ds_ext_start = 0, ds_fixed_field = None, ds_fixed_size = 0\<rparr> s m tags st s' m')"

definition fixed_complete :: "pb_field list \<Rightarrow> dec_state \<Rightarrow> bool" where
  "fixed_complete fds st \<longleftrightarrow> (\<forall>i. ds_fixed_field st = Some i \<longrightarrow> ds_fixed_size st = f_array_size (fds ! i))"

definition required_met :: "pb_field list \<Rightarrow> u32 list \<Rightarrow> bool" where
  "required_met fds tags \<longleftrightarrow> (\<forall>p < field_count fds.
     is_required (fds ! p) \<and> required_before fds p < 64 \<longrightarrow> f_tag (fds ! p) \<in> set tags)"

lemma noinit_step_Continue:
  assumes "noinit_step d dec u st s m = Some (Some (Continue st'), w)"
  shows "\<exists>wt tag eof s0. pb_decode_tag s = Some (Some (wt, tag), eof, s0)"
  using assms by (auto simp: noinit_step_def ret_def split: bind_splits option.splits if_splits prod.splits)

lemma noinit_run_loop: "noinit_run d dec u st s m tags st' s' m' \<Longrightarrow> noinit_loop d dec u st s m = Some (Some st', (s', m'))"
  by (induction rule: noinit_run.induct) (subst noinit_loop.simps, simp add: ret_def)+

lemma noinit_loop_run:
  assumes "noinit_loop d dec u st s m = Some (Some st', (s', m'))"
  shows "\<exists>tags. noinit_run d dec u st s m tags st' s' m'"
proof -
  have "\<forall>st' s' m'. y = (Some st', (s', m')) \<longrightarrow> (\<exists>tags. noinit_run d dec u st s m tags st' s' m')"
    if "noinit_loop d dec u st s m = Some y" for y
  proof (rule noinit_loop.raw_induct [OF _ that])
    fix loop d dec u st s m y
    assume IH: "\<And>d dec u st s m y. loop d dec u st s m = Some y \<Longrightarrow>
        \<forall>st' s' m'. y = (Some st', (s', m')) \<longrightarrow> (\<exists>tags. noinit_run d dec u st s m tags st' s' m')"
      and body: "(if bytes_left s = 0 then ret st s m else ok_then (noinit_step d dec u st s m) (\<lambda>r (s', m').
        case r of Break st' \<Rightarrow> ret st' s' m' | Continue st' \<Rightarrow> loop d dec u st' s' m')) = Some y"
    show "\<forall>st' s' m'. y = (Some st', (s', m')) \<longrightarrow> (\<exists>tags. noinit_run d dec u st s m tags st' s' m')"
    proof (cases "bytes_left s = 0")
      case True
      then show ?thesis using body by (auto simp: ret_def intro: noinit_run.run_end)
    next
      case False
      then obtain r w where step: "noinit_step d dec u st s m = Some (r, w)"
        using body by (auto simp: ok_then_def split: option.splits)
      show ?thesis
      proof (cases r)
        case None
        then show ?thesis using body False step by (auto simp: ok_then_def)
      next
        case (Some ls)
        obtain s1 m1 where w: "w = (s1, m1)" by (cases w)
        show ?thesis
        proof (cases ls)
          case (Break st1)
          then show ?thesis using body False step Some w by (auto simp: ret_def intro: noinit_run.run_break)
        next
          case (Continue st1)
          then have rec: "loop d dec u st1 s1 m1 = Some y" using body False step Some w by simp
          obtain wt tag eof s0 where tag: "pb_decode_tag s = Some (Some (wt, tag), eof, s0)"
            using noinit_step_Continue step Some Continue by blast
          show ?thesis
            using IH [OF rec] noinit_run.run_field [OF False tag step [unfolded Some Continue w]] by blast
        qed
      qed
    qed
  qed
  with assms show ?thesis by blast
qed

subsection \<open>The bits that a run leaves\<close>

text \<open>The bits of the required fields with one of these tags.\<close>

definition tag_bits :: "pb_field list \<Rightarrow> u32 set \<Rightarrow> nat set" where
  "tag_bits fds tags = {required_before fds p | p.
     p < field_count fds \<and> is_required (fds ! p) \<and> required_before fds p < 64 \<and> f_tag (fds ! p) \<in> tags}"

lemma msg_iter_index:
  assumes "terminated fds" "msg_iter fds dest it"
  shows "required_field_index it = required_before fds (pos it)"
  using assms required_index_at [OF assms(1)] by (auto simp: msg_iter_def required_before_def)

lemma mark_required_bits:
  assumes "terminated fds" "msg_iter fds dest (ds_iter st)" "length (ds_fields_seen st) = 2" "mark_required st = Some st'"
  defines "p \<equiv> pos (ds_iter st)"
  shows "length (ds_fields_seen st') = 2" and "seen_bits (ds_fields_seen st') = seen_bits (ds_fields_seen st) \<union>
    (if is_required (fds ! p) \<and> required_before fds p < 64 then {required_before fds p} else {})"
proof -
  note it = msg_iter_field [OF assms(1,2)] msg_iter_index [OF assms(1,2)]
  let ?i = "required_before fds p"
  have st': "st' = (if is_required (fds ! p) \<and> ?i < 64 then st\<lparr>ds_fields_seen :=
      (ds_fields_seen st)[?i div 32 := (ds_fields_seen st ! (?i div 32)) OR push_bit (?i mod 32) 1]\<rparr> else st)"
    using assms(4) it unfolding p_def by (auto simp: mark_required_def is_required_def Let_def split: if_splits)
  show "length (ds_fields_seen st') = 2" using st' assms(3) by simp
  show "seen_bits (ds_fields_seen st') = seen_bits (ds_fields_seen st) \<union>
    (if is_required (fds ! p) \<and> ?i < 64 then {?i} else {})"
    using mark_bit [of ?i "ds_fields_seen st"] assms(3) by (simp add: st')
qed

lemma enter_fixed_count_keeps:
  assumes "enter_fixed_count st = Some (Some st')"
  shows "ds_fields_seen st' = ds_fields_seen st" "pos (ds_iter st') = pos (ds_iter st)"
  using assms by (auto simp: enter_fixed_count_def Let_def split: bind_splits if_splits)

lemma enter_fixed_count_msg:
  assumes "terminated fds" "msg_iter fds dest (ds_iter st)" "enter_fixed_count st = Some (Some st')"
  shows "msg_iter fds dest (ds_iter st')"
proof -
  have "msg_iter fds dest ((ds_iter st)\<lparr>pSize := Local_count\<rparr>)" if "PB_HTYPE (f_type (fds ! pos (ds_iter st))) = PB_HTYPE_REPEATED"
    using assms(2) that by (auto simp: msg_iter_def)
  then show ?thesis using assms(2,3) msg_iter_field [OF assms(1,2)]
    by (auto simp: enter_fixed_count_def Let_def split: bind_splits if_splits)
qed

lemma unknown_field_keeps:
  assumes "unknown_field d dec u st tag wt s m = Some (Some (Continue st'), w)"
  shows "ds_fields_seen st' = ds_fields_seen st"
  using assms by (auto simp: unknown_field_def skip_unknown_def ok_then_def ret_def Let_def
      split: bind_splits option.splits if_splits prod.splits)

lemma known_field_parts:
  assumes "known_field d dec u st wt s m = Some (Some (Continue st'), w)"
  shows "\<exists>st1 st2. enter_fixed_count st = Some (Some st1) \<and> mark_required st1 = Some st2 \<and> ds_fields_seen st' = ds_fields_seen st2"
  using assms by (auto simp: known_field_def ok_then_def ret_def w_error_def split: bind_splits option.splits if_splits prod.splits)

lemma noinit_step_Break: "noinit_step d dec u st s m = Some (Some (Break st'), w) \<Longrightarrow> st' = st"
  by (auto simp: noinit_step_def ret_def unknown_field_def known_field_def skip_unknown_def ok_then_def w_error_def Let_def
      split: bind_splits option.splits if_splits prod.splits)

text \<open>With distinct field numbers a step marks the required field whose tag it read, and nothing else.\<close>

lemma step_bits:
  assumes "terminated fds" "\<forall>i < field_count fds. PB_LTYPE (f_type (fds ! i)) \<noteq> PB_LTYPE_EXTENSION"
    "distinct (map f_tag (butlast fds))" "msg_iter fds dest (ds_iter st)" "length (ds_fields_seen st) = 2"
    "pb_decode_tag s = Some (Some (wt, tag), eof, s0)" "noinit_step d dec u st s m = Some (Some (Continue st'), w)"
  shows "length (ds_fields_seen st') = 2 \<and>
    seen_bits (ds_fields_seen st') = seen_bits (ds_fields_seen st) \<union> tag_bits fds {tag}"
proof -
  let ?p = "\<lambda>f. f_tag f = tag \<and> PB_LTYPE (f_type f) \<noteq> PB_LTYPE_EXTENSION"
  obtain it where it: "msg_iter fds dest it" "pb_field_iter_find (ds_iter st) tag = Some (\<exists>i < field_count fds. ?p (fds ! i), it)"
    "(\<exists>i < field_count fds. ?p (fds ! i)) \<longrightarrow> ?p (fds ! pos it)"
    using iter_search_msg [OF assms(1,4), of ?p] unfolding pb_field_iter_find_def by blast
  let ?st = "st\<lparr>ds_iter := it\<rparr>"
  have p: "pos it < field_count fds" by (rule msg_iter_field(2) [OF assms(1) it(1)])
  show ?thesis
  proof (cases "\<exists>i < field_count fds. ?p (fds ! i)")
    case False
    then have "unknown_field d dec u ?st tag wt s0 m = Some (Some (Continue st'), w)"
      using assms(6,7) it(2) by (simp add: noinit_step_def Let_def)
    moreover have "tag_bits fds {tag} = {}" using False assms(2) by (auto simp: tag_bits_def)
    ultimately show ?thesis using unknown_field_keeps assms(5) by fastforce
  next
    case True
    then have "known_field d dec u ?st wt s0 m = Some (Some (Continue st'), w)"
      using assms(6,7) it(2) by (simp add: noinit_step_def Let_def)
    then obtain st1 st2 where k: "enter_fixed_count ?st = Some (Some st1)" "mark_required st1 = Some st2"
      "ds_fields_seen st' = ds_fields_seen st2" using known_field_parts by blast
    note e = enter_fixed_count_keeps [OF k(1), simplified]
    have it1: "msg_iter fds dest (ds_iter st1)"
      using enter_fixed_count_msg [OF assms(1) _ k(1)] it(1) by simp
    have tag: "f_tag (fds ! pos it) = tag" using it(3) True by blast
    have nth: "map f_tag (butlast fds) ! q = f_tag (fds ! q)" "q < length (map f_tag (butlast fds))" if "q < field_count fds" for q
      using that by (simp_all add: field_count_def nth_butlast)
    have only: "q = pos it" if "q < field_count fds" "f_tag (fds ! q) = tag" for q
      using nth_eq_iff_index_eq [OF assms(3) nth(2) [OF that(1)] nth(2) [OF p]] nth(1) [OF that(1)] nth(1) [OF p] that(2) tag by metis
    then have iff: "q < field_count fds \<and> f_tag (fds ! q) = tag \<longleftrightarrow> q = pos it" for q using p tag by blast
    have "tag_bits fds {tag} = (if is_required (fds ! pos it) \<and> required_before fds (pos it) < 64 then {required_before fds (pos it)} else {})"
    proof -
      have "tag_bits fds {tag} = {required_before fds q | q. q = pos it \<and> is_required (fds ! q) \<and> required_before fds q < 64}"
        unfolding tag_bits_def using iff by blast
      then show ?thesis by auto
    qed
    then show ?thesis using mark_required_bits [OF assms(1) it1 _ k(2)] k(3) e assms(5) by simp
  qed
qed

context submessage_decoder begin

lemma run_bits:
  assumes s: "static_message (fits d) fds n" and distinct: "distinct (map f_tag (butlast fds))"
  shows "noinit_run (Suc d) dec u st s m tags st' s' m' \<Longrightarrow> loop_inv fds dest st \<Longrightarrow> length (ds_fields_seen st) = 2 \<Longrightarrow>
    ok s \<Longrightarrow> mapped m dest n \<Longrightarrow>
    loop_inv fds dest st' \<and> seen_bits (ds_fields_seen st') = seen_bits (ds_fields_seen st) \<union> tag_bits fds (set tags)"
proof (induction rule: noinit_run.induct)
  case (run_end s st m)
  then show ?case by (simp add: tag_bits_def)
next
  case (run_break s st m st' s' m')
  then show ?case using noinit_step_Break by (fastforce simp: tag_bits_def)
next
  case (run_field s wt tag eof s0 st m st1 s1 m1 tags st' s' m')
  have ext: "\<forall>i < field_count fds. PB_LTYPE (f_type (fds ! i)) \<noteq> PB_LTYPE_EXTENSION"
    using static_messageD(4) [OF s] by (auto simp: value_fits_def Let_def)
  have "stepped fds dest n s m (Some (Continue st1)) (s1, m1)"
    using noinit_step_ok [OF s run_field.prems(1,3,4), of u] run_field.hyps(3) by (auto elim!: safeE)
  then have ok: "loop_inv fds dest st1" "ok s1" "mapped m1 dest n"
    using run_field.prems(4) by (auto simp: stepped_def held_def)
  have one: "length (ds_fields_seen st1) = 2" "seen_bits (ds_fields_seen st1) = seen_bits (ds_fields_seen st) \<union> tag_bits fds {tag}"
    using step_bits [OF static_messageD(1) [OF s] ext distinct _ run_field.prems(2) run_field.hyps(2,3)] run_field.prems(1)
    by (auto simp: loop_inv_def)
  have "tag_bits fds (set (tag # tags)) = tag_bits fds {tag} \<union> tag_bits fds (set tags)" by (auto simp: tag_bits_def)
  with run_field.IH [OF ok(1) one(1) ok(2,3)] one(2) show ?case by auto
qed

end

subsection \<open>The checks after the loop\<close>

lemma required_met_bits:
  assumes "terminated fds"
  shows "{..<min (required_before fds (field_count fds)) 64} \<subseteq> tag_bits fds (set tags) \<longleftrightarrow> required_met fds tags"
proof -
  let ?N = "field_count fds"
  have len: "?N < length fds" using terminated_nth(3) [OF assms(1)] .
  have below: "required_before fds p < required_before fds ?N" if "p < ?N" "is_required (fds ! p)" for p
    using required_before_less [OF that(1) _ that(2)] that(1) len by simp
  show ?thesis
  proof
    assume all: "{..<min (required_before fds ?N) 64} \<subseteq> tag_bits fds (set tags)"
    show "required_met fds tags"
      unfolding required_met_def
    proof (intro allI impI)
      fix p assume p: "p < ?N" "is_required (fds ! p) \<and> required_before fds p < 64"
      then have "required_before fds p \<in> tag_bits fds (set tags)" using below [of p] by (intro subsetD [OF all]) simp
      then obtain q where q: "q < ?N" "is_required (fds ! q)" "required_before fds p = required_before fds q" "f_tag (fds ! q) \<in> set tags"
        by (auto simp: tag_bits_def)
      have "p = q" by (rule required_before_inj) (use p q len in auto)
      then show "f_tag (fds ! p) \<in> set tags" using q(4) by simp
    qed
  next
    assume all: "required_met fds tags"
    show "{..<min (required_before fds ?N) 64} \<subseteq> tag_bits fds (set tags)"
    proof
      fix k assume k: "k \<in> {..<min (required_before fds ?N) 64}"
      then obtain i where "i < ?N" "is_required (fds ! i)" "required_before fds i = k"
        using required_before_onto [of k fds ?N] len by auto
      then show "k \<in> tag_bits fds (set tags)" using all k by (auto simp: tag_bits_def required_met_def)
    qed
  qed
qed

lemma required_count_msg:
  assumes "terminated fds" "msg_iter fds dest it"
  shows "required_field_count it = Some (min (length (filter is_required (butlast fds))) 64)"
proof -
  obtain i where i: "i < field_count fds" "it = iter_at fds dest i \<or>
      (it = (iter_at fds dest i)\<lparr>pSize := Local_count\<rparr> \<and> PB_HTYPE (f_type (fds ! i)) = PB_HTYPE_REPEATED)"
    using assms(2) unfolding msg_iter_def by blast
  have "seek_last it = seek_last (iter_at fds dest i)"
    using i next_local [OF assms(1) i(1), where l = Local_count and dest = dest] field_at_terminated [OF assms(1), of i]
    by (subst (1 2) seek_last.simps) (auto cong: if_cong)
  then show ?thesis using required_count_at [OF assms(1) i(1), of dest] by (simp add: required_field_count_def)
qed

lemma finish_message_bits:
  assumes t: "terminated fds" and it: "msg_iter fds dest (ds_iter st)" and fixed: "\<forall>i. ds_fixed_field st = Some i \<longrightarrow> i < field_count fds"
    and bits: "seen_bits (ds_fields_seen st) = tag_bits fds (set tags)"
  shows "finish_message st s m =
    (if \<not> fixed_complete fds st then w_error s m ''wrong size for fixed count field''
     else if required_met fds tags then ret () s m else w_error s m ''missing required field'')"
proof -
  let ?R = "min (required_before fds (field_count fds)) 64"
  have complete: "(case ds_fixed_field st of None \<Rightarrow> Some True
      | Some i \<Rightarrow> map_option (\<lambda>g. ds_fixed_size st = f_array_size g) (field_at (start (ds_iter st)) i)) = Some (fixed_complete fds st)"
    using fixed msg_iter_field(1) [OF t it] field_at_terminated [OF t]
    by (auto simp: fixed_complete_def split: option.splits)
  have count: "required_field_count (ds_iter st) = Some ?R"
    using required_count_msg [OF t it] required_before_all [OF t] by simp
  have "seen_bits (ds_fields_seen st) \<subseteq> {..<?R}"
    using required_before_less [of _ "field_count fds" fds] terminated_nth(3) [OF t] unfolding bits by (auto simp: tag_bits_def)
  from required_seen_bits [OF _ this] have "required_seen (ds_fields_seen st) ?R \<longleftrightarrow> required_met fds tags"
    using required_met_bits [OF t] bits by simp
  moreover have "required_met fds tags" if "?R = 0" using required_met_bits [OF t, of tags] that by simp
  ultimately show ?thesis unfolding finish_message_def complete count by auto
qed


abbreviation (input) one_required :: "pb_field list" where
  "one_required \<equiv> [Pb_Field 1 0x00 0 0 1 0 Null_ptr, PB_LAST_FIELD]"

lemma one_required: "fits (Suc 0) one_required 1" "distinct (map f_tag (butlast one_required))"
  by code_simp+

lemma one_required_decodes:
  "\<exists>s' m'. pb_decode_noinit (Suc 0) no_user_code (pb_istream_from_buffer [0x08, 1] 2) one_required 16
     (one_object 16 [0]) = Some (Some (), (s', m'))"
proof -
  have "(case pb_decode_noinit (Suc 0) no_user_code (pb_istream_from_buffer [0x08, 1] 2) one_required 16
     (one_object 16 [0]) of Some (Some (), _) \<Rightarrow> True | _ \<Rightarrow> False)" by code_simp
  then show ?thesis by (auto split: option.splits)
qed


end
