(* ===== verification/Integer_Theorems.thy ===== *)
theory Integer_Theorems imports Decode_Field begin

section \<open>Integer fields hold the decoded value or the decoder fails\<close>

text \<open>
  The three integer decoders of \<open>pb_decode.c\<close>: a varint is stored in the field's own width, and
  the decoder reports \<open>integer too large\<close> exactly when the value is out of the range of that
  width.
\<close>

subsection \<open>Truncation\<close>

lemma le_bytes_mod [simp]: "le_bytes n (v mod 256 ^ n) = le_bytes n v"
proof (induction n arbitrary: v)
  case (Suc n)
  have "v mod (256 * 256 ^ n) div 256 = v div 256 mod 256 ^ n"
    unfolding mod_mult2_eq by simp
  moreover have "(of_nat (v mod (256 * 256 ^ n)) :: u8) = of_nat v"
    by (rule word_unat_eq_iff [THEN iffD2])
      (simp add: unat_of_nat_u8 mod_mod_cancel)
  ultimately show ?case using Suc by simp
qed simp

lemma unat_ucast_narrow:
  "unat (ucast (v :: u64) :: u32) = unat v mod 256 ^ 4"
  "unat (ucast (v :: u64) :: u16) = unat v mod 256 ^ 2"
  "unat (ucast (v :: u64) :: u8) = unat v mod 256 ^ 1"
  by (simp_all add: unsigned_ucast_eq take_bit_eq_mod)

lemma store_narrow:
  "store_u32 m p (ucast (v :: u64)) = store_bytes m p (le_bytes 4 (unat v))"
  "store_u16 m p (ucast (v :: u64)) = store_bytes m p (le_bytes 2 (unat v))"
  "store_u8 m p (ucast (v :: u64)) = store_bytes m p (le_bytes 1 (unat v))"
  by (simp_all only: store_u32_def store_u16_def store_u8_def unat_ucast_narrow le_bytes_mod)

lemma zero_extend_same:
  "(ucast (ucast (v :: u64) :: u32) = v) = (unat v < 2 ^ 32)"
  "(ucast (ucast (v :: u64) :: u16) = v) = (unat v < 2 ^ 16)"
  "(ucast (ucast (v :: u64) :: u8) = v) = (unat v < 2 ^ 8)"
  unfolding word_unat_eq_iff unsigned_ucast_eq
  by (simp_all add: unsigned_take_bit_eq take_bit_nat_eq_self_iff)

lemma sint_widen:
  "sint (scast (x :: u32) :: u64) = signed_take_bit 63 (sint x)"
  "sint (scast (y :: u16) :: u64) = signed_take_bit 63 (sint y)"
  "sint (scast (z :: u8) :: u64) = signed_take_bit 63 (sint z)"
  by (simp_all add: signed_scast_eq)

lemma sint_truncate:
  "sint (ucast (v :: u64) :: u32) = signed_take_bit 31 (uint v)"
  "sint (ucast (v :: u64) :: u16) = signed_take_bit 15 (uint v)"
  "sint (ucast (v :: u64) :: u8) = signed_take_bit 7 (uint v)"
  by (simp_all add: signed_ucast_eq)

lemma sint_narrow:
  "sint (scast (ucast (v :: u64) :: u32) :: u64) = signed_take_bit 31 (sint v)"
  "sint (scast (ucast (v :: u64) :: u16) :: u64) = signed_take_bit 15 (sint v)"
  "sint (scast (ucast (v :: u64) :: u8) :: u64) = signed_take_bit 7 (sint v)"
  by (simp_all only: sint_widen sint_truncate sint_uint [of v] signed_take_bit_signed_take_bit) simp_all

lemma sint_inject: "((a :: u64) = b) = (sint a = sint b)"
  by (rule word_eq_iff_signed)

lemma sign_extend_same:
  "(scast (ucast (v :: u64) :: u32) = v) = (- (2 ^ 31) \<le> sint v \<and> sint v < 2 ^ 31)"
  "(scast (ucast (v :: u64) :: u16) = v) = (- (2 ^ 15) \<le> sint v \<and> sint v < 2 ^ 15)"
  "(scast (ucast (v :: u64) :: u8) = v) = (- (2 ^ 7) \<le> sint v \<and> sint v < 2 ^ 7)"
  unfolding signed_take_bit_int_eq_self_iff [symmetric]
  by (simp_all only: sint_inject sint_narrow)

subsection \<open>Storing in the field's width\<close>

text \<open>The width of an integer field in bytes, as the descriptor's \<open>data_size\<close> says.\<close>

definition int_width :: "pb_field \<Rightarrow> nat \<Rightarrow> bool" where
  "int_width f k \<longleftrightarrow> k = unat (f_data_size f) \<and> k \<in> {1, 2, 4, 8}"

lemma int_width_cases:
  assumes "int_width f k"
  obtains "f_data_size f = 1" "k = 1" | "f_data_size f = 2" "k = 2"
    | "f_data_size f = 4" "k = 4" | "f_data_size f = 8" "k = 8"
proof -
  have k: "f_data_size f = of_nat k" using assms by (simp add: int_width_def)
  have "k \<in> {1, 2, 4, 8}" using assms unfolding int_width_def by (rule conjunct2)
  then have "k = 1 \<or> k = 2 \<or> k = 4 \<or> k = 8" by simp
  then show ?thesis using k that by (elim disjE) (simp_all add: k)
qed

lemma store_le_bytes:
  assumes "mapped m p k"
  obtains m' where "store_bytes m p (le_bytes k v) = Some m'" "frame m m' p k"
    "load_bytes m' p k = Some (le_bytes k v)"
proof -
  obtain m' where m': "store_bytes m p (le_bytes k v) = Some m'"
    using store_bytes_ok [of m p "le_bytes k v"] assms by auto
  with store_bytes_frame [OF m'] load_store_same [OF m'] that show ?thesis by simp
qed

lemma unsigned_range:
  assumes "int_width f k" "mapped m p k"
  obtains m' where "frame m m' p k" "load_bytes m' p k = Some (le_bytes k (unat v))"
    "finish_integer t m v (store_unsigned (f_data_size f) p v m) =
       (if unat v < 2 ^ (8 * k) then Some (Some (), (t, m'))
        else Some (None, (i_set_error t ''integer too large'', m')))"
proof -
  obtain m' where m': "store_bytes m p (le_bytes k (unat v)) = Some m'" "frame m m' p k"
    "load_bytes m' p k = Some (le_bytes k (unat v))" by (rule store_le_bytes [OF assms(2)])
  have v: "unat v < 2 ^ 64" using unsigned_less [of v] by simp
  show ?thesis
    by (rule that [OF m'(2,3)], rule int_width_cases [OF assms(1)])
      (use m'(1) v in \<open>simp_all add: store_unsigned_def store_narrow store_u64_def finish_integer_def
         zero_extend_same ret_def w_error_def\<close>)
qed

lemma signed_range:
  assumes "int_width f k" "mapped m p k"
  obtains m' where "frame m m' p k" "load_bytes m' p k = Some (le_bytes k (unat v))"
    "finish_integer t m v (store_signed (f_data_size f) p v m) =
       (if - (2 ^ (8 * k - 1)) \<le> sint v \<and> sint v < 2 ^ (8 * k - 1) then Some (Some (), (t, m'))
        else Some (None, (i_set_error t ''integer too large'', m')))"
proof -
  obtain m' where m': "store_bytes m p (le_bytes k (unat v)) = Some m'" "frame m m' p k"
    "load_bytes m' p k = Some (le_bytes k (unat v))" by (rule store_le_bytes [OF assms(2)])
  have v: "- (2 ^ 63) \<le> sint v" "sint v < 2 ^ 63"
    using sint_ge [of v] sint_lt [of v] by simp_all
  show ?thesis
    by (rule that [OF m'(2,3)], rule int_width_cases [OF assms(1)])
      (use m'(1) v in \<open>simp_all add: store_signed_def store_narrow store_u64_def finish_integer_def
         sign_extend_same ret_def w_error_def\<close>)
qed

subsection \<open>The low word of a varint\<close>

lemma sint_low_word: "sint (scast (ucast (v :: u64) :: u32) :: u64) = sint (ucast v :: u32)"
  by (simp only: sint_widen sint_truncate signed_take_bit_signed_take_bit)

lemma unat_low_word: "unat (scast (ucast (v :: u64) :: u32) :: u64) mod 256 ^ 4 = unat v mod 256 ^ 4"
proof -
  have "(ucast (scast (ucast v :: u32) :: u64) :: u32) = ucast v"
    by (rule bit_word_eqI) (simp add: bit_simps)
  then show ?thesis unfolding unat_ucast_narrow(1) [symmetric] by simp
qed

lemma low_word_bytes:
  assumes "n \<le> 4"
  shows "le_bytes n (unat (scast (ucast (v :: u64) :: u32) :: u64)) = le_bytes n (unat v)"
proof -
  let ?w = "unat (scast (ucast (v :: u64) :: u32) :: u64)"
  have d: "(256 :: nat) ^ n dvd 256 ^ 4" using assms by (rule le_imp_power_dvd)
  have "?w mod 256 ^ n = ?w mod 256 ^ 4 mod 256 ^ n" by (rule mod_mod_cancel [OF d, symmetric])
  also have "\<dots> = unat v mod 256 ^ n" unfolding unat_low_word by (rule mod_mod_cancel [OF d])
  finally have "le_bytes n (?w mod 256 ^ n) = le_bytes n (unat v mod 256 ^ n)" by simp
  then show ?thesis unfolding le_bytes_mod .
qed

subsection \<open>The decoders\<close>

lemma read_300:
  "pb_decode_varint (pb_istream_from_buffer [0xAC, 0x02] 2) = Some (Some 300, pb_istream_from_buffer [] 0)"
  by (simp add: pb_decode_varint_def pb_istream_from_buffer_def varint_loop.simps
      pb_readbyte_def i_call_def buf_read_def)

text \<open>C20: Decoding an unsigned integer field. When the varint is read, the low bytes of the value
  are stored in the field, nothing else changes, and the decoder succeeds exactly when the value
  fits the field; otherwise it fails with \<open>integer too large\<close>.\<close>

theorem dec_uvarint_range:
  assumes "pb_decode_varint s = Some (Some v, t)" "int_width f k" "mapped m p k"
  shows "\<exists>m'. frame m m' p k \<and> load_bytes m' p k = Some (le_bytes k (unat v)) \<and>
    pb_dec_uvarint s f p m =
      (if unat v < 2 ^ (8 * k) then Some (Some (), (t, m'))
       else Some (None, (i_set_error t ''integer too large'', m')))"
proof -
  obtain m' where "frame m m' p k" "load_bytes m' p k = Some (le_bytes k (unat v))"
    "finish_integer t m v (store_unsigned (f_data_size f) p v m) =
       (if unat v < 2 ^ (8 * k) then Some (Some (), (t, m'))
        else Some (None, (i_set_error t ''integer too large'', m')))"
    by (rule unsigned_range [OF assms(2,3)])
  then show ?thesis using assms(1) by (auto simp: pb_dec_uvarint_def on_stream_def)
qed

lemma dec_uvarint_range_witness:
  "\<exists>m'. frame (one_object 16 [0]) m' 16 1 \<and> load_bytes m' 16 1 = Some [44] \<and>
     pb_dec_uvarint (pb_istream_from_buffer [0xAC, 0x02] 2) (Pb_Field 1 0x02 0 0 1 0 Null_ptr) 16
       (one_object 16 [0]) =
     Some (None, (i_set_error (pb_istream_from_buffer [] 0) ''integer too large'', m'))"
proof -
  have "int_width (Pb_Field 1 0x02 0 0 1 0 Null_ptr) 1" by (simp add: int_width_def)
  moreover have "le_bytes 1 (unat (300 :: u64)) = [44]" by code_simp
  ultimately show ?thesis
    using dec_uvarint_range [OF read_300, of _ 1 "one_object 16 [0]" 16] by fastforce
qed

text \<open>Decoding a zigzag integer field: the same for the signed range of the field.\<close>

theorem dec_svarint_range:
  assumes "pb_decode_svarint s = Some (Some v, t)" "int_width f k" "mapped m p k"
  shows "\<exists>m'. frame m m' p k \<and> load_bytes m' p k = Some (le_bytes k (unat v)) \<and>
    pb_dec_svarint s f p m =
      (if - (2 ^ (8 * k - 1)) \<le> sint v \<and> sint v < 2 ^ (8 * k - 1) then Some (Some (), (t, m'))
       else Some (None, (i_set_error t ''integer too large'', m')))"
proof -
  obtain m' where "frame m m' p k" "load_bytes m' p k = Some (le_bytes k (unat v))"
    "finish_integer t m v (store_signed (f_data_size f) p v m) =
       (if - (2 ^ (8 * k - 1)) \<le> sint v \<and> sint v < 2 ^ (8 * k - 1) then Some (Some (), (t, m'))
        else Some (None, (i_set_error t ''integer too large'', m')))"
    by (rule signed_range [OF assms(2,3)])
  then show ?thesis using assms(1) by (auto simp: pb_dec_svarint_def on_stream_def)
qed

lemma dec_svarint_range_witness:
  "\<exists>m'. frame (one_object 16 [0, 0]) m' 16 2 \<and> load_bytes m' 16 2 = Some [150, 0] \<and>
     pb_dec_svarint (pb_istream_from_buffer [0xAC, 0x02] 2) (Pb_Field 1 0x03 0 0 2 0 Null_ptr) 16
       (one_object 16 [0, 0]) = Some (Some (), (pb_istream_from_buffer [] 0, m'))"
proof -
  have "pb_decode_svarint (pb_istream_from_buffer [0xAC, 0x02] 2) =
      Some (Some 150, pb_istream_from_buffer [] 0)"
    by (simp add: pb_decode_svarint_def read_300)
  moreover have "int_width (Pb_Field 1 0x03 0 0 2 0 Null_ptr) 2" by (simp add: int_width_def)
  moreover have "le_bytes 2 (unat (150 :: u64)) = [150, 0]" by code_simp
  moreover have "sint (150 :: u64) = 150" by simp
  ultimately show ?thesis
    using dec_svarint_range [of _ 150 _ _ 2 "one_object 16 [0, 0]" 16] by fastforce
qed

text \<open>Decoding a signed integer field. An 8-byte field takes every value. A narrower one takes
  the low 32 bits of the varint as a signed number, so that both encodings of a negative 32-bit
  value are read, and rejects what is out of the range of the field.\<close>

theorem dec_varint_range:
  assumes "pb_decode_varint s = Some (Some v, t)" "int_width f k" "mapped m p k"
  shows "\<exists>m'. frame m m' p k \<and>
    pb_dec_varint s f p m =
      (if k = 8 \<or> - (2 ^ (8 * k - 1)) \<le> sint (ucast v :: u32) \<and> sint (ucast v :: u32) < 2 ^ (8 * k - 1)
       then Some (Some (), (t, m'))
       else Some (None, (i_set_error t ''integer too large'', m'))) \<and>
    load_bytes m' p k = Some (le_bytes k (unat v))"
proof -
  let ?w = "if f_data_size f = 8 then v else scast (ucast v :: u32)"
  obtain m' where m': "frame m m' p k" "load_bytes m' p k = Some (le_bytes k (unat ?w))"
    "finish_integer t m ?w (store_signed (f_data_size f) p ?w m) =
       (if - (2 ^ (8 * k - 1)) \<le> sint ?w \<and> sint ?w < 2 ^ (8 * k - 1) then Some (Some (), (t, m'))
        else Some (None, (i_set_error t ''integer too large'', m')))"
    by (rule signed_range [OF assms(2,3)])
  have k8: "(f_data_size f = 8) = (k = 8)" by (rule int_width_cases [OF assms(2)]) simp_all
  have bytes: "le_bytes k (unat ?w) = le_bytes k (unat v)"
  proof (cases "k = 8")
    case False
    have "k \<le> 4" by (rule int_width_cases [OF assms(2)]) (use False in simp_all)
    from low_word_bytes [OF this] False k8 show ?thesis by simp
  qed (simp add: k8)
  have range: "(- (2 ^ (8 * k - 1)) \<le> sint ?w \<and> sint ?w < 2 ^ (8 * k - 1)) =
     (k = 8 \<or> - (2 ^ (8 * k - 1)) \<le> sint (ucast v :: u32) \<and> sint (ucast v :: u32) < 2 ^ (8 * k - 1))"
  proof (cases "k = 8")
    case True
    have "- (2 ^ 63) \<le> sint v" "sint v < 2 ^ 63" using sint_ge [of v] sint_lt [of v] by simp_all
    then show ?thesis using True k8 by simp
  next
    case False
    then show ?thesis using k8 by (simp add: sint_low_word)
  qed
  show ?thesis using m' assms(1) unfolding bytes range
    by (auto simp: pb_dec_varint_def on_stream_def)
qed

lemma dec_varint_range_witness:
  "\<exists>m'. frame (one_object 16 [0]) m' 16 1 \<and>
     pb_dec_varint (pb_istream_from_buffer [0xFF, 0xFF, 0xFF, 0xFF, 0x0F] 5)
       (Pb_Field 1 0x01 0 0 1 0 Null_ptr) 16 (one_object 16 [0]) =
     Some (Some (), (pb_istream_from_buffer [] 0, m')) \<and> load_bytes m' 16 1 = Some [0xFF]"
proof -
  have "pb_decode_varint (pb_istream_from_buffer [0xFF, 0xFF, 0xFF, 0xFF, 0x0F] 5) =
      Some (Some 0xFFFFFFFF, pb_istream_from_buffer [] 0)"
    by (simp add: pb_decode_varint_def pb_istream_from_buffer_def varint_loop.simps
      pb_readbyte_def i_call_def buf_read_def)
  moreover have "int_width (Pb_Field 1 0x01 0 0 1 0 Null_ptr) 1" by (simp add: int_width_def)
  moreover have "le_bytes 1 (unat (0xFFFFFFFF :: u64)) = [0xFF]" by code_simp
  moreover have "sint (ucast (0xFFFFFFFF :: u64) :: u32) = -1" by code_simp
  ultimately show ?thesis
    using dec_varint_range [of _ "0xFFFFFFFF" _ _ 1 "one_object 16 [0]" 16] by fastforce
qed

end
