(* ===== verification/Message_Theorems.thy ===== *)
theory Message_Theorems imports Decode_Safety Required_Fields Integer_Theorems Cct_Tables begin

section \<open>Properties of the message decoder\<close>

text \<open>Decoding whole messages: safety on every input, the errors it reports, and the places where
  the code goes wrong.\<close>

subsection \<open>Safety\<close>

text \<open>C9: Decoding any bytes into a message with static fields is safe. For every buffer, whatever
  its content, \<open>pb_decode\<close> returns without undefined behaviour, leaves every byte outside the
  message structure as it was, and stays within the buffer.\<close>

theorem decode_buffer_safe:
  assumes "fits d fds n" "mapped m dest n" "bufsize \<le> length buf"
  shows "\<exists>r s' m'. pb_decode d u (pb_istream_from_buffer buf bufsize) fds dest m = Some (r, (s', m')) \<and>
    frame m m' dest n \<and> (\<exists>k. i_state s' = drop k buf \<and> k + bytes_left s' \<le> bufsize)"
proof -
  have "buffered (pb_istream_from_buffer buf bufsize)"
    using assms(3) by (simp add: buffered_def pb_istream_from_buffer_def)
  from buffer.decode_message_held [OF assms(1,2) this, where u = u and init = True]
  show ?thesis
    by (auto simp: pb_decode_def buffer.held_def within_def pb_istream_from_buffer_def elim!: safeE)
qed

lemma connection_info_fits: "fits 1 gdt_cct_NetworkConnectionInfo_fields 16" by code_simp

lemma decode_buffer_safe_witness:
  "\<exists>r s' m'. pb_decode 1 no_user_code (pb_istream_from_buffer [0x08, 0xFF, 0x3D] 3)
       gdt_cct_NetworkConnectionInfo_fields 16 (one_object 16 (replicate 16 0)) = Some (r, (s', m')) \<and>
     frame (one_object 16 (replicate 16 0)) m' 16 16 \<and>
     (\<exists>k. i_state s' = drop k [0x08, 0xFF, 0x3D] \<and> k + bytes_left s' \<le> 3)"
  by (rule decode_buffer_safe [OF connection_info_fits]) simp_all

text \<open>C14: The same from a callback stream: with a callback that delivers what it is asked for when
  it succeeds, decoding into static fields returns for every input and touches only the message
  structure, whether the callback fails or not.\<close>

theorem decode_callback_safe:
  assumes "fits d fds n" "mapped m dest n" "i_callback s = User_read f"
    and "\<forall>st k bs st'. f st k = (True, bs, st') \<longrightarrow> length bs = k"
  shows "\<exists>r s' m'. pb_decode d u s fds dest m = Some (r, (s', m')) \<and> frame m m' dest n \<and>
    bytes_left s' \<le> bytes_left s"
proof -
  have "well_behaved s" using assms(3,4) by (simp add: well_behaved_def)
  from user.decode_message_held [OF assms(1,2) this, where u = u and init = True]
  show ?thesis by (auto simp: pb_decode_def user.held_def no_longer_def elim!: safeE)
qed

definition zero_source :: "u8 list \<Rightarrow> nat \<Rightarrow> bool \<times> u8 list \<times> u8 list" where
  "zero_source st n = (n < 100, replicate n 0, st)"

lemma decode_callback_safe_witness:
  "\<exists>r s' m'. pb_decode 1 no_user_code
       \<lparr>i_callback = User_read zero_source, i_state = [], bytes_left = 1000, i_errmsg = None\<rparr>
       gdt_cct_NetworkConnectionInfo_fields 16 (one_object 16 (replicate 16 0)) = Some (r, (s', m')) \<and>
     frame (one_object 16 (replicate 16 0)) m' 16 16 \<and> bytes_left s' \<le> 1000"
  using decode_callback_safe [OF connection_info_fits, of "one_object 16 (replicate 16 0)" 16
      "\<lparr>i_callback = User_read zero_source, i_state = [], bytes_left = 1000, i_errmsg = None\<rparr>"
      zero_source no_user_code]
  by (simp add: zero_source_def)

subsection \<open>Errors\<close>

text \<open>C19: A message type with a required field never decodes from an empty input: \<open>pb_decode_noinit\<close>
  fails with \<open>missing required field\<close> and leaves the memory alone.\<close>

theorem decode_empty_required:
  assumes "terminated fds" "p < field_count fds" "is_required (fds ! p)" "bytes_left s = 0"
  shows "pb_decode_noinit (Suc d) u s fds dest m =
    Some (None, (i_set_error s ''missing required field'', m))"
proof -
  let ?st = "\<lparr>ds_iter = iter_at fds dest 0, ds_fields_seen = [0, 0], ds_ext_start = 0,
              ds_fixed_field = None, ds_fixed_size = 0\<rparr>"
  let ?R = "min (length (filter is_required (butlast fds))) 64"
  have pos: "0 < field_count fds" using assms(2) by simp
  have len: "p < length fds - 1" using assms(2) by (simp add: field_count_def)
  have "fds ! p \<in> set (butlast fds)" using len by (metis length_butlast nth_butlast nth_mem)
  then have R: "0 < ?R" using assms(3) by (auto simp: filter_empty_conv)
  have count: "required_field_count (iter_at fds dest 0) = Some ?R"
    by (rule required_count_at [OF assms(1) pos])
  have none: "seen_bits [0, 0] = {}" by (auto simp: seen_bits_def less_Suc_eq numeral_2_eq_2 nth_Cons')
  have "0 \<in> {..<?R}" using R by simp
  then have "\<not> {..<?R} \<subseteq> seen_bits [0, 0]" unfolding none by blast
  then have "\<not> required_seen [0, 0] ?R"
    by (subst required_seen_bits) (simp_all add: none)
  then show ?thesis using R assms(4)
    by (simp add: pb_decode_noinit_def noinit_with_def iter_begin_at [OF assms(1)] noinit_loop.simps
        ret_def finish_message_def count w_error_def)
qed

lemma decode_empty_required_witness:
  "pb_decode_noinit (Suc 0) no_user_code (pb_istream_from_buffer [] 0) one_required 16 (one_object 16 [])
     = Some (None, (i_set_error (pb_istream_from_buffer [] 0) ''missing required field'', one_object 16 []))"
  by (rule decode_empty_required [of _ 0])
    (simp_all add: terminated_def PB_LAST_FIELD_def field_count_def is_required_def PB_HTYPE_def
      pb_istream_from_buffer_def)

subsection \<open>Fixed-count arrays\<close>

text \<open>C33: \<open>pb_field_set_to_default\<close> clears the counter of every repeated static field through
  \<open>pSize\<close>, also where the field has no counter and \<open>pSize\<close> points to the array itself
  (\<open>fixed_count\<close> arrays). The four bytes it writes overrun an array that is shorter: setting the
  defaults of a message that is one fixed-count array of one-byte entries is undefined exactly when
  the array has fewer than four of them.\<close>

theorem fixed_count_default_overruns:
  "(pb_message_set_to_defaults (Suc d) u
      [Pb_Field 1 0x20 0 0 1 (of_nat (length bs)) Null_ptr, PB_LAST_FIELD] 16 (one_object 16 bs) = None) =
   (length bs < 4)"
proof -
  let ?f = "Pb_Field 1 0x20 0 0 1 (of_nat (length bs)) Null_ptr"
  have t: "terminated [?f, PB_LAST_FIELD]" "field_count [?f, PB_LAST_FIELD] = 1"
    by (simp_all add: terminated_def PB_LAST_FIELD_def field_count_def)
  have "pb_field_set_to_default (Suc d) u (iter_at [?f, PB_LAST_FIELD] 16 0) m = store_u32 m 16 0" for m
    by (simp add: field_at_def iter_at_simps begin_iter_def Let_def PB_LTYPE_def PB_HTYPE_def PB_ATYPE_def
        struct_addr_def offset_addr_def)
  then have "pb_message_set_to_defaults (Suc d) u [?f, PB_LAST_FIELD] 16 m = store_u32 m 16 0" for m
    by (cases "store_u32 m 16 0") (simp_all add: pb_message_set_to_defaults_def for_each_field_def
        iter_begin_at [OF t(1)] do_while_next_all [OF t(1)] t(2))
  moreover have "(store_u32 (one_object 16 bs) 16 0 = None) = (length bs < 4)"
    by (auto simp: store_u32_def store_bytes_def)
  ultimately show ?thesis by simp
qed

end
