(* ===== verification/Ldb_Coding.thy ===== *)
theory Ldb_Coding imports Wire_Bytes begin

unbundle bit_operations_syntax

section \<open>leveldb: the integer and string encodings (util/coding.cc, util/coding.h)\<close>

text \<open>
  A \<open>Slice\<close> is the list of the bytes it refers to. A pair of pointers \<open>p, limit\<close> is the list
  of the bytes between them, so a pointer returned by a \<open>Get...Ptr\<close> function is the rest of that
  list and \<open>nullptr\<close> is \<open>None\<close>. A function \<open>bool Get...(Slice* input, T* value)\<close> returns the
  value, if any, and the \<open>Slice\<close> that is left in \<open>input\<close>. A \<open>Put...\<close> function returns the
  string with the encoding appended. \<open>char\<close> is a byte; an \<open>unsigned char\<close> store truncates
  with \<open>ucast\<close>.
\<close>

type_synonym Slice = "u8 list"

subsection \<open>Fixed-width integers\<close>

definition kLittleEndian :: bool where
  "kLittleEndian = True"

text \<open>Both branches of the code; the first one runs on a little-endian machine, where copying
  the object representation gives the bytes with the least significant one first.\<close>

definition EncodeFixed32_on :: "bool \<Rightarrow> u32 \<Rightarrow> u8 list" where
  "EncodeFixed32_on little_endian v =
     (if little_endian then le_bytes 4 (unat v)
      else [ucast (v AND 0xFF), ucast (drop_bit 8 v AND 0xFF), ucast (drop_bit 16 v AND 0xFF),
            ucast (drop_bit 24 v AND 0xFF)])"

definition EncodeFixed64_on :: "bool \<Rightarrow> u64 \<Rightarrow> u8 list" where
  "EncodeFixed64_on little_endian v =
     (if little_endian then le_bytes 8 (unat v)
      else [ucast (v AND 0xFF), ucast (drop_bit 8 v AND 0xFF), ucast (drop_bit 16 v AND 0xFF),
            ucast (drop_bit 24 v AND 0xFF), ucast (drop_bit 32 v AND 0xFF),
            ucast (drop_bit 40 v AND 0xFF), ucast (drop_bit 48 v AND 0xFF),
            ucast (drop_bit 56 v AND 0xFF)])"

definition EncodeFixed32 :: "u32 \<Rightarrow> u8 list" where
  "EncodeFixed32 v = EncodeFixed32_on kLittleEndian v"

definition EncodeFixed64 :: "u64 \<Rightarrow> u8 list" where
  "EncodeFixed64 v = EncodeFixed64_on kLittleEndian v"

definition PutFixed32 :: "u8 list \<Rightarrow> u32 \<Rightarrow> u8 list" where
  "PutFixed32 dst v = dst @ EncodeFixed32 v"

definition PutFixed64 :: "u8 list \<Rightarrow> u64 \<Rightarrow> u8 list" where
  "PutFixed64 dst v = dst @ EncodeFixed64 v"

text \<open>The decoders do no bounds check: \<open>None\<close> is a read past the end of the buffer.\<close>

definition DecodeFixed32_on :: "bool \<Rightarrow> u8 list \<Rightarrow> u32 option" where
  "DecodeFixed32_on little_endian p =
     (if length p < 4 then None
      else if little_endian then Some (of_nat (of_le (take 4 p)))
      else Some (ucast (p ! 0) OR push_bit 8 (ucast (p ! 1)) OR push_bit 16 (ucast (p ! 2)) OR
                 push_bit 24 (ucast (p ! 3))))"

definition DecodeFixed64_on :: "bool \<Rightarrow> u8 list \<Rightarrow> u64 option" where
  "DecodeFixed64_on little_endian p =
     (if length p < 8 then None
      else if little_endian then Some (of_nat (of_le (take 8 p)))
      else do {
        lo \<leftarrow> DecodeFixed32_on little_endian p;
        hi \<leftarrow> DecodeFixed32_on little_endian (drop 4 p);
        Some (push_bit 32 (ucast hi) OR ucast lo)
      })"

definition DecodeFixed32 :: "u8 list \<Rightarrow> u32 option" where
  "DecodeFixed32 p = DecodeFixed32_on kLittleEndian p"

definition DecodeFixed64 :: "u8 list \<Rightarrow> u64 option" where
  "DecodeFixed64 p = DecodeFixed64_on kLittleEndian p"

subsection \<open>Varints\<close>

definition EncodeVarint32 :: "u32 \<Rightarrow> u8 list" where
  "EncodeVarint32 v =
     (let B = 128 in
      if v < push_bit 7 1 then [ucast v]
      else if v < push_bit 14 1 then [ucast (v OR B), ucast (drop_bit 7 v)]
      else if v < push_bit 21 1 then
        [ucast (v OR B), ucast (drop_bit 7 v OR B), ucast (drop_bit 14 v)]
      else if v < push_bit 28 1 then
        [ucast (v OR B), ucast (drop_bit 7 v OR B), ucast (drop_bit 14 v OR B), ucast (drop_bit 21 v)]
      else
        [ucast (v OR B), ucast (drop_bit 7 v OR B), ucast (drop_bit 14 v OR B),
         ucast (drop_bit 21 v OR B), ucast (drop_bit 28 v)])"

definition PutVarint32 :: "u8 list \<Rightarrow> u32 \<Rightarrow> u8 list" where
  "PutVarint32 dst v = dst @ EncodeVarint32 v"

lemma drop_7_less: "\<not> v < 128 \<Longrightarrow> unat (drop_bit 7 (v :: u64)) < unat v"
  by (simp add: unat_drop_7 word_less_nat_alt)

function EncodeVarint64 :: "u64 \<Rightarrow> u8 list" where
  "EncodeVarint64 v = (if v \<ge> 128 then ucast (v OR 128) # EncodeVarint64 (drop_bit 7 v) else [ucast v])"
  by pat_completeness auto
termination
  by (relation "measure unat") (auto intro: drop_7_less)

definition PutVarint64 :: "u8 list \<Rightarrow> u64 \<Rightarrow> u8 list" where
  "PutVarint64 dst v = dst @ EncodeVarint64 v"

function VarintLength_loop :: "u64 \<Rightarrow> nat \<Rightarrow> nat" where
  "VarintLength_loop v len = (if v \<ge> 128 then VarintLength_loop (drop_bit 7 v) (len + 1) else len)"
  by pat_completeness auto
termination
  by (relation "measure (unat \<circ> fst)") (auto intro: drop_7_less)

definition VarintLength :: "u64 \<Rightarrow> nat" where
  "VarintLength v = VarintLength_loop v 1"

declare EncodeVarint64.simps [simp del] VarintLength_loop.simps [simp del]

fun GetVarint32_loop :: "u8 list \<Rightarrow> nat \<Rightarrow> u32 \<Rightarrow> (u32 \<times> u8 list) option" where
  "GetVarint32_loop [] shift result = None"
| "GetVarint32_loop (b # p) shift result =
     (if shift > 28 then None
      else (let byte = ucast b :: u32 in
        if byte AND 128 \<noteq> 0
        then GetVarint32_loop p (shift + 7) (result OR push_bit shift (byte AND 127))
        else Some (result OR push_bit shift byte, p)))"

definition GetVarint32PtrFallback :: "u8 list \<Rightarrow> (u32 \<times> u8 list) option" where
  "GetVarint32PtrFallback p = GetVarint32_loop p 0 0"

definition GetVarint32Ptr :: "u8 list \<Rightarrow> (u32 \<times> u8 list) option" where
  "GetVarint32Ptr p =
     (case p of
        b # q \<Rightarrow> if ucast b AND (128 :: u32) = 0 then Some (ucast b, q) else GetVarint32PtrFallback p
      | [] \<Rightarrow> GetVarint32PtrFallback p)"

definition GetVarint32 :: "Slice \<Rightarrow> u32 option \<times> Slice" where
  "GetVarint32 input =
     (case GetVarint32Ptr input of None \<Rightarrow> (None, input) | Some (v, q) \<Rightarrow> (Some v, q))"

fun GetVarint64Ptr_loop :: "u8 list \<Rightarrow> nat \<Rightarrow> u64 \<Rightarrow> (u64 \<times> u8 list) option" where
  "GetVarint64Ptr_loop [] shift result = None"
| "GetVarint64Ptr_loop (b # p) shift result =
     (if shift > 63 then None
      else (let byte = ucast b :: u64 in
        if byte AND 128 \<noteq> 0
        then GetVarint64Ptr_loop p (shift + 7) (result OR push_bit shift (byte AND 127))
        else Some (result OR push_bit shift byte, p)))"

definition GetVarint64Ptr :: "u8 list \<Rightarrow> (u64 \<times> u8 list) option" where
  "GetVarint64Ptr p = GetVarint64Ptr_loop p 0 0"

definition GetVarint64 :: "Slice \<Rightarrow> u64 option \<times> Slice" where
  "GetVarint64 input =
     (case GetVarint64Ptr input of None \<Rightarrow> (None, input) | Some (v, q) \<Rightarrow> (Some v, q))"

subsection \<open>Length-prefixed slices\<close>

definition PutLengthPrefixedSlice :: "u8 list \<Rightarrow> Slice \<Rightarrow> u8 list" where
  "PutLengthPrefixedSlice dst v = PutVarint32 dst (of_nat (length v)) @ v"

definition GetLengthPrefixedSlicePtr :: "u8 list \<Rightarrow> (Slice \<times> u8 list) option" where
  "GetLengthPrefixedSlicePtr p =
     (case GetVarint32Ptr p of None \<Rightarrow> None
      | Some (len, q) \<Rightarrow>
          if unat len > length q then None
          else Some (take (unat len) q, drop (unat len) q))"

definition GetLengthPrefixedSlice :: "Slice \<Rightarrow> Slice option \<times> Slice" where
  "GetLengthPrefixedSlice input =
     (case GetVarint32 input of
        (None, input') \<Rightarrow> (None, input')
      | (Some len, input') \<Rightarrow>
          if length input' \<ge> unat len
          then (Some (take (unat len) input'), drop (unat len) input')
          else (None, input'))"

end
