(* ===== verification/Ldb_Coding_Facts.thy ===== *)
theory Ldb_Coding_Facts imports Ldb_Coding begin

section \<open>leveldb: the encodings against the formats\<close>

text \<open>
  The varint functions of util/coding.cc against the base-128 format of theory Varint (they
  write the bytes nanopb writes), the fixed-width functions against little-endian bytes on both
  kinds of machine, and the interface \<open>slice_codec\<close> of a \<open>Put...\<close> and a \<open>Get...\<close> function that
  fit together, with its instances.
\<close>

subsection \<open>Fixed width\<close>

lemma fixed32_endian_free: "EncodeFixed32_on e v = le_bytes 4 (unat v)"
  by (simp only: EncodeFixed32_on_def fixed32_bytes if_cancel)

lemma fixed64_endian_free: "EncodeFixed64_on e v = le_bytes 8 (unat v)"
  by (simp only: EncodeFixed64_on_def fixed64_bytes if_cancel)

lemma take_4: "4 \<le> length p \<Longrightarrow> take 4 p = [p ! 0, p ! 1, p ! 2, p ! 3]"
  using nths_4 [of "take 4 p"] by simp

lemma decode_fixed32_endian_free: "DecodeFixed32_on e p = (if length p < 4 then None else Some (of_nat (of_le (take 4 p))))"
  unfolding DecodeFixed32_on_def using take_4 [of p] fixed32_word [of "p ! 0" "p ! 1" "p ! 2" "p ! 3"]
  by simp

lemma decode_fixed64_endian_free: "DecodeFixed64_on e p = (if length p < 8 then None else Some (of_nat (of_le (take 8 p))))"
proof (cases "length p < 8")
  case False
  then have four: "\<not> length p < 4" "\<not> length p - 4 < 4" by auto
  let ?lo = "of_le (take 4 p)" and ?hi = "of_le (take 4 (drop 4 p))"
  have lo: "?lo < 2 ^ 32" using of_le_less [of "take 4 p"] False by simp
  have hi: "?hi < 2 ^ 32" using of_le_less [of "take 4 (drop 4 p)"] False by simp
  have app: "of_le (xs @ ys) = of_le xs + 256 ^ length xs * of_le ys" for xs ys
    by (induction xs) (simp_all add: algebra_simps)
  have "take 8 p = take 4 p @ take 4 (drop 4 p)" using take_add [of 4 4 p] by simp
  then have "of_le (take 8 p) = ?lo + 2 ^ 32 * ?hi" using False by (simp add: app)
  moreover have "(of_nat ?lo OR push_bit 32 (of_nat ?hi) :: u64) = of_nat (?lo + 2 ^ 32 * ?hi)"
    by (rule of_nat_or_push_bit [OF lo])
  moreover have "ucast (of_nat n :: u32) = (of_nat n :: u64)" if "n < 2 ^ 32" for n
    using that by (simp add: unsigned_of_nat take_bit_nat_eq_self)
  ultimately show ?thesis using lo hi False four
    by (simp add: DecodeFixed64_on_def decode_fixed32_endian_free or.commute del: of_nat_add of_nat_mult)
qed (simp add: DecodeFixed64_on_def)

lemma EncodeFixed64_le: "EncodeFixed64 v = le_bytes 8 (unat v)"
  by (simp add: EncodeFixed64_def fixed64_endian_free)

lemma EncodeFixed32_le: "EncodeFixed32 v = le_bytes 4 (unat v)"
  by (simp add: EncodeFixed32_def fixed32_endian_free)

subsection \<open>Varints\<close>

lemma u8_or_128: "(b :: u8) OR 128 = of_nat (unat b mod 128 + 128)"
proof -
  have "b OR 128 = (b AND 0x7F) OR 128"
    by (rule bit_word_eqI) (auto simp: bit_simps less_Suc_eq numeral_eq_Suc)
  also have "b AND 0x7F = of_nat (unat b mod 128)"
    using u8_low_bits [of b, where 'a = 8] by simp
  also have "(of_nat (unat b mod 128) :: u8) OR 128 = of_nat (unat b mod 128) OR push_bit 7 (of_nat 1)"
    by simp
  also have "\<dots> = of_nat (unat b mod 128 + 2 ^ 7 * 1)"
    by (rule of_nat_or_push_bit) simp
  finally show ?thesis by simp
qed

lemma byte_or_128:
  assumes "8 \<le> LENGTH('a::len)"
  shows "ucast ((w :: 'a word) OR 128) = (of_nat (unat w mod 128 + 128) :: u8)"
proof -
  have "(ucast (w OR 128) :: u8) = ucast w OR 128"
    by (rule bit_word_eqI) (use assms in \<open>auto simp: bit_simps less_Suc_eq numeral_eq_Suc\<close>)
  also have "\<dots> = of_nat (unat (ucast w :: u8) mod 128 + 128)" by (rule u8_or_128)
  also have "unat (ucast w :: u8) mod 128 = unat w mod 128"
    by (simp add: unsigned_ucast_eq take_bit_eq_mod mod_mod_cancel)
  finally show ?thesis .
qed

lemma EncodeVarint64_bytes: "EncodeVarint64 v = varint_bytes (unat v)"
proof (induction v rule: EncodeVarint64.induct)
  case (1 v)
  have "v \<ge> 128 \<longleftrightarrow> \<not> unat v < 128" by (simp add: word_le_nat_alt not_less)
  with 1 show ?case
    by (simp add: EncodeVarint64.simps [of v] varint_bytes.simps [of "unat v"] byte_or_128 unat_drop_7
        del: of_nat_add)
qed

lemma varint_bytes_step:
  "varint_bytes n = (if n < 128 then [of_nat n] else of_nat (n mod 128 + 128) # varint_bytes (n div 128))"
  by (rule varint_bytes.simps)

lemma EncodeVarint32_bytes: "EncodeVarint32 v = varint_bytes (unat v)"
proof -
  let ?n = "unat v"
  have lt: "v < push_bit 7 1 \<longleftrightarrow> ?n < 2 ^ 7" "v < push_bit 14 1 \<longleftrightarrow> ?n < 2 ^ 14"
    "v < push_bit 21 1 \<longleftrightarrow> ?n < 2 ^ 21" "v < push_bit 28 1 \<longleftrightarrow> ?n < 2 ^ 28"
    by (simp_all add: word_less_nat_alt)
  have d: "?n div 128 div 128 = ?n div 2 ^ 14" "?n div 2 ^ 14 div 128 = ?n div 2 ^ 21"
    "?n div 2 ^ 21 div 128 = ?n div 2 ^ 28"
    by (simp_all add: div_mult2_eq [symmetric])
  have "?n < 128 * 2 ^ 28" by (rule less_le_trans [OF unat_u32_less]) simp
  then have top: "?n div 2 ^ 28 < 128" by (rule less_mult_imp_div_less)
  have cmp: "?n div 128 < 128 \<longleftrightarrow> ?n < 2 ^ 14" "?n div 2 ^ 14 < 128 \<longleftrightarrow> ?n < 2 ^ 21"
    "?n div 2 ^ 21 < 128 \<longleftrightarrow> ?n < 2 ^ 28"
    by (simp_all add: div_less_iff_less_mult)
  have u: "(ucast (drop_bit k v) :: u8) = of_nat (?n div 2 ^ k)" for k
    using unat_drop_bit_le [of k v] by (metis of_nat_unat)
  have o: "(ucast (drop_bit k v OR 128) :: u8) = of_nat (?n div 2 ^ k mod 128 + 128)" for k
    using byte_or_128 [of "drop_bit k v"] by (simp only: unat_drop_bit_le) simp
  have o0: "(ucast (v OR 128) :: u8) = of_nat (?n mod 128 + 128)"
    using byte_or_128 [of v] by simp
  have s: "varint_bytes (?n div 2 ^ 7) = (if ?n < 2 ^ 14 then [of_nat (?n div 2 ^ 7)] else of_nat (?n div 2 ^ 7 mod 128 + 128) # varint_bytes (?n div 2 ^ 14))"
    "varint_bytes (?n div 2 ^ 14) = (if ?n < 2 ^ 21 then [of_nat (?n div 2 ^ 14)] else of_nat (?n div 2 ^ 14 mod 128 + 128) # varint_bytes (?n div 2 ^ 21))"
    "varint_bytes (?n div 2 ^ 21) = (if ?n < 2 ^ 28 then [of_nat (?n div 2 ^ 21)] else of_nat (?n div 2 ^ 21 mod 128 + 128) # varint_bytes (?n div 2 ^ 28))"
    "varint_bytes (?n div 2 ^ 28) = [of_nat (?n div 2 ^ 28)]"
    "varint_bytes ?n = (if ?n < 2 ^ 7 then [of_nat ?n] else of_nat (?n mod 128 + 128) # varint_bytes (?n div 2 ^ 7))"
    using d cmp top by (subst varint_bytes.simps, simp del: of_nat_add)+
  show ?thesis
    unfolding EncodeVarint32_def Let_def o o0 u s lt by simp
qed

lemma byte_top:
  "(ucast (b :: u8) :: u32) AND 128 = 0 \<longleftrightarrow> unat b < 128"
  "(ucast (b :: u8) :: u64) AND 128 = 0 \<longleftrightarrow> unat b < 128"
proof -
  have "(ucast b :: u32) AND 128 = ucast (b AND 128)" "(ucast b :: u64) AND 128 = ucast (b AND 128)"
    by (simp_all add: unsigned_and_eq)
  moreover have "unat (ucast x :: u32) = unat x" "unat (ucast x :: u64) = unat x" for x :: u8
    using unat_u8_less [of x] by (simp_all add: unsigned_ucast_eq take_bit_nat_eq_self_iff del: unat_u8_less)
  ultimately show "(ucast (b :: u8) :: u32) AND 128 = 0 \<longleftrightarrow> unat b < 128"
     "(ucast (b :: u8) :: u64) AND 128 = 0 \<longleftrightarrow> unat b < 128"
    using u8_top_bit [of b] by (simp_all add: word_unat_eq_iff)
qed


lemma low_byte:
  "(ucast (b :: u8) :: u32) AND 127 = of_nat (unat b mod 128)"
  "(ucast (b :: u8) :: u64) AND 127 = of_nat (unat b mod 128)"
proof -
  have "(ucast b :: u32) AND 127 = ucast (b AND 0x7F)" "(ucast b :: u64) AND 127 = ucast (b AND 0x7F)"
    by (simp_all add: unsigned_and_eq)
  then show "(ucast (b :: u8) :: u32) AND 127 = of_nat (unat b mod 128)"
    "(ucast (b :: u8) :: u64) AND 127 = of_nat (unat b mod 128)"
    by (simp_all only: u8_low_bits)
qed

text \<open>What a varint reader does at group \<open>j\<close>, when it takes at most \<open>m\<close> groups.\<close>

definition varint_front :: "nat \<Rightarrow> nat \<Rightarrow> nat \<Rightarrow> u8 list \<Rightarrow> (nat \<times> u8 list) option" where
  "varint_front m j r p =
     (let c = continuation p in
      if m \<le> j + c \<or> length p \<le> c then None
      else Some (r + 2 ^ (7 * j) * varint_value (take (c + 1) p), drop (c + 1) p))"

lemma varint_front_Nil [simp]: "varint_front m j r [] = None"
  by (simp add: varint_front_def)

lemma varint_front_Cons:
  "varint_front m j r (b # p) =
     (if m \<le> j then None
      else if unat b < 128 then Some (r + 2 ^ (7 * j) * unat b, p)
      else varint_front m (Suc j) (r + 2 ^ (7 * j) * (unat b mod 128)) p)"
  by (auto simp: varint_front_def Let_def power_add algebra_simps)

lemma GetVarint32_loop_front:
  "r < 2 ^ (7 * j) \<Longrightarrow> GetVarint32_loop p (7 * j) (of_nat r) =
     map_option (\<lambda>(n, q). (of_nat n, q)) (varint_front 5 j r p)"
proof (induction p arbitrary: j r)
  case (Cons b p)
  have step: "(of_nat r OR push_bit (7 * j) (of_nat (unat b mod 128)) :: u32) =
      of_nat (r + 2 ^ (7 * j) * (unat b mod 128))"
    by (rule of_nat_or_push_bit [OF Cons.prems])
  have IH: "GetVarint32_loop p (7 + 7 * j) (of_nat (r + 2 ^ (7 * j) * (unat b mod 128))) =
      map_option (\<lambda>(n, q). (of_nat n, q)) (varint_front 5 (Suc j) (r + 2 ^ (7 * j) * (unat b mod 128)) p)"
    using Cons.IH [OF group_less [OF Cons.prems]] by simp
  have last: "(of_nat r OR push_bit (7 * j) (ucast b) :: u32) = of_nat (r + 2 ^ (7 * j) * unat b)"
    using of_nat_or_push_bit [OF Cons.prems, of "unat b", where 'a = 32] by simp
  show ?case
  proof (cases "unat b < 128")
    case True
    with last show ?thesis
      by (simp add: varint_front_Cons Let_def byte_top del: of_nat_add of_nat_mult)
  next
    case False
    with step IH show ?thesis
      by (simp add: varint_front_Cons Let_def byte_top low_byte add.commute del: of_nat_add of_nat_mult)
  qed
qed simp

lemma GetVarint64_loop_front:
  "r < 2 ^ (7 * j) \<Longrightarrow> GetVarint64Ptr_loop p (7 * j) (of_nat r) =
     map_option (\<lambda>(n, q). (of_nat n, q)) (varint_front 10 j r p)"
proof (induction p arbitrary: j r)
  case (Cons b p)
  have step: "(of_nat r OR push_bit (7 * j) (of_nat (unat b mod 128)) :: u64) =
      of_nat (r + 2 ^ (7 * j) * (unat b mod 128))"
    by (rule of_nat_or_push_bit [OF Cons.prems])
  have IH: "GetVarint64Ptr_loop p (7 + 7 * j) (of_nat (r + 2 ^ (7 * j) * (unat b mod 128))) =
      map_option (\<lambda>(n, q). (of_nat n, q)) (varint_front 10 (Suc j) (r + 2 ^ (7 * j) * (unat b mod 128)) p)"
    using Cons.IH [OF group_less [OF Cons.prems]] by simp
  have last: "(of_nat r OR push_bit (7 * j) (ucast b) :: u64) = of_nat (r + 2 ^ (7 * j) * unat b)"
    using of_nat_or_push_bit [OF Cons.prems, of "unat b", where 'a = 64] by simp
  show ?case
  proof (cases "unat b < 128")
    case True
    with last show ?thesis
      by (simp add: varint_front_Cons Let_def byte_top del: of_nat_add of_nat_mult)
  next
    case False
    with step IH show ?thesis
      by (simp add: varint_front_Cons Let_def byte_top low_byte add.commute del: of_nat_add of_nat_mult)
  qed
qed simp

lemma GetVarint32Ptr_front:
  "GetVarint32Ptr p = map_option (\<lambda>(n, q). (of_nat n, q)) (varint_front 5 0 0 p)"
proof -
  have "GetVarint32PtrFallback p = map_option (\<lambda>(n, q). (of_nat n, q)) (varint_front 5 0 0 p)"
    using GetVarint32_loop_front [of 0 0 p] by (simp add: GetVarint32PtrFallback_def)
  then show ?thesis
    by (cases p) (auto simp: GetVarint32Ptr_def byte_top varint_front_Cons)
qed

lemma GetVarint64Ptr_front:
  "GetVarint64Ptr p = map_option (\<lambda>(n, q). (of_nat n, q)) (varint_front 10 0 0 p)"
  using GetVarint64_loop_front [of 0 0 p] by (simp add: GetVarint64Ptr_def)

lemma varint_front_bytes:
  assumes "length (varint_bytes n) \<le> m"
  shows "varint_front m 0 0 (varint_bytes n @ rest) = Some (n, rest)"
proof -
  have pos: "0 < length (varint_bytes n)" by simp
  have "Suc (length (varint_bytes n) - 1) = length (varint_bytes n)" using pos by linarith
  moreover have "\<not> m \<le> length (varint_bytes n) - 1" using assms pos by linarith
  moreover have "\<not> length (varint_bytes n) + length rest \<le> length (varint_bytes n) - 1" using pos by linarith
  ultimately show ?thesis by (simp add: varint_front_def Let_def)
qed

lemma VarintLength_loop_bytes: "VarintLength_loop v len + 1 = len + length (varint_bytes (unat v))"
proof (induction v len rule: VarintLength_loop.induct)
  case (1 v len)
  have "v \<ge> 128 \<longleftrightarrow> \<not> unat v < 128" by (simp add: word_le_nat_alt not_less)
  with 1 show ?case
    by (simp add: VarintLength_loop.simps [of v] varint_bytes.simps [of "unat v"] unat_drop_7)
qed

lemma VarintLength_bytes: "VarintLength v = length (varint_bytes (unat v))"
  using VarintLength_loop_bytes [of v 1] by (simp add: VarintLength_def)

subsection \<open>The interface of a pair of Put and Get functions\<close>

locale slice_codec =
  fixes put :: "u8 list \<Rightarrow> 'a \<Rightarrow> u8 list"
    and get :: "Slice \<Rightarrow> 'a option \<times> Slice"
    and valid :: "'a \<Rightarrow> bool"
  assumes put_appends: "put dst v = dst @ put [] v"
    and get_put: "valid v \<Longrightarrow> get (put [] v @ rest) = (Some v, rest)"
begin

primrec put_all :: "u8 list \<Rightarrow> 'a list \<Rightarrow> u8 list" where
  "put_all dst [] = dst"
| "put_all dst (v # vs) = put_all (put dst v) vs"

primrec get_all :: "nat \<Rightarrow> Slice \<Rightarrow> ('a list \<times> Slice) option" where
  "get_all 0 input = Some ([], input)"
| "get_all (Suc n) input =
     (case get input of (None, _) \<Rightarrow> None
      | (Some v, input') \<Rightarrow> map_option (\<lambda>(vs, rest). (v # vs, rest)) (get_all n input'))"

lemma put_all_appends: "put_all dst vs = dst @ put_all [] vs"
proof (induction vs arbitrary: dst)
  case (Cons v vs)
  have "put_all dst (v # vs) = put dst v @ put_all [] vs" by (simp add: Cons [of "put dst v"])
  also have "\<dots> = dst @ put [] v @ put_all [] vs" by (simp only: put_appends [of dst v] append_assoc)
  also have "put [] v @ put_all [] vs = put_all [] (v # vs)"
    by (simp only: put_all.simps Cons [of "put [] v", symmetric])
  finally show ?case .
qed simp

lemma get_all_put_all:
  "\<forall>v \<in> set vs. valid v \<Longrightarrow> get_all (length vs) (put_all [] vs @ rest) = Some (vs, rest)"
proof (induction vs)
  case (Cons v vs)
  have "put_all [] (v # vs) @ rest = put [] v @ put_all [] vs @ rest"
    by (simp only: put_all.simps put_all_appends [of "put [] v"] append_assoc)
  with Cons get_put [of v "put_all [] vs @ rest"] show ?case by simp
qed simp

lemma get_put_appended: "valid v \<Longrightarrow> get (drop (length dst) (put dst v) @ rest) = (Some v, rest)"
proof -
  have "drop (length dst) (dst @ put [] v) = put [] v" by simp
  then have "drop (length dst) (put dst v) = put [] v" by (simp only: put_appends [of dst v, symmetric])
  then show "valid v \<Longrightarrow> ?thesis" by (simp only: get_put)
qed

text \<open>No encoding is a proper prefix of another.\<close>

lemma put_prefix_free:
  assumes "valid v" "valid w" "put [] v @ rest = put [] w @ rest'"
  shows "v = w \<and> rest = rest'"
proof -
  have "(Some v, rest) = get (put [] w @ rest')" using get_put [OF assms(1), of rest] assms(3) by (simp only:)
  then show ?thesis by (simp only: get_put [OF assms(2)] prod.inject option.inject)
qed

end

lemma length_varint_bytes_u32: "length (varint_bytes (unat (v :: u32))) \<le> 5"
proof (rule length_varint_bytes)
  show "unat v < 128 ^ 5" by (rule less_le_trans [OF unat_u32_less]) simp
qed simp

lemma GetVarint32_bytes:
  "GetVarint32 (varint_bytes (unat (v :: u32)) @ rest) = (Some v, rest)"
  by (simp add: GetVarint32_def GetVarint32Ptr_front varint_front_bytes length_varint_bytes_u32)

lemma GetVarint64_bytes:
  "GetVarint64 (varint_bytes (unat (v :: u64)) @ rest) = (Some v, rest)"
  by (simp add: GetVarint64_def GetVarint64Ptr_front varint_front_bytes length_varint_bytes_u64)

interpretation varint32: slice_codec PutVarint32 GetVarint32 "\<lambda>_. True"
  by unfold_locales (simp_all add: PutVarint32_def EncodeVarint32_bytes GetVarint32_bytes)

interpretation varint64: slice_codec PutVarint64 GetVarint64 "\<lambda>_. True"
  by unfold_locales (simp_all add: PutVarint64_def EncodeVarint64_bytes GetVarint64_bytes)

lemma unat_of_nat_length: "length bs < 2 ^ 32 \<Longrightarrow> unat (of_nat (length bs) :: u32) = length bs"
  by (simp add: unsigned_of_nat take_bit_nat_eq_self)

interpretation prefixed: slice_codec PutLengthPrefixedSlice GetLengthPrefixedSlice
  "\<lambda>bs. length bs < 2 ^ 32"
proof unfold_locales
  fix dst v show "PutLengthPrefixedSlice dst v = dst @ PutLengthPrefixedSlice [] v"
    by (simp add: PutLengthPrefixedSlice_def PutVarint32_def)
next
  fix v :: "u8 list" and rest assume "length v < 2 ^ 32"
  then show "GetLengthPrefixedSlice (PutLengthPrefixedSlice [] v @ rest) = (Some v, rest)"
    using varint32.get_put [of "of_nat (length v)" "v @ rest"]
    by (simp add: GetLengthPrefixedSlice_def PutLengthPrefixedSlice_def unat_of_nat_length)
qed

text \<open>The two versions of \<open>GetLengthPrefixedSlice\<close> accept the same inputs.\<close>

lemma GetLengthPrefixedSlice_ptr:
  "GetLengthPrefixedSlicePtr p =
     (case GetLengthPrefixedSlice p of (None, _) \<Rightarrow> None | (Some v, q) \<Rightarrow> Some (v, q))"
  by (auto simp: GetLengthPrefixedSlicePtr_def GetLengthPrefixedSlice_def GetVarint32_def
      split: option.splits)

subsection \<open>Arrays of fixed-width integers\<close>

lemma foldl_PutFixed32: "foldl PutFixed32 r xs = r @ concat (map (\<lambda>x. le_bytes 4 (unat x)) xs)"
  by (induction xs arbitrary: r) (simp_all add: PutFixed32_def EncodeFixed32_le)

lemma nth_fixed32:
  "i < length xs \<Longrightarrow> DecodeFixed32 (drop (4 * i) (concat (map (\<lambda>x. le_bytes 4 (unat x)) xs) @ rest)) = Some (xs ! i)"
proof (induction xs arbitrary: i)
  case (Cons x xs)
  have "unat x < 256 ^ 4" using unat_u32_less [of x] by simp
  then show ?case
    using Cons by (cases i) (simp_all add: DecodeFixed32_def decode_fixed32_endian_free)
qed simp

lemma length_fixed32s [simp]: "length (concat (map (\<lambda>x. le_bytes 4 (unat x)) xs)) = 4 * length xs"
  by (induction xs) simp_all

end
