(* ===== verification/Crc32c_Tables.thy ===== *)
theory Crc32c_Tables imports Crc32c Ldb_Coding_Facts begin

unbundle bit_operations_syntax

section \<open>leveldb: what the tables of crc32c.cc hold\<close>

text \<open>
  The reference is CRC-32C one bit at a time: \<open>crc_bit\<close> is one step of division by the reflected
  polynomial \<open>0x82f63b78\<close>, a linear and injective map on 32-bit words. \<open>kByteExtensionTable\<close>
  tabulates eight steps on a byte and the stride tables tabulate 128 steps on each byte of a word.
  Linearity reduces the check of each 256-entry table to its entries at powers of two
  (\<open>additive_table\<close>), and injectivity reduces those of the stride tables to a single one.
\<close>

subsection \<open>The reference\<close>

definition crc_bit :: "u32 \<Rightarrow> u32" where
  "crc_bit x = drop_bit 1 x XOR (if x AND 1 \<noteq> 0 then 0x82f63b78 else 0)"

definition crc_bytes :: "u32 \<Rightarrow> u8 list \<Rightarrow> u32" where
  "crc_bytes l bs = foldl (\<lambda>l b. (crc_bit ^^ 8) (l XOR ucast b)) l bs"

lemma and_1_bit_0: "(x :: u32) AND 1 \<noteq> 0 \<longleftrightarrow> bit x 0"
  by (simp add: and_one_eq odd_iff_mod_2_eq_one bit_0)

lemma crc_bit_xor: "crc_bit (a XOR b) = crc_bit a XOR crc_bit b"
  unfolding crc_bit_def and_1_bit_0 bit_xor_iff drop_bit_xor
  by (cases "bit a 0"; cases "bit b 0") (simp_all add: ac_simps)

lemma crc_bits_xor: "(crc_bit ^^ n) (a XOR b) = (crc_bit ^^ n) a XOR (crc_bit ^^ n) b"
  by (induction n) (simp_all add: crc_bit_xor)

lemma crc_bit_0 [simp]: "crc_bit 0 = 0"
  by (simp add: crc_bit_def)

lemma crc_bits_0 [simp]: "(crc_bit ^^ n) 0 = 0"
  by (induction n) simp_all

lemma crc_bit_even: "\<not> bit x 0 \<Longrightarrow> crc_bit x = drop_bit 1 x"
  unfolding crc_bit_def and_1_bit_0 by simp

lemma crc_bits_low_zero: "(\<And>i. i < n \<Longrightarrow> \<not> bit x i) \<Longrightarrow> (crc_bit ^^ n) x = drop_bit n x"
proof (induction n)
  case (Suc n)
  then have "(crc_bit ^^ n) x = drop_bit n x" by simp
  moreover have "\<not> bit (drop_bit n x) 0" using Suc.prems by (simp add: bit_drop_bit_eq)
  ultimately show ?case by (simp add: crc_bit_even drop_bit_drop_bit)
qed simp

lemma crc_bit_top: "bit (crc_bit x) 31 \<longleftrightarrow> bit x 0"
  unfolding crc_bit_def and_1_bit_0 bit_xor_iff by (auto simp: bit_drop_bit_eq dest: bit_imp_le_length)

lemma crc_bit_zero: "crc_bit x = 0 \<Longrightarrow> x = 0"
proof -
  assume z: "crc_bit x = 0"
  then have "\<not> bit x 0" using crc_bit_top [of x] by simp
  moreover have "drop_bit 1 x = 0" using crc_bit_even [OF \<open>\<not> bit x 0\<close>] z by (simp only:)
  ultimately show "x = 0"
  proof (intro bit_word_eqI)
    fix n assume "\<not> bit x 0" and d: "drop_bit 1 x = 0"
    show "bit x n = bit 0 n"
    proof (cases n)
      case (Suc m)
      have "bit (drop_bit 1 x) m = bit x (Suc m)" by (simp only: bit_drop_bit_eq o_def plus_1_eq_Suc)
      with d Suc show ?thesis by simp
    qed (use \<open>\<not> bit x 0\<close> in simp)
  qed
qed

lemma xor_eq_0: "(a :: u32) XOR b = 0 \<longleftrightarrow> a = b"
proof
  assume "a XOR b = 0"
  then have "(a XOR b) XOR b = 0 XOR b" by (simp only:)
  then show "a = b" by (simp only: xor.assoc xor_self_eq xor.left_neutral xor.right_neutral)
qed simp

lemma inj_crc_bit: "inj crc_bit"
proof (rule injI)
  fix a b assume "crc_bit a = crc_bit b"
  then have "crc_bit (a XOR b) = 0" by (simp add: crc_bit_xor)
  then show "a = b" using crc_bit_zero xor_eq_0 by blast
qed

lemma inj_crc_bits: "inj (crc_bit ^^ n)"
  using inj_crc_bit by (induction n) (auto simp: inj_compose)

subsection \<open>Tables\<close>

definition doubles :: "nat \<Rightarrow> u32 list \<Rightarrow> bool" where
  "doubles k T \<longleftrightarrow> take k (drop k T) = map (\<lambda>x. T ! k XOR x) (take k T)"

lemma additive_table:
  fixes F :: "u32 \<Rightarrow> u32"
  assumes F: "\<And>a b. F (a XOR b) = F a XOR F b"
    and T: "length T = 256" "T ! 0 = 0" "\<And>k. k < 8 \<Longrightarrow> doubles (2 ^ k) T"
      "\<And>k. k < 8 \<Longrightarrow> T ! (2 ^ k) = F (2 ^ k)"
    and "i < 256"
  shows "T ! i = F (of_nat i)"
proof -
  have "k \<le> 8 \<Longrightarrow> take (2 ^ k) T = map (\<lambda>i. F (of_nat i)) [0..<2 ^ k]" for k
  proof (induction k)
    case 0
    have "F 0 = 0" using F [of 0 0] by simp
    then show ?case using T(1,2) by (simp add: take_Suc_conv_app_nth)
  next
    case (Suc k)
    have F2: "F (2 ^ k) XOR F (of_nat i) = F (of_nat (2 ^ k + i))" if "i < 2 ^ k" for i
    proof -
      have "of_nat i OR push_bit k (of_nat 1) = (of_nat (i + 2 ^ k * 1) :: u32)"
        by (rule of_nat_or_push_bit [OF that])
      moreover have "(of_nat i :: u32) XOR 2 ^ k = of_nat i OR push_bit k (of_nat 1)"
      proof (rule bit_word_eqI)
        fix n
        have "\<not> bit (of_nat i :: u32) k" using that
          by (simp add: bit_of_nat_iff bit_nat_def div_less)
        then show "bit ((of_nat i :: u32) XOR 2 ^ k) n = bit (of_nat i OR push_bit k (of_nat 1) :: u32) n"
          by (auto simp: bit_simps)
      qed
      ultimately show ?thesis using F [of "of_nat i" "2 ^ k"] by (simp add: xor.commute add.commute)
    qed
    have IH: "take (2 ^ k) T = map (\<lambda>i. F (of_nat i)) [0..<2 ^ k]" using Suc by simp
    have "take (2 ^ Suc k) T = take (2 ^ k) T @ take (2 ^ k) (drop (2 ^ k) T)"
      using take_add [of "2 ^ k" "2 ^ k" T] by (simp add: mult_2)
    also have "take (2 ^ k) (drop (2 ^ k) T) = map (\<lambda>x. F (2 ^ k) XOR x) (take (2 ^ k) T)"
      using T(3,4) [of k] Suc.prems by (simp add: doubles_def)
    also have "\<dots> = map (\<lambda>i. F (of_nat (2 ^ k + i))) [0..<2 ^ k]"
      unfolding IH map_map by (rule map_cong) (use F2 in auto)
    also have "\<dots> = map (\<lambda>i. F (of_nat i)) [2 ^ k..<2 ^ Suc k]"
      by (rule nth_equalityI) simp_all
    finally show ?case unfolding IH by (simp only: map_append [symmetric])
      (simp add: upt_add_eq_append [of 0 "2 ^ k" "2 ^ k", simplified] mult_2)
  qed
  from this [of 8] T(1) have "T = map (\<lambda>i. F (of_nat i)) [0..<256]" by simp
  with \<open>i < 256\<close> show ?thesis by simp
qed

lemmas crc_tables = kByteExtensionTable_def kStrideExtensionTable0_def kStrideExtensionTable1_def
  kStrideExtensionTable2_def kStrideExtensionTable3_def

lemma length_tables [simp]:
  "length kByteExtensionTable = 256" "length kStrideExtensionTable0 = 256"
  "length kStrideExtensionTable1 = 256" "length kStrideExtensionTable2 = 256"
  "length kStrideExtensionTable3 = 256"
  by (simp_all add: crc_tables)

lemma tables_0:
  "kByteExtensionTable ! 0 = 0" "kStrideExtensionTable0 ! 0 = 0" "kStrideExtensionTable1 ! 0 = 0"
  "kStrideExtensionTable2 ! 0 = 0" "kStrideExtensionTable3 ! 0 = 0"
  by (simp_all add: crc_tables)

lemma below_8I:
  fixes P :: "nat \<Rightarrow> bool"
  assumes "P 1" "P 2" "P 4" "P 8" "P 16" "P 32" "P 64" "P 128" "k < 8"
  shows "P (2 ^ k)"
proof -
  have "k = 0 \<or> k = 1 \<or> k = 2 \<or> k = 3 \<or> k = 4 \<or> k = 5 \<or> k = 6 \<or> k = 7" using assms(9) by linarith
  then show ?thesis using assms(1-8) by auto
qed

lemma doubles_byte: "k < 8 \<Longrightarrow> doubles (2 ^ k) kByteExtensionTable"
  by (rule below_8I [where P = "\<lambda>n. doubles n kByteExtensionTable"])
     (unfold doubles_def crc_tables, simp_all)

lemma doubles_0: "k < 8 \<Longrightarrow> doubles (2 ^ k) kStrideExtensionTable0"
  by (rule below_8I [where P = "\<lambda>n. doubles n kStrideExtensionTable0"])
     (unfold doubles_def crc_tables, simp_all)

lemma doubles_1: "k < 8 \<Longrightarrow> doubles (2 ^ k) kStrideExtensionTable1"
  by (rule below_8I [where P = "\<lambda>n. doubles n kStrideExtensionTable1"])
     (unfold doubles_def crc_tables, simp_all)

lemma doubles_2: "k < 8 \<Longrightarrow> doubles (2 ^ k) kStrideExtensionTable2"
  by (rule below_8I [where P = "\<lambda>n. doubles n kStrideExtensionTable2"])
     (unfold doubles_def crc_tables, simp_all)

lemma doubles_3: "k < 8 \<Longrightarrow> doubles (2 ^ k) kStrideExtensionTable3"
  by (rule below_8I [where P = "\<lambda>n. doubles n kStrideExtensionTable3"])
     (unfold doubles_def crc_tables, simp_all)

lemma byte_basis: "k < 8 \<Longrightarrow> kByteExtensionTable ! (2 ^ k) = (crc_bit ^^ 8) (2 ^ k)"
proof -
  have f8: "(f ^^ 8) x = f (f (f (f (f (f (f (f x)))))))" for f :: "u32 \<Rightarrow> u32" and x
    by (simp add: numeral_eq_Suc)
  assume "k < 8"
  then have "kByteExtensionTable ! (2 ^ k) = (crc_bit ^^ 8) (of_nat (2 ^ k))"
    by (rule below_8I [where P = "\<lambda>n. kByteExtensionTable ! n = (crc_bit ^^ 8) (of_nat n)", rotated 8])
       (unfold f8 crc_tables, simp_all add: crc_bit_def)
  then show ?thesis by simp
qed

lemma byte_table: "i < 256 \<Longrightarrow> kByteExtensionTable ! i = (crc_bit ^^ 8) (of_nat i)"
  by (rule additive_table) (simp_all only: crc_bits_xor length_tables tables_0 doubles_byte byte_basis)

definition byte_update :: "u32 \<Rightarrow> u32" where
  "byte_update x = kByteExtensionTable ! unat (x AND 0xff) XOR drop_bit 8 x"

lemma and_ff: "(x :: u32) AND 0xff = take_bit 8 x"
proof -
  have "(0xff :: u32) = mask 8" by (simp add: mask_eq_exp_minus_1)
  then show ?thesis by (simp only: take_bit_eq_mask)
qed

lemma low_byte_xor: "(x :: u32) AND 0xff XOR push_bit 8 (drop_bit 8 x) = x"
  unfolding and_ff by (rule bit_word_eqI) (auto simp: bit_simps dest: bit_imp_le_length)

lemma unat_low_byte: "unat ((x :: u32) AND 0xff) < 256"
  unfolding and_ff by (simp only: unsigned_take_bit_eq) (simp add: take_bit_eq_mod)

lemma byte_update_crc: "byte_update x = (crc_bit ^^ 8) x"
proof -
  have "(crc_bit ^^ 8) (push_bit 8 (drop_bit 8 x)) = drop_bit 8 (push_bit 8 (drop_bit 8 x))"
    by (rule crc_bits_low_zero) (simp add: bit_push_bit_iff)
  also have "\<dots> = drop_bit 8 x"
    by (rule bit_word_eqI) (auto simp: bit_simps dest: bit_imp_le_length)
  finally have hi: "(crc_bit ^^ 8) (push_bit 8 (drop_bit 8 x)) = drop_bit 8 x" .
  have "(crc_bit ^^ 8) x = (crc_bit ^^ 8) (x AND 0xff) XOR (crc_bit ^^ 8) (push_bit 8 (drop_bit 8 x))"
    by (simp only: crc_bits_xor [symmetric] low_byte_xor)
  then show ?thesis
    by (simp add: byte_update_def byte_table [OF unat_low_byte] hi)
qed

subsection \<open>The stride tables\<close>

definition stride_powers :: "u32 list" where
  "stride_powers = concat (map (\<lambda>T. map (\<lambda>i. T ! i) [1, 2, 4, 8, 16, 32, 64, 128])
     [kStrideExtensionTable3, kStrideExtensionTable2, kStrideExtensionTable1, kStrideExtensionTable0])"

lemma stride_chain: "map crc_bit (tl stride_powers) = butlast stride_powers"
  unfolding stride_powers_def crc_tables by (simp add: crc_bit_def)

lemma length_stride_powers [simp]: "length stride_powers = 32"
  by (simp add: stride_powers_def)

lemma crc_bits_8_16: "(crc_bit ^^ 128) x = ((crc_bit ^^ 8) ^^ 16) x"
  by (simp add: funpow_mult)

lemma stride_anchor: "stride_powers ! 0 = (crc_bit ^^ 128) 1"
proof -
  have f16: "(f ^^ 16) x = f (f (f (f (f (f (f (f (f (f (f (f (f (f (f (f x)))))))))))))))"
    for f :: "u32 \<Rightarrow> u32" and x by (simp add: numeral_eq_Suc)
  have "(crc_bit ^^ 128) 1 = (byte_update ^^ 16) 1"
    unfolding crc_bits_8_16 by (simp add: byte_update_crc [abs_def])
  also have "\<dots> = stride_powers ! 0"
    unfolding f16 stride_powers_def by (simp add: byte_update_def crc_tables)
  finally show ?thesis by simp
qed

lemma stride_power: "m < 32 \<Longrightarrow> stride_powers ! m = (crc_bit ^^ 128) (2 ^ m)"
proof (induction m)
  case 0
  then show ?case by (simp add: stride_anchor)
next
  case (Suc m)
  have "crc_bit (stride_powers ! Suc m) = map crc_bit (tl stride_powers) ! m"
    using Suc.prems by (simp add: nth_tl)
  also have "\<dots> = stride_powers ! m"
    unfolding stride_chain using Suc.prems by (simp add: nth_butlast)
  also have "\<dots> = (crc_bit ^^ 128) (crc_bit (2 ^ Suc m))"
  proof -
    have "\<not> bit (2 ^ Suc m :: u32) 0" by (simp add: bit_0)
    then have "crc_bit (2 ^ Suc m) = drop_bit 1 (2 ^ Suc m)" by (rule crc_bit_even)
    also have "\<dots> = 2 ^ m"
      using Suc.prems by (intro bit_word_eqI) (auto simp: bit_simps bit_exp_iff)
    finally show ?thesis using Suc by simp
  qed
  also have "\<dots> = crc_bit ((crc_bit ^^ 128) (2 ^ Suc m))"
    by (simp only: funpow_swap1)
  finally show ?case using inj_crc_bit by (simp only: inj_eq)
qed

lemma push_exp: "push_bit s (2 ^ k :: u32) = 2 ^ (s + k)"
  by (simp add: push_bit_eq_mult power_add mult.commute)

lemma push_bit_xor_word: "push_bit s (a XOR b :: u32) = push_bit s a XOR push_bit s b"
  by (rule push_bit_xor)

lemma stride_table:
  assumes "\<And>k. k < 8 \<Longrightarrow> doubles (2 ^ k) T" "length T = 256" "T ! 0 = 0" "s + 8 \<le> 32"
    and "\<And>k. k < 8 \<Longrightarrow> T ! (2 ^ k) = stride_powers ! (s + k)" "i < 256"
  shows "T ! i = (crc_bit ^^ 128) (push_bit s (of_nat i))"
  by (rule additive_table [where F = "\<lambda>x. (crc_bit ^^ 128) (push_bit s x)"])
     (use assms in \<open>simp_all add: crc_bits_xor push_bit_xor push_exp stride_power del: push_bit_of_1\<close>)

lemma stride_tables:
  assumes "i < 256"
  shows "kStrideExtensionTable3 ! i = (crc_bit ^^ 128) (push_bit 0 (of_nat i))"
    and "kStrideExtensionTable2 ! i = (crc_bit ^^ 128) (push_bit 8 (of_nat i))"
    and "kStrideExtensionTable1 ! i = (crc_bit ^^ 128) (push_bit 16 (of_nat i))"
    and "kStrideExtensionTable0 ! i = (crc_bit ^^ 128) (push_bit 24 (of_nat i))"
proof -
  have "k = 0 \<or> k = 1 \<or> k = 2 \<or> k = 3 \<or> k = 4 \<or> k = 5 \<or> k = 6 \<or> k = 7" if "k < 8" for k :: nat
    using that by linarith
  then have "kStrideExtensionTable3 ! (2 ^ k) = stride_powers ! (0 + k)"
    "kStrideExtensionTable2 ! (2 ^ k) = stride_powers ! (8 + k)"
    "kStrideExtensionTable1 ! (2 ^ k) = stride_powers ! (16 + k)"
    "kStrideExtensionTable0 ! (2 ^ k) = stride_powers ! (24 + k)" if "k < 8" for k
    using that by (fastforce simp: stride_powers_def)+
  then show "kStrideExtensionTable3 ! i = (crc_bit ^^ 128) (push_bit 0 (of_nat i))"
    and "kStrideExtensionTable2 ! i = (crc_bit ^^ 128) (push_bit 8 (of_nat i))"
    and "kStrideExtensionTable1 ! i = (crc_bit ^^ 128) (push_bit 16 (of_nat i))"
    and "kStrideExtensionTable0 ! i = (crc_bit ^^ 128) (push_bit 24 (of_nat i))"
    by (intro stride_table assms doubles_0 doubles_1 doubles_2 doubles_3 length_tables tables_0; simp)+
qed
end
