(* ===== verification/Crc32c_Facts.thy ===== *)
theory Crc32c_Facts imports Crc32c_Tables begin

unbundle bit_operations_syntax

section \<open>leveldb: Extend computes CRC-32C\<close>

text \<open>
  \<open>crc32c\<close> is the checksum one bit at a time. \<open>Extend\<close>, with its alignment loop, its swaths and
  its rotating strides, computes it for every buffer; it composes over concatenation, a change of
  one byte changes it, and \<open>Mask\<close> and \<open>Unmask\<close> are inverse.
\<close>

subsection \<open>The steps\<close>

lemma unat_ff_drop: "unat (drop_bit k (x :: u32) AND 0xff) < 256"
  by (rule unat_low_byte)

lemma STEP1_crc: "STEP1 l b = (crc_bit ^^ 8) (l XOR ucast b)"
proof -
  have 1: "(l XOR ucast b) AND 0xff = (l AND 0xff) XOR ucast b"
    unfolding and_ff by (rule bit_word_eqI) (auto simp: bit_simps dest: bit_imp_le_length)
  have 2: "drop_bit 8 (l XOR ucast b) = drop_bit 8 l"
    by (rule bit_word_eqI) (auto simp: bit_simps dest: bit_imp_le_length)
  show ?thesis
    unfolding byte_update_crc [symmetric] byte_update_def 1 2 STEP1_def Let_def ..
qed

lemma STEP1_crc_bytes: "foldl STEP1 l bs = crc_bytes l bs"
  unfolding crc_bytes_def by (rule foldl_cong) (simp_all add: STEP1_crc)

lemma crc_bytes_append: "crc_bytes l (as @ bs) = crc_bytes (crc_bytes l as) bs"
  by (simp add: crc_bytes_def)

lemma crc_bytes_Nil [simp]: "crc_bytes l [] = l"
  by (simp add: crc_bytes_def)

lemma crc_bits_add: "(crc_bit ^^ m) ((crc_bit ^^ n) x) = (crc_bit ^^ (m + n)) x"
  by (simp add: funpow_add)

lemma STEP4W_crc: "STEP4W l w = (crc_bit ^^ 32) (w XOR l)"
proof -
  have "(\<lambda>w. drop_bit 8 w XOR kByteExtensionTable ! unat (w AND 0xff)) = crc_bit ^^ 8"
    by (rule ext) (simp add: byte_update_crc [symmetric] byte_update_def xor.commute)
  then show ?thesis unfolding STEP4W_def by (simp add: funpow_mult)
qed

lemma word_of_bytes:
  "(x :: u32) = push_bit 0 (x AND 0xff) XOR push_bit 8 (drop_bit 8 x AND 0xff) XOR
     push_bit 16 (drop_bit 16 x AND 0xff) XOR push_bit 24 (drop_bit 24 x)"
  unfolding and_ff by (rule bit_word_eqI) (auto simp: bit_simps dest: bit_imp_le_length)

lemma STEP4_crc: "STEP4 crc p = map_option (\<lambda>w. w XOR (crc_bit ^^ 128) crc) (ReadUint32LE p)"
proof -
  have "drop_bit 24 crc = drop_bit 24 crc AND 0xff"
    unfolding and_ff by (rule bit_word_eqI) (auto simp: bit_simps dest: bit_imp_le_length)
  then have "unat (drop_bit 24 crc) < 256" using unat_ff_drop [of 24 crc] by simp
  then have "kStrideExtensionTable3 ! unat (crc AND 0xff) XOR
      kStrideExtensionTable2 ! unat (drop_bit 8 crc AND 0xff) XOR
      kStrideExtensionTable1 ! unat (drop_bit 16 crc AND 0xff) XOR
      kStrideExtensionTable0 ! unat (drop_bit 24 crc) = 
    (crc_bit ^^ 128) (push_bit 0 (crc AND 0xff) XOR push_bit 8 (drop_bit 8 crc AND 0xff) XOR
     push_bit 16 (drop_bit 16 crc AND 0xff) XOR push_bit 24 (drop_bit 24 crc))"
    by (simp add: crc_bits_xor stride_tables unat_low_byte del: push_bit_and)
  also have "\<dots> = (crc_bit ^^ 128) crc" by (simp only: word_of_bytes [of crc, symmetric])
  finally show ?thesis
    by (cases "ReadUint32LE p") (simp_all add: STEP4_def xor.assoc)
qed

subsection \<open>Four bytes at once\<close>

lemma crc_shifted_byte: "s + 8 \<le> 32 \<Longrightarrow> (crc_bit ^^ (n + s)) (push_bit s (ucast (b :: u8))) = (crc_bit ^^ n) (ucast b)"
proof -
  assume s: "s + 8 \<le> 32"
  have "(crc_bit ^^ s) (push_bit s (ucast b)) = drop_bit s (push_bit s (ucast b))"
    by (rule crc_bits_low_zero) (simp add: bit_push_bit_iff)
  also have "\<dots> = ucast b"
    by (rule bit_word_eqI) (use s in \<open>auto simp: bit_simps dest: bit_imp_le_length\<close>)
  finally show ?thesis by (simp add: funpow_add)
qed

lemma crc_word_bytes:
  assumes "p = [b0, b1, b2, b3]" and "ReadUint32LE p = Some w"
  shows "crc_bytes l p = (crc_bit ^^ 32) (w XOR l)"
proof -
  have w: "w = push_bit 0 (ucast b0) OR push_bit 8 (ucast b1) OR push_bit 16 (ucast b2) OR push_bit 24 (ucast b3)"
    using assms by (simp only: ReadUint32LE_def DecodeFixed32_def decode_fixed32_endian_free fixed32_word)
      (simp split: if_splits)
  also have "\<dots> = push_bit 0 (ucast b0) XOR push_bit 8 (ucast b1) XOR push_bit 16 (ucast b2) XOR push_bit 24 (ucast b3)"
    by (rule bit_word_eqI) (auto simp: bit_simps dest: bit_imp_le_length)
  finally have "(crc_bit ^^ 32) (w XOR l) = (crc_bit ^^ (32 + 0)) (push_bit 0 (ucast b0)) XOR (crc_bit ^^ (24 + 8)) (push_bit 8 (ucast b1)) XOR
      (crc_bit ^^ (16 + 16)) (push_bit 16 (ucast b2)) XOR (crc_bit ^^ (8 + 24)) (push_bit 24 (ucast b3)) XOR (crc_bit ^^ 32) l"
    by (simp add: crc_bits_xor xor.assoc)
  also have "\<dots> = (crc_bit ^^ 32) (ucast b0) XOR (crc_bit ^^ 24) (ucast b1) XOR (crc_bit ^^ 16) (ucast b2) XOR
      (crc_bit ^^ 8) (ucast b3) XOR (crc_bit ^^ 32) l"
    by (subst crc_shifted_byte, simp)+ simp
  also have "\<dots> = crc_bytes l p"
    unfolding assms(1) crc_bytes_def by (simp add: crc_bits_xor crc_bits_add ac_simps)
  finally show ?thesis by simp
qed

lemma take_4_list: "4 \<le> length p \<Longrightarrow> \<exists>b0 b1 b2 b3. take 4 p = [b0, b1, b2, b3]"
  using take_4 by blast

lemma read_word: 
  assumes "4 \<le> length p"
  obtains w where "ReadUint32LE p = Some w" and "\<And>l. (crc_bit ^^ 32) (w XOR l) = crc_bytes l (take 4 p)"
proof -
  let ?w = "of_nat (of_le (take 4 p)) :: u32"
  have r: "ReadUint32LE p = Some ?w" "ReadUint32LE (take 4 p) = Some ?w"
    using assms by (simp_all add: ReadUint32LE_def DecodeFixed32_def decode_fixed32_endian_free)
  moreover obtain b0 b1 b2 b3 where "take 4 p = [b0, b1, b2, b3]" using take_4_list [OF assms] by blast
  then have "\<And>l. (crc_bit ^^ 32) (?w XOR l) = crc_bytes l (take 4 p)"
    using crc_word_bytes r(2) by metis
  ultimately show thesis using that by blast
qed

subsection \<open>The strides\<close>

lemma combine_crc:
  "combine_strides (c0, c1, c2, c3) =
     (crc_bit ^^ 128) c0 XOR (crc_bit ^^ 96) c1 XOR (crc_bit ^^ 64) c2 XOR (crc_bit ^^ 32) c3"
  by (simp add: combine_strides_def STEP4W_crc crc_bits_xor crc_bits_add ac_simps)

lemma STEP4_combine:
  assumes "4 \<le> length p"
  obtains tmp where "STEP4 c0 p = Some tmp"
    and "combine_strides (c1, c2, c3, tmp) = crc_bytes (combine_strides (c0, c1, c2, c3)) (take 4 p)"
proof -
  obtain w where w: "ReadUint32LE p = Some w" "\<And>l. (crc_bit ^^ 32) (w XOR l) = crc_bytes l (take 4 p)"
    using read_word [OF assms] by blast
  have "STEP4 c0 p = Some (w XOR (crc_bit ^^ 128) c0)" by (simp add: STEP4_crc w)
  moreover have "combine_strides (c1, c2, c3, w XOR (crc_bit ^^ 128) c0) =
      crc_bytes (combine_strides (c0, c1, c2, c3)) (take 4 p)"
    by (simp add: w(2) [symmetric] combine_crc crc_bits_xor crc_bits_add ac_simps)
  ultimately show thesis by (rule that)
qed

lemma take_16: "take 16 p = take 4 p @ take 4 (drop 4 p) @ take 4 (drop 8 p) @ take 4 (drop 12 p)"
proof -
  have "take 16 p = take (4 + 4 + 4 + 4) p" by simp
  then show ?thesis by (simp only: take_add drop_drop append_assoc) (simp add: take_add)
qed

lemma words_16:
  assumes "16 \<le> length p"
  obtains w0 w1 w2 w3 where "ReadUint32LE p = Some w0" "ReadUint32LE (drop 4 p) = Some w1"
    "ReadUint32LE (drop 8 p) = Some w2" "ReadUint32LE (drop 12 p) = Some w3"
    "\<And>l. crc_bytes l (take 16 p) = (crc_bit ^^ 128) (w0 XOR l) XOR (crc_bit ^^ 96) w1 XOR
       (crc_bit ^^ 64) w2 XOR (crc_bit ^^ 32) w3"
proof -
  have l: "4 \<le> length p" "4 \<le> length (drop 4 p)" "4 \<le> length (drop 8 p)" "4 \<le> length (drop 12 p)"
    using assms by simp_all
  obtain w0 where w0: "ReadUint32LE p = Some w0" "\<And>l. (crc_bit ^^ 32) (w0 XOR l) = crc_bytes l (take 4 p)"
    using read_word [OF l(1)] by blast
  obtain w1 where w1: "ReadUint32LE (drop 4 p) = Some w1"
    "\<And>l. (crc_bit ^^ 32) (w1 XOR l) = crc_bytes l (take 4 (drop 4 p))"
    using read_word [OF l(2)] by blast
  obtain w2 where w2: "ReadUint32LE (drop 8 p) = Some w2"
    "\<And>l. (crc_bit ^^ 32) (w2 XOR l) = crc_bytes l (take 4 (drop 8 p))"
    using read_word [OF l(3)] by blast
  obtain w3 where w3: "ReadUint32LE (drop 12 p) = Some w3"
    "\<And>l. (crc_bit ^^ 32) (w3 XOR l) = crc_bytes l (take 4 (drop 12 p))"
    using read_word [OF l(4)] by blast
  have "crc_bytes l (take 16 p) = (crc_bit ^^ 128) (w0 XOR l) XOR (crc_bit ^^ 96) w1 XOR
       (crc_bit ^^ 64) w2 XOR (crc_bit ^^ 32) w3" for l
    unfolding take_16 crc_bytes_append w0(2) [symmetric] w1(2) [symmetric] w2(2) [symmetric]
      w3(2) [symmetric]
    by (simp add: crc_bits_xor crc_bits_add ac_simps)
  with w0(1) w1(1) w2(1) w3(1) that show thesis by blast
qed

lemma STEP16_combine:
  assumes "16 \<le> length p"
  obtains crcs' where "STEP16 crcs p = Some (crcs', drop 16 p)"
    and "combine_strides crcs' = crc_bytes (combine_strides crcs) (take 16 p)"
proof -
  obtain c0 c1 c2 c3 where c: "crcs = (c0, c1, c2, c3)" by (cases crcs) auto
  from assms obtain w0 w1 w2 w3 where w: "ReadUint32LE p = Some w0" "ReadUint32LE (drop 4 p) = Some w1"
    "ReadUint32LE (drop 8 p) = Some w2" "ReadUint32LE (drop 12 p) = Some w3"
    "\<And>l. crc_bytes l (take 16 p) = (crc_bit ^^ 128) (w0 XOR l) XOR (crc_bit ^^ 96) w1 XOR
       (crc_bit ^^ 64) w2 XOR (crc_bit ^^ 32) w3"
    using words_16 by metis
  let ?c = "(w0 XOR (crc_bit ^^ 128) c0, w1 XOR (crc_bit ^^ 128) c1,
    w2 XOR (crc_bit ^^ 128) c2, w3 XOR (crc_bit ^^ 128) c3)"
  have "STEP16 crcs p = Some (?c, drop 16 p)" by (simp add: STEP16_def c STEP4_crc w(1-4))
  moreover have "combine_strides ?c = crc_bytes (combine_strides crcs) (take 16 p)"
    unfolding w(5) c combine_crc by (simp add: crc_bits_xor crc_bits_add ac_simps)
  ultimately show thesis by (rule that)
qed

lemma swath_loop_crc:
  "\<exists>crcs' p'. swath_loop crcs p = Some (crcs', p') \<and>
     crc_bytes (combine_strides crcs') p' = crc_bytes (combine_strides crcs) p"
proof (induction crcs p rule: swath_loop.induct)
  case (1 crcs p)
  show ?case
  proof (cases "length p \<ge> 16")
    case True
    then obtain crcs' where s: "STEP16 crcs p = Some (crcs', drop 16 p)"
      "combine_strides crcs' = crc_bytes (combine_strides crcs) (take 16 p)"
      using STEP16_combine by metis
    have "crc_bytes (combine_strides crcs') (drop 16 p) = crc_bytes (combine_strides crcs) p"
      unfolding s(2) crc_bytes_append [symmetric] by simp
    moreover have "swath_loop crcs p = swath_loop crcs' (drop 16 p)"
      using True s(1) by (simp add: swath_loop.simps [of crcs p])
    ultimately show ?thesis using 1 [OF True s(1) refl] by (simp only:)
  qed (simp add: swath_loop.simps [of crcs p])
qed

lemma word_loop_crc:
  "\<exists>crcs' p'. word_loop crcs p = Some (crcs', p') \<and>
     crc_bytes (combine_strides crcs') p' = crc_bytes (combine_strides crcs) p"
proof (induction crcs p rule: word_loop.induct)
  case (1 crcs p)
  obtain c0 c1 c2 c3 where c: "crcs = (c0, c1, c2, c3)" by (cases crcs) auto
  show ?case
  proof (cases "length p \<ge> 4")
    case True
    then obtain tmp where s: "STEP4 c0 p = Some tmp"
      "combine_strides (c1, c2, c3, tmp) = crc_bytes (combine_strides crcs) (take 4 p)"
      using STEP4_combine c by metis
    have "crc_bytes (combine_strides (c1, c2, c3, tmp)) (drop 4 p) = crc_bytes (combine_strides crcs) p"
      unfolding s(2) crc_bytes_append [symmetric] by simp
    moreover have "word_loop crcs p = word_loop (c1, c2, c3, tmp) (drop 4 p)"
      using True s(1) by (simp add: c word_loop.simps [of "(c0, c1, c2, c3)" p])
    ultimately show ?thesis using 1 [OF True c [symmetric] refl refl s(1)] by (simp only:)
  qed (simp add: word_loop.simps [of crcs p])
qed

lemma process_strides_crc:
  "\<exists>p' l'. process_strides p l = Some (p', l') \<and> crc_bytes l' p' = crc_bytes l p"
proof (cases "length p \<ge> 16")
  case True
  then obtain w0 w1 w2 w3 where w: "ReadUint32LE p = Some w0" "ReadUint32LE (drop 4 p) = Some w1"
    "ReadUint32LE (drop 8 p) = Some w2" "ReadUint32LE (drop 12 p) = Some w3"
    "\<And>l. crc_bytes l (take 16 p) = (crc_bit ^^ 128) (w0 XOR l) XOR (crc_bit ^^ 96) w1 XOR
       (crc_bit ^^ 64) w2 XOR (crc_bit ^^ 32) w3"
    using words_16 by metis
  let ?c = "(w0 XOR l, w1, w2, w3)"
  obtain c1 p1 where 1: "swath_loop ?c (drop 16 p) = Some (c1, p1)"
    "crc_bytes (combine_strides c1) p1 = crc_bytes (combine_strides ?c) (drop 16 p)"
    using swath_loop_crc by metis
  obtain c2 p2 where 2: "word_loop c1 p1 = Some (c2, p2)"
    "crc_bytes (combine_strides c2) p2 = crc_bytes (combine_strides c1) p1"
    using word_loop_crc by metis
  have "combine_strides ?c = crc_bytes l (take 16 p)" unfolding combine_crc w(5) ..
  then have "crc_bytes (combine_strides c2) p2 = crc_bytes l p"
    using 1 2 by (simp add: crc_bytes_append [symmetric])
  with True w(1-4) 1(1) 2(1) show ?thesis by (simp add: process_strides_def)
qed (simp add: process_strides_def)

subsection \<open>Extend\<close>

lemma align_loop_crc:
  "k \<le> length bs \<Longrightarrow> x = p + of_nat k \<Longrightarrow> k < 2 ^ 64 \<Longrightarrow>
     align_loop p x bs l = Some (drop k bs, crc_bytes l (take k bs))"
proof (induction k arbitrary: p bs l)
  case 0
  then show ?case by (cases bs) simp_all
next
  case (Suc k)
  then obtain b bs' where bs: "bs = b # bs'" by (cases bs) auto
  have "(1 + of_nat k :: u64) = of_nat (Suc k)" by simp
  moreover have "(of_nat (Suc k) :: u64) \<noteq> 0"
    using Suc.prems(3) by (simp add: word_of_nat_eq_0_iff del: of_nat_Suc)
      (auto dest: dvd_imp_le)
  ultimately have "p \<noteq> x" unfolding Suc.prems(2) by (metis add_cancel_right_right)
  moreover have "align_loop (p + 1) x bs' (STEP1 l b) = Some (drop k bs', crc_bytes (STEP1 l b) (take k bs'))"
    by (rule Suc.IH) (use Suc.prems bs in \<open>simp_all add: algebra_simps\<close>)
  moreover have "crc_bytes (STEP1 l b) (take k bs') = crc_bytes l (take (Suc k) bs)"
    by (simp add: bs STEP1_crc crc_bytes_def)
  ultimately show ?case by (simp add: bs)
qed

lemma split_word:
  "(x AND m) AND (x AND NOT m) = (0 :: u64)" "(x AND m) OR (x AND NOT m) = x"
  by (rule bit_word_eqI, auto simp: bit_simps)+

lemma unat_and_not_3: "unat ((x :: u64) AND NOT 3) = unat x - unat x mod 4"
proof -
  have "(3 :: u64) = mask 2" by (simp add: mask_eq_exp_minus_1)
  then have t: "x AND 3 = take_bit 2 x" by (simp only: take_bit_eq_mask)
  have u: "unat (take_bit 2 x) = unat x mod 4"
    by (simp only: unsigned_take_bit_eq) (simp add: take_bit_eq_mod)
  have "take_bit 2 x \<le> x" unfolding word_le_nat_alt u by simp
  moreover have "x AND NOT 3 = x - take_bit 2 x"
  proof -
    have "(x AND 3) + (x AND NOT 3) = (x AND 3) OR (x AND NOT 3)"
      by (rule disjunctive_add_eq_or [OF split_word(1)])
    also have "\<dots> = x" by (rule split_word(2))
    finally show ?thesis unfolding t by (simp only: eq_diff_eq add.commute)
  qed
  ultimately show ?thesis using u by (simp add: unat_sub)
qed

lemma RoundUp_4:
  assumes "unat a + 3 < 2 ^ 64"
  shows "\<exists>k \<le> 3. unat (RoundUp 4 a) = unat a + k"
proof -
  have "unat (a + 3) = unat a + 3" using assms by (simp add: unat_add_lem [THEN iffD1])
  moreover have "RoundUp 4 a = (a + 3) AND NOT 3" by (simp add: RoundUp_def)
  ultimately have "unat (RoundUp 4 a) = (unat a + 3) - (unat a + 3) mod 4"
    by (simp only: unat_and_not_3)
  moreover have "(unat a + 3) mod 4 \<le> 3" by simp
  ultimately have "unat (RoundUp 4 a) = unat a + (3 - (unat a + 3) mod 4)" by linarith
  moreover have "3 - (unat a + 3) mod 4 \<le> 3" by simp
  ultimately show ?thesis by blast
qed

lemma no_acceleration: "\<not> CanAccelerateCRC32C"
  by (simp add: CanAccelerateCRC32C_def AcceleratedCRC32C_def)

definition crc32c :: "u32 \<Rightarrow> u8 list \<Rightarrow> u32" where
  "crc32c crc bs = NOT (crc_bytes (NOT crc) bs)"

lemma xor_ones: "x XOR kCRC32Xor = NOT x"
proof -
  have "kCRC32Xor = mask LENGTH(32)" by (simp add: kCRC32Xor_def mask_eq_exp_minus_1)
  then show ?thesis
    unfolding \<open>kCRC32Xor = mask LENGTH(32)\<close>
    by (intro bit_word_eqI) (simp add: bit_xor_iff bit_mask_iff bit_not_iff)
qed

lemma Extend_crc:
  assumes "unat addr + length data + 3 < 2 ^ 64"
  shows "Extend addr crc data = Some (crc32c crc data)"
proof -
  obtain k where k: "k \<le> 3" "unat (RoundUp 4 addr) = unat addr + k"
    using RoundUp_4 [of addr] assms by auto
  have e: "unat (addr + of_nat (length data)) = unat addr + length data"
    using assms by (simp add: unat_word_ariths unsigned_of_nat take_bit_nat_eq_self)
  have x: "RoundUp 4 addr = addr + of_nat k"
    unfolding word_unat_eq_iff using k assms
    by (simp add: unat_word_ariths unsigned_of_nat take_bit_nat_eq_self)
  let ?l = "NOT crc"
  have "\<exists>p l. (if RoundUp 4 addr \<le> addr + of_nat (length data) then align_loop addr (RoundUp 4 addr) data ?l
      else Some (data, ?l)) = Some (p, l) \<and> crc_bytes l p = crc_bytes ?l data"
  proof (cases "k \<le> length data")
    case True
    then have "align_loop addr (RoundUp 4 addr) data ?l = Some (drop k data, crc_bytes ?l (take k data))"
      by (rule align_loop_crc [OF _ x]) (use k in simp)
    moreover have "RoundUp 4 addr \<le> addr + of_nat (length data)"
      unfolding word_le_nat_alt e using k True by simp
    ultimately show ?thesis by (simp add: crc_bytes_append [symmetric])
  next
    case False
    then have "\<not> RoundUp 4 addr \<le> addr + of_nat (length data)"
      unfolding word_le_nat_alt e using k by simp
    then show ?thesis by simp
  qed
  then obtain p l where 1: "(if RoundUp 4 addr \<le> addr + of_nat (length data) then align_loop addr (RoundUp 4 addr) data ?l
      else Some (data, ?l)) = Some (p, l)" "crc_bytes l p = crc_bytes ?l data" by blast
  obtain p' l' where 2: "process_strides p l = Some (p', l')" "crc_bytes l' p' = crc_bytes l p"
    using process_strides_crc by blast
  show ?thesis
    by (simp add: Extend_def no_acceleration Let_def xor_ones 1(1) 2(1) STEP1_crc_bytes 2(2) 1(2)
        crc32c_def cong: if_cong)
qed

lemma crc32c_append: "crc32c (crc32c c as) bs = crc32c c (as @ bs)"
  by (simp add: crc32c_def crc_bytes_append)

subsection \<open>Corruption of one byte\<close>

lemma crc_bytes_inj: "crc_bytes l bs = crc_bytes l' bs \<Longrightarrow> l = l'"
proof (induction bs arbitrary: l l')
  case (Cons b bs)
  then have "(crc_bit ^^ 8) (l XOR ucast b) = (crc_bit ^^ 8) (l' XOR ucast b)"
    by (auto simp: crc_bytes_def)
  then have "l XOR ucast b = l' XOR ucast b" using inj_crc_bits by (simp only: inj_eq)
  then have "(l XOR ucast b) XOR ucast b = (l' XOR ucast b) XOR ucast b" by (simp only:)
  then show ?case by (simp only: xor.assoc xor_self_eq xor.right_neutral)
qed simp

lemma ucast_u8_inj: "(ucast (a :: u8) :: u32) = ucast b \<longleftrightarrow> a = b"
proof
  assume "(ucast a :: u32) = ucast b"
  moreover have "unat (ucast x :: u32) = unat x" for x :: u8
    using unat_u8_less [of x] by (simp add: unsigned_ucast_eq take_bit_nat_eq_self_iff del: unat_u8_less)
  ultimately show "a = b" by (metis word_unat_eq_iff)
qed (simp only:)

lemma crc32c_one_byte:
  assumes "a \<noteq> b"
  shows "crc32c c (xs @ a # ys) \<noteq> crc32c c (xs @ b # ys)"
proof
  let ?l = "crc_bytes (NOT c) xs"
  assume "crc32c c (xs @ a # ys) = crc32c c (xs @ b # ys)"
  then have "NOT (crc32c c (xs @ a # ys)) = NOT (crc32c c (xs @ b # ys))" by (simp only:)
  then have "crc_bytes (NOT c) (xs @ a # ys) = crc_bytes (NOT c) (xs @ b # ys)"
    by (simp only: crc32c_def bit.double_compl)
  then have "crc_bytes (crc_bytes ?l [a]) ys = crc_bytes (crc_bytes ?l [b]) ys"
    by (simp only: crc_bytes_append [symmetric] append_assoc append.simps)
  then have "crc_bytes ?l [a] = crc_bytes ?l [b]" by (rule crc_bytes_inj)
  then have "?l XOR ucast a = ?l XOR ucast b"
    using inj_crc_bits by (simp only: crc_bytes_def foldl.simps inj_eq)
  then have "?l XOR (?l XOR ucast a) = ?l XOR (?l XOR ucast b)" by (simp only:)
  then have "(ucast a :: u32) = ucast b"
    by (simp only: xor.assoc [symmetric] xor_self_eq xor.left_neutral)
  with assms show False by (simp only: ucast_u8_inj)
qed

subsection \<open>Masks\<close>

lemma Unmask_Mask: "Unmask (Mask crc) = crc"
proof -
  have "drop_bit 17 (drop_bit 15 crc OR push_bit 17 crc) OR push_bit 15 (drop_bit 15 crc OR push_bit 17 crc) = crc"
  proof (rule bit_word_eqI)
    fix n assume "n < LENGTH(32)"
    then show "bit (drop_bit 17 (drop_bit 15 crc OR push_bit 17 crc) OR push_bit 15 (drop_bit 15 crc OR push_bit 17 crc)) n = bit crc n"
      by (cases "n < 15") (auto simp: bit_simps dest: bit_imp_le_length)
  qed
  then show ?thesis by (simp add: Unmask_def Mask_def Let_def)
qed

lemma Mask_Unmask: "Mask (Unmask m) = m"
proof -
  define rot where "rot = m - kMaskDelta"
  have "drop_bit 15 (drop_bit 17 rot OR push_bit 15 rot) OR push_bit 17 (drop_bit 17 rot OR push_bit 15 rot) = rot"
  proof (rule bit_word_eqI)
    fix n assume "n < LENGTH(32)"
    then show "bit (drop_bit 15 (drop_bit 17 rot OR push_bit 15 rot) OR push_bit 17 (drop_bit 17 rot OR push_bit 15 rot)) n = bit rot n"
      by (cases "n < 17") (auto simp: bit_simps dest: bit_imp_le_length)
  qed
  then show ?thesis by (simp add: Unmask_def Mask_def Let_def rot_def)
qed

end
