(* ===== verification/Bloom.thy ===== *)
theory Bloom imports Ldb_Coding begin

unbundle bit_operations_syntax

section \<open>leveldb: hashing and Bloom filters (util/hash.cc, util/bloom.cc)\<close>

subsection \<open>Hash\<close>

text \<open>\<open>while (data + 4 <= limit)\<close>: the words of the buffer; the rest has at most three bytes.
  \<open>n * m\<close> is a product of \<open>size_t\<close>, truncated when it is stored in \<open>h\<close>.\<close>

definition hash_m :: u32 where
  "hash_m = 0xc6a4a793"

function hash_words :: "u8 list \<Rightarrow> u32 \<Rightarrow> (u8 list \<times> u32) option" where
  "hash_words data h =
     (if 4 \<le> length data
      then (case DecodeFixed32 data of None \<Rightarrow> None
        | Some w \<Rightarrow>
            let h = h + w; h = h * hash_m; h = h XOR drop_bit 16 h in hash_words (drop 4 data) h)
      else Some (data, h))"
  by pat_completeness auto
termination
  by (relation "measure (length \<circ> fst)") auto

declare hash_words.simps [simp del]

text \<open>The \<open>switch\<close> with its cases falling through.\<close>

definition hash_tail :: "u8 list \<Rightarrow> u32 \<Rightarrow> u32" where
  "hash_tail data h =
     (let h = (if length data = 3 then h + push_bit 16 (ucast (data ! 2)) else h);
          h = (if length data = 3 \<or> length data = 2 then h + push_bit 8 (ucast (data ! 1)) else h)
      in if length data = 3 \<or> length data = 2 \<or> length data = 1
         then let h = h + ucast (data ! 0); h = h * hash_m in h XOR drop_bit 24 h
         else h)"

definition Hash :: "u8 list \<Rightarrow> u32 \<Rightarrow> u32 option" where
  "Hash data seed =
     (let n = of_nat (length data) :: u64;
          h = ucast (ucast seed XOR n * ucast hash_m :: u64) :: u32
      in map_option (\<lambda>(rest, h). hash_tail rest h) (hash_words data h))"

subsection \<open>The Bloom filter policy\<close>

definition BloomHash :: "Slice \<Rightarrow> u32 option" where
  "BloomHash key = Hash key 0xbc9f1d34"

text \<open>
  The state of the policy is \<open>bits_per_key_\<close> and \<open>k_\<close> (\<open>bits_per_key\<close> and \<open>num_probes\<close> here). The product \<open>bits_per_key * 0.69\<close> is in
  floating point; below 44 it is at least 0.01 away from any integer other than 0, so truncation
  gives \<open>69 * b div 100\<close>, and from 44 on both are at least 30 and \<open>k_\<close> is 30.
\<close>

record BloomFilterPolicy =
  bits_per_key :: u64
  num_probes :: nat

definition mk_BloomFilterPolicy :: "nat \<Rightarrow> BloomFilterPolicy" where
  "mk_BloomFilterPolicy b =
     (let k = b * 69 div 100;
          k = (if k < 1 then 1 else k);
          k = (if k > 30 then 30 else k)
      in \<lparr>bits_per_key = of_nat b, num_probes = k\<rparr>)"

definition set_bit_at :: "u8 list \<Rightarrow> u32 \<Rightarrow> u8 list" where
  "set_bit_at arr bitpos =
     (let i = unat (bitpos div 8) in arr[i := arr ! i OR push_bit (unat (bitpos mod 8)) 1])"

definition bit_at :: "u8 list \<Rightarrow> u32 \<Rightarrow> bool" where
  "bit_at arr bitpos \<longleftrightarrow> arr ! unat (bitpos div 8) AND push_bit (unat (bitpos mod 8)) 1 \<noteq> 0"

definition probe :: "u32 \<Rightarrow> u64 \<Rightarrow> u32" where
  "probe h bits = ucast (ucast h mod bits)"

definition bloom_delta :: "u32 \<Rightarrow> u32" where
  "bloom_delta h = drop_bit 17 h OR push_bit 15 h"

text \<open>The inner loops, \<open>j\<close> probes to go.\<close>

fun add_probes :: "nat \<Rightarrow> u32 \<Rightarrow> u32 \<Rightarrow> u64 \<Rightarrow> u8 list \<Rightarrow> u8 list" where
  "add_probes 0 h delta bits arr = arr"
| "add_probes (Suc j) h delta bits arr =
     add_probes j (h + delta) delta bits (set_bit_at arr (probe h bits))"

fun test_probes :: "nat \<Rightarrow> u32 \<Rightarrow> u32 \<Rightarrow> u64 \<Rightarrow> u8 list \<Rightarrow> bool" where
  "test_probes 0 h delta bits arr = True"
| "test_probes (Suc j) h delta bits arr =
     (if \<not> bit_at arr (probe h bits) then False else test_probes j (h + delta) delta bits arr)"

fun add_keys :: "nat \<Rightarrow> Slice list \<Rightarrow> u64 \<Rightarrow> u8 list \<Rightarrow> u8 list option" where
  "add_keys k [] bits arr = Some arr"
| "add_keys k (key # ks) bits arr =
     (case BloomHash key of None \<Rightarrow> None
      | Some h \<Rightarrow> add_keys k ks bits (add_probes k h (bloom_delta h) bits arr))"

definition bloom_bytes :: "BloomFilterPolicy \<Rightarrow> nat \<Rightarrow> u64" where
  "bloom_bytes self n =
     (let bits = of_nat n * bits_per_key self;
          bits = (if bits < 64 then 64 else bits)
      in (bits + 7) div 8)"

definition CreateFilter :: "BloomFilterPolicy \<Rightarrow> Slice list \<Rightarrow> u8 list \<Rightarrow> u8 list option" where
  "CreateFilter self keys dst =
     (let bytes = bloom_bytes self (length keys);
          bits = bytes * 8
      in map_option (\<lambda>arr. dst @ arr @ [of_nat (num_probes self)])
           (add_keys (num_probes self) keys bits (replicate (unat bytes) 0)))"

definition KeyMayMatch :: "Slice \<Rightarrow> Slice \<Rightarrow> bool option" where
  "KeyMayMatch key bloom_filter =
     (let len = length bloom_filter in
      if len < 2 then Some False
      else let bits = of_nat (len - 1) * 8; k = unat (bloom_filter ! (len - 1)) in
        if k > 30 then Some True
        else map_option (\<lambda>h. test_probes k h (bloom_delta h) bits bloom_filter) (BloomHash key))"

end
