(* ===== verification/Bloom_Facts.thy ===== *)
theory Bloom_Facts imports Bloom Ldb_Coding_Facts begin

unbundle bit_operations_syntax

section \<open>leveldb: a Bloom filter has no false negatives\<close>

text \<open>
  Probes stay inside the bit array, setting a bit keeps the others, and the probes of
  \<open>KeyMayMatch\<close> are those of \<open>CreateFilter\<close>; so every key of the list passes the filter made from
  it. The policies' sizes are C \<open>int\<close>s, so the products of \<open>CreateFilter\<close> do not wrap.
\<close>

lemma hash_words_total: "\<exists>r h'. hash_words data h = Some (r, h')"
proof (induction data h rule: hash_words.induct)
  case (1 data h)
  show ?case
  proof (cases "4 \<le> length data")
    case True
    then have "DecodeFixed32 data = Some (of_nat (of_le (take 4 data)))"
      by (simp add: DecodeFixed32_def decode_fixed32_endian_free)
    with 1 True show ?thesis by (simp add: hash_words.simps [of data] Let_def)
  qed (simp add: hash_words.simps [of data])
qed

lemma Hash_total: "\<exists>h. Hash data seed = Some h"
  using hash_words_total by (simp add: Hash_def Let_def)

lemma BloomHash_total: "\<exists>h. BloomHash key = Some h"
  unfolding BloomHash_def by (rule Hash_total)

definition in_range :: "u8 list \<Rightarrow> u64 \<Rightarrow> bool" where
  "in_range arr bits \<longleftrightarrow> 0 < bits \<and> unat bits \<le> 8 * length arr"

lemma length_set_bit_at [simp]: "length (set_bit_at arr p) = length arr"
  by (simp add: set_bit_at_def Let_def)

lemma length_add_probes [simp]: "length (add_probes j h d bits arr) = length arr"
  by (induction j h d bits arr rule: add_probes.induct) simp_all

lemma probe_in_range:
  assumes "in_range arr bits"
  shows "unat (probe h bits div 8) < length arr"
proof -
  have "unat (ucast h mod bits) = unat (ucast h :: u64) mod unat bits" by (simp add: unat_mod_distrib)
  moreover have "0 < unat bits" using assms by (simp add: in_range_def word_less_nat_alt)
  ultimately have lt: "unat (ucast h mod bits) < unat bits" by simp
  have "unat (probe h bits) \<le> unat (ucast h mod bits)"
    unfolding probe_def by (simp add: unsigned_ucast_eq take_bit_nat_less_eq_self)
  with lt assms have "unat (probe h bits) < 8 * length arr" by (simp add: in_range_def)
  then have "unat (probe h bits) div 8 < length arr" by (simp add: less_mult_imp_div_less mult.commute)
  then show ?thesis by (simp add: unat_div_distrib)
qed

lemma and_or_mono: "(a :: u8) AND m \<noteq> 0 \<Longrightarrow> (a OR b) AND m \<noteq> 0"
  by (metis bit.conj_disj_distrib2 or_eq_0_iff)

lemma bit_mask_nonzero: "push_bit (unat ((q :: u32) mod 8)) 1 \<noteq> (0 :: u8)"
proof -
  have "unat (q mod 8) < 8" by (simp add: unat_mod_distrib)
  then have "bit (push_bit (unat (q mod 8)) 1 :: u8) (unat (q mod 8))"
    by (simp only: bit_push_bit_iff) simp
  then show ?thesis by (metis bit_0_eq bot_apply bot_bool_def)
qed

lemma bit_at_set_bit_at:
  assumes "unat (p div 8) < length arr"
  shows "bit_at (set_bit_at arr p) p" "bit_at arr q \<Longrightarrow> bit_at (set_bit_at arr p) q"
proof -
  have "(x OR m) AND m = (m :: u8)" for x m by (simp add: bit.conj_disj_distrib2)
  with assms bit_mask_nonzero [of p] show "bit_at (set_bit_at arr p) p"
    by (simp add: bit_at_def set_bit_at_def Let_def)
next
  assume "bit_at arr q"
  with assms show "bit_at (set_bit_at arr p) q"
    by (cases "unat (p div 8) = unat (q div 8)")
       (simp_all add: bit_at_def set_bit_at_def Let_def and_or_mono)
qed

lemma in_range_set_bit_at [simp]: "in_range (set_bit_at arr p) bits = in_range arr bits"
  by (simp add: in_range_def)

lemma in_range_add_probes [simp]: "in_range (add_probes j h d b arr) bits = in_range arr bits"
  by (simp add: in_range_def)

lemma add_probes_keeps:
  "in_range arr bits \<Longrightarrow> bit_at arr q \<Longrightarrow> bit_at (add_probes j h d bits arr) q"
proof (induction j arbitrary: h arr)
  case (Suc j)
  then show ?case using bit_at_set_bit_at(2) [OF probe_in_range] by simp
qed simp

lemma test_probes_keeps:
  "(\<And>q. bit_at arr q \<Longrightarrow> bit_at arr' q) \<Longrightarrow> test_probes j h d bits arr \<Longrightarrow> test_probes j h d bits arr'"
  by (induction j h d bits arr rule: test_probes.induct) (auto split: if_splits)

lemma test_add_probes: "in_range arr bits \<Longrightarrow> test_probes j h d bits (add_probes j h d bits arr)"
proof (induction j arbitrary: h arr)
  case (Suc j)
  let ?arr = "set_bit_at arr (probe h bits)"
  have "in_range ?arr bits" using Suc.prems by simp
  moreover have "bit_at ?arr (probe h bits)"
    by (rule bit_at_set_bit_at(1) [OF probe_in_range [OF Suc.prems]])
  ultimately show ?case using Suc.IH add_probes_keeps by simp
qed simp

lemma add_keys_total:
  "\<exists>arr'. add_keys k keys bits arr = Some arr' \<and> length arr' = length arr"
proof (induction keys arbitrary: arr)
  case (Cons key keys)
  obtain h where "BloomHash key = Some h" using BloomHash_total by blast
  with Cons [of "add_probes k h (bloom_delta h) bits arr"] show ?case by simp
qed simp

lemma add_keys_keeps:
  "in_range arr bits \<Longrightarrow> add_keys k keys bits arr = Some arr' \<Longrightarrow> bit_at arr q \<Longrightarrow> bit_at arr' q"
proof (induction keys arbitrary: arr)
  case (Cons key keys)
  obtain g where g: "BloomHash key = Some g" using BloomHash_total by blast
  let ?arr = "add_probes k g (bloom_delta g) bits arr"
  have r: "add_keys k keys bits ?arr = Some arr'" using Cons.prems(2) g by simp
  show ?case by (rule Cons.IH [OF _ r]) (use Cons.prems add_probes_keeps in simp_all)
qed simp

lemma add_keys_hits:
  "in_range arr bits \<Longrightarrow> add_keys k keys bits arr = Some arr' \<Longrightarrow> key \<in> set keys \<Longrightarrow>
     BloomHash key = Some h \<Longrightarrow> test_probes k h (bloom_delta h) bits arr'"
proof (induction keys arbitrary: arr)
  case (Cons x keys)
  obtain g where g: "BloomHash x = Some g" using BloomHash_total by blast
  let ?arr = "add_probes k g (bloom_delta g) bits arr"
  have r: "add_keys k keys bits ?arr = Some arr'" using Cons.prems(2) g by simp
  show ?case
  proof (cases "key = x")
    case True
    then have "h = g" using g Cons.prems(4) by simp
    then have "test_probes k h (bloom_delta h) bits ?arr" using test_add_probes Cons.prems(1) by simp
    then show ?thesis
      using test_probes_keeps add_keys_keeps [OF _ r] Cons.prems(1) by (metis in_range_add_probes)
  next
    case False
    with Cons.prems have "key \<in> set keys" by simp
    with Cons.prems show ?thesis by (intro Cons.IH [OF _ r]) simp_all
  qed
qed simp

lemma num_probes_bounds:
  "1 \<le> num_probes (mk_BloomFilterPolicy b)" "num_probes (mk_BloomFilterPolicy b) \<le> 30"
  by (simp_all add: mk_BloomFilterPolicy_def Let_def)

lemma bloom_bytes_bounds:
  assumes "b < 2 ^ 31" "n < 2 ^ 31"
  shows "8 \<le> unat (bloom_bytes (mk_BloomFilterPolicy b) n)"
    "unat (bloom_bytes (mk_BloomFilterPolicy b) n) < 2 ^ 60"
proof -
  have "n * b < 2 ^ 31 * 2 ^ 31" using assms by (intro mult_strict_mono) auto
  then have nb: "n * b < 2 ^ 62" by simp
  let ?bits = "of_nat n * of_nat b :: u64"
  have u: "unat ?bits = n * b"
    using nb by (simp add: unsigned_of_nat take_bit_nat_eq_self del: of_nat_mult flip: of_nat_mult)
  let ?c = "if ?bits < 64 then 64 else ?bits"
  have c: "64 \<le> unat ?c" "unat ?c < 2 ^ 62" using u nb by (auto simp: word_less_nat_alt)
  have "unat (?c + 7) = unat ?c + 7"
    using c by (subst unat_add_lem [THEN iffD1]) auto
  then have "unat ((?c + 7) div 8) = (unat ?c + 7) div 8" by (simp add: unat_div_distrib)
  then have "unat (bloom_bytes (mk_BloomFilterPolicy b) n) = (unat ?c + 7) div 8"
    by (simp add: bloom_bytes_def mk_BloomFilterPolicy_def Let_def)
  with c show "8 \<le> unat (bloom_bytes (mk_BloomFilterPolicy b) n)"
    "unat (bloom_bytes (mk_BloomFilterPolicy b) n) < 2 ^ 60" by auto
qed

text \<open>The filter that \<open>CreateFilter\<close> appends.\<close>

definition bloom_filter_of :: "BloomFilterPolicy \<Rightarrow> Slice list \<Rightarrow> u8 list" where
  "bloom_filter_of self keys = the (CreateFilter self keys [])"

lemma CreateFilter_appends:
  "CreateFilter self keys dst = Some (dst @ bloom_filter_of self keys)"
proof -
  obtain arr where "add_keys (num_probes self) keys (bloom_bytes self (length keys) * 8)
      (replicate (unat (bloom_bytes self (length keys))) 0) = Some arr"
    using add_keys_total by blast
  then show ?thesis by (simp add: bloom_filter_of_def CreateFilter_def Let_def)
qed

lemma bits_of_bytes:
  assumes "unat w < 2 ^ 60"
  shows "(of_nat (unat w) :: u64) * 8 = w * 8" "unat (w * 8) = unat w * 8"
  using assms by (simp_all add: unat_word_ariths)

lemma bloom_no_false_negative:
  assumes "b < 2 ^ 31" "length keys < 2 ^ 31" "key \<in> set keys"
  shows "KeyMayMatch key (bloom_filter_of (mk_BloomFilterPolicy b) keys) = Some True"
proof -
  let ?p = "mk_BloomFilterPolicy b"
  let ?bytes = "bloom_bytes ?p (length keys)"
  note bounds = bloom_bytes_bounds [OF assms(1,2)]
  obtain arr where arr: "add_keys (num_probes ?p) keys (?bytes * 8) (replicate (unat ?bytes) 0) = Some arr"
    "length arr = unat ?bytes"
    using add_keys_total by (metis length_replicate)
  have f: "bloom_filter_of ?p keys = arr @ [of_nat (num_probes ?p)]"
    by (simp add: bloom_filter_of_def CreateFilter_def Let_def arr(1))
  obtain h where h: "BloomHash key = Some h" using BloomHash_total by blast
  have "0 < ?bytes * 8" unfolding word_less_nat_alt bits_of_bytes(2) [OF bounds(2)] using bounds(1) by simp
  then have "in_range (replicate (unat ?bytes) 0) (?bytes * 8)"
    using bounds by (simp add: in_range_def bits_of_bytes)
  then have t: "test_probes (num_probes ?p) h (bloom_delta h) (?bytes * 8) arr"
    using add_keys_hits arr(1) assms(3) h by blast
  have k: "unat (of_nat (num_probes ?p) :: u8) = num_probes ?p"
    using num_probes_bounds [of b] by (simp add: unat_of_nat_u8)
  have low: "bit_at (arr @ [x]) q = bit_at arr q" if "unat (q div 8) < length arr" for x q
    using that by (simp add: bit_at_def nth_append)
  have "test_probes j g d (?bytes * 8) (arr @ [x]) = test_probes j g d (?bytes * 8) arr" for j g d x
    by (induction j arbitrary: g)
       (use low probe_in_range [of arr "?bytes * 8"] \<open>0 < ?bytes * 8\<close> in
         \<open>simp_all add: in_range_def bits_of_bytes(2) [OF bounds(2)] arr(2)\<close>)
  with t f arr(2) bounds k num_probes_bounds [of b] h show ?thesis
    by (simp add: KeyMayMatch_def Let_def nth_append bits_of_bytes)
qed
end
