(* ===== verification/Dbformat.thy ===== *)
theory Dbformat imports Ldb_Coding begin

unbundle bit_operations_syntax

section \<open>leveldb: comparators and internal keys (util/comparator.cc, db/dbformat.h, db/dbformat.cc)\<close>

text \<open>
  A \<open>Comparator\<close> is its table of virtual functions. \<open>None\<close> is an \<open>assert\<close> that fails or a read
  outside a buffer. An internal key is a user key followed by eight bytes that hold a sequence
  number and a value type.
\<close>

subsection \<open>Slices\<close>

text \<open>Only the sign of \<open>memcmp\<close> is used.\<close>

fun memcmp :: "u8 list \<Rightarrow> u8 list \<Rightarrow> nat \<Rightarrow> int" where
  "memcmp (a # as) (b # bs) (Suc n) = (if a < b then - 1 else if b < a then 1 else memcmp as bs n)"
| "memcmp _ _ _ = 0"

lemma memcmp_code [code]:
  "memcmp as bs n =
     (case (as, bs) of
        (a # as', b # bs') \<Rightarrow>
          if n = 0 then 0 else if a < b then - 1 else if b < a then 1 else memcmp as' bs' (n - 1)
      | _ \<Rightarrow> 0)"
  by (cases as; cases bs; cases n) simp_all

definition Slice_compare :: "Slice \<Rightarrow> Slice \<Rightarrow> int" where
  "Slice_compare a b =
     (let min_len = (if length a < length b then length a else length b);
          r = memcmp a b min_len
      in if r = 0 then (if length a < length b then - 1 else if length a > length b then 1 else r)
         else r)"

subsection \<open>Comparators\<close>

record Comparator =
  Compare :: "Slice \<Rightarrow> Slice \<Rightarrow> int option"
  FindShortestSeparator :: "Slice \<Rightarrow> Slice \<Rightarrow> Slice option"
  FindShortSuccessor :: "Slice \<Rightarrow> Slice option"

text \<open>\<open>while (diff_index < min_length && start[diff_index] == limit[diff_index])\<close>\<close>

fun diff_index :: "u8 list \<Rightarrow> u8 list \<Rightarrow> nat" where
  "diff_index (a # as) (b # bs) = (if a = b then Suc (diff_index as bs) else 0)"
| "diff_index _ _ = 0"

definition Bytewise_FindShortestSeparator :: "Slice \<Rightarrow> Slice \<Rightarrow> Slice option" where
  "Bytewise_FindShortestSeparator start limit =
     (let min_length = min (length start) (length limit); i = diff_index start limit in
      if i \<ge> min_length then Some start
      else let diff_byte = start ! i in
        if diff_byte < 0xff \<and> unat diff_byte + 1 < unat (limit ! i)
        then let start' = take (i + 1) (start[i := start ! i + 1]) in
          if Slice_compare start' limit < 0 then Some start' else None
        else Some start)"

fun bump_first :: "u8 list \<Rightarrow> u8 list option" where
  "bump_first [] = None"
| "bump_first (b # bs) = (if b \<noteq> 0xff then Some [b + 1] else map_option (\<lambda>r. b # r) (bump_first bs))"

definition Bytewise_FindShortSuccessor :: "Slice \<Rightarrow> Slice option" where
  "Bytewise_FindShortSuccessor key =
     (case bump_first key of Some r \<Rightarrow> Some r | None \<Rightarrow> Some key)"

definition BytewiseComparator :: Comparator where
  "BytewiseComparator =
     \<lparr>Compare = (\<lambda>a b. Some (Slice_compare a b)),
      FindShortestSeparator = Bytewise_FindShortestSeparator,
      FindShortSuccessor = Bytewise_FindShortSuccessor\<rparr>"

subsection \<open>Internal keys\<close>

datatype ValueType = kTypeDeletion | kTypeValue

definition ValueType_byte :: "ValueType \<Rightarrow> u64" where
  "ValueType_byte t = (case t of kTypeDeletion \<Rightarrow> 0 | kTypeValue \<Rightarrow> 1)"

definition kValueTypeForSeek :: ValueType where
  "kValueTypeForSeek = kTypeValue"

definition kMaxSequenceNumber :: u64 where
  "kMaxSequenceNumber = push_bit 56 1 - 1"

record ParsedInternalKey =
  user_key :: Slice
  seq_number :: u64
  value_type :: ValueType

definition InternalKeyEncodingLength :: "ParsedInternalKey \<Rightarrow> nat" where
  "InternalKeyEncodingLength k = length (user_key k) + 8"

definition PackSequenceAndType :: "u64 \<Rightarrow> ValueType \<Rightarrow> u64 option" where
  "PackSequenceAndType s t =
     (if s \<le> kMaxSequenceNumber \<and> ValueType_byte t \<le> ValueType_byte kValueTypeForSeek
      then Some (push_bit 8 s OR ValueType_byte t) else None)"

definition AppendInternalKey :: "u8 list \<Rightarrow> ParsedInternalKey \<Rightarrow> u8 list option" where
  "AppendInternalKey res k =
     map_option (PutFixed64 (res @ user_key k)) (PackSequenceAndType (seq_number k) (value_type k))"

definition ParseInternalKey :: "Slice \<Rightarrow> ParsedInternalKey option" where
  "ParseInternalKey internal_key =
     (let n = length internal_key in
      if n < 8 then None
      else (case DecodeFixed64 (drop (n - 8) internal_key) of None \<Rightarrow> None
        | Some num \<Rightarrow>
            let c = ucast (num AND 0xff) :: u8 in
            if c \<le> ucast (ValueType_byte kTypeValue)
            then Some \<lparr>user_key = take (n - 8) internal_key, seq_number = drop_bit 8 num,
                       value_type = (if c = 0 then kTypeDeletion else kTypeValue)\<rparr>
            else None))"

definition ExtractUserKey :: "Slice \<Rightarrow> Slice option" where
  "ExtractUserKey internal_key =
     (if length internal_key \<ge> 8 then Some (take (length internal_key - 8) internal_key) else None)"

text \<open>The class \<open>InternalKey\<close> is a wrapper of the string \<open>rep_\<close>; an empty one is invalid.\<close>

definition mk_InternalKey :: "Slice \<Rightarrow> u64 \<Rightarrow> ValueType \<Rightarrow> u8 list option" where
  "mk_InternalKey ukey s t = AppendInternalKey [] \<lparr>user_key = ukey, seq_number = s, value_type = t\<rparr>"

definition InternalKey_Encode :: "u8 list \<Rightarrow> Slice option" where
  "InternalKey_Encode rep = (if rep = [] then None else Some rep)"

subsection \<open>The order of internal keys\<close>

definition InternalKey_Compare :: "Comparator \<Rightarrow> Slice \<Rightarrow> Slice \<Rightarrow> int option" where
  "InternalKey_Compare user_comparator akey bkey = do {
     a \<leftarrow> ExtractUserKey akey;
     b \<leftarrow> ExtractUserKey bkey;
     r \<leftarrow> Compare user_comparator a b;
     if r = 0 then do {
       anum \<leftarrow> DecodeFixed64 (drop (length akey - 8) akey);
       bnum \<leftarrow> DecodeFixed64 (drop (length bkey - 8) bkey);
       Some (if anum > bnum then - 1 else if anum < bnum then 1 else r)
     } else Some r
   }"

definition InternalKey_FindShortestSeparator :: "Comparator \<Rightarrow> Slice \<Rightarrow> Slice \<Rightarrow> Slice option" where
  "InternalKey_FindShortestSeparator user_comparator start limit = do {
     user_start \<leftarrow> ExtractUserKey start;
     user_limit \<leftarrow> ExtractUserKey limit;
     tmp \<leftarrow> FindShortestSeparator user_comparator user_start user_limit;
     r \<leftarrow> (if length tmp < length user_start then Compare user_comparator user_start tmp else Some 0);
     if length tmp < length user_start \<and> r < 0 then do {
       tag \<leftarrow> PackSequenceAndType kMaxSequenceNumber kValueTypeForSeek;
       let tmp = PutFixed64 tmp tag;
       c \<leftarrow> InternalKey_Compare user_comparator start tmp;
       d \<leftarrow> InternalKey_Compare user_comparator tmp limit;
       if c < 0 \<and> d < 0 then Some tmp else None
     } else Some start
   }"

definition InternalKey_FindShortSuccessor :: "Comparator \<Rightarrow> Slice \<Rightarrow> Slice option" where
  "InternalKey_FindShortSuccessor user_comparator key = do {
     ukey \<leftarrow> ExtractUserKey key;
     tmp \<leftarrow> FindShortSuccessor user_comparator ukey;
     r \<leftarrow> (if length tmp < length ukey then Compare user_comparator ukey tmp else Some 0);
     if length tmp < length ukey \<and> r < 0 then do {
       tag \<leftarrow> PackSequenceAndType kMaxSequenceNumber kValueTypeForSeek;
       let tmp = PutFixed64 tmp tag;
       c \<leftarrow> InternalKey_Compare user_comparator key tmp;
       if c < 0 then Some tmp else None
     } else Some key
   }"

definition InternalKeyComparator :: "Comparator \<Rightarrow> Comparator" where
  "InternalKeyComparator c =
     \<lparr>Compare = InternalKey_Compare c,
      FindShortestSeparator = InternalKey_FindShortestSeparator c,
      FindShortSuccessor = InternalKey_FindShortSuccessor c\<rparr>"

subsection \<open>Filter policies\<close>

record FilterPolicy =
  policy_Name :: Slice
  policy_CreateFilter :: "Slice list \<Rightarrow> u8 list \<Rightarrow> u8 list option"
  policy_KeyMayMatch :: "Slice \<Rightarrow> Slice \<Rightarrow> bool option"

definition InternalFilterPolicy :: "FilterPolicy \<Rightarrow> FilterPolicy" where
  "InternalFilterPolicy user_policy =
     \<lparr>policy_Name = policy_Name user_policy,
      policy_CreateFilter = (\<lambda>keys dst. do {
        mkey \<leftarrow> those (map ExtractUserKey keys);
        policy_CreateFilter user_policy mkey dst
      }),
      policy_KeyMayMatch = (\<lambda>key f. do {
        ukey \<leftarrow> ExtractUserKey key;
        policy_KeyMayMatch user_policy ukey f
      })\<rparr>"

subsection \<open>Lookup keys\<close>

text \<open>\<open>start_\<close> to \<open>end_\<close> as one list, \<open>kstart_\<close> as an index into it, and the size of the array the
  constructor writes to: \<open>space_\<close> when the key is short, else a new array of \<open>needed\<close> bytes.\<close>

record LookupKey =
  lk_start :: "u8 list"
  lk_kstart :: nat
  lk_capacity :: nat

definition mk_LookupKey :: "Slice \<Rightarrow> u64 \<Rightarrow> LookupKey option" where
  "mk_LookupKey ukey s =
     (let usize = length ukey; needed = usize + 13; sizeof_space = 200;
          len = EncodeVarint32 (of_nat (usize + 8))
      in map_option
           (\<lambda>tag. \<lparr>lk_start = len @ ukey @ EncodeFixed64 tag, lk_kstart = length len,
                   lk_capacity = (if needed \<le> sizeof_space then sizeof_space else needed)\<rparr>)
           (PackSequenceAndType s kValueTypeForSeek))"

definition memtable_key :: "LookupKey \<Rightarrow> Slice" where
  "memtable_key self = lk_start self"

definition internal_key :: "LookupKey \<Rightarrow> Slice" where
  "internal_key self = drop (lk_kstart self) (lk_start self)"

definition lookup_user_key :: "LookupKey \<Rightarrow> Slice" where
  "lookup_user_key self =
     take (length (lk_start self) - lk_kstart self - 8) (drop (lk_kstart self) (lk_start self))"

end
