(* ===== verification/Dbformat_Facts.thy ===== *)
theory Dbformat_Facts imports Dbformat Ldb_Coding_Facts begin

unbundle bit_operations_syntax

section \<open>leveldb: the contract of comparators, and internal keys\<close>

text \<open>
  The locale \<open>comparator\<close> is the contract of include/leveldb/comparator.h: a total preorder of the
  keys that are allowed, and separators and successors that stay where they must. The bytewise
  comparator meets it, and \<open>InternalKeyComparator\<close> meets it whenever its user comparator does (so
  none of its asserts fails). Then the round trip of internal keys and the views of a lookup key.
\<close>

subsection \<open>The contract of a comparator\<close>

abbreviation cmp :: "Comparator \<Rightarrow> Slice \<Rightarrow> Slice \<Rightarrow> int" where
  "cmp C a b \<equiv> the (Compare C a b)"

locale comparator =
  fixes C :: Comparator and key_ok :: "Slice \<Rightarrow> bool"
  assumes cmp_defined: "key_ok a \<Longrightarrow> key_ok b \<Longrightarrow> Compare C a b \<noteq> None"
    and cmp_sign: "key_ok a \<Longrightarrow> key_ok b \<Longrightarrow> sgn (cmp C b a) = - sgn (cmp C a b)"
    and cmp_trans: "key_ok a \<Longrightarrow> key_ok b \<Longrightarrow> key_ok c \<Longrightarrow> cmp C a b \<le> 0 \<Longrightarrow> cmp C b c \<le> 0 \<Longrightarrow> cmp C a c \<le> 0"
    and separator: "key_ok s \<Longrightarrow> key_ok l \<Longrightarrow> cmp C s l < 0 \<Longrightarrow>
      \<exists>r. FindShortestSeparator C s l = Some r \<and> key_ok r \<and> cmp C s r \<le> 0 \<and> cmp C r l < 0"
    and no_separator: "key_ok s \<Longrightarrow> key_ok l \<Longrightarrow> \<not> cmp C s l < 0 \<Longrightarrow> FindShortestSeparator C s l = Some s"
    and successor: "key_ok k \<Longrightarrow> \<exists>r. FindShortSuccessor C k = Some r \<and> key_ok r \<and> cmp C k r \<le> 0"
begin

lemma cmp_refl: "key_ok a \<Longrightarrow> cmp C a a = 0"
  using cmp_sign [of a a] by (simp add: sgn_if split: if_splits)

lemma cmp_flip:
  assumes "key_ok a" "key_ok b"
  shows "cmp C b a < 0 \<longleftrightarrow> 0 < cmp C a b" "cmp C b a = 0 \<longleftrightarrow> cmp C a b = 0" "cmp C b a \<le> 0 \<longleftrightarrow> 0 \<le> cmp C a b"
  using cmp_sign [OF assms] by (auto simp: sgn_if split: if_splits)

lemma cmp_less_trans:
  assumes "key_ok a" "key_ok b" "key_ok c" "cmp C a b \<le> 0" "cmp C b c < 0"
  shows "cmp C a c < 0"
proof (rule ccontr)
  assume "\<not> cmp C a c < 0"
  then have "cmp C c a \<le> 0" using cmp_flip(3) [of a c] assms by simp
  then have "cmp C c b \<le> 0" using cmp_trans [of c a b] assms by simp
  then show False using cmp_flip(3) [of b c] assms by simp
qed

lemma cmp_less_trans':
  assumes "key_ok a" "key_ok b" "key_ok c" "cmp C a b < 0" "cmp C b c \<le> 0"
  shows "cmp C a c < 0"
proof (rule ccontr)
  assume "\<not> cmp C a c < 0"
  then have "cmp C c a \<le> 0" using cmp_flip(3) [of a c] assms by simp
  then have "cmp C b a \<le> 0" using cmp_trans [of b c a] assms by simp
  then show False using cmp_flip(3) [of a b] assms by simp
qed

end

subsection \<open>Byte strings\<close>

fun bytes_cmp :: "u8 list \<Rightarrow> u8 list \<Rightarrow> int" where
  "bytes_cmp [] [] = 0"
| "bytes_cmp [] (b # bs) = - 1"
| "bytes_cmp (a # as) [] = 1"
| "bytes_cmp (a # as) (b # bs) = (if a < b then - 1 else if b < a then 1 else bytes_cmp as bs)"

lemma Slice_compare_bytes: "Slice_compare a b = bytes_cmp a b"
proof (induction a b rule: bytes_cmp.induct)
  case (4 a as b bs)
  then show ?case by (auto simp: Slice_compare_def Let_def)
qed (simp_all add: Slice_compare_def)

lemma bytes_cmp_eq: "bytes_cmp a b = 0 \<longleftrightarrow> a = b"
  by (induction a b rule: bytes_cmp.induct) auto

lemma bytes_cmp_flip: "bytes_cmp b a = - bytes_cmp a b"
  by (induction a b rule: bytes_cmp.induct) auto

lemma bytes_cmp_less: "bytes_cmp a b < 0 \<longleftrightarrow> ord_class.lexordp a b"
  by (induction a b rule: bytes_cmp.induct) auto

lemma bytes_cmp_trans: "bytes_cmp a b \<le> 0 \<Longrightarrow> bytes_cmp b c \<le> 0 \<Longrightarrow> bytes_cmp a c \<le> 0"
proof (induction a b arbitrary: c rule: bytes_cmp.induct)
  case (2 b bs)
  then show ?case by (cases c) auto
next
  case (4 a as b bs)
  then show ?case by (cases c) (auto split: if_splits)
next
  case 1
  then show ?case by (cases c) auto
qed simp

lemma diff_index_bound: "diff_index a b \<le> length a" "diff_index a b \<le> length b"
  by (induction a b rule: diff_index.induct) auto

lemma bump_u8:
  assumes "(a :: u8) < 0xff" shows "unat (a + 1) = unat a + 1" "a < a + 1"
proof -
  have "unat a < 255" using assms by (simp add: word_less_nat_alt)
  then show u: "unat (a + 1) = unat a + 1" by (simp add: unat_add_lem [THEN iffD1])
  then show "a < a + 1" by (simp add: word_less_nat_alt)
qed

lemma separator_bytes:
  "diff_index s l < min (length s) (length l) \<Longrightarrow> s ! diff_index s l < 0xff \<Longrightarrow>
   unat (s ! diff_index s l) + 1 < unat (l ! diff_index s l) \<Longrightarrow>
   (let r = take (diff_index s l + 1) (s[diff_index s l := s ! diff_index s l + 1]) in
     bytes_cmp s r < 0 \<and> bytes_cmp r l < 0)"
proof (induction s l rule: diff_index.induct)
  case (1 a as b bs)
  show ?case
  proof (cases "a = b")
    case True
    with 1 show ?thesis by (simp add: Let_def)
  next
    case False
    with 1 bump_u8 [of a] show ?thesis by (auto simp: Let_def word_less_nat_alt)
  qed
qed simp_all

lemma no_separator_bytes:
  "diff_index s l < min (length s) (length l) \<Longrightarrow> s ! diff_index s l < l ! diff_index s l \<longleftrightarrow> bytes_cmp s l < 0"
  by (induction s l rule: diff_index.induct) auto

lemma bytewise_separator:
  "\<exists>r. Bytewise_FindShortestSeparator s l = Some r \<and> bytes_cmp s r \<le> 0 \<and> length r \<le> length s \<and>
     (if bytes_cmp s l < 0 then bytes_cmp r l < 0 else r = s)"
proof -
  let ?i = "diff_index s l"
  show ?thesis
  proof (cases "?i < min (length s) (length l) \<and> s ! ?i < 0xff \<and> unat (s ! ?i) + 1 < unat (l ! ?i)")
    case True
    then have "bytes_cmp s l < 0"
      using no_separator_bytes [of s l] by (simp add: word_less_nat_alt)
    with True separator_bytes [of s l] show ?thesis
      by (auto simp: Bytewise_FindShortestSeparator_def Slice_compare_bytes Let_def)
  next
    case False
    then have "Bytewise_FindShortestSeparator s l = Some s"
      by (auto simp: Bytewise_FindShortestSeparator_def Let_def)
    moreover have "bytes_cmp s s = 0" by (simp add: bytes_cmp_eq)
    ultimately show ?thesis by simp
  qed
qed

lemma bump_first_less: "bump_first k = Some r \<Longrightarrow> bytes_cmp k r < 0"
proof (induction k arbitrary: r)
  case (Cons b bs)
  have "b < 0xff" if "b \<noteq> 0xff"
    using that unat_u8_less [of b] by (simp add: word_less_nat_alt word_unat_eq_iff del: unat_u8_less)
  with Cons bump_u8 [of b] show ?case by (auto split: if_splits)
qed simp

lemma bytewise_successor:
  "\<exists>r. Bytewise_FindShortSuccessor k = Some r \<and> bytes_cmp k r \<le> 0"
  using bump_first_less [of k] bytes_cmp_eq [of k k]
  by (cases "bump_first k") (auto simp: Bytewise_FindShortSuccessor_def)

interpretation bytewise: comparator BytewiseComparator "\<lambda>_. True"
proof unfold_locales
  fix a b c s l k :: "u8 list"
  show "Compare BytewiseComparator a b \<noteq> None" by (simp add: BytewiseComparator_def)
  show "sgn (cmp BytewiseComparator b a) = - sgn (cmp BytewiseComparator a b)"
    by (simp add: BytewiseComparator_def Slice_compare_bytes bytes_cmp_flip [of b a])
  show "cmp BytewiseComparator a b \<le> 0 \<Longrightarrow> cmp BytewiseComparator b c \<le> 0 \<Longrightarrow> cmp BytewiseComparator a c \<le> 0"
    using bytes_cmp_trans by (simp add: BytewiseComparator_def Slice_compare_bytes)
  show "cmp BytewiseComparator s l < 0 \<Longrightarrow> \<exists>r. FindShortestSeparator BytewiseComparator s l = Some r \<and> True \<and>
      cmp BytewiseComparator s r \<le> 0 \<and> cmp BytewiseComparator r l < 0"
    using bytewise_separator [of s l] by (auto simp: BytewiseComparator_def Slice_compare_bytes)
  show "\<not> cmp BytewiseComparator s l < 0 \<Longrightarrow> FindShortestSeparator BytewiseComparator s l = Some s"
    using bytewise_separator [of s l] by (auto simp: BytewiseComparator_def Slice_compare_bytes)
  show "\<exists>r. FindShortSuccessor BytewiseComparator k = Some r \<and> True \<and> cmp BytewiseComparator k r \<le> 0"
    using bytewise_successor [of k] by (simp add: BytewiseComparator_def Slice_compare_bytes)
qed

subsection \<open>Internal keys\<close>

definition ikey_user :: "Slice \<Rightarrow> Slice" where
  "ikey_user k = take (length k - 8) k"

definition ikey_tag :: "Slice \<Rightarrow> u64" where
  "ikey_tag k = of_nat (of_le (drop (length k - 8) k))"

definition ikey_ok :: "(Slice \<Rightarrow> bool) \<Rightarrow> Slice \<Rightarrow> bool" where
  "ikey_ok ok k \<longleftrightarrow> 8 \<le> length k \<and> ok (ikey_user k)"

lemma ikey_parts: "8 \<le> length k \<Longrightarrow> DecodeFixed64 (drop (length k - 8) k) = Some (ikey_tag k)"
  "8 \<le> length k \<Longrightarrow> ExtractUserKey k = Some (ikey_user k)"
  by (simp_all add: DecodeFixed64_def decode_fixed64_endian_free ikey_tag_def ExtractUserKey_def ikey_user_def)

lemma ikey_put [simp]:
  "ikey_user (PutFixed64 u tag) = u" "ikey_tag (PutFixed64 u tag) = tag" "8 \<le> length (PutFixed64 u tag)"
  using unat_u64_less [of tag]
  by (simp_all add: ikey_user_def ikey_tag_def PutFixed64_def EncodeFixed64_le del: unat_u64_less)

text \<open>The order: user keys first, then larger tags before smaller ones.\<close>

definition ikey_cmp :: "Comparator \<Rightarrow> Slice \<Rightarrow> Slice \<Rightarrow> int" where
  "ikey_cmp C a b =
     (let r = cmp C (ikey_user a) (ikey_user b) in
      if r \<noteq> 0 then r else if ikey_tag a > ikey_tag b then - 1 else if ikey_tag a < ikey_tag b then 1 else 0)"

definition max_tag :: u64 where
  "max_tag = push_bit 8 kMaxSequenceNumber OR 1"

lemma pack_max: "PackSequenceAndType kMaxSequenceNumber kValueTypeForSeek = Some max_tag"
  by (simp add: PackSequenceAndType_def kValueTypeForSeek_def ValueType_byte_def max_tag_def)

context comparator
begin

lemma InternalKey_Compare_ok:
  assumes "ikey_ok key_ok a" "ikey_ok key_ok b"
  shows "InternalKey_Compare C a b = Some (ikey_cmp C a b)"
proof -
  obtain r where "Compare C (ikey_user a) (ikey_user b) = Some r"
    using cmp_defined assms by (auto simp: ikey_ok_def)
  with assms show ?thesis
    by (simp add: InternalKey_Compare_def ikey_parts ikey_ok_def ikey_cmp_def)
qed

lemma ikey_cmp_sign:
  assumes "ikey_ok key_ok a" "ikey_ok key_ok b"
  shows "sgn (ikey_cmp C b a) = - sgn (ikey_cmp C a b)"
  using cmp_sign [of "ikey_user a" "ikey_user b"] cmp_flip(2) [of "ikey_user a" "ikey_user b"] assms
  by (auto simp: ikey_cmp_def Let_def ikey_ok_def)

lemma ikey_cmp_le:
  "ikey_cmp C a b \<le> 0 \<longleftrightarrow> cmp C (ikey_user a) (ikey_user b) < 0 \<or>
     cmp C (ikey_user a) (ikey_user b) = 0 \<and> ikey_tag b \<le> ikey_tag a"
  by (auto simp: ikey_cmp_def Let_def)

lemma ikey_cmp_less:
  "ikey_cmp C a b < 0 \<longleftrightarrow> cmp C (ikey_user a) (ikey_user b) < 0 \<or>
     cmp C (ikey_user a) (ikey_user b) = 0 \<and> ikey_tag b < ikey_tag a"
  by (auto simp: ikey_cmp_def Let_def)

lemma ikey_cmp_trans:
  assumes ok: "ikey_ok key_ok a" "ikey_ok key_ok b" "ikey_ok key_ok c"
    and "ikey_cmp C a b \<le> 0" "ikey_cmp C b c \<le> 0"
  shows "ikey_cmp C a c \<le> 0"
proof -
  let ?u = ikey_user
  have k: "key_ok (?u a)" "key_ok (?u b)" "key_ok (?u c)" using ok by (auto simp: ikey_ok_def)
  have ab: "cmp C (?u a) (?u b) \<le> 0" and bc: "cmp C (?u b) (?u c) \<le> 0"
    using assms(4,5) by (auto simp: ikey_cmp_le)
  have ac: "cmp C (?u a) (?u c) \<le> 0" by (rule cmp_trans [OF k ab bc])
  show ?thesis
  proof (cases "cmp C (?u a) (?u c) < 0")
    case False
    then have "\<not> cmp C (?u a) (?u b) < 0" "\<not> cmp C (?u b) (?u c) < 0"
      using cmp_less_trans [OF k ab] cmp_less_trans' [OF k _ bc] by auto
    with assms(4,5) ac False show ?thesis by (auto simp: ikey_cmp_le)
  qed (simp add: ikey_cmp_le)
qed

lemma internal_separator:
  assumes ok: "ikey_ok key_ok s" "ikey_ok key_ok l" and "ikey_cmp C s l < 0"
  shows "\<exists>r. InternalKey_FindShortestSeparator C s l = Some r \<and> ikey_ok key_ok r \<and>
    ikey_cmp C s r \<le> 0 \<and> ikey_cmp C r l < 0 \<and> length r \<le> length s"
proof -
  let ?s = "ikey_user s" and ?l = "ikey_user l"
  have k: "key_ok ?s" "key_ok ?l" "8 \<le> length s" "8 \<le> length l" using ok by (auto simp: ikey_ok_def)
  have refl: "ikey_cmp C s s \<le> 0" using cmp_refl k by (simp add: ikey_cmp_le)
  obtain t where t: "FindShortestSeparator C ?s ?l = Some t"
    "if cmp C ?s ?l < 0 then key_ok t \<and> cmp C t ?l < 0 else t = ?s"
    using separator [OF k(1,2)] no_separator [OF k(1,2)] by (cases "cmp C ?s ?l < 0") auto
  then have tk: "key_ok t" using k by (auto split: if_splits)
  obtain r where r: "Compare C ?s t = Some r" using cmp_defined k tk by blast
  show ?thesis
  proof (cases "length t < length ?s \<and> r < 0")
    case False
    then have "InternalKey_FindShortestSeparator C s l = Some s"
      using t k r by (auto simp: InternalKey_FindShortestSeparator_def ikey_parts)
    with assms refl show ?thesis by auto
  next
    case True
    let ?r = "PutFixed64 t max_tag"
    have rok: "ikey_ok key_ok ?r" using tk by (simp add: ikey_ok_def)
    have "t \<noteq> ?s" using True by auto
    with t have tl: "cmp C t ?l < 0" by (auto split: if_splits)
    have 1: "ikey_cmp C s ?r < 0" using True r by (simp add: ikey_cmp_less)
    have 2: "ikey_cmp C ?r l < 0" using tl by (simp add: ikey_cmp_less)
    have "InternalKey_FindShortestSeparator C s l = Some ?r"
      using True t k r 1 2 ok rok
      by (simp add: InternalKey_FindShortestSeparator_def ikey_parts pack_max InternalKey_Compare_ok)
    moreover have "length ?r \<le> length s"
    proof -
      have "length t < length s - 8" using True by (auto simp: ikey_user_def)
      then show ?thesis by (simp add: PutFixed64_def EncodeFixed64_le)
    qed
    ultimately show ?thesis using rok 1 2 by auto
  qed
qed

lemma internal_no_separator:
  assumes ok: "ikey_ok key_ok s" "ikey_ok key_ok l" and "\<not> ikey_cmp C s l < 0"
  shows "InternalKey_FindShortestSeparator C s l = Some s"
proof -
  have k: "key_ok (ikey_user s)" "key_ok (ikey_user l)" "8 \<le> length s" "8 \<le> length l"
    using ok by (auto simp: ikey_ok_def)
  have "\<not> cmp C (ikey_user s) (ikey_user l) < 0" using assms(3) by (simp add: ikey_cmp_less)
  with k show ?thesis
    by (simp add: InternalKey_FindShortestSeparator_def ikey_parts no_separator)
qed

lemma internal_successor:
  assumes ok: "ikey_ok key_ok k"
  shows "\<exists>r. InternalKey_FindShortSuccessor C k = Some r \<and> ikey_ok key_ok r \<and> ikey_cmp C k r \<le> 0"
proof -
  let ?u = "ikey_user k"
  have u: "key_ok ?u" "8 \<le> length k" using ok by (auto simp: ikey_ok_def)
  have refl: "ikey_cmp C k k \<le> 0" using cmp_refl u by (simp add: ikey_cmp_le)
  obtain t where t: "FindShortSuccessor C ?u = Some t" "key_ok t" using successor [OF u(1)] by blast
  obtain r where r: "Compare C ?u t = Some r" using cmp_defined u t by blast
  show ?thesis
  proof (cases "length t < length ?u \<and> r < 0")
    case False
    then have "InternalKey_FindShortSuccessor C k = Some k"
      using t u r by (auto simp: InternalKey_FindShortSuccessor_def ikey_parts)
    with ok refl show ?thesis by auto
  next
    case True
    let ?r = "PutFixed64 t max_tag"
    have rok: "ikey_ok key_ok ?r" using t by (simp add: ikey_ok_def)
    have 1: "ikey_cmp C k ?r < 0" using True r by (simp add: ikey_cmp_less)
    then have "InternalKey_FindShortSuccessor C k = Some ?r"
      using True t u r ok rok
      by (simp add: InternalKey_FindShortSuccessor_def ikey_parts pack_max InternalKey_Compare_ok)
    with 1 rok show ?thesis by auto
  qed
qed

lemma InternalKeyComparator_cmp:
  "ikey_ok key_ok a \<Longrightarrow> ikey_ok key_ok b \<Longrightarrow> cmp (InternalKeyComparator C) a b = ikey_cmp C a b"
  by (simp add: InternalKeyComparator_def InternalKey_Compare_ok)

lemma internal_comparator: "comparator (InternalKeyComparator C) (ikey_ok key_ok)"
proof
  fix a b c assume a: "ikey_ok key_ok a" and b: "ikey_ok key_ok b"
  show "Compare (InternalKeyComparator C) a b \<noteq> None"
    using a b by (simp add: InternalKeyComparator_def InternalKey_Compare_ok)
  show "sgn (cmp (InternalKeyComparator C) b a) = - sgn (cmp (InternalKeyComparator C) a b)"
    using ikey_cmp_sign [OF a b] a b by (simp add: InternalKeyComparator_cmp)
  show "cmp (InternalKeyComparator C) a b \<le> 0 \<Longrightarrow> cmp (InternalKeyComparator C) b c \<le> 0 \<Longrightarrow>
      cmp (InternalKeyComparator C) a c \<le> 0" if "ikey_ok key_ok c"
    using ikey_cmp_trans [OF a b that] a b that by (simp add: InternalKeyComparator_cmp)
  show "\<exists>r. FindShortestSeparator (InternalKeyComparator C) a b = Some r \<and> ikey_ok key_ok r \<and>
      cmp (InternalKeyComparator C) a r \<le> 0 \<and> cmp (InternalKeyComparator C) r b < 0"
    if ab: "cmp (InternalKeyComparator C) a b < 0"
  proof -
    obtain r where "InternalKey_FindShortestSeparator C a b = Some r" "ikey_ok key_ok r"
      "ikey_cmp C a r \<le> 0" "ikey_cmp C r b < 0"
      using internal_separator [OF a b] ab a b by (auto simp: InternalKeyComparator_cmp)
    with a b show ?thesis
      by (auto simp: InternalKeyComparator_cmp InternalKeyComparator_def [of C] InternalKey_Compare_ok)
  qed
  show "FindShortestSeparator (InternalKeyComparator C) a b = Some a"
    if "\<not> cmp (InternalKeyComparator C) a b < 0"
    using internal_no_separator [OF a b] that a b
    by (simp add: InternalKeyComparator_def InternalKey_Compare_ok)
next
  fix k assume k: "ikey_ok key_ok k"
  then obtain r where "InternalKey_FindShortSuccessor C k = Some r" "ikey_ok key_ok r" "ikey_cmp C k r \<le> 0"
    using internal_successor by blast
  with k show "\<exists>r. FindShortSuccessor (InternalKeyComparator C) k = Some r \<and> ikey_ok key_ok r \<and>
      cmp (InternalKeyComparator C) k r \<le> 0"
    by (auto simp: InternalKeyComparator_def InternalKey_Compare_ok)
qed

end

interpretation internal: comparator "InternalKeyComparator BytewiseComparator" "ikey_ok (\<lambda>_. True)"
  by (rule bytewise.internal_comparator)

subsection \<open>Round trips\<close>

lemma pack_bits:
  assumes "PackSequenceAndType s t = Some n"
  shows "drop_bit 8 n = s" "(ucast (n AND 0xff) :: u8) = ucast (ValueType_byte t)"
proof -
  have n: "n = push_bit 8 s OR ValueType_byte t" and s: "s \<le> kMaxSequenceNumber"
    using assms by (auto simp: PackSequenceAndType_def split: if_splits)
  have "unat kMaxSequenceNumber = 2 ^ 56 - 1" by (simp add: kMaxSequenceNumber_def)
  moreover have "unat s \<le> unat kMaxSequenceNumber" using s by (simp only: word_le_nat_alt)
  ultimately have "unat s < 2 ^ 56" by (simp only:) simp
  then have st: "take_bit 56 (unat s) = unat s" by (simp add: take_bit_nat_eq_self)
  have small: "\<not> bit (ValueType_byte t) i" if "8 \<le> i" for i
    using that by (cases t) (auto simp: ValueType_byte_def bit_1_iff)
  have bs: "\<not> bit s i" if "56 \<le> i" for i
  proof -
    have "\<not> bit (unat s) i" using that st by (metis bit_take_bit_iff not_less)
    then show ?thesis by (auto simp: bit_unsigned_iff dest: bit_imp_le_length)
  qed
  show "drop_bit 8 n = s"
    unfolding n by (rule bit_word_eqI) (use small bs in \<open>auto simp: bit_simps not_less [symmetric]\<close>)
  show "(ucast (n AND 0xff) :: u8) = ucast (ValueType_byte t)"
  proof -
    have ff: "(0xff :: u64) = mask 8" by (simp add: mask_eq_exp_minus_1)
    show ?thesis
      unfolding n ff using small by (intro bit_word_eqI) (auto simp: bit_simps)
  qed
qed

lemma ParseInternalKey_Append:
  assumes "AppendInternalKey [] k = Some rep"
  shows "ParseInternalKey rep = Some k" "length rep = InternalKeyEncodingLength k"
proof -
  obtain n where n: "PackSequenceAndType (seq_number k) (value_type k) = Some n" "rep = PutFixed64 (user_key k) n"
    using assms by (auto simp: AppendInternalKey_def)
  have l: "8 \<le> length rep" by (simp add: n(2))
  have u: "take (length rep - 8) rep = user_key k" using n(2) ikey_put(1) [of "user_key k" n] by (simp add: ikey_user_def)
  have t: "DecodeFixed64 (drop (length rep - 8) rep) = Some n" using ikey_parts(1) [OF l] n(2) by simp
  have v: "(ucast (ValueType_byte (value_type k)) :: u8) = (case value_type k of kTypeDeletion \<Rightarrow> 0 | kTypeValue \<Rightarrow> 1)"
    by (cases "value_type k") (simp_all add: ValueType_byte_def)
  show "ParseInternalKey rep = Some k"
    using l u t pack_bits [OF n(1)] v
    by (cases "value_type k") (simp_all add: ParseInternalKey_def Let_def ValueType_byte_def)
  show "length rep = InternalKeyEncodingLength k"
    by (simp add: n(2) InternalKeyEncodingLength_def PutFixed64_def EncodeFixed64_le)
qed

text \<open>A lookup key: the three views of one buffer.\<close>

lemma mk_LookupKey_parts:
  assumes "mk_LookupKey u s = Some lk" "length u + 8 < 2 ^ 32"
  shows "\<exists>tag. PackSequenceAndType s kValueTypeForSeek = Some tag \<and> internal_key lk = PutFixed64 u tag"
    and "lookup_user_key lk = u"
    and "memtable_key lk = PutLengthPrefixedSlice [] (internal_key lk)"
    and "length (lk_start lk) \<le> lk_capacity lk"
proof -
  let ?len = "EncodeVarint32 (of_nat (length u + 8))"
  obtain tag where tag: "PackSequenceAndType s kValueTypeForSeek = Some tag"
    and lk: "lk_start lk = ?len @ u @ EncodeFixed64 tag" "lk_kstart lk = length ?len"
    "lk_capacity lk = (if length u + 13 \<le> 200 then 200 else length u + 13)"
    using assms(1) by (auto simp: mk_LookupKey_def Let_def)
  have ik: "internal_key lk = PutFixed64 u tag"
    by (simp add: internal_key_def lk PutFixed64_def)
  with tag show "\<exists>tag. PackSequenceAndType s kValueTypeForSeek = Some tag \<and> internal_key lk = PutFixed64 u tag"
    by blast
  show "lookup_user_key lk = u" by (simp add: lookup_user_key_def lk EncodeFixed64_le)
  have "length (internal_key lk) = length u + 8" by (simp add: ik PutFixed64_def EncodeFixed64_le)
  then show "memtable_key lk = PutLengthPrefixedSlice [] (internal_key lk)"
    using ik by (simp add: memtable_key_def lk PutLengthPrefixedSlice_def PutVarint32_def PutFixed64_def)
  have "length ?len \<le> 5"
    unfolding EncodeVarint32_bytes by (rule length_varint_bytes_u32)
  then show "length (lk_start lk) \<le> lk_capacity lk" by (simp add: lk EncodeFixed64_le)
qed

section \<open>leveldb: comparators whose separators are not longer than the keys\<close>

text \<open>
  A table stores separators in its index; the locale adds to the contract of a comparator that they take no more room
  than the keys they stand for. Both comparators of the source meet it.
\<close>

locale short_comparator = comparator C key_ok for C :: Comparator and key_ok :: "Slice \<Rightarrow> bool" +
  assumes separator_short: "key_ok s \<Longrightarrow> key_ok l \<Longrightarrow> FindShortestSeparator C s l = Some r \<Longrightarrow> length r \<le> length s"
    and successor_short: "key_ok k \<Longrightarrow> FindShortSuccessor C k = Some r \<Longrightarrow> length r \<le> length k"
begin

lemma short_separator:
  assumes "key_ok s" "key_ok l" "cmp C s l < 0"
  obtains r where "FindShortestSeparator C s l = Some r" "key_ok r" "cmp C s r \<le> 0" "cmp C r l < 0" "length r \<le> length s"
  using separator [OF assms] separator_short [OF assms(1,2)] by blast

lemma short_successor:
  assumes "key_ok k"
  obtains r where "FindShortSuccessor C k = Some r" "key_ok r" "cmp C k r \<le> 0" "length r \<le> length k"
  using successor [OF assms] successor_short [OF assms] by blast

end

lemma bump_first_short: "bump_first k = Some r \<Longrightarrow> length r \<le> length k"
  by (induction k arbitrary: r) (auto split: if_splits)

interpretation short_bytewise: short_comparator BytewiseComparator "\<lambda>_. True"
proof unfold_locales
  fix s l k r :: Slice
  show "FindShortestSeparator BytewiseComparator s l = Some r \<Longrightarrow> length r \<le> length s"
    using bytewise_separator [of s l] by (auto simp: BytewiseComparator_def)
  show "FindShortSuccessor BytewiseComparator k = Some r \<Longrightarrow> length r \<le> length k"
    using bump_first_short [of k] by (auto simp: BytewiseComparator_def Bytewise_FindShortSuccessor_def split: option.splits)
qed

lemma length_PutFixed64 [simp]: "length (PutFixed64 u tag) = length u + 8"
  by (simp add: PutFixed64_def EncodeFixed64_le)

lemma InternalKey_separator_short: "InternalKey_FindShortestSeparator C s l = Some r \<Longrightarrow> length r \<le> length s"
  by (auto simp: InternalKey_FindShortestSeparator_def ExtractUserKey_def Let_def bind_eq_Some_conv split: if_splits)

lemma InternalKey_successor_short: "InternalKey_FindShortSuccessor C k = Some r \<Longrightarrow> length r \<le> length k"
  by (auto simp: InternalKey_FindShortSuccessor_def ExtractUserKey_def Let_def bind_eq_Some_conv split: if_splits)

lemma short_internal_comparator:
  assumes "comparator C key_ok"
  shows "short_comparator (InternalKeyComparator C) (ikey_ok key_ok)"
proof (rule short_comparator.intro [OF comparator.internal_comparator [OF assms]], rule short_comparator_axioms.intro)
  show "length r \<le> length s" if "FindShortestSeparator (InternalKeyComparator C) s l = Some r" for s l r
    using that InternalKey_separator_short by (simp add: InternalKeyComparator_def)
  show "length r \<le> length k" if "FindShortSuccessor (InternalKeyComparator C) k = Some r" for k r
    using that InternalKey_successor_short by (simp add: InternalKeyComparator_def)
qed

interpretation short_internal: short_comparator "InternalKeyComparator BytewiseComparator" "ikey_ok (\<lambda>_. True)"
  by (rule short_internal_comparator) (rule bytewise.comparator_axioms)

end
