(* ===== verification/Leveldb_Theorems.thy ===== *)
theory Leveldb_Theorems imports Crc32c_Facts Bloom_Facts Dbformat_Facts Wire_Format begin

unbundle bit_operations_syntax

section \<open>leveldb: properties of the encodings, checksums, filters and keys\<close>

text \<open>Consequences of the component theories, each with a witness where it has hypotheses.\<close>

subsection \<open>Checksums\<close>

text \<open>C13: \<open>Extend\<close>, with its alignment loop, swaths, rotating strides and five tables, computes
  CRC-32C bit for bit on a buffer at any address that does not end in the last three bytes of the
  address space; no access leaves the buffer.\<close>

theorem extend_is_crc32c:
  assumes "unat addr + length data + 3 < 2 ^ 64"
  shows "Extend addr crc data = Some (crc32c crc data)"
  by (rule Extend_crc [OF assms])

lemma test_vector: "crc32c 0 kTestCRCBuffer = 0xdcbc59fa"
proof -
  have t: "kTestCRCBuffer = [0x54, 0x65, 0x73, 0x74, 0x43, 0x52, 0x43, 0x42, 0x75, 0x66, 0x66, 0x65, 0x72]"
    by (simp add: kTestCRCBuffer_def)
  have n: "NOT 0 = (0xffffffff :: u32)" by simp
  have "foldl STEP1 0xffffffff kTestCRCBuffer = 0x2343a605"
    unfolding t by (simp add: STEP1_def Let_def kByteExtensionTable_def)
  then show ?thesis unfolding crc32c_def STEP1_crc_bytes [symmetric] n by simp
qed

theorem extend_is_crc32c_witness: "Extend 0x1003 0 kTestCRCBuffer = Some 0xdcbc59fa"
  using extend_is_crc32c [of "0x1003" kTestCRCBuffer 0] test_vector
  by (simp add: kTestCRCBuffer_def)

text \<open>Checksums can be computed piecewise: extending the checksum of \<open>xs\<close> over \<open>ys\<close> gives the
  checksum of the concatenation, wherever the pieces are in memory.\<close>

theorem extend_piecewise:
  assumes "unat a + length xs + 3 < 2 ^ 64" "unat b + length ys + 3 < 2 ^ 64"
    "unat c + (length xs + length ys) + 3 < 2 ^ 64"
  shows "Option.bind (Extend a crc xs) (\<lambda>crc'. Extend b crc' ys) = Extend c crc (xs @ ys)"
  using assms by (simp add: Extend_crc crc32c_append)

theorem extend_piecewise_witness:
  "Option.bind (Extend 1 7 [1, 2, 3]) (\<lambda>crc'. Extend 64 crc' [4, 5]) = Extend 2 7 [1, 2, 3, 4, 5]"
  using extend_piecewise [of 1 "[1, 2, 3]" 64 "[4, 5]" 2 7] by simp

text \<open>C35: Changing one byte of a buffer changes its checksum, so a masked checksum stored with
  the data detects it; \<open>Mask\<close> and \<open>Unmask\<close> are inverse to each other.\<close>

theorem corrupted_byte_detected:
  assumes "x \<noteq> y" "unat a + length (xs @ x # zs) + 3 < 2 ^ 64" "unat b + length (xs @ y # zs) + 3 < 2 ^ 64"
  shows "map_option Mask (Value a (xs @ x # zs)) \<noteq> map_option Mask (Value b (xs @ y # zs)) \<and>
    Unmask (Mask crc) = crc \<and> Mask (Unmask crc) = crc"
proof -
  have "inj Mask" using Unmask_Mask by (metis injI)
  with assms crc32c_one_byte [OF assms(1)] show ?thesis
    by (simp add: Value_def Extend_crc inj_eq Unmask_Mask Mask_Unmask)
qed

theorem corrupted_byte_detected_witness:
  "map_option Mask (Value 16 [1, 2, 3]) \<noteq> map_option Mask (Value 16 [1, 0, 3])"
  using corrupted_byte_detected [of 2 0 16 "[1]" "[3]" 16] by simp

subsection \<open>Varints\<close>

text \<open>leveldb's varint writers and nanopb's write the same bytes: \<open>EncodeVarint64\<close> gives the
  bytes \<open>pb_encode_varint\<close> writes, \<open>EncodeVarint32\<close>, whose cases are written out, agrees with it
  on 32-bit values, and \<open>VarintLength\<close> is the number of bytes, at most ten.\<close>

theorem varint_writers_agree:
  "writes (\<lambda>s. pb_encode_varint s v) (EncodeVarint64 v) \<and> EncodeVarint32 w = EncodeVarint64 (ucast w) \<and>
   VarintLength v = length (EncodeVarint64 v) \<and> length (EncodeVarint64 v) \<le> 10 \<and>
   length (EncodeVarint32 w) \<le> 5"
proof -
  have "unat (ucast w :: u64) = unat w"
    using less_trans [OF unat_u32_less [of w]]
    by (simp add: unsigned_ucast_eq take_bit_nat_eq_self_iff del: unat_u32_less)
  then show ?thesis
    using writes_varint [of v]
    by (simp add: EncodeVarint64_bytes EncodeVarint32_bytes VarintLength_bytes length_varint_bytes_u64
        length_varint_bytes_u32)
qed

text \<open>C36: What \<open>GetVarint32\<close> and \<open>GetVarint64\<close> do on every input: they take the bytes up to the
  first one without the continuation bit and return the base-128 value modulo the width, or fail,
  leaving the input as it was, when there is no such byte in the input or in its first five (ten)
  bytes.\<close>

theorem get_varint_exact:
  "GetVarint32 input = (let c = continuation input in
      if 5 \<le> c \<or> length input \<le> c then (None, input)
      else (Some (of_nat (varint_value (take (c + 1) input))), drop (c + 1) input)) \<and>
   GetVarint64 input = (let c = continuation input in
      if 10 \<le> c \<or> length input \<le> c then (None, input)
      else (Some (of_nat (varint_value (take (c + 1) input))), drop (c + 1) input))"
  by (simp add: GetVarint32_def GetVarint64_def GetVarint32Ptr_front GetVarint64Ptr_front
      varint_front_def Let_def)

text \<open>C37: A length-prefixed slice of less than 4 GB, wherever it is appended, is read back, and the
  input is left just after it.\<close>

theorem length_prefixed_roundtrip:
  assumes "length bs < 2 ^ 32"
  shows "GetLengthPrefixedSlice (drop (length dst) (PutLengthPrefixedSlice dst bs) @ rest) = (Some bs, rest)"
  by (rule prefixed.get_put_appended [OF assms])

theorem length_prefixed_roundtrip_witness:
  "GetLengthPrefixedSlice (drop (length [9]) (PutLengthPrefixedSlice [9] [1, 2]) @ [7]) = (Some [1, 2], [7])"
  using length_prefixed_roundtrip [of "[1, 2]" "[9]" "[7]"] by simp

subsection \<open>Bloom filters\<close>

text \<open>C15: A Bloom filter has no false negatives: a filter that \<open>CreateFilter\<close> appends, for any
  number of bits per key, is matched by every one of its keys, and \<open>CreateFilter\<close> keeps what was
  in the destination.\<close>

theorem bloom_matches_its_keys:
  assumes "bits_per_key_arg < 2 ^ 31" "length keys < 2 ^ 31" "key \<in> set keys"
  shows "\<exists>f. CreateFilter (mk_BloomFilterPolicy bits_per_key_arg) keys dst = Some (dst @ f) \<and>
    KeyMayMatch key f = Some True"
  using CreateFilter_appends bloom_no_false_negative [OF assms] by blast

theorem bloom_matches_its_keys_witness:
  "\<exists>f. CreateFilter (mk_BloomFilterPolicy 10) [[1], [2, 3]] [7] = Some ([7] @ f) \<and>
    KeyMayMatch [2, 3] f = Some True"
  by (rule bloom_matches_its_keys) simp_all

subsection \<open>Internal keys\<close>

text \<open>C12: Whenever the user's comparator meets the contract of a comparator, the internal key
  comparator built on it meets it too: a total preorder, separators that stay in the interval
  and successors that are not smaller; none of its asserts fails.\<close>

theorem internal_key_comparator_contract:
  assumes "comparator C key_ok"
  shows "comparator (InternalKeyComparator C) (ikey_ok key_ok)"
  using assms by (rule comparator.internal_comparator)

theorem internal_key_comparator_contract_witness:
  "comparator (InternalKeyComparator BytewiseComparator) (ikey_ok (\<lambda>_. True))"
  by (rule internal_key_comparator_contract) (rule bytewise.comparator_axioms)

lemma unat_pack:
  assumes "PackSequenceAndType s t = Some n"
  shows "unat n = 256 * unat s + unat (ValueType_byte t)"
proof -
  have n: "n = push_bit 8 s OR ValueType_byte t" and s: "unat s \<le> unat kMaxSequenceNumber"
    using assms by (auto simp: PackSequenceAndType_def word_le_nat_alt split: if_splits)
  have t: "unat (ValueType_byte t) < 2 ^ 8" by (cases t) (simp_all add: ValueType_byte_def)
  have "n = of_nat (unat (ValueType_byte t) + 2 ^ 8 * unat s)"
    using of_nat_or_push_bit [OF t, of "unat s", where 'a = 64] n by (simp add: or.commute)
  moreover have "unat kMaxSequenceNumber = 2 ^ 56 - 1" by (simp add: kMaxSequenceNumber_def)
  then have "unat (ValueType_byte t) + 2 ^ 8 * unat s < 2 ^ 64" using s t by simp
  ultimately show ?thesis
    by (simp add: unsigned_of_nat take_bit_nat_eq_self del: of_nat_add of_nat_mult)
qed

text \<open>C16: An internal key that \<open>AppendInternalKey\<close> wrote parses back to its parts, and under the
  bytewise order internal keys sort by user key, then by decreasing sequence number, then by
  decreasing type.\<close>

theorem internal_key_order:
  assumes "AppendInternalKey [] k = Some a" "AppendInternalKey [] k' = Some b"
  shows "ParseInternalKey a = Some k \<and> length a = InternalKeyEncodingLength k \<and>
    Compare (InternalKeyComparator BytewiseComparator) a b = Some
      (let r = Slice_compare (user_key k) (user_key k') in
       if r \<noteq> 0 then r
       else if seq_number k' < seq_number k then - 1 else if seq_number k < seq_number k' then 1
       else if value_type k = value_type k' then 0 else if value_type k = kTypeValue then - 1 else 1)"
proof -
  obtain m where m: "PackSequenceAndType (seq_number k) (value_type k) = Some m" "a = PutFixed64 (user_key k) m"
    using assms(1) by (auto simp: AppendInternalKey_def)
  obtain n where n: "PackSequenceAndType (seq_number k') (value_type k') = Some n" "b = PutFixed64 (user_key k') n"
    using assms(2) by (auto simp: AppendInternalKey_def)
  have ok: "ikey_ok (\<lambda>_. True) a" "ikey_ok (\<lambda>_. True) b" using m n by (simp_all add: ikey_ok_def)
  have byte: "unat (ValueType_byte t) = (if t = kTypeValue then 1 else 0)" for t
    by (cases t) (simp_all add: ValueType_byte_def)
  have lt: "x < y \<longleftrightarrow> unat x < unat y" for x y :: u64 by (rule word_less_nat_alt)
  have "(if n < m then - 1 else if m < n then 1 else 0 :: int) =
    (if seq_number k' < seq_number k then - 1 else if seq_number k < seq_number k' then 1
       else if value_type k = value_type k' then 0 else if value_type k = kTypeValue then - 1 else 1)"
    unfolding lt unat_pack [OF m(1)] unat_pack [OF n(1)] byte
    by (cases "value_type k"; cases "value_type k'") auto
  note e = this
  have "ikey_cmp BytewiseComparator a b = (let r = Slice_compare (user_key k) (user_key k') in
       if r \<noteq> 0 then r
       else if seq_number k' < seq_number k then - 1 else if seq_number k < seq_number k' then 1
       else if value_type k = value_type k' then 0 else if value_type k = kTypeValue then - 1 else 1)"
    by (simp only: ikey_cmp_def m(2) n(2) ikey_put e BytewiseComparator_def Comparator.select_convs option.sel)
  moreover have "Compare (InternalKeyComparator BytewiseComparator) a b = Some (ikey_cmp BytewiseComparator a b)"
    using bytewise.InternalKey_Compare_ok [OF ok] by (simp add: InternalKeyComparator_def)
  ultimately show ?thesis using ParseInternalKey_Append [OF assms(1)] by simp
qed

lemma append_examples:
  "AppendInternalKey [] \<lparr>user_key = [5], seq_number = 2, value_type = kTypeValue\<rparr> = Some [5, 1, 2, 0, 0, 0, 0, 0, 0]"
  "AppendInternalKey [] \<lparr>user_key = [5], seq_number = 1, value_type = kTypeDeletion\<rparr> = Some [5, 0, 1, 0, 0, 0, 0, 0, 0]"
  by (simp_all add: AppendInternalKey_def PackSequenceAndType_def kMaxSequenceNumber_def kValueTypeForSeek_def
      ValueType_byte_def PutFixed64_def EncodeFixed64_le le_bytes_8)

theorem internal_key_order_witness:
  "ParseInternalKey [5, 1, 2, 0, 0, 0, 0, 0, 0] = Some \<lparr>user_key = [5], seq_number = 2, value_type = kTypeValue\<rparr> \<and>
   Compare (InternalKeyComparator BytewiseComparator) [5, 1, 2, 0, 0, 0, 0, 0, 0] [5, 0, 1, 0, 0, 0, 0, 0, 0] = Some (- 1)"
  using internal_key_order [OF append_examples] by (simp add: Slice_compare_def)

text \<open>A lookup key holds the internal key to seek for, the same key with a length prefix and the
  user key in one buffer, and fits in the buffer the constructor chose.\<close>

theorem lookup_key_views:
  assumes "mk_LookupKey u s = Some lk" "length u + 8 < 2 ^ 32"
  shows "lookup_user_key lk = u \<and> memtable_key lk = PutLengthPrefixedSlice [] (internal_key lk) \<and>
    ParseInternalKey (internal_key lk) =
      Some \<lparr>user_key = u, seq_number = s, value_type = kValueTypeForSeek\<rparr> \<and>
    length (lk_start lk) \<le> lk_capacity lk"
proof -
  obtain tag where tag: "PackSequenceAndType s kValueTypeForSeek = Some tag" "internal_key lk = PutFixed64 u tag"
    using mk_LookupKey_parts(1) [OF assms] by blast
  then have "AppendInternalKey [] \<lparr>user_key = u, seq_number = s, value_type = kValueTypeForSeek\<rparr> = Some (internal_key lk)"
    by (simp add: AppendInternalKey_def)
  from ParseInternalKey_Append(1) [OF this] mk_LookupKey_parts(2-4) [OF assms]
  show ?thesis by simp
qed


theorem lookup_key_views_witness:
  "\<exists>lk. mk_LookupKey [1, 2] 9 = Some lk \<and> lookup_user_key lk = [1, 2] \<and>
     ParseInternalKey (internal_key lk) = Some \<lparr>user_key = [1, 2], seq_number = 9, value_type = kValueTypeForSeek\<rparr>"
proof -
  obtain lk where "mk_LookupKey [1, 2] 9 = Some lk"
    by (simp add: mk_LookupKey_def PackSequenceAndType_def kMaxSequenceNumber_def kValueTypeForSeek_def Let_def)
  from lookup_key_views [OF this] this show ?thesis by simp
qed

end
