(* ===== verification/Ldb_Status.thy ===== *)
theory Ldb_Status imports Ldb_Coding begin

section \<open>leveldb: statuses and files (include/leveldb/status.h, util/status.cc, include/leveldb/env.h)\<close>

text \<open>
  A \<open>Status\<close> with a null \<open>state_\<close> is \<open>StatusOK\<close>; otherwise it holds a code and a message. The
  files are the caller's: a \<open>WritableFile\<close> or a \<open>SequentialFile\<close> is its table of virtual functions
  over a state of any type.
\<close>

datatype Code = kOk | kNotFound | kCorruption | kNotSupported | kInvalidArgument | kIOError

datatype Status = StatusOK | StatusError Code string

definition mk_Status :: "Code \<Rightarrow> string \<Rightarrow> string \<Rightarrow> Status" where
  "mk_Status code msg msg2 = StatusError code (msg @ (if msg2 \<noteq> [] then '':'' @ '' '' @ msg2 else []))"

definition status_ok :: "Status \<Rightarrow> bool" where
  "status_ok s \<longleftrightarrow> s = StatusOK"

definition Status_code :: "Status \<Rightarrow> Code" where
  "Status_code s = (case s of StatusOK \<Rightarrow> kOk | StatusError code _ \<Rightarrow> code)"

definition NotFound :: "string \<Rightarrow> Status" where
  "NotFound msg = mk_Status kNotFound msg []"

definition Corruption :: "string \<Rightarrow> Status" where
  "Corruption msg = mk_Status kCorruption msg []"

definition NotSupported :: "string \<Rightarrow> Status" where
  "NotSupported msg = mk_Status kNotSupported msg []"

definition InvalidArgument :: "string \<Rightarrow> string \<Rightarrow> Status" where
  "InvalidArgument msg msg2 = mk_Status kInvalidArgument msg msg2"

definition IOError :: "string \<Rightarrow> Status" where
  "IOError msg = mk_Status kIOError msg []"

definition IsNotFound :: "Status \<Rightarrow> bool" where
  "IsNotFound s \<longleftrightarrow> Status_code s = kNotFound"

definition IsCorruption :: "Status \<Rightarrow> bool" where
  "IsCorruption s \<longleftrightarrow> Status_code s = kCorruption"

definition IsIOError :: "Status \<Rightarrow> bool" where
  "IsIOError s \<longleftrightarrow> Status_code s = kIOError"

definition IsNotSupportedError :: "Status \<Rightarrow> bool" where
  "IsNotSupportedError s \<longleftrightarrow> Status_code s = kNotSupported"

definition IsInvalidArgument :: "Status \<Rightarrow> bool" where
  "IsInvalidArgument s \<longleftrightarrow> Status_code s = kInvalidArgument"

definition Code_text :: "Code \<Rightarrow> string" where
  "Code_text code = (case code of
       kOk \<Rightarrow> ''OK'' | kNotFound \<Rightarrow> ''NotFound: '' | kCorruption \<Rightarrow> ''Corruption: ''
     | kNotSupported \<Rightarrow> ''Not implemented: '' | kInvalidArgument \<Rightarrow> ''Invalid argument: ''
     | kIOError \<Rightarrow> ''IO error: '')"

definition Status_ToString :: "Status \<Rightarrow> string" where
  "Status_ToString s = (case s of StatusOK \<Rightarrow> ''OK'' | StatusError code msg \<Rightarrow> Code_text code @ msg)"

record 'f WritableFile =
  file_Append :: "'f \<Rightarrow> u8 list \<Rightarrow> Status \<times> 'f"
  file_Flush :: "'f \<Rightarrow> Status \<times> 'f"

record 'f SequentialFile =
  file_Read :: "'f \<Rightarrow> nat \<Rightarrow> Status \<times> u8 list \<times> 'f"
  file_Skip :: "'f \<Rightarrow> u64 \<Rightarrow> Status \<times> 'f"

lemma status_ok_simps [simp]:
  "status_ok StatusOK" "\<not> status_ok (StatusError c m)" "\<not> status_ok (Corruption m)" "\<not> status_ok (IOError m)"
  by (simp_all add: status_ok_def Corruption_def IOError_def mk_Status_def)

end
