(* ===== verification/Log_Format.thy ===== *)
theory Log_Format imports Ldb_Status Crc32c begin

unbundle bit_operations_syntax

section \<open>leveldb: the log (db/log_format.h, db/log_writer.cc, db/log_reader.cc)\<close>

text \<open>
  A log is a sequence of blocks of 32 KB; a record is split into fragments with a header of seven
  bytes each (checksum, length, type) so that no fragment crosses a block. \<open>None\<close> is an assert that
  fails, or a \<open>ReadRecord\<close> that never returns. \<open>Extend\<close> gives the same at every address
  (theorem \<open>extat_endis_crc32c\<close>), so the checksums are taken at address 0 here.
\<close>

subsection \<open>Format\<close>

datatype RecordType = kZeroType | kFullType | kFirstType | kMiddleType | kLastType

definition RecordType_code :: "RecordType \<Rightarrow> nat" where
  "RecordType_code t = (case t of kZeroType \<Rightarrow> 0 | kFullType \<Rightarrow> 1 | kFirstType \<Rightarrow> 2
     | kMiddleType \<Rightarrow> 3 | kLastType \<Rightarrow> 4)"

definition kMaxRecordType :: nat where
  "kMaxRecordType = RecordType_code kLastType"

definition kBlockSize :: nat where
  "kBlockSize = 32768"

definition kHeaderSize :: nat where
  "kHeaderSize = 4 + 2 + 1"

subsection \<open>The writer\<close>

record 'f Writer =
  w_dest :: 'f
  w_block_offset :: nat
  w_type_crc :: "u32 list"

definition InitTypeCrc :: "u32 list option" where
  "InitTypeCrc = those (map (\<lambda>i. Value 0 [of_nat i]) [0..<kMaxRecordType + 1])"

definition mk_Writer :: "'f \<Rightarrow> nat \<Rightarrow> 'f Writer option" where
  "mk_Writer dest dest_length =
     map_option (\<lambda>crc. \<lparr>w_dest = dest, w_block_offset = dest_length mod kBlockSize, w_type_crc = crc\<rparr>)
       InitTypeCrc"

text \<open>Append the header and the payload, and flush.\<close>

definition emit_bytes :: "'f WritableFile \<Rightarrow> 'f \<Rightarrow> u8 list \<Rightarrow> u8 list \<Rightarrow> Status \<times> 'f" where
  "emit_bytes ops dest buf payload =
     (let (s, dest) = file_Append ops dest buf in
      if status_ok s then
        (let (s, dest) = file_Append ops dest payload in
         if status_ok s then file_Flush ops dest else (s, dest))
      else (s, dest))"

definition EmitPhysicalRecord ::
  "'f WritableFile \<Rightarrow> 'f Writer \<Rightarrow> RecordType \<Rightarrow> u8 list \<Rightarrow> (Status \<times> 'f Writer) option" where
  "EmitPhysicalRecord ops self t payload =
     (let len = length payload in
      if \<not> (len \<le> 0xffff \<and> w_block_offset self + kHeaderSize + len \<le> kBlockSize) then None
      else do {
        crc \<leftarrow> Extend 0 (w_type_crc self ! RecordType_code t) payload;
        let buf = EncodeFixed32 (Mask crc) @
          [of_nat len AND 0xff, of_nat (len div 2 ^ 8), of_nat (RecordType_code t)];
        let (s, dest) = emit_bytes ops (w_dest self) buf payload;
        Some (s, self\<lparr>w_dest := dest, w_block_offset := w_block_offset self + kHeaderSize + len\<rparr>)
      })"

definition fragment_type :: "bool \<Rightarrow> bool \<Rightarrow> RecordType" where
  "fragment_type at_begin at_end =
     (if at_begin \<and> at_end then kFullType else if at_begin then kFirstType
      else if at_end then kLastType else kMiddleType)"

text \<open>The first part of the loop body: fill the trailer of a block that has no room for a header.\<close>

definition switch_block :: "'f WritableFile \<Rightarrow> 'f Writer \<Rightarrow> 'f Writer option" where
  "switch_block ops self =
     (if w_block_offset self > kBlockSize then None
      else let leftover = kBlockSize - w_block_offset self in
        if leftover < kHeaderSize then
          let dest = (if leftover > 0 then snd (file_Append ops (w_dest self) (replicate leftover 0))
                      else w_dest self)
          in Some (self\<lparr>w_dest := dest, w_block_offset := 0\<rparr>)
        else Some self)"

lemma switch_block_offset:
  "switch_block ops self = Some self' \<Longrightarrow> w_block_offset self' + 7 \<le> 32768 \<and>
     (w_block_offset self' = 0 \<or> w_block_offset self' = w_block_offset self)"
  by (auto simp: switch_block_def kBlockSize_def kHeaderSize_def Let_def split: if_splits)

lemma emit_offset:
  "EmitPhysicalRecord ops self t payload = Some (s, self') \<Longrightarrow>
     w_block_offset self' = w_block_offset self + 7 + length payload"
  by (auto simp: EmitPhysicalRecord_def kHeaderSize_def Let_def bind_eq_Some_conv split_beta split: if_splits)

text \<open>The loop of \<open>AddRecord\<close>. A fragment is empty only when exactly a header fits in the block, and
  then the next one starts a new block.\<close>

function (sequential) add_fragments ::
  "'f WritableFile \<Rightarrow> 'f Writer \<Rightarrow> u8 list \<Rightarrow> bool \<Rightarrow> (Status \<times> 'f Writer) option" where
  "add_fragments ops self rest at_begin =
     (case switch_block ops self of None \<Rightarrow> None
      | Some self1 \<Rightarrow>
          let avail = kBlockSize - w_block_offset self1 - kHeaderSize;
              fragment_length = (if length rest < avail then length rest else avail);
              at_end = (length rest = fragment_length)
          in (case EmitPhysicalRecord ops self1 (fragment_type at_begin at_end) (take fragment_length rest) of
                None \<Rightarrow> None
              | Some (s, self2) \<Rightarrow>
                  if status_ok s \<and> length rest - fragment_length > 0
                  then add_fragments ops self2 (drop fragment_length rest) False
                  else Some (s, self2)))"
  by pat_completeness auto
termination
proof (relation "measure (\<lambda>(ops, self, rest, b). 2 * length rest + (if w_block_offset self = 32761 then 1 else 0))",
    goal_cases)
  case (2 ops self rest at_begin self1 avail n e r s self2)
  have o1: "w_block_offset self1 + 7 \<le> 32768"
    "w_block_offset self1 = 0 \<or> w_block_offset self1 = w_block_offset self"
    using switch_block_offset [OF 2(1)] by auto
  have n: "n = (if length rest < 32761 - w_block_offset self1 then length rest else 32761 - w_block_offset self1)"
    using 2(2,3) by (simp add: kBlockSize_def kHeaderSize_def)
  show ?case
  proof (cases "n = 0")
    case True
    have "length rest \<noteq> 0" using 2(7) by auto
    with True n have z: "w_block_offset self1 = 32761" using o1 by (auto split: if_splits)
    with o1 have "w_block_offset self = 32761" by auto
    moreover have "w_block_offset self2 = 32768"
      using emit_offset [OF 2(5) [unfolded 2(6) [symmetric]]] True z by simp
    ultimately show ?thesis using True by simp
  next
    case False
    then have "length (drop n rest) < length rest" using 2(7) by auto
    then show ?thesis by auto
  qed
qed simp

declare add_fragments.simps [simp del]

definition AddRecord :: "'f WritableFile \<Rightarrow> 'f Writer \<Rightarrow> Slice \<Rightarrow> (Status \<times> 'f Writer) option" where
  "AddRecord ops self input = add_fragments ops self input True"

end
