(* ===== verification/Log_Reader.thy ===== *)
theory Log_Reader imports Log_Format begin

unbundle bit_operations_syntax

subsection \<open>The reader (db/log_reader.h, db/log_reader.cc)\<close>

text \<open>
  \<open>rd_reporter\<close> is \<open>None\<close> for a null reporter and else the calls of \<open>Corruption\<close> so far. Offsets
  are \<open>uint64_t\<close> and wrap. \<open>char\<close> is signed on the platforms of the application, so a type byte from
  128 on becomes a large \<open>unsigned int\<close>.
\<close>

record 'f Reader =
  rd_file :: 'f
  rd_reporter :: "(u64 \<times> Status) list option"
  rd_checksum :: bool
  rd_buffer :: Slice
  rd_eof :: bool
  rd_last_record_offset :: u64
  rd_end_of_buffer_offset :: u64
  rd_initial_offset :: u64
  rd_resyncing :: bool

definition mk_Reader :: "'f \<Rightarrow> bool \<Rightarrow> bool \<Rightarrow> u64 \<Rightarrow> 'f Reader" where
  "mk_Reader f reporter checksum initial_offset =
     \<lparr>rd_file = f, rd_reporter = (if reporter then Some [] else None), rd_checksum = checksum,
      rd_buffer = [], rd_eof = False, rd_last_record_offset = 0, rd_end_of_buffer_offset = 0,
      rd_initial_offset = initial_offset, rd_resyncing = (initial_offset > 0)\<rparr>"

definition kEof :: u32 where
  "kEof = of_nat kMaxRecordType + 1"

definition kBadRecord :: u32 where
  "kBadRecord = of_nat kMaxRecordType + 2"

definition ReportDrop :: "'f Reader \<Rightarrow> u64 \<Rightarrow> Status \<Rightarrow> 'f Reader" where
  "ReportDrop self n reason =
     (case rd_reporter self of None \<Rightarrow> self
      | Some calls \<Rightarrow>
          if rd_end_of_buffer_offset self - of_nat (length (rd_buffer self)) - n \<ge> rd_initial_offset self
          then self\<lparr>rd_reporter := Some (calls @ [(n, reason)])\<rparr> else self)"

definition ReportCorruption :: "'f Reader \<Rightarrow> u64 \<Rightarrow> string \<Rightarrow> 'f Reader" where
  "ReportCorruption self n reason = ReportDrop self n (Corruption reason)"

definition SkipToInitialBlock :: "'f SequentialFile \<Rightarrow> 'f Reader \<Rightarrow> bool \<times> 'f Reader" where
  "SkipToInitialBlock ops self =
     (let offset_in_block = rd_initial_offset self mod of_nat kBlockSize;
          block_start_location = rd_initial_offset self - offset_in_block;
          block_start_location =
            (if offset_in_block > of_nat (kBlockSize - 6) then block_start_location + of_nat kBlockSize
             else block_start_location);
          self = self\<lparr>rd_end_of_buffer_offset := block_start_location\<rparr>
      in if block_start_location > 0
         then (let (skip_status, f) = file_Skip ops (rd_file self) block_start_location;
                   self = self\<lparr>rd_file := f\<rparr>
               in if \<not> status_ok skip_status
                  then (False, ReportDrop self block_start_location skip_status)
                  else (True, self))
         else (True, self))"

text \<open>The second half of \<open>ReadPhysicalRecord\<close>, with at least a header in the buffer. The result is the
  type, what \<open>*result\<close> holds afterwards, and the reader.\<close>

definition parse_record :: "'f Reader \<Rightarrow> Slice \<Rightarrow> (u32 \<times> Slice \<times> 'f Reader) option" where
  "parse_record self res =
     (let header = rd_buffer self;
          a = ucast (header ! 4) AND 0xff :: u32;
          b = ucast (header ! 5) AND 0xff :: u32;
          typ = scast (header ! 6) :: u32;
          len = unat (a OR push_bit 8 b)
      in if kHeaderSize + len > length header then
           (let drop_size = of_nat (length header); self1 = self\<lparr>rd_buffer := []\<rparr> in
            if \<not> rd_eof self1 then Some (kBadRecord, res, ReportCorruption self1 drop_size ''bad record length'')
            else Some (kEof, res, self1))
         else if typ = of_nat (RecordType_code kZeroType) \<and> len = 0 then
           Some (kBadRecord, res, self\<lparr>rd_buffer := []\<rparr>)
         else do {
           stored \<leftarrow> DecodeFixed32 header;
           actual_crc \<leftarrow> Value 0 (take (1 + len) (drop 6 header));
           if rd_checksum self \<and> actual_crc \<noteq> Unmask stored then
             (let drop_size = of_nat (length header); self1 = self\<lparr>rd_buffer := []\<rparr>
              in Some (kBadRecord, res, ReportCorruption self1 drop_size ''checksum mismatch''))
           else
             (let self1 = self\<lparr>rd_buffer := drop (kHeaderSize + len) header\<rparr> in
              if rd_end_of_buffer_offset self1 - of_nat (length (rd_buffer self1)) - of_nat kHeaderSize
                   - of_nat len < rd_initial_offset self1
              then Some (kBadRecord, [], self1)
              else Some (typ, take len (drop kHeaderSize header), self1))
         })"

function ReadPhysicalRecord ::
  "'f SequentialFile \<Rightarrow> 'f Reader \<Rightarrow> Slice \<Rightarrow> (u32 \<times> Slice \<times> 'f Reader) option" where
  "ReadPhysicalRecord ops self res =
     (if length (rd_buffer self) < kHeaderSize then
        (if \<not> rd_eof self then
           (case file_Read ops (rd_file self) kBlockSize of (status, data, f) \<Rightarrow>
              let self1 = self\<lparr>rd_file := f, rd_buffer := data,
                    rd_end_of_buffer_offset := rd_end_of_buffer_offset self + of_nat (length data)\<rparr>
              in if \<not> status_ok status
                 then Some (kEof, res,
                   (ReportDrop (self1\<lparr>rd_buffer := []\<rparr>) (of_nat kBlockSize) status)\<lparr>rd_eof := True\<rparr>)
                 else ReadPhysicalRecord ops
                   (if length data < kBlockSize then self1\<lparr>rd_eof := True\<rparr> else self1) res)
         else Some (kEof, res, self\<lparr>rd_buffer := []\<rparr>))
      else parse_record self res)"
  by pat_completeness auto
termination
  by (relation "measure (\<lambda>(ops, self, res). if length (rd_buffer self) < kHeaderSize \<and> \<not> rd_eof self
        then 1 else 0)")
     (auto simp: kBlockSize_def kHeaderSize_def)

declare ReadPhysicalRecord.simps [simp del]

text \<open>The decimal digits that \<open>%u\<close> and \<open>%llu\<close> print.\<close>

fun decimal_digits :: "nat \<Rightarrow> string" where
  "decimal_digits n =
     (if n < 10 then [char_of (48 + n)] else decimal_digits (n div 10) @ [char_of (48 + n mod 10)])"

declare decimal_digits.simps [simp del]

text \<open>One iteration of the loop of \<open>ReadRecord\<close> after the physical record was read: the \<open>Inl\<close> values
  are its returns, \<open>Inr\<close> goes on with the new reader, \<open>*scratch\<close>, \<open>in_fragmented_record\<close> and
  \<open>prospective_record_offset\<close>.\<close>

definition handle_record ::
  "u32 \<Rightarrow> Slice \<Rightarrow> 'f Reader \<Rightarrow> u8 list \<Rightarrow> bool \<Rightarrow> u64 \<Rightarrow>
     (bool \<times> Slice \<times> u8 list \<times> 'f Reader) + ('f Reader \<times> u8 list \<times> bool \<times> u64)" where
  "handle_record record_type fragment self scratch in_fragmented prospective =
     (let physical = rd_end_of_buffer_offset self - of_nat (length (rd_buffer self)) -
            of_nat kHeaderSize - of_nat (length fragment);
          typ = (\<lambda>t. of_nat (RecordType_code t) :: u32)
      in if rd_resyncing self \<and> record_type = typ kMiddleType then Inr (self, scratch, in_fragmented, prospective)
         else if rd_resyncing self \<and> record_type = typ kLastType
         then Inr (self\<lparr>rd_resyncing := False\<rparr>, scratch, in_fragmented, prospective)
         else let self = self\<lparr>rd_resyncing := False\<rparr> in
           if record_type = typ kFullType then
             (let self = (if in_fragmented \<and> scratch \<noteq> []
                then ReportCorruption self (of_nat (length scratch)) ''partial record without end(1)'' else self)
              in Inl (True, fragment, [], self\<lparr>rd_last_record_offset := physical\<rparr>))
           else if record_type = typ kFirstType then
             (let self = (if in_fragmented \<and> scratch \<noteq> []
                then ReportCorruption self (of_nat (length scratch)) ''partial record without end(2)'' else self)
              in Inr (self, fragment, True, physical))
           else if record_type = typ kMiddleType then
             (if \<not> in_fragmented
              then Inr (ReportCorruption self (of_nat (length fragment)) ''missing start of fragmented record(1)'',
                scratch, in_fragmented, prospective)
              else Inr (self, scratch @ fragment, in_fragmented, prospective))
           else if record_type = typ kLastType then
             (if \<not> in_fragmented
              then Inr (ReportCorruption self (of_nat (length fragment)) ''missing start of fragmented record(2)'',
                scratch, in_fragmented, prospective)
              else Inl (True, scratch @ fragment, scratch @ fragment,
                self\<lparr>rd_last_record_offset := prospective\<rparr>))
           else if record_type = kEof then
             Inl (False, [], (if in_fragmented then [] else scratch), self)
           else if record_type = kBadRecord then
             (if in_fragmented
              then Inr (ReportCorruption self (of_nat (length scratch)) ''error in middle of record'', [], False, prospective)
              else Inr (self, scratch, in_fragmented, prospective))
           else
             Inr (ReportCorruption self (of_nat (length fragment + (if in_fragmented then length scratch else 0)))
                    (''unknown record type '' @ decimal_digits (unat record_type)), [], False, prospective))"

partial_function (option) read_loop ::
  "'f SequentialFile \<Rightarrow> 'f Reader \<Rightarrow> Slice \<Rightarrow> u8 list \<Rightarrow> bool \<Rightarrow> u64 \<Rightarrow>
     (bool \<times> Slice \<times> u8 list \<times> 'f Reader) option" where
  "read_loop ops self fragment scratch in_fragmented prospective =
     (case ReadPhysicalRecord ops self fragment of None \<Rightarrow> None
      | Some (record_type, fragment, self) \<Rightarrow>
          (case handle_record record_type fragment self scratch in_fragmented prospective of
             Inl r \<Rightarrow> Some r
           | Inr (self, scratch, in_fragmented, prospective) \<Rightarrow>
               read_loop ops self fragment scratch in_fragmented prospective))"

declare read_loop.simps [code]

text \<open>\<open>ReadRecord\<close>: what it returns, \<open>*record\<close>, \<open>*scratch\<close> and the reader. It clears the two only after the initial
  block was found, so their contents before the call are parameters.\<close>

definition ReadRecord ::
  "'f SequentialFile \<Rightarrow> 'f Reader \<Rightarrow> Slice \<Rightarrow> u8 list \<Rightarrow> (bool \<times> Slice \<times> u8 list \<times> 'f Reader) option" where
  "ReadRecord ops self record_in scratch =
     (let (ok, self) = (if rd_last_record_offset self < rd_initial_offset self
            then SkipToInitialBlock ops self else (True, self))
      in if \<not> ok then Some (False, record_in, scratch, self) else read_loop ops self [] [] False 0)"

definition LastRecordOffset :: "'f Reader \<Rightarrow> u64" where
  "LastRecordOffset self = rd_last_record_offset self"

end
