(* ===== verification/Ldb_Iterator.thy ===== *)
theory Ldb_Iterator imports Ldb_Status Dbformat begin

section \<open>leveldb: options, assertions and iterators (include/leveldb/options.h, include/leveldb/iterator.h, table/iterator.cc)\<close>

text \<open>
  An \<open>Iterator\<close> is its table of virtual functions over a state of any type; \<open>None\<close> is a failed
  \<open>assert\<close>, an access outside a buffer or a loop that does not end. The options are those that
  the table code reads.
\<close>

text \<open>\<open>assert(b)\<close>\<close>

definition ensure :: "bool \<Rightarrow> unit option" where
  "ensure b = (if b then Some () else None)"

lemma ensure_bind [simp]: "(ensure b \<bind> f) = (if b then f () else None)"
  by (simp add: ensure_def)

datatype CompressionType = kNoCompression | kSnappyCompression

record Options =
  opt_comparator :: Comparator
  opt_paranoid_checks :: bool
  opt_block_size :: nat
  opt_block_restart_interval :: int
  opt_compression :: CompressionType
  opt_filter_policy :: "FilterPolicy option"

record 'i Iterator =
  iter_Valid :: "'i \<Rightarrow> bool"
  iter_SeekToFirst :: "'i \<Rightarrow> 'i option"
  iter_SeekToLast :: "'i \<Rightarrow> 'i option"
  iter_Seek :: "'i \<Rightarrow> Slice \<Rightarrow> 'i option"
  iter_Next :: "'i \<Rightarrow> 'i option"
  iter_Prev :: "'i \<Rightarrow> 'i option"
  iter_key :: "'i \<Rightarrow> Slice option"
  iter_value :: "'i \<Rightarrow> Slice option"
  iter_status :: "'i \<Rightarrow> Status"

subsection \<open>The empty iterator\<close>

text \<open>Its state is its status.\<close>

definition EmptyIterator :: "Status Iterator" where
  "EmptyIterator =
     \<lparr>iter_Valid = \<lambda>_. False, iter_SeekToFirst = Some, iter_SeekToLast = Some, iter_Seek = \<lambda>s _. Some s,
      iter_Next = \<lambda>_. None, iter_Prev = \<lambda>_. None, iter_key = \<lambda>_. None, iter_value = \<lambda>_. None,
      iter_status = \<lambda>s. s\<rparr>"

definition NewEmptyIterator :: Status where
  "NewEmptyIterator = StatusOK"

definition NewErrorIterator :: "Status \<Rightarrow> Status" where
  "NewErrorIterator s = s"

end
