(* ===== verification/Block.thy ===== *)
theory Block imports Ldb_Iterator begin

unbundle bit_operations_syntax

section \<open>leveldb: reading blocks (table/block.h, table/block.cc)\<close>

text \<open>
  A pointer into the block is an offset into its data. \<open>it_value\<close> is the slice \<open>value_\<close>, offset
  and length, or \<open>None\<close> when it does not point into the block. \<open>None\<close> as a result is a failed
  \<open>assert\<close>, a read outside the block's data, or a loop that does not end.
\<close>

record BlockContents =
  bc_data :: Slice
  bc_cachable :: bool
  bc_heap_allocated :: bool

record Block =
  blk_data :: "u8 list"
  blk_size :: nat
  blk_restart_offset :: u32
  blk_owned :: bool

definition NumRestarts :: "Block \<Rightarrow> u32 option" where
  "NumRestarts b = do {
     _ \<leftarrow> ensure (blk_size b \<ge> 4);
     DecodeFixed32 (drop (blk_size b - 4) (blk_data b))
   }"

definition mk_Block :: "BlockContents \<Rightarrow> Block option" where
  "mk_Block contents =
     (let b = \<lparr>blk_data = bc_data contents, blk_size = length (bc_data contents), blk_restart_offset = 0,
               blk_owned = bc_heap_allocated contents\<rparr> in
      if blk_size b < 4 then Some (b\<lparr>blk_size := 0\<rparr>)
      else do {
        let max_restarts_allowed = (blk_size b - 4) div 4;
        num_restarts \<leftarrow> NumRestarts b;
        if unat num_restarts > max_restarts_allowed then Some (b\<lparr>blk_size := 0\<rparr>)
        else Some (b\<lparr>blk_restart_offset := of_nat (blk_size b - unat (1 + num_restarts) * 4)\<rparr>)
      })"

subsection \<open>Entries\<close>

text \<open>The three lengths at the start of an entry, with the fast path for three single bytes.\<close>

definition decode_lengths :: "u8 list \<Rightarrow> (u32 \<times> u32 \<times> u32 \<times> u8 list) option" where
  "decode_lengths p =
     (let shared = (ucast (p ! 0) :: u32);
          non_shared = (ucast (p ! 1) :: u32);
          value_length = (ucast (p ! 2) :: u32)
      in if (shared OR non_shared OR value_length) < 128
         then Some (shared, non_shared, value_length, drop 3 p)
         else do {
           (shared, p) \<leftarrow> GetVarint32Ptr p;
           (non_shared, p) \<leftarrow> GetVarint32Ptr p;
           (value_length, p) \<leftarrow> GetVarint32Ptr p;
           Some (shared, non_shared, value_length, p)
         })"

definition DecodeEntry :: "u8 list \<Rightarrow> (u32 \<times> u32 \<times> u32 \<times> u8 list) option" where
  "DecodeEntry p =
     (if length p < 3 then None
      else do {
        (shared, non_shared, value_length, p) \<leftarrow> decode_lengths p;
        if (of_nat (length p) :: u32) < non_shared + value_length then None
        else Some (shared, non_shared, value_length, p)
      })"

subsection \<open>The iterator\<close>

record BlockIter =
  it_comparator :: Comparator
  it_data :: "u8 list"
  it_restarts :: u32
  it_num_restarts :: u32
  it_current :: u32
  it_restart_index :: u32
  it_key :: "u8 list"
  it_value :: "(nat \<times> nat) option"
  it_status :: Status

definition mk_BlockIter :: "Comparator \<Rightarrow> u8 list \<Rightarrow> u32 \<Rightarrow> u32 \<Rightarrow> BlockIter option" where
  "mk_BlockIter C data restarts num_restarts = do {
     _ \<leftarrow> ensure (num_restarts > 0);
     Some \<lparr>it_comparator = C, it_data = data, it_restarts = restarts, it_num_restarts = num_restarts,
       it_current = restarts, it_restart_index = num_restarts, it_key = [], it_value = None,
       it_status = StatusOK\<rparr>
   }"

definition NextEntryOffset :: "BlockIter \<Rightarrow> u32 option" where
  "NextEntryOffset it = map_option (\<lambda>(p, n). of_nat (p + n)) (it_value it)"

definition GetRestartPoint :: "BlockIter \<Rightarrow> u32 \<Rightarrow> u32 option" where
  "GetRestartPoint it index = do {
     _ \<leftarrow> ensure (index < it_num_restarts it);
     DecodeFixed32 (drop (unat (it_restarts it) + unat index * 4) (it_data it))
   }"

definition SeekToRestartPoint :: "BlockIter \<Rightarrow> u32 \<Rightarrow> BlockIter option" where
  "SeekToRestartPoint it index = do {
     let it = it\<lparr>it_key := [], it_restart_index := index\<rparr>;
     offset \<leftarrow> GetRestartPoint it index;
     Some (it\<lparr>it_value := Some (unat offset, 0)\<rparr>)
   }"

definition BlockIter_Valid :: "BlockIter \<Rightarrow> bool" where
  "BlockIter_Valid it \<longleftrightarrow> it_current it < it_restarts it"

definition BlockIter_key :: "BlockIter \<Rightarrow> Slice option" where
  "BlockIter_key it = do { _ \<leftarrow> ensure (BlockIter_Valid it); Some (it_key it) }"

definition BlockIter_value :: "BlockIter \<Rightarrow> Slice option" where
  "BlockIter_value it = do {
     _ \<leftarrow> ensure (BlockIter_Valid it);
     (p, n) \<leftarrow> it_value it;
     _ \<leftarrow> ensure (p + n \<le> length (it_data it));
     Some (take n (drop p (it_data it)))
   }"

definition CorruptionError :: "BlockIter \<Rightarrow> BlockIter" where
  "CorruptionError it =
     it\<lparr>it_current := it_restarts it, it_restart_index := it_num_restarts it,
        it_status := Corruption ''bad entry in block'', it_key := [], it_value := None\<rparr>"

text \<open>\<open>while (restart_index_ + 1 < num_restarts_ && ...) ++restart_index_;\<close>\<close>

partial_function (option) advance_restart_index :: "BlockIter \<Rightarrow> BlockIter option" where
  "advance_restart_index it =
     (if it_restart_index it + 1 < it_num_restarts it
      then GetRestartPoint it (it_restart_index it + 1) \<bind>
        (\<lambda>r. if r < it_current it
             then advance_restart_index (it\<lparr>it_restart_index := it_restart_index it + 1\<rparr>)
             else Some it)
      else Some it)"

definition ParseNextKey :: "BlockIter \<Rightarrow> (bool \<times> BlockIter) option" where
  "ParseNextKey it = do {
     current \<leftarrow> NextEntryOffset it;
     let it = it\<lparr>it_current := current\<rparr>;
     if it_current it \<ge> it_restarts it
     then Some (False, it\<lparr>it_current := it_restarts it, it_restart_index := it_num_restarts it\<rparr>)
     else
       (case DecodeEntry (drop (unat (it_current it)) (take (unat (it_restarts it)) (it_data it))) of
          None \<Rightarrow> Some (False, CorruptionError it)
        | Some (shared, non_shared, value_length, p) \<Rightarrow>
            if length (it_key it) < unat shared then Some (False, CorruptionError it)
            else do {
              let offset = unat (it_restarts it) - length p;
              _ \<leftarrow> ensure (offset + unat non_shared \<le> length (it_data it));
              let delta = take (unat non_shared) (drop offset (it_data it));
              it \<leftarrow> advance_restart_index
                (it\<lparr>it_key := take (unat shared) (it_key it) @ delta,
                    it_value := Some (offset + unat non_shared, unat value_length)\<rparr>);
              Some (True, it)
            })
   }"

definition BlockIter_Next :: "BlockIter \<Rightarrow> BlockIter option" where
  "BlockIter_Next it = do {
     _ \<leftarrow> ensure (BlockIter_Valid it);
     (_, it) \<leftarrow> ParseNextKey it;
     Some it
   }"

text \<open>
  The loops of \<open>Prev\<close>: back to a restart point before \<open>original\<close> (\<open>False\<close> when there is
  none), then forward to the entry that ends at \<open>original\<close>.
\<close>

partial_function (option) prev_restart :: "u32 \<Rightarrow> BlockIter \<Rightarrow> (bool \<times> BlockIter) option" where
  "prev_restart original it =
     GetRestartPoint it (it_restart_index it) \<bind>
       (\<lambda>r. if r \<ge> original
            then if it_restart_index it = 0
              then Some (False, it\<lparr>it_current := it_restarts it, it_restart_index := it_num_restarts it\<rparr>)
              else prev_restart original (it\<lparr>it_restart_index := it_restart_index it - 1\<rparr>)
            else Some (True, it))"

partial_function (option) parse_until :: "u32 \<Rightarrow> BlockIter \<Rightarrow> BlockIter option" where
  "parse_until bound it =
     ParseNextKey it \<bind>
       (\<lambda>(more, it). if \<not> more then Some it
          else NextEntryOffset it \<bind> (\<lambda>next. if next < bound then parse_until bound it else Some it))"

definition BlockIter_Prev :: "BlockIter \<Rightarrow> BlockIter option" where
  "BlockIter_Prev it = do {
     _ \<leftarrow> ensure (BlockIter_Valid it);
     let original = it_current it;
     (found, it) \<leftarrow> prev_restart original it;
     if \<not> found then Some it
     else do {
       it \<leftarrow> SeekToRestartPoint it (it_restart_index it);
       parse_until original it
     }
   }"

text \<open>
  The binary search of \<open>Seek\<close> over the restart points. \<open>Inr left\<close> is its result, \<open>Inl it\<close>
  a return after \<open>CorruptionError\<close>.
\<close>

partial_function (option) seek_restart :: "BlockIter \<Rightarrow> Slice \<Rightarrow> u32 \<Rightarrow> u32 \<Rightarrow> (BlockIter + u32) option" where
  "seek_restart it target left right =
     (if left < right then
        (let mid = (left + right + 1) div 2 in
         GetRestartPoint it mid \<bind>
           (\<lambda>region_offset.
              case DecodeEntry (drop (unat region_offset) (take (unat (it_restarts it)) (it_data it))) of
                None \<Rightarrow> Some (Inl (CorruptionError it))
              | Some (shared, non_shared, value_length, p) \<Rightarrow>
                  if shared \<noteq> 0 then Some (Inl (CorruptionError it))
                  else ensure (unat (it_restarts it) - length p + unat non_shared \<le> length (it_data it)) \<bind>
                    (\<lambda>_. Compare (it_comparator it)
                       (take (unat non_shared) (drop (unat (it_restarts it) - length p) (it_data it))) target \<bind>
                    (\<lambda>c. if c < 0 then seek_restart it target mid right
                         else seek_restart it target left (mid - 1)))))
      else Some (Inr left))"

partial_function (option) seek_linear :: "Slice \<Rightarrow> BlockIter \<Rightarrow> BlockIter option" where
  "seek_linear target it =
     ParseNextKey it \<bind>
       (\<lambda>(more, it). if \<not> more then Some it
          else Compare (it_comparator it) (it_key it) target \<bind>
            (\<lambda>c. if c \<ge> 0 then Some it else seek_linear target it))"

definition BlockIter_Seek :: "BlockIter \<Rightarrow> Slice \<Rightarrow> BlockIter option" where
  "BlockIter_Seek it target =
     seek_restart it target 0 (it_num_restarts it - 1) \<bind>
       (\<lambda>r. case r of Inl it \<Rightarrow> Some it
          | Inr left \<Rightarrow> SeekToRestartPoint it left \<bind> seek_linear target)"

definition BlockIter_SeekToFirst :: "BlockIter \<Rightarrow> BlockIter option" where
  "BlockIter_SeekToFirst it = do {
     it \<leftarrow> SeekToRestartPoint it 0;
     (_, it) \<leftarrow> ParseNextKey it;
     Some it
   }"

definition BlockIter_SeekToLast :: "BlockIter \<Rightarrow> BlockIter option" where
  "BlockIter_SeekToLast it = do {
     it \<leftarrow> SeekToRestartPoint it (it_num_restarts it - 1);
     parse_until (it_restarts it) it
   }"

definition Block_Iter :: "BlockIter Iterator" where
  "Block_Iter =
     \<lparr>iter_Valid = BlockIter_Valid, iter_SeekToFirst = BlockIter_SeekToFirst,
      iter_SeekToLast = BlockIter_SeekToLast, iter_Seek = BlockIter_Seek, iter_Next = BlockIter_Next,
      iter_Prev = BlockIter_Prev, iter_key = BlockIter_key, iter_value = BlockIter_value,
      iter_status = it_status\<rparr>"

lemma Block_Iter_ops:
  "iter_Valid Block_Iter = BlockIter_Valid" "iter_SeekToFirst Block_Iter = BlockIter_SeekToFirst"
  "iter_SeekToLast Block_Iter = BlockIter_SeekToLast" "iter_Seek Block_Iter = BlockIter_Seek"
  "iter_Next Block_Iter = BlockIter_Next" "iter_Prev Block_Iter = BlockIter_Prev"
  "iter_key Block_Iter = BlockIter_key" "iter_value Block_Iter = BlockIter_value"
  "iter_status Block_Iter = it_status"
  by (simp_all add: Block_Iter_def)

declare advance_restart_index.simps [code] prev_restart.simps [code] parse_until.simps [code]
  seek_restart.simps [code] seek_linear.simps [code]

subsection \<open>The iterators of a block\<close>

text \<open>\<open>Inl\<close> is an \<open>EmptyIterator\<close>, \<open>Inr\<close> a block iterator.\<close>

definition Block_NewIterator :: "Comparator \<Rightarrow> Block \<Rightarrow> (Status + BlockIter) option" where
  "Block_NewIterator C b =
     (if blk_size b < 4 then Some (Inl (NewErrorIterator (Corruption ''bad block contents'')))
      else do {
        num_restarts \<leftarrow> NumRestarts b;
        if num_restarts = 0 then Some (Inl NewEmptyIterator)
        else map_option Inr (mk_BlockIter C (blk_data b) (blk_restart_offset b) num_restarts)
      })"

end
