(* ===== verification/Table_Format.thy ===== *)
theory Table_Format imports Block Crc32c begin

unbundle bit_operations_syntax

section \<open>leveldb: block handles, the footer and block trailers (table/format.h, table/format.cc)\<close>

text \<open>
  A table file is a sequence of blocks, each with a trailer of a type byte and a checksum, and a footer
  with the handles of the metaindex block and the index block. The build does not define \<open>HAVE_SNAPPY\<close>, so
  the functions of port/port_stdcxx.h for it return \<open>false\<close>. A file that is read at any offset is the
  function \<open>Read\<close>: its status, its result and whether the result lies in the scratch buffer.
\<close>

record BlockHandle =
  bh_offset :: u64
  bh_size :: u64

definition mk_BlockHandle :: BlockHandle where
  "mk_BlockHandle = \<lparr>bh_offset = - 1, bh_size = - 1\<rparr>"

definition kMaxEncodedLength :: nat where
  "kMaxEncodedLength = 10 + 10"

definition BlockHandle_EncodeTo :: "BlockHandle \<Rightarrow> u8 list \<Rightarrow> u8 list option" where
  "BlockHandle_EncodeTo h dst = do {
     _ \<leftarrow> ensure (bh_offset h \<noteq> - 1);
     _ \<leftarrow> ensure (bh_size h \<noteq> - 1);
     Some (PutVarint64 (PutVarint64 dst (bh_offset h)) (bh_size h))
   }"

definition BlockHandle_DecodeFrom :: "BlockHandle \<Rightarrow> Slice \<Rightarrow> Status \<times> BlockHandle \<times> Slice" where
  "BlockHandle_DecodeFrom h input =
     (case GetVarint64 input of
        (None, input) \<Rightarrow> (Corruption ''bad block handle'', h, input)
      | (Some offset, input) \<Rightarrow>
          let h = h\<lparr>bh_offset := offset\<rparr> in
          (case GetVarint64 input of
             (None, input) \<Rightarrow> (Corruption ''bad block handle'', h, input)
           | (Some sz, input) \<Rightarrow> (StatusOK, h\<lparr>bh_size := sz\<rparr>, input)))"

subsection \<open>The footer\<close>

record Footer =
  ft_metaindex_handle :: BlockHandle
  ft_index_handle :: BlockHandle

definition kEncodedLength :: nat where
  "kEncodedLength = 2 * kMaxEncodedLength + 8"

definition kTableMagicNumber :: u64 where
  "kTableMagicNumber = 0xdb4775248b80fb57"

definition kBlockTrailerSize :: nat where
  "kBlockTrailerSize = 5"

text \<open>\<open>std::string::resize\<close>\<close>

definition string_resize :: "nat \<Rightarrow> u8 list \<Rightarrow> u8 list" where
  "string_resize n s = take n s @ replicate (n - length s) 0"

definition Footer_EncodeTo :: "Footer \<Rightarrow> u8 list \<Rightarrow> u8 list option" where
  "Footer_EncodeTo f dst = do {
     let original_size = length dst;
     dst \<leftarrow> BlockHandle_EncodeTo (ft_metaindex_handle f) dst;
     dst \<leftarrow> BlockHandle_EncodeTo (ft_index_handle f) dst;
     let dst = string_resize (2 * kMaxEncodedLength) dst;
     let dst = PutFixed32 dst (ucast (kTableMagicNumber AND 0xffffffff));
     let dst = PutFixed32 dst (ucast (drop_bit 32 kTableMagicNumber));
     _ \<leftarrow> ensure (length dst = original_size + kEncodedLength);
     Some dst
   }"

definition Footer_DecodeFrom :: "Footer \<Rightarrow> Slice \<Rightarrow> (Status \<times> Footer \<times> Slice) option" where
  "Footer_DecodeFrom f input = do {
     let magic_ptr = drop (kEncodedLength - 8) input;
     magic_lo \<leftarrow> DecodeFixed32 magic_ptr;
     magic_hi \<leftarrow> DecodeFixed32 (drop 4 magic_ptr);
     let magic = push_bit 32 (ucast magic_hi) OR (ucast magic_lo);
     if magic \<noteq> kTableMagicNumber
     then Some (Corruption ''not an sstable (bad magic number)'', f, input)
     else
       (let (result, metaindex, input') = BlockHandle_DecodeFrom (ft_metaindex_handle f) input;
            f = f\<lparr>ft_metaindex_handle := metaindex\<rparr> in
        if \<not> status_ok result then Some (result, f, input')
        else let (result, index, input') = BlockHandle_DecodeFrom (ft_index_handle f) input';
                 f = f\<lparr>ft_index_handle := index\<rparr> in
          Some (result, f, if status_ok result then drop 8 magic_ptr else input'))
   }"

text \<open>The key of the filter block in the metaindex.\<close>

definition filter_key :: "FilterPolicy \<Rightarrow> Slice" where
  "filter_key policy = map of_char ''filter.'' @ policy_Name policy"

subsection \<open>Reading a block\<close>

record ReadOptions =
  ro_verify_checksums :: bool
  ro_fill_cache :: bool

definition mk_ReadOptions :: ReadOptions where
  "mk_ReadOptions = \<lparr>ro_verify_checksums = False, ro_fill_cache = True\<rparr>"

record RandomAccessFile =
  file_ReadAt :: "u64 \<Rightarrow> nat \<Rightarrow> Status \<times> Slice \<times> bool"

definition CompressionType_code :: "CompressionType \<Rightarrow> u8" where
  "CompressionType_code t = (case t of kNoCompression \<Rightarrow> 0 | kSnappyCompression \<Rightarrow> 1)"

definition Snappy_GetUncompressedLength :: "Slice \<Rightarrow> nat option" where
  "Snappy_GetUncompressedLength input = None"

definition Snappy_Uncompress :: "Slice \<Rightarrow> Slice option" where
  "Snappy_Uncompress input = None"

definition Snappy_Compress :: "Slice \<Rightarrow> Slice option" where
  "Snappy_Compress input = None"

definition ReadBlock :: "RandomAccessFile \<Rightarrow> ReadOptions \<Rightarrow> BlockHandle \<Rightarrow> (Status \<times> BlockContents) option" where
  "ReadBlock file options handle =
     (let result = \<lparr>bc_data = [], bc_cachable = False, bc_heap_allocated = False\<rparr>;
          n = bh_size handle;
          (s, contents, in_buf) = file_ReadAt file (bh_offset handle) (unat (n + of_nat kBlockTrailerSize)) in
      if \<not> status_ok s then Some (s, result)
      else if of_nat (length contents) \<noteq> n + of_nat kBlockTrailerSize
      then Some (Corruption ''truncated block read'', result)
      else do {
        checked \<leftarrow>
          (if ro_verify_checksums options then do {
             stored \<leftarrow> DecodeFixed32 (drop (unat n + 1) contents);
             _ \<leftarrow> ensure (unat n + 1 \<le> length contents);
             actual \<leftarrow> Value 0 (take (unat n + 1) contents);
             Some (actual = Unmask stored)
           } else Some True);
        if \<not> checked then Some (Corruption ''block checksum mismatch'', result)
        else do {
          _ \<leftarrow> ensure (unat n < length contents);
          let type = contents ! unat n;
          if type = CompressionType_code kNoCompression
          then Some (StatusOK,
            \<lparr>bc_data = take (unat n) contents, bc_cachable = in_buf, bc_heap_allocated = in_buf\<rparr>)
          else if type = CompressionType_code kSnappyCompression
          then
            (case Snappy_GetUncompressedLength (take (unat n) contents) of
               None \<Rightarrow> Some (Corruption ''corrupted compressed block contents'', result)
             | Some ulength \<Rightarrow>
                 (case Snappy_Uncompress (take (unat n) contents) of
                    None \<Rightarrow> Some (Corruption ''corrupted compressed block contents'', result)
                  | Some ubuf \<Rightarrow> Some (StatusOK,
                      \<lparr>bc_data = take ulength ubuf, bc_cachable = True, bc_heap_allocated = True\<rparr>)))
          else Some (Corruption ''bad block type'', result)
        }
      })"

end
