(* ===== verification/Ldb_Files.thy ===== *)
theory Ldb_Files imports Table_Format begin

section \<open>leveldb: the contracts of files (include/leveldb/env.h)\<close>

text \<open>
  What the log and the tables rely on: a file that is written keeps what is appended, a file that is read
  gives its bytes in order, a file that is read at an offset gives the bytes there. Files in memory meet the
  three contracts.
\<close>

locale writable_file =
  fixes ops :: "'f WritableFile" and contents :: "'f \<Rightarrow> u8 list"
  assumes append_ok: "fst (file_Append ops f bs) = StatusOK"
    and append_contents: "contents (snd (file_Append ops f bs)) = contents f @ bs"
    and flush_ok: "fst (file_Flush ops f) = StatusOK"
    and flush_contents: "contents (snd (file_Flush ops f)) = contents f"

locale sequential_file =
  fixes ops :: "'f SequentialFile" and unread :: "'f \<Rightarrow> u8 list"
  assumes read_ok: "fst (file_Read ops f n) = StatusOK"
    and read_data: "fst (snd (file_Read ops f n)) = take n (unread f)"
    and read_rest: "unread (snd (snd (file_Read ops f n))) = drop n (unread f)"

definition memory_writable :: "u8 list WritableFile" where
  "memory_writable = \<lparr>file_Append = (\<lambda>f bs. (StatusOK, f @ bs)), file_Flush = (\<lambda>f. (StatusOK, f))\<rparr>"

definition memory_sequential :: "u8 list SequentialFile" where
  "memory_sequential =
     \<lparr>file_Read = (\<lambda>f n. (StatusOK, take n f, drop n f)), file_Skip = (\<lambda>f n. (StatusOK, drop (unat n) f))\<rparr>"

interpretation memory_writable: writable_file memory_writable "\<lambda>f. f"
  by unfold_locales (simp_all add: memory_writable_def)

interpretation memory_sequential: sequential_file memory_sequential "\<lambda>f. f"
  by unfold_locales (simp_all add: memory_sequential_def)

locale random_access_file =
  fixes rf :: RandomAccessFile and stored :: "u8 list"
  assumes read_at: "\<exists>b. file_ReadAt rf off n = (StatusOK, take n (drop (unat off) stored), b)"

definition memory_random_access :: "u8 list \<Rightarrow> RandomAccessFile" where
  "memory_random_access data = \<lparr>file_ReadAt = (\<lambda>off n. (StatusOK, take n (drop (unat off) data), True))\<rparr>"

lemma memory_random_access: "random_access_file (memory_random_access data) data"
  by unfold_locales (auto simp: memory_random_access_def)

interpretation empty_file: random_access_file "memory_random_access []" "[]"
  by (rule memory_random_access)

end
