(* ===== verification/Log_Facts.thy ===== *)
theory Log_Facts imports Log_Reader Crc32c_Facts Ldb_Files begin

unbundle bit_operations_syntax

section \<open>leveldb: physical records of the log\<close>

text \<open>
  The layout of fragments in blocks (\<open>emitted\<close>), the proof
  that the writer produces it, and the position of a reader in a file (\<open>rd_at\<close>): a whole fragment
  is read, one cut short by the end of the file is reported as the end.
\<close>

subsection \<open>The format\<close>

definition record_header :: "RecordType \<Rightarrow> u8 list \<Rightarrow> u8 list" where
  "record_header t p =
     EncodeFixed32 (Mask (crc32c 0 (of_nat (RecordType_code t) # p))) @
     [of_nat (length p), of_nat (length p div 256), of_nat (RecordType_code t)]"

definition block_pad :: "nat \<Rightarrow> nat" where
  "block_pad off = (if 32768 - off < 7 then 32768 - off else 0)"

definition block_pos :: "nat \<Rightarrow> nat" where
  "block_pos off = (if 32768 - off < 7 then 0 else off)"

definition fits_block :: "nat \<Rightarrow> u8 list \<Rightarrow> bool" where
  "fits_block off p \<longleftrightarrow> off \<le> 32768 \<and> block_pos off + 7 + length p \<le> 32768"

definition fragment_bytes :: "nat \<Rightarrow> RecordType \<times> u8 list \<Rightarrow> u8 list" where
  "fragment_bytes off f = replicate (block_pad off) 0 @ record_header (fst f) (snd f) @ snd f"

inductive emitted :: "nat \<Rightarrow> (RecordType \<times> u8 list) list \<Rightarrow> u8 list \<Rightarrow> nat \<Rightarrow> bool" where
  emitted_Nil: "off \<le> 32768 \<Longrightarrow> emitted off [] [] off"
| emitted_Cons: "fits_block off p \<Longrightarrow> emitted (block_pos off + 7 + length p) fs bs off' \<Longrightarrow>
     emitted off ((t, p) # fs) (fragment_bytes off (t, p) @ bs) off'"

inductive tail_frags :: "(RecordType \<times> u8 list) list \<Rightarrow> u8 list \<Rightarrow> bool" where
  tail_Last: "tail_frags [(kLastType, p)] p"
| tail_Middle: "tail_frags fs r \<Longrightarrow> tail_frags ((kMiddleType, p) # fs) (p @ r)"

inductive record_frags :: "(RecordType \<times> u8 list) list \<Rightarrow> u8 list \<Rightarrow> bool" where
  record_Full: "record_frags [(kFullType, p)] p"
| record_First: "tail_frags fs r \<Longrightarrow> record_frags ((kFirstType, p) # fs) (p @ r)"

inductive_cases emitted_ConsE: "emitted off (f # fs) bs off'"
inductive_cases emitted_NilE: "emitted off [] bs off'"

lemma length_record_header [simp]: "length (record_header t p) = 7"
  by (simp add: record_header_def EncodeFixed32_le)

lemma emitted_bound: "emitted off fs bs off' \<Longrightarrow> off \<le> 32768 \<and> off' \<le> 32768"
  by (induction rule: emitted.induct) (auto simp: fits_block_def)

subsection \<open>The writer\<close>

definition writer_ok :: "'f Writer \<Rightarrow> bool" where
  "writer_ok w \<longleftrightarrow> w_block_offset w \<le> 32768 \<and>
     w_type_crc w = map (\<lambda>i. crc32c 0 [of_nat i]) [0..<5]"

lemma RecordType_code_less: "RecordType_code t < 5"
  by (cases t) (simp_all add: RecordType_code_def)

lemma InitTypeCrc_ok: "InitTypeCrc = Some (map (\<lambda>i. crc32c 0 [of_nat i]) [0..<5])"
proof -
  have "Value 0 [b] = Some (crc32c 0 [b])" for b by (simp add: Value_def Extend_crc)
  moreover have "those (map (\<lambda>i. Some (f i)) xs) = Some (map f xs)" for f :: "nat \<Rightarrow> u32" and xs
    by (induction xs) simp_all
  moreover have "kMaxRecordType + 1 = 5" by (simp add: kMaxRecordType_def RecordType_code_def)
  ultimately show ?thesis unfolding InitTypeCrc_def by (simp only:)
qed

context writable_file
begin

lemma emit_bytes_ok:
  "\<exists>d. emit_bytes ops f buf p = (StatusOK, d) \<and> contents d = contents f @ buf @ p"
proof -
  obtain s1 f1 where 1: "file_Append ops f buf = (s1, f1)" by (cases "file_Append ops f buf")
  obtain s2 f2 where 2: "file_Append ops f1 p = (s2, f2)" by (cases "file_Append ops f1 p")
  obtain s3 f3 where 3: "file_Flush ops f2 = (s3, f3)" by (cases "file_Flush ops f2")
  show ?thesis
    using append_ok [of f buf] append_ok [of f1 p] flush_ok [of f2] append_contents [of f buf]
      append_contents [of f1 p] flush_contents [of f2]
    by (simp add: emit_bytes_def 1 2 3)
qed

lemma EmitPhysicalRecord_ok:
  assumes "writer_ok w" "w_block_offset w + 7 + length p \<le> 32768"
  shows "\<exists>w'. EmitPhysicalRecord ops w t p = Some (StatusOK, w') \<and> writer_ok w' \<and>
    w_block_offset w' = w_block_offset w + 7 + length p \<and>
    contents (w_dest w') = contents (w_dest w) @ record_header t p @ p"
proof -
  have crc: "Extend 0 (w_type_crc w ! RecordType_code t) p = Some (crc32c 0 (of_nat (RecordType_code t) # p))"
    using assms RecordType_code_less [of t] crc32c_append [of 0 "[of_nat (RecordType_code t)]" p]
    by (simp add: writer_ok_def Extend_crc)
  have lo: "(of_nat n AND 0xff :: u8) = of_nat n" for n
  proof -
    have "(0xff :: u8) = - 1" by simp
    then show ?thesis by (metis bit.conj_one_right)
  qed
  let ?buf = "record_header t p"
  obtain d where d: "emit_bytes ops (w_dest w) ?buf p = (StatusOK, d)" "contents d = contents (w_dest w) @ ?buf @ p"
    using emit_bytes_ok by blast
  let ?w = "w\<lparr>w_dest := d, w_block_offset := w_block_offset w + 7 + length p\<rparr>"
  have "EmitPhysicalRecord ops w t p = Some (StatusOK, ?w)"
    using assms d(1) crc
    by (simp add: EmitPhysicalRecord_def record_header_def lo kHeaderSize_def kBlockSize_def)
  then show ?thesis using assms d(2) by (auto simp: writer_ok_def)
qed

lemma switch_block_ok:
  assumes "writer_ok w"
  shows "\<exists>w'. switch_block ops w = Some w' \<and> writer_ok w' \<and> w_block_offset w' = block_pos (w_block_offset w) \<and>
    contents (w_dest w') = contents (w_dest w) @ replicate (block_pad (w_block_offset w)) 0"
  using assms append_contents
  by (auto simp: switch_block_def writer_ok_def block_pos_def block_pad_def kBlockSize_def kHeaderSize_def Let_def)

lemma add_fragments_ok:
  "writer_ok w \<Longrightarrow> \<exists>w' fs bs. add_fragments ops w rest b = Some (StatusOK, w') \<and> writer_ok w' \<and>
     emitted (w_block_offset w) fs bs (w_block_offset w') \<and> contents (w_dest w') = contents (w_dest w) @ bs \<and>
     (if b then record_frags fs rest else tail_frags fs rest)"
proof (induction "2 * length rest + (if w_block_offset w = 32761 then 1 else 0)" arbitrary: w rest b rule: less_induct)
  case less
  let ?off = "w_block_offset w"
  obtain w1 where w1: "switch_block ops w = Some w1" "writer_ok w1" "w_block_offset w1 = block_pos ?off"
    "contents (w_dest w1) = contents (w_dest w) @ replicate (block_pad ?off) 0"
    using switch_block_ok [OF less.prems] by blast
  have off: "?off \<le> 32768" using less.prems by (simp add: writer_ok_def)
  have pos: "block_pos ?off + 7 \<le> 32768" by (auto simp: block_pos_def)
  define n where "n = min (length rest) (32761 - block_pos ?off)"
  let ?t = "fragment_type b (length rest = n)"
  obtain w2 where w2: "EmitPhysicalRecord ops w1 ?t (take n rest) = Some (StatusOK, w2)" "writer_ok w2"
    "w_block_offset w2 = block_pos ?off + 7 + length (take n rest)"
    "contents (w_dest w2) = contents (w_dest w1) @ record_header ?t (take n rest) @ take n rest"
  proof -
    have "w_block_offset w1 + 7 + length (take n rest) \<le> 32768" using pos w1(3) by (simp add: n_def)
    from EmitPhysicalRecord_ok [OF w1(2) this, of ?t] w1(3) that show ?thesis by auto
  qed
  have n': "(if length rest < kBlockSize - w_block_offset w1 - kHeaderSize then length rest
      else kBlockSize - w_block_offset w1 - kHeaderSize) = n"
    using w1(3) by (auto simp: n_def kBlockSize_def kHeaderSize_def)
  have unf: "add_fragments ops w rest b =
      (if length rest - n > 0 then add_fragments ops w2 (drop n rest) False else Some (StatusOK, w2))"
    by (subst add_fragments.simps) (simp only: w1(1) option.case Let_def n' w2(1) prod.case status_ok_simps simp_thms)
  have fit: "fits_block ?off (take n rest)" using off pos by (auto simp: fits_block_def n_def)
  have bytes: "contents (w_dest w2) = contents (w_dest w) @ fragment_bytes ?off (?t, take n rest)"
    by (simp add: w2(4) w1(4) fragment_bytes_def)
  show ?case
  proof (cases "n = length rest")
    case True
    have "emitted ?off [(?t, rest)] (fragment_bytes ?off (?t, rest) @ []) (w_block_offset w2)"
      using fit w2(3) True by (intro emitted_Cons) (auto intro: emitted_Nil simp: fits_block_def)
    moreover have "if b then record_frags [(?t, rest)] rest else tail_frags [(?t, rest)] rest"
      using True by (auto simp: fragment_type_def intro: record_Full tail_Last)
    ultimately show ?thesis using unf w2(2) bytes True
      by (intro exI [of _ w2] exI [of _ "[(?t, rest)]"] exI [of _ "fragment_bytes ?off (?t, rest)"]) simp
  next
    case False
    then have n: "n < length rest" "n = 32761 - block_pos ?off" by (auto simp: n_def)
    have "2 * length (drop n rest) + (if w_block_offset w2 = 32761 then 1 else 0)
        < 2 * length rest + (if ?off = 32761 then 1 else 0)"
    proof (cases "n = 0")
      case True
      then have "?off = 32761" using n(2) pos by (auto simp: block_pos_def split: if_splits)
      moreover have "w_block_offset w2 = 32768" using True n(2) pos w2(3) by simp
      ultimately show ?thesis by simp
    qed (use n(1) in auto)
    from less.hyps [OF this w2(2), of False] obtain w' fs bs where IH:
      "add_fragments ops w2 (drop n rest) False = Some (StatusOK, w')" "writer_ok w'"
      "emitted (w_block_offset w2) fs bs (w_block_offset w')" "contents (w_dest w') = contents (w_dest w2) @ bs"
      "tail_frags fs (drop n rest)" by auto
    have "emitted ?off ((?t, take n rest) # fs) (fragment_bytes ?off (?t, take n rest) @ bs) (w_block_offset w')"
      using fit IH(3) w2(3) by (intro emitted_Cons) auto
    moreover have "if b then record_frags ((?t, take n rest) # fs) rest else tail_frags ((?t, take n rest) # fs) rest"
      using record_First [OF IH(5), of "take n rest"] tail_Middle [OF IH(5), of "take n rest"] n(1)
      by (simp add: fragment_type_def)
    ultimately show ?thesis using unf n(1) IH(1,2,4) bytes
      by (intro exI [of _ w'] exI [of _ "(?t, take n rest) # fs"]
          exI [of _ "fragment_bytes ?off (?t, take n rest) @ bs"]) simp
  qed
qed

end

subsection \<open>The reader\<close>

text \<open>
  \<open>rd_at rd off rem\<close>: the reader, at position \<open>off\<close> of a block, has \<open>rem\<close> still to read. Part of
  \<open>rem\<close> is in the buffer, up to the end of the block.
\<close>

context sequential_file
begin

definition rd_at :: "'f Reader \<Rightarrow> nat \<Rightarrow> u8 list \<Rightarrow> bool" where
  "rd_at rd off rem \<longleftrightarrow> rd_initial_offset rd = 0 \<and> \<not> rd_resyncing rd \<and>
     rem = rd_buffer rd @ unread (rd_file rd) \<and> off + length (rd_buffer rd) \<le> 32768 \<and>
     (rd_eof rd \<longrightarrow> unread (rd_file rd) = []) \<and>
     (\<not> rd_eof rd \<longrightarrow> off + length (rd_buffer rd) = 32768 \<or> off = 0 \<and> rd_buffer rd = [])"

definition rd_end :: "'f Reader \<Rightarrow> bool" where
  "rd_end rd \<longleftrightarrow> rd_initial_offset rd = 0 \<and> \<not> rd_resyncing rd \<and> rd_eof rd \<and> length (rd_buffer rd) < 7"

text \<open>The two sources of bytes: with at least a header in the buffer the record is parsed; otherwise
  the next block is read and the rest of this one, the trailer, dropped.\<close>

lemma ReadPhysicalRecord_load:
  assumes "rd_at rd off rem"
  shows "\<exists>rd1. ReadPhysicalRecord ops rd res =
      (if length (rd_buffer rd1) < 7 then Some (kEof, res, rd1\<lparr>rd_buffer := []\<rparr>) else parse_record rd1 res) \<and>
    rd_reporter rd1 = rd_reporter rd \<and> rd_initial_offset rd1 = 0 \<and> \<not> rd_resyncing rd1 \<and>
    (length (rd_buffer rd1) < 7 \<longrightarrow> rd_eof rd1) \<and>
    (7 \<le> length (drop (block_pad off) rem) \<longrightarrow> 7 \<le> length (rd_buffer rd1)) \<and>
    (7 \<le> length (rd_buffer rd1) \<longrightarrow> rd_at rd1 (block_pos off) (drop (block_pad off) rem) \<and>
       (rd_eof rd1 \<or> block_pos off + length (rd_buffer rd1) = 32768))"
proof -
  have rem: "rem = rd_buffer rd @ unread (rd_file rd)" and z: "rd_initial_offset rd = 0" "\<not> rd_resyncing rd"
    and le: "off + length (rd_buffer rd) \<le> 32768"
    and at_eof: "rd_eof rd \<Longrightarrow> unread (rd_file rd) = []"
    and ne: "\<not> rd_eof rd \<Longrightarrow> off + length (rd_buffer rd) = 32768 \<or> off = 0 \<and> rd_buffer rd = []"
    using assms by (auto simp: rd_at_def)
  consider (parse) "7 \<le> length (rd_buffer rd)" | (eof) "length (rd_buffer rd) < 7" "rd_eof rd"
    | (load) "length (rd_buffer rd) < 7" "\<not> rd_eof rd" by linarith
  then show ?thesis
  proof cases
    case parse
    then have "block_pad off = 0" "block_pos off = off" using le by (auto simp: block_pad_def block_pos_def)
    moreover have "rd_eof rd \<or> off + length (rd_buffer rd) = 32768" using ne parse by (cases "rd_eof rd") auto
    ultimately show ?thesis using parse assms
      by (intro exI [of _ rd]) (auto simp: ReadPhysicalRecord.simps [of ops rd] kHeaderSize_def rd_at_def)
  next
    case eof
    then have "length rem < 7" using rem at_eof by simp
    with eof z show ?thesis
      by (intro exI [of _ rd]) (auto simp: ReadPhysicalRecord.simps [of ops rd] kHeaderSize_def)
  next
    case load
    obtain st data f' where r: "file_Read ops (rd_file rd) kBlockSize = (st, data, f')"
      by (cases "file_Read ops (rd_file rd) kBlockSize") auto
    let ?rest = "unread (rd_file rd)"
    have st: "st = StatusOK" and data: "data = take 32768 ?rest" and f': "unread f' = drop 32768 ?rest"
      using read_ok [of "rd_file rd" kBlockSize] read_data [of "rd_file rd" kBlockSize]
        read_rest [of "rd_file rd" kBlockSize] r by (simp_all add: kBlockSize_def)
    let ?rd = "rd\<lparr>rd_file := f', rd_buffer := data,
      rd_end_of_buffer_offset := rd_end_of_buffer_offset rd + of_nat (length data)\<rparr>"
    let ?rd1 = "if length data < 32768 then ?rd\<lparr>rd_eof := True\<rparr> else ?rd"
    have buf: "rd_buffer ?rd1 = data" and fl: "rd_file ?rd1 = f'"
      and misc: "rd_reporter ?rd1 = rd_reporter rd" "rd_initial_offset ?rd1 = 0" "\<not> rd_resyncing ?rd1"
      and e1: "rd_eof ?rd1 \<longleftrightarrow> length data < 32768"
      using z load by auto
    have "ReadPhysicalRecord ops rd res = ReadPhysicalRecord ops ?rd1 res"
      using load by (subst ReadPhysicalRecord.simps) (simp add: kHeaderSize_def kBlockSize_def r [unfolded kBlockSize_def] st)
    also have "\<dots> = (if length (rd_buffer ?rd1) < 7 then Some (kEof, res, ?rd1\<lparr>rd_buffer := []\<rparr>)
        else parse_record ?rd1 res)"
      by (subst ReadPhysicalRecord.simps) (auto simp: kHeaderSize_def)
    finally have 1: "ReadPhysicalRecord ops rd res = \<dots>" .
    have pos: "block_pos off = 0" and pad: "block_pad off = length (rd_buffer rd)"
      using ne load le by (auto simp: block_pos_def block_pad_def)
    then have dr: "drop (block_pad off) rem = ?rest" using rem by simp
    have at: "rd_at ?rd1 (block_pos off) ?rest"
      unfolding rd_at_def buf fl e1 pos using misc data f' by auto
    have "7 \<le> length ?rest \<longrightarrow> 7 \<le> length data" "length data < 7 \<longrightarrow> length data < 32768" using data by auto
    moreover have "length data < 32768 \<or> block_pos off + length data = 32768" using data pos by auto
    ultimately show ?thesis
      by (intro exI [of _ ?rd1]) (use 1 misc dr at in \<open>simp only: buf e1 simp_thms\<close>)
  qed
qed

end

subsection \<open>Parsing a record\<close>

lemma header_fields:
  assumes "length p \<le> 32761"
  shows "unat ((ucast (record_header t p ! 4) AND 0xff :: u32) OR push_bit 8 (ucast (record_header t p ! 5) AND 0xff)) = length p"
    and "(scast (record_header t p ! 6) :: u32) = of_nat (RecordType_code t)"
    and "DecodeFixed32 (record_header t p @ xs) = Some (Mask (crc32c 0 (of_nat (RecordType_code t) # p)))"
    and "take (1 + length p) (drop 6 (record_header t p @ p @ xs)) = of_nat (RecordType_code t) # p"
proof -
  let ?n = "length p"
  have nth: "record_header t p ! 4 = of_nat ?n" "record_header t p ! 5 = of_nat (?n div 256)"
    "record_header t p ! 6 = of_nat (RecordType_code t)"
    by (simp_all add: record_header_def nth_append EncodeFixed32_le)
  have ff: "(ucast b AND 0xff :: u32) = of_nat (unat b)" for b :: u8
    unfolding and_ff by (rule bit_word_eqI) (auto simp: bit_simps dest: bit_imp_le_length)
  have "?n div 256 < 256" using assms by (simp add: less_mult_imp_div_less)
  then have u: "unat (of_nat ?n :: u8) = ?n mod 256" "unat (of_nat (?n div 256) :: u8) = ?n div 256"
    by (simp_all add: unat_of_nat_u8)
  have "(of_nat (?n mod 256) OR push_bit 8 (of_nat (?n div 256)) :: u32) = of_nat (?n mod 256 + 2 ^ 8 * (?n div 256))"
    by (rule of_nat_or_push_bit) simp
  also have "?n mod 256 + 2 ^ 8 * (?n div 256) = ?n" by simp
  finally show "unat ((ucast (record_header t p ! 4) AND 0xff :: u32) OR push_bit 8 (ucast (record_header t p ! 5) AND 0xff)) = ?n"
    unfolding nth ff u using assms by (simp add: unsigned_of_nat take_bit_nat_eq_self)
  show "(scast (record_header t p ! 6) :: u32) = of_nat (RecordType_code t)"
    unfolding nth by (cases t) (simp_all add: RecordType_code_def)
  have l: "length (EncodeFixed32 v) = 4" for v by (simp add: EncodeFixed32_le)
  show "DecodeFixed32 (record_header t p @ xs) = Some (Mask (crc32c 0 (of_nat (RecordType_code t) # p)))"
    using unat_u32_less [of "Mask (crc32c 0 (of_nat (RecordType_code t) # p))"]
    by (simp add: DecodeFixed32_def decode_fixed32_endian_free record_header_def l EncodeFixed32_le
        del: unat_u32_less)
  show "take (1 + length p) (drop 6 (record_header t p @ p @ xs)) = of_nat (RecordType_code t) # p"
    by (simp add: record_header_def l)
qed

text \<open>A whole record is parsed.\<close>

lemma parse_record_whole:
  assumes "rd_buffer rd = record_header t p @ p @ xs" "length p \<le> 32761" "t \<noteq> kZeroType"
    and "rd_initial_offset rd = 0"
  shows "parse_record rd res = Some (of_nat (RecordType_code t), p, rd\<lparr>rd_buffer := xs\<rparr>)"
proof -
  note h = header_fields [OF assms(2), of t]
  have b: "(record_header t p @ p @ xs) ! i = record_header t p ! i" if "i < 7" for i
    using that by (simp add: nth_append)
  have v: "Value 0 (of_nat (RecordType_code t) # p) = Some (crc32c 0 (of_nat (RecordType_code t) # p))"
    using assms(2) by (simp add: Value_def Extend_crc)
  have t: "(of_nat (RecordType_code t) :: u32) \<noteq> of_nat (RecordType_code kZeroType)"
    using assms(3) by (cases t) (simp_all add: RecordType_code_def)
  show ?thesis
    unfolding parse_record_def assms(1) Let_def b [of 4, simplified] b [of 5, simplified] b [of 6, simplified] h(1,2)
    using h(3) [of "p @ xs"] h(4) [of xs] v t assms(4)
    by (simp add: kHeaderSize_def Unmask_Mask)
qed

text \<open>A record cut short at the end of the file is taken for the end.\<close>

lemma parse_record_cut:
  assumes "rd_buffer rd = take n (record_header t p @ p)" "7 \<le> n" "n < 7 + length p" "length p \<le> 32761"
    and "rd_eof rd"
  shows "parse_record rd res = Some (kEof, res, rd\<lparr>rd_buffer := []\<rparr>)"
proof -
  note h = header_fields [OF assms(4), of t]
  have "rd_buffer rd ! i = record_header t p ! i" if "i < 7" for i
    using that assms(2) by (simp add: assms(1) nth_append)
  then have b: "rd_buffer rd ! 4 = record_header t p ! 4" "rd_buffer rd ! 5 = record_header t p ! 5"
    "rd_buffer rd ! 6 = record_header t p ! 6" by simp_all
  have "length (rd_buffer rd) = n" using assms(1,3) by simp
  with assms(3,5) show ?thesis
    unfolding parse_record_def Let_def b h(1,2) by (simp add: kHeaderSize_def)
qed

lemma fits_blockD:
  assumes "fits_block off p" shows "length p \<le> 32761" "off \<le> 32768" "block_pos off + (7 + length p) \<le> 32768"
  using assms by (auto simp: fits_block_def)

context sequential_file
begin

lemma read_fragment:
  assumes at: "rd_at rd off (fragment_bytes off (t, p) @ rem)" and fit: "fits_block off p" and t: "t \<noteq> kZeroType"
  shows "\<exists>rd'. ReadPhysicalRecord ops rd res = Some (of_nat (RecordType_code t), p, rd') \<and>
    rd_at rd' (block_pos off + 7 + length p) rem \<and> rd_reporter rd' = rd_reporter rd"
proof -
  have dr: "drop (block_pad off) (fragment_bytes off (t, p) @ rem) = record_header t p @ p @ rem"
    by (simp add: fragment_bytes_def)
  obtain rd1 where 1: "ReadPhysicalRecord ops rd res = parse_record rd1 res" "rd_reporter rd1 = rd_reporter rd"
    "rd_at rd1 (block_pos off) (record_header t p @ p @ rem)"
    "rd_eof rd1 \<or> block_pos off + length (rd_buffer rd1) = 32768"
    using ReadPhysicalRecord_load [OF at, of res] unfolding dr by auto
  have rem: "record_header t p @ p @ rem = rd_buffer rd1 @ unread (rd_file rd1)"
    using 1(3) by (simp add: rd_at_def)
  have "7 + length p \<le> length (rd_buffer rd1)"
  proof (cases "rd_eof rd1")
    case True
    then have "unread (rd_file rd1) = []" using 1(3) by (simp add: rd_at_def)
    with rem have "length (rd_buffer rd1) = 7 + length p + length rem"
      by (metis append_Nil2 length_append length_record_header add.assoc)
    then show ?thesis by simp
  next
    case False
    with 1(4) fits_blockD(3) [OF fit] show ?thesis by simp
  qed
  then have "take (7 + length p) (rd_buffer rd1) = record_header t p @ p"
    using arg_cong [OF rem, of "take (7 + length p)"] by simp
  then have buf: "rd_buffer rd1 = record_header t p @ p @ drop (7 + length p) (rd_buffer rd1)"
    by (metis append_assoc append_take_drop_id)
  let ?rd = "rd1\<lparr>rd_buffer := drop (7 + length p) (rd_buffer rd1)\<rparr>"
  have z: "rd_initial_offset rd1 = 0" using 1(3) by (simp add: rd_at_def)
  have "parse_record rd1 res = Some (of_nat (RecordType_code t), p, ?rd)"
    by (rule parse_record_whole [OF buf fits_blockD(1) [OF fit] t z])
  moreover have "rem = drop (7 + length p) (rd_buffer rd1) @ unread (rd_file rd1)"
  proof -
    have "record_header t p @ p @ rem = record_header t p @ p @ drop (7 + length p) (rd_buffer rd1) @ unread (rd_file rd1)"
      using rem buf by (metis append_assoc)
    then show ?thesis by simp
  qed
  then have "rd_at ?rd (block_pos off + 7 + length p) rem"
    using 1(3,4) \<open>7 + length p \<le> length (rd_buffer rd1)\<close> by (auto simp: rd_at_def)
  ultimately show ?thesis using 1(1,2) by auto
qed

lemma read_cut:
  assumes at: "rd_at rd off (take n (fragment_bytes off (t, p)))" and fit: "fits_block off p"
    and n: "n < length (fragment_bytes off (t, p))"
  shows "\<exists>rd'. ReadPhysicalRecord ops rd res = Some (kEof, res, rd') \<and> rd_end rd' \<and> rd_reporter rd' = rd_reporter rd"
proof -
  let ?m = "n - block_pad off"
  have dr: "drop (block_pad off) (take n (fragment_bytes off (t, p))) = take ?m (record_header t p @ p)"
  proof -
    have "drop (block_pad off) (fragment_bytes off (t, p)) = record_header t p @ p"
      by (simp add: fragment_bytes_def)
    then show ?thesis by (simp only: drop_take)
  qed
  obtain rd1 where 1: "ReadPhysicalRecord ops rd res =
      (if length (rd_buffer rd1) < 7 then Some (kEof, res, rd1\<lparr>rd_buffer := []\<rparr>) else parse_record rd1 res)"
    "rd_reporter rd1 = rd_reporter rd" "rd_initial_offset rd1 = 0" "\<not> rd_resyncing rd1"
    "length (rd_buffer rd1) < 7 \<Longrightarrow> rd_eof rd1"
    "7 \<le> length (rd_buffer rd1) \<Longrightarrow> rd_at rd1 (block_pos off) (take ?m (record_header t p @ p)) \<and>
       (rd_eof rd1 \<or> block_pos off + length (rd_buffer rd1) = 32768)"
    using ReadPhysicalRecord_load [OF at, of res] unfolding dr by blast
  show ?thesis
  proof (cases "length (rd_buffer rd1) < 7")
    case True
    with 1 show ?thesis by (auto simp: rd_end_def)
  next
    case False
    then have at1: "rd_at rd1 (block_pos off) (take ?m (record_header t p @ p))"
      and e: "rd_eof rd1 \<or> block_pos off + length (rd_buffer rd1) = 32768" using 1(6) by auto
    have m: "?m < 7 + length p" using n by (simp add: fragment_bytes_def)
    have rem: "take ?m (record_header t p @ p) = rd_buffer rd1 @ unread (rd_file rd1)"
      using at1 by (simp add: rd_at_def)
    have len: "length (rd_buffer rd1) + length (unread (rd_file rd1)) = ?m"
      using arg_cong [OF rem, of length] m by simp
    have eof: "rd_eof rd1"
    proof (rule ccontr)
      assume "\<not> rd_eof rd1"
      with e have "block_pos off + length (rd_buffer rd1) = 32768" by simp
      with len m fits_blockD(3) [OF fit] show False by simp
    qed
    then have buf: "rd_buffer rd1 = take ?m (record_header t p @ p)" "7 \<le> ?m"
      using rem at1 len False by (auto simp: rd_at_def)
    have "parse_record rd1 res = Some (kEof, res, rd1\<lparr>rd_buffer := []\<rparr>)"
      by (rule parse_record_cut [OF buf m fits_blockD(1) [OF fit] eof])
    with 1 False eof show ?thesis by (auto simp: rd_end_def)
  qed
qed

lemma read_end:
  "rd_end rd \<Longrightarrow> ReadPhysicalRecord ops rd res = Some (kEof, res, rd\<lparr>rd_buffer := []\<rparr>) \<and> rd_end (rd\<lparr>rd_buffer := []\<rparr>)"
  by (simp add: ReadPhysicalRecord.simps [of ops rd] rd_end_def kHeaderSize_def)

end
end
