(* ===== verification/Log_Records.thy ===== *)
theory Log_Records imports Log_Facts begin

section \<open>leveldb: records of the log survive\<close>

text \<open>
  A record is a full fragment or a first, middle and last ones. \<open>ReadRecord\<close> puts the fragments
  together; a record whose bytes are cut short is dropped without a report. Sequences of calls of
  \<open>AddRecord\<close> and of \<open>ReadRecord\<close> follow.
\<close>

lemma RecordType_code_inj:
  "(of_nat (RecordType_code s) = (of_nat (RecordType_code t) :: u32)) = (s = t)"
  by (cases s; cases t) (simp_all add: RecordType_code_def)

lemma codes_differ [simp]:
  "(of_nat (RecordType_code t) = kEof) = False" "(kEof = of_nat (RecordType_code t)) = False"
  "(kEof = kBadRecord) = False"
  by (cases t; simp add: kEof_def kBadRecord_def kMaxRecordType_def RecordType_code_def)+

lemma fragment_bytes_nonempty [simp]: "0 < length (fragment_bytes off f)"
  by (simp add: fragment_bytes_def)

lemma tail_frags_types: "tail_frags fs r \<Longrightarrow> fs \<noteq> []"
  by (induction rule: tail_frags.induct) auto

context sequential_file
begin

lemma resync_off [simp]:
  "\<not> rd_resyncing rd \<Longrightarrow> rd\<lparr>rd_resyncing := False\<rparr> = rd"
  by simp

lemma rd_at_flags: "rd_at rd off rem \<Longrightarrow> \<not> rd_resyncing rd \<and> rd_initial_offset rd = 0"
  by (simp add: rd_at_def)

lemma rd_at_last_offset [simp]: "rd_at (rd\<lparr>rd_last_record_offset := x\<rparr>) off rem = rd_at rd off rem"
  by (simp add: rd_at_def)

text \<open>The tail of a fragmented record.\<close>

lemma read_tail:
  "tail_frags fs r \<Longrightarrow> emitted off fs bs off' \<Longrightarrow> rd_at rd off (bs @ rem) \<Longrightarrow>
   \<exists>sc rd'. read_loop ops rd fragment scratch True prospective = Some (True, scratch @ r, sc, rd') \<and>
     rd_at rd' off' rem \<and> rd_reporter rd' = rd_reporter rd"
proof (induction fs r arbitrary: off bs rd fragment scratch rule: tail_frags.induct)
  case (tail_Last p)
  then have fit: "fits_block off p" and off': "off' = block_pos off + 7 + length p"
    and bs: "bs = fragment_bytes off (kLastType, p)"
    by (auto elim!: emitted_ConsE emitted_NilE)
  from tail_Last(2) obtain rd' where rd': "ReadPhysicalRecord ops rd fragment = Some (of_nat (RecordType_code kLastType), p, rd')"
    "rd_at rd' off' rem" "rd_reporter rd' = rd_reporter rd"
    using read_fragment [of rd off kLastType p rem fragment] fit bs off' by auto
  with rd_at_flags [OF rd'(2)] show ?case
    by (subst read_loop.simps) (simp add: handle_record_def RecordType_code_inj)
next
  case (tail_Middle fs r p)
  from tail_Middle.prems(1) obtain bs' where fit: "fits_block off p"
    and em: "emitted (block_pos off + 7 + length p) fs bs' off'"
    and bs: "bs = fragment_bytes off (kMiddleType, p) @ bs'"
    by (auto elim!: emitted_ConsE)
  from tail_Middle.prems(2) obtain rd' where rd': "ReadPhysicalRecord ops rd fragment = Some (of_nat (RecordType_code kMiddleType), p, rd')"
    "rd_at rd' (block_pos off + 7 + length p) (bs' @ rem)" "rd_reporter rd' = rd_reporter rd"
    using read_fragment [of rd off kMiddleType p "bs' @ rem" fragment] fit bs by auto
  have "read_loop ops rd fragment scratch True prospective = read_loop ops rd' p (scratch @ p) True prospective"
    using rd'(1) rd_at_flags [OF rd'(2)]
    by (subst read_loop.simps) (simp add: handle_record_def RecordType_code_inj)
  with tail_Middle.IH [OF em rd'(2), of p "scratch @ p"] rd'(3) show ?case by simp
qed

lemma read_tail_cut:
  "tail_frags fs r \<Longrightarrow> emitted off fs bs off' \<Longrightarrow> rd_at rd off (take n bs) \<Longrightarrow> n < length bs \<Longrightarrow>
   \<exists>sc rd'. read_loop ops rd fragment scratch True prospective = Some (False, [], sc, rd') \<and>
     rd_end rd' \<and> rd_reporter rd' = rd_reporter rd"
proof (induction fs r arbitrary: off bs rd fragment scratch n rule: tail_frags.induct)
  case (tail_Last p)
  then have fit: "fits_block off p" and bs: "bs = fragment_bytes off (kLastType, p)"
    by (auto elim!: emitted_ConsE emitted_NilE)
  from tail_Last(2,3) obtain rd' where rd': "ReadPhysicalRecord ops rd fragment = Some (kEof, fragment, rd')"
    "rd_end rd'" "rd_reporter rd' = rd_reporter rd"
    using read_cut [of rd off n kLastType p fragment] fit bs by auto
  then show ?case
    by (subst read_loop.simps) (simp add: handle_record_def rd_end_def)
next
  case (tail_Middle fs r p)
  from tail_Middle.prems(1) obtain bs' where fit: "fits_block off p"
    and em: "emitted (block_pos off + 7 + length p) fs bs' off'"
    and bs: "bs = fragment_bytes off (kMiddleType, p) @ bs'"
    by (auto elim!: emitted_ConsE)
  let ?fb = "fragment_bytes off (kMiddleType, p)"
  show ?case
  proof (cases "n < length ?fb")
    case True
    with tail_Middle.prems(2) bs have "rd_at rd off (take n ?fb)" by simp
    from read_cut [OF this fit True, of fragment] obtain rd' where rd': "ReadPhysicalRecord ops rd fragment = Some (kEof, fragment, rd')"
      "rd_end rd'" "rd_reporter rd' = rd_reporter rd" by blast
    then show ?thesis
      by (subst read_loop.simps) (simp add: handle_record_def rd_end_def)
  next
    case False
    with tail_Middle.prems(2) bs have "rd_at rd off (?fb @ take (n - length ?fb) bs')" by simp
    from read_fragment [OF this fit] obtain rd' where rd': "ReadPhysicalRecord ops rd fragment = Some (of_nat (RecordType_code kMiddleType), p, rd')"
      "rd_at rd' (block_pos off + 7 + length p) (take (n - length ?fb) bs')" "rd_reporter rd' = rd_reporter rd"
      by auto
    have "read_loop ops rd fragment scratch True prospective = read_loop ops rd' p (scratch @ p) True prospective"
      using rd'(1) rd_at_flags [OF rd'(2)]
      by (subst read_loop.simps) (simp add: handle_record_def RecordType_code_inj)
    moreover have "n - length ?fb < length bs'" using tail_Middle.prems(3) bs False by simp
    ultimately show ?thesis using tail_Middle.IH [OF em rd'(2), of p "scratch @ p"] rd'(3) by simp
  qed
qed

subsection \<open>Records\<close>

lemma ReadRecord_loop:
  "rd_initial_offset rd = 0 \<Longrightarrow> ReadRecord ops rd rc0 sc0 = read_loop ops rd [] [] False 0"
  by (simp add: ReadRecord_def)

lemma first_fragment:
  assumes "ReadPhysicalRecord ops rd [] = Some (of_nat (RecordType_code kFirstType), p, rd')"
    and "rd_initial_offset rd = 0" "\<not> rd_resyncing rd'"
  shows "\<exists>ph. ReadRecord ops rd rc0 sc0 = read_loop ops rd' p p True ph"
  using assms
  by (simp add: ReadRecord_loop read_loop.simps [of ops rd] handle_record_def RecordType_code_inj)
     (rule exI, rule refl)

lemma read_record:
  assumes "record_frags fs r" "emitted off fs bs off'" "rd_at rd off (bs @ rem)"
  shows "\<exists>sc rd'. ReadRecord ops rd rc0 sc0 = Some (True, r, sc, rd') \<and> rd_at rd' off' rem \<and>
    rd_reporter rd' = rd_reporter rd"
  using assms
proof (cases rule: record_frags.cases)
  case record_Full
  with assms have fit: "fits_block off r" and off': "off' = block_pos off + 7 + length r"
    and bs: "bs = fragment_bytes off (kFullType, r)"
    by (auto elim!: emitted_ConsE emitted_NilE)
  from assms(3) obtain rd' where rd': "ReadPhysicalRecord ops rd [] = Some (of_nat (RecordType_code kFullType), r, rd')"
    "rd_at rd' off' rem" "rd_reporter rd' = rd_reporter rd"
    using read_fragment [of rd off kFullType r rem "[]"] fit bs off' by auto
  with rd_at_flags [OF assms(3)] rd_at_flags [OF rd'(2)] show ?thesis
    by (simp add: ReadRecord_loop) (subst read_loop.simps, simp add: handle_record_def RecordType_code_inj)
next
  case (record_First fs' r' p)
  from assms(2) obtain bs' where fit: "fits_block off p"
    and em: "emitted (block_pos off + 7 + length p) fs' bs' off'"
    and bs: "bs = fragment_bytes off (kFirstType, p) @ bs'"
    unfolding record_First by (auto elim!: emitted_ConsE)
  from assms(3) obtain rd' where rd': "ReadPhysicalRecord ops rd [] = Some (of_nat (RecordType_code kFirstType), p, rd')"
    "rd_at rd' (block_pos off + 7 + length p) (bs' @ rem)" "rd_reporter rd' = rd_reporter rd"
    using read_fragment [of rd off kFirstType p "bs' @ rem" "[]"] fit bs by auto
  obtain ph where "ReadRecord ops rd rc0 sc0 = read_loop ops rd' p p True ph"
    using first_fragment [OF rd'(1)] rd_at_flags [OF assms(3)] rd_at_flags [OF rd'(2)] by blast
  with read_tail [OF record_First(3) em rd'(2), of p p ph] rd'(3) show ?thesis
    unfolding record_First by auto
qed

lemma read_record_cut:
  assumes "record_frags fs r" "emitted off fs bs off'" "rd_at rd off (take n bs)" "n < length bs"
  shows "\<exists>sc rd'. ReadRecord ops rd rc0 sc0 = Some (False, [], sc, rd') \<and> rd_end rd' \<and> rd_reporter rd' = rd_reporter rd"
proof -
  obtain t p fs' where f: "fs = (t, p) # fs'" "t = kFullType \<or> t = kFirstType"
    using assms(1) by (auto elim!: record_frags.cases)
  from assms(2) obtain bs' where fit: "fits_block off p"
    and em: "emitted (block_pos off + 7 + length p) fs' bs' off'"
    and bs: "bs = fragment_bytes off (t, p) @ bs'"
    unfolding f by (auto elim!: emitted_ConsE)
  let ?fb = "fragment_bytes off (t, p)"
  show ?thesis
  proof (cases "n < length ?fb")
    case True
    with assms(3) bs have "rd_at rd off (take n ?fb)" by simp
    from read_cut [OF this fit True, of "[]"] obtain rd' where rd': "ReadPhysicalRecord ops rd [] = Some (kEof, [], rd')"
      "rd_end rd'" "rd_reporter rd' = rd_reporter rd" by blast
    with rd_at_flags [OF assms(3)] show ?thesis
      by (simp add: ReadRecord_loop) (subst read_loop.simps, simp add: handle_record_def rd_end_def)
  next
    case False
    have "fs' \<noteq> []"
    proof
      assume "fs' = []"
      with em have "bs' = []" by (auto elim: emitted_NilE)
      with False assms(4) bs show False by simp
    qed
    with assms(1) f have tp: "t = kFirstType" "tail_frags fs' (drop (length p) r)"
      by (auto elim!: record_frags.cases)
    from False assms(3) bs have "rd_at rd off (?fb @ take (n - length ?fb) bs')" by simp
    from read_fragment [OF this fit, of "[]"] tp(1) obtain rd' where rd': "ReadPhysicalRecord ops rd [] = Some (of_nat (RecordType_code kFirstType), p, rd')"
      "rd_at rd' (block_pos off + 7 + length p) (take (n - length ?fb) bs')" "rd_reporter rd' = rd_reporter rd"
      by auto
    obtain ph where "ReadRecord ops rd rc0 sc0 = read_loop ops rd' p p True ph"
      using first_fragment [OF rd'(1)] rd_at_flags [OF assms(3)] rd_at_flags [OF rd'(2)] by blast
    moreover have "n - length ?fb < length bs'" using assms(4) bs False by simp
    ultimately show ?thesis using read_tail_cut [OF tp(2) em rd'(2), of p p ph] rd'(3) by auto
  qed
qed

lemma ReadRecord_end:
  "rd_end rd \<Longrightarrow> \<exists>sc rd'. ReadRecord ops rd rc0 sc0 = Some (False, [], sc, rd') \<and> rd_end rd' \<and> rd_reporter rd' = rd_reporter rd"
  using read_end [of rd "[]"]
  by (simp add: ReadRecord_loop rd_end_def) (subst read_loop.simps, simp add: handle_record_def rd_end_def)

end
end
