(* ===== verification/Log_Theorems.thy ===== *)
theory Log_Theorems imports Log_Records begin

section \<open>leveldb: the log survives a crash\<close>

text \<open>
  What a client gets from the log: \<open>add_records\<close> is a client that adds records one after the other,
  \<open>read_records\<close> one that reads until \<open>ReadRecord\<close> fails.
\<close>

subsection \<open>Sequences of records\<close>

primrec add_records :: "'f WritableFile \<Rightarrow> 'f Writer \<Rightarrow> Slice list \<Rightarrow> (Status \<times> 'f Writer) option" where
  "add_records ops w [] = Some (StatusOK, w)"
| "add_records ops w (r # rs) =
     (case AddRecord ops w r of None \<Rightarrow> None
      | Some (s, w') \<Rightarrow> if status_ok s then add_records ops w' rs else Some (s, w'))"

text \<open>\<open>while (ReadRecord(...)) ...\<close>, for at most \<open>n\<close> records.\<close>

primrec read_records :: "'f SequentialFile \<Rightarrow> nat \<Rightarrow> 'f Reader \<Rightarrow> (Slice list \<times> 'f Reader) option" where
  "read_records ops 0 rd = Some ([], rd)"
| "read_records ops (Suc n) rd =
     (case ReadRecord ops rd [] [] of None \<Rightarrow> None
      | Some (ok, r, _, rd') \<Rightarrow>
          if ok then map_option (\<lambda>(rs, rd''). (r # rs, rd'')) (read_records ops n rd') else Some ([], rd'))"

inductive logged :: "nat \<Rightarrow> Slice list \<Rightarrow> u8 list list \<Rightarrow> nat \<Rightarrow> bool" where
  logged_Nil: "off \<le> 32768 \<Longrightarrow> logged off [] [] off"
| logged_Cons: "record_frags fs r \<Longrightarrow> emitted off fs bs off1 \<Longrightarrow> logged off1 rs bss off' \<Longrightarrow>
     logged off (r # rs) (bs # bss) off'"

lemma logged_length: "logged off rs bss off' \<Longrightarrow> length bss = length rs"
  by (induction rule: logged.induct) auto

context writable_file
begin

lemma AddRecord_ok:
  assumes "writer_ok w"
  shows "\<exists>w' fs bs. AddRecord ops w r = Some (StatusOK, w') \<and> writer_ok w' \<and> record_frags fs r \<and>
    emitted (w_block_offset w) fs bs (w_block_offset w') \<and> contents (w_dest w') = contents (w_dest w) @ bs"
  using add_fragments_ok [OF assms, of r True] by (auto simp: AddRecord_def)

lemma add_records_ok:
  "writer_ok w \<Longrightarrow> \<exists>w' bss. add_records ops w rs = Some (StatusOK, w') \<and> writer_ok w' \<and>
     logged (w_block_offset w) rs bss (w_block_offset w') \<and>
     contents (w_dest w') = contents (w_dest w) @ concat bss \<and>
     (\<forall>j \<le> length rs. \<exists>wj. add_records ops w (take j rs) = Some (StatusOK, wj) \<and>
        contents (w_dest wj) = contents (w_dest w) @ concat (take j bss))"
proof (induction rs arbitrary: w)
  case Nil
  then show ?case
    by (intro exI [of _ w] exI [of _ "[]"]) (auto simp: writer_ok_def intro: logged_Nil)
next
  case (Cons r rs)
  obtain w1 fs bs where 1: "AddRecord ops w r = Some (StatusOK, w1)" "writer_ok w1" "record_frags fs r"
    "emitted (w_block_offset w) fs bs (w_block_offset w1)" "contents (w_dest w1) = contents (w_dest w) @ bs"
    using AddRecord_ok [OF Cons.prems] by blast
  obtain w' bss where 2: "add_records ops w1 rs = Some (StatusOK, w')" "writer_ok w'"
    "logged (w_block_offset w1) rs bss (w_block_offset w')" "contents (w_dest w') = contents (w_dest w1) @ concat bss"
    "\<forall>j \<le> length rs. \<exists>wj. add_records ops w1 (take j rs) = Some (StatusOK, wj) \<and>
       contents (w_dest wj) = contents (w_dest w1) @ concat (take j bss)"
    using Cons.IH [OF 1(2)] by blast
  have "\<exists>wj. add_records ops w (take j (r # rs)) = Some (StatusOK, wj) \<and>
       contents (w_dest wj) = contents (w_dest w) @ concat (take j (bs # bss))" if j: "j \<le> length (r # rs)" for j
  proof (cases j)
    case (Suc i)
    then obtain wj where "add_records ops w1 (take i rs) = Some (StatusOK, wj)"
       "contents (w_dest wj) = contents (w_dest w1) @ concat (take i bss)"
      using 2(5) j by auto
    then show ?thesis using Suc 1(1,5) by simp
  qed simp
  then show ?case
    using 1(1) 2(1,2,4) 1(5) logged_Cons [OF 1(3,4) 2(3)]
    by (intro exI [of _ w'] exI [of _ "bs # bss"]) simp
qed

end

context sequential_file
begin

lemma read_records_end:
  "rd_end rd \<Longrightarrow> \<exists>rd'. read_records ops n rd = Some ([], rd') \<and> rd_reporter rd' = rd_reporter rd"
  using ReadRecord_end [of rd "[]" "[]"] by (cases n) auto

lemma read_records_cut:
  "logged off rs bss off' \<Longrightarrow> rd_at rd off (take k (concat bss)) \<Longrightarrow> k \<le> length (concat bss) \<Longrightarrow>
   length rs < N \<Longrightarrow>
   \<exists>m rd'. m \<le> length rs \<and> read_records ops N rd = Some (take m rs, rd') \<and> rd_reporter rd' = rd_reporter rd \<and>
     (\<forall>j \<le> length rs. length (concat (take j bss)) \<le> k \<longrightarrow> j \<le> m)"
proof (induction arbitrary: rd k N rule: logged.induct)
  case (logged_Nil off)
  then obtain N' where N: "N = Suc N'" by (cases N) auto
  have fit: "fits_block off []" using logged_Nil by (auto simp: fits_block_def block_pos_def)
  have "record_frags [(kFullType, [])] []" by (rule record_Full)
  moreover have "emitted off [(kFullType, [])] (fragment_bytes off (kFullType, []) @ []) (block_pos off + 7 + length ([] :: u8 list))"
    by (rule emitted_Cons [OF fit], rule emitted_Nil) (use fit in \<open>simp add: fits_block_def\<close>)
  moreover have "rd_at rd off (take 0 (fragment_bytes off (kFullType, []) @ []))" using logged_Nil by simp
  ultimately obtain sc rd' where "ReadRecord ops rd [] [] = Some (False, [], sc, rd')" "rd_reporter rd' = rd_reporter rd"
    using read_record_cut [of _ _ _ _ _ rd 0] by (metis append_Nil2 fragment_bytes_nonempty)
  then show ?case by (intro exI [of _ 0]) (simp add: N)
next
  case (logged_Cons fs r off bs off1 rs bss off')
  then obtain N' where N: "N = Suc N'" "length rs < N'" by (cases N) auto
  show ?case
  proof (cases "k < length bs")
    case True
    then have "rd_at rd off (take k bs)" using logged_Cons.prems(1) by simp
    from read_record_cut [OF logged_Cons.hyps(1,2) this True] obtain sc rd' where
      "ReadRecord ops rd [] [] = Some (False, [], sc, rd')" "rd_reporter rd' = rd_reporter rd" by blast
    moreover have "j = 0" if "length (concat (take j (bs # bss))) \<le> k" for j
      using that True by (cases j) auto
    ultimately show ?thesis by (intro exI [of _ 0]) (auto simp: N)
  next
    case False
    then have "rd_at rd off (bs @ take (k - length bs) (concat bss))" using logged_Cons.prems(1) by simp
    from read_record [OF logged_Cons.hyps(1,2) this] obtain sc rd1 where 1:
      "ReadRecord ops rd [] [] = Some (True, r, sc, rd1)" "rd_at rd1 off1 (take (k - length bs) (concat bss))"
      "rd_reporter rd1 = rd_reporter rd" by blast
    have "k - length bs \<le> length (concat bss)" using logged_Cons.prems(2) by simp
    from logged_Cons.IH [OF 1(2) this N(2)] obtain m rd' where 2: "m \<le> length rs"
      "read_records ops N' rd1 = Some (take m rs, rd')" "rd_reporter rd' = rd_reporter rd1"
      "\<forall>j \<le> length rs. length (concat (take j bss)) \<le> k - length bs \<longrightarrow> j \<le> m" by blast
    have "j \<le> Suc m" if "j \<le> length (r # rs)" "length (concat (take j (bs # bss))) \<le> k" for j
      using that 2(4) by (cases j) auto
    with 1(1,3) 2(1-3) show ?thesis by (intro exI [of _ "Suc m"] exI [of _ rd']) (auto simp: N)
  qed
qed

end

text \<open>C3: Whatever records are added to a new log, adding them succeeds, and reading the file back,
  cut at any byte (a crash of the writer), returns a prefix of the records, in order and unchanged,
  that has every record whose bytes are all in the file, then reports the end; the reporter is never
  called, with or without checksums.\<close>

theorem log_survives_crash:
  assumes "writable_file wops contents" "sequential_file sops unread"
    and "mk_Writer f 0 = Some w" "contents f = []"
  shows "\<exists>w'. add_records wops w rs = Some (StatusOK, w') \<and>
    (\<forall>k \<le> length (contents (w_dest w')). \<forall>g. unread g = take k (contents (w_dest w')) \<longrightarrow>
      (\<exists>m \<le> length rs. \<exists>rd. read_records sops (Suc (length rs)) (mk_Reader g reporting checksum 0) = Some (take m rs, rd) \<and>
         rd_reporter rd = rd_reporter (mk_Reader g reporting checksum 0) \<and>
         (\<forall>j \<le> length rs. \<forall>wj. add_records wops w (take j rs) = Some (StatusOK, wj) \<and>
            length (contents (w_dest wj)) \<le> k \<longrightarrow> j \<le> m)))"
proof -
  have w: "writer_ok w" "w_block_offset w = 0" "w_dest w = f"
    using assms(3) by (auto simp: mk_Writer_def InitTypeCrc_ok writer_ok_def kBlockSize_def)
  obtain w' bss where 1: "add_records wops w rs = Some (StatusOK, w')"
    "logged 0 rs bss (w_block_offset w')" "contents (w_dest w') = concat bss"
    "\<forall>j \<le> length rs. \<exists>wj. add_records wops w (take j rs) = Some (StatusOK, wj) \<and>
        contents (w_dest wj) = concat (take j bss)"
    using writable_file.add_records_ok [OF assms(1) w(1), of rs] w(2,3) assms(4) by auto
  have "\<exists>m \<le> length rs. \<exists>rd. read_records sops (Suc (length rs)) (mk_Reader g reporting checksum 0) = Some (take m rs, rd) \<and>
         rd_reporter rd = rd_reporter (mk_Reader g reporting checksum 0) \<and>
         (\<forall>j \<le> length rs. \<forall>wj. add_records wops w (take j rs) = Some (StatusOK, wj) \<and>
            length (contents (w_dest wj)) \<le> k \<longrightarrow> j \<le> m)"
    if k: "k \<le> length (contents (w_dest w'))" and g: "unread g = take k (contents (w_dest w'))" for k g
  proof -
    have at: "sequential_file.rd_at unread (mk_Reader g reporting checksum 0) 0 (take k (concat bss))"
      unfolding sequential_file.rd_at_def [OF assms(2)] using g 1(3) by (simp add: mk_Reader_def)
    obtain m rd where 2: "m \<le> length rs"
      "read_records sops (Suc (length rs)) (mk_Reader g reporting checksum 0) = Some (take m rs, rd)"
      "rd_reporter rd = rd_reporter (mk_Reader g reporting checksum 0)"
      "\<forall>j \<le> length rs. length (concat (take j bss)) \<le> k \<longrightarrow> j \<le> m"
      using sequential_file.read_records_cut [OF assms(2) 1(2) at _ lessI] k [unfolded 1(3)] by blast
    moreover have "j \<le> m" if "j \<le> length rs" "add_records wops w (take j rs) = Some (StatusOK, wj)"
      "length (contents (w_dest wj)) \<le> k" for j wj
      using 1(4) 2(4) that by fastforce
    ultimately show ?thesis by blast
  qed
  with 1(1) show ?thesis by blast
qed

theorem log_survives_crash_witness:
  "\<exists>w w'. mk_Writer [] 0 = Some w \<and> add_records memory_writable w [[1], [2, 3]] = Some (StatusOK, w') \<and>
    (\<exists>rd. read_records memory_sequential 3 (mk_Reader (w_dest w') True True 0) = Some ([[1], [2, 3]], rd) \<and>
       rd_reporter rd = Some [])"
proof -
  obtain w where w: "mk_Writer ([] :: u8 list) 0 = Some w" by (simp add: mk_Writer_def InitTypeCrc_ok)
  from log_survives_crash [OF memory_writable.writable_file_axioms memory_sequential.sequential_file_axioms w refl,
      of "[[1], [2, 3]]" True True]
  obtain w' where 1: "add_records memory_writable w [[1], [2, 3]] = Some (StatusOK, w')"
    and 2: "\<And>k g. k \<le> length (w_dest w') \<Longrightarrow> g = take k (w_dest w') \<Longrightarrow>
      (\<exists>m \<le> 2. \<exists>rd. read_records memory_sequential 3 (mk_Reader g True True 0) = Some (take m [[1], [2, 3]], rd) \<and>
         rd_reporter rd = rd_reporter (mk_Reader g True True 0) \<and>
         (\<forall>j \<le> 2. \<forall>wj. add_records memory_writable w (take j [[1], [2, 3]]) = Some (StatusOK, wj) \<and>
            length (w_dest wj) \<le> k \<longrightarrow> j \<le> m))"
    by (auto simp: numeral_eq_Suc)
  obtain m rd where 3: "m \<le> 2" "read_records memory_sequential 3 (mk_Reader (w_dest w') True True 0) = Some (take m [[1], [2, 3]], rd)"
    "rd_reporter rd = rd_reporter (mk_Reader (w_dest w') True True 0)"
    "\<forall>j \<le> 2. \<forall>wj. add_records memory_writable w (take j [[1], [2, 3]]) = Some (StatusOK, wj) \<and>
            length (w_dest wj) \<le> length (w_dest w') \<longrightarrow> j \<le> m"
    using 2 [of "length (w_dest w')" "w_dest w'"] by auto
  then have "2 \<le> m" using 1 by auto
  with 3 have "m = 2" by simp
  with 3 1 w show ?thesis by (intro exI [of _ w] exI [of _ w']) (simp add: mk_Reader_def)
qed

text \<open>C17: A fragment in which one byte of the payload was changed is not delivered: the reader
  reports a checksum mismatch and drops the rest of the block.\<close>

theorem log_detects_corruption:
  assumes "rd_buffer rd = record_header t (xs @ x # ys) @ (xs @ y # ys) @ rest" "x \<noteq> y"
    and "length xs + length ys < 32761" "t \<noteq> kZeroType" "rd_checksum rd"
  shows "parse_record rd res =
    Some (kBadRecord, res, ReportCorruption (rd\<lparr>rd_buffer := []\<rparr>) (of_nat (length (rd_buffer rd))) ''checksum mismatch'')"
proof -
  let ?p = "xs @ x # ys" and ?q = "xs @ y # ys"
  have l: "length ?p \<le> 32761" "length ?q = length ?p" using assms(3) by simp_all
  note h = header_fields [OF l(1), of t]
  have "rd_buffer rd ! i = record_header t ?p ! i" if "i < 7" for i
    using that by (simp add: assms(1) nth_append)
  then have b: "rd_buffer rd ! 4 = record_header t ?p ! 4" "rd_buffer rd ! 5 = record_header t ?p ! 5"
    "rd_buffer rd ! 6 = record_header t ?p ! 6" by simp_all
  have d: "DecodeFixed32 (rd_buffer rd) = Some (Mask (crc32c 0 (of_nat (RecordType_code t) # ?p)))"
    unfolding assms(1) by (rule h(3))
  have "take (1 + length ?p) (drop 6 (rd_buffer rd)) = of_nat (RecordType_code t) # ?q"
    unfolding assms(1) l(2) [symmetric]
    by (simp add: record_header_def EncodeFixed32_le)
  then have v: "Value 0 (take (1 + length ?p) (drop 6 (rd_buffer rd))) = Some (crc32c 0 (of_nat (RecordType_code t) # ?q))"
    using l by (simp add: Value_def Extend_crc)
  have t: "(of_nat (RecordType_code t) :: u32) \<noteq> of_nat (RecordType_code kZeroType)"
    using assms(4) by (simp add: RecordType_code_inj)
  have ne: "crc32c 0 (of_nat (RecordType_code t) # ?q) \<noteq> crc32c 0 (of_nat (RecordType_code t) # ?p)"
    using crc32c_one_byte [of y x 0 "of_nat (RecordType_code t) # xs" ys] assms(2) by simp
  have k: "\<not> kHeaderSize + length ?p > length (rd_buffer rd)"
    unfolding assms(1) by (simp add: kHeaderSize_def)
  show ?thesis
    unfolding parse_record_def Let_def b h(1,2) using d v t ne k assms(5)
    by (simp add: Unmask_Mask)
qed

theorem log_detects_corruption_witness:
  "\<exists>rd :: u8 list Reader. rd_buffer rd = record_header kFullType [1, 2] @ [1, 3] \<and>
     parse_record rd [] = Some (kBadRecord, [], ReportCorruption (rd\<lparr>rd_buffer := []\<rparr>) 9 ''checksum mismatch'')"
  using log_detects_corruption [of "(mk_Reader [] True True 0)\<lparr>rd_buffer := record_header kFullType [1, 2] @ [1, 3]\<rparr>"
      kFullType "[1]" 2 "[]" 3 "[]" "[]"]
  by (intro exI [of _ "(mk_Reader [] True True 0)\<lparr>rd_buffer := record_header kFullType [1, 2] @ [1, 3]\<rparr>"])
     (simp add: mk_Reader_def)

end
