(* ===== verification/Write_Batch.thy ===== *)
theory Write_Batch imports Dbformat Ldb_Status begin

unbundle bit_operations_syntax

section \<open>leveldb: write batches (db/write_batch.cc, db/write_batch_internal.h)\<close>

text \<open>
  A batch is its string \<open>rep_\<close>. \<open>None\<close> is a failing assert, a read outside \<open>rep_\<close>, or the signed
  overflow of the entry count. The \<open>Handler\<close> of \<open>Iterate\<close> is its two virtual functions over a
  state; \<open>MemTableInserter\<close> is the handler that \<open>InsertInto\<close> uses, with the memtable's \<open>Add\<close>.
\<close>

definition kHeader :: nat where
  "kHeader = 12"

definition WriteBatch_Clear :: "u8 list" where
  "WriteBatch_Clear = replicate kHeader 0"

definition ApproximateSize :: "u8 list \<Rightarrow> nat" where
  "ApproximateSize rep = length rep"

definition WriteBatch_Count :: "u8 list \<Rightarrow> int option" where
  "WriteBatch_Count rep = map_option sint (DecodeFixed32 (drop 8 rep))"

definition SetCount :: "u8 list \<Rightarrow> int \<Rightarrow> u8 list option" where
  "SetCount rep n =
     (if 12 \<le> length rep then Some (take 8 rep @ EncodeFixed32 (of_int n) @ drop 12 rep) else None)"

definition WriteBatch_Sequence :: "u8 list \<Rightarrow> u64 option" where
  "WriteBatch_Sequence rep = DecodeFixed64 rep"

definition SetSequence :: "u8 list \<Rightarrow> u64 \<Rightarrow> u8 list option" where
  "SetSequence rep s = (if 8 \<le> length rep then Some (EncodeFixed64 s @ drop 8 rep) else None)"

text \<open>\<open>SetCount(this, Count(this) + n)\<close>, with \<open>int\<close> arithmetic.\<close>

definition add_count :: "u8 list \<Rightarrow> int \<Rightarrow> u8 list option" where
  "add_count rep n = do {
     c \<leftarrow> WriteBatch_Count rep;
     if - (2 ^ 31) \<le> c + n \<and> c + n < 2 ^ 31 then SetCount rep (c + n) else None
   }"

definition type_byte :: "ValueType \<Rightarrow> u8" where
  "type_byte t = ucast (ValueType_byte t)"

definition WriteBatch_Put :: "u8 list \<Rightarrow> Slice \<Rightarrow> Slice \<Rightarrow> u8 list option" where
  "WriteBatch_Put rep key val = do {
     rep \<leftarrow> add_count rep 1;
     let rep = rep @ [type_byte kTypeValue];
     let rep = PutLengthPrefixedSlice rep key;
     Some (PutLengthPrefixedSlice rep val)
   }"

definition WriteBatch_Delete :: "u8 list \<Rightarrow> Slice \<Rightarrow> u8 list option" where
  "WriteBatch_Delete rep key = do {
     rep \<leftarrow> add_count rep 1;
     let rep = rep @ [type_byte kTypeDeletion];
     Some (PutLengthPrefixedSlice rep key)
   }"

definition SetContents :: "Slice \<Rightarrow> u8 list option" where
  "SetContents contents = (if length contents \<ge> kHeader then Some contents else None)"

definition WriteBatch_Append :: "u8 list \<Rightarrow> u8 list \<Rightarrow> u8 list option" where
  "WriteBatch_Append dst src = do {
     n \<leftarrow> WriteBatch_Count src;
     dst \<leftarrow> add_count dst n;
     if length src \<ge> kHeader then Some (dst @ drop kHeader src) else None
   }"

subsection \<open>Iterate\<close>

record 'h Handler =
  handler_Put :: "Slice \<Rightarrow> Slice \<Rightarrow> 'h \<Rightarrow> 'h"
  handler_Delete :: "Slice \<Rightarrow> 'h \<Rightarrow> 'h"

lemma GetVarint32_loop_shorter:
  "GetVarint32_loop p shift r = Some (v, q) \<Longrightarrow> length q < length p"
  by (induction p shift r rule: GetVarint32_loop.induct) (fastforce simp: Let_def split: if_splits)+

lemma GetVarint32_shorter: "length (snd (GetVarint32 input)) \<le> length input"
  by (auto simp: GetVarint32_def GetVarint32Ptr_def GetVarint32PtrFallback_def Let_def
      dest!: GetVarint32_loop_shorter split: option.splits list.splits if_splits)

lemma GetLengthPrefixedSlice_shorter: "length (snd (GetLengthPrefixedSlice input)) \<le> length input"
  using GetVarint32_shorter [of input]
  by (auto simp: GetLengthPrefixedSlice_def split: prod.splits option.splits)

text \<open>The loop, with \<open>found\<close> entries so far; the result is the status, the handler and \<open>found\<close>.\<close>

function iterate_loop :: "'h Handler \<Rightarrow> 'h \<Rightarrow> Slice \<Rightarrow> int \<Rightarrow> Status \<times> 'h \<times> int" where
  "iterate_loop ops h [] found = (StatusOK, h, found)"
| "iterate_loop ops h (tag # input) found =
     (let found = found + 1 in
      if tag = type_byte kTypeValue then
        (case GetLengthPrefixedSlice input of
           (None, _) \<Rightarrow> (Corruption ''bad WriteBatch Put'', h, found)
         | (Some key, input1) \<Rightarrow>
             (case GetLengthPrefixedSlice input1 of
                (None, _) \<Rightarrow> (Corruption ''bad WriteBatch Put'', h, found)
              | (Some val, input2) \<Rightarrow> iterate_loop ops (handler_Put ops key val h) input2 found))
      else if tag = type_byte kTypeDeletion then
        (case GetLengthPrefixedSlice input of
           (None, _) \<Rightarrow> (Corruption ''bad WriteBatch Delete'', h, found)
         | (Some key, input1) \<Rightarrow> iterate_loop ops (handler_Delete ops key h) input1 found)
      else (Corruption ''unknown WriteBatch tag'', h, found))"
  by pat_completeness auto
termination
proof (relation "measure (\<lambda>(ops, h, input, found). length input)", goal_cases)
  case (2 ops h tag input found f p input1 k w input2 v)
  have "length input1 \<le> length input" "length input2 \<le> length input1"
    using GetLengthPrefixedSlice_shorter [of input] GetLengthPrefixedSlice_shorter [of input1] 2
    by (metis snd_conv)+
  then show ?case by simp
next
  case (3 ops h tag input found f p input1 k)
  have "length input1 \<le> length input"
    using GetLengthPrefixedSlice_shorter [of input] 3 by (metis snd_conv)
  then show ?case by simp
qed auto

definition Iterate :: "'h Handler \<Rightarrow> u8 list \<Rightarrow> 'h \<Rightarrow> (Status \<times> 'h) option" where
  "Iterate ops rep h =
     (if length rep < kHeader then Some (Corruption ''malformed WriteBatch (too small)'', h)
      else (case iterate_loop ops h (drop kHeader rep) 0 of (s, h, found) \<Rightarrow>
        if \<not> status_ok s then Some (s, h)
        else do {
          c \<leftarrow> WriteBatch_Count rep;
          Some (if found \<noteq> c then Corruption ''WriteBatch has wrong count'' else StatusOK, h)
        }))"

text \<open>\<open>MemTableInserter\<close>: the state is \<open>sequence_\<close> and the memtable.\<close>

definition MemTableInserter :: "(u64 \<Rightarrow> ValueType \<Rightarrow> Slice \<Rightarrow> Slice \<Rightarrow> 'm \<Rightarrow> 'm) \<Rightarrow> (u64 \<times> 'm) Handler" where
  "MemTableInserter Add =
     \<lparr>handler_Put = (\<lambda>key val (s, mem). (s + 1, Add s kTypeValue key val mem)),
      handler_Delete = (\<lambda>key (s, mem). (s + 1, Add s kTypeDeletion key [] mem))\<rparr>"

definition InsertInto ::
  "(u64 \<Rightarrow> ValueType \<Rightarrow> Slice \<Rightarrow> Slice \<Rightarrow> 'm \<Rightarrow> 'm) \<Rightarrow> u8 list \<Rightarrow> 'm \<Rightarrow> (Status \<times> 'm) option" where
  "InsertInto Add rep mem = do {
     s \<leftarrow> WriteBatch_Sequence rep;
     (st, _, mem) \<leftarrow> Iterate (MemTableInserter Add) rep (s, mem);
     Some (st, mem)
   }"

end
