(* ===== verification/Write_Batch_Facts.thy ===== *)
theory Write_Batch_Facts imports Write_Batch Dbformat_Facts begin

section \<open>leveldb: a write batch is a list of operations\<close>

text \<open>
  The abstract batch is a sequence number and a list of operations, \<open>batch_rep\<close> its representation
  as \<open>rep_\<close>. Every function of the class is the corresponding operation on lists.
\<close>

datatype batch_op = Put_op Slice Slice | Delete_op Slice

fun op_ok :: "batch_op \<Rightarrow> bool" where
  "op_ok (Put_op k v) \<longleftrightarrow> length k < 2 ^ 32 \<and> length v < 2 ^ 32"
| "op_ok (Delete_op k) \<longleftrightarrow> length k < 2 ^ 32"

fun op_bytes :: "batch_op \<Rightarrow> u8 list" where
  "op_bytes (Put_op k v) = 1 # PutLengthPrefixedSlice [] k @ PutLengthPrefixedSlice [] v"
| "op_bytes (Delete_op k) = 0 # PutLengthPrefixedSlice [] k"

fun batch_add :: "u8 list \<Rightarrow> batch_op \<Rightarrow> u8 list option" where
  "batch_add rep (Put_op k v) = WriteBatch_Put rep k v"
| "batch_add rep (Delete_op k) = WriteBatch_Delete rep k"

fun batch_adds :: "u8 list \<Rightarrow> batch_op list \<Rightarrow> u8 list option" where
  "batch_adds rep [] = Some rep"
| "batch_adds rep (x # xs) = Option.bind (batch_add rep x) (\<lambda>rep. batch_adds rep xs)"

fun apply_op :: "'h Handler \<Rightarrow> batch_op \<Rightarrow> 'h \<Rightarrow> 'h" where
  "apply_op hnd (Put_op k v) h = handler_Put hnd k v h"
| "apply_op hnd (Delete_op k) h = handler_Delete hnd k h"

definition batch_rep :: "u64 \<Rightarrow> batch_op list \<Rightarrow> u8 list" where
  "batch_rep s xs = le_bytes 8 (unat s) @ le_bytes 4 (length xs) @ concat (map op_bytes xs)"

lemma type_bytes [simp]: "type_byte kTypeValue = 1" "type_byte kTypeDeletion = 0"
  by (simp_all add: type_byte_def ValueType_byte_def)

lemma Clear_rep: "WriteBatch_Clear = batch_rep 0 []"
proof -
  have "replicate 12 (0 :: u8) = replicate (Suc (Suc (Suc (Suc (Suc (Suc (Suc (Suc (Suc (Suc (Suc (Suc 0)))))))))))) 0"
    by (simp only: numeral_eq_Suc pred_numeral_simps BitM.simps)
  then show ?thesis
    by (simp add: WriteBatch_Clear_def batch_rep_def kHeader_def le_bytes_4 le_bytes_8)
qed

lemma sint_small: "n < 2 ^ 31 \<Longrightarrow> sint (of_nat n :: u32) = int n"
  by (simp add: signed_of_nat signed_take_bit_int_eq_self_iff)

lemma Count_rep:
  assumes "length xs < 2 ^ 31"
  shows "WriteBatch_Count (batch_rep s xs) = Some (int (length xs))"
  using assms
  by (simp add: WriteBatch_Count_def batch_rep_def DecodeFixed32_def decode_fixed32_endian_free sint_small)

lemma SetCount_rep:
  assumes "n < 2 ^ 31"
  shows "SetCount (batch_rep s xs) (int n) = Some (le_bytes 8 (unat s) @ le_bytes 4 n @ concat (map op_bytes xs))"
  using assms by (simp add: SetCount_def batch_rep_def EncodeFixed32_le unsigned_of_nat take_bit_nat_eq_self)

lemma add_count_rep:
  assumes "length xs + n < 2 ^ 31"
  shows "add_count (batch_rep s xs) (int n) =
    Some (le_bytes 8 (unat s) @ le_bytes 4 (length xs + n) @ concat (map op_bytes xs))"
proof -
  have "int (length xs) + int n = int (length xs + n)" by simp
  moreover have "int (length xs + n) < 2 ^ 31"
    using assms by (simp only: of_nat_less_numeral_power_cancel_iff)
  ultimately show ?thesis
    using assms SetCount_rep [OF assms, of s xs]
    by (simp add: add_count_def Count_rep del: of_nat_add flip: of_nat_add)
qed

lemma batch_add_rep:
  assumes "length xs + 1 < 2 ^ 31"
  shows "batch_add (batch_rep s xs) x = Some (batch_rep s (xs @ [x]))"
proof -
  have p: "PutLengthPrefixedSlice dst v = dst @ PutLengthPrefixedSlice [] v" for dst v
    by (rule prefixed.put_appends)
  have c: "add_count (batch_rep s xs) 1 =
      Some (le_bytes 8 (unat s) @ le_bytes 4 (length xs + 1) @ concat (map op_bytes xs))"
    using add_count_rep [OF assms, of s] by simp
  show ?thesis
  proof (cases x)
    case (Put_op k v)
    have "WriteBatch_Put (batch_rep s xs) k v = Some (batch_rep s (xs @ [Put_op k v]))"
      unfolding WriteBatch_Put_def c Let_def
      by (subst p, subst (2) p) (simp add: batch_rep_def)
    with Put_op show ?thesis by simp
  next
    case (Delete_op k)
    have "WriteBatch_Delete (batch_rep s xs) k = Some (batch_rep s (xs @ [Delete_op k]))"
      unfolding WriteBatch_Delete_def c Let_def
      by (subst p) (simp add: batch_rep_def)
    with Delete_op show ?thesis by simp
  qed
qed

lemma batch_adds_rep:
  "length xs + length ys < 2 ^ 31 \<Longrightarrow> batch_adds (batch_rep s xs) ys = Some (batch_rep s (xs @ ys))"
proof (induction ys arbitrary: xs)
  case (Cons y ys)
  have "batch_adds (batch_rep s (xs @ [y])) ys = Some (batch_rep s ((xs @ [y]) @ ys))"
    by (rule Cons.IH) (use Cons.prems in simp)
  with Cons.prems batch_add_rep [of xs s y] show ?case by simp
qed simp

lemma Append_rep:
  assumes "length xs + length ys < 2 ^ 31"
  shows "WriteBatch_Append (batch_rep s xs) (batch_rep t ys) = Some (batch_rep s (xs @ ys))"
proof -
  have "WriteBatch_Count (batch_rep t ys) = Some (int (length ys))" using assms by (simp add: Count_rep)
  moreover have "length (batch_rep t ys) \<ge> kHeader" "drop kHeader (batch_rep t ys) = concat (map op_bytes ys)"
    by (simp_all add: batch_rep_def kHeader_def)
  ultimately show ?thesis
    using add_count_rep [OF assms, of s] by (simp add: WriteBatch_Append_def batch_rep_def)
qed

lemma SetSequence_rep: "SetSequence (batch_rep s xs) t = Some (batch_rep t xs)"
  by (simp add: SetSequence_def batch_rep_def EncodeFixed64_le)

lemma Sequence_rep: "WriteBatch_Sequence (batch_rep s xs) = Some s"
  using unat_u64_less [of s]
  by (simp add: WriteBatch_Sequence_def batch_rep_def DecodeFixed64_def decode_fixed64_endian_free
      del: unat_u64_less)

lemma iterate_loop_rep:
  "\<forall>x \<in> set xs. op_ok x \<Longrightarrow>
   iterate_loop hnd h (concat (map op_bytes xs)) n = (StatusOK, fold (apply_op hnd) xs h, n + int (length xs))"
proof (induction xs arbitrary: h n)
  case (Cons x xs)
  have g: "length v < 2 ^ 32 \<Longrightarrow> GetLengthPrefixedSlice (PutLengthPrefixedSlice [] v @ r) = (Some v, r)" for v r
    by (rule prefixed.get_put)
  have IH: "iterate_loop hnd h (concat (map op_bytes xs)) n =
      (StatusOK, fold (apply_op hnd) xs h, n + int (length xs))" for h n
    using Cons by simp
  show ?case
    using Cons.prems by (cases x) (simp_all add: g IH)
qed simp

lemma Iterate_rep:
  assumes "\<forall>x \<in> set xs. op_ok x" "length xs < 2 ^ 31"
  shows "Iterate hnd (batch_rep s xs) h = Some (StatusOK, fold (apply_op hnd) xs h)"
proof -
  have "\<not> length (batch_rep s xs) < kHeader" "drop kHeader (batch_rep s xs) = concat (map op_bytes xs)"
    by (simp_all add: batch_rep_def kHeader_def)
  with assms show ?thesis by (simp add: Iterate_def iterate_loop_rep Count_rep)
qed

text \<open>What the memtable inserter does for the operations of a batch.\<close>

fun insert_ops :: "(u64 \<Rightarrow> ValueType \<Rightarrow> Slice \<Rightarrow> Slice \<Rightarrow> 'm \<Rightarrow> 'm) \<Rightarrow> u64 \<Rightarrow> batch_op list \<Rightarrow> 'm \<Rightarrow> 'm" where
  "insert_ops Add s [] mem = mem"
| "insert_ops Add s (Put_op k v # xs) mem = insert_ops Add (s + 1) xs (Add s kTypeValue k v mem)"
| "insert_ops Add s (Delete_op k # xs) mem = insert_ops Add (s + 1) xs (Add s kTypeDeletion k [] mem)"

lemma fold_inserter:
  "fold (apply_op (MemTableInserter Add)) xs (s, mem) = (s + of_nat (length xs), insert_ops Add s xs mem)"
  by (induction Add s xs mem rule: insert_ops.induct) (simp_all add: MemTableInserter_def)

text \<open>C10: A write batch replays exactly what was put into it: a cleared batch filled by any sequence
  of \<open>Put\<close> and \<open>Delete\<close>, appended with another one and given a sequence number, is a batch on
  which \<open>Iterate\<close> calls the handler with those operations in that order and returns OK; and
  \<open>InsertInto\<close> adds them to the memtable under consecutive sequence numbers.\<close>

theorem write_batch_replays:
  assumes "\<forall>x \<in> set (xs @ ys). op_ok x" "length xs + length ys < 2 ^ 31"
  shows "\<exists>a b c d. batch_adds WriteBatch_Clear xs = Some a \<and> batch_adds WriteBatch_Clear ys = Some b \<and>
    WriteBatch_Append a b = Some c \<and> SetSequence c s = Some d \<and>
    WriteBatch_Count d = Some (int (length (xs @ ys))) \<and>
    Iterate hnd d h = Some (StatusOK, fold (apply_op hnd) (xs @ ys) h) \<and>
    InsertInto Add d mem = Some (StatusOK, insert_ops Add s (xs @ ys) mem)"
proof (intro exI conjI)
  show "batch_adds WriteBatch_Clear xs = Some (batch_rep 0 xs)" "batch_adds WriteBatch_Clear ys = Some (batch_rep 0 ys)"
    using batch_adds_rep [of "[]" xs 0] batch_adds_rep [of "[]" ys 0] assms(2) by (simp_all add: Clear_rep)
  show "WriteBatch_Append (batch_rep 0 xs) (batch_rep 0 ys) = Some (batch_rep 0 (xs @ ys))"
    by (rule Append_rep [OF assms(2)])
  show "SetSequence (batch_rep 0 (xs @ ys)) s = Some (batch_rep s (xs @ ys))" by (rule SetSequence_rep)
  have n: "length (xs @ ys) < 2 ^ 31" using assms(2) by simp
  show "WriteBatch_Count (batch_rep s (xs @ ys)) = Some (int (length (xs @ ys)))" by (rule Count_rep [OF n])
  show "Iterate hnd (batch_rep s (xs @ ys)) h = Some (StatusOK, fold (apply_op hnd) (xs @ ys) h)"
    by (rule Iterate_rep [OF assms(1) n])
  have "Iterate (MemTableInserter Add) (batch_rep s (xs @ ys)) (s, mem) =
      Some (StatusOK, fold (apply_op (MemTableInserter Add)) (xs @ ys) (s, mem))"
    by (rule Iterate_rep [OF assms(1) n])
  then show "InsertInto Add (batch_rep s (xs @ ys)) mem = Some (StatusOK, insert_ops Add s (xs @ ys) mem)"
    unfolding fold_inserter by (simp add: InsertInto_def Sequence_rep)
qed

theorem write_batch_replays_witness:
  "\<exists>a b c d. batch_adds WriteBatch_Clear [Put_op [1] [2, 3]] = Some a \<and>
    batch_adds WriteBatch_Clear [Delete_op [4]] = Some b \<and> WriteBatch_Append a b = Some c \<and> SetSequence c 7 = Some d \<and>
    InsertInto (\<lambda>s t k v m. m @ [(s, t, k, v)]) d [] =
      Some (StatusOK, [(7, kTypeValue, [1], [2, 3]), (8, kTypeDeletion, [4], [])])"
  using write_batch_replays [of "[Put_op [1] [2, 3]]" "[Delete_op [4]]" 7 "\<lparr>handler_Put = (\<lambda>k v h. h), handler_Delete = (\<lambda>k h. h)\<rparr>"
      "()" "\<lambda>s t k v m. m @ [(s, t, k, v)]" "[]"]
  by auto

end
