(* ===== verification/Filter_Block.thy ===== *)
theory Filter_Block imports Dbformat begin

unbundle bit_operations_syntax

section \<open>leveldb: filter blocks (table/filter_block.cc, table/filter_block.h)\<close>

text \<open>
  The builder keeps its vectors and strings as lists; \<open>tmp_keys_\<close> is only a temporary of
  \<open>GenerateFilter\<close>. \<open>None\<close> is a failing assert, a read outside the block, a shift by 64 bits or
  more, or undefined behaviour of the policy.
\<close>

definition kFilterBaseLg :: nat where
  "kFilterBaseLg = 11"

definition kFilterBase :: u64 where
  "kFilterBase = push_bit kFilterBaseLg 1"

record FilterBlockBuilder =
  fb_keys :: "u8 list"
  fb_start :: "nat list"
  fb_result :: "u8 list"
  fb_offsets :: "u32 list"

definition mk_FilterBlockBuilder :: FilterBlockBuilder where
  "mk_FilterBlockBuilder = \<lparr>fb_keys = [], fb_start = [], fb_result = [], fb_offsets = []\<rparr>"

definition GenerateFilter :: "FilterPolicy \<Rightarrow> FilterBlockBuilder \<Rightarrow> FilterBlockBuilder option" where
  "GenerateFilter policy self =
     (let num_keys = length (fb_start self) in
      if num_keys = 0 then Some (self\<lparr>fb_offsets := fb_offsets self @ [of_nat (length (fb_result self))]\<rparr>)
      else let start' = fb_start self @ [length (fb_keys self)];
               tmp_keys = map (\<lambda>i. take (start' ! (i + 1) - start' ! i) (drop (start' ! i) (fb_keys self)))
                 [0..<num_keys];
               offsets = fb_offsets self @ [of_nat (length (fb_result self))]
           in map_option (\<lambda>r. \<lparr>fb_keys = [], fb_start = [], fb_result = r, fb_offsets = offsets\<rparr>)
                (policy_CreateFilter policy tmp_keys (fb_result self)))"

text \<open>\<open>while (filter_index > filter_offsets_.size()) GenerateFilter();\<close>\<close>

partial_function (option) generate_loop :: "FilterPolicy \<Rightarrow> u64 \<Rightarrow> FilterBlockBuilder \<Rightarrow> FilterBlockBuilder option" where
  "generate_loop policy filter_index self =
     (if unat filter_index > length (fb_offsets self)
      then Option.bind (GenerateFilter policy self) (generate_loop policy filter_index)
      else Some self)"

declare generate_loop.simps [code]

definition StartBlock :: "FilterPolicy \<Rightarrow> FilterBlockBuilder \<Rightarrow> u64 \<Rightarrow> FilterBlockBuilder option" where
  "StartBlock policy self block_offset =
     (let filter_index = block_offset div kFilterBase in
      if unat filter_index \<ge> length (fb_offsets self) then generate_loop policy filter_index self else None)"

definition AddKey :: "FilterBlockBuilder \<Rightarrow> Slice \<Rightarrow> FilterBlockBuilder" where
  "AddKey self key =
     self\<lparr>fb_start := fb_start self @ [length (fb_keys self)], fb_keys := fb_keys self @ key\<rparr>"

definition FilterBlock_Finish :: "FilterPolicy \<Rightarrow> FilterBlockBuilder \<Rightarrow> (Slice \<times> FilterBlockBuilder) option" where
  "FilterBlock_Finish policy self = do {
     self \<leftarrow> (if fb_start self \<noteq> [] then GenerateFilter policy self else Some self);
     let array_offset = (of_nat (length (fb_result self)) :: u32);
     let res = foldl PutFixed32 (fb_result self) (fb_offsets self);
     let res = PutFixed32 res array_offset;
     let res = res @ [of_nat kFilterBaseLg];
     Some (res, self\<lparr>fb_result := res\<rparr>)
   }"

subsection \<open>The reader\<close>

text \<open>\<open>data_\<close> is null in an invalid block, and \<open>num_\<close> is 0 then; \<open>offset_\<close> is an index into the data.\<close>

record FilterBlockReader =
  fr_data :: "u8 list"
  fr_offset :: nat
  fr_num :: nat
  fr_base_lg :: u8

definition mk_FilterBlockReader :: "Slice \<Rightarrow> FilterBlockReader option" where
  "mk_FilterBlockReader contents =
     (let n = length contents; none = \<lparr>fr_data = [], fr_offset = 0, fr_num = 0, fr_base_lg = 0\<rparr> in
      if n < 5 then Some none
      else do {
        last_word \<leftarrow> DecodeFixed32 (drop (n - 5) contents);
        let base_lg = contents ! (n - 1);
        if unat last_word > n - 5 then Some (none\<lparr>fr_base_lg := base_lg\<rparr>)
        else Some \<lparr>fr_data = contents, fr_offset = unat last_word, fr_num = (n - 5 - unat last_word) div 4,
                   fr_base_lg = base_lg\<rparr>
      })"

definition FilterBlock_KeyMayMatch ::
  "FilterPolicy \<Rightarrow> FilterBlockReader \<Rightarrow> u64 \<Rightarrow> Slice \<Rightarrow> bool option" where
  "FilterBlock_KeyMayMatch policy self block_offset key =
     (if unat (fr_base_lg self) \<ge> 64 then None
      else let index = unat (drop_bit (unat (fr_base_lg self)) block_offset) in
        if index < fr_num self then do {
          start' \<leftarrow> DecodeFixed32 (drop (fr_offset self + index * 4) (fr_data self));
          limit' \<leftarrow> DecodeFixed32 (drop (fr_offset self + index * 4 + 4) (fr_data self));
          if start' \<le> limit' \<and> unat limit' \<le> fr_offset self
          then policy_KeyMayMatch policy key (take (unat (limit' - start')) (drop (unat start') (fr_data self)))
          else Some (start' \<noteq> limit')
        }
        else Some True)"

end
