(* ===== verification/Filter_Block_Theorems.thy ===== *)
theory Filter_Block_Theorems imports Filter_Block Dbformat_Facts Bloom_Facts begin

section \<open>leveldb: filter blocks against the contract of a filter policy\<close>

text \<open>
  The locale \<open>filter_policy\<close> is the contract of include/leveldb/filter_policy.h. Bloom filters meet
  it, and the policy on internal keys meets it when the user's does. Inside the locale: the
  builder's state is a list of the keys of each filter (\<open>fb_inv\<close>).
\<close>

subsection \<open>The contract of a filter policy\<close>

locale filter_policy =
  fixes policy :: FilterPolicy and key_ok :: "Slice \<Rightarrow> bool"
  assumes create_filter: "length keys < 2 ^ 31 \<Longrightarrow> \<forall>k \<in> set keys. key_ok k \<Longrightarrow>
    \<exists>f. (\<forall>dst. policy_CreateFilter policy keys dst = Some (dst @ f)) \<and>
      (\<forall>k \<in> set keys. policy_KeyMayMatch policy k f = Some True)"
begin

definition filter_of :: "Slice list \<Rightarrow> u8 list" where
  "filter_of keys = (if keys = [] then [] else the (policy_CreateFilter policy keys []))"

lemma filter_of:
  assumes "length keys < 2 ^ 31" "\<forall>k \<in> set keys. key_ok k" "keys \<noteq> []"
  shows "policy_CreateFilter policy keys dst = Some (dst @ filter_of keys)"
    and "k \<in> set keys \<Longrightarrow> policy_KeyMayMatch policy k (filter_of keys) = Some True"
  using create_filter [OF assms(1,2)] assms(3) by (auto simp: filter_of_def)

text \<open>The policy on internal keys.\<close>

lemma internal_filter_policy: "filter_policy (InternalFilterPolicy policy) (ikey_ok key_ok)"
proof
  fix keys assume k: "length keys < 2 ^ 31" "\<forall>k \<in> set keys. ikey_ok key_ok k"
  have e: "those (map ExtractUserKey keys) = Some (map ikey_user keys)"
    using k(2) by (induction keys) (auto simp: ikey_ok_def ikey_parts)
  obtain f where f: "\<And>dst. policy_CreateFilter policy (map ikey_user keys) dst = Some (dst @ f)"
    "\<forall>k \<in> set (map ikey_user keys). policy_KeyMayMatch policy k f = Some True"
    using create_filter [of "map ikey_user keys"] k by (auto simp: ikey_ok_def)
  have "policy_KeyMayMatch (InternalFilterPolicy policy) x f = Some True" if "x \<in> set keys" for x
    using that k(2) f(2) by (auto simp: InternalFilterPolicy_def ikey_ok_def ikey_parts)
  with f(1) e show "\<exists>f. (\<forall>dst. policy_CreateFilter (InternalFilterPolicy policy) keys dst = Some (dst @ f)) \<and>
      (\<forall>k \<in> set keys. policy_KeyMayMatch (InternalFilterPolicy policy) k f = Some True)"
    by (intro exI [of _ f]) (simp add: InternalFilterPolicy_def)
qed

end

definition bloom_policy :: "nat \<Rightarrow> FilterPolicy" where
  "bloom_policy b =
     \<lparr>policy_Name = map of_char ''leveldb.BuiltinBloomFilter2'', policy_CreateFilter = CreateFilter (mk_BloomFilterPolicy b), policy_KeyMayMatch = KeyMayMatch\<rparr>"

lemma bloom_filter_policy: "b < 2 ^ 31 \<Longrightarrow> filter_policy (bloom_policy b) (\<lambda>_. True)"
proof
  fix keys :: "Slice list" assume "b < 2 ^ 31" "length keys < 2 ^ 31"
  then show "\<exists>f. (\<forall>dst. policy_CreateFilter (bloom_policy b) keys dst = Some (dst @ f)) \<and>
      (\<forall>k \<in> set keys. policy_KeyMayMatch (bloom_policy b) k f = Some True)"
    by (intro exI [of _ "bloom_filter_of (mk_BloomFilterPolicy b) keys"])
       (simp add: bloom_policy_def CreateFilter_appends bloom_no_false_negative)
qed

interpretation bloom10: filter_policy "bloom_policy 10" "\<lambda>_. True"
  by (rule bloom_filter_policy) simp

interpretation internal_bloom10: filter_policy "InternalFilterPolicy (bloom_policy 10)" "ikey_ok (\<lambda>_. True)"
  by (rule bloom10.internal_filter_policy)

subsection \<open>The builder\<close>

fun starts_of :: "nat \<Rightarrow> Slice list \<Rightarrow> nat list" where
  "starts_of n [] = []"
| "starts_of n (k # ks) = n # starts_of (n + length k) ks"

lemma length_starts_of [simp]: "length (starts_of n ks) = length ks"
  by (induction ks arbitrary: n) auto

lemma starts_of_snoc: "starts_of n (ks @ [k]) = starts_of n ks @ [n + length (concat ks)]"
  by (induction ks arbitrary: n) auto

lemma split_keys:
  "i < length ks \<Longrightarrow> (let s = starts_of (length pre) ks @ [length pre + length (concat ks)] in
     take (s ! (i + 1) - s ! i) (drop (s ! i) (pre @ concat ks))) = ks ! i"
proof (induction ks arbitrary: i pre)
  case (Cons k ks)
  show ?case
  proof (cases i)
    case 0
    have "(starts_of (length pre + length k) ks @ [length pre + (length k + length (concat ks))]) ! 0
        = length pre + length k"
      by (cases ks) auto
    with 0 show ?thesis by (simp add: Let_def)
  next
    case (Suc j)
    with Cons.prems Cons.IH [of j "pre @ k"] show ?thesis by (simp add: Let_def add.assoc)
  qed
qed simp

context filter_policy
begin

text \<open>\<open>gs\<close>: the keys of the filters generated so far; \<open>ks\<close>: the keys collected for the next one.\<close>

definition offsets_of :: "Slice list list \<Rightarrow> u32 list" where
  "offsets_of gs = map (\<lambda>i. of_nat (length (concat (map filter_of (take i gs))))) [0..<length gs]"

definition fb_inv :: "FilterBlockBuilder \<Rightarrow> Slice list list \<Rightarrow> Slice list \<Rightarrow> bool" where
  "fb_inv b gs ks \<longleftrightarrow> fb_keys b = concat ks \<and> fb_start b = starts_of 0 ks \<and>
     fb_result b = concat (map filter_of gs) \<and> fb_offsets b = offsets_of gs \<and>
     length ks < 2 ^ 31 \<and> (\<forall>k \<in> set ks. key_ok k)"

lemma offsets_of_snoc: "offsets_of (gs @ [ks]) = offsets_of gs @ [of_nat (length (concat (map filter_of gs)))]"
  by (simp add: offsets_of_def)

lemma GenerateFilter_inv:
  assumes "fb_inv b gs ks"
  shows "\<exists>b'. GenerateFilter policy b = Some b' \<and> fb_inv b' (gs @ [ks]) []"
proof (cases "ks = []")
  case True
  with assms show ?thesis
    by (simp add: GenerateFilter_def fb_inv_def offsets_of_snoc filter_of_def)
next
  case False
  have tmp: "map (\<lambda>i. take ((starts_of 0 ks @ [length (concat ks)]) ! Suc i - (starts_of 0 ks @ [length (concat ks)]) ! i)
      (drop ((starts_of 0 ks @ [length (concat ks)]) ! i) (concat ks))) [0..<length ks] = ks"
    using split_keys [of _ ks "[]"] by (intro nth_equalityI) (simp_all add: Let_def)
  have "policy_CreateFilter policy ks (fb_result b) = Some (fb_result b @ filter_of ks)"
    using assms False by (intro filter_of(1)) (simp_all add: fb_inv_def)
  with assms False show ?thesis
    by (simp add: GenerateFilter_def fb_inv_def Let_def tmp offsets_of_snoc)
qed

lemma generate_loop_inv:
  assumes "fb_inv b gs ks"
  shows "\<exists>b'. generate_loop policy i b = Some b' \<and>
    (if length gs < unat i then fb_inv b' (gs @ ks # replicate (unat i - length gs - 1) []) []
     else fb_inv b' gs ks)"
  using assms
proof (induction "unat i - length gs" arbitrary: b gs ks)
  case 0
  then have "\<not> length gs < unat i" "length (fb_offsets b) = length gs" by (simp_all add: fb_inv_def offsets_of_def)
  with 0 show ?case by (simp add: generate_loop.simps [of policy i b])
next
  case (Suc n)
  then have lt: "length gs < unat i" by simp
  obtain b1 where b1: "GenerateFilter policy b = Some b1" "fb_inv b1 (gs @ [ks]) []"
    using GenerateFilter_inv [OF Suc.prems] by blast
  have "n = unat i - length (gs @ [ks])" using Suc.hyps(2) by simp
  from Suc.hyps(1) [OF this b1(2)] obtain b' where b': "generate_loop policy i b1 = Some b'"
    "if length (gs @ [ks]) < unat i then fb_inv b' ((gs @ [ks]) @ [] # replicate (unat i - length (gs @ [ks]) - 1) []) []
     else fb_inv b' (gs @ [ks]) []" by blast
  have "length (fb_offsets b) = length gs" using Suc.prems by (simp add: fb_inv_def offsets_of_def)
  then have "generate_loop policy i b = Some b'"
    using lt b1(1) b'(1) by (simp add: generate_loop.simps [of policy i b])
  moreover have "fb_inv b' (gs @ ks # replicate (unat i - length gs - 1) []) []"
  proof (cases "length (gs @ [ks]) < unat i")
    case True
    then have "replicate (unat i - length gs - 1) ([] :: Slice list) = [] # replicate (unat i - length (gs @ [ks]) - 1) []"
      by (cases "unat i - length gs - 1") auto
    with b'(2) True show ?thesis by simp
  next
    case False
    then have "unat i - length gs - 1 = 0" using lt by simp
    with b'(2) False show ?thesis by simp
  qed
  ultimately show ?case using lt by auto
qed

lemma AddKey_inv:
  "fb_inv b gs ks \<Longrightarrow> key_ok k \<Longrightarrow> length ks + 1 < 2 ^ 31 \<Longrightarrow> fb_inv (AddKey b k) gs (ks @ [k])"
  by (auto simp: fb_inv_def AddKey_def starts_of_snoc)

end

section \<open>leveldb: a filter block has no false negatives\<close>

text \<open>
  The bytes that \<open>Finish\<close> returns, what the reader finds in them, and the composition: every key of
  every data block passes the filter of its block.
\<close>

context filter_policy
begin

lemma length_offsets_of: "length (offsets_of gs) = length gs"
  by (simp add: offsets_of_def)

definition block_contents :: "Slice list list \<Rightarrow> u8 list" where
  "block_contents gs =
     (let r = concat (map filter_of gs) in
      r @ concat (map (\<lambda>x. le_bytes 4 (unat x)) (offsets_of gs @ [of_nat (length r)])) @ [11])"

lemma Finish_inv:
  assumes "fb_inv b gs ks"
  shows "\<exists>b'. FilterBlock_Finish policy b =
    Some (block_contents (if ks = [] then gs else gs @ [ks]), b')"
proof -
  have fin: "FilterBlock_Finish policy b0 = Some (block_contents g, b0\<lparr>fb_result := block_contents g\<rparr>)"
    if "fb_inv b0 g []" for b0 g
    using that by (simp add: FilterBlock_Finish_def fb_inv_def foldl_PutFixed32 PutFixed32_def EncodeFixed32_le
        block_contents_def Let_def kFilterBaseLg_def)
  show ?thesis
  proof (cases "ks = []")
    case True
    with fin [of b gs] assms show ?thesis by simp
  next
    case False
    obtain b1 where b1: "GenerateFilter policy b = Some b1" "fb_inv b1 (gs @ [ks]) []"
      using GenerateFilter_inv [OF assms] by blast
    have "fb_start b \<noteq> []" using assms False by (cases ks) (auto simp: fb_inv_def)
    then have "FilterBlock_Finish policy b = FilterBlock_Finish policy b1"
      using b1 by (simp add: FilterBlock_Finish_def fb_inv_def)
    with fin [OF b1(2)] False show ?thesis by simp
  qed
qed

lemma length_block_contents:
  "length (block_contents gs) = length (concat (map filter_of gs)) + 4 * length gs + 5"
proof -
  have "length (concat (map (\<lambda>x. le_bytes 4 (unat x)) xs)) = 4 * length xs" for xs :: "u32 list"
    by (induction xs) simp_all
  from this [of "offsets_of gs"] show ?thesis by (simp add: block_contents_def Let_def length_offsets_of)
qed

lemma read_block:
  assumes len: "length (block_contents gs) < 2 ^ 32"
  shows "mk_FilterBlockReader (block_contents gs) =
    Some \<lparr>fr_data = block_contents gs, fr_offset = length (concat (map filter_of gs)), fr_num = length gs,
      fr_base_lg = 11\<rparr>"
proof -
  let ?r = "concat (map filter_of gs)" and ?c = "block_contents gs"
  let ?offs = "concat (map (\<lambda>x. le_bytes 4 (unat x)) (offsets_of gs))"
  have lo: "length ?offs = 4 * length gs"
    using length_block_contents [of gs] by (simp add: block_contents_def Let_def)
  have c: "?c = (?r @ ?offs) @ le_bytes 4 (unat (of_nat (length ?r) :: u32)) @ [11]"
    by (simp add: block_contents_def Let_def)
  have n: "length ?c = length ?r + 4 * length gs + 5" by (rule length_block_contents)
  have small: "length ?r < 2 ^ 32" using len n by simp
  then have u: "unat (of_nat (length ?r) :: u32) = length ?r" by (simp add: unsigned_of_nat take_bit_nat_eq_self)
  have "drop (length ?c - 5) ?c = le_bytes 4 (length ?r) @ [11]"
    unfolding n using lo u by (subst c) simp
  then have d: "DecodeFixed32 (drop (length ?c - 5) ?c) = Some (of_nat (length ?r))"
    using small by (simp add: DecodeFixed32_def decode_fixed32_endian_free)
  have "?c ! (length ?c - 1) = 11"
    unfolding n using lo by (subst c) (simp add: nth_append)
  with d n u show ?thesis by (simp add: mk_FilterBlockReader_def Let_def)
qed

lemma prefix_lengths:
  assumes "length (concat (map filter_of gs)) < 2 ^ 32" "i < length gs"
  shows "unat (of_nat (length (concat (map filter_of (take i gs)))) :: u32) = length (concat (map filter_of (take i gs)))"
    and "length (concat (map filter_of (take (Suc i) gs))) = length (concat (map filter_of (take i gs))) + length (filter_of (gs ! i))"
    and "length (concat (map filter_of (take (Suc i) gs))) \<le> length (concat (map filter_of gs))"
    and "take (length (filter_of (gs ! i))) (drop (length (concat (map filter_of (take i gs)))) (concat (map filter_of gs) @ rest)) = filter_of (gs ! i)"
proof -
  let ?p = "\<lambda>i. concat (map filter_of (take i gs))"
  have split: "concat (map filter_of gs) = ?p i @ filter_of (gs ! i) @ concat (map filter_of (drop (Suc i) gs))"
    using id_take_nth_drop [OF assms(2)] by (metis concat.simps(2) concat_append list.simps(9) map_append)
  show s: "length (?p (Suc i)) = length (?p i) + length (filter_of (gs ! i))"
    using assms(2) by (simp add: take_Suc_conv_app_nth)
  show "length (?p (Suc i)) \<le> length (concat (map filter_of gs))" unfolding split s by simp
  then show "unat (of_nat (length (?p i)) :: u32) = length (?p i)"
    using assms(1) s by (simp add: unsigned_of_nat take_bit_nat_eq_self)
  show "take (length (filter_of (gs ! i))) (drop (length (?p i)) (concat (map filter_of gs) @ rest)) = filter_of (gs ! i)"
    unfolding split by simp
qed

lemma reader_offsets:
  assumes "i \<le> length gs"
  shows "DecodeFixed32 (drop (length (concat (map filter_of gs)) + i * 4) (block_contents gs)) =
    Some (of_nat (length (concat (map filter_of (take i gs)))))"
proof -
  let ?r = "concat (map filter_of gs)"
  have "drop (length ?r + i * 4) (block_contents gs) =
      drop (4 * i) (concat (map (\<lambda>x. le_bytes 4 (unat x)) (offsets_of gs @ [of_nat (length ?r)])) @ [11])"
    by (simp add: block_contents_def Let_def mult.commute)
  moreover have "(offsets_of gs @ [of_nat (length ?r)]) ! i = of_nat (length (concat (map filter_of (take i gs))))"
    using assms by (auto simp: offsets_of_def nth_append)
  ultimately show ?thesis
    using nth_fixed32 [of i "offsets_of gs @ [of_nat (length ?r)]" "[11]"] assms by (simp add: offsets_of_def)
qed

lemma reader_finds:
  assumes len: "length (block_contents gs) < 2 ^ 32" and i: "i < length gs" "unat (drop_bit 11 off) = i"
    and k: "k \<in> set (gs ! i)" "length (gs ! i) < 2 ^ 31" "\<forall>k \<in> set (gs ! i). key_ok k"
  shows "\<exists>rd. mk_FilterBlockReader (block_contents gs) = Some rd \<and>
    FilterBlock_KeyMayMatch policy rd off k = Some True"
proof -
  let ?r = "concat (map filter_of gs)" and ?p = "\<lambda>i. concat (map filter_of (take i gs))"
  have small: "length ?r < 2 ^ 32" using len length_block_contents [of gs] by simp
  note pl = prefix_lengths [OF small i(1)]
  have u2: "unat (of_nat (length (?p (Suc i))) :: u32) = length (?p (Suc i))"
    using pl(3) small by (simp add: unsigned_of_nat take_bit_nat_eq_self)
  have le: "(of_nat (length (?p i)) :: u32) \<le> of_nat (length (?p (Suc i)))"
    unfolding word_le_nat_alt pl(1) u2 using pl(2) by linarith
  have diff: "unat (of_nat (length (?p (Suc i))) - of_nat (length (?p i)) :: u32) = length (filter_of (gs ! i))"
    using unat_sub [OF le] pl(2) unfolding pl(1) u2 by linarith
  have f: "take (length (filter_of (gs ! i))) (drop (length (?p i)) (block_contents gs)) = filter_of (gs ! i)"
    unfolding block_contents_def Let_def by (rule pl(4))
  have "gs ! i \<noteq> []" using k(1) by auto
  from filter_of(2) [OF k(2,3) this k(1)] have m: "policy_KeyMayMatch policy k (filter_of (gs ! i)) = Some True" .
  have o1: "DecodeFixed32 (drop (length ?r + i * 4) (block_contents gs)) = Some (of_nat (length (?p i)))"
    by (rule reader_offsets) (use i in simp)
  have o2: "DecodeFixed32 (drop (length ?r + i * 4 + 4) (block_contents gs)) = Some (of_nat (length (?p (Suc i))))"
    using reader_offsets [of "Suc i" gs] i(1) by (simp add: add.commute add.left_commute)
  show ?thesis
    unfolding read_block [OF len]
    by (rule exI, rule conjI, rule refl)
       (simp add: FilterBlock_KeyMayMatch_def i o1 o2 le u2 pl(1,3) diff f m)
qed

end

subsection \<open>From the builder to the reader\<close>

text \<open>A table builder: the blocks, each with its offset and its keys, one after the other.\<close>

fun build_blocks :: "FilterPolicy \<Rightarrow> FilterBlockBuilder \<Rightarrow> (u64 \<times> Slice list) list \<Rightarrow> FilterBlockBuilder option" where
  "build_blocks policy b [] = Some b"
| "build_blocks policy b ((off, ks) # bl) =
     Option.bind (StartBlock policy b off) (\<lambda>b. build_blocks policy (foldl AddKey b ks) bl)"

definition filter_index :: "u64 \<Rightarrow> nat" where
  "filter_index off = unat (off div kFilterBase)"

lemma filter_index_shift: "filter_index off = unat (drop_bit 11 off)"
  by (simp add: filter_index_def kFilterBase_def kFilterBaseLg_def drop_bit_eq_div)

context filter_policy
begin

definition placed :: "Slice list list \<Rightarrow> Slice list \<Rightarrow> u64 \<times> Slice list \<Rightarrow> bool" where
  "placed gs ks blk \<longleftrightarrow> (\<forall>k \<in> set (snd blk). let i = filter_index (fst blk) in
     i < length gs \<and> k \<in> set (gs ! i) \<or> i = length gs \<and> k \<in> set ks)"

definition bounded_groups :: "Slice list list \<Rightarrow> bool" where
  "bounded_groups gs \<longleftrightarrow> (\<forall>ks \<in> set gs. length ks < 2 ^ 31 \<and> (\<forall>k \<in> set ks. key_ok k))"

lemma AddKeys_inv:
  "fb_inv b gs ks \<Longrightarrow> \<forall>k \<in> set ks'. key_ok k \<Longrightarrow> length ks + length ks' < 2 ^ 31 \<Longrightarrow>
     fb_inv (foldl AddKey b ks') gs (ks @ ks')"
proof (induction ks' arbitrary: b ks)
  case (Cons k ks')
  then show ?case using AddKey_inv [of b gs ks k] Cons.IH [of "AddKey b k" "ks @ [k]"] by simp
qed simp

lemma placed_AddKeys: "placed gs ks blk \<Longrightarrow> placed gs (ks @ new) blk"
  by (auto simp: placed_def Let_def)

text \<open>One call of \<open>StartBlock\<close>: what is placed stays placed, and no key is lost.\<close>

lemma StartBlock_inv:
  assumes "fb_inv b gs ks" "bounded_groups gs" "length gs \<le> filter_index off" "\<forall>blk \<in> D. placed gs ks blk"
  shows "\<exists>b' gs' ks'. StartBlock policy b off = Some b' \<and> fb_inv b' gs' ks' \<and> bounded_groups gs' \<and>
    length gs' = filter_index off \<and> concat gs' @ ks' = concat gs @ ks \<and> (\<forall>blk \<in> D. placed gs' ks' blk)"
proof -
  let ?i = "filter_index off"
  have lo: "length (fb_offsets b) = length gs" using assms(1) by (simp add: fb_inv_def offsets_of_def)
  obtain b1 where b1: "generate_loop policy (off div kFilterBase) b = Some b1"
    "if length gs < ?i then fb_inv b1 (gs @ ks # replicate (?i - length gs - 1) []) [] else fb_inv b1 gs ks"
    using generate_loop_inv [OF assms(1), of "off div kFilterBase"]
    unfolding filter_index_def by blast
  define gs1 where "gs1 = (if length gs < ?i then gs @ ks # replicate (?i - length gs - 1) [] else gs)"
  define ks1 where "ks1 = (if length gs < ?i then [] else ks)"
  have inv1: "fb_inv b1 gs1 ks1" and l1: "length gs1 = ?i" using b1(2) assms(3) by (auto simp: gs1_def ks1_def)
  have "StartBlock policy b off = Some b1"
    using b1(1) assms(3) lo by (simp add: StartBlock_def Let_def filter_index_def)
  moreover have "bounded_groups gs1"
    using assms(1,2) by (auto simp: bounded_groups_def gs1_def fb_inv_def)
  moreover have "placed gs1 ks1 x" if "x \<in> D" for x
    using assms(4) that assms(3) by (force simp: placed_def gs1_def ks1_def nth_append Let_def)
  moreover have "concat gs1 @ ks1 = concat gs @ ks" by (simp add: gs1_def ks1_def)
  ultimately show ?thesis using inv1 l1 by blast
qed

lemma build_blocks_inv:
  assumes "fb_inv b gs ks" "bounded_groups gs"
    and "sorted (length gs # map (\<lambda>blk. filter_index (fst blk)) bl)"
    and "\<forall>blk \<in> set bl. \<forall>k \<in> set (snd blk). key_ok k"
    and "length (concat gs @ ks) + length (concat (map snd bl)) < 2 ^ 31" "\<forall>blk \<in> set done. placed gs ks blk"
  shows "\<exists>b' gs' ks'. build_blocks policy b bl = Some b' \<and> fb_inv b' gs' ks' \<and> bounded_groups gs' \<and>
    (\<forall>blk \<in> set (done @ bl). placed gs' ks' blk)"
  using assms
proof (induction bl arbitrary: b gs ks "done")
  case (Cons blk bl)
  obtain off new where blk: "blk = (off, new)" by (cases blk)
  have ge: "length gs \<le> filter_index off" using Cons.prems(3) blk by simp
  obtain b1 gs1 ks1 where b1: "StartBlock policy b off = Some b1" "fb_inv b1 gs1 ks1" "bounded_groups gs1"
    "length gs1 = filter_index off" "concat gs1 @ ks1 = concat gs @ ks" "\<forall>x \<in> set done. placed gs1 ks1 x"
    using StartBlock_inv [OF Cons.prems(1,2) ge Cons.prems(6)] by blast
  have len: "length (concat gs1 @ ks1 @ new) + length (concat (map snd bl)) < 2 ^ 31"
    using Cons.prems(5) blk arg_cong [OF b1(5), of length] by simp
  have inv2: "fb_inv (foldl AddKey b1 new) gs1 (ks1 @ new)"
    by (rule AddKeys_inv [OF b1(2)]) (use Cons.prems(4) blk len in auto)
  have sorted: "sorted (length gs1 # map (\<lambda>blk. filter_index (fst blk)) bl)"
    using Cons.prems(3) blk b1(4) by simp
  have "placed gs1 (ks1 @ new) (off, new)" using b1(4) by (simp add: placed_def Let_def)
  then have "\<forall>x \<in> set (done @ [(off, new)]). placed gs1 (ks1 @ new) x" using b1(6) placed_AddKeys by auto
  from Cons.IH [OF inv2 b1(3) sorted _ len this] Cons.prems(4) obtain b' gs' ks' where
    "build_blocks policy (foldl AddKey b1 new) bl = Some b'" "fb_inv b' gs' ks'" "bounded_groups gs'"
    "\<forall>blk \<in> set ((done @ [(off, new)]) @ bl). placed gs' ks' blk" by auto
  then show ?case using b1(1) blk by auto
qed auto

lemma filter_block_complete:
  assumes "sorted (map (\<lambda>blk. filter_index (fst blk)) bl)" "\<forall>blk \<in> set bl. \<forall>k \<in> set (snd blk). key_ok k"
    and "length (concat (map snd bl)) < 2 ^ 31"
  shows "\<exists>b contents b'. build_blocks policy mk_FilterBlockBuilder bl = Some b \<and>
    FilterBlock_Finish policy b = Some (contents, b') \<and>
    (length contents < 2 ^ 32 \<longrightarrow> (\<forall>off ks k. (off, ks) \<in> set bl \<and> k \<in> set ks \<longrightarrow>
       (\<exists>rd. mk_FilterBlockReader contents = Some rd \<and> FilterBlock_KeyMayMatch policy rd off k = Some True)))"
proof -
  have inv0: "fb_inv mk_FilterBlockBuilder [] []"
    by (simp add: fb_inv_def mk_FilterBlockBuilder_def offsets_of_def)
  obtain b gs ks where b: "build_blocks policy mk_FilterBlockBuilder bl = Some b" "fb_inv b gs ks" "bounded_groups gs"
    "\<forall>blk \<in> set bl. placed gs ks blk"
    using build_blocks_inv [OF inv0, of bl "[]"] assms by (auto simp: bounded_groups_def)
  define gs' where "gs' = (if ks = [] then gs else gs @ [ks])"
  obtain b' where fin: "FilterBlock_Finish policy b = Some (block_contents gs', b')"
    using Finish_inv [OF b(2)] unfolding gs'_def by blast
  have bg: "bounded_groups gs'" using b(2,3) by (auto simp: gs'_def bounded_groups_def fb_inv_def)
  have "\<exists>rd. mk_FilterBlockReader (block_contents gs') = Some rd \<and> FilterBlock_KeyMayMatch policy rd off k = Some True"
    if "length (block_contents gs') < 2 ^ 32" "(off, new) \<in> set bl" "k \<in> set new" for off new k
  proof -
    let ?i = "filter_index off"
    have "?i < length gs' \<and> k \<in> set (gs' ! ?i)"
      using b(4) that(2,3) by (force simp: placed_def gs'_def nth_append Let_def)
    then have i: "?i < length gs'" and k: "k \<in> set (gs' ! ?i)" by auto
    then have "gs' ! ?i \<in> set gs'" by simp
    with bg have g: "length (gs' ! ?i) < 2 ^ 31" "\<forall>k \<in> set (gs' ! ?i). key_ok k"
      by (auto simp: bounded_groups_def)
    show ?thesis
      by (rule reader_finds [OF that(1) i filter_index_shift [symmetric] k g])
  qed
  with b(1) fin show ?thesis by blast
qed

end

text \<open>C11: For any filter policy that meets its contract: a table's blocks, at non-decreasing offsets,
  are fed to the builder, the finished block (of less than 4 GB) is opened by the reader, and then
  every key of every block passes the filter at its block's offset; no assert fails on the way.\<close>

theorem filter_block_no_false_negatives:
  assumes "filter_policy policy key_ok"
    and "sorted (map (\<lambda>blk. filter_index (fst blk)) bl)" "\<forall>blk \<in> set bl. \<forall>k \<in> set (snd blk). key_ok k"
    and "length (concat (map snd bl)) < 2 ^ 31"
  shows "\<exists>b contents b'. build_blocks policy mk_FilterBlockBuilder bl = Some b \<and>
    FilterBlock_Finish policy b = Some (contents, b') \<and>
    (length contents < 2 ^ 32 \<longrightarrow> (\<forall>off ks k. (off, ks) \<in> set bl \<and> k \<in> set ks \<longrightarrow>
       (\<exists>rd. mk_FilterBlockReader contents = Some rd \<and> FilterBlock_KeyMayMatch policy rd off k = Some True)))"
  by (rule filter_policy.filter_block_complete [OF assms])

lemma length_bloom_filter_of:
  "length (bloom_filter_of self keys) = unat (bloom_bytes self (length keys)) + 1"
proof -
  obtain arr where "add_keys (num_probes self) keys (bloom_bytes self (length keys) * 8)
      (replicate (unat (bloom_bytes self (length keys))) 0) = Some arr" "length arr = unat (bloom_bytes self (length keys))"
    using add_keys_total by (metis length_replicate)
  then show ?thesis by (simp add: bloom_filter_of_def CreateFilter_def Let_def)
qed

theorem filter_block_no_false_negatives_witness:
  "\<exists>b contents b' rd. build_blocks (bloom_policy 10) mk_FilterBlockBuilder [(0, [[1]])] = Some b \<and>
    FilterBlock_Finish (bloom_policy 10) b = Some (contents, b') \<and>
    mk_FilterBlockReader contents = Some rd \<and> FilterBlock_KeyMayMatch (bloom_policy 10) rd 0 [1] = Some True"
proof -
  obtain b contents b' where b: "build_blocks (bloom_policy 10) mk_FilterBlockBuilder [(0, [[1]])] = Some b"
    "FilterBlock_Finish (bloom_policy 10) b = Some (contents, b')"
    "length contents < 2 ^ 32 \<longrightarrow> (\<forall>off ks k. (off, ks) \<in> set [(0, [[1]])] \<and> k \<in> set ks \<longrightarrow>
       (\<exists>rd. mk_FilterBlockReader contents = Some rd \<and>
          FilterBlock_KeyMayMatch (bloom_policy 10) rd off k = Some True))"
    using filter_block_no_false_negatives [OF bloom_filter_policy [of 10], of "[(0, [[1]])]"] by auto
  have "b = AddKey mk_FilterBlockBuilder [1]"
    using b(1) by (simp add: StartBlock_def mk_FilterBlockBuilder_def generate_loop.simps Let_def)
  moreover have "bloom10.fb_inv (AddKey mk_FilterBlockBuilder [1]) [] [[1]]"
    by (simp add: bloom10.fb_inv_def AddKey_def mk_FilterBlockBuilder_def bloom10.offsets_of_def)
  ultimately have "contents = bloom10.block_contents [[[1]]]"
    using bloom10.Finish_inv b(2) by fastforce
  moreover have "bloom10.filter_of [[1]] = bloom_filter_of (mk_BloomFilterPolicy 10) [[1]]"
    unfolding bloom10.filter_of_def by (simp add: bloom_policy_def CreateFilter_appends)
  ultimately have "length contents < 2 ^ 32"
    by (simp add: bloom10.length_block_contents length_bloom_filter_of bloom_bytes_def mk_BloomFilterPolicy_def)
  with b show ?thesis by auto
qed

section \<open>leveldb: filter policies with filters of bounded size\<close>

text \<open>
  A table has to fit in a file; the locale adds to the contract of a filter policy a number of bytes that a filter takes
  per key at most, and that a lookup of any key in any filter returns. Bloom filters meet it, and so do the filters on internal keys.
\<close>

locale sized_filter_policy = filter_policy policy key_ok for policy :: FilterPolicy and key_ok :: "Slice \<Rightarrow> bool" +
  fixes per_key :: nat
  assumes filter_size: "keys \<noteq> [] \<Longrightarrow> length keys < 2 ^ 31 \<Longrightarrow> \<forall>k \<in> set keys. key_ok k \<Longrightarrow>
    policy_CreateFilter policy keys [] = Some f \<Longrightarrow> length f \<le> per_key * length keys"
    and may_match_total: "key_ok k \<Longrightarrow> policy_KeyMayMatch policy k g \<noteq> None"
begin

lemma length_filter_of:
  assumes "length keys < 2 ^ 31" "\<forall>k \<in> set keys. key_ok k"
  shows "length (filter_of keys) \<le> per_key * length keys"
proof (cases "keys = []")
  case False
  from filter_size [OF False assms] filter_of(1) [OF assms False, of "[]"] show ?thesis by simp
qed (simp add: filter_of_def)

lemma length_block_contents_bound:
  assumes "bounded_groups gs"
  shows "length (block_contents gs) \<le> per_key * length (concat gs) + 4 * length gs + 5"
proof -
  have "length (concat (map filter_of gs)) \<le> per_key * length (concat gs)"
    using assms
  proof (induction gs)
    case (Cons g gs)
    then have "length (filter_of g) \<le> per_key * length g"
      by (intro length_filter_of) (simp_all add: bounded_groups_def)
    with Cons show ?case by (simp add: bounded_groups_def algebra_simps)
  qed simp
  then show ?thesis by (simp add: length_block_contents)
qed

lemma internal_sized_filter_policy: "sized_filter_policy (InternalFilterPolicy policy) (ikey_ok key_ok) per_key"
proof (rule sized_filter_policy.intro [OF internal_filter_policy], rule sized_filter_policy_axioms.intro)
  fix keys :: "Slice list" and f
  assume a: "keys \<noteq> []" "length keys < 2 ^ 31" "\<forall>k \<in> set keys. ikey_ok key_ok k"
    "policy_CreateFilter (InternalFilterPolicy policy) keys [] = Some f"
  have "those (map ExtractUserKey keys) = Some (map ikey_user keys)"
    using a(3) by (induction keys) (auto simp: ikey_ok_def ikey_parts)
  with a filter_size [of "map ikey_user keys" f] show "length f \<le> per_key * length keys"
    by (simp add: InternalFilterPolicy_def ikey_ok_def)
next
  show "policy_KeyMayMatch (InternalFilterPolicy policy) k g \<noteq> None" if "ikey_ok key_ok k" for k g
    using that may_match_total by (auto simp: InternalFilterPolicy_def ikey_ok_def ikey_parts)
qed

end

lemma bloom_bytes_bound:
  assumes "b < 2 ^ 31" "n < 2 ^ 31"
  shows "unat (bloom_bytes (mk_BloomFilterPolicy b) n) \<le> b * n + 16"
proof -
  define bits :: u64 where "bits = of_nat n * of_nat b"
  have "n * b \<le> 2 ^ 31 * 2 ^ 31" using assms by (intro mult_le_mono) simp_all
  then have small: "n * b + 71 < 2 ^ 64" by simp
  then have "unat bits = n * b"
    by (simp add: bits_def unsigned_of_nat take_bit_nat_eq_self flip: of_nat_mult)
  then have m: "unat (if bits < 64 then 64 else bits) \<le> n * b + 64" by simp
  have seven: "unat (a + 7) \<le> unat a + 7" for a :: u64 by (simp add: unat_word_ariths)
  have "unat ((if bits < 64 then 64 else bits) + 7) \<le> n * b + 71"
    using seven [of "if bits < 64 then 64 else bits"] m by linarith
  then have "unat ((if bits < 64 then 64 else bits) + 7) div 8 \<le> n * b + 16" by linarith
  moreover have "bloom_bytes (mk_BloomFilterPolicy b) n = ((if bits < 64 then 64 else bits) + 7) div 8"
    by (simp add: bloom_bytes_def mk_BloomFilterPolicy_def Let_def bits_def)
  ultimately show ?thesis by (simp add: unat_div mult.commute)
qed

lemma bloom_sized_filter_policy: "b < 2 ^ 31 \<Longrightarrow> sized_filter_policy (bloom_policy b) (\<lambda>_. True) (b + 17)"
proof (rule sized_filter_policy.intro [OF bloom_filter_policy], simp, rule sized_filter_policy_axioms.intro)
  fix keys :: "Slice list" and f
  assume b: "b < 2 ^ 31" and a: "keys \<noteq> []" "length keys < 2 ^ 31" "policy_CreateFilter (bloom_policy b) keys [] = Some f"
  then have "f = bloom_filter_of (mk_BloomFilterPolicy b) keys" by (simp add: bloom_policy_def CreateFilter_appends)
  then have "length f \<le> b * length keys + 17"
    using bloom_bytes_bound [OF b a(2)] by (simp add: length_bloom_filter_of)
  also have "\<dots> \<le> (b + 17) * length keys" using a(1) by (cases keys) (simp_all add: algebra_simps)
  finally show "length f \<le> (b + 17) * length keys" .
next
  show "policy_KeyMayMatch (bloom_policy b) k g \<noteq> None" for k g
    using BloomHash_total [of k] by (auto simp: bloom_policy_def KeyMayMatch_def Let_def)
qed

interpretation sized_bloom10: sized_filter_policy "bloom_policy 10" "\<lambda>_. True" 27
  using bloom_sized_filter_policy [of 10] by simp

interpretation sized_internal_bloom10: sized_filter_policy "InternalFilterPolicy (bloom_policy 10)" "ikey_ok (\<lambda>_. True)" 27
  by (rule sized_bloom10.internal_sized_filter_policy)

end
