(* ===== verification/Block_Builder.thy ===== *)
theory Block_Builder imports Ldb_Iterator begin

section \<open>leveldb: building blocks (table/block_builder.h, table/block_builder.cc)\<close>

text \<open>
  A block is a sequence of entries whose keys share a prefix with the key before, followed by the
  offsets of the entries that share nothing (the restart points) and their number.
\<close>

record BlockBuilder =
  bb_buffer :: "u8 list"
  bb_restarts :: "u32 list"
  bb_counter :: int
  bb_finished :: bool
  bb_last_key :: "u8 list"

definition mk_BlockBuilder :: "Options \<Rightarrow> BlockBuilder option" where
  "mk_BlockBuilder options = do {
     _ \<leftarrow> ensure (opt_block_restart_interval options \<ge> 1);
     Some \<lparr>bb_buffer = [], bb_restarts = [0], bb_counter = 0, bb_finished = False, bb_last_key = []\<rparr>
   }"

definition BlockBuilder_Reset :: "BlockBuilder \<Rightarrow> BlockBuilder" where
  "BlockBuilder_Reset b =
     b\<lparr>bb_buffer := [], bb_restarts := [0], bb_counter := 0, bb_finished := False, bb_last_key := []\<rparr>"

definition CurrentSizeEstimate :: "BlockBuilder \<Rightarrow> nat" where
  "CurrentSizeEstimate b = length (bb_buffer b) + length (bb_restarts b) * 4 + 4"

definition BlockBuilder_empty :: "BlockBuilder \<Rightarrow> bool" where
  "BlockBuilder_empty b \<longleftrightarrow> bb_buffer b = []"

definition BlockBuilder_Finish :: "BlockBuilder \<Rightarrow> Slice \<times> BlockBuilder" where
  "BlockBuilder_Finish b =
     (let buffer = foldl PutFixed32 (bb_buffer b) (bb_restarts b);
          buffer = PutFixed32 buffer (of_nat (length (bb_restarts b)))
      in (buffer, b\<lparr>bb_buffer := buffer, bb_finished := True\<rparr>))"

definition BlockBuilder_Add :: "Options \<Rightarrow> BlockBuilder \<Rightarrow> Slice \<Rightarrow> Slice \<Rightarrow> BlockBuilder option" where
  "BlockBuilder_Add options b key val = do {
     let last_key_piece = bb_last_key b;
     _ \<leftarrow> ensure (\<not> bb_finished b);
     _ \<leftarrow> ensure (bb_counter b \<le> opt_block_restart_interval options);
     _ \<leftarrow> (if bb_buffer b = [] then Some ()
           else Compare (opt_comparator options) key last_key_piece \<bind> (\<lambda>r. ensure (r > 0)));
     let (shared, b) =
       (if bb_counter b < opt_block_restart_interval options
        then (diff_index last_key_piece key, b)
        else (0, b\<lparr>bb_restarts := bb_restarts b @ [of_nat (length (bb_buffer b))], bb_counter := 0\<rparr>));
     let non_shared = length key - shared;
     let buffer = PutVarint32 (bb_buffer b) (of_nat shared);
     let buffer = PutVarint32 buffer (of_nat non_shared);
     let buffer = PutVarint32 buffer (of_nat (length val));
     let buffer = buffer @ take non_shared (drop shared key);
     let buffer = buffer @ val;
     let last_key = take shared last_key_piece @ take non_shared (drop shared key);
     _ \<leftarrow> ensure (last_key = key);
     Some (b\<lparr>bb_buffer := buffer, bb_last_key := last_key, bb_counter := bb_counter b + 1\<rparr>)
   }"

end
