(* ===== verification/Block_Facts.thy ===== *)
theory Block_Facts imports Block Block_Builder Ldb_Coding_Facts Dbformat_Facts begin

unbundle bit_operations_syntax

section \<open>leveldb: the layout of a block, and reading it\<close>

text \<open>
  \<open>layout\<close> is the abstract description of a block: its entries with the number of bytes each key shares
  with the key before, and the indices of the restart points. \<open>before\<close> and \<open>at\<close> are the states of the
  iterator around a call of \<open>ParseNextKey\<close>; the operations of the iterator move between them.
\<close>

subsection \<open>The bytes of a block\<close>

type_synonym entry = "nat \<times> Slice \<times> Slice"

abbreviation e_shared :: "entry \<Rightarrow> nat" where "e_shared \<equiv> fst"
abbreviation e_key :: "entry \<Rightarrow> Slice" where "e_key e \<equiv> fst (snd e)"
abbreviation e_val :: "entry \<Rightarrow> Slice" where "e_val e \<equiv> snd (snd e)"

definition entry_bytes :: "entry \<Rightarrow> u8 list" where
  "entry_bytes e = varint_bytes (e_shared e) @ varint_bytes (length (e_key e) - e_shared e) @
     varint_bytes (length (e_val e)) @ drop (e_shared e) (e_key e) @ e_val e"

definition entries_bytes :: "entry list \<Rightarrow> u8 list" where
  "entries_bytes es = concat (map entry_bytes es)"

definition entry_offset :: "entry list \<Rightarrow> nat \<Rightarrow> nat" where
  "entry_offset es i = length (entries_bytes (take i es))"

definition previous_key :: "entry list \<Rightarrow> nat \<Rightarrow> Slice" where
  "previous_key es i = (if i = 0 then [] else e_key (es ! (i - 1)))"

text \<open>\<open>k\<close> can be rebuilt from \<open>p\<close> when they share the first \<open>s\<close> bytes.\<close>

definition shares :: "nat \<Rightarrow> Slice \<Rightarrow> Slice \<Rightarrow> bool" where
  "shares s p k \<longleftrightarrow> s \<le> length p \<and> s \<le> length k \<and> take s p = take s k"

definition restarts_bytes :: "entry list \<Rightarrow> nat list \<Rightarrow> u8 list" where
  "restarts_bytes es rs =
     concat (map (\<lambda>x. le_bytes 4 (unat x)) (map (\<lambda>r. of_nat (entry_offset es r) :: u32) rs @ [of_nat (length rs)]))"

definition block_bytes :: "entry list \<Rightarrow> nat list \<Rightarrow> u8 list" where
  "block_bytes es rs = entries_bytes es @ restarts_bytes es rs"

definition layout :: "entry list \<Rightarrow> nat list \<Rightarrow> bool" where
  "layout es rs \<longleftrightarrow>
     (\<forall>i < length es. shares (e_shared (es ! i)) (previous_key es i) (e_key (es ! i))) \<and>
     rs \<noteq> [] \<and> rs ! 0 = 0 \<and> sorted_wrt (<) rs \<and>
     (\<forall>r \<in> set rs. r = 0 \<or> r < length es) \<and> (\<forall>r \<in> set rs. r < length es \<longrightarrow> e_shared (es ! r) = 0)"

definition block_fits :: "entry list \<Rightarrow> nat list \<Rightarrow> bool" where
  "block_fits es rs \<longleftrightarrow> length (block_bytes es rs) < 2 ^ 32"

lemma shares_0 [simp]: "shares 0 a b"
  by (simp add: shares_def)

lemma entries_bytes_simps [simp]:
  "entries_bytes [] = []" "entries_bytes (e # es) = entry_bytes e @ entries_bytes es"
  "entries_bytes (es @ fs) = entries_bytes es @ entries_bytes fs"
  by (simp_all add: entries_bytes_def)

lemma entry_offset_0 [simp]: "entry_offset es 0 = 0"
  by (simp add: entry_offset_def)

lemma entry_offset_all: "length es \<le> i \<Longrightarrow> entry_offset es i = length (entries_bytes es)"
  by (simp add: entry_offset_def)

lemma entry_offset_Suc:
  "i < length es \<Longrightarrow> entry_offset es (Suc i) = entry_offset es i + length (entry_bytes (es ! i))"
  by (simp add: entry_offset_def take_Suc_conv_app_nth)

lemma entry_bytes_min: "3 \<le> length (entry_bytes e)"
proof -
  have "1 \<le> length (varint_bytes n)" for n using varint_bytes_nonempty [of n] by (cases "varint_bytes n") simp_all
  from this [of "e_shared e"] this [of "length (e_key e) - e_shared e"] this [of "length (e_val e)"]
  show ?thesis by (simp add: entry_bytes_def)
qed

lemma entry_offset_mono: "i \<le> j \<Longrightarrow> entry_offset es i \<le> entry_offset es j"
proof (induction j)
  case (Suc j)
  then show ?case
    by (cases "i = Suc j"; cases "j < length es") (auto simp: entry_offset_Suc entry_offset_all le_Suc_eq)
qed simp

lemma entry_offset_strict:
  assumes "i < j" "j \<le> length es"
  shows "entry_offset es i < entry_offset es j"
proof -
  have "entry_offset es i < entry_offset es (Suc i)"
    using assms entry_bytes_min [of "es ! i"] by (simp add: entry_offset_Suc del: length_greater_0_conv)
  also have "\<dots> \<le> entry_offset es j" using assms by (intro entry_offset_mono) simp
  finally show ?thesis .
qed

lemma entry_offset_less_iff:
  "i \<le> length es \<Longrightarrow> j \<le> length es \<Longrightarrow> entry_offset es i < entry_offset es j \<longleftrightarrow> i < j"
  by (metis entry_offset_mono entry_offset_strict not_le)

lemma entry_offset_le: "entry_offset es i \<le> length (entries_bytes es)"
  using entry_offset_mono [of i "max i (length es)" es] by (simp add: entry_offset_all)

lemma drop_entry_offset:
  "i < length es \<Longrightarrow>
     drop (entry_offset es i) (entries_bytes es) = entry_bytes (es ! i) @ entries_bytes (drop (Suc i) es)"
proof -
  assume i: "i < length es"
  have "entries_bytes es = entries_bytes (take i es @ es ! i # drop (Suc i) es)"
    using id_take_nth_drop [OF i] by simp
  then show ?thesis by (simp add: entry_offset_def)
qed

lemma length_restarts_bytes [simp]: "length (restarts_bytes es rs) = 4 * length rs + 4"
  unfolding restarts_bytes_def by (simp only: length_fixed32s) simp

lemma length_block_bytes: "length (block_bytes es rs) = length (entries_bytes es) + 4 * length rs + 4"
  by (simp add: block_bytes_def)

text \<open>A key is never longer than the block up to its end.\<close>

lemma key_length:
  assumes "layout es rs" "i < length es"
  shows "length (e_key (es ! i)) + length (e_val (es ! i)) \<le> entry_offset es (Suc i)"
  using assms(2)
proof (induction i)
  case 0
  then have "e_shared (es ! 0) = 0" using assms(1) by (force simp: layout_def shares_def previous_key_def)
  then show ?case using 0 by (simp add: entry_offset_Suc entry_bytes_def)
next
  case (Suc i)
  have "e_shared (es ! Suc i) \<le> length (e_key (es ! i))"
    using assms(1) Suc by (force simp: layout_def shares_def previous_key_def)
  then show ?case using Suc by (simp add: entry_offset_Suc entry_bytes_def)
qed

subsection \<open>Decoding an entry\<close>

lemma u32_less_2p: "(x :: u32) < 128 \<longleftrightarrow> drop_bit 7 x = 0"
proof -
  have "unat x < 128 \<longleftrightarrow> unat (drop_bit 7 x) = 0"
    by (simp add: unat_drop_bit_le div_eq_0_iff)
  then show ?thesis by (simp add: word_less_nat_alt unat_eq_0)
qed

lemma or_less_128: "((x :: u32) OR y) < 128 \<longleftrightarrow> x < 128 \<and> y < 128"
  by (simp add: u32_less_2p bit_eq_iff) (auto simp: bit_simps bit_or_iff)

lemma GetVarint32Ptr_byte:
  assumes "(ucast b :: u32) < 128" shows "GetVarint32Ptr (b # p) = Some (ucast b, p)"
proof -
  have "(ucast b :: u32) AND 128 = 0"
    using assms unat_u8_less [of b]
    by (simp add: byte_top word_less_nat_alt unsigned_ucast_eq take_bit_nat_eq_self)
  then show ?thesis by (simp add: GetVarint32Ptr_def)
qed

text \<open>The fast path of \<open>DecodeEntry\<close> is the general one on three single bytes.\<close>

lemma decode_lengths_general:
  assumes "3 \<le> length p"
  shows "decode_lengths p = do {
    (shared, p) \<leftarrow> GetVarint32Ptr p;
    (non_shared, p) \<leftarrow> GetVarint32Ptr p;
    (value_length, p) \<leftarrow> GetVarint32Ptr p;
    Some (shared, non_shared, value_length, p) }"
proof (cases "(ucast (p ! 0) OR ucast (p ! 1) OR ucast (p ! 2) :: u32) < 128")
  case True
  obtain a b c q where p: "p = a # b # c # q"
    using assms by (metis Suc_le_length_iff numeral_3_eq_3)
  have "(ucast a :: u32) < 128" "(ucast b :: u32) < 128" "(ucast c :: u32) < 128"
    using True by (simp_all add: or_less_128 p numeral_2_eq_2)
  with True show ?thesis by (simp add: decode_lengths_def p GetVarint32Ptr_byte)
next
  case False
  then show ?thesis by (simp only: decode_lengths_def Let_def if_False)
qed

lemma unat_of_nat_u32: "n < 2 ^ 32 \<Longrightarrow> unat (of_nat n :: u32) = n"
  by (simp add: unsigned_of_nat take_bit_nat_eq_self)

lemma GetVarint32Ptr_bytes: "n < 2 ^ 32 \<Longrightarrow> GetVarint32Ptr (varint_bytes n @ q) = Some (of_nat n, q)"
  using length_varint_bytes_u32 [of "of_nat n"]
  by (simp add: GetVarint32Ptr_front varint_front_bytes unat_of_nat_u32)

lemma DecodeEntry_lengths:
  assumes "s < 2 ^ 32" "n + v \<le> length q" "length q < 2 ^ 32" "3 \<le> length (varint_bytes s @ varint_bytes n @ varint_bytes v @ q)"
  shows "DecodeEntry (varint_bytes s @ varint_bytes n @ varint_bytes v @ q) = Some (of_nat s, of_nat n, of_nat v, q)"
proof -
  have "decode_lengths (varint_bytes s @ varint_bytes n @ varint_bytes v @ q) = Some (of_nat s, of_nat n, of_nat v, q)"
    unfolding decode_lengths_general [OF assms(4)] using assms by (simp add: GetVarint32Ptr_bytes)
  moreover have "\<not> (of_nat (length q) :: u32) < of_nat n + of_nat v"
    using assms by (simp add: word_less_nat_alt unat_of_nat_u32 flip: of_nat_add)
  ultimately show ?thesis using assms(4) by (simp add: DecodeEntry_def not_less)
qed

lemma DecodeEntry_bytes:
  assumes "e_shared e \<le> length (e_key e)" "e_shared e < 2 ^ 32"
    "length (drop (e_shared e) (e_key e) @ e_val e @ rest) < 2 ^ 32"
  shows "DecodeEntry (entry_bytes e @ rest) =
    Some (of_nat (e_shared e), of_nat (length (e_key e) - e_shared e), of_nat (length (e_val e)),
      drop (e_shared e) (e_key e) @ e_val e @ rest)"
  using DecodeEntry_lengths [of "e_shared e" "length (e_key e) - e_shared e" "length (e_val e)"
      "drop (e_shared e) (e_key e) @ e_val e @ rest"] assms entry_bytes_min [of e]
  by (simp add: entry_bytes_def)

section \<open>leveldb: the states of a block iterator\<close>

text \<open>
  \<open>before es rs i\<close>: the next call of \<open>ParseNextKey\<close> parses entry \<open>i\<close>. \<open>at es rs i\<close>: the iterator is at
  entry \<open>i\<close>, or past the end when \<open>i\<close> is the number of entries.
\<close>

definition iter_ok :: "Comparator \<Rightarrow> entry list \<Rightarrow> nat list \<Rightarrow> BlockIter \<Rightarrow> bool" where
  "iter_ok C es rs it \<longleftrightarrow> layout es rs \<and> block_fits es rs \<and> it_comparator it = C \<and>
     it_data it = block_bytes es rs \<and> it_restarts it = of_nat (length (entries_bytes es)) \<and>
     it_num_restarts it = of_nat (length rs) \<and> it_status it = StatusOK"

definition restart_below :: "nat list \<Rightarrow> nat \<Rightarrow> BlockIter \<Rightarrow> bool" where
  "restart_below rs i it \<longleftrightarrow> unat (it_restart_index it) < length rs \<and> rs ! unat (it_restart_index it) \<le> i"

definition before :: "Comparator \<Rightarrow> entry list \<Rightarrow> nat list \<Rightarrow> nat \<Rightarrow> BlockIter \<Rightarrow> bool" where
  "before C es rs i it \<longleftrightarrow> iter_ok C es rs it \<and> i \<le> length es \<and>
     NextEntryOffset it = Some (of_nat (entry_offset es i)) \<and> restart_below rs i it \<and>
     (i < length es \<longrightarrow> shares (e_shared (es ! i)) (it_key it) (e_key (es ! i)))"

definition at :: "Comparator \<Rightarrow> entry list \<Rightarrow> nat list \<Rightarrow> nat \<Rightarrow> BlockIter \<Rightarrow> bool" where
  "at C es rs i it \<longleftrightarrow> iter_ok C es rs it \<and> i \<le> length es \<and>
     it_current it = of_nat (entry_offset es i) \<and>
     (i < length es \<longrightarrow> it_key it = e_key (es ! i) \<and>
       it_value it = Some (entry_offset es (Suc i) - length (e_val (es ! i)), length (e_val (es ! i))) \<and>
       restart_below rs i it)"

lemma fits_bounds:
  assumes "block_fits es rs"
  shows "length (entries_bytes es) < 2 ^ 32" "length rs < 2 ^ 30" "entry_offset es i < 2 ^ 32"
  using assms entry_offset_le [of es i] by (simp_all add: block_fits_def length_block_bytes)

lemma unat_offset [simp]: "block_fits es rs \<Longrightarrow> unat (of_nat (entry_offset es i) :: u32) = entry_offset es i"
  using fits_bounds(3) by (rule unat_of_nat_u32)

lemma iter_okD:
  assumes "iter_ok C es rs it"
  shows "layout es rs" "block_fits es rs" "it_comparator it = C" "it_data it = block_bytes es rs"
    "unat (it_restarts it) = length (entries_bytes es)" "unat (it_num_restarts it) = length rs" "it_status it = StatusOK"
proof -
  have fits: "block_fits es rs" using assms by (simp add: iter_ok_def)
  show "unat (it_restarts it) = length (entries_bytes es)"
    using assms fits_bounds(1) [OF fits] by (simp add: iter_ok_def unat_of_nat_u32)
  show "unat (it_num_restarts it) = length rs"
    using assms fits_bounds(2) [OF fits] by (simp add: iter_ok_def unat_of_nat_u32)
qed (use assms in \<open>simp_all add: iter_ok_def\<close>)

lemma iter_ok_update [simp]:
  "iter_ok C es rs (it\<lparr>it_current := c\<rparr>) = iter_ok C es rs it"
  "iter_ok C es rs (it\<lparr>it_restart_index := j\<rparr>) = iter_ok C es rs it"
  "iter_ok C es rs (it\<lparr>it_key := k\<rparr>) = iter_ok C es rs it"
  "iter_ok C es rs (it\<lparr>it_value := v\<rparr>) = iter_ok C es rs it"
  by (simp_all add: iter_ok_def)

lemma restart_index:
  assumes "layout es rs" "j < length rs"
  shows "rs ! j \<le> length es" "rs ! j < length es \<Longrightarrow> e_shared (es ! (rs ! j)) = 0"
proof -
  have "rs ! j = 0 \<or> rs ! j < length es" "rs ! j < length es \<Longrightarrow> e_shared (es ! (rs ! j)) = 0"
    using assms(1) nth_mem [OF assms(2)] unfolding layout_def by blast+
  then show "rs ! j \<le> length es" "rs ! j < length es \<Longrightarrow> e_shared (es ! (rs ! j)) = 0" by auto
qed

lemma GetRestartPoint_ok:
  assumes "iter_ok C es rs it" "unat j < length rs"
  shows "GetRestartPoint it j = Some (of_nat (entry_offset es (rs ! unat j)))"
proof -
  have fits: "block_fits es rs" using assms by (simp add: iter_ok_def)
  let ?ws = "map (\<lambda>r. of_nat (entry_offset es r) :: u32) rs @ [of_nat (length rs)]"
  have "DecodeFixed32 (drop (4 * unat j) (restarts_bytes es rs @ [])) = Some (?ws ! unat j)"
    unfolding restarts_bytes_def using assms(2) by (intro nth_fixed32) simp
  moreover have "drop (unat (it_restarts it) + unat j * 4) (it_data it) = drop (4 * unat j) (restarts_bytes es rs @ [])"
    using iter_okD [OF assms(1)] by (simp add: block_bytes_def mult.commute)
  moreover have "j < it_num_restarts it"
    using iter_okD [OF assms(1)] assms(2) by (simp add: word_less_nat_alt)
  ultimately show ?thesis using assms(2) by (simp add: GetRestartPoint_def nth_append)
qed

lemma drop_entries:
  assumes "iter_ok C es rs it" "i < length es"
  shows "drop (entry_offset es i) (take (unat (it_restarts it)) (it_data it)) =
    entry_bytes (es ! i) @ entries_bytes (drop (Suc i) es)"
  using assms(2) drop_entry_offset [of i es] iter_okD [OF assms(1)] by (simp add: block_bytes_def)

lemma shared_bounds:
  assumes "layout es rs" "block_fits es rs" "i < length es"
  shows "e_shared (es ! i) \<le> length (e_key (es ! i))" "length (e_key (es ! i)) < 2 ^ 32"
  using assms key_length [of es rs i] fits_bounds(3) [of es rs "Suc i"]
  by (auto simp: layout_def shares_def)

lemma DecodeEntry_at:
  assumes "iter_ok C es rs it" "i < length es"
  defines "e \<equiv> es ! i"
  shows "DecodeEntry (drop (entry_offset es i) (take (unat (it_restarts it)) (it_data it))) =
    Some (of_nat (e_shared e), of_nat (length (e_key e) - e_shared e), of_nat (length (e_val e)),
      drop (e_shared e) (e_key e) @ e_val e @ entries_bytes (drop (Suc i) es))"
proof -
  note ok = iter_okD [OF assms(1)]
  have "length (entry_bytes e @ entries_bytes (drop (Suc i) es)) \<le> length (entries_bytes es)"
    using drop_entry_offset [OF assms(2), symmetric] by (simp only: e_def length_drop)
  then have "length (drop (e_shared e) (e_key e) @ e_val e @ entries_bytes (drop (Suc i) es)) < 2 ^ 32"
    using fits_bounds(1) [OF ok(2)] by (simp add: entry_bytes_def)
  with shared_bounds [OF ok(1,2) assms(2)] show ?thesis
    unfolding drop_entries [OF assms(1,2)] e_def by (intro DecodeEntry_bytes) (auto simp: e_def)
qed

text \<open>Where the key delta and the value of an entry lie in the block.\<close>

lemma entry_parts:
  assumes "iter_ok C es rs it" "i < length es"
  defines "e \<equiv> es ! i"
  defines "p \<equiv> drop (e_shared e) (e_key e) @ e_val e @ entries_bytes (drop (Suc i) es)"
  defines "off \<equiv> unat (it_restarts it) - length p"
  shows "off + (length (e_key e) - e_shared e) = entry_offset es (Suc i) - length (e_val e)"
    "entry_offset es (Suc i) \<le> length (it_data it)" "length (e_val e) \<le> entry_offset es (Suc i)"
    "take (length (e_key e) - e_shared e) (drop off (it_data it)) = drop (e_shared e) (e_key e)"
    "take (length (e_val e)) (drop (entry_offset es (Suc i) - length (e_val e)) (it_data it)) = e_val e"
proof -
  note ok = iter_okD [OF assms(1)]
  define pre where "pre = entries_bytes (take i es) @ varint_bytes (e_shared e) @
    varint_bytes (length (e_key e) - e_shared e) @ varint_bytes (length (e_val e))"
  have "es = take i es @ e # drop (Suc i) es" using id_take_nth_drop [OF assms(2)] by (simp add: e_def)
  then have "entries_bytes es = entries_bytes (take i es @ e # drop (Suc i) es)" by simp
  then have all: "entries_bytes es = pre @ p" by (simp add: pre_def p_def entry_bytes_def)
  have data: "it_data it = pre @ p @ restarts_bytes es rs" and "unat (it_restarts it) = length (pre @ p)"
    using ok(4,5) by (simp_all add: block_bytes_def all)
  then have off: "off = length pre" by (simp add: off_def)
  have suc: "entry_offset es (Suc i) = length pre + (length (e_key e) - e_shared e) + length (e_val e)"
    unfolding entry_offset_Suc [OF assms(2)] by (simp add: entry_offset_def pre_def entry_bytes_def e_def)
  show "off + (length (e_key e) - e_shared e) = entry_offset es (Suc i) - length (e_val e)"
    "length (e_val e) \<le> entry_offset es (Suc i)" "entry_offset es (Suc i) \<le> length (it_data it)"
    by (simp_all add: off suc data p_def)
  show "take (length (e_key e) - e_shared e) (drop off (it_data it)) = drop (e_shared e) (e_key e)"
    by (simp add: off data p_def)
  show "take (length (e_val e)) (drop (entry_offset es (Suc i) - length (e_val e)) (it_data it)) = e_val e"
    by (simp add: suc data p_def)
qed


text \<open>What \<open>DecodeEntry\<close> finds at entry \<open>i\<close>, and where its key delta and value lie.\<close>

lemma entry_at:
  assumes "iter_ok C es rs it" "i < length es"
  obtains sh ns vl p where
    "DecodeEntry (drop (entry_offset es i) (take (unat (it_restarts it)) (it_data it))) = Some (sh, ns, vl, p)"
    "unat sh = e_shared (es ! i)" "unat vl = length (e_val (es ! i))"
    "unat (it_restarts it) - length p + unat ns = entry_offset es (Suc i) - length (e_val (es ! i))"
    "unat (it_restarts it) - length p + unat ns \<le> length (it_data it)"
    "take (unat ns) (drop (unat (it_restarts it) - length p) (it_data it)) = drop (e_shared (es ! i)) (e_key (es ! i))"
proof -
  let ?e = "es ! i"
  note ok = iter_okD [OF assms(1)] and parts = entry_parts [OF assms]
  have kb: "e_shared ?e \<le> length (e_key ?e)" "length (e_key ?e) < 2 ^ 32"
    using shared_bounds [OF ok(1,2) assms(2)] by simp_all
  have vb: "length (e_val ?e) < 2 ^ 32"
    using key_length [OF ok(1) assms(2)] fits_bounds(3) [OF ok(2), of "Suc i"] by simp
  have "unat (of_nat (e_shared ?e) :: u32) = e_shared ?e" "unat (of_nat (length (e_val ?e)) :: u32) = length (e_val ?e)"
    using kb vb by (simp_all add: unat_of_nat_u32)
  moreover have "unat (of_nat (length (e_key ?e) - e_shared ?e) :: u32) = length (e_key ?e) - e_shared ?e"
    using kb by (intro unat_of_nat_u32) linarith
  ultimately show thesis
    using that [OF DecodeEntry_at [OF assms]] parts by simp
qed

subsection \<open>The operations\<close>

lemma advance_ok:
  assumes "iter_ok C es rs it" "restart_below rs i it" "it_current it = of_nat (entry_offset es i)" "i \<le> length es"
  shows "\<exists>j. advance_restart_index it = Some (it\<lparr>it_restart_index := j\<rparr>) \<and> restart_below rs i (it\<lparr>it_restart_index := j\<rparr>)"
  using assms
proof (induction "length rs - unat (it_restart_index it)" arbitrary: it)
  case 0
  then show ?case by (simp add: restart_below_def)
next
  case (Suc d)
  note ok = iter_okD [OF Suc.prems(1)]
  let ?j = "it_restart_index it"
  have len: "length rs < 2 ^ 32" using fits_bounds(2) [OF ok(2)] by simp
  have jlt: "unat ?j < length rs" using Suc.prems by (simp add: restart_below_def)
  have suc: "unat (?j + 1) = Suc (unat ?j)"
    using jlt len by (simp add: unat_word_ariths unsigned_1)
  show ?case
  proof (cases "Suc (unat ?j) < length rs")
    case False
    then have "\<not> ?j + 1 < it_num_restarts it" using ok(6) suc by (simp add: word_less_nat_alt)
    then show ?thesis using Suc.prems(2)
      by (intro exI [of _ ?j]) (simp add: advance_restart_index.simps)
  next
    case True
    then have more: "?j + 1 < it_num_restarts it" using ok(6) suc by (simp add: word_less_nat_alt)
    have point: "GetRestartPoint it (?j + 1) = Some (of_nat (entry_offset es (rs ! Suc (unat ?j))))"
      using GetRestartPoint_ok [OF Suc.prems(1), of "?j + 1"] True suc by simp
    have le: "rs ! Suc (unat ?j) \<le> length es" using restart_index(1) [OF ok(1) True] .
    have less: "of_nat (entry_offset es (rs ! Suc (unat ?j))) < it_current it \<longleftrightarrow> rs ! Suc (unat ?j) < i"
      using entry_offset_less_iff [OF le Suc.prems(4)] ok(2) Suc.prems(3) by (simp add: word_less_nat_alt unat_of_nat_u32 fits_bounds)
    show ?thesis
    proof (cases "rs ! Suc (unat ?j) < i")
      case False
      then show ?thesis using more point less Suc.prems(2)
        by (intro exI [of _ ?j]) (simp add: advance_restart_index.simps)
    next
      case True': True
      let ?it = "it\<lparr>it_restart_index := ?j + 1\<rparr>"
      have "advance_restart_index it = advance_restart_index ?it"
        using more point less True' by (simp add: advance_restart_index.simps [of it])
      moreover have "\<exists>j. advance_restart_index ?it = Some (?it\<lparr>it_restart_index := j\<rparr>) \<and>
          restart_below rs i (?it\<lparr>it_restart_index := j\<rparr>)"
        using Suc.prems Suc.hyps(2) True True' suc by (intro Suc.hyps(1)) (simp_all add: restart_below_def)
      ultimately show ?thesis by simp
    qed
  qed
qed

lemma at_before:
  assumes "at C es rs i it" "i < length es"
  shows "before C es rs (Suc i) it"
proof -
  have ok: "iter_ok C es rs it" using assms by (simp add: at_def)
  note okd = iter_okD [OF ok]
  have "NextEntryOffset it = Some (of_nat (entry_offset es (Suc i)))"
    using assms entry_parts(3) [OF ok assms(2)] by (simp add: NextEntryOffset_def at_def)
  moreover have "shares (e_shared (es ! Suc i)) (it_key it) (e_key (es ! Suc i))" if "Suc i < length es"
    using okd(1) that assms by (force simp: layout_def previous_key_def at_def)
  ultimately show ?thesis using assms by (auto simp: before_def at_def restart_below_def)
qed

lemma ParseNextKey_ok:
  assumes "before C es rs i it"
  shows "\<exists>it'. ParseNextKey it = Some (i < length es, it') \<and> at C es rs i it'"
proof -
  have ok: "iter_ok C es rs it" and next_off: "NextEntryOffset it = Some (of_nat (entry_offset es i))"
    and il: "i \<le> length es" and below: "restart_below rs i it"
    using assms by (simp_all add: before_def)
  note okd = iter_okD [OF ok]
  show ?thesis
  proof (cases "i < length es")
    case False
    then have "entry_offset es i = length (entries_bytes es)" "i = length es"
      using il by (simp_all add: entry_offset_all)
    moreover have "it_restarts it = of_nat (length (entries_bytes es))" using ok by (simp add: iter_ok_def)
    ultimately show ?thesis using ok next_off by (simp add: ParseNextKey_def at_def)
  next
    case True
    let ?e = "es ! i" and ?it = "it\<lparr>it_current := of_nat (entry_offset es i)\<rparr>"
    have off: "unat (of_nat (entry_offset es i) :: u32) = entry_offset es i"
      by (rule unat_of_nat_u32 [OF fits_bounds(3) [OF okd(2)]])
    have "entry_offset es i < length (entries_bytes es)"
      using entry_offset_strict [OF True order_refl] by (simp add: entry_offset_all)
    then have inside: "\<not> it_restarts it \<le> of_nat (entry_offset es i)"
      using okd(5) off by (simp add: word_le_nat_alt)
    have sh: "shares (e_shared ?e) (it_key it) (e_key ?e)" using assms True by (simp add: before_def)
    define it1 where "it1 = ?it\<lparr>it_key := e_key ?e,
      it_value := Some (entry_offset es (Suc i) - length (e_val ?e), length (e_val ?e))\<rparr>"
    have ok1: "iter_ok C es rs it1" "restart_below rs i it1" "it_current it1 = of_nat (entry_offset es i)"
      using ok below by (simp_all add: it1_def restart_below_def)
    obtain j where j: "advance_restart_index it1 = Some (it1\<lparr>it_restart_index := j\<rparr>)"
      "restart_below rs i (it1\<lparr>it_restart_index := j\<rparr>)"
      using advance_ok [OF ok1 il] by blast
    have key: "take (e_shared ?e) (it_key it) @ drop (e_shared ?e) (e_key ?e) = e_key ?e"
      using sh by (simp add: shares_def)
    obtain s n v p where dec: "DecodeEntry (drop (entry_offset es i) (take (unat (it_restarts it)) (it_data it))) = Some (s, n, v, p)"
      and parts: "unat s = e_shared ?e" "unat v = length (e_val ?e)"
        "unat (it_restarts it) - length p + unat n = entry_offset es (Suc i) - length (e_val ?e)"
        "unat (it_restarts it) - length p + unat n \<le> length (it_data it)"
        "take (unat n) (drop (unat (it_restarts it) - length p) (it_data it)) = drop (e_shared ?e) (e_key ?e)"
      using entry_at [OF ok True] by metis
    have "e_shared ?e \<le> length (it_key it)" using sh by (simp add: shares_def)
    then have "ParseNextKey it = Some (True, it1\<lparr>it_restart_index := j\<rparr>)"
      using next_off inside j(1) parts key dec by (simp add: ParseNextKey_def off it1_def Let_def)
    moreover have "at C es rs i (it1\<lparr>it_restart_index := j\<rparr>)"
      using ok1 j(2) il by (simp add: at_def it1_def)
    ultimately show ?thesis using True by simp
  qed
qed

end
