(* ===== verification/Ordered_Iterator.thy ===== *)
theory Ordered_Iterator imports Ldb_Iterator Dbformat_Facts begin

section \<open>leveldb: the contract of an iterator (include/leveldb/iterator.h)\<close>

text \<open>
  An iterator over a sorted sequence of entries: \<open>view it es i\<close> says that \<open>it\<close> iterates over \<open>es\<close>
  and is positioned at entry \<open>i\<close>, or is not valid when \<open>i\<close> is the number of entries.
\<close>

text \<open>The position of the first entry at or past a key.\<close>

definition lower_bound :: "Comparator \<Rightarrow> Slice \<Rightarrow> (Slice \<times> Slice) list \<Rightarrow> nat" where
  "lower_bound C t es = length (takeWhile (\<lambda>e. cmp C (fst e) t < 0) es)"

locale ordered_iterator = comparator C key_ok for C :: Comparator and key_ok :: "Slice \<Rightarrow> bool" +
  fixes I :: "'i Iterator" and view :: "'i \<Rightarrow> (Slice \<times> Slice) list \<Rightarrow> nat \<Rightarrow> bool"
  assumes position: "view it es i \<Longrightarrow> i \<le> length es"
    and keys: "view it es i \<Longrightarrow> \<forall>e \<in> set es. key_ok (fst e)"
    and sorted: "view it es i \<Longrightarrow> sorted_wrt (\<lambda>a b. cmp C (fst a) (fst b) < 0) es"
    and valid: "view it es i \<Longrightarrow> iter_Valid I it \<longleftrightarrow> i < length es"
    and key_at: "view it es i \<Longrightarrow> i < length es \<Longrightarrow> iter_key I it = Some (fst (es ! i))"
    and value_at: "view it es i \<Longrightarrow> i < length es \<Longrightarrow> iter_value I it = Some (snd (es ! i))"
    and status: "view it es i \<Longrightarrow> iter_status I it = StatusOK"
    and first: "view it es i \<Longrightarrow> \<exists>it'. iter_SeekToFirst I it = Some it' \<and> view it' es 0"
    and last: "view it es i \<Longrightarrow> \<exists>it'. iter_SeekToLast I it = Some it' \<and> view it' es (length es - 1)"
    and seek: "view it es i \<Longrightarrow> key_ok t \<Longrightarrow>
      \<exists>it'. iter_Seek I it t = Some it' \<and> view it' es (lower_bound C t es)"
    and step: "view it es i \<Longrightarrow> i < length es \<Longrightarrow>
      \<exists>it'. iter_Next I it = Some it' \<and> view it' es (Suc i)"
    and step_back: "view it es i \<Longrightarrow> i < length es \<Longrightarrow>
      \<exists>it'. iter_Prev I it = Some it' \<and> view it' es (if i = 0 then length es else i - 1)"

text \<open>The entries from the position of an iterator on, read with \<open>key\<close>, \<open>value\<close> and \<open>Next\<close>.\<close>

fun collect :: "'i Iterator \<Rightarrow> nat \<Rightarrow> 'i \<Rightarrow> ((Slice \<times> Slice) list \<times> 'i) option" where
  "collect I 0 it = (if iter_Valid I it then None else Some ([], it))"
| "collect I (Suc n) it =
     (if iter_Valid I it then do {
        k \<leftarrow> iter_key I it;
        v \<leftarrow> iter_value I it;
        it \<leftarrow> iter_Next I it;
        (es, it) \<leftarrow> collect I n it;
        Some ((k, v) # es, it)
      } else Some ([], it))"

text \<open>The same backwards, with \<open>Prev\<close>.\<close>

fun collect_back :: "'i Iterator \<Rightarrow> nat \<Rightarrow> 'i \<Rightarrow> ((Slice \<times> Slice) list \<times> 'i) option" where
  "collect_back I 0 it = (if iter_Valid I it then None else Some ([], it))"
| "collect_back I (Suc n) it =
     (if iter_Valid I it then do {
        k \<leftarrow> iter_key I it;
        v \<leftarrow> iter_value I it;
        it \<leftarrow> iter_Prev I it;
        (es, it) \<leftarrow> collect_back I n it;
        Some ((k, v) # es, it)
      } else Some ([], it))"

lemma lower_bound_le: "lower_bound C t es \<le> length es"
  by (simp add: lower_bound_def length_takeWhile_le)

lemma lower_bound_before: "i < lower_bound C t es \<Longrightarrow> cmp C (fst (es ! i)) t < 0"
  unfolding lower_bound_def by (metis nth_mem set_takeWhileD takeWhile_nth)

lemma lower_bound_at: "lower_bound C t es < length es \<Longrightarrow> \<not> cmp C (fst (es ! lower_bound C t es)) t < 0"
  unfolding lower_bound_def by (rule nth_length_takeWhile)

lemma lower_boundI:
  assumes "\<And>j. j < i \<Longrightarrow> cmp C (fst (es ! j)) t < 0" "i < length es \<Longrightarrow> \<not> cmp C (fst (es ! i)) t < 0" "i \<le> length es"
  shows "lower_bound C t es = i"
proof (rule ccontr)
  assume "lower_bound C t es \<noteq> i"
  then consider "lower_bound C t es < i" | "i < lower_bound C t es" by linarith
  then show False
    using assms lower_bound_at [of C t es] lower_bound_before [of i C t es] lower_bound_le [of C t es]
    by cases auto
qed

context ordered_iterator
begin

lemma collect_from:
  assumes "view it es i"
  shows "\<exists>it'. collect I (length es - i) it = Some (drop i es, it') \<and> view it' es (length es)"
  using assms
proof (induction "length es - i" arbitrary: it i)
  case 0
  then have "i = length es" using position [of it es i] by linarith
  with 0 show ?case using valid [of it es i] by simp
next
  case (Suc d)
  then have i: "i < length es" by linarith
  obtain it' where it': "iter_Next I it = Some it'" "view it' es (Suc i)" using step [OF Suc.prems i] by blast
  have d: "d = length es - Suc i" using Suc.hyps(2) by linarith
  obtain it'' where "collect I d it' = Some (drop (Suc i) es, it'')" "view it'' es (length es)"
    using Suc.hyps(1) [OF d it'(2)] unfolding d by blast
  moreover have "length es - i = Suc d" using Suc.hyps(2) by simp
  ultimately show ?case
    using Suc.prems i it' valid [OF Suc.prems] key_at [OF Suc.prems i] value_at [OF Suc.prems i] Cons_nth_drop_Suc [OF i]
    by simp
qed

lemma collect_back_from:
  assumes "view it es i" "i < length es"
  shows "\<exists>it'. collect_back I (Suc i) it = Some (rev (take (Suc i) es), it') \<and> view it' es (length es)"
  using assms
proof (induction i arbitrary: it)
  case 0
  obtain it' where "iter_Prev I it = Some it'" "view it' es (length es)" using step_back [OF 0] by auto
  then show ?case
    using 0 valid [of it es 0] valid [of it' es "length es"] key_at [OF 0] value_at [OF 0]
    by (cases es) simp_all
next
  case (Suc i)
  obtain it' where it': "iter_Prev I it = Some it'" "view it' es i" using step_back [OF Suc.prems] by auto
  obtain it'' where "collect_back I (Suc i) it' = Some (rev (take (Suc i) es), it'')" "view it'' es (length es)"
    using Suc.IH [OF it'(2)] Suc.prems by auto
  then show ?case
    using Suc.prems it' valid [OF Suc.prems(1)] key_at [OF Suc.prems] value_at [OF Suc.prems]
    by (simp add: take_Suc_conv_app_nth [of "Suc i"] del: collect_back.simps(2)) (simp add: collect_back.simps(2) [of I "Suc i"] del: collect_back.simps)
qed

lemma scan:
  assumes "view it es i"
  shows "\<exists>it1 it2. iter_SeekToFirst I it = Some it1 \<and> collect I (length es) it1 = Some (es, it2) \<and> view it2 es (length es)"
  using first [OF assms] collect_from [of _ es 0] by fastforce

lemma scan_back:
  assumes "view it es i" "es \<noteq> []"
  shows "\<exists>it1 it2. iter_SeekToLast I it = Some it1 \<and> collect_back I (length es) it1 = Some (rev es, it2) \<and> view it2 es (length es)"
proof -
  obtain it1 where "iter_SeekToLast I it = Some it1" "view it1 es (length es - 1)" using last [OF assms(1)] by blast
  moreover have "Suc (length es - 1) = length es" using assms(2) by (cases es) simp_all
  ultimately show ?thesis using collect_back_from [of it1 es "length es - 1"] by (metis assms(2) lessI order_refl take_all)
qed

text \<open>\<open>Seek\<close> finds a key that is there.\<close>

lemma lower_bound_key:
  assumes "view it es i" "(k, v) \<in> set es"
  shows "lower_bound C k es < length es \<and> es ! lower_bound C k es = (k, v)"
proof -
  obtain j where j: "j < length es" "es ! j = (k, v)" using assms(2) by (auto simp: in_set_conv_nth)
  have "lower_bound C k es = j"
  proof (rule lower_boundI)
    show "cmp C (fst (es ! m)) k < 0" if "m < j" for m
      using sorted_wrt_nth_less [OF sorted [OF assms(1)] that j(1)] j(2) by simp
    have "key_ok k" using keys [OF assms(1)] assms(2) by force
    then show "\<not> cmp C (fst (es ! j)) k < 0" using j(2) cmp_refl by simp
  qed (use j in simp)
  with j show ?thesis by simp
qed

lemma seek_found:
  assumes "view it es i" "(k, v) \<in> set es"
  shows "\<exists>it'. iter_Seek I it k = Some it' \<and> iter_Valid I it' \<and> iter_key I it' = Some k \<and> iter_value I it' = Some v"
proof -
  have "key_ok k" using keys [OF assms(1)] assms(2) by force
  then obtain it' where it': "iter_Seek I it k = Some it'" "view it' es (lower_bound C k es)"
    using seek [OF assms(1)] by blast
  note at = lower_bound_key [OF assms]
  show ?thesis
    using it' at valid [OF it'(2)] key_at [OF it'(2)] value_at [OF it'(2)] by auto
qed

end

end
