(* ===== verification/Block_Interface.thy ===== *)
theory Block_Interface imports Block_Facts Ordered_Iterator begin

section \<open>leveldb: block iterators meet the contract of an iterator\<close>

text \<open>
  The operations of a block iterator over a block with a layout: each moves from a state \<open>at\<close> an entry
  to another. The interpretations give the contract for both comparators.
\<close>

lemma at_iter_ok: "at C es rs i it \<Longrightarrow> iter_ok C es rs it"
  by (simp add: at_def)

lemma SeekToRestartPoint_ok:
  assumes "iter_ok C es rs it" "unat j < length rs"
  shows "\<exists>it'. SeekToRestartPoint it j = Some it' \<and> before C es rs (rs ! unat j) it'"
proof -
  note ok = iter_okD [OF assms(1)]
  let ?it = "it\<lparr>it_key := [], it_restart_index := j\<rparr>"
  have "GetRestartPoint ?it j = Some (of_nat (entry_offset es (rs ! unat j)))"
    using assms by (intro GetRestartPoint_ok [where C = C]) simp_all
  moreover have "unat (of_nat (entry_offset es (rs ! unat j)) :: u32) = entry_offset es (rs ! unat j)"
    by (rule unat_of_nat_u32 [OF fits_bounds(3) [OF ok(2)]])
  ultimately show ?thesis
    using assms restart_index [OF ok(1) assms(2)]
    by (simp add: SeekToRestartPoint_def before_def NextEntryOffset_def restart_below_def)
qed

lemma restart_0:
  assumes "iter_ok C es rs it"
  shows "unat (0 :: u32) < length rs" "rs ! unat (0 :: u32) = 0"
  using iter_okD(1) [OF assms] by (simp_all add: layout_def)

lemma BlockIter_SeekToFirst_ok:
  assumes "iter_ok C es rs it"
  shows "\<exists>it'. BlockIter_SeekToFirst it = Some it' \<and> at C es rs 0 it'"
proof -
  obtain it1 where it1: "SeekToRestartPoint it 0 = Some it1" "before C es rs 0 it1"
    using SeekToRestartPoint_ok [OF assms restart_0(1) [OF assms]] restart_0(2) [OF assms] by metis
  obtain it2 where "ParseNextKey it1 = Some (0 < length es, it2)" "at C es rs 0 it2"
    using ParseNextKey_ok [OF it1(2)] by blast
  with it1 show ?thesis by (simp add: BlockIter_SeekToFirst_def)
qed

lemma BlockIter_Valid_at: "at C es rs i it \<Longrightarrow> BlockIter_Valid it \<longleftrightarrow> i < length es"
proof -
  assume a: "at C es rs i it"
  note ok = iter_okD [OF at_iter_ok [OF a]]
  have il: "i \<le> length es" and cur: "it_current it = of_nat (entry_offset es i)" using a by (simp_all add: at_def)
  have "unat (it_current it) = entry_offset es i"
    unfolding cur by (rule unat_of_nat_u32 [OF fits_bounds(3) [OF ok(2)]])
  then show ?thesis
    using ok(5) entry_offset_less_iff [OF il order_refl] entry_offset_all [of es "length es"]
    by (simp add: BlockIter_Valid_def word_less_nat_alt)
qed

lemma BlockIter_Next_ok:
  assumes "at C es rs i it" "i < length es"
  shows "\<exists>it'. BlockIter_Next it = Some it' \<and> at C es rs (Suc i) it'"
  using ParseNextKey_ok [OF at_before [OF assms]] BlockIter_Valid_at [OF assms(1)] assms(2)
  by (auto simp: BlockIter_Next_def)

lemma BlockIter_key_at: "at C es rs i it \<Longrightarrow> i < length es \<Longrightarrow> BlockIter_key it = Some (e_key (es ! i))"
  using BlockIter_Valid_at [of C es rs i it] by (simp add: BlockIter_key_def at_def)

lemma BlockIter_value_at:
  assumes "at C es rs i it" "i < length es"
  shows "BlockIter_value it = Some (e_val (es ! i))"
proof -
  have "it_value it = Some (entry_offset es (Suc i) - length (e_val (es ! i)), length (e_val (es ! i)))"
    using assms by (simp add: at_def)
  then show ?thesis
    using entry_parts(2,3,5) [OF at_iter_ok [OF assms(1)] assms(2)] BlockIter_Valid_at [OF assms(1)] assms(2)
    by (simp add: BlockIter_value_def)
qed

lemma parse_until_ok:
  assumes "before C es rs i it" "unat bound = entry_offset es m" "i < m \<or> m = length es" "m \<le> length es"
  shows "\<exists>it'. parse_until bound it = Some it' \<and> at C es rs (if i < length es then m - 1 else length es) it'"
  using assms
proof (induction "m - i" arbitrary: i it rule: less_induct)
  case less
  have ok: "iter_ok C es rs it" and il: "i \<le> length es" using less.prems(1) by (simp_all add: before_def)
  obtain it1 where it1: "ParseNextKey it = Some (i < length es, it1)" "at C es rs i it1"
    using ParseNextKey_ok [OF less.prems(1)] by blast
  show ?case
  proof (cases "i < length es")
    case False
    then show ?thesis using it1 il by (simp add: parse_until.simps [of bound it])
  next
    case True
    then have im: "i < m" using less.prems by auto
    have b: "before C es rs (Suc i) it1" by (rule at_before [OF it1(2) True])
    then have next_off: "NextEntryOffset it1 = Some (of_nat (entry_offset es (Suc i)))" by (simp add: before_def)
    have "unat (of_nat (entry_offset es (Suc i)) :: u32) = entry_offset es (Suc i)"
      by (rule unat_of_nat_u32 [OF fits_bounds(3) [OF iter_okD(2) [OF ok]]])
    then have less_iff: "of_nat (entry_offset es (Suc i)) < bound \<longleftrightarrow> Suc i < m"
      using entry_offset_less_iff [of "Suc i" es m] True less.prems(2,4) by (simp add: word_less_nat_alt)
    show ?thesis
    proof (cases "Suc i < m")
      case False
      with im have "i = m - 1" by linarith
      with it1 True next_off less_iff False show ?thesis by (simp add: parse_until.simps [of bound it])
    next
      case more: True
      have "\<exists>it'. parse_until bound it1 = Some it' \<and> at C es rs (if Suc i < length es then m - 1 else length es) it'"
        using more less.prems by (intro less.hyps [OF _ b]) auto
      then show ?thesis
        using it1 True next_off less_iff more less.prems(4) by (simp add: parse_until.simps [of bound it])
    qed
  qed
qed

lemma BlockIter_SeekToLast_ok:
  assumes "iter_ok C es rs it"
  shows "\<exists>it'. BlockIter_SeekToLast it = Some it' \<and> at C es rs (length es - 1) it'"
proof -
  note ok = iter_okD [OF assms]
  have pos: "0 < length rs" using ok(1) by (auto simp: layout_def)
  have num: "it_num_restarts it \<noteq> 0" using ok(6) pos by auto
  have last: "unat (it_num_restarts it - 1) < length rs"
    using ok(6) pos num by (simp add: unat_minus_one)
  obtain it1 where it1: "SeekToRestartPoint it (it_num_restarts it - 1) = Some it1"
    "before C es rs (rs ! unat (it_num_restarts it - 1)) it1"
    using SeekToRestartPoint_ok [OF assms last] by blast
  have "unat (it_restarts it) = entry_offset es (length es)" using ok(5) by (simp add: entry_offset_all)
  then obtain it2 where "parse_until (it_restarts it) it1 = Some it2"
    "at C es rs (if rs ! unat (it_num_restarts it - 1) < length es then length es - 1 else length es) it2"
    using parse_until_ok [OF it1(2)] by blast
  moreover have "rs ! unat (it_num_restarts it - 1) < length es \<or> es = []"
    using ok(1) nth_mem [OF last] unfolding layout_def by (metis length_greater_0_conv)
  moreover have "it_restarts it1 = it_restarts it" using assms it1(2) by (simp add: iter_ok_def before_def)
  ultimately show ?thesis using it1 by (auto simp: BlockIter_SeekToLast_def)
qed


lemma prev_restart_ok:
  assumes "iter_ok C es rs it" "unat (it_restart_index it) < length rs" "i \<le> length es"
    "unat original = entry_offset es i"
  shows "\<exists>it'. prev_restart original it = Some (0 < i, it') \<and> iter_ok C es rs it' \<and>
    (if 0 < i then unat (it_restart_index it') < length rs \<and> rs ! unat (it_restart_index it') < i
     else it_current it' = it_restarts it')"
  using assms(1,2)
proof (induction "unat (it_restart_index it)" arbitrary: it rule: less_induct)
  case less
  let ?j = "it_restart_index it"
  note ok = iter_okD [OF less.prems(1)]
  note point = GetRestartPoint_ok [OF less.prems]
  have le: "rs ! unat ?j \<le> length es" by (rule restart_index(1) [OF ok(1) less.prems(2)])
  have "unat (of_nat (entry_offset es (rs ! unat ?j)) :: u32) = entry_offset es (rs ! unat ?j)"
    by (rule unat_of_nat_u32 [OF fits_bounds(3) [OF ok(2)]])
  then have ge: "original \<le> of_nat (entry_offset es (rs ! unat ?j)) \<longleftrightarrow> \<not> rs ! unat ?j < i"
    using entry_offset_less_iff [OF le assms(3)] assms(4) by (simp add: word_le_nat_alt flip: not_less)
  show ?case
  proof (cases "rs ! unat ?j < i")
    case True
    then show ?thesis using point ge less.prems by (simp add: prev_restart.simps [of original it])
  next
    case False
    show ?thesis
    proof (cases "?j = 0")
      case True
      then have "i = 0" using False ok(1) by (simp add: layout_def)
      with True False show ?thesis using point ge less.prems
        by (simp add: prev_restart.simps [of original it])
    next
      case j: False
      let ?it = "it\<lparr>it_restart_index := ?j - 1\<rparr>"
      have dec: "unat (?j - 1) < unat ?j" using j by (simp add: unat_minus_one unat_gt_0)
      have "prev_restart original it = prev_restart original ?it"
        using False j point ge by (simp add: prev_restart.simps [of original it])
      moreover have "\<exists>it'. prev_restart original ?it = Some (0 < i, it') \<and> iter_ok C es rs it' \<and>
          (if 0 < i then unat (it_restart_index it') < length rs \<and> rs ! unat (it_restart_index it') < i
           else it_current it' = it_restarts it')"
        using dec less.prems by (intro less.hyps) simp_all
      ultimately show ?thesis by simp
    qed
  qed
qed

lemma at_end:
  assumes "iter_ok C es rs it" "it_current it = it_restarts it"
  shows "at C es rs (length es) it"
  using assms entry_offset_all [of es "length es"] by (simp add: at_def iter_ok_def)

lemma BlockIter_Prev_ok:
  assumes "at C es rs i it" "i < length es"
  shows "\<exists>it'. BlockIter_Prev it = Some it' \<and> at C es rs (if i = 0 then length es else i - 1) it'"
proof -
  note ok = at_iter_ok [OF assms(1)]
  have cur: "it_current it = of_nat (entry_offset es i)" and idx: "unat (it_restart_index it) < length rs"
    using assms by (simp_all add: at_def restart_below_def)
  have off: "unat (it_current it) = entry_offset es i"
    unfolding cur by (rule unat_of_nat_u32 [OF fits_bounds(3) [OF iter_okD(2) [OF ok]]])
  have valid: "BlockIter_Valid it" using BlockIter_Valid_at [OF assms(1)] assms(2) by simp
  obtain it1 where it1: "prev_restart (it_current it) it = Some (0 < i, it1)" "iter_ok C es rs it1"
    "if 0 < i then unat (it_restart_index it1) < length rs \<and> rs ! unat (it_restart_index it1) < i
     else it_current it1 = it_restarts it1"
    using prev_restart_ok [OF ok idx less_imp_le [OF assms(2)] off] by blast
  show ?thesis
  proof (cases "i = 0")
    case True
    with it1 valid at_end [OF it1(2)] show ?thesis by (simp add: BlockIter_Prev_def Let_def)
  next
    case False
    with it1(3) have j: "unat (it_restart_index it1) < length rs" "rs ! unat (it_restart_index it1) < i" by simp_all
    obtain it2 where it2: "SeekToRestartPoint it1 (it_restart_index it1) = Some it2"
      "before C es rs (rs ! unat (it_restart_index it1)) it2"
      using SeekToRestartPoint_ok [OF it1(2) j(1)] by blast
    obtain it3 where "parse_until (it_current it) it2 = Some it3" "at C es rs (i - 1) it3"
      using parse_until_ok [OF it2(2) off] j(2) assms(2) by auto
    with it1 it2 valid False show ?thesis by (simp add: BlockIter_Prev_def Let_def)
  qed
qed


subsection \<open>Seeking a key\<close>

lemma middle:
  assumes "(left :: u32) < right" "unat right < 2 ^ 30"
  shows "unat ((left + right + 1) div 2) = (unat left + unat right + 1) div 2"
proof -
  have "unat (left + right + 1) = unat left + unat right + 1"
    using assms by (simp add: word_less_nat_alt unat_word_ariths)
  then show ?thesis by (simp add: unat_div)
qed

lemma seek_restart_ok:
  assumes "comparator C key_ok" "iter_ok C es rs it" "\<forall>e \<in> set es. key_ok (e_key e)" "key_ok t"
    "left \<le> right" "unat right < length rs"
    "left = 0 \<or> cmp C (e_key (es ! (rs ! unat left))) t < 0"
  shows "\<exists>j. seek_restart it t left right = Some (Inr j) \<and> unat j < length rs \<and>
    (j = 0 \<or> cmp C (e_key (es ! (rs ! unat j))) t < 0)"
  using assms(5-7)
proof (induction "unat right - unat left" arbitrary: left right rule: less_induct)
  case less
  note ok = iter_okD [OF assms(2)]
  show ?case
  proof (cases "left < right")
    case False
    with less.prems have "left = right" by simp
    then show ?thesis using less.prems by (intro exI [of _ right]) (simp add: seek_restart.simps [of it t right right])
  next
    case True
    let ?mid = "(left + right + 1) div 2"
    have mid: "unat ?mid = (unat left + unat right + 1) div 2"
      using middle [OF True] less.prems(2) fits_bounds(2) [OF ok(2)] by simp
    have bounds: "unat left < unat ?mid" "unat ?mid \<le> unat right"
      using True unfolding mid word_less_nat_alt by linarith+
    define r where "r = rs ! unat ?mid"
    have "unat ?mid < length rs" using bounds less.prems(2) by linarith
    have "rs ! 0 < r"
      unfolding r_def using ok(1) bounds(1) \<open>unat ?mid < length rs\<close>
      by (intro sorted_wrt_nth_less [of "(<)"]) (simp_all add: layout_def)
    then have r: "r < length es" "e_shared (es ! r) = 0"
      using ok(1) nth_mem [OF \<open>unat ?mid < length rs\<close>] unfolding layout_def r_def by fastforce+
    have point: "GetRestartPoint it ?mid = Some (of_nat (entry_offset es r))"
      unfolding r_def by (rule GetRestartPoint_ok [OF assms(2) \<open>unat ?mid < length rs\<close>])
    have off: "unat (of_nat (entry_offset es r) :: u32) = entry_offset es r"
      by (rule unat_of_nat_u32 [OF fits_bounds(3) [OF ok(2)]])
    obtain s n v p where dec: "DecodeEntry (drop (entry_offset es r) (take (unat (it_restarts it)) (it_data it))) = Some (s, n, v, p)"
      and parts: "unat s = e_shared (es ! r)"
        "unat (it_restarts it) - length p + unat n \<le> length (it_data it)"
        "take (unat n) (drop (unat (it_restarts it) - length p) (it_data it)) = drop (e_shared (es ! r)) (e_key (es ! r))"
      using entry_at [OF assms(2) r(1)] by metis
    have "s = 0" using parts(1) r(2) by (simp add: unat_eq_0)
    obtain c where compare: "Compare C (e_key (es ! r)) t = Some c"
      using comparator.cmp_defined [OF assms(1)] assms(3,4) r(1) by (meson not_None_eq nth_mem)
    have step: "seek_restart it t left right =
        (if cmp C (e_key (es ! r)) t < 0 then seek_restart it t ?mid right else seek_restart it t left (?mid - 1))"
      using True point off dec parts r(2) \<open>s = 0\<close> compare ok(3)
      by (simp add: seek_restart.simps [of it t left right] Let_def)
    have "0 < unat ?mid" using bounds(1) by linarith
    then have pred: "unat (?mid - 1) = unat ?mid - 1" by (intro unat_minus_one) auto
    show ?thesis
    proof (cases "cmp C (e_key (es ! r)) t < 0")
      case True
      then have "\<exists>j. seek_restart it t ?mid right = Some (Inr j) \<and> unat j < length rs \<and>
          (j = 0 \<or> cmp C (e_key (es ! (rs ! unat j))) t < 0)"
        using bounds less.prems(2) by (intro less.hyps) (auto simp: r_def word_le_nat_alt)
      with True step show ?thesis by simp
    next
      case False
      then have "\<exists>j. seek_restart it t left (?mid - 1) = Some (Inr j) \<and> unat j < length rs \<and>
          (j = 0 \<or> cmp C (e_key (es ! (rs ! unat j))) t < 0)"
        using bounds less.prems pred by (intro less.hyps) (auto simp: word_le_nat_alt)
      with False step show ?thesis by simp
    qed
  qed
qed

lemma seek_linear_ok:
  assumes "comparator C key_ok" "before C es rs i it" "\<forall>e \<in> set es. key_ok (e_key e)" "key_ok t"
    "\<forall>j < i. cmp C (e_key (es ! j)) t < 0"
  shows "\<exists>it'. seek_linear t it = Some it' \<and> at C es rs (lower_bound C t (map snd es)) it'"
  using assms(2,5)
proof (induction "length es - i" arbitrary: i it rule: less_induct)
  case less
  have ok: "iter_ok C es rs it" and il: "i \<le> length es" using less.prems(1) by (simp_all add: before_def)
  obtain it1 where it1: "ParseNextKey it = Some (i < length es, it1)" "at C es rs i it1"
    using ParseNextKey_ok [OF less.prems(1)] by blast
  have found: "lower_bound C t (map snd es) = i" if "i < length es \<Longrightarrow> \<not> cmp C (e_key (es ! i)) t < 0"
    using that less.prems(2) il by (intro lower_boundI) simp_all
  show ?case
  proof (cases "i < length es")
    case False
    with it1 found il show ?thesis by (simp add: seek_linear.simps [of t it])
  next
    case True
    obtain c where compare: "Compare C (e_key (es ! i)) t = Some c"
      using comparator.cmp_defined [OF assms(1)] assms(3,4) True by (meson not_None_eq nth_mem)
    have at1: "it_comparator it1 = C" "it_key it1 = e_key (es ! i)"
      using it1(2) True by (simp_all add: at_def iter_ok_def)
    show ?thesis
    proof (cases "cmp C (e_key (es ! i)) t < 0")
      case False
      with it1 found True compare at1 show ?thesis by (simp add: seek_linear.simps [of t it])
    next
      case less_t: True
      have "\<exists>it'. seek_linear t it1 = Some it' \<and> at C es rs (lower_bound C t (map snd es)) it'"
        using True less_t less.prems(2)
        by (intro less.hyps [OF _ at_before [OF it1(2) True]]) (auto simp: less_Suc_eq)
      then show ?thesis using it1 True compare at1 less_t by (simp add: seek_linear.simps [of t it])
    qed
  qed
qed

lemma BlockIter_Seek_ok:
  assumes "comparator C key_ok" "iter_ok C es rs it" "\<forall>e \<in> set es. key_ok (e_key e)" "key_ok t"
    "sorted_wrt (\<lambda>a b. cmp C (e_key a) (e_key b) < 0) es"
  shows "\<exists>it'. BlockIter_Seek it t = Some it' \<and> at C es rs (lower_bound C t (map snd es)) it'"
proof -
  note ok = iter_okD [OF assms(2)]
  have pos: "0 < length rs" using ok(1) by (auto simp: layout_def)
  have "it_num_restarts it \<noteq> 0" using ok(6) pos by auto
  then have right: "unat (it_num_restarts it - 1) < length rs"
    using ok(6) pos by (simp add: unat_minus_one)
  obtain j where j: "seek_restart it t 0 (it_num_restarts it - 1) = Some (Inr j)" "unat j < length rs"
    "j = 0 \<or> cmp C (e_key (es ! (rs ! unat j))) t < 0"
    using seek_restart_ok [OF assms(1-4) _ right, of 0] by auto
  obtain it1 where it1: "SeekToRestartPoint it j = Some it1" "before C es rs (rs ! unat j) it1"
    using SeekToRestartPoint_ok [OF assms(2) j(2)] by blast
  have "cmp C (e_key (es ! m)) t < 0" if "m < rs ! unat j" for m
  proof -
    have le: "rs ! unat j \<le> length es" by (rule restart_index(1) [OF ok(1) j(2)])
    have "rs ! 0 = 0" using ok(1) by (simp add: layout_def)
    with that have "j \<noteq> 0" by (intro notI) simp
    have lt: "rs ! unat j < length es"
      using ok(1) nth_mem [OF j(2)] that unfolding layout_def by force
    have "cmp C (e_key (es ! m)) (e_key (es ! (rs ! unat j))) < 0"
      using sorted_wrt_nth_less [OF assms(5) that lt] .
    moreover have "key_ok (e_key (es ! m))" "key_ok (e_key (es ! (rs ! unat j)))"
      using assms(3) lt that by simp_all
    ultimately show ?thesis
      using comparator.cmp_less_trans [OF assms(1), of "e_key (es ! m)" "e_key (es ! (rs ! unat j))" t] assms(4) j(3) \<open>j \<noteq> 0\<close>
      by simp
  qed
  then obtain it2 where "seek_linear t it1 = Some it2" "at C es rs (lower_bound C t (map snd es)) it2"
    using seek_linear_ok [OF assms(1) it1(2) assms(3,4)] by blast
  with j it1 show ?thesis by (simp add: BlockIter_Seek_def)
qed

subsection \<open>The contract\<close>

definition block_view :: "Comparator \<Rightarrow> (Slice \<Rightarrow> bool) \<Rightarrow> BlockIter \<Rightarrow> (Slice \<times> Slice) list \<Rightarrow> nat \<Rightarrow> bool" where
  "block_view C key_ok it kvs i \<longleftrightarrow>
     (\<exists>es rs. kvs = map snd es \<and> at C es rs i it \<and> (\<forall>e \<in> set es. key_ok (e_key e)) \<and>
        sorted_wrt (\<lambda>a b. cmp C (e_key a) (e_key b) < 0) es)"

lemma block_viewE:
  assumes "block_view C key_ok it kvs i"
  obtains es rs where "kvs = map snd es" "at C es rs i it" "\<forall>e \<in> set es. key_ok (e_key e)"
    "sorted_wrt (\<lambda>a b. cmp C (e_key a) (e_key b) < 0) es"
  using assms by (auto simp: block_view_def)

lemma block_viewI:
  "at C es rs i it \<Longrightarrow> \<forall>e \<in> set es. key_ok (e_key e) \<Longrightarrow>
    sorted_wrt (\<lambda>a b. cmp C (e_key a) (e_key b) < 0) es \<Longrightarrow> block_view C key_ok it (map snd es) i"
  by (auto simp: block_view_def)

lemma block_iterator:
  assumes "comparator C key_ok"
  shows "ordered_iterator C key_ok Block_Iter (block_view C key_ok)"
proof -
  show ?thesis
  proof (rule ordered_iterator.intro [OF assms], rule ordered_iterator_axioms.intro)
    fix it :: BlockIter and kvs i assume view: "block_view C key_ok it kvs i"
    from view obtain es rs where v: "kvs = map snd es" "at C es rs i it"
      and es: "\<forall>e \<in> set es. key_ok (e_key e)" "sorted_wrt (\<lambda>a b. cmp C (e_key a) (e_key b) < 0) es"
      by (rule block_viewE)
    note ok = at_iter_ok [OF v(2)] and intro = block_viewI [OF _ es]
    show "i \<le> length kvs" using v by (simp add: at_def)
    show "\<forall>e \<in> set kvs. key_ok (fst e)" "sorted_wrt (\<lambda>a b. cmp C (fst a) (fst b) < 0) kvs"
      using v(1) es by (simp_all add: sorted_wrt_map)
    show "iter_Valid Block_Iter it \<longleftrightarrow> i < length kvs"
      using v BlockIter_Valid_at [OF v(2)] by (simp add: Block_Iter_def)
    show "iter_status Block_Iter it = StatusOK" using iter_okD(7) [OF ok] by (simp add: Block_Iter_def)
    show "\<exists>it'. iter_SeekToFirst Block_Iter it = Some it' \<and> block_view C key_ok it' kvs 0"
      using BlockIter_SeekToFirst_ok [OF ok] intro v(1) by (auto simp: Block_Iter_def)
    show "\<exists>it'. iter_SeekToLast Block_Iter it = Some it' \<and> block_view C key_ok it' kvs (length kvs - 1)"
      using BlockIter_SeekToLast_ok [OF ok] intro v(1) by (auto simp: Block_Iter_def)
    show "\<exists>it'. iter_Seek Block_Iter it t = Some it' \<and> block_view C key_ok it' kvs (lower_bound C t kvs)"
      if "key_ok t" for t
      using BlockIter_Seek_ok [OF assms ok es(1) that es(2)] intro v(1) by (auto simp: Block_Iter_def)
    assume "i < length kvs"
    then have il: "i < length es" using v(1) by simp
    show "iter_key Block_Iter it = Some (fst (kvs ! i))" "iter_value Block_Iter it = Some (snd (kvs ! i))"
      using v il by (simp_all add: Block_Iter_def BlockIter_key_at BlockIter_value_at)
    show "\<exists>it'. iter_Next Block_Iter it = Some it' \<and> block_view C key_ok it' kvs (Suc i)"
      using BlockIter_Next_ok [OF v(2) il] intro v(1) by (auto simp: Block_Iter_def)
    show "\<exists>it'. iter_Prev Block_Iter it = Some it' \<and>
        block_view C key_ok it' kvs (if i = 0 then length kvs else i - 1)"
      using BlockIter_Prev_ok [OF v(2) il] intro v(1) by (auto simp: Block_Iter_def)
  qed
qed

interpretation block: ordered_iterator BytewiseComparator "\<lambda>_. True" Block_Iter "block_view BytewiseComparator (\<lambda>_. True)"
  by (rule block_iterator) (rule bytewise.comparator_axioms)

interpretation internal_block: ordered_iterator "InternalKeyComparator BytewiseComparator" "ikey_ok (\<lambda>_. True)" Block_Iter
  "block_view (InternalKeyComparator BytewiseComparator) (ikey_ok (\<lambda>_. True))"
  by (rule block_iterator) (rule internal.comparator_axioms)

end
