(* ===== verification/Block_Theorems.thy ===== *)
theory Block_Theorems imports Block_Interface begin

section \<open>leveldb: what a block builder writes, a block iterator reads\<close>

text \<open>
  The builder keeps a layout (\<open>bb_inv\<close>), so the block it finishes is read back: in order, backwards and
  from any key on.
\<close>

subsection \<open>The builder\<close>

definition bb_inv :: "Options \<Rightarrow> BlockBuilder \<Rightarrow> entry list \<Rightarrow> nat list \<Rightarrow> bool" where
  "bb_inv opt b es rs \<longleftrightarrow> layout es rs \<and> \<not> bb_finished b \<and> bb_buffer b = entries_bytes es \<and>
     bb_restarts b = map (\<lambda>r. of_nat (entry_offset es r)) rs \<and>
     bb_last_key b = previous_key es (length es) \<and>
     bb_counter b \<le> opt_block_restart_interval opt \<and> bb_counter b \<le> int (length es)"

fun add_entries :: "Options \<Rightarrow> BlockBuilder \<Rightarrow> (Slice \<times> Slice) list \<Rightarrow> BlockBuilder option" where
  "add_entries opt b [] = Some b"
| "add_entries opt b ((k, v) # kvs) = BlockBuilder_Add opt b k v \<bind> (\<lambda>b. add_entries opt b kvs)"

definition build_block :: "Options \<Rightarrow> (Slice \<times> Slice) list \<Rightarrow> Slice option" where
  "build_block opt kvs = do {
     b \<leftarrow> mk_BlockBuilder opt;
     b \<leftarrow> add_entries opt b kvs;
     Some (fst (BlockBuilder_Finish b))
   }"

definition open_block :: "Comparator \<Rightarrow> Slice \<Rightarrow> BlockIter option" where
  "open_block C data = do {
     b \<leftarrow> mk_Block \<lparr>bc_data = data, bc_cachable = False, bc_heap_allocated = False\<rparr>;
     i \<leftarrow> Block_NewIterator C b;
     case i of Inl _ \<Rightarrow> None | Inr it \<Rightarrow> Some it
   }"

lemma diff_index_take: "take (diff_index a b) a = take (diff_index a b) b"
proof (induction a arbitrary: b)
  case (Cons x a) show ?case by (cases b) (auto intro: Cons)
qed simp

lemma shares_diff_index: "shares (diff_index a b) a b"
  by (simp add: shares_def diff_index_bound diff_index_take [of a b])

lemma entry_offset_snoc: "r \<le> length es \<Longrightarrow> entry_offset (es @ [e]) r = entry_offset es r"
  by (simp add: entry_offset_def)

lemma layout_snoc:
  assumes "layout es rs" "shares (e_shared e) (previous_key es (length es)) (e_key e)"
  shows "layout (es @ [e]) rs"
    and "es \<noteq> [] \<Longrightarrow> e_shared e = 0 \<Longrightarrow> layout (es @ [e]) (rs @ [length es])"
proof -
  have prev: "previous_key (es @ [e]) i = previous_key es i" if "i \<le> length es" for i
    using that by (auto simp: previous_key_def nth_append)
  have chain: "\<forall>i < length (es @ [e]). shares (e_shared ((es @ [e]) ! i)) (previous_key (es @ [e]) i) (e_key ((es @ [e]) ! i))"
    using assms prev by (auto simp: layout_def nth_append less_Suc_eq)
  have first: "e_shared e = 0" if "es = []"
    using assms(2) that by (simp add: shares_def previous_key_def)
  have rs: "\<forall>r \<in> set rs. r = 0 \<or> r < length es" "\<forall>r \<in> set rs. r < length es \<longrightarrow> e_shared (es ! r) = 0"
    "rs \<noteq> []" "rs ! 0 = 0" "sorted_wrt (<) rs"
    using assms(1) by (simp_all add: layout_def)
  have zero: "\<forall>r \<in> set rs. r < length (es @ [e]) \<longrightarrow> e_shared ((es @ [e]) ! r) = 0"
  proof (intro ballI impI)
    fix r assume "r \<in> set rs"
    show "e_shared ((es @ [e]) ! r) = 0"
      using rs(1,2) \<open>r \<in> set rs\<close> first by (cases "es = []") (auto simp: nth_append)
  qed
  show "layout (es @ [e]) rs" using chain rs zero by (auto simp: layout_def)
  assume "es \<noteq> []" "e_shared e = 0"
  then have "\<forall>r \<in> set rs. r < length es" using rs(1) by auto
  with chain rs zero \<open>e_shared e = 0\<close> show "layout (es @ [e]) (rs @ [length es])"
    by (auto simp: layout_def sorted_wrt_append nth_append)
qed

lemma mk_BlockBuilder_inv:
  assumes "1 \<le> opt_block_restart_interval opt"
  shows "\<exists>b. mk_BlockBuilder opt = Some b \<and> bb_inv opt b [] [0]"
  using assms by (simp add: mk_BlockBuilder_def bb_inv_def layout_def previous_key_def)

lemma BlockBuilder_Add_inv:
  assumes "bb_inv opt b es rs" "1 \<le> opt_block_restart_interval opt" "length k < 2 ^ 32" "length v < 2 ^ 32"
    "es \<noteq> [] \<Longrightarrow> \<exists>c > 0. Compare (opt_comparator opt) k (e_key (es ! (length es - 1))) = Some c"
  shows "\<exists>b' s rs'. BlockBuilder_Add opt b k v = Some b' \<and> bb_inv opt b' (es @ [(s, k, v)]) rs'"
proof -
  let ?last = "bb_last_key b"
  define restart where "restart \<longleftrightarrow> \<not> bb_counter b < opt_block_restart_interval opt"
  define s where "s = (if restart then 0 else diff_index ?last k)"
  define rs' where "rs' = (if restart then rs @ [length es] else rs)"
  note inv = assms(1)[unfolded bb_inv_def]
  have sh: "shares s ?last k" by (simp add: s_def shares_diff_index)
  then have bound: "s \<le> length k" "take s ?last @ drop s k = k"
    by (simp_all add: shares_def)
  have nonempty: "es \<noteq> []" if restart using that inv assms(2) by (auto simp: restart_def)
  have lay: "layout (es @ [(s, k, v)]) rs'"
    using layout_snoc [of es rs "(s, k, v)"] inv sh nonempty by (auto simp: rs'_def s_def)
  have rle: "\<forall>r \<in> set rs. r \<le> length es" using inv by (auto simp: layout_def)
  have offs: "map (\<lambda>r. of_nat (entry_offset (es @ [(s, k, v)]) r) :: u32) rs' =
    (if restart then bb_restarts b @ [of_nat (length (bb_buffer b))] else bb_restarts b)"
    using inv rle by (auto simp: rs'_def entry_offset_snoc entry_offset_all)
  have bytes: "PutVarint32 (PutVarint32 (PutVarint32 (entries_bytes es) (of_nat s)) (of_nat (length k - s)))
      (of_nat (length v)) @ drop s k @ v = entries_bytes (es @ [(s, k, v)])"
    using assms(3,4) bound(1)
    by (simp add: PutVarint32_def EncodeVarint32_bytes unat_of_nat_u32 entry_bytes_def del: of_nat_diff)
  have empty: "bb_buffer b = [] \<longleftrightarrow> es = []"
    using inv entry_bytes_min [of "hd es"] by (cases es) auto
  have cmp_ok: "es = [] \<or> (\<exists>c > 0. Compare (opt_comparator opt) k (previous_key es (length es)) = Some c)"
    using assms(5) by (auto simp: previous_key_def)
  define b' where "b' = (if restart then b\<lparr>bb_restarts := bb_restarts b @ [of_nat (length (bb_buffer b))], bb_counter := 0\<rparr>
      else b)\<lparr>bb_buffer := entries_bytes (es @ [(s, k, v)]), bb_last_key := k,
        bb_counter := (if restart then 0 else bb_counter b) + 1\<rparr>"
  have "BlockBuilder_Add opt b k v = Some b'"
    using cmp_ok inv bytes bound empty
    by (cases restart) (auto simp: BlockBuilder_Add_def Let_def b'_def s_def restart_def)
  moreover have "bb_inv opt b' (es @ [(s, k, v)]) rs'"
    using inv lay offs assms(2) by (auto simp: bb_inv_def b'_def restart_def previous_key_def)
  ultimately show ?thesis by blast
qed


lemma add_entries_inv:
  assumes "bb_inv opt b es rs" "1 \<le> opt_block_restart_interval opt"
    "\<forall>(k, v) \<in> set kvs. length k < 2 ^ 32 \<and> length v < 2 ^ 32"
    "sorted_wrt (\<lambda>a b. \<exists>c > 0. Compare (opt_comparator opt) (fst b) (fst a) = Some c) (map snd es @ kvs)"
  shows "\<exists>b' es' rs'. add_entries opt b kvs = Some b' \<and> bb_inv opt b' es' rs' \<and> map snd es' = map snd es @ kvs"
  using assms
proof (induction kvs arbitrary: b es rs)
  case Nil
  then show ?case by auto
next
  case (Cons kv kvs)
  obtain k v where kv: "kv = (k, v)" by (cases kv)
  have last: "\<exists>c > 0. Compare (opt_comparator opt) k (e_key (es ! (length es - 1))) = Some c" if "es \<noteq> []"
  proof -
    have "es ! (length es - 1) \<in> set es" using that by simp
    with Cons.prems(4) show ?thesis by (force simp: sorted_wrt_append kv)
  qed
  have "length k < 2 ^ 32" "length v < 2 ^ 32" using Cons.prems(3) by (simp_all add: kv)
  from BlockBuilder_Add_inv [OF Cons.prems(1,2) this last]
  obtain b' s rs' where "BlockBuilder_Add opt b k v = Some b'" "bb_inv opt b' (es @ [(s, k, v)]) rs'" by blast
  moreover have "\<exists>b'' es' rs''. add_entries opt b' kvs = Some b'' \<and> bb_inv opt b'' es' rs'' \<and>
      map snd es' = map snd (es @ [(s, k, v)]) @ kvs"
    using Cons.prems calculation(2) by (intro Cons.IH) (auto simp: kv)
  ultimately show ?case by (simp add: kv)
qed

lemma BlockBuilder_Finish_bytes:
  "bb_inv opt b es rs \<Longrightarrow> fst (BlockBuilder_Finish b) = block_bytes es rs"
  by (simp add: BlockBuilder_Finish_def bb_inv_def foldl_PutFixed32 PutFixed32_def EncodeFixed32_le
      block_bytes_def restarts_bytes_def Let_def)

lemma open_block_layout:
  assumes "layout es rs" "block_fits es rs"
  shows "\<exists>it. open_block C (block_bytes es rs) = Some it \<and> at C es rs (length es) it"
proof -
  let ?data = "block_bytes es rs"
  have pos: "0 < length rs" and len: "length rs < 2 ^ 30"
    using assms fits_bounds(2) by (auto simp: layout_def)
  have "drop (length ?data - 4) ?data = drop (4 * length rs) (restarts_bytes es rs @ [])"
    by (simp add: block_bytes_def)
  also have "DecodeFixed32 \<dots> = Some (of_nat (length rs))"
    unfolding restarts_bytes_def by (subst nth_fixed32) (simp_all add: nth_append)
  finally have num: "DecodeFixed32 (drop (length ?data - 4) ?data) = Some (of_nat (length rs))" .
  have unum: "unat (of_nat (length rs) :: u32) = length rs" "unat (1 + of_nat (length rs) :: u32) = 1 + length rs"
    using len unat_of_nat_u32 [of "length rs"] unat_of_nat_u32 [of "1 + length rs"] by simp_all
  have size: "length ?data = length (entries_bytes es) + 4 * length rs + 4" by (rule length_block_bytes)
  then have "\<not> (length ?data - 4) div 4 < length rs" by linarith
  moreover have "length ?data - unat (1 + of_nat (length rs) :: u32) * 4 = length (entries_bytes es)"
    using unum(2) size by simp
  moreover have "(of_nat (length rs) :: u32) > 0" using pos unum(1) by (simp add: word_less_nat_alt)
  moreover define it where "it = \<lparr>it_comparator = C, it_data = ?data, it_restarts = of_nat (length (entries_bytes es)),
    it_num_restarts = of_nat (length rs), it_current = of_nat (length (entries_bytes es)),
    it_restart_index = of_nat (length rs), it_key = [], it_value = None, it_status = StatusOK\<rparr>"
  ultimately have "open_block C ?data = Some it"
    using num size unum(1)
    by (simp add: open_block_def mk_Block_def NumRestarts_def Block_NewIterator_def mk_BlockIter_def Let_def)
  moreover have "at C es rs (length es) it" using assms by (intro at_end) (simp_all add: iter_ok_def it_def)
  ultimately show ?thesis by blast
qed

text \<open>An upper bound of the size of a block.\<close>

definition block_bound :: "(Slice \<times> Slice) list \<Rightarrow> nat" where
  "block_bound kvs = sum_list (map (\<lambda>(k, v). length k + length v + 19) kvs) + 8"

lemma entries_bound:
  assumes "\<forall>e \<in> set es. length (e_key e) < 2 ^ 32 \<and> length (e_val e) < 2 ^ 32 \<and> e_shared e \<le> length (e_key e)"
  shows "length (entries_bytes es) + 4 * length es + 8 \<le> block_bound (map snd es)"
proof -
  have varint: "length (varint_bytes n) \<le> 5" if "n < 2 ^ 32" for n
    using that length_varint_bytes_u32 [of "of_nat n"] by (simp add: unat_of_nat_u32)
  have "length (entry_bytes e) \<le> length (e_key e) + length (e_val e) + 15"
    if "length (e_key e) < 2 ^ 32" "length (e_val e) < 2 ^ 32" "e_shared e \<le> length (e_key e)" for e
  proof -
    have "length (varint_bytes (e_shared e)) \<le> 5" "length (varint_bytes (length (e_key e) - e_shared e)) \<le> 5"
      "length (varint_bytes (length (e_val e))) \<le> 5"
      using that by (intro varint; linarith)+
    with that(3) show ?thesis by (simp add: entry_bytes_def)
  qed
  with assms show ?thesis
    by (induction es) (force simp: block_bound_def case_prod_unfold)+
qed

lemma restarts_bound:
  assumes "layout es rs"
  shows "length rs \<le> length es + 1"
proof -
  have "set rs \<subseteq> {..length es}" using assms by (auto simp: layout_def)
  moreover have "card (set rs) = length rs"
    using assms by (intro distinct_card) (simp add: layout_def strict_sorted_iff)
  ultimately show ?thesis using card_mono [of "{..length es}" "set rs"] by simp
qed

lemma bound_lengths:
  assumes "(k, v) \<in> set kvs" shows "length k + length v \<le> block_bound kvs"
  using member_le_sum_list [of "length k + length v + 19" "map (\<lambda>(k, v). length k + length v + 19) kvs"] assms
  by (force simp: block_bound_def)

lemma build_block_view:
  assumes "comparator (opt_comparator opt) key_ok" "1 \<le> opt_block_restart_interval opt"
    "\<forall>e \<in> set kvs. key_ok (fst e)" "block_bound kvs < 2 ^ 32"
    "sorted_wrt (\<lambda>a b. cmp (opt_comparator opt) (fst a) (fst b) < 0) kvs"
  shows "\<exists>data it. build_block opt kvs = Some data \<and> open_block (opt_comparator opt) data = Some it \<and>
       block_view (opt_comparator opt) key_ok it kvs (length kvs)"
proof -
  let ?C = "opt_comparator opt"
  have "sorted_wrt (\<lambda>a b. \<exists>c > 0. Compare ?C (fst b) (fst a) = Some c) kvs"
  proof (rule sorted_wrt_mono_rel [OF _ assms(5)])
    fix a b assume ab: "a \<in> set kvs" "b \<in> set kvs" "cmp ?C (fst a) (fst b) < 0"
    then have ok: "key_ok (fst a)" "key_ok (fst b)" using assms(3) by auto
    show "\<exists>c > 0. Compare ?C (fst b) (fst a) = Some c"
      using comparator.cmp_defined [OF assms(1) ok(2,1)] comparator.cmp_flip(1) [OF assms(1) ok(2,1)] ab(3) by auto
  qed
  moreover have lens: "\<forall>(k, v) \<in> set kvs. length k < 2 ^ 32 \<and> length v < 2 ^ 32"
    using bound_lengths assms(4) by fastforce
  moreover obtain b0 where b0: "mk_BlockBuilder opt = Some b0" "bb_inv opt b0 [] [0]"
    using mk_BlockBuilder_inv [OF assms(2)] by blast
  ultimately obtain b es rs where b: "add_entries opt b0 kvs = Some b" "bb_inv opt b es rs" "map snd es = kvs"
    using add_entries_inv [OF b0(2) assms(2), of kvs] by fastforce
  have lay: "layout es rs" using b(2) by (simp add: bb_inv_def)
  have built: "build_block opt kvs = Some (block_bytes es rs)"
    using b0 b BlockBuilder_Finish_bytes [OF b(2)] by (simp add: build_block_def)
  have "\<forall>e \<in> set es. e_shared e \<le> length (e_key e)"
  proof
    fix e assume "e \<in> set es"
    then obtain i where "i < length es" "e = es ! i" by (auto simp only: in_set_conv_nth)
    moreover from this have "shares (e_shared e) (previous_key es i) (e_key e)" using lay by (simp add: layout_def)
    ultimately show "e_shared e \<le> length (e_key e)" by (simp add: shares_def)
  qed
  moreover have "\<forall>e \<in> set es. length (e_key e) < 2 ^ 32 \<and> length (e_val e) < 2 ^ 32"
    using lens by (auto simp: b(3) [symmetric])
  ultimately have "block_fits es rs"
    using entries_bound [of es] restarts_bound [OF lay] assms(4) b(3) by (simp add: block_fits_def length_block_bytes)
  then obtain it where it: "open_block ?C (block_bytes es rs) = Some it" "at ?C es rs (length es) it"
    using open_block_layout [OF lay] by blast
  have "\<forall>e \<in> set es. key_ok (e_key e)" "sorted_wrt (\<lambda>a b. cmp ?C (e_key a) (e_key b) < 0) es"
    using assms(3,5) by (auto simp: b(3) [symmetric] sorted_wrt_map)
  from block_viewI [OF it(2) this] it(1) built show ?thesis by (auto simp: b(3) [symmetric])
qed

subsection \<open>Properties\<close>

text \<open>C7: A block built from entries in increasing key order is read back exactly: forwards from
  \<open>SeekToFirst\<close> with \<open>Next\<close>, backwards from \<open>SeekToLast\<close> with \<open>Prev\<close>; neither the builder nor the
  iterator fails an assertion or leaves the block (for any restart interval of at least 1, any comparator
  that meets its contract, and blocks below 4 GB).\<close>
theorem block_roundtrip:
  assumes "comparator (opt_comparator opt) key_ok" "1 \<le> opt_block_restart_interval opt"
    "\<forall>e \<in> set kvs. key_ok (fst e)" "block_bound kvs < 2 ^ 32"
    "sorted_wrt (\<lambda>a b. cmp (opt_comparator opt) (fst a) (fst b) < 0) kvs" "kvs \<noteq> []"
  shows "\<exists>data it it1 it2 it3 it4. build_block opt kvs = Some data \<and> open_block (opt_comparator opt) data = Some it \<and>
       BlockIter_SeekToFirst it = Some it1 \<and> collect Block_Iter (length kvs) it1 = Some (kvs, it2) \<and>
       BlockIter_SeekToLast it2 = Some it3 \<and> collect_back Block_Iter (length kvs) it3 = Some (rev kvs, it4)"
proof -
  note I = block_iterator [OF assms(1)]
  obtain data it where it: "build_block opt kvs = Some data" "open_block (opt_comparator opt) data = Some it"
    "block_view (opt_comparator opt) key_ok it kvs (length kvs)"
    using build_block_view [OF assms(1-5)] by blast
  obtain it1 it2 where 1: "BlockIter_SeekToFirst it = Some it1" "collect Block_Iter (length kvs) it1 = Some (kvs, it2)"
    "block_view (opt_comparator opt) key_ok it2 kvs (length kvs)"
    using ordered_iterator.scan [OF I it(3)] by (auto simp: Block_Iter_ops)
  obtain it3 it4 where "BlockIter_SeekToLast it2 = Some it3"
    "collect_back Block_Iter (length kvs) it3 = Some (rev kvs, it4)"
    using ordered_iterator.scan_back [OF I 1(3) assms(6)] by (auto simp: Block_Iter_ops)
  with it(1,2) 1(1,2) show ?thesis by blast
qed

definition example_options :: Options where
  "example_options =
     \<lparr>opt_comparator = BytewiseComparator, opt_paranoid_checks = False, opt_block_size = 4096,
      opt_block_restart_interval = 2, opt_compression = kNoCompression, opt_filter_policy = None\<rparr>"

definition example_entries :: "(Slice \<times> Slice) list" where
  "example_entries = [([1, 2, 3], [9]), ([1, 2, 4], []), ([1, 3], [8, 8])]"

lemma example_block:
  "comparator (opt_comparator example_options) (\<lambda>_. True)" "1 \<le> opt_block_restart_interval example_options"
  "block_bound example_entries < 2 ^ 32" "example_entries \<noteq> []"
  "sorted_wrt (\<lambda>a b. cmp (opt_comparator example_options) (fst a) (fst b) < 0) example_entries"
  using bytewise.comparator_axioms
  by (simp_all add: example_options_def example_entries_def block_bound_def BytewiseComparator_def Slice_compare_bytes)

lemma block_roundtrip_witness:
  "\<exists>data it it1 it2 it3 it4. build_block example_options example_entries = Some data \<and>
       open_block (opt_comparator example_options) data = Some it \<and>
       BlockIter_SeekToFirst it = Some it1 \<and>
       collect Block_Iter (length example_entries) it1 = Some (example_entries, it2) \<and>
       BlockIter_SeekToLast it2 = Some it3 \<and>
       collect_back Block_Iter (length example_entries) it3 = Some (rev example_entries, it4)"
  using block_roundtrip [OF example_block(1,2) _ example_block(3,5,4)] by simp

text \<open>C8: \<open>Seek\<close> on a block goes to the first entry at or past its target, from any state of the iterator:
  what follows it is what is left of the entries when those below the target are dropped (none, when
  all are below).\<close>
theorem block_seek:
  assumes "comparator (opt_comparator opt) key_ok" "1 \<le> opt_block_restart_interval opt"
    "\<forall>e \<in> set kvs. key_ok (fst e)" "block_bound kvs < 2 ^ 32"
    "sorted_wrt (\<lambda>a b. cmp (opt_comparator opt) (fst a) (fst b) < 0) kvs" "key_ok s" "key_ok t"
  shows "\<exists>data it it1 it2 it3. build_block opt kvs = Some data \<and> open_block (opt_comparator opt) data = Some it \<and>
       BlockIter_Seek it s = Some it1 \<and> BlockIter_Seek it1 t = Some it2 \<and>
       collect Block_Iter (length kvs - lower_bound (opt_comparator opt) t kvs) it2 =
         Some (dropWhile (\<lambda>e. cmp (opt_comparator opt) (fst e) t < 0) kvs, it3)"
proof -
  note I = block_iterator [OF assms(1)]
  let ?view = "block_view (opt_comparator opt) key_ok"
  obtain data it where it: "build_block opt kvs = Some data" "open_block (opt_comparator opt) data = Some it"
    "?view it kvs (length kvs)"
    using build_block_view [OF assms(1-5)] by blast
  obtain it1 where it1: "BlockIter_Seek it s = Some it1" "?view it1 kvs (lower_bound (opt_comparator opt) s kvs)"
    using ordered_iterator.seek [OF I it(3) assms(6)] by (auto simp: Block_Iter_ops)
  obtain it2 where it2: "BlockIter_Seek it1 t = Some it2" "?view it2 kvs (lower_bound (opt_comparator opt) t kvs)"
    using ordered_iterator.seek [OF I it1(2) assms(7)] by (auto simp: Block_Iter_ops)
  with it(1,2) it1(1) show ?thesis
    using ordered_iterator.collect_from [OF I it2(2)] by (auto simp: lower_bound_def dropWhile_eq_drop)
qed

lemma block_seek_witness:
  "\<exists>data it it1 it2 it3. build_block example_options example_entries = Some data \<and>
       open_block (opt_comparator example_options) data = Some it \<and>
       BlockIter_Seek it [1, 3] = Some it1 \<and> BlockIter_Seek it1 [1, 2, 3, 0] = Some it2 \<and>
       collect Block_Iter (length example_entries - lower_bound (opt_comparator example_options) [1, 2, 3, 0] example_entries) it2 =
         Some (dropWhile (\<lambda>e. cmp (opt_comparator example_options) (fst e) [1, 2, 3, 0] < 0) example_entries, it3)"
  using block_seek [OF example_block(1,2) _ example_block(3,5)] by simp

end
