(* ===== verification/Two_Level_Iterator.thy ===== *)
theory Two_Level_Iterator imports Ldb_Iterator begin

section \<open>leveldb: iterator wrappers and two-level iterators (table/iterator_wrapper.h, table/two_level_iterator.cc)\<close>

text \<open>
  An \<open>IteratorWrapper\<close> holds an iterator, or none, and caches its validity and key. A two-level
  iterator walks an index iterator whose values are handles of blocks, and opens each block with a
  \<open>block_function\<close>. That function and the destructors of the iterators it returns work on an environment
  (a block cache); both are given by a record of functions.
\<close>

subsection \<open>Wrappers\<close>

record 'i IteratorWrapper =
  w_iter :: "'i option"
  w_valid :: bool
  w_key :: Slice

definition wrapper_Update :: "'i Iterator \<Rightarrow> 'i \<Rightarrow> 'i IteratorWrapper \<Rightarrow> 'i IteratorWrapper option" where
  "wrapper_Update I it w =
     (let w = w\<lparr>w_iter := Some it, w_valid := iter_Valid I it\<rparr> in
      if w_valid w then map_option (\<lambda>k. w\<lparr>w_key := k\<rparr>) (iter_key I it) else Some w)"

definition mk_IteratorWrapper :: "'i IteratorWrapper" where
  "mk_IteratorWrapper = \<lparr>w_iter = None, w_valid = False, w_key = []\<rparr>"

text \<open>The iterator that \<open>Set\<close> deletes is its caller's business.\<close>

definition wrapper_Set :: "'i Iterator \<Rightarrow> 'i option \<Rightarrow> 'i IteratorWrapper \<Rightarrow> 'i IteratorWrapper option" where
  "wrapper_Set I new w =
     (case new of
        None \<Rightarrow> Some (w\<lparr>w_iter := None, w_valid := False\<rparr>)
      | Some it \<Rightarrow> wrapper_Update I it w)"

definition wrapper_key :: "'i IteratorWrapper \<Rightarrow> Slice option" where
  "wrapper_key w = do { _ \<leftarrow> ensure (w_valid w); Some (w_key w) }"

definition wrapper_value :: "'i Iterator \<Rightarrow> 'i IteratorWrapper \<Rightarrow> Slice option" where
  "wrapper_value I w = do { _ \<leftarrow> ensure (w_valid w); it \<leftarrow> w_iter w; iter_value I it }"

definition wrapper_status :: "'i Iterator \<Rightarrow> 'i IteratorWrapper \<Rightarrow> Status option" where
  "wrapper_status I w = map_option (iter_status I) (w_iter w)"

definition wrapper_Next :: "'i Iterator \<Rightarrow> 'i IteratorWrapper \<Rightarrow> 'i IteratorWrapper option" where
  "wrapper_Next I w = do { it \<leftarrow> w_iter w; it \<leftarrow> iter_Next I it; wrapper_Update I it w }"

definition wrapper_Prev :: "'i Iterator \<Rightarrow> 'i IteratorWrapper \<Rightarrow> 'i IteratorWrapper option" where
  "wrapper_Prev I w = do { it \<leftarrow> w_iter w; it \<leftarrow> iter_Prev I it; wrapper_Update I it w }"

definition wrapper_Seek :: "'i Iterator \<Rightarrow> 'i IteratorWrapper \<Rightarrow> Slice \<Rightarrow> 'i IteratorWrapper option" where
  "wrapper_Seek I w k = do { it \<leftarrow> w_iter w; it \<leftarrow> iter_Seek I it k; wrapper_Update I it w }"

definition wrapper_SeekToFirst :: "'i Iterator \<Rightarrow> 'i IteratorWrapper \<Rightarrow> 'i IteratorWrapper option" where
  "wrapper_SeekToFirst I w = do { it \<leftarrow> w_iter w; it \<leftarrow> iter_SeekToFirst I it; wrapper_Update I it w }"

definition wrapper_SeekToLast :: "'i Iterator \<Rightarrow> 'i IteratorWrapper \<Rightarrow> 'i IteratorWrapper option" where
  "wrapper_SeekToLast I w = do { it \<leftarrow> w_iter w; it \<leftarrow> iter_SeekToLast I it; wrapper_Update I it w }"

subsection \<open>Two-level iterators\<close>

record ('d, 'e) BlockFunction =
  bf_open :: "'e \<Rightarrow> Slice \<Rightarrow> ('d \<times> 'e) option"
  bf_delete :: "'e \<Rightarrow> 'd \<Rightarrow> 'e option"

record ('i, 'd, 'e) TwoLevelIterator =
  tl_env :: 'e
  tl_status :: Status
  tl_index_iter :: "'i IteratorWrapper"
  tl_data_iter :: "'d IteratorWrapper"
  tl_data_block_handle :: Slice

definition NewTwoLevelIterator :: "'i Iterator \<Rightarrow> 'i \<Rightarrow> 'e \<Rightarrow> ('i, 'd, 'e) TwoLevelIterator option" where
  "NewTwoLevelIterator II index_iter env = do {
     w \<leftarrow> wrapper_Set II (Some index_iter) mk_IteratorWrapper;
     Some \<lparr>tl_env = env, tl_status = StatusOK, tl_index_iter = w, tl_data_iter = mk_IteratorWrapper,
       tl_data_block_handle = []\<rparr>
   }"

definition SaveError :: "Status \<Rightarrow> ('i, 'd, 'e) TwoLevelIterator \<Rightarrow> ('i, 'd, 'e) TwoLevelIterator" where
  "SaveError s t = (if status_ok (tl_status t) \<and> \<not> status_ok s then t\<lparr>tl_status := s\<rparr> else t)"

definition SetDataIterator ::
  "'d Iterator \<Rightarrow> ('d, 'e) BlockFunction \<Rightarrow> 'd option \<Rightarrow> ('i, 'd, 'e) TwoLevelIterator \<Rightarrow> ('i, 'd, 'e) TwoLevelIterator option" where
  "SetDataIterator DI bf data_iter t = do {
     t \<leftarrow> (case w_iter (tl_data_iter t) of
             None \<Rightarrow> Some t
           | Some old \<Rightarrow> do {
               let t = SaveError (iter_status DI old) t;
               env \<leftarrow> bf_delete bf (tl_env t) old;
               Some (t\<lparr>tl_env := env\<rparr>)
             });
     w \<leftarrow> wrapper_Set DI data_iter (tl_data_iter t);
     Some (t\<lparr>tl_data_iter := w\<rparr>)
   }"

definition InitDataBlock ::
  "'i Iterator \<Rightarrow> 'd Iterator \<Rightarrow> ('d, 'e) BlockFunction \<Rightarrow> ('i, 'd, 'e) TwoLevelIterator \<Rightarrow> ('i, 'd, 'e) TwoLevelIterator option" where
  "InitDataBlock II DI bf t =
     (if \<not> w_valid (tl_index_iter t) then SetDataIterator DI bf None t
      else do {
        handle \<leftarrow> wrapper_value II (tl_index_iter t);
        if w_iter (tl_data_iter t) \<noteq> None \<and> Slice_compare handle (tl_data_block_handle t) = 0
        then Some t
        else do {
          (it, env) \<leftarrow> bf_open bf (tl_env t) handle;
          let t = t\<lparr>tl_env := env, tl_data_block_handle := handle\<rparr>;
          SetDataIterator DI bf (Some it) t
        }
      })"

text \<open>\<open>if (data_iter_.iter() != nullptr) data_iter_.f();\<close>\<close>

definition on_data ::
  "('d IteratorWrapper \<Rightarrow> 'd IteratorWrapper option) \<Rightarrow> ('i, 'd, 'e) TwoLevelIterator \<Rightarrow> ('i, 'd, 'e) TwoLevelIterator option" where
  "on_data f t =
     (if w_iter (tl_data_iter t) = None then Some t
      else map_option (\<lambda>w. t\<lparr>tl_data_iter := w\<rparr>) (f (tl_data_iter t)))"

definition on_index ::
  "('i IteratorWrapper \<Rightarrow> 'i IteratorWrapper option) \<Rightarrow> ('i, 'd, 'e) TwoLevelIterator \<Rightarrow> ('i, 'd, 'e) TwoLevelIterator option" where
  "on_index f t = map_option (\<lambda>w. t\<lparr>tl_index_iter := w\<rparr>) (f (tl_index_iter t))"

partial_function (option) SkipEmptyDataBlocksForward ::
  "'i Iterator \<Rightarrow> 'd Iterator \<Rightarrow> ('d, 'e) BlockFunction \<Rightarrow> ('i, 'd, 'e) TwoLevelIterator \<Rightarrow> ('i, 'd, 'e) TwoLevelIterator option" where
  "SkipEmptyDataBlocksForward II DI bf t =
     (if w_iter (tl_data_iter t) = None \<or> \<not> w_valid (tl_data_iter t)
      then if \<not> w_valid (tl_index_iter t) then SetDataIterator DI bf None t
        else on_index (wrapper_Next II) t \<bind>
          (\<lambda>t. InitDataBlock II DI bf t \<bind>
          (\<lambda>t. on_data (wrapper_SeekToFirst DI) t \<bind>
          (\<lambda>t. SkipEmptyDataBlocksForward II DI bf t)))
      else Some t)"

partial_function (option) SkipEmptyDataBlocksBackward ::
  "'i Iterator \<Rightarrow> 'd Iterator \<Rightarrow> ('d, 'e) BlockFunction \<Rightarrow> ('i, 'd, 'e) TwoLevelIterator \<Rightarrow> ('i, 'd, 'e) TwoLevelIterator option" where
  "SkipEmptyDataBlocksBackward II DI bf t =
     (if w_iter (tl_data_iter t) = None \<or> \<not> w_valid (tl_data_iter t)
      then if \<not> w_valid (tl_index_iter t) then SetDataIterator DI bf None t
        else on_index (wrapper_Prev II) t \<bind>
          (\<lambda>t. InitDataBlock II DI bf t \<bind>
          (\<lambda>t. on_data (wrapper_SeekToLast DI) t \<bind>
          (\<lambda>t. SkipEmptyDataBlocksBackward II DI bf t)))
      else Some t)"

declare SkipEmptyDataBlocksForward.simps [code] SkipEmptyDataBlocksBackward.simps [code]

definition TwoLevel_Seek ::
  "'i Iterator \<Rightarrow> 'd Iterator \<Rightarrow> ('d, 'e) BlockFunction \<Rightarrow> ('i, 'd, 'e) TwoLevelIterator \<Rightarrow> Slice \<Rightarrow> ('i, 'd, 'e) TwoLevelIterator option" where
  "TwoLevel_Seek II DI bf t target = do {
     t \<leftarrow> on_index (\<lambda>w. wrapper_Seek II w target) t;
     t \<leftarrow> InitDataBlock II DI bf t;
     t \<leftarrow> on_data (\<lambda>w. wrapper_Seek DI w target) t;
     SkipEmptyDataBlocksForward II DI bf t
   }"

definition TwoLevel_SeekToFirst ::
  "'i Iterator \<Rightarrow> 'd Iterator \<Rightarrow> ('d, 'e) BlockFunction \<Rightarrow> ('i, 'd, 'e) TwoLevelIterator \<Rightarrow> ('i, 'd, 'e) TwoLevelIterator option" where
  "TwoLevel_SeekToFirst II DI bf t = do {
     t \<leftarrow> on_index (wrapper_SeekToFirst II) t;
     t \<leftarrow> InitDataBlock II DI bf t;
     t \<leftarrow> on_data (wrapper_SeekToFirst DI) t;
     SkipEmptyDataBlocksForward II DI bf t
   }"

definition TwoLevel_SeekToLast ::
  "'i Iterator \<Rightarrow> 'd Iterator \<Rightarrow> ('d, 'e) BlockFunction \<Rightarrow> ('i, 'd, 'e) TwoLevelIterator \<Rightarrow> ('i, 'd, 'e) TwoLevelIterator option" where
  "TwoLevel_SeekToLast II DI bf t = do {
     t \<leftarrow> on_index (wrapper_SeekToLast II) t;
     t \<leftarrow> InitDataBlock II DI bf t;
     t \<leftarrow> on_data (wrapper_SeekToLast DI) t;
     SkipEmptyDataBlocksBackward II DI bf t
   }"

definition TwoLevel_Valid :: "('i, 'd, 'e) TwoLevelIterator \<Rightarrow> bool" where
  "TwoLevel_Valid t \<longleftrightarrow> w_valid (tl_data_iter t)"

definition TwoLevel_Next ::
  "'i Iterator \<Rightarrow> 'd Iterator \<Rightarrow> ('d, 'e) BlockFunction \<Rightarrow> ('i, 'd, 'e) TwoLevelIterator \<Rightarrow> ('i, 'd, 'e) TwoLevelIterator option" where
  "TwoLevel_Next II DI bf t = do {
     _ \<leftarrow> ensure (TwoLevel_Valid t);
     w \<leftarrow> wrapper_Next DI (tl_data_iter t);
     SkipEmptyDataBlocksForward II DI bf (t\<lparr>tl_data_iter := w\<rparr>)
   }"

definition TwoLevel_Prev ::
  "'i Iterator \<Rightarrow> 'd Iterator \<Rightarrow> ('d, 'e) BlockFunction \<Rightarrow> ('i, 'd, 'e) TwoLevelIterator \<Rightarrow> ('i, 'd, 'e) TwoLevelIterator option" where
  "TwoLevel_Prev II DI bf t = do {
     _ \<leftarrow> ensure (TwoLevel_Valid t);
     w \<leftarrow> wrapper_Prev DI (tl_data_iter t);
     SkipEmptyDataBlocksBackward II DI bf (t\<lparr>tl_data_iter := w\<rparr>)
   }"

text \<open>The index iterator is never null, so \<open>index_iter_.status()\<close> is defined.\<close>

definition TwoLevel_status :: "'i Iterator \<Rightarrow> 'd Iterator \<Rightarrow> ('i, 'd, 'e) TwoLevelIterator \<Rightarrow> Status" where
  "TwoLevel_status II DI t =
     (case wrapper_status II (tl_index_iter t) of
        Some s \<Rightarrow>
          if \<not> status_ok s then s
          else
            (case wrapper_status DI (tl_data_iter t) of
               Some s \<Rightarrow> if \<not> status_ok s then s else tl_status t
             | None \<Rightarrow> tl_status t)
      | None \<Rightarrow> tl_status t)"

definition TwoLevel_key :: "('i, 'd, 'e) TwoLevelIterator \<Rightarrow> Slice option" where
  "TwoLevel_key t = wrapper_key (tl_data_iter t)"

definition TwoLevel_value :: "'d Iterator \<Rightarrow> ('i, 'd, 'e) TwoLevelIterator \<Rightarrow> Slice option" where
  "TwoLevel_value DI t = wrapper_value DI (tl_data_iter t)"

definition TwoLevel_Iter ::
  "'i Iterator \<Rightarrow> 'd Iterator \<Rightarrow> ('d, 'e) BlockFunction \<Rightarrow> ('i, 'd, 'e) TwoLevelIterator Iterator" where
  "TwoLevel_Iter II DI bf =
     \<lparr>iter_Valid = TwoLevel_Valid, iter_SeekToFirst = TwoLevel_SeekToFirst II DI bf,
      iter_SeekToLast = TwoLevel_SeekToLast II DI bf, iter_Seek = TwoLevel_Seek II DI bf,
      iter_Next = TwoLevel_Next II DI bf, iter_Prev = TwoLevel_Prev II DI bf,
      iter_key = TwoLevel_key, iter_value = TwoLevel_value DI, iter_status = TwoLevel_status II DI\<rparr>"

lemma TwoLevel_Iter_ops:
  "iter_Valid (TwoLevel_Iter II DI bf) = TwoLevel_Valid"
  "iter_SeekToFirst (TwoLevel_Iter II DI bf) = TwoLevel_SeekToFirst II DI bf"
  "iter_SeekToLast (TwoLevel_Iter II DI bf) = TwoLevel_SeekToLast II DI bf"
  "iter_Seek (TwoLevel_Iter II DI bf) = TwoLevel_Seek II DI bf"
  "iter_Next (TwoLevel_Iter II DI bf) = TwoLevel_Next II DI bf"
  "iter_Prev (TwoLevel_Iter II DI bf) = TwoLevel_Prev II DI bf"
  "iter_key (TwoLevel_Iter II DI bf) = TwoLevel_key"
  "iter_value (TwoLevel_Iter II DI bf) = TwoLevel_value DI"
  "iter_status (TwoLevel_Iter II DI bf) = TwoLevel_status II DI"
  by (simp_all add: TwoLevel_Iter_def)

end
