(* ===== verification/Two_Level_Facts.thy ===== *)
theory Two_Level_Facts imports Two_Level_Iterator Ordered_Iterator "HOL-Library.Multiset" begin

section \<open>leveldb: a two-level iterator iterates over the concatenation of its blocks\<close>

text \<open>
  The locale \<open>two_level\<close> is what a two-level iterator relies on: an index iterator, data iterators that
  meet the contract of iterators, and a block function that opens the block of each handle. The resources that open
  data iterators hold in the environment are counted by a multiset; an iterator holds one at most, and a block can be opened
  while fewer than \<open>room\<close> are held. Its conclusion is that the
  two-level iterator meets the contract in turn.
\<close>

subsection \<open>Wrappers\<close>

context ordered_iterator
begin

definition wrapper_at :: "'i IteratorWrapper \<Rightarrow> (Slice \<times> Slice) list \<Rightarrow> nat \<Rightarrow> bool" where
  "wrapper_at w es i \<longleftrightarrow> (\<exists>it. w_iter w = Some it \<and> view it es i) \<and> (w_valid w \<longleftrightarrow> i < length es) \<and>
     (i < length es \<longrightarrow> w_key w = fst (es ! i))"

lemma wrapper_Update_at:
  "view it es i \<Longrightarrow> \<exists>w'. wrapper_Update I it w = Some w' \<and> wrapper_at w' es i"
  using valid [of it es i] key_at [of it es i] by (auto simp: wrapper_Update_def wrapper_at_def Let_def)

lemma wrapper_Set_at:
  "view it es i \<Longrightarrow> \<exists>w'. wrapper_Set I (Some it) w = Some w' \<and> wrapper_at w' es i"
  using wrapper_Update_at by (simp add: wrapper_Set_def)

lemma wrapper_position: "wrapper_at w es i \<Longrightarrow> i \<le> length es"
  using position by (auto simp: wrapper_at_def)

lemma wrapper_moves:
  assumes "wrapper_at w es i"
  shows "\<exists>w'. wrapper_SeekToFirst I w = Some w' \<and> wrapper_at w' es 0"
    and "\<exists>w'. wrapper_SeekToLast I w = Some w' \<and> wrapper_at w' es (length es - 1)"
    and "key_ok t \<Longrightarrow> \<exists>w'. wrapper_Seek I w t = Some w' \<and> wrapper_at w' es (lower_bound C t es)"
    and "i < length es \<Longrightarrow> \<exists>w'. wrapper_Next I w = Some w' \<and> wrapper_at w' es (Suc i)"
    and "i < length es \<Longrightarrow> \<exists>w'. wrapper_Prev I w = Some w' \<and> wrapper_at w' es (if i = 0 then length es else i - 1)"
    and "i < length es \<Longrightarrow> wrapper_value I w = Some (snd (es ! i))"
    and "wrapper_status I w = Some StatusOK"
proof -
  obtain it where it: "w_iter w = Some it" "view it es i" and v: "w_valid w \<longleftrightarrow> i < length es"
    using assms by (auto simp: wrapper_at_def)
  show "\<exists>w'. wrapper_SeekToFirst I w = Some w' \<and> wrapper_at w' es 0"
    using first [OF it(2)] wrapper_Update_at it(1) by (fastforce simp: wrapper_SeekToFirst_def)
  show "\<exists>w'. wrapper_SeekToLast I w = Some w' \<and> wrapper_at w' es (length es - 1)"
    using last [OF it(2)] wrapper_Update_at it(1) by (fastforce simp: wrapper_SeekToLast_def)
  show "\<exists>w'. wrapper_Seek I w t = Some w' \<and> wrapper_at w' es (lower_bound C t es)" if "key_ok t"
    using seek [OF it(2) that] wrapper_Update_at it(1) by (fastforce simp: wrapper_Seek_def)
  show "wrapper_status I w = Some StatusOK" using it status [OF it(2)] by (simp add: wrapper_status_def)
  assume i: "i < length es"
  show "\<exists>w'. wrapper_Next I w = Some w' \<and> wrapper_at w' es (Suc i)"
    using step [OF it(2) i] wrapper_Update_at it(1) by (fastforce simp: wrapper_Next_def)
  show "\<exists>w'. wrapper_Prev I w = Some w' \<and> wrapper_at w' es (if i = 0 then length es else i - 1)"
    using step_back [OF it(2) i] wrapper_Update_at it(1) by (fastforce simp: wrapper_Prev_def)
  show "wrapper_value I w = Some (snd (es ! i))"
    using value_at [OF it(2) i] it(1) v i by (simp add: wrapper_value_def)
qed

end

subsection \<open>The interface of the blocks\<close>

locale two_level = index: ordered_iterator C key_ok II iview
  for C :: Comparator and key_ok :: "Slice \<Rightarrow> bool" and II :: "'i Iterator" and iview +
  fixes DI :: "'d Iterator" and dview :: "'t multiset \<Rightarrow> 'd \<Rightarrow> (Slice \<times> Slice) list \<Rightarrow> nat \<Rightarrow> bool"
    and bf :: "('d, 'e) BlockFunction" and env_ok :: "'e \<Rightarrow> bool" and held :: "'e \<Rightarrow> 't multiset"
    and room :: nat
    and blk :: "Slice \<Rightarrow> (Slice \<times> Slice) list option"
  assumes data: "ordered_iterator C key_ok DI (dview r)"
    and one: "dview r d es i \<Longrightarrow> size r \<le> 1"
    and opens: "env_ok e \<Longrightarrow> size (held e) < room \<Longrightarrow> blk h = Some es \<Longrightarrow>
      \<exists>d e' r. bf_open bf e h = Some (d, e') \<and> dview r d es (length es) \<and> env_ok e' \<and> held e' = held e + r"
    and deletes: "env_ok e \<Longrightarrow> dview r d es i \<Longrightarrow> r \<subseteq># held e \<Longrightarrow>
      \<exists>e'. bf_delete bf e d = Some e' \<and> env_ok e' \<and> held e' = held e - r"
begin

text \<open>The index \<open>ix\<close> of the blocks \<open>bs\<close>: each separator is at or past its block and before the next.\<close>

definition indexed :: "(Slice \<times> Slice) list \<Rightarrow> (Slice \<times> Slice) list list \<Rightarrow> bool" where
  "indexed ix bs \<longleftrightarrow> length ix = length bs \<and>
     (\<forall>j < length bs. blk (snd (ix ! j)) = Some (bs ! j) \<and> bs ! j \<noteq> [] \<and>
        (\<forall>e \<in> set (bs ! j). key_ok (fst e) \<and> cmp C (fst e) (fst (ix ! j)) \<le> 0)) \<and>
     (\<forall>j. Suc j < length bs \<longrightarrow> (\<forall>e \<in> set (bs ! Suc j). cmp C (fst (ix ! j)) (fst e) < 0))"

definition block_start :: "(Slice \<times> Slice) list list \<Rightarrow> nat \<Rightarrow> nat" where
  "block_start bs j = length (concat (take j bs))"

definition env_state :: "('i, 'd, 'e) TwoLevelIterator \<Rightarrow> 't multiset \<Rightarrow> bool" where
  "env_state t r \<longleftrightarrow> env_ok (tl_env t) \<and> r \<subseteq># held (tl_env t) \<and> size (held (tl_env t)) + 1 < room + size r \<and> tl_status t = StatusOK"

definition data_none :: "('i, 'd, 'e) TwoLevelIterator \<Rightarrow> bool" where
  "data_none t \<longleftrightarrow> w_iter (tl_data_iter t) = None \<and> \<not> w_valid (tl_data_iter t) \<and> env_state t {#}"

definition data_at :: "('i, 'd, 'e) TwoLevelIterator \<Rightarrow> (Slice \<times> Slice) list \<Rightarrow> nat \<Rightarrow> bool" where
  "data_at t es q \<longleftrightarrow> blk (tl_data_block_handle t) = Some es \<and>
     (\<exists>r. ordered_iterator.wrapper_at (dview r) (tl_data_iter t) es q \<and> env_state t r)"

definition data_some :: "('i, 'd, 'e) TwoLevelIterator \<Rightarrow> bool" where
  "data_some t \<longleftrightarrow> data_none t \<or> (\<exists>es q. data_at t es q)"

definition at_index :: "('i, 'd, 'e) TwoLevelIterator \<Rightarrow> (Slice \<times> Slice) list \<Rightarrow> nat \<Rightarrow> bool" where
  "at_index t ix j \<longleftrightarrow> index.wrapper_at (tl_index_iter t) ix j"

lemma SetDataIterator_none:
  assumes "data_some t"
  shows "\<exists>t'. SetDataIterator DI bf None t = Some t' \<and> data_none t' \<and> tl_index_iter t' = tl_index_iter t"
proof (cases "data_none t")
  case True
  then show ?thesis by (simp add: SetDataIterator_def data_none_def wrapper_Set_def env_state_def)
next
  case False
  then obtain es q r where w: "ordered_iterator.wrapper_at (dview r) (tl_data_iter t) es q" and e: "env_state t r"
    using assms by (auto simp: data_some_def data_at_def)
  obtain d where d: "w_iter (tl_data_iter t) = Some d" "dview r d es q"
    using w ordered_iterator.wrapper_at_def [OF data] by blast
  obtain e' where "bf_delete bf (tl_env t) d = Some e'" "env_ok e'" "held e' = held (tl_env t) - r"
    using deletes [OF _ d(2)] e by (auto simp: env_state_def)
  moreover have "size (held (tl_env t) - r) + 1 < room"
    using e size_Diff_submset [of r "held (tl_env t)"] size_mset_mono [of r "held (tl_env t)"] by (auto simp: env_state_def)
  ultimately show ?thesis using d e ordered_iterator.status [OF data d(2)]
    by (simp add: SetDataIterator_def SaveError_def data_none_def wrapper_Set_def env_state_def Let_def)
qed

lemma SetDataIterator_some:
  assumes "data_some t" "bf_open bf (tl_env t) h = Some (d, e)" "dview r d es i" "env_ok e" "held e = held (tl_env t) + r"
    "blk h = Some es"
  shows "\<exists>t'. SetDataIterator DI bf (Some d) (t\<lparr>tl_env := e, tl_data_block_handle := h\<rparr>) = Some t' \<and>
    data_at t' es i \<and> tl_index_iter t' = tl_index_iter t"
proof -
  let ?t = "t\<lparr>tl_env := e, tl_data_block_handle := h\<rparr>"
  obtain w where w: "wrapper_Set DI (Some d) (tl_data_iter t) = Some w" "ordered_iterator.wrapper_at (dview r) w es i"
    using ordered_iterator.wrapper_Set_at [OF data assms(3)] by blast
  show ?thesis
  proof (cases "data_none t")
    case True
    with w assms(4-6) show ?thesis
      by (auto simp: SetDataIterator_def data_none_def data_at_def env_state_def)
  next
    case False
    then obtain es' q r' where w': "ordered_iterator.wrapper_at (dview r') (tl_data_iter t) es' q" and e: "env_state t r'"
      using assms(1) by (auto simp: data_some_def data_at_def)
    obtain d' where d': "w_iter (tl_data_iter t) = Some d'" "dview r' d' es' q"
      using w' ordered_iterator.wrapper_at_def [OF data] by blast
    have sub: "r' \<subseteq># held e" using e assms(5) by (auto simp: env_state_def subset_mset.add_increasing2)
    obtain e' where "bf_delete bf e d' = Some e'" "env_ok e'" "held e' = held e - r'"
      using deletes [OF assms(4) d'(2) sub] by blast
    moreover have "r \<subseteq># held e - r'"
      using subset_mset.add_diff_assoc2 [of r' "held (tl_env t)" r] e assms(5) by (metis env_state_def mset_subset_eq_add_right)
    moreover have "size (held e - r') + 1 < room + size r"
      using e assms(5) size_Diff_submset [OF sub] size_mset_mono [of r' "held (tl_env t)"] by (auto simp: env_state_def)
    ultimately show ?thesis
      using d' w assms(6) e ordered_iterator.status [OF data d'(2)]
      by (auto simp: SetDataIterator_def SaveError_def data_at_def env_state_def Let_def)
  qed
qed


lemma at_index_moves:
  assumes "at_index t ix j"
  shows "\<exists>t'. on_index (wrapper_SeekToFirst II) t = Some t' \<and> at_index t' ix 0 \<and> (data_some t \<longrightarrow> data_some t')"
    and "\<exists>t'. on_index (wrapper_SeekToLast II) t = Some t' \<and> at_index t' ix (length ix - 1) \<and> (data_some t \<longrightarrow> data_some t')"
    and "key_ok k \<Longrightarrow> \<exists>t'. on_index (\<lambda>w. wrapper_Seek II w k) t = Some t' \<and> at_index t' ix (lower_bound C k ix) \<and> (data_some t \<longrightarrow> data_some t')"
    and "j < length ix \<Longrightarrow> \<exists>t'. on_index (wrapper_Next II) t = Some t' \<and> at_index t' ix (Suc j) \<and> (data_some t \<longrightarrow> data_some t')"
    and "j < length ix \<Longrightarrow> \<exists>t'. on_index (wrapper_Prev II) t = Some t' \<and> at_index t' ix (if j = 0 then length ix else j - 1) \<and>
      (data_some t \<longrightarrow> data_some t')"
proof -
  have keep: "data_some t \<longrightarrow> data_some (t\<lparr>tl_index_iter := w\<rparr>)" for w
    by (auto simp: data_some_def data_none_def data_at_def env_state_def)
  note moves = index.wrapper_moves [OF assms [unfolded at_index_def]]
  show "\<exists>t'. on_index (wrapper_SeekToFirst II) t = Some t' \<and> at_index t' ix 0 \<and> (data_some t \<longrightarrow> data_some t')"
    using moves(1) keep by (auto simp: on_index_def at_index_def)
  show "\<exists>t'. on_index (wrapper_SeekToLast II) t = Some t' \<and> at_index t' ix (length ix - 1) \<and> (data_some t \<longrightarrow> data_some t')"
    using moves(2) keep by (auto simp: on_index_def at_index_def)
  show "\<exists>t'. on_index (\<lambda>w. wrapper_Seek II w k) t = Some t' \<and> at_index t' ix (lower_bound C k ix) \<and> (data_some t \<longrightarrow> data_some t')"
    if "key_ok k" using moves(3) [OF that] keep by (auto simp: on_index_def at_index_def)
  show "\<exists>t'. on_index (wrapper_Next II) t = Some t' \<and> at_index t' ix (Suc j) \<and> (data_some t \<longrightarrow> data_some t')"
    if "j < length ix" using moves(4) [OF that] keep by (auto simp: on_index_def at_index_def)
  show "\<exists>t'. on_index (wrapper_Prev II) t = Some t' \<and> at_index t' ix (if j = 0 then length ix else j - 1) \<and>
      (data_some t \<longrightarrow> data_some t')"
    if "j < length ix" using moves(5) [OF that] keep by (auto simp: on_index_def at_index_def)
qed

lemma data_at_moves:
  assumes "data_at t es q" "\<And>r w. ordered_iterator.wrapper_at (dview r) w es q \<Longrightarrow>
    \<exists>w'. f w = Some w' \<and> ordered_iterator.wrapper_at (dview r) w' es q'"
  shows "\<exists>t'. on_data f t = Some t' \<and> data_at t' es q' \<and> tl_index_iter t' = tl_index_iter t"
proof -
  obtain r where r: "blk (tl_data_block_handle t) = Some es" "ordered_iterator.wrapper_at (dview r) (tl_data_iter t) es q" "env_state t r"
    using assms(1) by (auto simp: data_at_def)
  obtain w' where w': "f (tl_data_iter t) = Some w'" "ordered_iterator.wrapper_at (dview r) w' es q'"
    using assms(2) [OF r(2)] by blast
  have "w_iter (tl_data_iter t) \<noteq> None" using r(2) ordered_iterator.wrapper_at_def [OF data] by auto
  with r w' show ?thesis by (auto simp: on_data_def data_at_def env_state_def)
qed

lemma InitDataBlock_ok:
  assumes "data_some t" "at_index t ix j" "indexed ix bs"
  shows "\<exists>t'. InitDataBlock II DI bf t = Some t' \<and> at_index t' ix j \<and>
    (if j < length bs then \<exists>q. data_at t' (bs ! j) q else data_none t')"
proof -
  have len: "length ix = length bs" using assms(3) by (simp add: indexed_def)
  have valid: "w_valid (tl_index_iter t) \<longleftrightarrow> j < length bs"
    using assms(2) len by (simp add: at_index_def index.wrapper_at_def)
  show ?thesis
  proof (cases "j < length bs")
    case False
    then show ?thesis
      using SetDataIterator_none [OF assms(1)] valid assms(2) by (auto simp: InitDataBlock_def at_index_def)
  next
    case True
    let ?h = "snd (ix ! j)"
    have handle: "wrapper_value II (tl_index_iter t) = Some ?h"
      using index.wrapper_moves(6) assms(2) True len by (simp add: at_index_def)
    have blk: "blk ?h = Some (bs ! j)" using assms(3) True by (simp add: indexed_def)
    show ?thesis
    proof (cases "w_iter (tl_data_iter t) \<noteq> None \<and> Slice_compare ?h (tl_data_block_handle t) = 0")
      case cached: True
      then have "?h = tl_data_block_handle t" by (simp add: Slice_compare_bytes bytes_cmp_eq)
      then have "\<exists>q. data_at t (bs ! j) q"
        using cached assms(1) blk by (auto simp: data_some_def data_none_def data_at_def)
      then show ?thesis using cached handle valid True assms(2) by (simp add: InitDataBlock_def)
    next
      case False
      have "env_ok (tl_env t)" using assms(1) by (auto simp: data_some_def data_none_def data_at_def env_state_def)
      moreover have "size (held (tl_env t)) < room"
        using assms(1) ordered_iterator.wrapper_at_def [OF data] one
        by (fastforce simp: data_some_def data_none_def data_at_def env_state_def)
      ultimately obtain d e r where
        o: "bf_open bf (tl_env t) ?h = Some (d, e)" "dview r d (bs ! j) (length (bs ! j))" "env_ok e" "held e = held (tl_env t) + r"
        using opens blk by blast
      obtain t' where "SetDataIterator DI bf (Some d) (t\<lparr>tl_env := e, tl_data_block_handle := ?h\<rparr>) = Some t'"
        "data_at t' (bs ! j) (length (bs ! j))" "tl_index_iter t' = tl_index_iter t"
        using SetDataIterator_some [OF assms(1) o blk] by blast
      then show ?thesis
        using False handle valid True assms(2) o(1) by (auto simp: InitDataBlock_def at_index_def)
    qed
  qed
qed

text \<open>After a move of the index: open its block, if any, and move in it with \<open>f\<close>.\<close>

lemma open_block_at:
  assumes "indexed ix bs" "at_index t ix j" "data_some t" "\<And>r w es q. ordered_iterator.wrapper_at (dview r) w es q \<Longrightarrow>
    \<exists>w'. f w = Some w' \<and> ordered_iterator.wrapper_at (dview r) w' es (g es)"
  shows "\<exists>t2 t3. InitDataBlock II DI bf t = Some t2 \<and> on_data f t2 = Some t3 \<and> at_index t3 ix j \<and>
    (if j < length bs then data_at t3 (bs ! j) (g (bs ! j)) else data_none t3)"
proof -
  obtain t2 where t2: "InitDataBlock II DI bf t = Some t2" "at_index t2 ix j"
    "if j < length bs then \<exists>q. data_at t2 (bs ! j) q else data_none t2"
    using InitDataBlock_ok [OF assms(3,2,1)] by blast
  show ?thesis
  proof (cases "j < length bs")
    case True
    then obtain q where "data_at t2 (bs ! j) q" using t2(3) by auto
    from data_at_moves [OF this, of f "g (bs ! j)"] assms(4)
    obtain t3 where "on_data f t2 = Some t3" "data_at t3 (bs ! j) (g (bs ! j))" "tl_index_iter t3 = tl_index_iter t2" by blast
    with t2 True show ?thesis by (simp add: at_index_def)
  next
    case False
    with t2 have "data_none t2" by simp
    then have "on_data f t2 = Some t2" by (simp add: on_data_def data_none_def)
    with t2 False show ?thesis by simp
  qed
qed

definition positioned :: "('i, 'd, 'e) TwoLevelIterator \<Rightarrow> (Slice \<times> Slice) list \<Rightarrow> (Slice \<times> Slice) list list \<Rightarrow> nat \<Rightarrow> bool" where
  "positioned t ix bs p \<longleftrightarrow> (\<exists>j. at_index t ix j \<and>
     (if j < length bs then \<exists>q < length (bs ! j). data_at t (bs ! j) q \<and> p = block_start bs j + q
      else data_none t \<and> p = length (concat bs)))"

lemma block_start_Suc: "j < length bs \<Longrightarrow> block_start bs (Suc j) = block_start bs j + length (bs ! j)"
  by (simp add: block_start_def take_Suc_conv_app_nth)

lemma block_start_all: "length bs \<le> j \<Longrightarrow> block_start bs j = length (concat bs)"
  by (simp add: block_start_def)

lemma block_start_0: "block_start bs 0 = 0"
  by (simp add: block_start_def)

lemma data_at_valid: "data_at t es q \<Longrightarrow> w_iter (tl_data_iter t) \<noteq> None \<and> (w_valid (tl_data_iter t) \<longleftrightarrow> q < length es) \<and> q \<le> length es"
  unfolding data_at_def
  using ordered_iterator.wrapper_at_def [OF data] ordered_iterator.wrapper_position [OF data] by blast

lemma skip_stop:
  assumes "indexed ix bs" "at_index t ix j" "length bs \<le> j" "data_none t"
  shows "\<exists>t'. SkipEmptyDataBlocksForward II DI bf t = Some t' \<and> positioned t' ix bs (length (concat bs))"
    and "\<exists>t'. SkipEmptyDataBlocksBackward II DI bf t = Some t' \<and> positioned t' ix bs (length (concat bs))"
proof -
  obtain t' where t': "SetDataIterator DI bf None t = Some t'" "data_none t'" "tl_index_iter t' = tl_index_iter t"
    using SetDataIterator_none [of t] assms(4) by (auto simp: data_some_def)
  have "\<not> w_valid (tl_index_iter t)"
    using assms(1-3) by (simp add: at_index_def index.wrapper_at_def indexed_def)
  then have "SkipEmptyDataBlocksForward II DI bf t = Some t'" "SkipEmptyDataBlocksBackward II DI bf t = Some t'"
    using assms(4) t'(1) by (simp_all add: SkipEmptyDataBlocksForward.simps [of _ _ _ t]
      SkipEmptyDataBlocksBackward.simps [of _ _ _ t] data_none_def)
  moreover have "positioned t' ix bs (length (concat bs))"
    using t' assms(2,3) by (auto simp: positioned_def at_index_def intro!: exI [of _ j])
  ultimately show "\<exists>t'. SkipEmptyDataBlocksForward II DI bf t = Some t' \<and> positioned t' ix bs (length (concat bs))"
    "\<exists>t'. SkipEmptyDataBlocksBackward II DI bf t = Some t' \<and> positioned t' ix bs (length (concat bs))"
    by blast+
qed

lemma skip_here:
  assumes "at_index t ix j" "j < length bs" "data_at t (bs ! j) q" "q < length (bs ! j)"
  shows "\<exists>t'. SkipEmptyDataBlocksForward II DI bf t = Some t' \<and> positioned t' ix bs (block_start bs j + q)"
    and "\<exists>t'. SkipEmptyDataBlocksBackward II DI bf t = Some t' \<and> positioned t' ix bs (block_start bs j + q)"
  using data_at_valid [OF assms(3)] assms
  by (auto simp: SkipEmptyDataBlocksForward.simps [of _ _ _ t] SkipEmptyDataBlocksBackward.simps [of _ _ _ t] positioned_def)

lemma skip_forward:
  assumes "indexed ix bs" "at_index t ix j" "j < length bs" "data_at t (bs ! j) q"
  shows "\<exists>t'. SkipEmptyDataBlocksForward II DI bf t = Some t' \<and> positioned t' ix bs (block_start bs j + q)"
proof (cases "q < length (bs ! j)")
  case True
  then show ?thesis using skip_here(1) assms by blast
next
  case False
  then have q: "q = length (bs ! j)" using data_at_valid [OF assms(4)] by simp
  have len: "length ix = length bs" using assms(1) by (simp add: indexed_def)
  have some: "data_some t" using assms(4) by (auto simp: data_some_def)
  obtain t1 where t1: "on_index (wrapper_Next II) t = Some t1" "at_index t1 ix (Suc j)" "data_some t1"
    using at_index_moves(4) [OF assms(2)] assms(3) len some by auto
  obtain t2 t3 where t3: "InitDataBlock II DI bf t1 = Some t2" "on_data (wrapper_SeekToFirst DI) t2 = Some t3"
    "at_index t3 ix (Suc j)" "if Suc j < length bs then data_at t3 (bs ! Suc j) 0 else data_none t3"
    using open_block_at [OF assms(1) t1(2,3), of "wrapper_SeekToFirst DI" "\<lambda>_. 0"] ordered_iterator.wrapper_moves(1) [OF data]
    by blast
  have "w_valid (tl_index_iter t)" using assms(2,3) len by (simp add: at_index_def index.wrapper_at_def)
  then have unfold: "SkipEmptyDataBlocksForward II DI bf t = SkipEmptyDataBlocksForward II DI bf t3"
    using t1(1) t3(1,2) q data_at_valid [OF assms(4)] by (simp add: SkipEmptyDataBlocksForward.simps [of _ _ _ t])
  have p: "block_start bs j + q = block_start bs (Suc j)" using q block_start_Suc [OF assms(3)] by simp
  show ?thesis
  proof (cases "Suc j < length bs")
    case True
    then have "0 < length (bs ! Suc j)" using assms(1) by (simp add: indexed_def)
    then show ?thesis using skip_here(1) [of t3 ix "Suc j" bs 0] t3 True unfold p by simp
  next
    case False
    then show ?thesis
      using skip_stop(1) [OF assms(1) t3(3)] t3(4) unfold p block_start_all [of bs "Suc j"] by simp
  qed
qed

lemma skip_backward:
  assumes "indexed ix bs" "at_index t ix j" "j < length bs" "data_at t (bs ! j) q"
  shows "\<exists>t'. SkipEmptyDataBlocksBackward II DI bf t = Some t' \<and> positioned t' ix bs
    (if q < length (bs ! j) then block_start bs j + q else if j = 0 then length (concat bs) else block_start bs j - 1)"
proof (cases "q < length (bs ! j)")
  case True
  then show ?thesis using skip_here(2) assms by simp
next
  case False
  have len: "length ix = length bs" using assms(1) by (simp add: indexed_def)
  have some: "data_some t" using assms(4) by (auto simp: data_some_def)
  let ?j = "if j = 0 then length ix else j - 1"
  obtain t1 where t1: "on_index (wrapper_Prev II) t = Some t1" "at_index t1 ix ?j" "data_some t1"
    using at_index_moves(5) [OF assms(2)] assms(3) len some by auto
  obtain t2 t3 where t3: "InitDataBlock II DI bf t1 = Some t2" "on_data (wrapper_SeekToLast DI) t2 = Some t3"
    "at_index t3 ix ?j" "if ?j < length bs then data_at t3 (bs ! ?j) (length (bs ! ?j) - 1) else data_none t3"
    using open_block_at [OF assms(1) t1(2,3), of "wrapper_SeekToLast DI" "\<lambda>es. length es - 1"]
      ordered_iterator.wrapper_moves(2) [OF data] by blast
  have "w_valid (tl_index_iter t)" using assms(2,3) len by (simp add: at_index_def index.wrapper_at_def)
  then have unfold: "SkipEmptyDataBlocksBackward II DI bf t = SkipEmptyDataBlocksBackward II DI bf t3"
    using t1(1) t3(1,2) False data_at_valid [OF assms(4)] by (simp add: SkipEmptyDataBlocksBackward.simps [of _ _ _ t])
  show ?thesis
  proof (cases "j = 0")
    case j0: False
    then have j: "?j = j - 1" "j - 1 < length bs" using assms(3) by auto
    have pos: "length (bs ! (j - 1)) - 1 < length (bs ! (j - 1))" using assms(1) j(2) by (simp add: indexed_def)
    have "block_start bs j = block_start bs (j - 1) + length (bs ! (j - 1))"
      using block_start_Suc [OF j(2)] j0 by simp
    then have "block_start bs j - 1 = block_start bs (j - 1) + (length (bs ! (j - 1)) - 1)" using pos by linarith
    then have p: "(if q < length (bs ! j) then block_start bs j + q else if j = 0 then length (concat bs)
        else block_start bs j - 1) = block_start bs (j - 1) + (length (bs ! (j - 1)) - 1)"
      using j0 False by simp
    have "at_index t3 ix (j - 1)" "data_at t3 (bs ! (j - 1)) (length (bs ! (j - 1)) - 1)"
      using t3(3,4) unfolding j(1) using j(2) by simp_all
    from skip_here(2) [OF this(1) j(2) this(2) pos] show ?thesis unfolding p unfold .
  next
    case True
    then show ?thesis using skip_stop(2) [OF assms(1) t3(3)] t3(4) False unfold len by simp
  qed
qed

subsection \<open>The contract\<close>

definition view2 :: "('i, 'd, 'e) TwoLevelIterator \<Rightarrow> (Slice \<times> Slice) list \<Rightarrow> nat \<Rightarrow> bool" where
  "view2 t es p \<longleftrightarrow> (\<exists>ix bs. indexed ix bs \<and> es = concat bs \<and> positioned t ix bs p \<and>
     sorted_wrt (\<lambda>a b. cmp C (fst a) (fst b) < 0) es)"

lemma split_position:
  assumes "p < length (concat bs)" "j < length bs" "q < length (bs ! j)" "p = block_start bs j + q"
  shows "concat bs ! p = bs ! j ! q"
proof -
  have "concat bs = concat (take j bs) @ (bs ! j) @ concat (drop (Suc j) bs)"
    using id_take_nth_drop [OF assms(2)] by (metis concat.simps(2) concat_append)
  then show ?thesis using assms by (simp add: block_start_def nth_append)
qed

lemma block_bound:
  assumes "j < length bs" "q < length (bs ! j)"
  shows "block_start bs j + q < length (concat bs)"
proof -
  have "concat bs = concat (take j bs) @ (bs ! j) @ concat (drop (Suc j) bs)"
    using id_take_nth_drop [OF assms(1)] by (metis concat.simps(2) concat_append)
  from arg_cong [OF this, of length]
  have "length (concat bs) = block_start bs j + (length (bs ! j) + length (concat (drop (Suc j) bs)))"
    by (simp only: length_append block_start_def)
  with assms(2) show ?thesis by linarith
qed

lemma positionedE:
  assumes "positioned t ix bs p" "p < length (concat bs)"
  obtains j q where "at_index t ix j" "j < length bs" "q < length (bs ! j)" "data_at t (bs ! j) q" "p = block_start bs j + q"
  using assms by (auto simp: positioned_def split: if_splits)

lemma positioned_valid: "positioned t ix bs p \<Longrightarrow> p \<le> length (concat bs) \<and> (TwoLevel_Valid t \<longleftrightarrow> p < length (concat bs))"
proof -
  assume "positioned t ix bs p"
  then obtain j where j: "if j < length bs then \<exists>q < length (bs ! j). data_at t (bs ! j) q \<and> p = block_start bs j + q
      else data_none t \<and> p = length (concat bs)" by (auto simp: positioned_def)
  show ?thesis
  proof (cases "j < length bs")
    case True
    then obtain q where "q < length (bs ! j)" "data_at t (bs ! j) q" "p = block_start bs j + q" using j by auto
    with block_bound [OF True] data_at_valid show ?thesis by (auto simp: TwoLevel_Valid_def intro: less_imp_le)
  next
    case False
    with j show ?thesis by (simp add: TwoLevel_Valid_def data_none_def)
  qed
qed

lemma positioned_some: "positioned t ix bs p \<Longrightarrow> data_some t \<and> (\<exists>j. at_index t ix j)"
  by (auto simp: positioned_def data_some_def split: if_splits)

text \<open>The lower bound of a key lies in the block that the index leads to, or at the start of the next.\<close>

lemma index_keys: "iview it ix j \<Longrightarrow> \<forall>e \<in> set ix. key_ok (fst e)"
  by (rule index.keys)

lemma lower_bound_concat:
  assumes "indexed ix bs" "\<forall>e \<in> set ix. key_ok (fst e)" "key_ok k"
  defines "j \<equiv> lower_bound C k ix"
  shows "lower_bound C k (concat bs) = (if j < length bs then block_start bs j + lower_bound C k (bs ! j) else length (concat bs))"
proof (rule lower_boundI)
  note ix = assms(1)[unfolded indexed_def]
  have before: "cmp C (fst e) k < 0" if "i < j" "e \<in> set (bs ! i)" for i e
  proof -
    have i: "i < length ix" using that(1) lower_bound_le [of C k ix] unfolding j_def by simp
    have "cmp C (fst (ix ! i)) k < 0" using lower_bound_before that(1) by (simp add: j_def)
    moreover have "cmp C (fst e) (fst (ix ! i)) \<le> 0" "key_ok (fst e)" "key_ok (fst (ix ! i))"
      using ix i that(2) assms(2) by auto
    ultimately show ?thesis using index.cmp_less_trans assms(3) by blast
  qed
  have jle: "j \<le> length bs" using lower_bound_le [of C k ix] ix by (simp add: j_def)
  let ?p = "if j < length bs then block_start bs j + lower_bound C k (bs ! j) else length (concat bs)"
  show "cmp C (fst (concat bs ! m)) k < 0" if "m < ?p" for m
  proof (cases "m < block_start bs j")
    case True
    then have "concat bs ! m \<in> set (concat (take j bs))"
      by (metis append_take_drop_id block_start_def concat_append nth_append nth_mem)
    then obtain i where "i < j" "concat bs ! m \<in> set (bs ! i)"
      using jle by (auto simp: in_set_conv_nth [of _ "take j bs"])
    then show ?thesis by (rule before)
  next
    case False
    with that have j: "j < length bs" using block_start_all [of bs j] by (auto split: if_splits)
    define q where "q = m - block_start bs j"
    have q: "q < lower_bound C k (bs ! j)" "m = block_start bs j + q" using False that j by (auto simp: q_def)
    have "q < length (bs ! j)" using q(1) lower_bound_le [of C k "bs ! j"] by simp
    then show ?thesis
      using split_position [OF _ j _ q(2)] block_bound [OF j] q lower_bound_before by simp
  qed
  show "\<not> cmp C (fst (concat bs ! ?p)) k < 0" if "?p < length (concat bs)"
  proof -
    have j: "j < length bs" using that by (auto split: if_splits)
    define q where "q = lower_bound C k (bs ! j)"
    have p: "?p = block_start bs j + q" using j by (simp add: q_def)
    show ?thesis
    proof (cases "q < length (bs ! j)")
      case True
      then show ?thesis
        using split_position [OF that j True p] lower_bound_at [of C k "bs ! j"] by (simp add: q_def)
    next
      case False
      then have q: "q = length (bs ! j)" using lower_bound_le [of C k "bs ! j"] by (simp add: q_def)
      then have start: "?p = block_start bs (Suc j) + 0" using p block_start_Suc [OF j] by simp
      have sj: "Suc j < length bs"
        using that start block_start_all [of bs "Suc j"] by (cases "Suc j < length bs") auto
      have ne: "0 < length (bs ! Suc j)" "bs ! Suc j ! 0 \<in> set (bs ! Suc j)" using ix sj by simp_all
      have e: "concat bs ! ?p = bs ! Suc j ! 0"
        by (rule split_position [OF that sj ne(1) start])
      have "\<not> cmp C (fst (ix ! j)) k < 0" using lower_bound_at [of C k ix] j ix by (simp add: j_def)
      then have "cmp C k (fst (ix ! j)) \<le> 0" using index.cmp_flip(3) assms(2,3) j ix by simp
      moreover have "cmp C (fst (ix ! j)) (fst (bs ! Suc j ! 0)) < 0" using ix sj ne(2) by blast
      moreover have "key_ok (fst (bs ! Suc j ! 0))" "key_ok (fst (ix ! j))" using ix sj ne(2) assms(2) j by auto
      ultimately have "cmp C k (fst (bs ! Suc j ! 0)) < 0" using index.cmp_less_trans assms(3) by blast
      then show ?thesis using index.cmp_flip(1) [of k "fst (bs ! Suc j ! 0)"] assms(3) \<open>key_ok (fst (bs ! Suc j ! 0))\<close> e by simp
    qed
  qed
  show "?p \<le> length (concat bs)"
  proof (cases "j < length bs")
    case True
    have "block_start bs (Suc j) \<le> length (concat bs)"
      using arg_cong [OF append_take_drop_id [of "Suc j" bs, symmetric], of "length \<circ> concat"]
      by (simp add: block_start_def del: append_take_drop_id)
    then show ?thesis
      using True lower_bound_le [of C k "bs ! j"] block_start_Suc [OF True] by simp
  qed simp
qed


lemma land_forward:
  assumes "indexed ix bs" "at_index t ix j" "if j < length bs then data_at t (bs ! j) q else data_none t"
  shows "\<exists>t'. SkipEmptyDataBlocksForward II DI bf t = Some t' \<and>
    positioned t' ix bs (if j < length bs then block_start bs j + q else length (concat bs))"
  using assms skip_forward [OF assms(1,2)] skip_stop(1) [OF assms(1,2)] by (cases "j < length bs") auto

lemma block_start_pos: "indexed ix bs \<Longrightarrow> 0 < j \<Longrightarrow> j \<le> length bs \<Longrightarrow> 0 < block_start bs j"
proof -
  assume "indexed ix bs" "0 < j" "j \<le> length bs"
  then have "0 < length (bs ! (j - 1))" "block_start bs j = block_start bs (j - 1) + length (bs ! (j - 1))"
    using block_start_Suc [of "j - 1" bs] by (simp_all add: indexed_def)
  then show ?thesis by simp
qed

lemma land_last:
  assumes "indexed ix bs" "at_index t ix (length bs - 1)"
    "if length bs - 1 < length bs then data_at t (bs ! (length bs - 1)) (length (bs ! (length bs - 1)) - 1) else data_none t"
  shows "\<exists>t'. SkipEmptyDataBlocksBackward II DI bf t = Some t' \<and> positioned t' ix bs (length (concat bs) - 1)"
proof (cases "bs = []")
  case True
  then show ?thesis using skip_stop(2) [OF assms(1,2)] assms(3) by simp
next
  case False
  let ?j = "length bs - 1"
  have j: "?j < length bs" using False by (cases bs) simp_all
  then have pos: "length (bs ! ?j) - 1 < length (bs ! ?j)" using assms(1) by (simp add: indexed_def)
  have "length (concat bs) = block_start bs ?j + length (bs ! ?j)"
    using block_start_Suc [OF j] block_start_all [of bs "Suc ?j"] j by simp
  then have "length (concat bs) - 1 = block_start bs ?j + (length (bs ! ?j) - 1)" using pos by linarith
  then show ?thesis using skip_here(2) [OF assms(2) j _ pos] assms(3) j by simp
qed

lemma two_level_iterator: "ordered_iterator C key_ok (TwoLevel_Iter II DI bf) view2"
proof (rule ordered_iterator.intro [OF index.comparator_axioms], rule ordered_iterator_axioms.intro)
  fix t es p assume "view2 t es p"
  then obtain ix bs where v: "indexed ix bs" "es = concat bs" "positioned t ix bs p"
    and sorted: "sorted_wrt (\<lambda>a b. cmp C (fst a) (fst b) < 0) es" by (auto simp: view2_def)
  have to_view: "view2 t' es p'" if "positioned t' ix bs p'" for t' p'
    using that v(1,2) sorted by (auto simp: view2_def)
  obtain j where at: "at_index t ix j" and some: "data_some t" using positioned_some [OF v(3)] by blast
  have len: "length ix = length bs" using v(1) by (simp add: indexed_def)
  have ixk: "\<forall>e \<in> set ix. key_ok (fst e)" using at index.keys by (auto simp: at_index_def index.wrapper_at_def)
  show "p \<le> length es" "iter_Valid (TwoLevel_Iter II DI bf) t \<longleftrightarrow> p < length es"
    using positioned_valid [OF v(3)] v(2) by (simp_all add: TwoLevel_Iter_ops)
  show "\<forall>e \<in> set es. key_ok (fst e)"
    using v(1,2) by (force simp: indexed_def in_set_conv_nth [of _ bs])
  show "sorted_wrt (\<lambda>a b. cmp C (fst a) (fst b) < 0) es" by (rule sorted)
  show "iter_status (TwoLevel_Iter II DI bf) t = StatusOK"
  proof -
    have i: "wrapper_status II (tl_index_iter t) = Some StatusOK"
      using index.wrapper_moves(7) at by (simp add: at_index_def)
    have "tl_status t = StatusOK" using some by (auto simp: data_some_def data_none_def data_at_def env_state_def)
    moreover have "wrapper_status DI (tl_data_iter t) \<in> {None, Some StatusOK}"
      using some ordered_iterator.wrapper_moves(7) [OF data]
      by (auto simp: data_some_def data_none_def data_at_def wrapper_status_def)
    ultimately show ?thesis using i by (auto simp: TwoLevel_Iter_ops TwoLevel_status_def)
  qed
  show "\<exists>t'. iter_SeekToFirst (TwoLevel_Iter II DI bf) t = Some t' \<and> view2 t' es 0"
  proof -
    obtain t1 where t1: "on_index (wrapper_SeekToFirst II) t = Some t1" "at_index t1 ix 0" "data_some t1"
      using at_index_moves(1) [OF at] some by blast
    obtain t2 t3 where t3: "InitDataBlock II DI bf t1 = Some t2" "on_data (wrapper_SeekToFirst DI) t2 = Some t3"
      "at_index t3 ix 0" "if 0 < length bs then data_at t3 (bs ! 0) 0 else data_none t3"
      using open_block_at [OF v(1) t1(2,3), of "wrapper_SeekToFirst DI" "\<lambda>_. 0"] ordered_iterator.wrapper_moves(1) [OF data]
      by blast
    obtain t4 where "SkipEmptyDataBlocksForward II DI bf t3 = Some t4" "positioned t4 ix bs 0"
      using land_forward [OF v(1) t3(3,4)] by (auto simp: block_start_def split: if_splits)
    with t1 t3 to_view show ?thesis by (auto simp: TwoLevel_Iter_ops TwoLevel_SeekToFirst_def)
  qed
  show "\<exists>t'. iter_SeekToLast (TwoLevel_Iter II DI bf) t = Some t' \<and> view2 t' es (length es - 1)"
  proof -
    obtain t1 where t1: "on_index (wrapper_SeekToLast II) t = Some t1" "at_index t1 ix (length ix - 1)" "data_some t1"
      using at_index_moves(2) [OF at] some by blast
    obtain t2 t3 where t3: "InitDataBlock II DI bf t1 = Some t2" "on_data (wrapper_SeekToLast DI) t2 = Some t3"
      "at_index t3 ix (length ix - 1)"
      "if length ix - 1 < length bs then data_at t3 (bs ! (length ix - 1)) (length (bs ! (length ix - 1)) - 1) else data_none t3"
      using open_block_at [OF v(1) t1(2,3), of "wrapper_SeekToLast DI" "\<lambda>es. length es - 1"]
        ordered_iterator.wrapper_moves(2) [OF data] by blast
    obtain t4 where "SkipEmptyDataBlocksBackward II DI bf t3 = Some t4" "positioned t4 ix bs (length (concat bs) - 1)"
      using land_last [OF v(1), of t3] t3(3,4) unfolding len by blast
    with t1 t3 to_view v(2) show ?thesis by (auto simp: TwoLevel_Iter_ops TwoLevel_SeekToLast_def)
  qed
  show "\<exists>t'. iter_Seek (TwoLevel_Iter II DI bf) t k = Some t' \<and> view2 t' es (lower_bound C k es)" if k: "key_ok k" for k
  proof -
    let ?j = "lower_bound C k ix"
    obtain t1 where t1: "on_index (\<lambda>w. wrapper_Seek II w k) t = Some t1" "at_index t1 ix ?j" "data_some t1"
      using at_index_moves(3) [OF at k] some by blast
    obtain t2 t3 where t3: "InitDataBlock II DI bf t1 = Some t2" "on_data (\<lambda>w. wrapper_Seek DI w k) t2 = Some t3"
      "at_index t3 ix ?j" "if ?j < length bs then data_at t3 (bs ! ?j) (lower_bound C k (bs ! ?j)) else data_none t3"
      using open_block_at [OF v(1) t1(2,3), of "\<lambda>w. wrapper_Seek DI w k" "lower_bound C k"]
        ordered_iterator.wrapper_moves(3) [OF data _ k] by blast
    obtain t4 where "SkipEmptyDataBlocksForward II DI bf t3 = Some t4"
      "positioned t4 ix bs (if ?j < length bs then block_start bs ?j + lower_bound C k (bs ! ?j) else length (concat bs))"
      using land_forward [OF v(1) t3(3,4)] by blast
    with t1 t3 to_view v(2) lower_bound_concat [OF v(1) ixk k] show ?thesis
      by (auto simp: TwoLevel_Iter_ops TwoLevel_Seek_def)
  qed
  assume p: "p < length es"
  then obtain j q where pos: "at_index t ix j" "j < length bs" "q < length (bs ! j)" "data_at t (bs ! j) q" "p = block_start bs j + q"
    using positionedE [OF v(3)] v(2) by blast
  obtain r where r: "ordered_iterator.wrapper_at (dview r) (tl_data_iter t) (bs ! j) q" "env_state t r"
    "blk (tl_data_block_handle t) = Some (bs ! j)"
    using pos(4) by (auto simp: data_at_def)
  note moves = ordered_iterator.wrapper_moves [OF data r(1)]
  have valid: "w_valid (tl_data_iter t)" using data_at_valid [OF pos(4)] pos(3) by simp
  have e: "es ! p = bs ! j ! q" using split_position [OF _ pos(2,3,5)] p v(2) by simp
  have key: "w_key (tl_data_iter t) = fst (bs ! j ! q)"
    using r(1) pos(3) ordered_iterator.wrapper_at_def [OF data] by blast
  show "iter_key (TwoLevel_Iter II DI bf) t = Some (fst (es ! p))"
    using valid e key by (simp add: TwoLevel_Iter_ops TwoLevel_key_def wrapper_key_def)
  show "iter_value (TwoLevel_Iter II DI bf) t = Some (snd (es ! p))"
    using moves(6) [OF pos(3)] e by (simp add: TwoLevel_Iter_ops TwoLevel_value_def)
  have update: "data_at (t\<lparr>tl_data_iter := w\<rparr>) (bs ! j) q'" "at_index (t\<lparr>tl_data_iter := w\<rparr>) ix j"
    if "ordered_iterator.wrapper_at (dview r) w (bs ! j) q'" for w q'
    using that r(2,3) pos(1) by (auto simp: data_at_def env_state_def at_index_def)
  show "\<exists>t'. iter_Next (TwoLevel_Iter II DI bf) t = Some t' \<and> view2 t' es (Suc p)"
  proof -
    obtain w where w: "wrapper_Next DI (tl_data_iter t) = Some w" "ordered_iterator.wrapper_at (dview r) w (bs ! j) (Suc q)"
      using moves(4) [OF pos(3)] by blast
    obtain t' where "SkipEmptyDataBlocksForward II DI bf (t\<lparr>tl_data_iter := w\<rparr>) = Some t'"
      "positioned t' ix bs (block_start bs j + Suc q)"
      using skip_forward [OF v(1) update(2) [OF w(2)] pos(2) update(1) [OF w(2)]] by blast
    with w(1) valid pos(5) to_view show ?thesis
      by (auto simp: TwoLevel_Iter_ops TwoLevel_Next_def TwoLevel_Valid_def)
  qed
  show "\<exists>t'. iter_Prev (TwoLevel_Iter II DI bf) t = Some t' \<and> view2 t' es (if p = 0 then length es else p - 1)"
  proof -
    let ?q = "if q = 0 then length (bs ! j) else q - 1"
    obtain w where w: "wrapper_Prev DI (tl_data_iter t) = Some w" "ordered_iterator.wrapper_at (dview r) w (bs ! j) ?q"
      using moves(5) [OF pos(3)] by blast
    have "(if ?q < length (bs ! j) then block_start bs j + ?q else if j = 0 then length (concat bs) else block_start bs j - 1) =
      (if p = 0 then length es else p - 1)"
      using block_start_pos [OF v(1), of j] block_start_0 [of bs] pos(2,3,5) v(2) by (cases "q = 0"; cases "j = 0") auto
    then obtain t' where "SkipEmptyDataBlocksBackward II DI bf (t\<lparr>tl_data_iter := w\<rparr>) = Some t'"
      "positioned t' ix bs (if p = 0 then length es else p - 1)"
      using skip_backward [OF v(1) update(2) [OF w(2)] pos(2) update(1) [OF w(2)]] by auto
    with w(1) valid to_view show ?thesis
      by (auto simp: TwoLevel_Iter_ops TwoLevel_Prev_def TwoLevel_Valid_def)
  qed
qed

end


sublocale two_level \<subseteq> two: ordered_iterator C key_ok "TwoLevel_Iter II DI bf" view2
  by (rule two_level_iterator)

end
