(* ===== verification/Ldb_Cache.thy ===== *)
theory Ldb_Cache imports Ldb_Coding "HOL-Library.Multiset" begin

section \<open>leveldb: the interface of a cache (include/leveldb/cache.h)\<close>

text \<open>
  A \<open>Cache\<close> is its table of virtual functions over a state \<open>'c\<close>, with handles \<open>'h\<close> and values \<open>'v\<close>. \<open>None\<close> is
  a failed \<open>assert\<close> or the use of a handle that was released. The values are Isabelle values, so the
  deleter of an entry has nothing to free.
\<close>

record ('c, 'h, 'v) Cache =
  cache_Insert :: "'c \<Rightarrow> Slice \<Rightarrow> 'v \<Rightarrow> nat \<Rightarrow> ('h \<times> 'c) option"
  cache_Lookup :: "'c \<Rightarrow> Slice \<Rightarrow> ('h option \<times> 'c) option"
  cache_Release :: "'c \<Rightarrow> 'h \<Rightarrow> 'c option"
  cache_Value :: "'c \<Rightarrow> 'h \<Rightarrow> 'v option"
  cache_Erase :: "'c \<Rightarrow> Slice \<Rightarrow> 'c option"
  cache_NewId :: "'c \<Rightarrow> u64 \<times> 'c"
  cache_Prune :: "'c \<Rightarrow> 'c option"
  cache_TotalCharge :: "'c \<Rightarrow> nat"

subsection \<open>The contract\<close>

text \<open>
  What a client relies on, a table for its blocks, with any condition \<open>Q\<close> on its keys and values: \<open>valid_cache Q\<close> is its
  invariant, which a lookup, an insertion and a release keep, and \<open>refs\<close> counts the handles that have not
  been released. A cache counts its handles and entries in machine words: a lookup is good as long as fewer than
  \<open>limit\<close> handles are out, an insertion as long as at most \<open>2 ^ 31\<close> keys are ever used.
\<close>

locale block_cache =
  fixes cache :: "('c, 'h, 'v) Cache" and valid_cache :: "(Slice \<Rightarrow> 'v \<Rightarrow> bool) \<Rightarrow> 'c \<Rightarrow> bool" and refs :: "'c \<Rightarrow> 'h multiset"
    and limit :: nat
  assumes lookup: "valid_cache Q c \<Longrightarrow> size (refs c) < limit \<Longrightarrow>
      \<exists>found c'. cache_Lookup cache c k = Some (found, c') \<and> valid_cache Q c' \<and>
      (case found of None \<Rightarrow> refs c' = refs c
       | Some h \<Rightarrow> refs c' = refs c + {#h#} \<and> (\<exists>v. cache_Value cache c' h = Some v \<and> Q k v))"
    and insert: "valid_cache Q c \<Longrightarrow> Q k v \<Longrightarrow> finite {k. \<exists>v. Q k v} \<Longrightarrow> card {k. \<exists>v. Q k v} \<le> 2 ^ 31 \<Longrightarrow>
      \<exists>h c'. cache_Insert cache c k v n = Some (h, c') \<and> valid_cache Q c' \<and> refs c' = refs c + {#h#}"
    and release: "valid_cache Q c \<Longrightarrow> h \<in># refs c \<Longrightarrow>
      \<exists>c'. cache_Release cache c h = Some c' \<and> valid_cache Q c' \<and> refs c' = refs c - {#h#}"
    and new_id: "valid_cache Q c \<Longrightarrow> valid_cache Q (snd (cache_NewId cache c)) \<and> refs (snd (cache_NewId cache c)) = refs c"

end
