(* ===== verification/Table.thy ===== *)
theory Table imports Table_Format Filter_Block Two_Level_Iterator Ldb_Cache begin

section \<open>leveldb: reading tables (table/table.cc)\<close>

text \<open>
  The record \<open>Table\<close> is \<open>Table::Rep\<close>. The block cache of the options, when there is one, is the table of functions
  \<open>bc\<close> and its state is passed along. An iterator on a block is the block's iterator or an empty one
  (the virtual dispatch is \<open>dispatch\<close>), with the cleanup that its destructor runs.
\<close>

record Table =
  tab_options :: Options
  tab_file :: RandomAccessFile
  tab_cache_id :: u64
  tab_filter :: "FilterBlockReader option"
  tab_metaindex_handle :: BlockHandle
  tab_index_block :: Block

subsection \<open>Iterators on blocks\<close>

definition dispatch :: "'a Iterator \<Rightarrow> 'b Iterator \<Rightarrow> ('a + 'b) Iterator" where
  "dispatch A B =
     \<lparr>iter_Valid = case_sum (iter_Valid A) (iter_Valid B),
      iter_SeekToFirst = case_sum (map_option Inl \<circ> iter_SeekToFirst A) (map_option Inr \<circ> iter_SeekToFirst B),
      iter_SeekToLast = case_sum (map_option Inl \<circ> iter_SeekToLast A) (map_option Inr \<circ> iter_SeekToLast B),
      iter_Seek = (\<lambda>it k. case it of Inl a \<Rightarrow> map_option Inl (iter_Seek A a k) | Inr b \<Rightarrow> map_option Inr (iter_Seek B b k)),
      iter_Next = case_sum (map_option Inl \<circ> iter_Next A) (map_option Inr \<circ> iter_Next B),
      iter_Prev = case_sum (map_option Inl \<circ> iter_Prev A) (map_option Inr \<circ> iter_Prev B),
      iter_key = case_sum (iter_key A) (iter_key B), iter_value = case_sum (iter_value A) (iter_value B),
      iter_status = case_sum (iter_status A) (iter_status B)\<rparr>"

definition AnyBlockIter :: "(Status + BlockIter) Iterator" where
  "AnyBlockIter = dispatch EmptyIterator Block_Iter"

datatype 'h Cleanup = NoCleanup | DeleteBlock | ReleaseBlock 'h

type_synonym 'h DataIterator = "(Status + BlockIter) \<times> 'h Cleanup"

definition with_cleanup :: "'i Iterator \<Rightarrow> ('i \<times> 'k) Iterator" where
  "with_cleanup I =
     \<lparr>iter_Valid = iter_Valid I \<circ> fst,
      iter_SeekToFirst = (\<lambda>(it, c). map_option (\<lambda>it. (it, c)) (iter_SeekToFirst I it)),
      iter_SeekToLast = (\<lambda>(it, c). map_option (\<lambda>it. (it, c)) (iter_SeekToLast I it)),
      iter_Seek = (\<lambda>(it, c) k. map_option (\<lambda>it. (it, c)) (iter_Seek I it k)),
      iter_Next = (\<lambda>(it, c). map_option (\<lambda>it. (it, c)) (iter_Next I it)),
      iter_Prev = (\<lambda>(it, c). map_option (\<lambda>it. (it, c)) (iter_Prev I it)),
      iter_key = iter_key I \<circ> fst, iter_value = iter_value I \<circ> fst,
      iter_status = iter_status I \<circ> fst\<rparr>"

abbreviation DataIter :: "'h DataIterator Iterator" where
  "DataIter \<equiv> with_cleanup AnyBlockIter"

text \<open>\<open>delete iter\<close>\<close>

definition delete_DataIter :: "('c, 'h, Block) Cache option \<Rightarrow> 'c \<Rightarrow> 'h DataIterator \<Rightarrow> 'c option" where
  "delete_DataIter bc c d =
     (case snd d of
        ReleaseBlock h \<Rightarrow> (case bc of None \<Rightarrow> None | Some cache \<Rightarrow> cache_Release cache c h)
      | _ \<Rightarrow> Some c)"

subsection \<open>Opening a block through the cache\<close>

text \<open>The block and its cache handle, with the status of the read; no block when the read failed.\<close>

definition read_new_block :: "Table \<Rightarrow> ReadOptions \<Rightarrow> BlockHandle \<Rightarrow> (Status \<times> (Block \<times> bool) option) option" where
  "read_new_block table options handle = do {
     (s, contents) \<leftarrow> ReadBlock (tab_file table) options handle;
     if status_ok s then map_option (\<lambda>b. (s, Some (b, bc_cachable contents))) (mk_Block contents) else Some (s, None)
   }"

definition block_cache_key :: "Table \<Rightarrow> BlockHandle \<Rightarrow> Slice" where
  "block_cache_key table handle = EncodeFixed64 (tab_cache_id table) @ EncodeFixed64 (bh_offset handle)"

definition find_block ::
  "('c, 'h, Block) Cache option \<Rightarrow> Table \<Rightarrow> ReadOptions \<Rightarrow> 'c \<Rightarrow> BlockHandle \<Rightarrow> (Status \<times> (Block \<times> 'h option) option \<times> 'c) option" where
  "find_block bc table options c handle =
     (case bc of
        Some cache \<Rightarrow> do {
          let key = block_cache_key table handle;
          (cache_handle, c) \<leftarrow> cache_Lookup cache c key;
          (case cache_handle of
             Some h \<Rightarrow> do { block \<leftarrow> cache_Value cache c h; Some (StatusOK, Some (block, Some h), c) }
           | None \<Rightarrow> do {
               (s, read) \<leftarrow> read_new_block table options handle;
               (case read of
                  None \<Rightarrow> Some (s, None, c)
                | Some (block, cachable) \<Rightarrow>
                    if cachable \<and> ro_fill_cache options
                    then do { (h, c) \<leftarrow> cache_Insert cache c key block (blk_size block); Some (s, Some (block, Some h), c) }
                    else Some (s, Some (block, None), c))
             })
        }
      | None \<Rightarrow> do {
          (s, read) \<leftarrow> read_new_block table options handle;
          Some (s, map_option (\<lambda>(block, _). (block, None)) read, c)
        })"

definition BlockReader ::
  "('c, 'h, Block) Cache option \<Rightarrow> Table \<Rightarrow> ReadOptions \<Rightarrow> 'c \<Rightarrow> Slice \<Rightarrow> ('h DataIterator \<times> 'c) option" where
  "BlockReader bc table options c index_value = do {
     let (s, handle, input) = BlockHandle_DecodeFrom mk_BlockHandle index_value;
     (s, found, c) \<leftarrow>
       (if status_ok s then find_block bc table options c handle else Some (s, None, c));
     (case found of
        Some (block, cache_handle) \<Rightarrow> do {
          iter \<leftarrow> Block_NewIterator (opt_comparator (tab_options table)) block;
          Some ((iter, case cache_handle of None \<Rightarrow> DeleteBlock | Some h \<Rightarrow> ReleaseBlock h), c)
        }
      | None \<Rightarrow> Some ((Inl (NewErrorIterator s), NoCleanup), c))
   }"

definition TableBlocks :: "('c, 'h, Block) Cache option \<Rightarrow> Table \<Rightarrow> ReadOptions \<Rightarrow> ('h DataIterator, 'c) BlockFunction" where
  "TableBlocks bc table options = \<lparr>bf_open = BlockReader bc table options, bf_delete = delete_DataIter bc\<rparr>"

definition Table_NewIterator ::
  "('c, 'h, Block) Cache option \<Rightarrow> Table \<Rightarrow> ReadOptions \<Rightarrow> 'c \<Rightarrow> (Status + BlockIter, 'h DataIterator, 'c) TwoLevelIterator option" where
  "Table_NewIterator bc table options c = do {
     index_iter \<leftarrow> Block_NewIterator (opt_comparator (tab_options table)) (tab_index_block table);
     NewTwoLevelIterator AnyBlockIter index_iter c
   }"

definition Table_Iter ::
  "('c, 'h, Block) Cache option \<Rightarrow> Table \<Rightarrow> ReadOptions \<Rightarrow> (Status + BlockIter, 'h DataIterator, 'c) TwoLevelIterator Iterator" where
  "Table_Iter bc table options = TwoLevel_Iter AnyBlockIter DataIter (TableBlocks bc table options)"

subsection \<open>Opening a table\<close>

definition meta_read_options :: "Options \<Rightarrow> ReadOptions" where
  "meta_read_options options =
     (if opt_paranoid_checks options then mk_ReadOptions\<lparr>ro_verify_checksums := True\<rparr> else mk_ReadOptions)"

definition ReadFilter :: "Table \<Rightarrow> Slice \<Rightarrow> Table option" where
  "ReadFilter table filter_handle_value =
     (let (s, filter_handle, v) = BlockHandle_DecodeFrom mk_BlockHandle filter_handle_value in
      if \<not> status_ok s then Some table
      else do {
        (s, block) \<leftarrow> ReadBlock (tab_file table) (meta_read_options (tab_options table)) filter_handle;
        if \<not> status_ok s then Some table
        else do {
          reader \<leftarrow> mk_FilterBlockReader (bc_data block);
          Some (table\<lparr>tab_filter := Some reader\<rparr>)
        }
      })"

definition ReadMeta :: "Table \<Rightarrow> Footer \<Rightarrow> Table option" where
  "ReadMeta table footer =
     (case opt_filter_policy (tab_options table) of
        None \<Rightarrow> Some table
      | Some policy \<Rightarrow> do {
          (s, contents) \<leftarrow>
            ReadBlock (tab_file table) (meta_read_options (tab_options table)) (ft_metaindex_handle footer);
          if \<not> status_ok s then Some table
          else do {
            meta \<leftarrow> mk_Block contents;
            iter \<leftarrow> Block_NewIterator BytewiseComparator meta;
            let key = filter_key policy;
            iter \<leftarrow> iter_Seek AnyBlockIter iter key;
            if iter_Valid AnyBlockIter iter
            then do {
              k \<leftarrow> iter_key AnyBlockIter iter;
              if k = key then iter_value AnyBlockIter iter \<bind> ReadFilter table else Some table
            }
            else Some table
          }
        })"

definition mk_Footer :: Footer where
  "mk_Footer = \<lparr>ft_metaindex_handle = mk_BlockHandle, ft_index_handle = mk_BlockHandle\<rparr>"

definition Table_Open ::
  "('c, 'h, Block) Cache option \<Rightarrow> Options \<Rightarrow> RandomAccessFile \<Rightarrow> u64 \<Rightarrow> 'c \<Rightarrow> (Status \<times> Table option \<times> 'c) option" where
  "Table_Open bc options file sz c =
     (if sz < of_nat kEncodedLength then Some (Corruption ''file is too short to be an sstable'', None, c)
      else
        (let (s, footer_input, _) = file_ReadAt file (sz - of_nat kEncodedLength) kEncodedLength in
         if \<not> status_ok s then Some (s, None, c)
         else do {
           (s, footer, _) \<leftarrow> Footer_DecodeFrom mk_Footer footer_input;
           if \<not> status_ok s then Some (s, None, c)
           else do {
             (s, index_block_contents) \<leftarrow> ReadBlock file (meta_read_options options) (ft_index_handle footer);
             if \<not> status_ok s then Some (s, None, c)
             else do {
               index_block \<leftarrow> mk_Block index_block_contents;
               let (cache_id, c) = (case bc of None \<Rightarrow> (0, c) | Some cache \<Rightarrow> cache_NewId cache c);
               table \<leftarrow> ReadMeta
                 \<lparr>tab_options = options, tab_file = file, tab_cache_id = cache_id, tab_filter = None,
                  tab_metaindex_handle = ft_metaindex_handle footer, tab_index_block = index_block\<rparr> footer;
               Some (s, Some table, c)
             }
           }
         }))"

subsection \<open>Looking up a key\<close>

text \<open>The result of \<open>InternalGet\<close> is its status and the key and value that \<open>handle_result\<close> is called with, if it is.\<close>

definition InternalGet ::
  "('c, 'h, Block) Cache option \<Rightarrow> Table \<Rightarrow> ReadOptions \<Rightarrow> 'c \<Rightarrow> Slice \<Rightarrow> (Status \<times> (Slice \<times> Slice) option \<times> 'c) option" where
  "InternalGet bc table options c k = do {
     iiter \<leftarrow> Block_NewIterator (opt_comparator (tab_options table)) (tab_index_block table);
     iiter \<leftarrow> iter_Seek AnyBlockIter iiter k;
     (s, found, c) \<leftarrow>
       (if iter_Valid AnyBlockIter iiter
        then do {
          handle_value \<leftarrow> iter_value AnyBlockIter iiter;
          let (hs, handle, _) = BlockHandle_DecodeFrom mk_BlockHandle handle_value;
          excluded \<leftarrow>
            (case tab_filter table of
               None \<Rightarrow> Some False
             | Some reader \<Rightarrow>
                 if status_ok hs
                 then do {
                   policy \<leftarrow> opt_filter_policy (tab_options table);
                   may_match \<leftarrow> FilterBlock_KeyMayMatch policy reader (bh_offset handle) k;
                   Some (\<not> may_match)
                 }
                 else Some False);
          if excluded then Some (StatusOK, None, c)
          else do {
            (block_iter, c) \<leftarrow> BlockReader bc table options c handle_value;
            block_iter \<leftarrow> iter_Seek DataIter block_iter k;
            found \<leftarrow>
              (if iter_Valid DataIter block_iter
               then do {
                 key \<leftarrow> iter_key DataIter block_iter;
                 val \<leftarrow> iter_value DataIter block_iter;
                 Some (Some (key, val))
               }
               else Some None);
            let s = iter_status DataIter block_iter;
            c \<leftarrow> delete_DataIter bc c block_iter;
            Some (s, found, c)
          }
        }
        else Some (StatusOK, None, c));
     let s = (if status_ok s then iter_status AnyBlockIter iiter else s);
     Some (s, found, c)
   }"

definition ApproximateOffsetOf :: "Table \<Rightarrow> Slice \<Rightarrow> u64 option" where
  "ApproximateOffsetOf table key = do {
     index_iter \<leftarrow> Block_NewIterator (opt_comparator (tab_options table)) (tab_index_block table);
     index_iter \<leftarrow> iter_Seek AnyBlockIter index_iter key;
     if iter_Valid AnyBlockIter index_iter
     then do {
       input \<leftarrow> iter_value AnyBlockIter index_iter;
       let (s, handle, _) = BlockHandle_DecodeFrom mk_BlockHandle input;
       Some (if status_ok s then bh_offset handle else bh_offset (tab_metaindex_handle table))
     }
     else Some (bh_offset (tab_metaindex_handle table))
   }"

end
