(* ===== verification/Table_Builder.thy ===== *)
theory Table_Builder imports Table_Format Block_Builder Filter_Block begin

section \<open>leveldb: building tables (table/table_builder.cc)\<close>

text \<open>
  The state is \<open>TableBuilder::Rep\<close>; the file is the caller's, given by its table of functions \<open>ops\<close>. The
  data block reads \<open>tb_options\<close> and the index block \<open>tb_index_block_options\<close>. The filter block keeps the
  policy it was made with.
\<close>

record 'f TableBuilder =
  tb_options :: Options
  tb_index_block_options :: Options
  tb_file :: 'f
  tb_offset :: u64
  tb_status :: Status
  tb_data_block :: BlockBuilder
  tb_index_block :: BlockBuilder
  tb_last_key :: "u8 list"
  tb_num_entries :: int
  tb_closed :: bool
  tb_filter_block :: "(FilterPolicy \<times> FilterBlockBuilder) option"
  tb_pending_index_entry :: bool
  tb_pending_handle :: BlockHandle
  tb_compressed_output :: "u8 list"

definition mk_TableBuilder :: "Options \<Rightarrow> 'f \<Rightarrow> 'f TableBuilder option" where
  "mk_TableBuilder opt f = do {
     data_block \<leftarrow> mk_BlockBuilder opt;
     index_block \<leftarrow> mk_BlockBuilder opt;
     filter_block \<leftarrow>
       (case opt_filter_policy opt of
          None \<Rightarrow> Some None
        | Some policy \<Rightarrow> map_option (\<lambda>b. Some (policy, b)) (StartBlock policy mk_FilterBlockBuilder 0));
     Some \<lparr>tb_options = opt, tb_index_block_options = opt\<lparr>opt_block_restart_interval := 1\<rparr>, tb_file = f,
       tb_offset = 0, tb_status = StatusOK, tb_data_block = data_block, tb_index_block = index_block,
       tb_last_key = [], tb_num_entries = 0, tb_closed = False, tb_filter_block = filter_block,
       tb_pending_index_entry = False, tb_pending_handle = mk_BlockHandle, tb_compressed_output = []\<rparr>
   }"

definition tb_ok :: "'f TableBuilder \<Rightarrow> bool" where
  "tb_ok r \<longleftrightarrow> status_ok (tb_status r)"

definition ChangeOptions :: "(Comparator \<Rightarrow> Comparator \<Rightarrow> bool) \<Rightarrow> 'f TableBuilder \<Rightarrow> Options \<Rightarrow> Status \<times> 'f TableBuilder" where
  "ChangeOptions same r options =
     (if \<not> same (opt_comparator options) (opt_comparator (tb_options r))
      then (InvalidArgument ''changing comparator while building table'' [], r)
      else (StatusOK, r\<lparr>tb_options := options, tb_index_block_options := options\<lparr>opt_block_restart_interval := 1\<rparr>\<rparr>))"

definition WriteRawBlock ::
  "'f WritableFile \<Rightarrow> 'f TableBuilder \<Rightarrow> Slice \<Rightarrow> CompressionType \<Rightarrow> BlockHandle \<Rightarrow> (BlockHandle \<times> 'f TableBuilder) option" where
  "WriteRawBlock ops r block_contents type handle = do {
     let handle = handle\<lparr>bh_offset := tb_offset r, bh_size := of_nat (length block_contents)\<rparr>;
     let (s, f) = file_Append ops (tb_file r) block_contents;
     let r = r\<lparr>tb_file := f, tb_status := s\<rparr>;
     if \<not> status_ok s then Some (handle, r)
     else do {
       let type_byte = [CompressionType_code type];
       crc \<leftarrow> Value 0 block_contents;
       crc \<leftarrow> Extend 0 crc type_byte;
       let trailer = type_byte @ EncodeFixed32 (Mask crc);
       let (s, f) = file_Append ops (tb_file r) trailer;
       let r = r\<lparr>tb_file := f, tb_status := s\<rparr>;
       if \<not> status_ok s then Some (handle, r)
       else Some (handle, r\<lparr>tb_offset := tb_offset r + of_nat (length block_contents + kBlockTrailerSize)\<rparr>)
     }
   }"

text \<open>The block builder is returned reset.\<close>

definition WriteBlock ::
  "'f WritableFile \<Rightarrow> 'f TableBuilder \<Rightarrow> BlockBuilder \<Rightarrow> BlockHandle \<Rightarrow> (BlockBuilder \<times> BlockHandle \<times> 'f TableBuilder) option" where
  "WriteBlock ops r block handle = do {
     _ \<leftarrow> ensure (tb_ok r);
     let (raw, block) = BlockBuilder_Finish block;
     let (block_contents, type, compressed) =
       (case opt_compression (tb_options r) of
          kNoCompression \<Rightarrow> (raw, kNoCompression, tb_compressed_output r)
        | kSnappyCompression \<Rightarrow>
            (case Snappy_Compress raw of
               None \<Rightarrow> (raw, kNoCompression, tb_compressed_output r)
             | Some compressed \<Rightarrow>
                 if length compressed < length raw - length raw div 8
                 then (compressed, kSnappyCompression, compressed)
                 else (raw, kNoCompression, compressed)));
     let r = r\<lparr>tb_compressed_output := compressed\<rparr>;
     (handle, r) \<leftarrow> WriteRawBlock ops r block_contents type handle;
     let r = r\<lparr>tb_compressed_output := []\<rparr>;
     Some (BlockBuilder_Reset block, handle, r)
   }"

definition TableBuilder_Flush :: "'f WritableFile \<Rightarrow> 'f TableBuilder \<Rightarrow> 'f TableBuilder option" where
  "TableBuilder_Flush ops r = do {
     _ \<leftarrow> ensure (\<not> tb_closed r);
     if \<not> tb_ok r then Some r
     else if BlockBuilder_empty (tb_data_block r) then Some r
     else do {
       _ \<leftarrow> ensure (\<not> tb_pending_index_entry r);
       (data_block, handle, r) \<leftarrow> WriteBlock ops r (tb_data_block r) (tb_pending_handle r);
       let r = r\<lparr>tb_data_block := data_block, tb_pending_handle := handle\<rparr>;
       let r = (if tb_ok r
                then (let (s, f) = file_Flush ops (tb_file r) in
                  r\<lparr>tb_pending_index_entry := True, tb_file := f, tb_status := s\<rparr>)
                else r);
       (case tb_filter_block r of
          None \<Rightarrow> Some r
        | Some (policy, b) \<Rightarrow> do {
            b \<leftarrow> StartBlock policy b (tb_offset r);
            Some (r\<lparr>tb_filter_block := Some (policy, b)\<rparr>)
          })
     }
   }"

definition add_pending_index_entry :: "'f TableBuilder \<Rightarrow> Slice \<Rightarrow> 'f TableBuilder option" where
  "add_pending_index_entry r key =
     (if tb_pending_index_entry r
      then do {
        _ \<leftarrow> ensure (BlockBuilder_empty (tb_data_block r));
        last_key \<leftarrow> FindShortestSeparator (opt_comparator (tb_options r)) (tb_last_key r) key;
        handle_encoding \<leftarrow> BlockHandle_EncodeTo (tb_pending_handle r) [];
        index_block \<leftarrow> BlockBuilder_Add (tb_index_block_options r) (tb_index_block r) last_key handle_encoding;
        Some (r\<lparr>tb_last_key := last_key, tb_index_block := index_block, tb_pending_index_entry := False\<rparr>)
      }
      else Some r)"

definition TableBuilder_Add :: "'f WritableFile \<Rightarrow> 'f TableBuilder \<Rightarrow> Slice \<Rightarrow> Slice \<Rightarrow> 'f TableBuilder option" where
  "TableBuilder_Add ops r key val = do {
     _ \<leftarrow> ensure (\<not> tb_closed r);
     if \<not> tb_ok r then Some r
     else do {
       _ \<leftarrow> (if tb_num_entries r > 0
             then Compare (opt_comparator (tb_options r)) key (tb_last_key r) \<bind> (\<lambda>c. ensure (c > 0))
             else Some ());
       r \<leftarrow> add_pending_index_entry r key;
       let r = r\<lparr>tb_filter_block := map_option (\<lambda>(policy, b). (policy, AddKey b key)) (tb_filter_block r)\<rparr>;
       let r = r\<lparr>tb_last_key := key, tb_num_entries := tb_num_entries r + 1\<rparr>;
       data_block \<leftarrow> BlockBuilder_Add (tb_options r) (tb_data_block r) key val;
       let r = r\<lparr>tb_data_block := data_block\<rparr>;
       let estimated_block_size = CurrentSizeEstimate (tb_data_block r);
       if estimated_block_size \<ge> opt_block_size (tb_options r) then TableBuilder_Flush ops r else Some r
     }
   }"

subsection \<open>Finishing a table\<close>

text \<open>The four parts of \<open>Finish\<close>, each guarded by \<open>ok()\<close>.\<close>

definition write_filter_block ::
  "'f WritableFile \<Rightarrow> 'f TableBuilder \<Rightarrow> (BlockHandle \<times> 'f TableBuilder) option" where
  "write_filter_block ops r =
     (case tb_filter_block r of
        Some (policy, b) \<Rightarrow>
          if tb_ok r then do {
            (contents, b) \<leftarrow> FilterBlock_Finish policy b;
            WriteRawBlock ops (r\<lparr>tb_filter_block := Some (policy, b)\<rparr>) contents kNoCompression mk_BlockHandle
          }
          else Some (mk_BlockHandle, r)
      | None \<Rightarrow> Some (mk_BlockHandle, r))"

definition write_metaindex_block ::
  "'f WritableFile \<Rightarrow> 'f TableBuilder \<Rightarrow> BlockHandle \<Rightarrow> (BlockHandle \<times> 'f TableBuilder) option" where
  "write_metaindex_block ops r filter_block_handle =
     (if tb_ok r then do {
        meta_index_block \<leftarrow> mk_BlockBuilder (tb_options r);
        meta_index_block \<leftarrow>
          (case tb_filter_block r of
             None \<Rightarrow> Some meta_index_block
           | Some _ \<Rightarrow> do {
               policy \<leftarrow> opt_filter_policy (tb_options r);
               handle_encoding \<leftarrow> BlockHandle_EncodeTo filter_block_handle [];
               BlockBuilder_Add (tb_options r) meta_index_block (filter_key policy) handle_encoding
             });
        (_, handle, r) \<leftarrow> WriteBlock ops r meta_index_block mk_BlockHandle;
        Some (handle, r)
      }
      else Some (mk_BlockHandle, r))"

definition write_index_block ::
  "'f WritableFile \<Rightarrow> 'f TableBuilder \<Rightarrow> (BlockHandle \<times> 'f TableBuilder) option" where
  "write_index_block ops r =
     (if tb_ok r then do {
        r \<leftarrow>
          (if tb_pending_index_entry r
           then do {
             last_key \<leftarrow> FindShortSuccessor (opt_comparator (tb_options r)) (tb_last_key r);
             handle_encoding \<leftarrow> BlockHandle_EncodeTo (tb_pending_handle r) [];
             index_block \<leftarrow> BlockBuilder_Add (tb_index_block_options r) (tb_index_block r) last_key handle_encoding;
             Some (r\<lparr>tb_last_key := last_key, tb_index_block := index_block, tb_pending_index_entry := False\<rparr>)
           }
           else Some r);
        (index_block, handle, r) \<leftarrow> WriteBlock ops r (tb_index_block r) mk_BlockHandle;
        Some (handle, r\<lparr>tb_index_block := index_block\<rparr>)
      }
      else Some (mk_BlockHandle, r))"

definition write_footer ::
  "'f WritableFile \<Rightarrow> 'f TableBuilder \<Rightarrow> BlockHandle \<Rightarrow> BlockHandle \<Rightarrow> 'f TableBuilder option" where
  "write_footer ops r metaindex index =
     (if tb_ok r then do {
        footer_encoding \<leftarrow> Footer_EncodeTo \<lparr>ft_metaindex_handle = metaindex, ft_index_handle = index\<rparr> [];
        let (s, f) = file_Append ops (tb_file r) footer_encoding;
        let r = r\<lparr>tb_file := f, tb_status := s\<rparr>;
        if status_ok s then Some (r\<lparr>tb_offset := tb_offset r + of_nat (length footer_encoding)\<rparr>) else Some r
      }
      else Some r)"

definition TableBuilder_Finish :: "'f WritableFile \<Rightarrow> 'f TableBuilder \<Rightarrow> (Status \<times> 'f TableBuilder) option" where
  "TableBuilder_Finish ops r = do {
     r \<leftarrow> TableBuilder_Flush ops r;
     _ \<leftarrow> ensure (\<not> tb_closed r);
     let r = r\<lparr>tb_closed := True\<rparr>;
     (filter_block_handle, r) \<leftarrow> write_filter_block ops r;
     (metaindex_block_handle, r) \<leftarrow> write_metaindex_block ops r filter_block_handle;
     (index_block_handle, r) \<leftarrow> write_index_block ops r;
     r \<leftarrow> write_footer ops r metaindex_block_handle index_block_handle;
     Some (tb_status r, r)
   }"

definition TableBuilder_Abandon :: "'f TableBuilder \<Rightarrow> 'f TableBuilder option" where
  "TableBuilder_Abandon r = do { _ \<leftarrow> ensure (\<not> tb_closed r); Some (r\<lparr>tb_closed := True\<rparr>) }"

definition NumEntries :: "'f TableBuilder \<Rightarrow> u64" where
  "NumEntries r = of_int (tb_num_entries r)"

definition FileSize :: "'f TableBuilder \<Rightarrow> u64" where
  "FileSize r = tb_offset r"

end
