(* ===== verification/Table_Layout.thy ===== *)
theory Table_Layout imports Table_Format Ldb_Files Ldb_Coding_Facts Crc32c_Facts Block_Facts Dbformat_Facts Filter_Block_Theorems Block_Theorems begin

unbundle bit_operations_syntax

section \<open>leveldb: handles, footers and block trailers are read back\<close>

subsection \<open>Handles\<close>

definition handle_set :: "BlockHandle \<Rightarrow> bool" where
  "handle_set h \<longleftrightarrow> bh_offset h \<noteq> - 1 \<and> bh_size h \<noteq> - 1"

definition handle_bytes :: "BlockHandle \<Rightarrow> u8 list" where
  "handle_bytes h = varint_bytes (unat (bh_offset h)) @ varint_bytes (unat (bh_size h))"

lemma BlockHandle_EncodeTo_bytes: "handle_set h \<Longrightarrow> BlockHandle_EncodeTo h dst = Some (dst @ handle_bytes h)"
  by (simp add: BlockHandle_EncodeTo_def handle_set_def handle_bytes_def PutVarint64_def EncodeVarint64_bytes)

lemma BlockHandle_DecodeFrom_bytes: "BlockHandle_DecodeFrom h0 (handle_bytes h @ rest) = (StatusOK, h, rest)"
  by (simp add: BlockHandle_DecodeFrom_def handle_bytes_def GetVarint64_bytes Let_def)

lemma length_handle_bytes: "length (handle_bytes h) \<le> 20" "0 < length (handle_bytes h)"
  using length_varint_bytes_u64 [of "bh_offset h"] length_varint_bytes_u64 [of "bh_size h"]
  by (simp_all add: handle_bytes_def)

subsection \<open>The footer\<close>

definition footer_bytes :: "Footer \<Rightarrow> u8 list" where
  "footer_bytes f =
     (let hs = handle_bytes (ft_metaindex_handle f) @ handle_bytes (ft_index_handle f) in
      hs @ replicate (40 - length hs) 0 @ le_bytes 8 (unat kTableMagicNumber))"

lemma length_footer_bytes [simp]: "length (footer_bytes f) = 48"
  using length_handle_bytes(1) [of "ft_metaindex_handle f"] length_handle_bytes(1) [of "ft_index_handle f"]
  by (simp add: footer_bytes_def Let_def)

lemma magic_halves:
  "unat (ucast (kTableMagicNumber AND 0xffffffff) :: u32) = 0x8b80fb57"
  "unat (ucast (drop_bit 32 kTableMagicNumber) :: u32) = 0xdb477524"
  by (simp_all add: kTableMagicNumber_def drop_bit_eq_div)

lemma magic_bytes:
  "le_bytes 8 (unat kTableMagicNumber) = le_bytes 4 0x8b80fb57 @ le_bytes 4 0xdb477524"
  by (simp add: kTableMagicNumber_def le_bytes_4 le_bytes_8)

lemma Footer_EncodeTo_bytes:
  assumes "handle_set (ft_metaindex_handle f)" "handle_set (ft_index_handle f)"
  shows "Footer_EncodeTo f [] = Some (footer_bytes f)"
proof -
  have "length (handle_bytes (ft_metaindex_handle f) @ handle_bytes (ft_index_handle f)) \<le> 40"
    using length_handle_bytes(1) [of "ft_metaindex_handle f"] length_handle_bytes(1) [of "ft_index_handle f"] by simp
  then show ?thesis
    using assms unfolding Footer_EncodeTo_def
    by (simp add: BlockHandle_EncodeTo_bytes string_resize_def kMaxEncodedLength_def PutFixed32_def EncodeFixed32_le
        magic_halves kEncodedLength_def footer_bytes_def magic_bytes Let_def)
qed

lemma Footer_DecodeFrom_bytes: "Footer_DecodeFrom f0 (footer_bytes f) = Some (StatusOK, f, [])"
proof -
  let ?m = "handle_bytes (ft_metaindex_handle f)" and ?i = "handle_bytes (ft_index_handle f)"
  let ?pad = "replicate (40 - length (?m @ ?i)) (0 :: u8)"
  have "length (?m @ ?i) \<le> 40"
    using length_handle_bytes(1) [of "ft_metaindex_handle f"] length_handle_bytes(1) [of "ft_index_handle f"] by simp
  then have magic: "drop 40 (footer_bytes f) = le_bytes 8 (unat kTableMagicNumber)"
    by (simp add: footer_bytes_def Let_def)
  have "DecodeFixed32 (le_bytes 8 (unat kTableMagicNumber)) = Some 0x8b80fb57"
    "DecodeFixed32 (drop 4 (le_bytes 8 (unat kTableMagicNumber))) = Some 0xdb477524"
    unfolding magic_bytes by (simp_all add: DecodeFixed32_def decode_fixed32_endian_free)
  moreover have "push_bit 32 (ucast (0xdb477524 :: u32)) OR ucast (0x8b80fb57 :: u32) = kTableMagicNumber"
    by (simp add: kTableMagicNumber_def)
  moreover have "footer_bytes f = ?m @ ?i @ ?pad @ le_bytes 8 (unat kTableMagicNumber)"
    by (simp add: footer_bytes_def Let_def)
  ultimately show ?thesis
    using magic BlockHandle_DecodeFrom_bytes [of _ "ft_metaindex_handle f" "?i @ ?pad @ le_bytes 8 (unat kTableMagicNumber)"]
      BlockHandle_DecodeFrom_bytes [of _ "ft_index_handle f" "?pad @ le_bytes 8 (unat kTableMagicNumber)"]
    by (simp add: Footer_DecodeFrom_def kEncodedLength_def kMaxEncodedLength_def)
qed

subsection \<open>Blocks with their trailers\<close>

definition raw_block :: "u8 list \<Rightarrow> u8 list" where
  "raw_block d = d @ [0] @ EncodeFixed32 (Mask (crc32c 0 (d @ [0])))"

definition block_at :: "u8 list \<Rightarrow> nat \<Rightarrow> u8 list \<Rightarrow> bool" where
  "block_at stored off d \<longleftrightarrow> take (length d + 5) (drop off stored) = raw_block d"

lemma length_raw_block [simp]: "length (raw_block d) = length d + 5"
  by (simp add: raw_block_def EncodeFixed32_le)

lemma block_at_middle: "block_at (pre @ raw_block d @ post) (length pre) d"
  by (simp add: block_at_def)

lemma ReadBlock_raw:
  assumes "random_access_file rf stored" "block_at stored off d" "off + length d + 5 < 2 ^ 63"
  shows "\<exists>b. ReadBlock rf ro \<lparr>bh_offset = of_nat off, bh_size = of_nat (length d)\<rparr> =
    Some (StatusOK, \<lparr>bc_data = d, bc_cachable = b, bc_heap_allocated = b\<rparr>)"
proof -
  have u: "unat (of_nat (length d) :: u64) = length d" "unat (of_nat (length d) + 5 :: u64) = length d + 5"
    "unat (of_nat off :: u64) = off"
    using assms(3) by (simp_all add: unat_word_ariths unsigned_of_nat take_bit_nat_eq_self)
  obtain b where b: "file_ReadAt rf (of_nat off) (length d + 5) = (StatusOK, raw_block d, b)"
    using random_access_file.read_at [OF assms(1), of "of_nat off" "length d + 5"] assms(2) u(3)
    by (auto simp: block_at_def)
  have crc: "Value 0 (d @ [0]) = Some (crc32c 0 (d @ [0]))"
    using assms(3) by (simp add: Value_def Extend_crc)
  have stored: "DecodeFixed32 (drop (Suc (length d)) (raw_block d)) = Some (Mask (crc32c 0 (d @ [0])))"
    using unat_u32_less [of "Mask (crc32c 0 (d @ [0]))"]
    by (simp add: raw_block_def DecodeFixed32_def decode_fixed32_endian_free EncodeFixed32_le)
  have parts: "take (Suc (length d)) (raw_block d) = d @ [0]" "raw_block d ! length d = 0" "take (length d) (raw_block d) = d"
    by (simp_all add: raw_block_def)
  show ?thesis
    using b crc stored parts
    by (intro exI [of _ b]) (simp add: ReadBlock_def u kBlockTrailerSize_def CompressionType_code_def Unmask_Mask Let_def)
qed

section \<open>leveldb: the layout of a table\<close>

text \<open>
  The contract between \<open>table_builder.cc\<close> and \<open>table.cc\<close>: data blocks one after the other, each with its
  trailer, and an index with a separator and a handle for each.
\<close>

type_synonym kv = "Slice \<times> Slice"

text \<open>The bytes of a block and its entries.\<close>

definition block_of :: "u8 list \<Rightarrow> kv list \<Rightarrow> bool" where
  "block_of d kvs \<longleftrightarrow> (\<exists>es rs. layout es rs \<and> d = block_bytes es rs \<and> map snd es = kvs)"

lemma layout_shared: "layout es rs \<Longrightarrow> e \<in> set es \<Longrightarrow> e_shared e \<le> length (e_key e)"
  by (auto simp: in_set_conv_nth layout_def shares_def simp del: split_paired_All)

lemma block_of_bound:
  assumes "block_of d kvs" "\<forall>(k, v) \<in> set kvs. length k < 2 ^ 32 \<and> length v < 2 ^ 32"
  shows "length d \<le> block_bound kvs"
proof -
  obtain es rs where es: "layout es rs" "d = block_bytes es rs" "map snd es = kvs"
    using assms(1) by (auto simp: block_of_def)
  have "length (entries_bytes es) + 4 * length es + 8 \<le> block_bound kvs"
    using entries_bound [of es] layout_shared [OF es(1)] assms(2) by (simp add: es(3) [symmetric] case_prod_unfold)
  then show ?thesis using restarts_bound [OF es(1)] es(2) by (simp add: length_block_bytes)
qed

subsection \<open>The data blocks\<close>

definition data_bytes :: "(u8 list \<times> kv list) list \<Rightarrow> u8 list" where
  "data_bytes bs = concat (map (raw_block \<circ> fst) bs)"

definition block_offset :: "(u8 list \<times> kv list) list \<Rightarrow> nat \<Rightarrow> nat" where
  "block_offset bs j = length (data_bytes (take j bs))"

definition block_handle :: "(u8 list \<times> kv list) list \<Rightarrow> nat \<Rightarrow> BlockHandle" where
  "block_handle bs j = \<lparr>bh_offset = of_nat (block_offset bs j), bh_size = of_nat (length (fst (bs ! j)))\<rparr>"

definition index_entries :: "(u8 list \<times> kv list) list \<Rightarrow> Slice list \<Rightarrow> kv list" where
  "index_entries bs seps = map (\<lambda>j. (seps ! j, handle_bytes (block_handle bs j))) [0..<length seps]"

abbreviation entries_of :: "(u8 list \<times> kv list) list \<Rightarrow> kv list" where
  "entries_of bs \<equiv> concat (map snd bs)"

definition good_blocks :: "(u8 list \<times> kv list) list \<Rightarrow> bool" where
  "good_blocks bs \<longleftrightarrow> (\<forall>b \<in> set bs. block_of (fst b) (snd b) \<and> snd b \<noteq> [])"

lemma data_bytes_simps [simp]:
  "data_bytes [] = []" "data_bytes (bs @ [b]) = data_bytes bs @ raw_block (fst b)"
  by (simp_all add: data_bytes_def)

lemma block_offset_le: "j \<le> length bs \<Longrightarrow> block_offset (bs @ cs) j = block_offset bs j"
  by (simp add: block_offset_def)

lemma block_offset_all: "block_offset bs (length bs) = length (data_bytes bs)"
  by (simp add: block_offset_def)

lemma block_handle_snoc: "j < length bs \<Longrightarrow> block_handle (bs @ cs) j = block_handle bs j"
  by (simp add: block_handle_def block_offset_le nth_append)

lemma index_entries_snoc_block: "length seps \<le> length bs \<Longrightarrow> index_entries (bs @ cs) seps = index_entries bs seps"
  by (simp add: index_entries_def block_handle_snoc)

lemma index_entries_snoc_sep:
  "index_entries bs (seps @ [s]) = index_entries bs seps @ [(s, handle_bytes (block_handle bs (length seps)))]"
  by (auto simp: index_entries_def nth_append)

lemma data_bytes_split:
  assumes "j < length bs"
  shows "data_bytes bs = data_bytes (take j bs) @ raw_block (fst (bs ! j)) @ data_bytes (drop (Suc j) bs)"
  using id_take_nth_drop [OF assms] by (metis (no_types, lifting) append_assoc concat.simps(2) concat_append comp_apply data_bytes_def list.simps(9) map_append)

lemma block_at_data:
  assumes "j < length bs"
  shows "block_at (data_bytes bs @ rest) (block_offset bs j) (fst (bs ! j))"
  using block_at_middle [of "data_bytes (take j bs)" "fst (bs ! j)" "data_bytes (drop (Suc j) bs) @ rest"]
  by (simp add: data_bytes_split [OF assms] block_offset_def)

lemma block_offset_mono: "i \<le> j \<Longrightarrow> block_offset bs i \<le> block_offset bs j"
  unfolding block_offset_def data_bytes_def
  by (metis (no_types, lifting) append_take_drop_id concat_append length_append le_add1 map_append min.absorb_iff1 take_take)

lemma block_offset_bound: "j < length bs \<Longrightarrow> block_offset bs j + length (fst (bs ! j)) + 5 \<le> length (data_bytes bs)"
  using arg_cong [OF data_bytes_split [of j bs], of length] by (simp add: block_offset_def)

lemma handle_set_small:
  assumes "n < 2 ^ 63" "m < 2 ^ 63"
  shows "handle_set \<lparr>bh_offset = of_nat n, bh_size = of_nat m\<rparr>"
proof -
  have "(of_nat i :: u64) \<noteq> - 1" if "i < 2 ^ 63" for i
  proof
    assume "(of_nat i :: u64) = - 1"
    from arg_cong [OF this, of unat] that show False by (simp add: unsigned_of_nat take_bit_nat_eq_self unsigned_minus_1_eq_mask mask_eq_exp_minus_1)
  qed
  with assms show ?thesis by (simp add: handle_set_def)
qed

lemma block_handle_set: "j < length bs \<Longrightarrow> length (data_bytes bs) < 2 ^ 63 \<Longrightarrow> handle_set (block_handle bs j)"
  using block_offset_bound [of j bs] by (simp add: block_handle_def handle_set_small)

subsection \<open>Sizes\<close>

definition kv_size :: "kv \<Rightarrow> nat" where
  "kv_size e = length (fst e) + length (snd e)"

lemma block_bound_sizes: "block_bound kvs = sum_list (map kv_size kvs) + 19 * length kvs + 8"
  by (induction kvs) (simp_all add: block_bound_def kv_size_def split_beta)

lemma kv_size_member: "e \<in> set kvs \<Longrightarrow> kv_size e \<le> sum_list (map kv_size kvs)"
  by (simp add: member_le_sum_list)

text \<open>Every data block takes at most 32 bytes per entry, beside the keys and values.\<close>

lemma data_bytes_bound:
  assumes "good_blocks bs" "sum_list (map kv_size (entries_of bs)) < 2 ^ 32"
  shows "length (data_bytes bs) \<le> sum_list (map kv_size (entries_of bs)) + 32 * length (entries_of bs)"
  using assms
proof (induction bs rule: rev_induct)
  case (snoc b bs)
  have b: "block_of (fst b) (snd b)" "snd b \<noteq> []" "good_blocks bs" using snoc.prems(1) by (auto simp: good_blocks_def)
  have "\<forall>(k, v) \<in> set (snd b). length k < 2 ^ 32 \<and> length v < 2 ^ 32"
  proof (clarify)
    fix k v assume "(k, v) \<in> set (snd b)"
    then have "kv_size (k, v) \<le> sum_list (map kv_size (snd b))" by (rule kv_size_member)
    moreover have "kv_size (k, v) = length k + length v" by (simp add: kv_size_def)
    moreover have "sum_list (map kv_size (snd b)) < 2 ^ 32" using snoc.prems(2) by simp
    ultimately show "length k < 2 ^ 32 \<and> length v < 2 ^ 32" by linarith
  qed
  from block_of_bound [OF b(1) this]
  have "length (fst b) + 5 \<le> sum_list (map kv_size (snd b)) + 19 * length (snd b) + 13"
    by (simp add: block_bound_sizes)
  moreover have "1 \<le> length (snd b)" using b(2) by (simp add: Suc_leI)
  ultimately have "length (fst b) + 5 \<le> sum_list (map kv_size (snd b)) + 32 * length (snd b)" by linarith
  moreover have "length (data_bytes bs) \<le> sum_list (map kv_size (entries_of bs)) + 32 * length (entries_of bs)"
    using snoc.IH [OF b(3)] snoc.prems(2) by simp
  ultimately show ?case by simp
qed simp

section \<open>leveldb: the separators in the index of a table\<close>

text \<open>
  Groups of entries in increasing order, and separators computed by the comparator between each
  group and the next; so each separator is at or past its group and before all later ones.
\<close>

abbreviation key_less :: "Comparator \<Rightarrow> kv \<Rightarrow> kv \<Rightarrow> bool" where
  "key_less C a b \<equiv> cmp C (fst a) (fst b) < 0"

definition separated :: "Comparator \<Rightarrow> Slice list \<Rightarrow> kv list list \<Rightarrow> bool" where
  "separated C seps gs \<longleftrightarrow> (\<forall>j < length seps. Suc j < length gs \<and> gs ! Suc j \<noteq> [] \<and>
     FindShortestSeparator C (fst (last (gs ! j))) (fst (hd (gs ! Suc j))) = Some (seps ! j))"

definition seps_bound :: "Comparator \<Rightarrow> (Slice \<Rightarrow> bool) \<Rightarrow> Slice list \<Rightarrow> kv list list \<Rightarrow> bool" where
  "seps_bound C key_ok seps gs \<longleftrightarrow> (\<forall>j < length seps. j < length gs \<and> key_ok (seps ! j) \<and>
     (\<forall>e \<in> set (gs ! j). cmp C (fst e) (seps ! j) \<le> 0) \<and>
     (\<forall>i e. j < i \<longrightarrow> i < length gs \<longrightarrow> e \<in> set (gs ! i) \<longrightarrow> cmp C (seps ! j) (fst e) < 0) \<and>
     length (seps ! j) \<le> length (fst (last (gs ! j))))"

lemma separated_snoc_entry:
  "separated C seps (bs @ [cur]) \<Longrightarrow> (length seps = length bs \<Longrightarrow> seps \<noteq> [] \<Longrightarrow> cur \<noteq> []) \<Longrightarrow> separated C seps (bs @ [cur @ [e]])"
  by (auto simp: separated_def nth_append less_Suc_eq hd_append split: if_splits)

lemma separated_change_last:
  "separated C seps (gs @ [g]) \<Longrightarrow> length seps < length gs \<Longrightarrow> separated C seps (gs @ [g'])"
  by (simp add: separated_def nth_append)

lemma separated_drop_last: "separated C seps (gs @ [g]) \<Longrightarrow> length seps < length gs \<Longrightarrow> separated C seps gs"
  by (simp add: separated_def nth_append)

lemma separated_snoc_group: "separated C seps gs \<Longrightarrow> separated C seps (gs @ [g])"
  by (auto simp: separated_def nth_append)

lemma separated_snoc_sep:
  "separated C seps (bs @ [g]) \<Longrightarrow> length bs = Suc (length seps) \<Longrightarrow> g \<noteq> [] \<Longrightarrow>
    FindShortestSeparator C (fst (last (last bs))) (fst (hd g)) = Some s \<Longrightarrow> separated C (seps @ [s]) (bs @ [g])"
  by (cases bs rule: rev_cases) (auto simp: separated_def nth_append less_Suc_eq)

lemma sorted_concat:
  assumes "sorted_wrt R (concat gs)" "i < length gs"
  shows "sorted_wrt R (gs ! i)"
    and "i < j \<Longrightarrow> j < length gs \<Longrightarrow> a \<in> set (gs ! i) \<Longrightarrow> b \<in> set (gs ! j) \<Longrightarrow> R a b"
proof -
  have split: "concat gs = concat (take i gs) @ gs ! i @ concat (drop (Suc i) gs)"
    using id_take_nth_drop [OF assms(2)] by (metis concat.simps(2) concat_append)
  then show "sorted_wrt R (gs ! i)" using assms(1) by (simp add: sorted_wrt_append)
  assume "i < j" "j < length gs" "a \<in> set (gs ! i)" "b \<in> set (gs ! j)"
  moreover from this have "gs ! j \<in> set (drop (Suc i) gs)"
    using nth_mem [of "j - Suc i" "drop (Suc i) gs"] by simp
  ultimately show "R a b" using assms(1) unfolding split by (auto simp: sorted_wrt_append)
qed

lemma sorted_last: "sorted_wrt R xs \<Longrightarrow> x \<in> set xs \<Longrightarrow> x = last xs \<or> R x (last xs)"
  by (cases xs rule: rev_cases) (auto simp: sorted_wrt_append)

lemma sorted_hd: "sorted_wrt R xs \<Longrightarrow> x \<in> set xs \<Longrightarrow> x = hd xs \<or> R (hd xs) x"
  by (cases xs) auto

text \<open>The separators take no more room than the entries.\<close>

lemma seps_total:
  assumes "seps_bound C key_ok seps gs" "\<forall>j < length seps. gs ! j \<noteq> []"
  shows "sum_list (map length seps) \<le> sum_list (map kv_size (concat gs))" "length seps \<le> length (concat gs)"
proof -
  have len: "length seps \<le> length gs"
  proof (cases seps rule: rev_cases)
    case (snoc ss s)
    with assms(1) show ?thesis by (auto simp: seps_bound_def dest: spec [of _ "length ss"])
  qed simp
  have part: "length (seps ! j) \<le> sum_list (map kv_size (gs ! j)) \<and> 1 \<le> length (gs ! j)" if j: "j < length seps" for j
  proof -
    have "last (gs ! j) \<in> set (gs ! j)" using assms(2) j by simp
    from kv_size_member [OF this] have "length (fst (last (gs ! j))) \<le> sum_list (map kv_size (gs ! j))"
      by (simp add: kv_size_def)
    moreover have "length (seps ! j) \<le> length (fst (last (gs ! j)))" using assms(1) j by (simp add: seps_bound_def)
    ultimately show ?thesis using assms(2) j by (simp add: Suc_leI)
  qed
  have "sum_list (map length seps) = (\<Sum>j < length seps. length (seps ! j))"
    by (simp add: sum_list_sum_nth atLeast0LessThan)
  also have "\<dots> \<le> (\<Sum>j < length seps. sum_list (map kv_size (gs ! j)))" using part by (intro sum_mono) simp
  also have "\<dots> \<le> (\<Sum>j < length gs. sum_list (map kv_size (gs ! j)))" using len by (intro sum_mono2) auto
  also have "\<dots> = sum_list (map (\<lambda>g. sum_list (map kv_size g)) gs)"
    by (simp add: sum_list_sum_nth [of "map _ gs"] atLeast0LessThan)
  also have "\<dots> = sum_list (map kv_size (concat gs))" by (induction gs) simp_all
  finally show "sum_list (map length seps) \<le> sum_list (map kv_size (concat gs))" .
  have "length seps = (\<Sum>j < length seps. 1)" by simp
  also have "\<dots> \<le> (\<Sum>j < length seps. length (gs ! j))" using part by (intro sum_mono) simp
  also have "\<dots> \<le> (\<Sum>j < length gs. length (gs ! j))" using len by (intro sum_mono2) auto
  also have "\<dots> = length (concat gs)"
    by (simp add: length_concat sum_list_sum_nth [of "map _ gs"] atLeast0LessThan)
  finally show "length seps \<le> length (concat gs)" .
qed

lemma index_entries_size: "sum_list (map kv_size (index_entries bs seps)) \<le> sum_list (map length seps) + 20 * length seps"
proof (induction seps rule: rev_induct)
  case (snoc s seps)
  then show ?case
    using length_handle_bytes(1) [of "block_handle bs (length seps)"] by (simp add: index_entries_snoc_sep kv_size_def)
qed (simp add: index_entries_def)

lemma length_index_entries [simp]: "length (index_entries bs seps) = length seps"
  by (simp add: index_entries_def)

context short_comparator
begin

definition ordered_groups :: "kv list list \<Rightarrow> bool" where
  "ordered_groups gs \<longleftrightarrow> sorted_wrt (key_less C) (concat gs) \<and> (\<forall>e \<in> set (concat gs). key_ok (fst e))"

lemma ordered_group_keys: "ordered_groups gs \<Longrightarrow> i < length gs \<Longrightarrow> e \<in> set (gs ! i) \<Longrightarrow> key_ok (fst e)"
  unfolding ordered_groups_def by (metis UN_I nth_mem set_concat)

lemma group_last:
  assumes "ordered_groups gs" "j < length gs" "e \<in> set (gs ! j)"
  shows "key_ok (fst (last (gs ! j)))" "cmp C (fst e) (fst (last (gs ! j))) \<le> 0"
proof -
  have "gs ! j \<noteq> []" using assms(3) by auto
  then have l: "last (gs ! j) \<in> set (gs ! j)" by simp
  with assms show k: "key_ok (fst (last (gs ! j)))" by (simp add: ordered_group_keys)
  have "e = last (gs ! j) \<or> key_less C e (last (gs ! j))"
    using sorted_last [OF sorted_concat(1) [of "key_less C" gs j] assms(3)] assms(1,2) by (simp add: ordered_groups_def)
  with cmp_refl [OF k] show "cmp C (fst e) (fst (last (gs ! j))) \<le> 0" by auto
qed

lemma separated_bound:
  assumes "ordered_groups gs" "separated C seps gs" "\<forall>g \<in> set (butlast gs). g \<noteq> []"
  shows "seps_bound C key_ok seps gs"
  unfolding seps_bound_def
proof (intro allI impI)
  fix j assume j: "j < length seps"
  note sep = assms(2) [unfolded separated_def, rule_format, OF j]
  have "j < length (butlast gs)" using sep by auto
  then have ne: "gs ! j \<noteq> []" using assms(3) nth_butlast nth_mem by metis
  let ?s = "fst (last (gs ! j))" and ?l = "fst (hd (gs ! Suc j))"
  have mem: "last (gs ! j) \<in> set (gs ! j)" "hd (gs ! Suc j) \<in> set (gs ! Suc j)" using ne sep by simp_all
  have ok: "key_ok ?s" "key_ok ?l"
    using ordered_group_keys [OF assms(1) _ mem(1)] ordered_group_keys [OF assms(1) _ mem(2)] sep by auto
  have less: "cmp C ?s ?l < 0"
    using sorted_concat(2) [of "key_less C" gs j "Suc j", OF _ _ _ _ mem] assms(1) sep by (simp add: ordered_groups_def)
  obtain r where r: "FindShortestSeparator C ?s ?l = Some r" "key_ok r" "cmp C ?s r \<le> 0" "cmp C r ?l < 0" "length r \<le> length ?s"
    by (rule short_separator [OF ok less])
  then have s: "seps ! j = r" using sep by simp
  have "cmp C (fst e) r \<le> 0" if "e \<in> set (gs ! j)" for e
    using cmp_trans [OF _ ok(1) r(2) _ r(3)] group_last(2) [OF assms(1) _ that] ordered_group_keys [OF assms(1) _ that] sep by simp
  moreover have "cmp C r (fst e) < 0" if i: "j < i" "i < length gs" "e \<in> set (gs ! i)" for i e
  proof -
    have e: "key_ok (fst e)" using ordered_group_keys [OF assms(1) i(2,3)] .
    have "hd (gs ! Suc j) = e \<or> cmp C ?l (fst e) < 0"
    proof (cases "i = Suc j")
      case True
      have "sorted_wrt (key_less C) (gs ! Suc j)"
        using sorted_concat(1) [of "key_less C" gs "Suc j"] assms(1) sep by (simp add: ordered_groups_def)
      from sorted_hd [OF this, of e] show ?thesis using i(3) True by metis
    next
      case False
      with i have "Suc j < i" by simp
      then show ?thesis
        using sorted_concat(2) [of "key_less C" gs "Suc j" i, OF _ _ _ i(2) mem(2) i(3)] assms(1) sep by (simp add: ordered_groups_def)
    qed
    then have "cmp C ?l (fst e) \<le> 0" using cmp_refl ok(2) by auto
    with cmp_less_trans' [OF r(2) ok(2) e r(4)] show ?thesis by simp
  qed
  ultimately show "j < length gs \<and> key_ok (seps ! j) \<and> (\<forall>e \<in> set (gs ! j). cmp C (fst e) (seps ! j) \<le> 0) \<and>
     (\<forall>i e. j < i \<longrightarrow> i < length gs \<longrightarrow> e \<in> set (gs ! i) \<longrightarrow> cmp C (seps ! j) (fst e) < 0) \<and>
     length (seps ! j) \<le> length (fst (last (gs ! j)))"
    using sep r(2,5) unfolding s by auto
qed

lemma seps_bound_sorted:
  assumes "ordered_groups gs" "seps_bound C key_ok seps gs" "\<forall>j < length seps. gs ! j \<noteq> []"
  shows "sorted_wrt (\<lambda>a b. cmp C a b < 0) seps"
  unfolding sorted_wrt_iff_nth_less
proof (intro allI impI)
  fix i j assume ij: "i < j" "j < length seps"
  let ?e = "hd (gs ! j)"
  have e: "?e \<in> set (gs ! j)" using assms(3) ij(2) by simp
  have "i < length seps" using ij by simp
  note bi = assms(2) [unfolded seps_bound_def, rule_format, OF this] and bj = assms(2) [unfolded seps_bound_def, rule_format, OF ij(2)]
  have "cmp C (seps ! i) (fst ?e) < 0" using bi bj ij(1) e by blast
  moreover have "cmp C (fst ?e) (seps ! j) \<le> 0" using bj e by simp
  ultimately show "cmp C (seps ! i) (seps ! j) < 0"
    using cmp_less_trans' [of "seps ! i" "fst ?e" "seps ! j"] bi bj ij ordered_group_keys [OF assms(1) _ e] by simp
qed

lemma seps_bound_snoc:
  assumes "ordered_groups (gs @ [g])" "seps_bound C key_ok seps (gs @ [g])" "length seps = length gs" "g \<noteq> []"
    "key_ok s" "cmp C (fst (last g)) s \<le> 0" "length s \<le> length (fst (last g))"
  shows "seps_bound C key_ok (seps @ [s]) (gs @ [g])"
proof -
  have "cmp C (fst e) s \<le> 0" if "e \<in> set g" for e
    using group_last [OF assms(1), of "length gs" e] that ordered_group_keys [OF assms(1), of "length gs" e]
      cmp_trans [of "fst e" "fst (last g)" s] assms(5,6) by simp
  then show ?thesis
    using assms(2-7) by (auto simp: seps_bound_def nth_append less_Suc_eq)
qed

end

section \<open>leveldb: the filter block of a table\<close>

text \<open>
  The filter builder of a table while blocks are written, and what the reader of the finished filter block answers.
\<close>

definition filter_state :: "FilterPolicy \<Rightarrow> (Slice \<Rightarrow> bool) \<Rightarrow> FilterBlockBuilder \<Rightarrow> (u8 list \<times> kv list) list \<Rightarrow> kv list \<Rightarrow> bool" where
  "filter_state p key_ok b bs cur \<longleftrightarrow> (\<exists>gs ks. filter_policy.fb_inv p key_ok b gs ks \<and> filter_policy.bounded_groups key_ok gs \<and>
     length gs = filter_index (of_nat (length (data_bytes bs))) \<and> length (concat gs @ ks) = length (entries_of bs @ cur) \<and>
     (\<forall>j < length bs. filter_policy.placed gs ks (of_nat (block_offset bs j), map fst (snd (bs ! j)))) \<and>
     filter_policy.placed gs ks (of_nat (length (data_bytes bs)), map fst cur))"

definition filter_ok :: "FilterPolicy \<Rightarrow> (Slice \<Rightarrow> bool) \<Rightarrow> u8 list \<Rightarrow> (u8 list \<times> kv list) list \<Rightarrow> bool" where
  "filter_ok p key_ok data bs \<longleftrightarrow> (\<exists>rd. mk_FilterBlockReader data = Some rd \<and>
     (\<forall>j < length bs. \<forall>e \<in> set (snd (bs ! j)). FilterBlock_KeyMayMatch p rd (of_nat (block_offset bs j)) (fst e) = Some True) \<and>
     (\<forall>off k. key_ok k \<longrightarrow> FilterBlock_KeyMayMatch p rd off k \<noteq> None))"

lemma filter_index_nat: "n < 2 ^ 64 \<Longrightarrow> filter_index (of_nat n) = n div 2048"
  by (simp add: filter_index_def kFilterBase_def kFilterBaseLg_def unat_div unsigned_of_nat take_bit_nat_eq_self)

context sized_filter_policy
begin

lemma filter_state_empty: "\<exists>b. StartBlock policy mk_FilterBlockBuilder 0 = Some b \<and> filter_state policy key_ok b [] []"
proof -
  have inv0: "fb_inv mk_FilterBlockBuilder [] []"
    by (simp add: fb_inv_def mk_FilterBlockBuilder_def offsets_of_def)
  have "bounded_groups []" by (simp add: bounded_groups_def)
  from StartBlock_inv [OF inv0 this, of 0 "{}"] obtain b gs ks where
    "StartBlock policy mk_FilterBlockBuilder 0 = Some b" "fb_inv b gs ks" "bounded_groups gs" "length gs = filter_index 0"
    "concat gs @ ks = []" by auto
  then show ?thesis by (auto simp: filter_state_def placed_def filter_index_def)
qed

lemma filter_state_AddKey:
  assumes "filter_state policy key_ok b bs cur" "key_ok (fst e)" "length (entries_of bs @ cur) + 1 < 2 ^ 31"
  shows "filter_state policy key_ok (AddKey b (fst e)) bs (cur @ [e])"
proof -
  obtain gs ks where s: "fb_inv b gs ks" "bounded_groups gs" "length gs = filter_index (of_nat (length (data_bytes bs)))"
    "length (concat gs @ ks) = length (entries_of bs @ cur)"
    "\<forall>j < length bs. placed gs ks (of_nat (block_offset bs j), map fst (snd (bs ! j)))"
    "placed gs ks (of_nat (length (data_bytes bs)), map fst cur)"
    using assms(1) by (auto simp: filter_state_def)
  have "length ks + 1 < 2 ^ 31" using arg_cong [OF s(4), of Suc] assms(3) by simp
  then have "fb_inv (AddKey b (fst e)) gs (ks @ [fst e])" by (rule AddKey_inv [OF s(1) assms(2)])
  moreover have "placed gs (ks @ [fst e]) (of_nat (length (data_bytes bs)), map fst (cur @ [e]))"
    using s(3,6) by (auto simp: placed_def Let_def)
  ultimately show ?thesis
    using s placed_AddKeys unfolding filter_state_def by (intro exI [of _ gs] exI [of _ "ks @ [fst e]"]) simp
qed

lemma filter_state_flush:
  assumes "filter_state policy key_ok b bs cur" "length (data_bytes bs) + length d + 5 < 2 ^ 64"
  shows "\<exists>b'. StartBlock policy b (of_nat (length (data_bytes bs) + (length d + 5))) = Some b' \<and>
    filter_state policy key_ok b' (bs @ [(d, cur)]) []"
proof -
  obtain gs ks where s: "fb_inv b gs ks" "bounded_groups gs" "length gs = filter_index (of_nat (length (data_bytes bs)))"
    "length (concat gs @ ks) = length (entries_of bs @ cur)"
    "\<forall>j < length bs. placed gs ks (of_nat (block_offset bs j), map fst (snd (bs ! j)))"
    "placed gs ks (of_nat (length (data_bytes bs)), map fst cur)"
    using assms(1) by (auto simp: filter_state_def)
  let ?bs = "bs @ [(d, cur)]"
  let ?D = "{(of_nat (block_offset ?bs j), map fst (snd (?bs ! j))) | j. j < length ?bs}"
  have all: "\<forall>blk \<in> ?D. placed gs ks blk"
  proof clarify
    fix j assume "j < length ?bs"
    then show "placed gs ks (of_nat (block_offset ?bs j), map fst (snd (?bs ! j)))"
      using s(5,6) by (cases "j < length bs") (simp_all add: block_offset_le block_offset_all nth_append not_less less_Suc_eq)
  qed
  have "length gs \<le> filter_index (of_nat (length (data_bytes bs) + (length d + 5)))"
    using assms(2) by (simp add: s(3) filter_index_nat div_le_mono del: of_nat_add)
  from StartBlock_inv [OF s(1,2) this all] obtain b' gs' ks' where b': "StartBlock policy b (of_nat (length (data_bytes bs) + (length d + 5))) = Some b'"
    "fb_inv b' gs' ks'" "bounded_groups gs'" "length gs' = filter_index (of_nat (length (data_bytes bs) + (length d + 5)))"
    "concat gs' @ ks' = concat gs @ ks" "\<forall>blk \<in> ?D. placed gs' ks' blk" by blast
  have "\<forall>j < length ?bs. placed gs' ks' (of_nat (block_offset ?bs j), map fst (snd (?bs ! j)))" using b'(6) by blast
  moreover have "length (concat gs' @ ks') = length (entries_of ?bs @ [])" using s(4) unfolding b'(5) by simp
  ultimately show ?thesis
    using b'(1-4) unfolding filter_state_def
    by (intro exI [of _ b'] conjI exI [of _ gs'] exI [of _ ks']) (simp_all add: placed_def)
qed

lemma may_match_defined:
  assumes "length (block_contents gs) < 2 ^ 32" "mk_FilterBlockReader (block_contents gs) = Some rd" "key_ok k"
  shows "FilterBlock_KeyMayMatch policy rd off k \<noteq> None"
proof -
  have rd: "rd = \<lparr>fr_data = block_contents gs, fr_offset = length (concat (map filter_of gs)), fr_num = length gs, fr_base_lg = 11\<rparr>"
    using assms(1,2) by (simp add: read_block)
  let ?i = "unat (drop_bit 11 off)"
  show ?thesis
  proof (cases "?i < length gs")
    case True
    have "DecodeFixed32 (drop (length (concat (map filter_of gs)) + ?i * 4 + 4) (block_contents gs)) =
        Some (of_nat (length (concat (map filter_of (take (Suc ?i) gs)))))"
      using reader_offsets [of "Suc ?i" gs] True by (simp add: add.commute add.left_commute)
    with reader_offsets [of ?i gs] True may_match_total [OF assms(3)] show ?thesis
      unfolding rd FilterBlock_KeyMayMatch_def by (auto simp: Let_def)
  qed (simp add: rd FilterBlock_KeyMayMatch_def)
qed

lemma filter_state_finish:
  assumes "filter_state policy key_ok b bs []" "length (data_bytes bs) < 2 ^ 64"
    "per_key * length (entries_of bs) + length (data_bytes bs) div 512 + 13 < 2 ^ 32"
  shows "\<exists>data b'. FilterBlock_Finish policy b = Some (data, b') \<and> filter_ok policy key_ok data bs \<and>
    length data \<le> per_key * length (entries_of bs) + length (data_bytes bs) div 512 + 13"
proof -
  obtain gs ks where s: "fb_inv b gs ks" "bounded_groups gs" "length gs = filter_index (of_nat (length (data_bytes bs)))"
    "length (concat gs @ ks) = length (entries_of bs)"
    "\<forall>j < length bs. placed gs ks (of_nat (block_offset bs j), map fst (snd (bs ! j)))"
    using assms(1) by (auto simp: filter_state_def)
  define gs' where "gs' = (if ks = [] then gs else gs @ [ks])"
  obtain b' where fin: "FilterBlock_Finish policy b = Some (block_contents gs', b')"
    using Finish_inv [OF s(1)] unfolding gs'_def by blast
  have bg: "bounded_groups gs'" using s(1,2) by (auto simp: gs'_def bounded_groups_def fb_inv_def)
  have "length gs = length (data_bytes bs) div 2048" using s(3) assms(2) by (simp add: filter_index_nat)
  moreover have "length gs' \<le> Suc (length gs)" by (simp add: gs'_def)
  moreover have "length (data_bytes bs) div 2048 = length (data_bytes bs) div 512 div 4" by (simp flip: div_mult2_eq)
  ultimately have "4 * length gs' \<le> length (data_bytes bs) div 512 + 4"
    using \<open>length gs' \<le> Suc (length gs)\<close> by linarith
  moreover have "length (concat gs') = length (entries_of bs)" using s(4) by (auto simp: gs'_def)
  ultimately have len: "length (block_contents gs') \<le> per_key * length (entries_of bs) + length (data_bytes bs) div 512 + 13"
    using length_block_contents_bound [OF bg] by simp
  with assms(3) have small: "length (block_contents gs') < 2 ^ 32" by simp
  obtain rd where rd: "mk_FilterBlockReader (block_contents gs') = Some rd" using read_block [OF small] by blast
  have "FilterBlock_KeyMayMatch policy rd (of_nat (block_offset bs j)) (fst e) = Some True"
    if j: "j < length bs" "e \<in> set (snd (bs ! j))" for j e
  proof -
    let ?i = "filter_index (of_nat (block_offset bs j))"
    have "fst e \<in> set (map fst (snd (bs ! j)))" using j(2) by simp
    then have "?i < length gs' \<and> fst e \<in> set (gs' ! ?i)"
      using s(5) j(1) by (force simp: placed_def gs'_def nth_append Let_def)
    then have i: "?i < length gs'" and k: "fst e \<in> set (gs' ! ?i)" by auto
    then have "gs' ! ?i \<in> set gs'" by simp
    with bg have g: "length (gs' ! ?i) < 2 ^ 31" "\<forall>k \<in> set (gs' ! ?i). key_ok k"
      by (auto simp: bounded_groups_def)
    show ?thesis using reader_finds [OF small i filter_index_shift [symmetric] k g] rd by auto
  qed
  with rd may_match_defined [OF small rd] have "filter_ok policy key_ok (block_contents gs') bs"
    by (auto simp: filter_ok_def)
  with fin len show ?thesis by blast
qed

end

end
