(* ===== verification/Table_Builder_Facts.thy ===== *)
theory Table_Builder_Facts imports Table_Builder Table_Layout begin

section \<open>leveldb: the table builder writes the layout of a table\<close>

text \<open>
  The locale \<open>table_options\<close> is what a table needs of its options; \<open>table_file\<close> adds a file that keeps what is
  appended. The state of the builder is described by the blocks written, the separators in the index block and the
  entries in the data block (\<open>tb_core\<close>), the last key and the number of entries (\<open>tb_count\<close>), and the filter.
\<close>

subsection \<open>Block builders\<close>

definition holds :: "Options \<Rightarrow> BlockBuilder \<Rightarrow> kv list \<Rightarrow> bool" where
  "holds opt b kvs \<longleftrightarrow> (\<exists>es rs. bb_inv opt b es rs \<and> map snd es = kvs)"

lemma holds_new:
  assumes "1 \<le> opt_block_restart_interval opt"
  shows "\<exists>b. mk_BlockBuilder opt = Some b \<and> holds opt b []"
  using mk_BlockBuilder_inv [OF assms] by (auto simp: holds_def)

lemma holds_add:
  assumes "holds opt b kvs" "1 \<le> opt_block_restart_interval opt" "length k < 2 ^ 32" "length v < 2 ^ 32"
    "kvs \<noteq> [] \<Longrightarrow> \<exists>c > 0. Compare (opt_comparator opt) k (fst (last kvs)) = Some c"
  shows "\<exists>b'. BlockBuilder_Add opt b k v = Some b' \<and> holds opt b' (kvs @ [(k, v)])"
proof -
  obtain es rs where es: "bb_inv opt b es rs" "map snd es = kvs" using assms(1) by (auto simp: holds_def)
  have "\<exists>c > 0. Compare (opt_comparator opt) k (e_key (es ! (length es - 1))) = Some c" if "es \<noteq> []"
    using assms(5) that by (auto simp: es(2) [symmetric] last_map last_conv_nth)
  from BlockBuilder_Add_inv [OF es(1) assms(2-4) this] show ?thesis
    using es(2) by (fastforce simp: holds_def)
qed

lemma holds_empty: "holds opt b kvs \<Longrightarrow> BlockBuilder_empty b \<longleftrightarrow> kvs = []"
proof -
  assume "holds opt b kvs"
  then obtain es rs where es: "bb_inv opt b es rs" "map snd es = kvs" by (auto simp: holds_def)
  then show ?thesis
    using entry_bytes_min [of "hd es"] by (cases es) (auto simp: BlockBuilder_empty_def bb_inv_def)
qed

lemma holds_finish:
  assumes "holds opt b kvs" "1 \<le> opt_block_restart_interval opt"
  shows "\<exists>d b'. BlockBuilder_Finish b = (d, b') \<and> block_of d kvs \<and> holds opt (BlockBuilder_Reset b') []"
proof -
  obtain es rs where es: "bb_inv opt b es rs" "map snd es = kvs" using assms(1) by (auto simp: holds_def)
  obtain d b' where d: "BlockBuilder_Finish b = (d, b')" by fastforce
  have "block_of d kvs"
    using BlockBuilder_Finish_bytes [OF es(1)] es d by (auto simp: block_of_def bb_inv_def)
  moreover have "bb_inv opt (BlockBuilder_Reset b') [] [0]"
    using assms(2) by (simp add: BlockBuilder_Reset_def bb_inv_def layout_def previous_key_def)
  ultimately show ?thesis using d by (auto simp: holds_def)
qed

text \<open>An upper bound of the size of a table.\<close>

definition table_bound :: "Options \<Rightarrow> nat \<Rightarrow> kv list \<Rightarrow> nat" where
  "table_bound opt per_key kvs = 3 * sum_list (map kv_size kvs) + (per_key + 200) * length kvs +
     (case opt_filter_policy opt of None \<Rightarrow> 0 | Some p \<Rightarrow> length (policy_Name p)) + 300"

lemma table_bound_append: "table_bound opt n kvs \<le> table_bound opt n (kvs @ kvs')"
  by (simp add: table_bound_def algebra_simps)

lemma table_bound_sizes: "sum_list (map kv_size kvs) + 200 * length kvs + 300 \<le> table_bound opt n kvs"
  by (simp add: table_bound_def algebra_simps)

lemma table_bound_member:
  assumes "(k, v) \<in> set kvs" "table_bound opt n kvs < 2 ^ 32"
  shows "length k < 2 ^ 32" "length v < 2 ^ 32"
  using kv_size_member [OF assms(1)] table_bound_sizes [of kvs opt n] assms(2) by (simp_all add: kv_size_def)

lemma table_bound_block:
  assumes "table_bound opt n kvs < 2 ^ 32" shows "block_bound kvs < 2 ^ 32"
  using table_bound_sizes [of kvs opt n] assms by (simp add: block_bound_sizes)

subsection \<open>The options and the file\<close>

locale table_options = short_comparator "opt_comparator opt" key_ok for opt :: Options and key_ok :: "Slice \<Rightarrow> bool" +
  fixes per_key :: nat
  assumes interval: "1 \<le> opt_block_restart_interval opt"
    and policy_ok: "opt_filter_policy opt = Some p \<Longrightarrow> sized_filter_policy p key_ok per_key"

locale table_file = table_options opt key_ok per_key + writable_file ops contents
  for opt :: Options and key_ok :: "Slice \<Rightarrow> bool" and per_key :: nat
    and ops :: "'f WritableFile" and contents :: "'f \<Rightarrow> u8 list"
begin

lemma WriteRawBlock_ok:
  assumes "tb_offset r = of_nat (length (contents (tb_file r)))" "length d < 2 ^ 32"
  shows "\<exists>f. WriteRawBlock ops r d kNoCompression h =
      Some (h\<lparr>bh_offset := of_nat (length (contents (tb_file r))), bh_size := of_nat (length d)\<rparr>,
        r\<lparr>tb_file := f, tb_status := StatusOK, tb_offset := of_nat (length (contents f))\<rparr>) \<and>
      contents f = contents (tb_file r) @ raw_block d"
proof -
  obtain f1 where f1: "file_Append ops (tb_file r) d = (StatusOK, f1)" "contents f1 = contents (tb_file r) @ d"
    using append_ok append_contents by (metis prod.collapse)
  let ?t = "[0] @ EncodeFixed32 (Mask (crc32c 0 (d @ [0])))"
  obtain f2 where f2: "file_Append ops f1 ?t = (StatusOK, f2)" "contents f2 = contents f1 @ ?t"
    using append_ok append_contents by (metis prod.collapse)
  have "Value 0 d = Some (crc32c 0 d)" "Extend 0 (crc32c 0 d) [0] = Some (crc32c 0 (d @ [0]))"
    using assms(2) by (simp_all add: Value_def Extend_crc crc32c_append)
  moreover have "contents f2 = contents (tb_file r) @ raw_block d"
    using f1(2) f2(2) by (simp add: raw_block_def)
  moreover have "of_nat (length (contents f2)) = tb_offset r + of_nat (length d + kBlockTrailerSize)"
    using calculation(3) assms(1) by (simp add: kBlockTrailerSize_def)
  ultimately show ?thesis
    using f1(1) f2(1) assms(1) by (intro exI [of _ f2]) (simp add: WriteRawBlock_def CompressionType_code_def)
qed

lemma WriteBlock_ok:
  assumes "tb_offset r = of_nat (length (contents (tb_file r)))" "tb_status r = StatusOK"
    "holds bo b kvs" "1 \<le> opt_block_restart_interval bo" "block_bound kvs < 2 ^ 32"
  shows "\<exists>f d b'. WriteBlock ops r b h =
      Some (b', h\<lparr>bh_offset := of_nat (length (contents (tb_file r))), bh_size := of_nat (length d)\<rparr>,
        r\<lparr>tb_file := f, tb_offset := of_nat (length (contents f)), tb_compressed_output := []\<rparr>) \<and>
      contents f = contents (tb_file r) @ raw_block d \<and> block_of d kvs \<and> length d \<le> block_bound kvs \<and> holds bo b' []"
proof -
  obtain d b' where d: "BlockBuilder_Finish b = (d, b')" "block_of d kvs" "holds bo (BlockBuilder_Reset b') []"
    using holds_finish [OF assms(3,4)] by blast
  have "\<forall>(k, v) \<in> set kvs. length k < 2 ^ 32 \<and> length v < 2 ^ 32" using bound_lengths assms(5) by fastforce
  from block_of_bound [OF d(2) this] have len: "length d \<le> block_bound kvs" .
  with assms(5) have "length d < 2 ^ 32" by simp
  let ?r = "r\<lparr>tb_compressed_output := tb_compressed_output r\<rparr>"
  have off: "tb_offset ?r = of_nat (length (contents (tb_file ?r)))" using assms(1) by simp
  obtain f where f: "WriteRawBlock ops ?r d kNoCompression h =
      Some (h\<lparr>bh_offset := of_nat (length (contents (tb_file r))), bh_size := of_nat (length d)\<rparr>,
        ?r\<lparr>tb_file := f, tb_status := StatusOK, tb_offset := of_nat (length (contents f))\<rparr>)"
      "contents f = contents (tb_file r) @ raw_block d"
    using WriteRawBlock_ok [OF off \<open>length d < 2 ^ 32\<close>, of h] by auto
  have "WriteBlock ops r b h =
      Some (BlockBuilder_Reset b', h\<lparr>bh_offset := of_nat (length (contents (tb_file r))), bh_size := of_nat (length d)\<rparr>,
        r\<lparr>tb_file := f, tb_offset := of_nat (length (contents f)), tb_compressed_output := []\<rparr>)"
    using d(1) f(1) assms(2) by (simp add: WriteBlock_def tb_ok_def Snappy_Compress_def split: CompressionType.splits)
  with f(2) d(2,3) len show ?thesis by blast
qed

subsection \<open>The state of the builder\<close>

definition tb_core :: "'f TableBuilder \<Rightarrow> (u8 list \<times> kv list) list \<Rightarrow> Slice list \<Rightarrow> kv list \<Rightarrow> bool" where
  "tb_core r bs seps cur \<longleftrightarrow> tb_options r = opt \<and> tb_index_block_options r = opt\<lparr>opt_block_restart_interval := 1\<rparr> \<and>
     tb_status r = StatusOK \<and> \<not> tb_closed r \<and> contents (tb_file r) = data_bytes bs \<and>
     tb_offset r = of_nat (length (data_bytes bs)) \<and> good_blocks bs \<and> holds opt (tb_data_block r) cur \<and>
     holds (opt\<lparr>opt_block_restart_interval := 1\<rparr>) (tb_index_block r) (index_entries bs seps) \<and>
     (if tb_pending_index_entry r
      then cur = [] \<and> length bs = Suc (length seps) \<and> tb_pending_handle r = block_handle bs (length seps)
      else length seps = length bs \<and> (bs \<noteq> [] \<longrightarrow> cur \<noteq> []))"

lemma tb_core_filter_block [simp]: "tb_core (r\<lparr>tb_filter_block := x\<rparr>) bs seps cur = tb_core r bs seps cur"
  by (simp add: tb_core_def)

definition tb_count :: "'f TableBuilder \<Rightarrow> kv list \<Rightarrow> bool" where
  "tb_count r kvs \<longleftrightarrow> tb_num_entries r = int (length kvs) \<and> (kvs \<noteq> [] \<longrightarrow> tb_last_key r = fst (last kvs))"

definition tb_filter :: "'f TableBuilder \<Rightarrow> (u8 list \<times> kv list) list \<Rightarrow> kv list \<Rightarrow> bool" where
  "tb_filter r bs cur \<longleftrightarrow>
     (case opt_filter_policy opt of
        None \<Rightarrow> tb_filter_block r = None
      | Some p \<Rightarrow> \<exists>b. tb_filter_block r = Some (p, b) \<and> filter_state p key_ok b bs cur)"

definition tb_inv :: "'f TableBuilder \<Rightarrow> (u8 list \<times> kv list) list \<Rightarrow> Slice list \<Rightarrow> kv list \<Rightarrow> bool" where
  "tb_inv r bs seps cur \<longleftrightarrow> tb_core r bs seps cur \<and> tb_count r (entries_of bs @ cur) \<and> tb_filter r bs cur \<and>
     ordered_groups (map snd bs @ [cur]) \<and> separated (opt_comparator opt) seps (map snd bs @ [cur])"

lemma mk_TableBuilder_inv:
  assumes "contents f = []"
  shows "\<exists>r. mk_TableBuilder opt f = Some r \<and> tb_inv r [] [] []"
proof -
  let ?iopt = "opt\<lparr>opt_block_restart_interval := 1\<rparr>"
  obtain b where b: "mk_BlockBuilder opt = Some b" "holds opt b []" using holds_new [OF interval] by blast
  have "holds ?iopt b []"
    using b(1) interval mk_BlockBuilder_inv [of ?iopt] by (auto simp: holds_def mk_BlockBuilder_def)
  then show ?thesis
  proof (cases "opt_filter_policy opt")
    case None
    with b \<open>holds ?iopt b []\<close> assms show ?thesis
      by (simp add: mk_TableBuilder_def tb_inv_def tb_core_def tb_count_def tb_filter_def ordered_groups_def separated_def
          good_blocks_def index_entries_def)
  next
    case (Some p)
    obtain fb where "StartBlock p mk_FilterBlockBuilder 0 = Some fb" "filter_state p key_ok fb [] []"
      using sized_filter_policy.filter_state_empty [OF policy_ok [OF Some]] by blast
    with Some b \<open>holds ?iopt b []\<close> assms show ?thesis
      by (simp add: mk_TableBuilder_def tb_inv_def tb_core_def tb_count_def tb_filter_def ordered_groups_def separated_def
          good_blocks_def index_entries_def)
  qed
qed

text \<open>Adding a separator to the index block.\<close>

lemma index_add:
  assumes "holds (opt\<lparr>opt_block_restart_interval := 1\<rparr>) ib (index_entries bs seps)" "ordered_groups gs"
    "seps_bound (opt_comparator opt) key_ok (seps @ [s]) gs" "\<forall>j < Suc (length seps). gs ! j \<noteq> []" "length s < 2 ^ 32"
  shows "\<exists>ib'. BlockBuilder_Add (opt\<lparr>opt_block_restart_interval := 1\<rparr>) ib s (handle_bytes h) = Some ib' \<and>
    holds (opt\<lparr>opt_block_restart_interval := 1\<rparr>) ib' (index_entries bs seps @ [(s, handle_bytes h)])"
proof -
  let ?C = "opt_comparator opt" and ?iopt = "opt\<lparr>opt_block_restart_interval := 1\<rparr>"
  have "\<exists>c > 0. Compare (opt_comparator ?iopt) s (fst (last (index_entries bs seps))) = Some c"
    if "index_entries bs seps \<noteq> []"
  proof -
    have ne: "seps \<noteq> []" using that by (auto simp: index_entries_def)
    have "cmp ?C (last seps) s < 0"
      using seps_bound_sorted [OF assms(2,3)] assms(4) ne by (simp add: sorted_wrt_append)
    moreover have "key_ok (last seps)" "key_ok s"
      using assms(3) ne by (auto simp: seps_bound_def last_conv_nth nth_append dest: spec [of _ "length seps - 1"] spec [of _ "length seps"])
    moreover have "fst (last (index_entries bs seps)) = last seps"
      using ne by (simp add: index_entries_def last_map last_conv_nth)
    ultimately show ?thesis
      using cmp_defined [of s "last seps"] cmp_flip(1) [of s "last seps"] by auto
  qed
  moreover have "length (handle_bytes h) < 2 ^ 32" using length_handle_bytes(1) [of h] by simp
  ultimately show ?thesis using holds_add [OF assms(1) _ assms(5)] by simp
qed

lemma index_step:
  assumes "tb_inv r bs seps cur" "ordered_groups (map snd bs @ [cur @ [(k, v)]])"
    "table_bound opt per_key (entries_of bs @ cur) < 2 ^ 32"
  shows "\<exists>lk ib seps1. add_pending_index_entry r k = Some (r\<lparr>tb_last_key := lk, tb_index_block := ib, tb_pending_index_entry := False\<rparr>) \<and>
    holds (opt\<lparr>opt_block_restart_interval := 1\<rparr>) ib (index_entries bs seps1) \<and> length seps1 = length bs \<and>
    separated (opt_comparator opt) seps1 (map snd bs @ [cur @ [(k, v)]])"
proof -
  let ?C = "opt_comparator opt" and ?iopt = "opt\<lparr>opt_block_restart_interval := 1\<rparr>"
  have core: "tb_core r bs seps cur" and count: "tb_count r (entries_of bs @ cur)"
    and sep: "separated ?C seps (map snd bs @ [cur])"
    using assms(1) by (simp_all add: tb_inv_def)
  show ?thesis
  proof (cases "tb_pending_index_entry r")
    case False
    then have len: "length seps = length bs" "bs \<noteq> [] \<longrightarrow> cur \<noteq> []" using core by (simp_all add: tb_core_def)
    have "separated ?C seps (map snd bs @ [cur @ [(k, v)]])"
      by (rule separated_snoc_entry [OF sep]) (use len in auto)
    then show ?thesis
      using False core len(1)
      by (intro exI [of _ "tb_last_key r"] exI [of _ "tb_index_block r"] exI [of _ seps]) (simp add: tb_core_def add_pending_index_entry_def)
  next
    case True
    then have p: "cur = []" "length bs = Suc (length seps)" "tb_pending_handle r = block_handle bs (length seps)"
      using core by (simp_all add: tb_core_def)
    then obtain bs0 b where bs: "bs = bs0 @ [b]" "length bs0 = length seps" by (cases bs rule: rev_cases) auto
    have good: "snd b \<noteq> []" using core bs by (simp add: tb_core_def good_blocks_def)
    let ?s = "fst (last (snd b))"
    have og: "sorted_wrt (key_less ?C) (entries_of bs @ [(k, v)])" "key_ok ?s" "key_ok k"
      using assms(2) bs(1) good p(1) last_in_set [OF good] by (auto simp: ordered_groups_def)
    have less: "cmp ?C ?s k < 0"
      using og(1) last_in_set [OF good] bs(1) by (auto simp: sorted_wrt_append)
    obtain s where s: "FindShortestSeparator ?C ?s k = Some s" "key_ok s" "cmp ?C ?s s \<le> 0" "cmp ?C s k < 0" "length s \<le> length ?s"
      by (rule short_separator [OF og(2,3) less])
    have last_key: "tb_last_key r = ?s" using count bs(1) good p(1) by (simp add: tb_count_def)
    have sep': "separated ?C (seps @ [s]) (map snd bs @ [[(k, v)]])"
    proof (rule separated_snoc_sep)
      show "separated ?C seps (map snd bs @ [[(k, v)]])"
        by (rule separated_change_last [OF sep]) (simp add: p(2))
    qed (use bs s(1) in simp_all)
    have "last (snd b) \<in> set (entries_of bs @ cur)" using last_in_set [OF good] bs(1) by simp
    then have "length ?s < 2 ^ 32"
      using table_bound_member(1) [of ?s "snd (last (snd b))", OF _ assms(3)] by simp
    then have slen: "length s < 2 ^ 32" using s(5) by simp
    let ?h = "handle_bytes (block_handle bs (length seps))"
    have "good_blocks bs" using core by (simp add: tb_core_def)
    then have "length (data_bytes bs) < 2 ^ 63"
      using data_bytes_bound [of bs] table_bound_sizes [of "entries_of bs" opt per_key] assms(3) p(1) by simp
    then have set: "handle_set (block_handle bs (length seps))" using block_handle_set [of "length seps" bs] p(2) by simp
    have groups: "\<forall>g \<in> set (map snd bs). g \<noteq> []" using \<open>good_blocks bs\<close> by (auto simp: good_blocks_def)
    have og': "ordered_groups (map snd bs @ [[(k, v)]])" using assms(2) p(1) by simp
    have bound: "seps_bound ?C key_ok (seps @ [s]) (map snd bs @ [[(k, v)]])"
      by (rule separated_bound [OF og' sep']) (use groups in simp)
    have ne: "\<forall>j < Suc (length seps). (map snd bs @ [[(k, v)]]) ! j \<noteq> []"
      using groups p(2) by (simp add: nth_append)
    obtain ib where "BlockBuilder_Add ?iopt (tb_index_block r) s ?h = Some ib" "holds ?iopt ib (index_entries bs seps @ [(s, ?h)])"
      using index_add [OF _ og' bound ne slen, of "tb_index_block r" bs "block_handle bs (length seps)"] core by (auto simp: tb_core_def)
    then show ?thesis
      using True p s(1) core last_key sep' BlockHandle_EncodeTo_bytes [OF set, of "[]"] holds_empty [of opt "tb_data_block r" cur]
      by (intro exI [of _ s] exI [of _ ib] exI [of _ "seps @ [s]"]) (simp add: tb_core_def index_entries_snoc_sep add_pending_index_entry_def)
  qed
qed

lemma Add_core:
  assumes "tb_inv r bs seps cur" "ordered_groups (map snd bs @ [cur @ [(k, v)]])"
    "table_bound opt per_key (entries_of bs @ cur @ [(k, v)]) < 2 ^ 32"
  shows "\<exists>r2 seps1. tb_inv r2 bs seps1 (cur @ [(k, v)]) \<and>
    TableBuilder_Add ops r k v =
      (if CurrentSizeEstimate (tb_data_block r2) \<ge> opt_block_size opt then TableBuilder_Flush ops r2 else Some r2)"
proof -
  let ?C = "opt_comparator opt" and ?all = "entries_of bs @ cur"
  have core: "tb_core r bs seps cur" and count: "tb_count r ?all" and filt: "tb_filter r bs cur"
    using assms(1) by (simp_all add: tb_inv_def)
  have sizes: "table_bound opt per_key ?all < 2 ^ 32" "length ?all + 1 < 2 ^ 31"
    using assms(3) table_bound_append [of opt per_key ?all "[(k, v)]"] table_bound_sizes [of "?all @ [(k, v)]" opt per_key] by simp_all
  have kv: "length k < 2 ^ 32" "length v < 2 ^ 32" using table_bound_member [of k v, OF _ assms(3)] by simp_all
  have og: "sorted_wrt (key_less ?C) (?all @ [(k, v)])" "key_ok k" "\<forall>e \<in> set ?all. key_ok (fst e)"
    using assms(2) by (simp_all add: ordered_groups_def)
  have last: "\<exists>c > 0. Compare ?C k (fst e) = Some c" if "e \<in> set ?all" for e
  proof -
    have "cmp ?C (fst e) k < 0" "key_ok (fst e)" using og that by (auto simp: sorted_wrt_append)
    with og(2) cmp_defined [of k "fst e"] cmp_flip(1) [of k "fst e"] show ?thesis by auto
  qed
  obtain lk ib seps1 where r1: "add_pending_index_entry r k = Some (r\<lparr>tb_last_key := lk, tb_index_block := ib, tb_pending_index_entry := False\<rparr>)"
    "holds (opt\<lparr>opt_block_restart_interval := 1\<rparr>) ib (index_entries bs seps1)" "length seps1 = length bs"
    "separated ?C seps1 (map snd bs @ [cur @ [(k, v)]])"
    using index_step [OF assms(1,2) sizes(1)] by blast
  have "\<exists>c > 0. Compare ?C k (fst (last cur)) = Some c" if "cur \<noteq> []" using last [of "last cur"] that by simp
  then obtain db where db: "BlockBuilder_Add opt (tb_data_block r) k v = Some db" "holds opt db (cur @ [(k, v)])"
    using holds_add [OF _ interval kv, of "tb_data_block r" cur] core by (auto simp: tb_core_def)
  define fb where "fb = map_option (\<lambda>(policy, b). (policy, AddKey b k)) (tb_filter_block r)"
  define r2 where "r2 = r\<lparr>tb_index_block := ib, tb_pending_index_entry := False,
    tb_filter_block := fb, tb_last_key := k, tb_num_entries := tb_num_entries r + 1, tb_data_block := db\<rparr>"
  have order: "tb_num_entries r > 0 \<Longrightarrow> \<exists>c > 0. Compare ?C k (tb_last_key r) = Some c"
  proof -
    assume "tb_num_entries r > 0"
    then have ne: "?all \<noteq> []" using count by (auto simp: tb_count_def)
    then have "tb_last_key r = fst (last ?all)" using count unfolding tb_count_def by blast
    with ne last [of "last ?all"] show ?thesis by (metis last_in_set)
  qed
  have "TableBuilder_Add ops r k v =
      (if CurrentSizeEstimate (tb_data_block r2) \<ge> opt_block_size opt then TableBuilder_Flush ops r2 else Some r2)"
    using core order r1(1) db(1) unfolding TableBuilder_Add_def
    by (auto simp: tb_core_def tb_ok_def Let_def r2_def fb_def)
  moreover have "tb_filter r2 bs (cur @ [(k, v)])"
  proof (cases "opt_filter_policy opt")
    case (Some p)
    with filt obtain b where "tb_filter_block r = Some (p, b)" "filter_state p key_ok b bs cur" by (auto simp: tb_filter_def)
    with sized_filter_policy.filter_state_AddKey [OF policy_ok [OF Some], of b bs cur "(k, v)"] og(2) sizes(2) Some show ?thesis
      by (simp add: tb_filter_def r2_def fb_def)
  qed (use filt in \<open>simp add: tb_filter_def r2_def fb_def\<close>)
  moreover have "tb_core r2 bs seps1 (cur @ [(k, v)])" using core r1(2,3) db(2) by (simp add: tb_core_def r2_def)
  moreover have "tb_count r2 (entries_of bs @ cur @ [(k, v)])" using count by (simp add: tb_count_def r2_def)
  ultimately show ?thesis using r1(4) assms(2) by (auto simp: tb_inv_def)
qed

lemma Flush_inv:
  assumes "tb_inv r bs seps cur" "table_bound opt per_key (entries_of bs @ cur) < 2 ^ 32"
  shows "\<exists>r' bs'. TableBuilder_Flush ops r = Some r' \<and> tb_inv r' bs' seps [] \<and> entries_of bs' = entries_of bs @ cur"
proof -
  have core: "tb_core r bs seps cur" and count: "tb_count r (entries_of bs @ cur)" and filt: "tb_filter r bs cur"
    using assms(1) by (simp_all add: tb_inv_def)
  have empty: "BlockBuilder_empty (tb_data_block r) \<longleftrightarrow> cur = []" using core holds_empty by (auto simp: tb_core_def)
  show ?thesis
  proof (cases "cur = []")
    case True
    with core empty have "TableBuilder_Flush ops r = Some r" by (simp add: TableBuilder_Flush_def tb_core_def tb_ok_def)
    with assms(1) True show ?thesis by auto
  next
    case False
    then have p: "\<not> tb_pending_index_entry r" "length seps = length bs" using core by (auto simp: tb_core_def split: if_splits)
    have off: "tb_offset r = of_nat (length (contents (tb_file r)))" "tb_status r = StatusOK" using core by (simp_all add: tb_core_def)
    have bound: "block_bound cur < 2 ^ 32"
      using table_bound_block [OF assms(2)] by (simp add: block_bound_sizes)
    obtain f d b' where f: "WriteBlock ops r (tb_data_block r) (tb_pending_handle r) =
        Some (b', (tb_pending_handle r)\<lparr>bh_offset := of_nat (length (contents (tb_file r))), bh_size := of_nat (length d)\<rparr>,
          r\<lparr>tb_file := f, tb_offset := of_nat (length (contents f)), tb_compressed_output := []\<rparr>)"
      "contents f = contents (tb_file r) @ raw_block d" "block_of d cur" "length d \<le> block_bound cur" "holds opt b' []"
      using WriteBlock_ok [OF off _ interval bound, of "tb_data_block r" "tb_pending_handle r"] core by (auto simp: tb_core_def)
    obtain f2 where f2: "file_Flush ops f = (StatusOK, f2)" "contents f2 = contents f"
      using flush_ok flush_contents by (metis prod.collapse)
    let ?bs = "bs @ [(d, cur)]"
    have stored: "contents f2 = data_bytes ?bs" "contents f = data_bytes ?bs" using f(2) f2(2) core by (simp_all add: tb_core_def)
    have good: "good_blocks ?bs" using core f(3) False by (auto simp: tb_core_def good_blocks_def)
    define r1 where "r1 = r\<lparr>tb_offset := of_nat (length (data_bytes ?bs)), tb_compressed_output := [],
      tb_data_block := b', tb_pending_handle := block_handle ?bs (length bs), tb_pending_index_entry := True,
      tb_file := f2, tb_status := StatusOK\<rparr>"
    have handle: "(tb_pending_handle r)\<lparr>bh_offset := of_nat (length (contents (tb_file r))), bh_size := of_nat (length d)\<rparr> = block_handle ?bs (length bs)"
      using core by (cases "tb_pending_handle r") (simp add: block_handle_def tb_core_def block_offset_le block_offset_all)
    have core1: "tb_core r1 ?bs seps []"
      using core p f(5) stored good
      by (simp add: tb_core_def r1_def index_entries_snoc_block)
    have groups: "ordered_groups (map snd ?bs @ [[]])" "separated (opt_comparator opt) seps (map snd ?bs @ [[]])"
      using assms(1) separated_snoc_group [of "opt_comparator opt" seps "map snd bs @ [cur]" "[]"]
      by (simp_all add: tb_inv_def ordered_groups_def)
    have flush: "TableBuilder_Flush ops r =
      (case tb_filter_block r of None \<Rightarrow> Some r1
       | Some (policy, b) \<Rightarrow> do { b \<leftarrow> StartBlock policy b (of_nat (length (data_bytes ?bs))); Some (r1\<lparr>tb_filter_block := Some (policy, b)\<rparr>) })"
      using core p(1) False empty f(1) f2(1) handle stored(2)
      by (simp add: TableBuilder_Flush_def tb_core_def tb_ok_def Let_def r1_def split: option.splits)
    show ?thesis
    proof (cases "opt_filter_policy opt")
      case None
      then have "TableBuilder_Flush ops r = Some r1" "tb_filter r1 ?bs []"
        using filt flush by (simp_all add: tb_filter_def r1_def)
      moreover have "tb_count r1 (entries_of ?bs @ [])" using count by (simp add: tb_count_def r1_def)
      ultimately show ?thesis
        using core1 groups by (intro exI [of _ r1] exI [of _ ?bs]) (simp add: tb_inv_def)
    next
      case (Some p)
      with filt obtain b where b: "tb_filter_block r = Some (p, b)" "filter_state p key_ok b bs cur" by (auto simp: tb_filter_def)
      have "length (data_bytes bs) \<le> 2 ^ 33"
        using data_bytes_bound [of bs] table_bound_sizes [of "entries_of bs @ cur" opt per_key] assms(2) core by (simp add: tb_core_def)
      then have "length (data_bytes bs) + length d + 5 < 2 ^ 64" using f(4) bound by simp
      from sized_filter_policy.filter_state_flush [OF policy_ok [OF Some] b(2) this] obtain b1 where
        b1: "StartBlock p b (of_nat (length (data_bytes ?bs))) = Some b1" "filter_state p key_ok b1 ?bs []"
        by auto
      define r2 where "r2 = r1\<lparr>tb_filter_block := Some (p, b1)\<rparr>"
      have "TableBuilder_Flush ops r = Some r2" using flush b(1) b1(1) by (simp add: r2_def)
      moreover have "tb_filter r2 ?bs []" using Some b1(2) by (simp add: tb_filter_def r2_def)
      moreover have "tb_count r2 (entries_of ?bs @ [])" using count by (simp add: tb_count_def r1_def r2_def)
      moreover have "tb_core r2 ?bs seps []" using core1 by (simp add: r2_def)
      ultimately show ?thesis
        using groups by (intro exI [of _ r2] exI [of _ ?bs]) (simp add: tb_inv_def)
    qed
  qed
qed

end

end
