(* ===== verification/Table_Finish.thy ===== *)
theory Table_Finish imports Table_Builder_Facts begin

section \<open>leveldb: the table that a builder finishes\<close>

text \<open>
  \<open>table_layout\<close> is what \<open>Finish\<close> leaves in the file, and all that the reader relies on.
\<close>

definition filter_part :: "Options \<Rightarrow> u8 list \<Rightarrow> u8 list" where
  "filter_part opt fdata = (case opt_filter_policy opt of None \<Rightarrow> [] | Some _ \<Rightarrow> raw_block fdata)"

definition meta_entries :: "Options \<Rightarrow> BlockHandle \<Rightarrow> kv list" where
  "meta_entries opt fh = (case opt_filter_policy opt of None \<Rightarrow> [] | Some p \<Rightarrow> [(filter_key p, handle_bytes fh)])"

definition table_layout :: "Options \<Rightarrow> (Slice \<Rightarrow> bool) \<Rightarrow> u8 list \<Rightarrow> (u8 list \<times> kv list) list \<Rightarrow> Slice list \<Rightarrow> bool" where
  "table_layout opt key_ok stored bs seps \<longleftrightarrow>
     good_blocks bs \<and> length seps = length bs \<and> seps_bound (opt_comparator opt) key_ok seps (map snd bs) \<and>
     separated (opt_comparator opt) (butlast seps) (map snd bs) \<and> length stored < 2 ^ 32 \<and>
     (\<exists>fdata meta idx. let fstart = length (data_bytes bs); mstart = fstart + length (filter_part opt fdata);
          istart = mstart + length meta + 5 in
        block_of meta (meta_entries opt \<lparr>bh_offset = of_nat fstart, bh_size = of_nat (length fdata)\<rparr>) \<and>
        block_of idx (index_entries bs seps) \<and>
        (\<forall>p. opt_filter_policy opt = Some p \<longrightarrow> filter_ok p key_ok fdata bs) \<and>
        stored = data_bytes bs @ filter_part opt fdata @ raw_block meta @ raw_block idx @
          footer_bytes \<lparr>ft_metaindex_handle = \<lparr>bh_offset = of_nat mstart, bh_size = of_nat (length meta)\<rparr>,
            ft_index_handle = \<lparr>bh_offset = of_nat istart, bh_size = of_nat (length idx)\<rparr>\<rparr>)"

text \<open>A client of the builder: add the entries in order and finish.\<close>

fun tb_add_all :: "'f WritableFile \<Rightarrow> 'f TableBuilder \<Rightarrow> kv list \<Rightarrow> 'f TableBuilder option" where
  "tb_add_all ops r [] = Some r"
| "tb_add_all ops r ((k, v) # kvs) = TableBuilder_Add ops r k v \<bind> (\<lambda>r. tb_add_all ops r kvs)"

definition build_table :: "'f WritableFile \<Rightarrow> Options \<Rightarrow> 'f \<Rightarrow> kv list \<Rightarrow> (Status \<times> 'f) option" where
  "build_table ops opt f kvs = do {
     r \<leftarrow> mk_TableBuilder opt f;
     r \<leftarrow> tb_add_all ops r kvs;
     (s, r) \<leftarrow> TableBuilder_Finish ops r;
     Some (s, tb_file r)
   }"

context table_file
begin

definition file_at :: "'f TableBuilder \<Rightarrow> u8 list \<Rightarrow> bool" where
  "file_at r stored \<longleftrightarrow> tb_options r = opt \<and> tb_index_block_options r = opt\<lparr>opt_block_restart_interval := 1\<rparr> \<and>
     tb_status r = StatusOK \<and> contents (tb_file r) = stored \<and> tb_offset r = of_nat (length stored)"

definition same_index :: "'f TableBuilder \<Rightarrow> 'f TableBuilder \<Rightarrow> bool" where
  "same_index r r' \<longleftrightarrow> tb_index_block r' = tb_index_block r \<and> tb_pending_index_entry r' = tb_pending_index_entry r \<and>
     tb_pending_handle r' = tb_pending_handle r \<and> tb_last_key r' = tb_last_key r"

lemma same_index_trans: "same_index r r1 \<Longrightarrow> same_index r1 r2 \<Longrightarrow> same_index r r2"
  by (simp add: same_index_def)

lemma write_filter_block_ok:
  assumes "file_at r (data_bytes bs)" "tb_filter r bs []" "length (data_bytes bs) < 2 ^ 64"
    "per_key * length (entries_of bs) + length (data_bytes bs) div 512 + 13 < 2 ^ 32"
  shows "\<exists>fh r' fdata. write_filter_block ops r = Some (fh, r') \<and> file_at r' (data_bytes bs @ filter_part opt fdata) \<and>
    same_index r r' \<and> (tb_filter_block r' = None \<longleftrightarrow> opt_filter_policy opt = None) \<and>
    length fdata \<le> per_key * length (entries_of bs) + length (data_bytes bs) div 512 + 13 \<and>
    (\<forall>p. opt_filter_policy opt = Some p \<longrightarrow> filter_ok p key_ok fdata bs \<and>
       fh = \<lparr>bh_offset = of_nat (length (data_bytes bs)), bh_size = of_nat (length fdata)\<rparr>)"
proof (cases "opt_filter_policy opt")
  case None
  with assms(1,2) show ?thesis
    by (intro exI [of _ mk_BlockHandle] exI [of _ r] exI [of _ "[]"])
       (simp add: write_filter_block_def tb_filter_def filter_part_def same_index_def)
next
  case (Some p)
  with assms(2) obtain b where b: "tb_filter_block r = Some (p, b)" "filter_state p key_ok b bs []" by (auto simp: tb_filter_def)
  from sized_filter_policy.filter_state_finish [OF policy_ok [OF Some] b(2) assms(3,4)] obtain fdata b' where
    fd: "FilterBlock_Finish p b = Some (fdata, b')" "filter_ok p key_ok fdata bs"
    "length fdata \<le> per_key * length (entries_of bs) + length (data_bytes bs) div 512 + 13" by blast
  let ?r = "r\<lparr>tb_filter_block := Some (p, b')\<rparr>"
  have off: "tb_offset ?r = of_nat (length (contents (tb_file ?r)))" using assms(1) by (simp add: file_at_def)
  have "length fdata < 2 ^ 32" using fd(3) assms(4) by simp
  from WriteRawBlock_ok [OF off this, of mk_BlockHandle] obtain f where
    f: "WriteRawBlock ops ?r fdata kNoCompression mk_BlockHandle =
      Some (mk_BlockHandle\<lparr>bh_offset := of_nat (length (contents (tb_file ?r))), bh_size := of_nat (length fdata)\<rparr>,
        ?r\<lparr>tb_file := f, tb_status := StatusOK, tb_offset := of_nat (length (contents f))\<rparr>)"
    "contents f = contents (tb_file ?r) @ raw_block fdata" by blast
  have "write_filter_block ops r = Some (mk_BlockHandle\<lparr>bh_offset := of_nat (length (contents (tb_file ?r))), bh_size := of_nat (length fdata)\<rparr>,
        ?r\<lparr>tb_file := f, tb_status := StatusOK, tb_offset := of_nat (length (contents f))\<rparr>)"
    using b(1) fd(1) f(1) assms(1) by (simp add: write_filter_block_def tb_ok_def file_at_def)
  moreover have "mk_BlockHandle\<lparr>bh_offset := of_nat (length (contents (tb_file ?r))), bh_size := of_nat (length fdata)\<rparr> =
      \<lparr>bh_offset = of_nat (length (data_bytes bs)), bh_size = of_nat (length fdata)\<rparr>"
    using assms(1) by (simp add: mk_BlockHandle_def file_at_def)
  ultimately show ?thesis
    using assms(1) f(2) fd(2,3) Some
    by (intro exI [of _ "\<lparr>bh_offset = of_nat (length (data_bytes bs)), bh_size = of_nat (length fdata)\<rparr>"]
        exI [of _ "?r\<lparr>tb_file := f, tb_status := StatusOK, tb_offset := of_nat (length (contents f))\<rparr>"] exI [of _ fdata])
      (simp add: file_at_def filter_part_def same_index_def)
qed

lemma write_block_at:
  assumes "file_at r stored" "holds bo b kvs" "1 \<le> opt_block_restart_interval bo" "block_bound kvs < 2 ^ 32"
  shows "\<exists>d b' r'. WriteBlock ops r b mk_BlockHandle =
      Some (b', \<lparr>bh_offset = of_nat (length stored), bh_size = of_nat (length d)\<rparr>, r') \<and>
    file_at r' (stored @ raw_block d) \<and> same_index r r' \<and> tb_filter_block r' = tb_filter_block r \<and> block_of d kvs \<and>
    length d \<le> block_bound kvs"
proof -
  have "tb_offset r = of_nat (length (contents (tb_file r)))" "tb_status r = StatusOK" using assms(1) by (simp_all add: file_at_def)
  from WriteBlock_ok [OF this assms(2-4), of mk_BlockHandle] obtain f d b' where
    f: "WriteBlock ops r b mk_BlockHandle =
      Some (b', mk_BlockHandle\<lparr>bh_offset := of_nat (length (contents (tb_file r))), bh_size := of_nat (length d)\<rparr>,
        r\<lparr>tb_file := f, tb_offset := of_nat (length (contents f)), tb_compressed_output := []\<rparr>)"
      "contents f = contents (tb_file r) @ raw_block d" "block_of d kvs" "length d \<le> block_bound kvs" by blast
  then show ?thesis
    using assms(1)
    by (intro exI [of _ d] exI [of _ b'] exI [of _ "r\<lparr>tb_file := f, tb_offset := of_nat (length (contents f)), tb_compressed_output := []\<rparr>"])
       (simp add: file_at_def same_index_def mk_BlockHandle_def)
qed

lemma write_metaindex_block_ok:
  assumes "file_at r stored" "tb_filter_block r = None \<longleftrightarrow> opt_filter_policy opt = None"
    "opt_filter_policy opt \<noteq> None \<Longrightarrow> handle_set fh" "block_bound (meta_entries opt fh) < 2 ^ 32"
  shows "\<exists>d r'. write_metaindex_block ops r fh = Some (\<lparr>bh_offset = of_nat (length stored), bh_size = of_nat (length d)\<rparr>, r') \<and>
    file_at r' (stored @ raw_block d) \<and> same_index r r' \<and> block_of d (meta_entries opt fh) \<and>
    length d \<le> block_bound (meta_entries opt fh)"
proof -
  obtain b0 where b0: "mk_BlockBuilder opt = Some b0" "holds opt b0 []" using holds_new [OF interval] by blast
  obtain b where b: "(case tb_filter_block r of
             None \<Rightarrow> Some b0
           | Some _ \<Rightarrow> do {
               policy \<leftarrow> opt_filter_policy opt;
               handle_encoding \<leftarrow> BlockHandle_EncodeTo fh [];
               BlockBuilder_Add opt b0 (filter_key policy) handle_encoding
             }) = Some b" "holds opt b (meta_entries opt fh)"
  proof (cases "opt_filter_policy opt")
    case None
    then show thesis using that [of b0] assms(2) b0 by (simp add: meta_entries_def)
  next
    case (Some p)
    have "block_bound [(filter_key p, handle_bytes fh)] < 2 ^ 32" using assms(4) Some by (simp add: meta_entries_def)
    then have "length (filter_key p) < 2 ^ 32" "length (handle_bytes fh) < 2 ^ 32" by (simp_all add: block_bound_def)
    from holds_add [OF b0(2) interval this] obtain b where
      "BlockBuilder_Add opt b0 (filter_key p) (handle_bytes fh) = Some b" "holds opt b [(filter_key p, handle_bytes fh)]" by auto
    then show thesis
      using that [of b] Some assms(2,3) BlockHandle_EncodeTo_bytes [of fh "[]"] by (auto simp: meta_entries_def)
  qed
  obtain d b' r' where d: "WriteBlock ops r b mk_BlockHandle = Some (b', \<lparr>bh_offset = of_nat (length stored), bh_size = of_nat (length d)\<rparr>, r')"
    "file_at r' (stored @ raw_block d)" "same_index r r'" "block_of d (meta_entries opt fh)" "length d \<le> block_bound (meta_entries opt fh)"
    using write_block_at [OF assms(1) b(2) interval assms(4)] by blast
  have r: "tb_options r = opt" "tb_status r = StatusOK" using assms(1) by (simp_all add: file_at_def)
  have "write_metaindex_block ops r fh = Some (\<lparr>bh_offset = of_nat (length stored), bh_size = of_nat (length d)\<rparr>, r')"
    unfolding write_metaindex_block_def tb_ok_def r b0(1) using b(1) d(1) by (simp cong: option.case_cong)
  with d show ?thesis by blast
qed

lemma write_footer_ok:
  assumes "file_at r stored" "handle_set mh" "handle_set ih"
  shows "\<exists>r'. write_footer ops r mh ih = Some r' \<and> tb_status r' = StatusOK \<and>
    contents (tb_file r') = stored @ footer_bytes \<lparr>ft_metaindex_handle = mh, ft_index_handle = ih\<rparr>"
proof -
  let ?ft = "\<lparr>ft_metaindex_handle = mh, ft_index_handle = ih\<rparr>"
  obtain f where f: "file_Append ops (tb_file r) (footer_bytes ?ft) = (StatusOK, f)" "contents f = contents (tb_file r) @ footer_bytes ?ft"
    using append_ok append_contents by (metis prod.collapse)
  then show ?thesis
    using assms Footer_EncodeTo_bytes [of ?ft] by (simp add: write_footer_def tb_ok_def file_at_def Let_def)
qed

lemma index_bound:
  assumes "seps_bound C' key_ok seps (map snd bs)" "good_blocks bs" "length seps \<le> length bs"
  shows "block_bound (index_entries bs seps) \<le> sum_list (map kv_size (entries_of bs)) + 39 * length (entries_of bs) + 8"
proof -
  have "\<forall>j < length seps. map snd bs ! j \<noteq> []" using assms(2,3) by (auto simp: good_blocks_def)
  from seps_total [OF assms(1) this] show ?thesis
    using index_entries_size [of bs seps] by (simp add: block_bound_sizes)
qed

lemma write_index_block_ok:
  assumes "file_at r stored" "holds (opt\<lparr>opt_block_restart_interval := 1\<rparr>) (tb_index_block r) (index_entries bs seps)"
    "if tb_pending_index_entry r then length bs = Suc (length seps) \<and> tb_pending_handle r = block_handle bs (length seps)
     else bs = [] \<and> seps = []"
    "bs \<noteq> [] \<Longrightarrow> tb_last_key r = fst (last (entries_of bs))" "ordered_groups (map snd bs)"
    "separated (opt_comparator opt) seps (map snd bs @ [[]])" "good_blocks bs" "table_bound opt per_key (entries_of bs) < 2 ^ 32"
  shows "\<exists>seps' d r'. write_index_block ops r = Some (\<lparr>bh_offset = of_nat (length stored), bh_size = of_nat (length d)\<rparr>, r') \<and>
    file_at r' (stored @ raw_block d) \<and> length seps' = length bs \<and> separated (opt_comparator opt) (butlast seps') (map snd bs) \<and>
    seps_bound (opt_comparator opt) key_ok seps' (map snd bs) \<and> block_of d (index_entries bs seps') \<and>
    length d \<le> sum_list (map kv_size (entries_of bs)) + 39 * length (entries_of bs) + 8"
proof -
  let ?C = "opt_comparator opt" and ?iopt = "opt\<lparr>opt_block_restart_interval := 1\<rparr>"
  have r: "tb_options r = opt" "tb_status r = StatusOK" "tb_index_block_options r = ?iopt" using assms(1) by (simp_all add: file_at_def)
  obtain seps' ib r1 where r1: "(if tb_pending_index_entry r
           then do {
             last_key \<leftarrow> FindShortSuccessor (opt_comparator opt) (tb_last_key r);
             handle_encoding \<leftarrow> BlockHandle_EncodeTo (tb_pending_handle r) [];
             index_block \<leftarrow> BlockBuilder_Add ?iopt (tb_index_block r) last_key handle_encoding;
             Some (r\<lparr>tb_last_key := last_key, tb_index_block := index_block, tb_pending_index_entry := False\<rparr>)
           }
           else Some r) = Some r1" "file_at r1 stored" "tb_index_block r1 = ib" "length seps' = length bs"
    "separated ?C (butlast seps') (map snd bs)" "seps_bound ?C key_ok seps' (map snd bs)" "holds ?iopt ib (index_entries bs seps')"
  proof (cases "tb_pending_index_entry r")
    case False
    then show thesis
      using that [of r "tb_index_block r" "[]"] assms(1-3) by (simp add: separated_def seps_bound_def)
  next
    case True
    with assms(3) have p: "length bs = Suc (length seps)" "tb_pending_handle r = block_handle bs (length seps)" by simp_all
    then obtain bs0 b where bs: "bs = bs0 @ [b]" "length bs0 = length seps" by (cases bs rule: rev_cases) auto
    have groups: "\<forall>g \<in> set (map snd bs). g \<noteq> []" using assms(7) by (auto simp: good_blocks_def)
    then have good: "snd b \<noteq> []" using bs by simp
    let ?l = "fst (last (snd b))"
    have l: "tb_last_key r = ?l" using assms(4) bs(1) good by simp
    have mem: "last (snd b) \<in> set (entries_of bs)" using last_in_set [OF good] bs(1) by simp
    then have "key_ok ?l" using assms(5) by (auto simp: ordered_groups_def)
    then obtain s where s: "FindShortSuccessor ?C ?l = Some s" "key_ok s" "cmp ?C ?l s \<le> 0" "length s \<le> length ?l"
      by (rule short_successor)
    have "length ?l < 2 ^ 32" using table_bound_member(1) [of ?l "snd (last (snd b))", OF _ assms(8)] mem by simp
    then have slen: "length s < 2 ^ 32" using s(4) by simp
    have sep: "separated ?C seps (map snd bs)" using separated_drop_last [OF assms(6)] p(1) by simp
    have bound0: "seps_bound ?C key_ok seps (map snd bs)"
      by (rule separated_bound [OF assms(5) sep]) (use groups in \<open>meson in_set_butlastD\<close>)
    have gs: "map snd bs = map snd bs0 @ [snd b]" using bs(1) by simp
    have bound: "seps_bound ?C key_ok (seps @ [s]) (map snd bs)"
      unfolding gs
      by (rule seps_bound_snoc) (use assms(5) bound0 bs good s in \<open>simp_all\<close>)
    have ne: "\<forall>j < Suc (length seps). map snd bs ! j \<noteq> []" using groups p(1) by simp
    have "length (data_bytes bs) < 2 ^ 63"
      using data_bytes_bound [OF assms(7)] table_bound_sizes [of "entries_of bs" opt per_key] assms(8) by simp
    then have set: "handle_set (block_handle bs (length seps))" using block_handle_set [of "length seps" bs] p(1) by simp
    obtain ib where ib: "BlockBuilder_Add ?iopt (tb_index_block r) s (handle_bytes (block_handle bs (length seps))) = Some ib"
      "holds ?iopt ib (index_entries bs (seps @ [s]))"
      using index_add [OF assms(2,5) bound ne slen, of "block_handle bs (length seps)"] by (auto simp: index_entries_snoc_sep)
    show thesis
      by (rule that [of "r\<lparr>tb_last_key := s, tb_index_block := ib, tb_pending_index_entry := False\<rparr>" ib "seps @ [s]"])
         (use True l s(1) p BlockHandle_EncodeTo_bytes [OF set, of "[]"] ib assms(1) sep bound in \<open>simp_all add: file_at_def\<close>)
  qed
  have blen: "block_bound (index_entries bs seps') \<le> sum_list (map kv_size (entries_of bs)) + 39 * length (entries_of bs) + 8"
    using index_bound [OF r1(6) assms(7)] r1(4) by simp
  then have "block_bound (index_entries bs seps') < 2 ^ 32"
    using table_bound_sizes [of "entries_of bs" opt per_key] assms(8) by simp
  from write_block_at [OF r1(2,7) _ this] obtain d b' r' where
    d: "WriteBlock ops r1 ib mk_BlockHandle = Some (b', \<lparr>bh_offset = of_nat (length stored), bh_size = of_nat (length d)\<rparr>, r')"
    "file_at r' (stored @ raw_block d)" "block_of d (index_entries bs seps')" "length d \<le> block_bound (index_entries bs seps')"
    by auto
  have "write_index_block ops r = Some (\<lparr>bh_offset = of_nat (length stored), bh_size = of_nat (length d)\<rparr>, r'\<lparr>tb_index_block := b'\<rparr>)"
    unfolding write_index_block_def tb_ok_def r using r1(1,3) d(1) by simp
  moreover have "file_at (r'\<lparr>tb_index_block := b'\<rparr>) (stored @ raw_block d)" using d(2) by (simp add: file_at_def)
  ultimately show ?thesis using r1(4-6) d(3,4) blen by (meson le_trans)
qed

lemma Finish_layout:
  assumes "tb_inv r bs seps cur" "table_bound opt per_key (entries_of bs @ cur) < 2 ^ 32"
  shows "\<exists>r' bs' seps'. TableBuilder_Finish ops r = Some (StatusOK, r') \<and>
    table_layout opt key_ok (contents (tb_file r')) bs' seps' \<and> entries_of bs' = entries_of bs @ cur"
proof -
  obtain r1 bs' where r1: "TableBuilder_Flush ops r = Some r1" "tb_inv r1 bs' seps []" "entries_of bs' = entries_of bs @ cur"
    using Flush_inv [OF assms] by blast
  have core: "tb_core r1 bs' seps []" and count: "tb_count r1 (entries_of bs' @ [])" and filt: "tb_filter r1 bs' []"
    and og: "ordered_groups (map snd bs' @ [[]])" and sep: "separated (opt_comparator opt) seps (map snd bs' @ [[]])"
    using r1(2) unfolding tb_inv_def by blast+
  let ?kvs = "entries_of bs'" and ?S = "sum_list (map kv_size (entries_of bs'))" and ?n = "length (entries_of bs')"
  have bound: "table_bound opt per_key ?kvs < 2 ^ 32" using assms(2) r1(3) by simp
  have good: "good_blocks bs'" using core by (simp add: tb_core_def)
  have dlen: "length (data_bytes bs') \<le> ?S + 32 * ?n"
    using data_bytes_bound [OF good] table_bound_sizes [of ?kvs opt per_key] bound by simp
  let ?r2 = "r1\<lparr>tb_closed := True\<rparr>"
  have f2: "file_at ?r2 (data_bytes bs')" "tb_filter ?r2 bs' []" using core filt by (simp_all add: file_at_def tb_core_def tb_filter_def split: option.splits)
  have bounds: "length (data_bytes bs') < 2 ^ 64" "per_key * ?n + length (data_bytes bs') div 512 + 13 < 2 ^ 32"
    using dlen bound by (simp_all add: table_bound_def add_mult_distrib)
  obtain fh r3 fdata where r3: "write_filter_block ops ?r2 = Some (fh, r3)" "file_at r3 (data_bytes bs' @ filter_part opt fdata)"
    "same_index ?r2 r3" "tb_filter_block r3 = None \<longleftrightarrow> opt_filter_policy opt = None"
    "length fdata \<le> per_key * ?n + length (data_bytes bs') div 512 + 13"
    "\<forall>p. opt_filter_policy opt = Some p \<longrightarrow> filter_ok p key_ok fdata bs' \<and>
       fh = \<lparr>bh_offset = of_nat (length (data_bytes bs')), bh_size = of_nat (length fdata)\<rparr>"
    using write_filter_block_ok [OF f2 bounds] by (elim exE conjE) (rule that, assumption+)
  let ?stored3 = "data_bytes bs' @ filter_part opt fdata"
  have plen: "length (filter_part opt fdata) \<le> length fdata + 5" by (simp add: filter_part_def split: option.split)
  have "length fdata < 2 ^ 63" using le_less_trans [OF r3(5) bounds(2)] by simp
  moreover have "length (data_bytes bs') < 2 ^ 63"
    using dlen table_bound_sizes [of ?kvs opt per_key] bound by simp
  ultimately have mset: "handle_set fh" if "opt_filter_policy opt \<noteq> None"
    using that r3(6) handle_set_small by auto
  have mlen: "block_bound (meta_entries opt fh) \<le>
      (case opt_filter_policy opt of None \<Rightarrow> 0 | Some p \<Rightarrow> length (policy_Name p)) + 54"
    using length_handle_bytes(1) [of fh]
    by (simp add: meta_entries_def block_bound_def filter_key_def split: option.split)
  have "block_bound (meta_entries opt fh) < 2 ^ 32" using mlen bound by (simp add: table_bound_def)
  from write_metaindex_block_ok [OF r3(2,4) mset this] obtain meta r4 where r4:
    "write_metaindex_block ops r3 fh = Some (\<lparr>bh_offset = of_nat (length ?stored3), bh_size = of_nat (length meta)\<rparr>, r4)"
    "file_at r4 (?stored3 @ raw_block meta)" "same_index r3 r4" "block_of meta (meta_entries opt fh)"
    "length meta \<le> block_bound (meta_entries opt fh)" by blast
  let ?stored4 = "?stored3 @ raw_block meta"
  have same: "same_index ?r2 r4" by (rule same_index_trans [OF r3(3) r4(3)])
  have "ordered_groups (map snd bs')" using og by (simp add: ordered_groups_def)
  moreover have "if tb_pending_index_entry r4 then length bs' = Suc (length seps) \<and> tb_pending_handle r4 = block_handle bs' (length seps)
      else bs' = [] \<and> seps = []"
    using core same by (auto simp: tb_core_def same_index_def)
  moreover have "holds (opt\<lparr>opt_block_restart_interval := 1\<rparr>) (tb_index_block r4) (index_entries bs' seps)"
    using core same by (simp add: tb_core_def same_index_def)
  moreover have "tb_last_key r4 = fst (last ?kvs)" if "bs' \<noteq> []"
    using count same that good by (cases bs') (auto simp: tb_count_def same_index_def good_blocks_def)
  ultimately obtain seps' idx r5 where r5:
    "write_index_block ops r4 = Some (\<lparr>bh_offset = of_nat (length ?stored4), bh_size = of_nat (length idx)\<rparr>, r5)"
    "file_at r5 (?stored4 @ raw_block idx)" "length seps' = length bs'" "separated (opt_comparator opt) (butlast seps') (map snd bs')"
    "seps_bound (opt_comparator opt) key_ok seps' (map snd bs')" "block_of idx (index_entries bs' seps')"
    "length idx \<le> ?S + 39 * ?n + 8"
    using write_index_block_ok [OF r4(2) _ _ _ _ sep good bound] by blast
  let ?mh = "\<lparr>bh_offset = of_nat (length ?stored3), bh_size = of_nat (length meta)\<rparr>"
  let ?ih = "\<lparr>bh_offset = of_nat (length ?stored4), bh_size = of_nat (length idx)\<rparr>"
  let ?ft = "\<lparr>ft_metaindex_handle = ?mh, ft_index_handle = ?ih\<rparr>"
  have total: "length (?stored4 @ raw_block idx @ footer_bytes ?ft) < 2 ^ 32"
  proof -
    have "length (data_bytes bs') div 512 \<le> ?S + 32 * ?n" using dlen div_le_dividend [of "length (data_bytes bs')" 512] by linarith
    then have "length (?stored4 @ raw_block idx @ footer_bytes ?ft) \<le> table_bound opt per_key ?kvs"
      using dlen plen r3(5) r4(5) mlen r5(7) by (simp add: table_bound_def algebra_simps)
    with bound show ?thesis by simp
  qed
  have "handle_set ?mh" "handle_set ?ih"
    using total by (simp_all add: handle_set_small del: of_nat_add)
  from write_footer_ok [OF r5(2) this] obtain r6 where r6: "write_footer ops r5 ?mh ?ih = Some r6" "tb_status r6 = StatusOK"
    "contents (tb_file r6) = (?stored4 @ raw_block idx) @ footer_bytes ?ft" by blast
  have "\<not> tb_closed r1" using core by (simp add: tb_core_def)
  then have "TableBuilder_Finish ops r = Some (StatusOK, r6)"
    using r1(1) r3(1) r4(1) r5(1) r6(1,2) by (simp add: TableBuilder_Finish_def)
  moreover have "table_layout opt key_ok (contents (tb_file r6)) bs' seps'"
  proof -
    have "meta_entries opt \<lparr>bh_offset = of_nat (length (data_bytes bs')), bh_size = of_nat (length fdata)\<rparr> = meta_entries opt fh"
      using r3(6) by (simp add: meta_entries_def split: option.split)
    with total good r3(6) r4(4) r5(3-6) r6(3) show ?thesis
      unfolding table_layout_def Let_def
      by (intro conjI exI [of _ fdata] exI [of _ meta] exI [of _ idx]) (simp_all add: add.assoc)
  qed
  ultimately show ?thesis using r1(3) by blast
qed

lemma Add_inv:
  assumes "tb_inv r bs seps cur" "ordered_groups (map snd bs @ [cur @ [(k, v)]])"
    "table_bound opt per_key (entries_of bs @ cur @ [(k, v)]) < 2 ^ 32"
  shows "\<exists>r' bs' seps' cur'. TableBuilder_Add ops r k v = Some r' \<and> tb_inv r' bs' seps' cur' \<and>
    entries_of bs' @ cur' = entries_of bs @ cur @ [(k, v)]"
proof -
  obtain r2 seps1 where r2: "tb_inv r2 bs seps1 (cur @ [(k, v)])" "TableBuilder_Add ops r k v =
      (if CurrentSizeEstimate (tb_data_block r2) \<ge> opt_block_size opt then TableBuilder_Flush ops r2 else Some r2)"
    using Add_core [OF assms] by blast
  show ?thesis
  proof (cases "CurrentSizeEstimate (tb_data_block r2) \<ge> opt_block_size opt")
    case True
    from Flush_inv [OF r2(1)] assms(3) obtain r' bs' where
      "TableBuilder_Flush ops r2 = Some r'" "tb_inv r' bs' seps1 []" "entries_of bs' = entries_of bs @ cur @ [(k, v)]" by auto
    with r2(2) True show ?thesis
      by (intro exI [of _ r'] exI [of _ bs'] exI [of _ seps1] exI [of _ "[]"]) simp
  next
    case False
    with r2 show ?thesis by (intro exI [of _ r2] exI [of _ bs] exI [of _ seps1] exI [of _ "cur @ [(k, v)]"]) simp
  qed
qed

lemma add_all_inv:
  assumes "tb_inv r bs seps cur" "ordered_groups [entries_of bs @ cur @ kvs]" "table_bound opt per_key (entries_of bs @ cur @ kvs) < 2 ^ 32"
  shows "\<exists>r' bs' seps' cur'. tb_add_all ops r kvs = Some r' \<and> tb_inv r' bs' seps' cur' \<and>
    entries_of bs' @ cur' = entries_of bs @ cur @ kvs"
  using assms
proof (induction kvs arbitrary: r bs seps cur)
  case Nil
  then show ?case by auto
next
  case (Cons kv kvs)
  obtain k v where kv: "kv = (k, v)" by (cases kv)
  have og: "ordered_groups (map snd bs @ [cur @ [(k, v)]])"
    using Cons.prems(2) by (auto simp: ordered_groups_def sorted_wrt_append kv)
  have "table_bound opt per_key (entries_of bs @ cur @ [(k, v)]) < 2 ^ 32"
    using Cons.prems(3) table_bound_append [of opt per_key "entries_of bs @ cur @ [(k, v)]" kvs] by (simp add: kv)
  from Add_inv [OF Cons.prems(1) og this] obtain r1 bs1 seps1 cur1 where
    r1: "TableBuilder_Add ops r k v = Some r1" "tb_inv r1 bs1 seps1 cur1" "entries_of bs1 @ cur1 = entries_of bs @ cur @ [(k, v)]" by blast
  then have same: "entries_of bs1 @ cur1 @ kvs = entries_of bs @ cur @ kv # kvs"
    using arg_cong [OF r1(3), of "\<lambda>x. x @ kvs"] by (simp add: kv)
  from Cons.IH [OF r1(2)] Cons.prems(2,3) r1(1) show ?case by (simp add: same kv)
qed

text \<open>The file a builder writes for a list of entries has the layout of a table.\<close>

lemma build_table_layout:
  assumes "contents f = []" "sorted_wrt (key_less (opt_comparator opt)) kvs" "\<forall>e \<in> set kvs. key_ok (fst e)"
    "table_bound opt per_key kvs < 2 ^ 32"
  shows "\<exists>f' bs seps. build_table ops opt f kvs = Some (StatusOK, f') \<and> table_layout opt key_ok (contents f') bs seps \<and>
    entries_of bs = kvs"
proof -
  obtain r where r: "mk_TableBuilder opt f = Some r" "tb_inv r [] [] []" using mk_TableBuilder_inv [OF assms(1)] by blast
  obtain r1 bs1 seps1 cur1 where r1: "tb_add_all ops r kvs = Some r1" "tb_inv r1 bs1 seps1 cur1" "entries_of bs1 @ cur1 = kvs"
    using add_all_inv [OF r(2), of kvs] assms(2-4) by (auto simp: ordered_groups_def)
  from Finish_layout [OF r1(2)] assms(4) r1(3) obtain r2 bs2 seps2 where
    "TableBuilder_Finish ops r1 = Some (StatusOK, r2)" "table_layout opt key_ok (contents (tb_file r2)) bs2 seps2" "entries_of bs2 = kvs" by auto
  with r(1) r1(1) show ?thesis by (auto simp: build_table_def)
qed

end

end
