(* ===== verification/Table_Facts.thy ===== *)
theory Table_Facts imports Table Table_Finish Two_Level_Facts begin

section \<open>leveldb: reading a table that has the layout\<close>

text \<open>
  The iterators of a table's blocks meet the contract of an iterator, opening a block gives its
  iterator, and so the two-level iterator of the table iterates over all its entries.
\<close>

subsection \<open>Iterators on blocks\<close>

text \<open>An iterator that passes its calls on to another meets the contract when the other does.\<close>

lemma iterator_wrap:
  assumes "ordered_iterator C key_ok I view"
    and ops: "\<And>c b. iter_Valid J (w c b) = iter_Valid I b" "\<And>c b. iter_key J (w c b) = iter_key I b"
      "\<And>c b. iter_value J (w c b) = iter_value I b" "\<And>c b. iter_status J (w c b) = iter_status I b"
      "\<And>c b. iter_SeekToFirst J (w c b) = map_option (w c) (iter_SeekToFirst I b)"
      "\<And>c b. iter_SeekToLast J (w c b) = map_option (w c) (iter_SeekToLast I b)"
      "\<And>c b k. iter_Seek J (w c b) k = map_option (w c) (iter_Seek I b k)"
      "\<And>c b. iter_Next J (w c b) = map_option (w c) (iter_Next I b)"
      "\<And>c b. iter_Prev J (w c b) = map_option (w c) (iter_Prev I b)"
  shows "ordered_iterator C key_ok J (\<lambda>j es i. \<exists>c b. P c \<and> j = w c b \<and> view b es i)"
proof (rule ordered_iterator.intro [OF ordered_iterator.axioms(1) [OF assms(1)]], rule ordered_iterator_axioms.intro)
  fix j es i assume "\<exists>c b. P c \<and> j = w c b \<and> view b es i"
  then obtain c b where j: "P c" "j = w c b" "view b es i" by blast
  note laws = ordered_iterator.position [OF assms(1) j(3)] ordered_iterator.keys [OF assms(1) j(3)]
    ordered_iterator.sorted [OF assms(1) j(3)] ordered_iterator.valid [OF assms(1) j(3)]
    ordered_iterator.key_at [OF assms(1) j(3)] ordered_iterator.value_at [OF assms(1) j(3)] ordered_iterator.status [OF assms(1) j(3)]
  show "i \<le> length es" "\<forall>e \<in> set es. key_ok (fst e)" "sorted_wrt (key_less C) es" "iter_Valid J j \<longleftrightarrow> i < length es"
    "iter_status J j = StatusOK"
    using laws by (simp_all add: j(2) ops)
  show "\<exists>it'. iter_SeekToFirst J j = Some it' \<and> (\<exists>c b. P c \<and> it' = w c b \<and> view b es 0)"
    using ordered_iterator.first [OF assms(1) j(3)] j(1) by (auto simp: j(2) ops)
  show "\<exists>it'. iter_SeekToLast J j = Some it' \<and> (\<exists>c b. P c \<and> it' = w c b \<and> view b es (length es - 1))"
    using ordered_iterator.last [OF assms(1) j(3)] j(1) by (auto simp: j(2) ops)
  show "\<exists>it'. iter_Seek J j t = Some it' \<and> (\<exists>c b. P c \<and> it' = w c b \<and> view b es (lower_bound C t es))" if "key_ok t" for t
    using ordered_iterator.seek [OF assms(1) j(3) that] j(1) by (auto simp: j(2) ops)
  assume i: "i < length es"
  then show "iter_key J j = Some (fst (es ! i))" "iter_value J j = Some (snd (es ! i))"
    using laws by (simp_all add: j(2) ops)
  show "\<exists>it'. iter_Next J j = Some it' \<and> (\<exists>c b. P c \<and> it' = w c b \<and> view b es (Suc i))"
    using ordered_iterator.step [OF assms(1) j(3) i] j(1) by (auto simp: j(2) ops)
  show "\<exists>it'. iter_Prev J j = Some it' \<and> (\<exists>c b. P c \<and> it' = w c b \<and> view b es (if i = 0 then length es else i - 1))"
    using ordered_iterator.step_back [OF assms(1) j(3) i] j(1) by (auto simp: j(2) ops split del: if_split)
qed

definition any_view :: "Comparator \<Rightarrow> (Slice \<Rightarrow> bool) \<Rightarrow> Status + BlockIter \<Rightarrow> kv list \<Rightarrow> nat \<Rightarrow> bool" where
  "any_view C key_ok it es i \<longleftrightarrow> (\<exists>b. it = Inr b \<and> block_view C key_ok b es i)"

lemma any_iterator:
  assumes "comparator C key_ok"
  shows "ordered_iterator C key_ok AnyBlockIter (any_view C key_ok)"
  unfolding any_view_def [abs_def]
  using iterator_wrap [OF block_iterator [OF assms], of AnyBlockIter "\<lambda>_. Inr" "\<lambda>_ :: unit. True"]
  by (simp add: AnyBlockIter_def dispatch_def)

text \<open>The handle of the block cache that an iterator releases.\<close>

fun tokens :: "'h Cleanup \<Rightarrow> 'h multiset" where
  "tokens (ReleaseBlock h) = {#h#}"
| "tokens _ = {#}"

definition data_view :: "Comparator \<Rightarrow> (Slice \<Rightarrow> bool) \<Rightarrow> 'h multiset \<Rightarrow> 'h DataIterator \<Rightarrow> kv list \<Rightarrow> nat \<Rightarrow> bool" where
  "data_view C key_ok r d es i \<longleftrightarrow> (\<exists>c it. tokens c = r \<and> d = (it, c) \<and> any_view C key_ok it es i)"

lemma data_iterator:
  assumes "comparator C key_ok"
  shows "ordered_iterator C key_ok DataIter (data_view C key_ok r)"
  unfolding data_view_def [abs_def]
  by (rule iterator_wrap [OF any_iterator [OF assms]]) (simp_all add: with_cleanup_def)

subsection \<open>Opening blocks\<close>

text \<open>A block, as it is kept in the cache or in the table, that has the entries \<open>kvs\<close>.\<close>

definition block_opens :: "Block \<Rightarrow> kv list \<Rightarrow> bool" where
  "block_opens b kvs \<longleftrightarrow> (\<exists>es rs. map snd es = kvs \<and>
     (\<forall>C. \<exists>it. Block_NewIterator C b = Some (Inr it) \<and> at C es rs (length es) it))"

lemma mk_Block_opens:
  assumes "block_of d kvs" "length d < 2 ^ 32"
  shows "\<exists>b. mk_Block \<lparr>bc_data = d, bc_cachable = c, bc_heap_allocated = h\<rparr> = Some b \<and> block_opens b kvs"
proof -
  obtain es rs where es: "layout es rs" "d = block_bytes es rs" "map snd es = kvs" using assms(1) by (auto simp: block_of_def)
  then have fits: "block_fits es rs" using assms(2) by (simp add: block_fits_def)
  have opens: "\<exists>it. open_block C d = Some it \<and> at C es rs (length es) it" for C
    using open_block_layout [OF es(1) fits] es(2) by simp
  then obtain b where b: "mk_Block \<lparr>bc_data = d, bc_cachable = False, bc_heap_allocated = False\<rparr> = Some b"
    by (auto simp: open_block_def bind_eq_Some_conv)
  have new: "\<exists>it. Block_NewIterator C b = Some (Inr it) \<and> at C es rs (length es) it" for C
  proof -
    obtain it where it: "open_block C d = Some it" "at C es rs (length es) it" using opens by blast
    then obtain y where "Block_NewIterator C b = Some y" "(case y of Inl _ \<Rightarrow> None | Inr it \<Rightarrow> Some it) = Some it"
      using b by (auto simp: open_block_def bind_eq_Some_conv)
    with it(2) show ?thesis by (cases y) auto
  qed
  have "mk_Block \<lparr>bc_data = d, bc_cachable = c, bc_heap_allocated = h\<rparr> = Some (b\<lparr>blk_owned := h\<rparr>)"
    using b by (auto simp: mk_Block_def NumRestarts_def Let_def bind_eq_Some_conv split: if_splits)
  moreover have "Block_NewIterator C (b\<lparr>blk_owned := h\<rparr>) = Block_NewIterator C b" for C
    by (auto simp: Block_NewIterator_def NumRestarts_def intro!: Option.bind_cong)
  ultimately show ?thesis using new es(3) by (auto simp: block_opens_def)
qed

definition ordered_entries :: "Comparator \<Rightarrow> (Slice \<Rightarrow> bool) \<Rightarrow> kv list \<Rightarrow> bool" where
  "ordered_entries C key_ok kvs \<longleftrightarrow> sorted_wrt (key_less C) kvs \<and> (\<forall>e \<in> set kvs. key_ok (fst e))"

lemma block_opens_view:
  assumes "block_opens b kvs" "ordered_entries C key_ok kvs"
  shows "\<exists>it. Block_NewIterator C b = Some it \<and> any_view C key_ok it kvs (length kvs)"
proof -
  obtain es rs it where es: "map snd es = kvs" "Block_NewIterator C b = Some (Inr it)" "at C es rs (length es) it"
    using assms(1) unfolding block_opens_def by blast
  have "block_view C key_ok it (map snd es) (length es)"
    using assms(2) by (intro block_viewI [OF es(3)]) (auto simp: es(1) [symmetric] ordered_entries_def sorted_wrt_map)
  with es show ?thesis by (auto simp: any_view_def)
qed

subsection \<open>The block cache\<close>

text \<open>The contract \<open>block_cache\<close> for the block cache of the options, which may be absent.\<close>

definition cache_laws :: "('c, 'h, Block) Cache option \<Rightarrow> ((Slice \<Rightarrow> Block \<Rightarrow> bool) \<Rightarrow> 'c \<Rightarrow> bool) \<Rightarrow> ('c \<Rightarrow> 'h multiset) \<Rightarrow> nat \<Rightarrow> bool" where
  "cache_laws bc valid_cache refs limit \<longleftrightarrow> (case bc of None \<Rightarrow> True | Some cache \<Rightarrow> block_cache cache valid_cache refs limit)"

lemma cache_laws_none: "cache_laws None valid_cache refs limit"
  by (simp add: cache_laws_def)

subsection \<open>The blocks of a table\<close>

text \<open>
  \<open>reads table ro h kvs\<close>: the file of the table has a block with the entries \<open>kvs\<close> at the handle \<open>h\<close>.
  \<open>cached table hs\<close>: the cache holds blocks of the table, each with the entries of its place.
\<close>

definition reads :: "Table \<Rightarrow> ReadOptions \<Rightarrow> BlockHandle \<Rightarrow> kv list \<Rightarrow> bool" where
  "reads table ro h kvs \<longleftrightarrow> (\<exists>d b. ReadBlock (tab_file table) ro h =
     Some (StatusOK, \<lparr>bc_data = d, bc_cachable = b, bc_heap_allocated = b\<rparr>) \<and> length d < 2 ^ 32 \<and> block_of d kvs)"

definition cached :: "Table \<Rightarrow> (BlockHandle \<times> kv list) list \<Rightarrow> Slice \<Rightarrow> Block \<Rightarrow> bool" where
  "cached table hs k b \<longleftrightarrow> (\<exists>(h, kvs) \<in> set hs. k = block_cache_key table h \<and> block_opens b kvs)"

lemma block_cache_key_inject: "block_cache_key table h = block_cache_key table h' \<Longrightarrow> bh_offset h = bh_offset h'"
proof -
  assume "block_cache_key table h = block_cache_key table h'"
  then have "EncodeFixed64 (bh_offset h) = EncodeFixed64 (bh_offset h')" by (simp add: block_cache_key_def)
  then have "le_bytes 8 (unat (bh_offset h)) = le_bytes 8 (unat (bh_offset h'))" by (simp only: EncodeFixed64_le)
  then have "of_le (le_bytes 8 (unat (bh_offset h))) = of_le (le_bytes 8 (unat (bh_offset h')))" by (simp only:)
  then show ?thesis using unat_u64_less [of "bh_offset h"] unat_u64_less [of "bh_offset h'"]
    by (simp add: word_unat_eq_iff del: unat_u64_less)
qed

definition good_handles :: "Table \<Rightarrow> ReadOptions \<Rightarrow> (BlockHandle \<times> kv list) list \<Rightarrow> bool" where
  "good_handles table ro hs \<longleftrightarrow> inj_on (bh_offset \<circ> fst) (set hs) \<and> length hs \<le> 2 ^ 31 \<and> (\<forall>(h, kvs) \<in> set hs. reads table ro h kvs)"

lemma cached_keys: "finite {k. \<exists>b. cached table hs k b}" "card {k. \<exists>b. cached table hs k b} \<le> length hs"
proof -
  have sub: "{k. \<exists>b. cached table hs k b} \<subseteq> (\<lambda>(h, kvs). block_cache_key table h) ` set hs" by (force simp: cached_def)
  then show fin: "finite {k. \<exists>b. cached table hs k b}" by (rule finite_subset) simp
  have "card {k. \<exists>b. cached table hs k b} \<le> card ((\<lambda>(h, kvs). block_cache_key table h) ` set hs)" by (rule card_mono [OF _ sub]) simp
  also have "\<dots> \<le> card (set hs)" by (rule card_image_le) simp
  also have "\<dots> \<le> length hs" by (rule card_length)
  finally show "card {k. \<exists>b. cached table hs k b} \<le> length hs" .
qed

lemma find_block_ok:
  fixes bc :: "('c, 'h, Block) Cache option" and c :: 'c
  assumes "cache_laws bc valid_cache refs limit" "good_handles table ro hs" "(h, kvs) \<in> set hs"
    "bc \<noteq> None \<Longrightarrow> valid_cache (cached table hs) c \<and> size (refs c) < limit"
  shows "\<exists>b ch c'. find_block bc table ro c h = Some (StatusOK, Some (b, ch), c') \<and> block_opens b kvs \<and>
    (if bc = None then c' = c \<and> ch = None else valid_cache (cached table hs) c' \<and> refs c' = refs c + (case ch of None \<Rightarrow> {#} | Some t \<Rightarrow> {#t#}))"
proof -
  have "reads table ro h kvs" using assms(2,3) by (auto simp: good_handles_def)
  then obtain d a where d: "ReadBlock (tab_file table) ro h = Some (StatusOK, \<lparr>bc_data = d, bc_cachable = a, bc_heap_allocated = a\<rparr>)"
    "length d < 2 ^ 32" "block_of d kvs" by (auto simp: reads_def)
  obtain b where b: "mk_Block \<lparr>bc_data = d, bc_cachable = a, bc_heap_allocated = a\<rparr> = Some b" "block_opens b kvs"
    using mk_Block_opens [OF d(3,2)] by blast
  have read: "read_new_block table ro h = Some (StatusOK, Some (b, a))"
    using d(1) b(1) by (simp add: read_new_block_def)
  show ?thesis
  proof (cases bc)
    case None
    then show ?thesis using read b(2) by (simp add: find_block_def)
  next
    case (Some cache)
    with assms(1) have B: "block_cache cache valid_cache refs limit" by (simp add: cache_laws_def)
    have v: "valid_cache (cached table hs) c" "size (refs c) < limit" using assms(4) Some by simp_all
    let ?k = "block_cache_key table h"
    obtain found c1 where c1: "cache_Lookup cache c ?k = Some (found, c1)" "valid_cache (cached table hs) c1"
      "case found of None \<Rightarrow> refs c1 = refs c
       | Some t \<Rightarrow> refs c1 = refs c + {#t#} \<and> (\<exists>x. cache_Value cache c1 t = Some x \<and> cached table hs ?k x)"
      using block_cache.lookup [OF B v] by blast
    have same: "(h', kvs') = (h, kvs)" if "(h', kvs') \<in> set hs" "?k = block_cache_key table h'" for h' kvs'
      using that(1) assms(2,3) block_cache_key_inject [OF that(2)] unfolding good_handles_def
      by (metis (no_types, lifting) comp_apply fst_conv inj_onD)
    show ?thesis
    proof (cases found)
      case (Some t)
      with c1(3) obtain x where x: "cache_Value cache c1 t = Some x" "cached table hs ?k x" "refs c1 = refs c + {#t#}" by auto
      then obtain h' kvs' where m: "(h', kvs') \<in> set hs" "?k = block_cache_key table h'" "block_opens x kvs'" by (auto simp: cached_def)
      then have "(h', kvs') = (h, kvs)" by (intro same)
      then have "block_opens x kvs" using m(3) by simp
      with Some x c1(1,2) \<open>bc = Some cache\<close> show ?thesis by (simp add: find_block_def Let_def)
    next
      case None
      have "cached table hs ?k b" unfolding cached_def using assms(3) b(2) by blast
      moreover have "card {k. \<exists>b. cached table hs k b} \<le> 2 ^ 31"
        using cached_keys(2) [of table hs] assms(2) by (simp add: good_handles_def)
      ultimately obtain t c2 where
        "cache_Insert cache c1 ?k b (blk_size b) = Some (t, c2)" "valid_cache (cached table hs) c2" "refs c2 = refs c1 + {#t#}"
        using block_cache.insert [OF B c1(2) _ cached_keys(1)] by blast
      with None c1 \<open>bc = Some cache\<close> read b(2) show ?thesis by (simp add: find_block_def Let_def)
    qed
  qed
qed

end
