(* ===== verification/Table_Blocks.thy ===== *)
theory Table_Blocks imports Table_Facts begin

section \<open>leveldb: the blocks of a table and their two-level iterator\<close>

text \<open>
  The block function of a table meets the interface of a two-level iterator, with a block cache or
  without one; so the iterator of a table iterates over the entries of all its blocks.
\<close>

definition block_env :: "('c, 'h, Block) Cache option \<Rightarrow> ((Slice \<Rightarrow> Block \<Rightarrow> bool) \<Rightarrow> 'c \<Rightarrow> bool) \<Rightarrow> Table \<Rightarrow>
    (BlockHandle \<times> kv list) list \<Rightarrow> 'c \<Rightarrow> bool" where
  "block_env bc valid_cache table hs c \<longleftrightarrow> bc = None \<or> valid_cache (cached table hs) c"

definition block_refs :: "('c, 'h, Block) Cache option \<Rightarrow> ('c \<Rightarrow> 'h multiset) \<Rightarrow> 'c \<Rightarrow> 'h multiset" where
  "block_refs bc refs c = (if bc = None then {#} else refs c)"

text \<open>How many cache handles may be held: \<open>limit\<close> with a cache; without one no block holds any.\<close>

definition block_room :: "('c, 'h, Block) Cache option \<Rightarrow> nat \<Rightarrow> nat" where
  "block_room bc limit = (if bc = None then 2 else limit)"

text \<open>The entries of the block that an index value leads to.\<close>

definition table_blk :: "(BlockHandle \<times> kv list) list \<Rightarrow> Slice \<Rightarrow> kv list option" where
  "table_blk hs = map_of (map (\<lambda>(h, kvs). (handle_bytes h, kvs)) hs)"

lemma handle_bytes_inject: "handle_bytes h = handle_bytes h' \<Longrightarrow> h = h'"
  using BlockHandle_DecodeFrom_bytes [of mk_BlockHandle h "[]"] BlockHandle_DecodeFrom_bytes [of mk_BlockHandle h' "[]"] by simp

lemma table_blkD: "table_blk hs v = Some kvs \<Longrightarrow> \<exists>h. v = handle_bytes h \<and> (h, kvs) \<in> set hs"
  unfolding table_blk_def by (drule map_of_SomeD) auto

lemma table_blk:
  assumes "inj_on (bh_offset \<circ> fst) (set hs)" "(h, kvs) \<in> set hs"
  shows "table_blk hs (handle_bytes h) = Some kvs"
proof -
  have "(handle_bytes h, kvs) \<in> set (map (\<lambda>(h, kvs). (handle_bytes h, kvs)) hs)" using assms(2) by force
  then have "handle_bytes h \<in> dom (table_blk hs)"
    unfolding table_blk_def dom_map_of_conv_image_fst by force
  then obtain kvs' where k: "table_blk hs (handle_bytes h) = Some kvs'" by auto
  from table_blkD [OF k] have "(h, kvs') \<in> set hs" using handle_bytes_inject by blast
  with k show ?thesis using inj_onD [OF assms(1), of "(h, kvs')" "(h, kvs)"] assms(2) by simp
qed

lemma tokens_le_one: "size (tokens c) \<le> Suc 0"
  by (cases c) auto

lemma BlockReader_ok:
  fixes bc :: "('c, 'h, Block) Cache option" and c :: 'c
  assumes "cache_laws bc valid_cache refs limit" "good_handles table ro hs" "table_blk hs v = Some kvs"
    "block_env bc valid_cache table hs c" "size (block_refs bc refs c) < block_room bc limit"
    "ordered_entries (opt_comparator (tab_options table)) key_ok kvs"
  shows "\<exists>d c' r. BlockReader bc table ro c v = Some (d, c') \<and>
    data_view (opt_comparator (tab_options table)) key_ok r d kvs (length kvs) \<and>
    block_env bc valid_cache table hs c' \<and> block_refs bc refs c' = block_refs bc refs c + r"
proof -
  obtain h where h: "v = handle_bytes h" "(h, kvs) \<in> set hs" using table_blkD [OF assms(3)] by blast
  have dec: "BlockHandle_DecodeFrom mk_BlockHandle v = (StatusOK, h, [])"
    using BlockHandle_DecodeFrom_bytes [of mk_BlockHandle h "[]"] h(1) by simp
  have env: "bc \<noteq> None \<Longrightarrow> valid_cache (cached table hs) c \<and> size (refs c) < limit"
    using assms(4,5) by (auto simp: block_env_def block_refs_def block_room_def)
  obtain b ch c' where b: "find_block bc table ro c h = Some (StatusOK, Some (b, ch), c')" "block_opens b kvs"
    "if bc = None then c' = c \<and> ch = None
     else valid_cache (cached table hs) c' \<and> refs c' = refs c + (case ch of None \<Rightarrow> {#} | Some t \<Rightarrow> {#t#})"
    using find_block_ok [OF assms(1,2) h(2) env] by blast
  obtain it where it: "Block_NewIterator (opt_comparator (tab_options table)) b = Some it"
    "any_view (opt_comparator (tab_options table)) key_ok it kvs (length kvs)"
    using block_opens_view [OF b(2) assms(6)] by blast
  let ?cl = "case ch of None \<Rightarrow> DeleteBlock | Some t \<Rightarrow> ReleaseBlock t"
  have "BlockReader bc table ro c v = Some ((it, ?cl), c')"
    using dec b(1) it(1) by (simp add: BlockReader_def)
  moreover have "data_view (opt_comparator (tab_options table)) key_ok (tokens ?cl) (it, ?cl) kvs (length kvs)"
    using it(2) by (auto simp: data_view_def)
  moreover have "block_env bc valid_cache table hs c'" "block_refs bc refs c' = block_refs bc refs c + tokens ?cl"
    using b(3) by (auto simp: block_env_def block_refs_def split: option.splits if_splits)
  ultimately show ?thesis by blast
qed

lemma delete_DataIter_ok:
  assumes "cache_laws bc valid_cache refs limit" "block_env bc valid_cache table hs c" "data_view C key_ok r d kvs i"
    "r \<subseteq># block_refs bc refs c"
  shows "\<exists>c'. delete_DataIter bc c d = Some c' \<and> block_env bc valid_cache table hs c' \<and>
    block_refs bc refs c' = block_refs bc refs c - r"
proof (cases "snd d")
  case (ReleaseBlock t)
  then have r: "r = {#t#}" using assms(3) by (auto simp: data_view_def)
  then obtain cache where cache: "bc = Some cache" using assms(4) by (cases bc) (auto simp: block_refs_def)
  then have B: "block_cache cache valid_cache refs limit" and v: "valid_cache (cached table hs) c" and t: "t \<in># refs c"
    using assms(1,2,4) r by (auto simp: cache_laws_def block_env_def block_refs_def)
  from block_cache.release [OF B v t] show ?thesis
    using cache r ReleaseBlock by (auto simp: delete_DataIter_def block_env_def block_refs_def)
qed (use assms in \<open>auto simp: delete_DataIter_def data_view_def\<close>)

theorem table_two_level:
  fixes bc :: "('c, 'h, Block) Cache option"
  assumes "comparator C key_ok" "cache_laws bc valid_cache refs limit" "opt_comparator (tab_options table) = C"
    "good_handles table ro hs" "\<forall>(h, kvs) \<in> set hs. ordered_entries C key_ok kvs"
  shows "two_level C key_ok AnyBlockIter (any_view C key_ok) DataIter (data_view C key_ok) (TableBlocks bc table ro)
    (block_env bc valid_cache table hs) (block_refs bc refs) (block_room bc limit) (table_blk hs)"
proof (rule two_level.intro [OF any_iterator [OF assms(1)]], rule two_level_axioms.intro [OF data_iterator [OF assms(1)]])
  fix e :: 'c and h es d i and r :: "'h multiset"
  show "size r \<le> 1" if "data_view C key_ok r d es i"
    using that by (auto simp: data_view_def tokens_le_one)
  assume env: "block_env bc valid_cache table hs e"
  show "\<exists>d e' r. bf_open (TableBlocks bc table ro) e h = Some (d, e') \<and> data_view C key_ok r d es (length es) \<and>
      block_env bc valid_cache table hs e' \<and> block_refs bc refs e' = block_refs bc refs e + r"
    if "size (block_refs bc refs e) < block_room bc limit" "table_blk hs h = Some es"
  proof -
    have "ordered_entries (opt_comparator (tab_options table)) key_ok es"
      using table_blkD [OF that(2)] assms(3,5) by auto
    from BlockReader_ok [OF assms(2,4) that(2) env that(1) this] show ?thesis by (simp add: TableBlocks_def assms(3))
  qed
  show "\<exists>e'. bf_delete (TableBlocks bc table ro) e d = Some e' \<and> block_env bc valid_cache table hs e' \<and>
      block_refs bc refs e' = block_refs bc refs e - r"
    if "data_view C key_ok r d es i" "r \<subseteq># block_refs bc refs e"
    using delete_DataIter_ok [OF assms(2) env that] by (simp add: TableBlocks_def)
qed

text \<open>The interface for any table that is read without a block cache; where the table has no good blocks
  there are none to open.\<close>

definition table_blocks :: "Comparator \<Rightarrow> (Slice \<Rightarrow> bool) \<Rightarrow> Table \<Rightarrow> ReadOptions \<Rightarrow> (BlockHandle \<times> kv list) list \<Rightarrow>
    (BlockHandle \<times> kv list) list" where
  "table_blocks C key_ok table ro hs =
     (if opt_comparator (tab_options table) = C \<and> good_handles table ro hs \<and> (\<forall>(h, kvs) \<in> set hs. ordered_entries C key_ok kvs)
      then hs else [])"

lemma uncached_two_level:
  assumes "comparator C key_ok"
  shows "two_level C key_ok AnyBlockIter (any_view C key_ok) DataIter (data_view C key_ok)
    (TableBlocks (None :: ('c, 'h, Block) Cache option) table ro)
    (\<lambda>_. True) (\<lambda>_. {#}) 2 (table_blk (table_blocks C key_ok table ro hs))"
proof (cases "opt_comparator (tab_options table) = C \<and> good_handles table ro hs \<and> (\<forall>(h, kvs) \<in> set hs. ordered_entries C key_ok kvs)")
  case True
  have "(\<lambda>_. True) = block_env (None :: ('c, 'h, Block) Cache option) (\<lambda>_ _. True) table hs"
    "(\<lambda>_. {#}) = block_refs (None :: ('c, 'h, Block) Cache option) (\<lambda>_. {#})"
    by (simp_all add: fun_eq_iff block_env_def block_refs_def)
  moreover have "table_blocks C key_ok table ro hs = hs" using True by (simp add: table_blocks_def)
  ultimately show ?thesis
    using table_two_level [OF assms cache_laws_none, of table ro hs "\<lambda>_ _. True" "(\<lambda>_. {#}) :: 'c \<Rightarrow> 'h multiset"] True
    by (auto simp: block_room_def)
next
  case False
  then have none: "table_blk (table_blocks C key_ok table ro hs) h = None" for h by (auto simp: table_blocks_def table_blk_def)
  show ?thesis
    by (rule two_level.intro [OF any_iterator [OF assms]], rule two_level_axioms.intro [OF data_iterator [OF assms]])
       (auto simp: none TableBlocks_def tokens_le_one delete_DataIter_def data_view_def split: Cleanup.splits)
qed

interpretation bytewise_table: two_level BytewiseComparator "\<lambda>_. True" AnyBlockIter "any_view BytewiseComparator (\<lambda>_. True)"
  DataIter "data_view BytewiseComparator (\<lambda>_. True)" "TableBlocks None table ro" "\<lambda>_. True" "\<lambda>_. {#}" 2
  "table_blk (table_blocks BytewiseComparator (\<lambda>_. True) table ro hs)" for table ro hs
  by (rule uncached_two_level) (rule bytewise.comparator_axioms)

interpretation internal_table: two_level "InternalKeyComparator BytewiseComparator" "ikey_ok (\<lambda>_. True)" AnyBlockIter
  "any_view (InternalKeyComparator BytewiseComparator) (ikey_ok (\<lambda>_. True))"
  DataIter "data_view (InternalKeyComparator BytewiseComparator) (ikey_ok (\<lambda>_. True))" "TableBlocks None table ro" "\<lambda>_. True" "\<lambda>_. {#}" 2
  "table_blk (table_blocks (InternalKeyComparator BytewiseComparator) (ikey_ok (\<lambda>_. True)) table ro hs)" for table ro hs
  by (rule uncached_two_level) (rule internal.comparator_axioms)

end
