(* ===== verification/Table_Get.thy ===== *)
theory Table_Get imports Table_Blocks begin

section \<open>leveldb: opening a table that has the layout\<close>

definition block_handles :: "(u8 list \<times> kv list) list \<Rightarrow> (BlockHandle \<times> kv list) list" where
  "block_handles bs = map (\<lambda>j. (block_handle bs j, snd (bs ! j))) [0..<length bs]"

definition filter_answers :: "FilterPolicy \<Rightarrow> (Slice \<Rightarrow> bool) \<Rightarrow> FilterBlockReader \<Rightarrow> (u8 list \<times> kv list) list \<Rightarrow> bool" where
  "filter_answers p key_ok rd bs \<longleftrightarrow>
     (\<forall>j < length bs. \<forall>e \<in> set (snd (bs ! j)). FilterBlock_KeyMayMatch p rd (of_nat (block_offset bs j)) (fst e) = Some True) \<and>
     (\<forall>off k. key_ok k \<longrightarrow> FilterBlock_KeyMayMatch p rd off k \<noteq> None)"

lemma filter_ok_answers: "filter_ok p key_ok data bs \<Longrightarrow> \<exists>rd. mk_FilterBlockReader data = Some rd \<and> filter_answers p key_ok rd bs"
  unfolding filter_ok_def filter_answers_def by blast

text \<open>A table whose file has the layout, as \<open>Table::Open\<close> leaves it.\<close>

definition table_open :: "Options \<Rightarrow> (Slice \<Rightarrow> bool) \<Rightarrow> RandomAccessFile \<Rightarrow> (u8 list \<times> kv list) list \<Rightarrow> Slice list \<Rightarrow> Table \<Rightarrow> bool" where
  "table_open opt key_ok rf bs seps table \<longleftrightarrow> tab_options table = opt \<and> tab_file table = rf \<and>
     block_opens (tab_index_block table) (index_entries bs seps) \<and>
     (case opt_filter_policy opt of
        None \<Rightarrow> tab_filter table = None
      | Some p \<Rightarrow> \<exists>rd. tab_filter table = Some rd \<and> filter_answers p key_ok rd bs)"

lemma block_offset_less:
  assumes "i < j" "j < length bs"
  shows "block_offset bs i < block_offset bs j"
proof -
  have "block_offset bs (Suc i) = block_offset bs i + length (fst (bs ! i)) + 5"
    using assms by (simp add: block_offset_def take_Suc_conv_app_nth)
  moreover have "block_offset bs (Suc i) \<le> block_offset bs j" using assms(1) by (intro block_offset_mono) simp
  ultimately show ?thesis by linarith
qed

lemma block_handles_inj:
  assumes "length (data_bytes bs) < 2 ^ 32"
  shows "inj_on (bh_offset \<circ> fst) (set (block_handles bs))"
proof (rule inj_onI, goal_cases)
  case (1 x y)
  then obtain i j where ij: "i < length bs" "x = (block_handle bs i, snd (bs ! i))" "j < length bs" "y = (block_handle bs j, snd (bs ! j))"
    by (auto simp: block_handles_def)
  have "block_offset bs i < 2 ^ 64" "block_offset bs j < 2 ^ 64"
    using block_offset_bound [OF ij(1)] block_offset_bound [OF ij(3)] assms by simp_all
  moreover have "(of_nat (block_offset bs i) :: u64) = of_nat (block_offset bs j)"
    using 1(3) ij(2,4) by (simp add: block_handle_def)
  from arg_cong [OF this, of unat] have "block_offset bs i = block_offset bs j"
    using calculation by (simp add: unsigned_of_nat take_bit_nat_eq_self)
  then have "i = j" using block_offset_less [of i j bs] block_offset_less [of j i bs] ij(1,3) by (metis less_irrefl linorder_neqE_nat)
  with ij show ?case by simp
qed

lemma layout_parts:
  assumes "table_layout opt key_ok stored bs seps"
  shows "good_blocks bs" "length seps = length bs" "seps_bound (opt_comparator opt) key_ok seps (map snd bs)"
    "separated (opt_comparator opt) (butlast seps) (map snd bs)" "length stored < 2 ^ 32" "\<exists>rest. stored = data_bytes bs @ rest"
  using assms unfolding table_layout_def Let_def by blast+

lemma reads_raw:
  assumes "random_access_file rf stored" "tab_file table = rf" "block_at stored off d" "off + length d + 5 < 2 ^ 63" "length d < 2 ^ 32"
    "block_of d kvs"
  shows "reads table ro \<lparr>bh_offset = of_nat off, bh_size = of_nat (length d)\<rparr> kvs"
  using ReadBlock_raw [OF assms(1,3,4), of ro] assms(2,5,6) unfolding reads_def by blast

lemma data_bytes_count: "5 * length bs \<le> length (data_bytes bs)"
  by (induction bs) (simp_all add: data_bytes_def)

lemma good_handles_layout:
  assumes "table_layout opt key_ok stored bs seps" "random_access_file rf stored" "tab_file table = rf"
  shows "good_handles table ro (block_handles bs)"
proof -
  obtain rest where rest: "stored = data_bytes bs @ rest" using layout_parts(6) [OF assms(1)] by blast
  have small: "length stored < 2 ^ 32" by (rule layout_parts(5) [OF assms(1)])
  have "reads table ro (block_handle bs j) (snd (bs ! j))" if j: "j < length bs" for j
  proof -
    have "block_at stored (block_offset bs j) (fst (bs ! j))" unfolding rest by (rule block_at_data [OF j])
    moreover have "block_offset bs j + length (fst (bs ! j)) + 5 < 2 ^ 32"
      using block_offset_bound [OF j] small rest by simp
    moreover have "block_of (fst (bs ! j)) (snd (bs ! j))"
      using layout_parts(1) [OF assms(1)] j by (simp add: good_blocks_def)
    ultimately show ?thesis
      unfolding block_handle_def using reads_raw [OF assms(2,3), of "block_offset bs j" "fst (bs ! j)"] by simp
  qed
  moreover have "inj_on (bh_offset \<circ> fst) (set (block_handles bs))"
    using small rest by (intro block_handles_inj) simp
  moreover have "length bs \<le> 2 ^ 31"
    using data_bytes_count [of bs] small rest by simp
  ultimately show ?thesis by (auto simp: good_handles_def block_handles_def)
qed

lemma memory_read:
  assumes "random_access_file rf stored" "unat off + n \<le> length stored"
  obtains b where "file_ReadAt rf off n = (StatusOK, take n (drop (unat off) stored), b)"
  using random_access_file.read_at [OF assms(1), of off n] by blast

context table_options
begin

lemma index_ordered:
  assumes "table_layout opt key_ok stored bs seps" "ordered_entries (opt_comparator opt) key_ok (entries_of bs)"
  shows "ordered_entries (opt_comparator opt) key_ok (index_entries bs seps)"
proof -
  note parts = layout_parts [OF assms(1)]
  have og: "ordered_groups (map snd bs)" using assms(2) by (simp add: ordered_groups_def ordered_entries_def)
  have "\<forall>j < length seps. map snd bs ! j \<noteq> []" using parts(1,2) by (simp add: good_blocks_def)
  from seps_bound_sorted [OF og parts(3) this] have "sorted_wrt (\<lambda>a b. cmp (opt_comparator opt) a b < 0) seps" .
  moreover have "map fst (index_entries bs seps) = seps"
    by (intro nth_equalityI) (simp_all add: index_entries_def)
  moreover have "sorted_wrt (\<lambda>a b. cmp (opt_comparator opt) a b < 0) (map fst xs) = sorted_wrt (key_less (opt_comparator opt)) xs"
    for xs :: "kv list" by (simp add: sorted_wrt_map)
  ultimately have "sorted_wrt (key_less (opt_comparator opt)) (index_entries bs seps)" by metis
  moreover have "\<forall>e \<in> set (index_entries bs seps). key_ok (fst e)"
    using parts(3) by (auto simp: index_entries_def seps_bound_def)
  ultimately show ?thesis by (simp add: ordered_entries_def)
qed

lemma blocks_ordered:
  assumes "ordered_entries (opt_comparator opt) key_ok (entries_of bs)"
  shows "\<forall>(h, kvs) \<in> set (block_handles bs). ordered_entries (opt_comparator opt) key_ok kvs"
proof -
  have "ordered_entries (opt_comparator opt) key_ok (snd (bs ! j))" if "j < length bs" for j
    using sorted_concat(1) [of "key_less (opt_comparator opt)" "map snd bs" j] assms that
    by (auto simp: ordered_entries_def)
  then show ?thesis by (auto simp: block_handles_def)
qed

lemma ReadMeta_ok:
  assumes "random_access_file rf stored" "tab_file table = rf" "tab_options table = opt" "tab_filter table = None"
    "block_at stored moff meta" "moff + length meta + 5 < 2 ^ 32" "block_of meta (meta_entries opt fh)"
    "fh = \<lparr>bh_offset = of_nat foff, bh_size = of_nat (length fdata)\<rparr>"
    "ft_metaindex_handle ft = \<lparr>bh_offset = of_nat moff, bh_size = of_nat (length meta)\<rparr>"
    "\<And>p. opt_filter_policy opt = Some p \<Longrightarrow> block_at stored foff fdata \<and> foff + length fdata + 5 < 2 ^ 32 \<and> filter_ok p key_ok fdata bs"
  shows "\<exists>f. ReadMeta table ft = Some (table\<lparr>tab_filter := f\<rparr>) \<and>
    (case opt_filter_policy opt of None \<Rightarrow> f = None | Some p \<Rightarrow> \<exists>rd. f = Some rd \<and> filter_answers p key_ok rd bs)"
proof (cases "opt_filter_policy opt")
  case None
  then show ?thesis using assms(3,4) by (intro exI [of _ None]) (simp add: ReadMeta_def)
next
  case (Some p)
  let ?ro = "meta_read_options opt"
  obtain a where a: "ReadBlock rf ?ro (ft_metaindex_handle ft) = Some (StatusOK, \<lparr>bc_data = meta, bc_cachable = a, bc_heap_allocated = a\<rparr>)"
    using ReadBlock_raw [OF assms(1,5), of ?ro] assms(6,9) by auto
  obtain b where b: "mk_Block \<lparr>bc_data = meta, bc_cachable = a, bc_heap_allocated = a\<rparr> = Some b" "block_opens b (meta_entries opt fh)"
    using mk_Block_opens [OF assms(7)] assms(6) by fastforce
  have entries: "meta_entries opt fh = [(filter_key p, handle_bytes fh)]" using Some by (simp add: meta_entries_def)
  then have "ordered_entries BytewiseComparator (\<lambda>_. True) (meta_entries opt fh)" by (simp add: ordered_entries_def)
  from block_opens_view [OF b(2) this] obtain it where it: "Block_NewIterator BytewiseComparator b = Some it"
    "any_view BytewiseComparator (\<lambda>_. True) it (meta_entries opt fh) 1" by (auto simp: entries)
  have mem: "(filter_key p, handle_bytes fh) \<in> set (meta_entries opt fh)" by (simp add: entries)
  obtain it' where it': "iter_Seek AnyBlockIter it (filter_key p) = Some it'" "iter_Valid AnyBlockIter it'"
    "iter_key AnyBlockIter it' = Some (filter_key p)" "iter_value AnyBlockIter it' = Some (handle_bytes fh)"
    using ordered_iterator.seek_found [OF any_iterator [OF bytewise.comparator_axioms] it(2) mem] by blast
  from assms(10) [OF Some] have f: "block_at stored foff fdata" "foff + length fdata + 5 < 2 ^ 32" "filter_ok p key_ok fdata bs" by simp_all
  obtain c where c: "ReadBlock rf ?ro fh = Some (StatusOK, \<lparr>bc_data = fdata, bc_cachable = c, bc_heap_allocated = c\<rparr>)"
    using ReadBlock_raw [OF assms(1) f(1), of ?ro] f(2) assms(8) by auto
  obtain rd where rd: "mk_FilterBlockReader fdata = Some rd" "filter_answers p key_ok rd bs" using filter_ok_answers [OF f(3)] by blast
  have "BlockHandle_DecodeFrom mk_BlockHandle (handle_bytes fh) = (StatusOK, fh, [])"
    using BlockHandle_DecodeFrom_bytes [of mk_BlockHandle fh "[]"] by simp
  then have "ReadFilter table (handle_bytes fh) = Some (table\<lparr>tab_filter := Some rd\<rparr>)"
    using c rd(1) assms(2,3) by (simp add: ReadFilter_def)
  then have "ReadMeta table ft = Some (table\<lparr>tab_filter := Some rd\<rparr>)"
    using Some a b(1) it(1) it' assms(2,3) by (simp add: ReadMeta_def Let_def)
  with Some rd(2) show ?thesis by auto
qed

lemma Table_Open_ok:
  fixes c :: 'c and bc :: "('c, 'h, Block) Cache option"
  assumes "table_layout opt key_ok stored bs seps" "random_access_file rf stored"
  shows "\<exists>table. Table_Open bc opt rf (of_nat (length stored)) c =
      Some (StatusOK, Some table, case bc of None \<Rightarrow> c | Some cache \<Rightarrow> snd (cache_NewId cache c)) \<and>
    table_open opt key_ok rf bs seps table"
proof -
  obtain fdata meta idx where l: 
    "block_of meta (meta_entries opt \<lparr>bh_offset = of_nat (length (data_bytes bs)), bh_size = of_nat (length fdata)\<rparr>)"
    "block_of idx (index_entries bs seps)" "\<forall>p. opt_filter_policy opt = Some p \<longrightarrow> filter_ok p key_ok fdata bs"
    "stored = data_bytes bs @ filter_part opt fdata @ raw_block meta @ raw_block idx @
      footer_bytes \<lparr>ft_metaindex_handle = \<lparr>bh_offset = of_nat (length (data_bytes bs) + length (filter_part opt fdata)), bh_size = of_nat (length meta)\<rparr>,
        ft_index_handle = \<lparr>bh_offset = of_nat (length (data_bytes bs) + length (filter_part opt fdata) + length meta + 5), bh_size = of_nat (length idx)\<rparr>\<rparr>"
    using assms(1) unfolding table_layout_def Let_def by blast
  have small: "length stored < 2 ^ 32" by (rule layout_parts(5) [OF assms(1)])
  let ?D = "data_bytes bs" and ?F = "filter_part opt fdata"
  let ?ft = "\<lparr>ft_metaindex_handle = \<lparr>bh_offset = of_nat (length ?D + length ?F), bh_size = of_nat (length meta)\<rparr>,
        ft_index_handle = \<lparr>bh_offset = of_nat (length ?D + length ?F + length meta + 5), bh_size = of_nat (length idx)\<rparr>\<rparr>"
  define ft where "ft = ?ft"
  have stored: "stored = ?D @ ?F @ raw_block meta @ raw_block idx @ footer_bytes ft" using l(4) by (simp add: ft_def)
  have total: "length stored = length ?D + length ?F + length meta + length idx + 58" unfolding stored by simp
  have sz: "unat (of_nat (length stored) :: u64) = length stored"
    using small by (simp add: unsigned_of_nat take_bit_nat_eq_self)
  have ge: "\<not> of_nat (length stored) < (of_nat kEncodedLength :: u64)"
    using total sz by (simp add: word_less_nat_alt kEncodedLength_def kMaxEncodedLength_def)
  have "unat (of_nat (length stored) - of_nat kEncodedLength :: u64) = length stored - 48"
    using ge sz by (simp add: unat_sub not_less kEncodedLength_def kMaxEncodedLength_def)
  then obtain a where footer: "file_ReadAt rf (of_nat (length stored) - of_nat kEncodedLength) kEncodedLength =
      (StatusOK, footer_bytes ft, a)"
    using random_access_file.read_at [OF assms(2), of "of_nat (length stored) - of_nat kEncodedLength" kEncodedLength] total stored
    by (auto simp: kEncodedLength_def kMaxEncodedLength_def)
  have iat: "block_at stored (length ?D + length ?F + length meta + 5) idx"
    using block_at_middle [of "?D @ ?F @ raw_block meta" idx "footer_bytes ft"] stored by (simp add: add.assoc)
  obtain b where b: "ReadBlock rf (meta_read_options opt) (ft_index_handle ft) =
      Some (StatusOK, \<lparr>bc_data = idx, bc_cachable = b, bc_heap_allocated = b\<rparr>)"
    using ReadBlock_raw [OF assms(2) iat, of "meta_read_options opt"] small total by (auto simp: ft_def)
  obtain ib where ib: "mk_Block \<lparr>bc_data = idx, bc_cachable = b, bc_heap_allocated = b\<rparr> = Some ib" "block_opens ib (index_entries bs seps)"
    using mk_Block_opens [OF l(2), of b b] small total by fastforce
  define c' where "c' = (case bc of None \<Rightarrow> c | Some cache \<Rightarrow> snd (cache_NewId cache c))"
  define cid where "cid = (case bc of None \<Rightarrow> 0 | Some cache \<Rightarrow> fst (cache_NewId cache c))"
  have pair: "(case bc of None \<Rightarrow> (0, c) | Some cache \<Rightarrow> cache_NewId cache c) = (cid, c')"
    by (simp add: cid_def c'_def split: option.split)
  define table where "table = \<lparr>tab_options = opt, tab_file = rf, tab_cache_id = cid, tab_filter = None,
    tab_metaindex_handle = ft_metaindex_handle ft, tab_index_block = ib\<rparr>"
  have mat: "block_at stored (length ?D + length ?F) meta"
    using block_at_middle [of "?D @ ?F" meta "raw_block idx @ footer_bytes ft"] stored by simp
  have fat: "block_at stored (length ?D) fdata \<and> length ?D + length fdata + 5 < 2 ^ 32 \<and> filter_ok p key_ok fdata bs"
    if "opt_filter_policy opt = Some p" for p
    using block_at_middle [of ?D fdata "raw_block meta @ raw_block idx @ footer_bytes ft"] l(3) stored that total small
    by (simp add: filter_part_def)
  have "\<exists>f. ReadMeta table ft = Some (table\<lparr>tab_filter := f\<rparr>) \<and>
    (case opt_filter_policy opt of None \<Rightarrow> f = None | Some p \<Rightarrow> \<exists>rd. f = Some rd \<and> filter_answers p key_ok rd bs)"
    by (rule ReadMeta_ok [OF assms(2) _ _ _ mat _ l(1) refl _ fat]) (use total small in \<open>simp_all add: table_def ft_def\<close>)
  then obtain f where f: "ReadMeta table ft = Some (table\<lparr>tab_filter := f\<rparr>)"
    "case opt_filter_policy opt of None \<Rightarrow> f = None | Some p \<Rightarrow> \<exists>rd. f = Some rd \<and> filter_answers p key_ok rd bs" by blast
  have "Table_Open bc opt rf (of_nat (length stored)) c = Some (StatusOK, Some (table\<lparr>tab_filter := f\<rparr>), c')"
    unfolding Table_Open_def pair
    using ge footer Footer_DecodeFrom_bytes [of mk_Footer ft] b ib(1) f(1) [unfolded table_def] by (simp add: table_def)
  moreover have "table_open opt key_ok rf bs seps (table\<lparr>tab_filter := f\<rparr>)"
    using ib(2) f(2) by (simp add: table_open_def table_def split: option.splits)
  ultimately show ?thesis unfolding c'_def by blast
qed

end

section \<open>leveldb: a table returns what was put into it\<close>

text \<open>
  The composition of \<open>table_builder.cc\<close>, \<open>table.cc\<close> and what they use: iterating over a table that was
  built returns its entries, and looking up a key finds it, with any block cache that keeps its contract or without one.
\<close>

lemma seps_boundD:
  assumes "seps_bound C key_ok seps gs" "j < length seps"
  shows "key_ok (seps ! j)" "e \<in> set (gs ! j) \<Longrightarrow> cmp C (fst e) (seps ! j) \<le> 0"
    "j < i \<Longrightarrow> i < length gs \<Longrightarrow> e \<in> set (gs ! i) \<Longrightarrow> cmp C (seps ! j) (fst e) < 0"
  using assms unfolding seps_bound_def by blast+

context table_options
begin

lemma index_finds:
  assumes "table_layout opt key_ok stored bs seps" "ordered_entries (opt_comparator opt) key_ok (entries_of bs)"
    "i < length bs" "(k, v) \<in> set (snd (bs ! i))"
  shows "lower_bound (opt_comparator opt) k (index_entries bs seps) = i"
proof (rule lower_boundI)
  note parts = layout_parts [OF assms(1)]
  have sep: "\<And>j. j < length bs \<Longrightarrow> fst (index_entries bs seps ! j) = seps ! j" using parts(2) by (simp add: index_entries_def)
  have k: "key_ok k" using assms(2-4) by (force simp: ordered_entries_def)
  note bound = seps_boundD [OF parts(3), unfolded parts(2) length_map]
  show "cmp (opt_comparator opt) (fst (index_entries bs seps ! j)) k < 0" if "j < i" for j
    using bound(3) [of j i "(k, v)"] sep [of j] that assms(3,4) by simp
  have "cmp (opt_comparator opt) k (seps ! i) \<le> 0" "key_ok (seps ! i)"
    using bound(2) [of i "(k, v)"] bound(1) [of i] assms(3,4) by simp_all
  then show "\<not> cmp (opt_comparator opt) (fst (index_entries bs seps ! i)) k < 0"
    using cmp_flip(1) [of k "seps ! i"] k sep assms(3) by simp
  show "i \<le> length (index_entries bs seps)" using assms(3) parts(2) by simp
qed

lemma table_indexed:
  assumes "table_layout opt key_ok stored bs seps" "ordered_entries (opt_comparator opt) key_ok (entries_of bs)"
    "two_level (opt_comparator opt) key_ok II iview DI dview bf env_ok held room (table_blk (block_handles bs))"
    "inj_on (bh_offset \<circ> fst) (set (block_handles bs))"
  shows "two_level.indexed (opt_comparator opt) key_ok (table_blk (block_handles bs)) (index_entries bs seps) (map snd bs)"
  unfolding two_level.indexed_def [OF assms(3)]
proof (intro conjI allI impI ballI)
  note parts = layout_parts [OF assms(1)]
  note bound = seps_boundD [OF parts(3), unfolded parts(2) length_map]
  show "length (index_entries bs seps) = length (map snd bs)" using parts(2) by simp
  fix j
  have ix: "j < length bs \<Longrightarrow> index_entries bs seps ! j = (seps ! j, handle_bytes (block_handle bs j))"
    using parts(2) by (simp add: index_entries_def)
  show "table_blk (block_handles bs) (snd (index_entries bs seps ! j)) = Some (map snd bs ! j)" if "j < length (map snd bs)"
    using table_blk [OF assms(4), of "block_handle bs j" "snd (bs ! j)"] that ix by (auto simp: block_handles_def)
  show "map snd bs ! j \<noteq> []" if "j < length (map snd bs)" using parts(1) that by (simp add: good_blocks_def)
  show "key_ok (fst e)" "cmp (opt_comparator opt) (fst e) (fst (index_entries bs seps ! j)) \<le> 0"
    if "j < length (map snd bs)" "e \<in> set (map snd bs ! j)" for e
    using bound(2) [of j e] that ix assms(2) by (auto simp: ordered_entries_def)
  show "cmp (opt_comparator opt) (fst (index_entries bs seps ! j)) (fst e) < 0"
    if "Suc j < length (map snd bs)" "e \<in> set (map snd bs ! Suc j)" for e
    using bound(3) [of j "Suc j" e] that ix by simp
qed

lemma Table_NewIterator_ok:
  fixes bc :: "('c, 'h, Block) Cache option"
  assumes "table_layout opt key_ok stored bs seps" "ordered_entries (opt_comparator opt) key_ok (entries_of bs)"
    "random_access_file rf stored" "table_open opt key_ok rf bs seps table" "cache_laws bc valid_cache refs limit"
    "block_env bc valid_cache table (block_handles bs) c" "size (block_refs bc refs c) + 1 < block_room bc limit"
  shows "\<exists>view t. ordered_iterator (opt_comparator opt) key_ok (Table_Iter bc table ro) view \<and>
    Table_NewIterator bc table ro c = Some t \<and> view t (entries_of bs) (length (entries_of bs))"
proof -
  let ?C = "opt_comparator opt" and ?hs = "block_handles bs" and ?ix = "index_entries bs seps"
  have t: "tab_options table = opt" "tab_file table = rf" "block_opens (tab_index_block table) ?ix"
    using assms(4) by (simp_all add: table_open_def)
  have good: "good_handles table ro ?hs" by (rule good_handles_layout [OF assms(1,3) t(2)])
  have tl: "two_level ?C key_ok AnyBlockIter (any_view ?C key_ok) DataIter (data_view ?C key_ok) (TableBlocks bc table ro)
    (block_env bc valid_cache table ?hs) (block_refs bc refs) (block_room bc limit) (table_blk ?hs)"
    by (rule table_two_level [OF comparator_axioms assms(5) _ good blocks_ordered [OF assms(2)]]) (simp add: t(1))
  have "inj_on (bh_offset \<circ> fst) (set ?hs)" using good by (simp add: good_handles_def)
  note indexed = table_indexed [OF assms(1,2) tl this]
  obtain it where it: "Block_NewIterator ?C (tab_index_block table) = Some it" "any_view ?C key_ok it ?ix (length ?ix)"
    using block_opens_view [OF t(3) index_ordered [OF assms(1,2)]] by blast
  note I = any_iterator [OF comparator_axioms]
  obtain w where w: "wrapper_Set AnyBlockIter (Some it) mk_IteratorWrapper = Some w"
    "ordered_iterator.wrapper_at (any_view ?C key_ok) w ?ix (length ?ix)"
    using ordered_iterator.wrapper_Set_at [OF I it(2)] by blast
  define tl0 where "tl0 = \<lparr>tl_env = c, tl_status = StatusOK, tl_index_iter = w, tl_data_iter = mk_IteratorWrapper :: 'h DataIterator IteratorWrapper,
       tl_data_block_handle = []\<rparr>"
  have new: "Table_NewIterator bc table ro c = Some tl0"
    using it(1) w(1) t(1) by (simp add: Table_NewIterator_def NewTwoLevelIterator_def tl0_def)
  have none: "two_level.data_none (block_env bc valid_cache table ?hs) (block_refs bc refs) (block_room bc limit) tl0"
    using assms(6,7) by (simp add: two_level.data_none_def [OF tl] two_level.env_state_def [OF tl] tl0_def mk_IteratorWrapper_def)
  have "two_level.view2 ?C key_ok (any_view ?C key_ok) (data_view ?C key_ok)
      (block_env bc valid_cache table ?hs) (block_refs bc refs) (block_room bc limit) (table_blk ?hs) tl0 (entries_of bs) (length (entries_of bs))"
    unfolding two_level.view2_def [OF tl] two_level.positioned_def [OF tl] two_level.at_index_def [OF tl]
    using indexed w(2) none layout_parts(2) [OF assms(1)] assms(2)
    by (intro exI [of _ ?ix] exI [of _ "map snd bs"] conjI exI [of _ "length bs"])
       (simp_all add: tl0_def ordered_entries_def)
  with new two_level.two_level_iterator [OF tl] show ?thesis unfolding Table_Iter_def by blast
qed

end

text \<open>What a lookup must answer: a stored key is found with its value, and only stored entries are.\<close>

definition get_answer :: "Comparator \<Rightarrow> kv list \<Rightarrow> Slice \<Rightarrow> kv option \<Rightarrow> bool" where
  "get_answer C kvs k found \<longleftrightarrow> (\<forall>v. (k, v) \<in> set kvs \<longrightarrow> found = Some (k, v)) \<and>
     (\<forall>e. found = Some e \<longrightarrow> lower_bound C k kvs < length kvs \<and> e = kvs ! lower_bound C k kvs)"

context table_options
begin

lemma InternalGet_ok:
  fixes bc :: "('c, 'h, Block) Cache option"
  assumes "table_layout opt key_ok stored bs seps" "ordered_entries (opt_comparator opt) key_ok (entries_of bs)"
    "random_access_file rf stored" "table_open opt key_ok rf bs seps table" "cache_laws bc valid_cache refs limit"
    "block_env bc valid_cache table (block_handles bs) c" "key_ok k" "size (block_refs bc refs c) + 1 < block_room bc limit"
  shows "\<exists>found c'. InternalGet bc table ro c k = Some (StatusOK, found, c') \<and> get_answer (opt_comparator opt) (entries_of bs) k found \<and>
    block_env bc valid_cache table (block_handles bs) c' \<and> block_refs bc refs c' = block_refs bc refs c"
proof -
  let ?C = "opt_comparator opt" and ?hs = "block_handles bs" and ?ix = "index_entries bs seps"
  have t: "tab_options table = opt" "tab_file table = rf" "block_opens (tab_index_block table) ?ix"
    using assms(4) by (simp_all add: table_open_def)
  have good: "good_handles table ro ?hs" by (rule good_handles_layout [OF assms(1,3) t(2)])
  have tl: "two_level ?C key_ok AnyBlockIter (any_view ?C key_ok) DataIter (data_view ?C key_ok) (TableBlocks bc table ro)
    (block_env bc valid_cache table ?hs) (block_refs bc refs) (block_room bc limit) (table_blk ?hs)"
    by (rule table_two_level [OF comparator_axioms assms(5) _ good blocks_ordered [OF assms(2)]]) (simp add: t(1))
  have inj: "inj_on (bh_offset \<circ> fst) (set ?hs)" using good by (simp add: good_handles_def)
  note indexed = table_indexed [OF assms(1,2) tl inj]
  have ixo: "ordered_entries ?C key_ok ?ix" by (rule index_ordered [OF assms(1,2)])
  note I = any_iterator [OF comparator_axioms]
  obtain it0 where it0: "Block_NewIterator ?C (tab_index_block table) = Some it0" "any_view ?C key_ok it0 ?ix (length ?ix)"
    using block_opens_view [OF t(3) ixo] by blast
  define j where "j = lower_bound ?C k ?ix"
  obtain it where it: "iter_Seek AnyBlockIter it0 k = Some it" "any_view ?C key_ok it ?ix j"
    using ordered_iterator.seek [OF I it0(2) assms(7)] unfolding j_def by blast
  have status: "iter_status AnyBlockIter it = StatusOK" by (rule ordered_iterator.status [OF I it(2)])
  have len: "length ?ix = length bs" using layout_parts(2) [OF assms(1)] by simp
  have valid: "iter_Valid AnyBlockIter it \<longleftrightarrow> j < length bs" using ordered_iterator.valid [OF I it(2)] len by simp
  have found_in: "i = j" if "i < length bs" "(k, v) \<in> set (snd (bs ! i))" for i v
    using index_finds [OF assms(1,2) that] by (simp add: j_def)
  have stored_in: "j < length bs \<and> (k, v) \<in> set (snd (bs ! j))" if kv: "(k, v) \<in> set (entries_of bs)" for v
  proof -
    obtain i where "i < length bs" "(k, v) \<in> set (snd (bs ! i))" using kv by (auto simp: in_set_conv_nth [of _ bs])
    with found_in show ?thesis by blast
  qed
  show ?thesis
  proof (cases "j < length bs")
    case False
    with stored_in have "get_answer ?C (entries_of bs) k None" by (auto simp: get_answer_def)
    then show ?thesis
      using it0(1) it(1) valid False status t(1) assms(6) by (simp add: InternalGet_def)
  next
    case j: True
    let ?h = "block_handle bs j"
    have "?ix ! j = (seps ! j, handle_bytes ?h)" using j len by (simp add: index_entries_def)
    then have val: "iter_value AnyBlockIter it = Some (handle_bytes ?h)"
      using ordered_iterator.value_at [OF I it(2)] j len by simp
    have dec: "BlockHandle_DecodeFrom mk_BlockHandle (handle_bytes ?h) = (StatusOK, ?h, [])"
      using BlockHandle_DecodeFrom_bytes [of mk_BlockHandle ?h "[]"] by simp
    obtain ex where ex: "tab_filter table = None \<and> \<not> ex \<or> (\<exists>p rd. tab_filter table = Some rd \<and>
        opt_filter_policy opt = Some p \<and> FilterBlock_KeyMayMatch p rd (bh_offset ?h) k = Some (\<not> ex))"
      "ex \<Longrightarrow> \<forall>v. (k, v) \<notin> set (snd (bs ! j))"
    proof (cases "opt_filter_policy opt")
      case None
      then show thesis using that [of False] assms(4) by (simp add: table_open_def)
    next
      case (Some p)
      then obtain rd where rd: "tab_filter table = Some rd" "filter_answers p key_ok rd bs"
        using assms(4) by (auto simp: table_open_def)
      obtain m where m: "FilterBlock_KeyMayMatch p rd (bh_offset ?h) k = Some m"
        using rd(2) assms(7) unfolding filter_answers_def by blast
      have "m" if "(k, v) \<in> set (snd (bs ! j))" for v
      proof -
        have "\<forall>e \<in> set (snd (bs ! j)). FilterBlock_KeyMayMatch p rd (bh_offset ?h) (fst e) = Some True"
          using rd(2) j unfolding filter_answers_def by (simp add: block_handle_def)
        with that m show ?thesis by fastforce
      qed
      then show thesis using that [of "\<not> m"] rd(1) Some m by auto
    qed
    show ?thesis
    proof (cases ex)
      case True
      with ex(2) stored_in have "get_answer ?C (entries_of bs) k None" by (auto simp: get_answer_def)
      then show ?thesis
        using ex(1) True it0(1) it(1) valid j val dec status t(1) assms(6)
        by (elim disjE conjE exE) (simp_all add: InternalGet_def)
    next
      case False
      have hkv: "(?h, snd (bs ! j)) \<in> set ?hs" using j by (auto simp: block_handles_def)
      have bo: "ordered_entries (opt_comparator (tab_options table)) key_ok (snd (bs ! j))"
        using blocks_ordered [OF assms(2)] hkv t(1) by auto
      obtain d c1 r where d: "BlockReader bc table ro c (handle_bytes ?h) = Some (d, c1)"
        "data_view ?C key_ok r d (snd (bs ! j)) (length (snd (bs ! j)))"
        "block_env bc valid_cache table ?hs c1" "block_refs bc refs c1 = block_refs bc refs c + r"
        using BlockReader_ok [OF assms(5) good table_blk [OF inj hkv] assms(6) _ bo] assms(8) unfolding t(1) by fastforce
      define q where "q = lower_bound ?C k (snd (bs ! j))"
      note D = data_iterator [OF comparator_axioms]
      obtain d' where d': "iter_Seek DataIter d k = Some d'" "data_view ?C key_ok r d' (snd (bs ! j)) q"
        using ordered_iterator.seek [OF D d(2) assms(7)] unfolding q_def by blast
      have sub: "r \<subseteq># block_refs bc refs c1" using d(4) by simp
      obtain c2 where c2: "delete_DataIter bc c1 d' = Some c2" "block_env bc valid_cache table ?hs c2"
        "block_refs bc refs c2 = block_refs bc refs c"
        using delete_DataIter_ok [OF assms(5) d(3) d'(2) sub] d(4) by auto
      define found where "found = (if q < length (snd (bs ! j)) then Some (snd (bs ! j) ! q) else None)"
      have get: "(if iter_Valid DataIter d'
               then do { key \<leftarrow> iter_key DataIter d'; val \<leftarrow> iter_value DataIter d'; Some (Some (key, val)) }
               else Some None) = Some found"
        using ordered_iterator.valid [OF D d'(2)] ordered_iterator.key_at [OF D d'(2)] ordered_iterator.value_at [OF D d'(2)]
        by (simp add: found_def)
      have dstatus: "iter_status DataIter d' = StatusOK" by (rule ordered_iterator.status [OF D d'(2)])
      have "InternalGet bc table ro c k = Some (StatusOK, found, c2)"
        using ex(1) False it0(1) it(1) valid j val dec status t(1) d(1) d'(1) get dstatus c2(1)
        by (elim disjE conjE exE) (simp_all add: InternalGet_def)
      moreover have "get_answer ?C (entries_of bs) k found"
        unfolding get_answer_def
      proof (intro conjI allI impI)
        fix v assume "(k, v) \<in> set (entries_of bs)"
        with stored_in have "(k, v) \<in> set (snd (bs ! j))" by blast
        with ordered_iterator.lower_bound_key [OF D d(2)] show "found = Some (k, v)" by (simp add: found_def q_def)
      next
        fix e assume e: "found = Some e"
        then have q: "q < length (map snd bs ! j)" "e = map snd bs ! j ! q" using j by (auto simp: found_def split: if_splits)
        have ixk: "\<forall>e \<in> set ?ix. key_ok (fst e)" using ixo by (simp add: ordered_entries_def)
        have lb: "lower_bound ?C k (entries_of bs) = two_level.block_start (map snd bs) j + q"
          using two_level.lower_bound_concat [OF tl indexed ixk assms(7)] j by (simp add: j_def q_def)
        have jb: "j < length (map snd bs)" using j by simp
        from two_level.block_bound [OF tl jb q(1)] show "lower_bound ?C k (entries_of bs) < length (entries_of bs)"
          unfolding lb .
        from two_level.split_position [OF tl this [unfolded lb] jb q(1) refl] show "e = entries_of bs ! lower_bound ?C k (entries_of bs)"
          unfolding lb q(2) by simp
      qed
      ultimately show ?thesis using c2(2,3) by blast
    qed
  qed
qed

end

end
