(* ===== verification/Lru_Cache.thy ===== *)
theory Lru_Cache imports Ldb_Cache Bloom Ldb_Iterator begin

unbundle bit_operations_syntax

section \<open>leveldb: the LRU cache (util/cache.cc)\<close>

text \<open>
  The memory of a shard is a map from pointers to \<open>LRUHandle\<close>s: 0 is the null pointer, 1 and 2 are the members \<open>lru_\<close>
  and \<open>in_use_\<close>, and \<open>malloc\<close> takes the first address that was never used. \<open>None\<close> is an access to memory that
  is not there or was freed, or a failed \<open>assert\<close>. Values are Isabelle values; \<open>lc_deleted\<close> is the list of the calls of deleters.
  The counters \<open>refs\<close>, \<open>elems_\<close>, \<open>length_\<close> and the local ones of \<open>Resize\<close> are 32-bit words and wrap, charges are 64-bit words.
  A mutex has no counterpart: the operations of a cache run one at a time.
\<close>

type_synonym lru_ptr = nat

record 'v LRUHandle =
  lh_value :: "'v option"
  lh_next_hash :: lru_ptr
  lh_next :: lru_ptr
  lh_prev :: lru_ptr
  lh_charge :: u64
  lh_key :: Slice
  lh_in_cache :: bool
  lh_refs :: u32
  lh_hash :: u32

type_synonym 'v lru_heap = "lru_ptr \<Rightarrow> 'v LRUHandle option"

definition set_at :: "'v lru_heap \<Rightarrow> lru_ptr \<Rightarrow> ('v LRUHandle \<Rightarrow> 'v LRUHandle) \<Rightarrow> 'v lru_heap option" where
  "set_at hp p f = (case hp p of None \<Rightarrow> None | Some x \<Rightarrow> Some (hp(p \<mapsto> f x)))"

definition handle_key :: "'v lru_heap \<Rightarrow> lru_ptr \<Rightarrow> Slice option" where
  "handle_key hp p = do {
     x \<leftarrow> hp p;
     _ \<leftarrow> ensure (lh_next x \<noteq> p);
     Some (lh_key x)
   }"

subsection \<open>The hash table\<close>

text \<open>A value of type \<open>LRUHandle**\<close> points to an element of the array \<open>list_\<close> or to the \<open>next_hash\<close> of an entry.\<close>

record HandleTable =
  ht_length :: u32
  ht_elems :: u32
  ht_list :: "lru_ptr list"

datatype Slot = Bucket nat | Next_hash lru_ptr

definition read_slot :: "'v lru_heap \<Rightarrow> HandleTable \<Rightarrow> Slot \<Rightarrow> lru_ptr option" where
  "read_slot hp t s =
     (case s of
        Bucket i \<Rightarrow> if i < length (ht_list t) then Some (ht_list t ! i) else None
      | Next_hash p \<Rightarrow> map_option lh_next_hash (hp p))"

definition write_slot :: "'v lru_heap \<Rightarrow> HandleTable \<Rightarrow> Slot \<Rightarrow> lru_ptr \<Rightarrow> ('v lru_heap \<times> HandleTable) option" where
  "write_slot hp t s v =
     (case s of
        Bucket i \<Rightarrow> if i < length (ht_list t) then Some (hp, t\<lparr>ht_list := (ht_list t)[i := v]\<rparr>) else None
      | Next_hash p \<Rightarrow> do {
          hp \<leftarrow> set_at hp p (\<lambda>x. x\<lparr>lh_next_hash := v\<rparr>);
          Some (hp, t)
        })"

text \<open>\<open>hash & (length_ - 1)\<close>\<close>

definition bucket_of :: "u32 \<Rightarrow> u32 \<Rightarrow> nat" where
  "bucket_of hash n = unat (hash AND (n - 1))"

partial_function (option) find_loop :: "'v lru_heap \<Rightarrow> HandleTable \<Rightarrow> Slice \<Rightarrow> u32 \<Rightarrow> Slot \<Rightarrow> Slot option" where
  "find_loop hp t key hash ptr = do {
     p \<leftarrow> read_slot hp t ptr;
     if p = 0 then Some ptr
     else do {
       x \<leftarrow> hp p;
       differs \<leftarrow> (if lh_hash x \<noteq> hash then Some True else map_option (\<lambda>k. key \<noteq> k) (handle_key hp p));
       if differs then find_loop hp t key hash (Next_hash p) else Some ptr
     }
   }"

definition FindPointer :: "'v lru_heap \<Rightarrow> HandleTable \<Rightarrow> Slice \<Rightarrow> u32 \<Rightarrow> Slot option" where
  "FindPointer hp t key hash = find_loop hp t key hash (Bucket (bucket_of hash (ht_length t)))"

partial_function (option) resize_length :: "u32 \<Rightarrow> u32 \<Rightarrow> u32 option" where
  "resize_length new_length elems = (if new_length < elems then resize_length (new_length * 2) elems else Some new_length)"

partial_function (option) rehash_chain ::
  "'v lru_heap \<Rightarrow> lru_ptr list \<Rightarrow> u32 \<Rightarrow> lru_ptr \<Rightarrow> u32 \<Rightarrow> ('v lru_heap \<times> lru_ptr list \<times> u32) option" where
  "rehash_chain hp new_list new_length h cnt =
     (if h = 0 then Some (hp, new_list, cnt)
      else do {
        x \<leftarrow> hp h;
        let next = lh_next_hash x;
        let i = bucket_of (lh_hash x) new_length;
        _ \<leftarrow> ensure (i < length new_list);
        hp \<leftarrow> set_at hp h (\<lambda>x. x\<lparr>lh_next_hash := new_list ! i\<rparr>);
        rehash_chain hp (new_list[i := h]) new_length next (cnt + 1)
      })"

fun rehash_buckets ::
  "'v lru_heap \<Rightarrow> lru_ptr list \<Rightarrow> u32 \<Rightarrow> lru_ptr list \<Rightarrow> u32 \<Rightarrow> ('v lru_heap \<times> lru_ptr list \<times> u32) option" where
  "rehash_buckets hp new_list new_length [] cnt = Some (hp, new_list, cnt)"
| "rehash_buckets hp new_list new_length (h # hs) cnt = do {
     (hp, new_list, cnt) \<leftarrow> rehash_chain hp new_list new_length h cnt;
     rehash_buckets hp new_list new_length hs cnt
   }"

text \<open>The outer loop reads \<open>list_[0]\<close> to \<open>list_[length_ - 1]\<close>.\<close>

definition Resize :: "'v lru_heap \<Rightarrow> HandleTable \<Rightarrow> ('v lru_heap \<times> HandleTable) option" where
  "Resize hp t = do {
     new_length \<leftarrow> resize_length 4 (ht_elems t);
     _ \<leftarrow> ensure (unat (ht_length t) \<le> length (ht_list t));
     (hp, new_list, cnt) \<leftarrow> rehash_buckets hp (replicate (unat new_length) 0) new_length (take (unat (ht_length t)) (ht_list t)) 0;
     _ \<leftarrow> ensure (ht_elems t = cnt);
     Some (hp, t\<lparr>ht_list := new_list, ht_length := new_length\<rparr>)
   }"

definition mk_HandleTable :: "'v lru_heap \<Rightarrow> ('v lru_heap \<times> HandleTable) option" where
  "mk_HandleTable hp = Resize hp \<lparr>ht_length = 0, ht_elems = 0, ht_list = []\<rparr>"

definition HandleTable_Lookup :: "'v lru_heap \<Rightarrow> HandleTable \<Rightarrow> Slice \<Rightarrow> u32 \<Rightarrow> lru_ptr option" where
  "HandleTable_Lookup hp t key hash = do {
     ptr \<leftarrow> FindPointer hp t key hash;
     read_slot hp t ptr
   }"

definition HandleTable_Insert :: "'v lru_heap \<Rightarrow> HandleTable \<Rightarrow> lru_ptr \<Rightarrow> (lru_ptr \<times> 'v lru_heap \<times> HandleTable) option" where
  "HandleTable_Insert hp t h = do {
     key \<leftarrow> handle_key hp h;
     x \<leftarrow> hp h;
     ptr \<leftarrow> FindPointer hp t key (lh_hash x);
     old \<leftarrow> read_slot hp t ptr;
     next_hash \<leftarrow> (if old = 0 then Some 0 else map_option lh_next_hash (hp old));
     hp \<leftarrow> set_at hp h (\<lambda>x. x\<lparr>lh_next_hash := next_hash\<rparr>);
     (hp, t) \<leftarrow> write_slot hp t ptr h;
     (hp, t) \<leftarrow>
       (if old = 0
        then let t = t\<lparr>ht_elems := ht_elems t + 1\<rparr> in if ht_elems t > ht_length t then Resize hp t else Some (hp, t)
        else Some (hp, t));
     Some (old, hp, t)
   }"

definition HandleTable_Remove :: "'v lru_heap \<Rightarrow> HandleTable \<Rightarrow> Slice \<Rightarrow> u32 \<Rightarrow> (lru_ptr \<times> 'v lru_heap \<times> HandleTable) option" where
  "HandleTable_Remove hp t key hash = do {
     ptr \<leftarrow> FindPointer hp t key hash;
     result \<leftarrow> read_slot hp t ptr;
     (if result \<noteq> 0
      then do {
        x \<leftarrow> hp result;
        (hp, t) \<leftarrow> write_slot hp t ptr (lh_next_hash x);
        Some (result, hp, t\<lparr>ht_elems := ht_elems t - 1\<rparr>)
      }
      else Some (result, hp, t))
   }"

subsection \<open>A shard\<close>

record 'v LRUCache =
  lc_capacity :: u64
  lc_usage :: u64
  lc_table :: HandleTable
  lc_heap :: "'v lru_heap"
  lc_brk :: lru_ptr
  lc_deleted :: "(Slice \<times> 'v option) list"

definition lru_head :: lru_ptr where
  "lru_head = 1"

definition in_use_head :: lru_ptr where
  "in_use_head = 2"

definition list_head :: "lru_ptr \<Rightarrow> 'v LRUHandle" where
  "list_head p = \<lparr>lh_value = None, lh_next_hash = 0, lh_next = p, lh_prev = p, lh_charge = 0, lh_key = [],
     lh_in_cache = False, lh_refs = 0, lh_hash = 0\<rparr>"

definition mk_LRUCache :: "'v LRUCache option" where
  "mk_LRUCache = do {
     let hp = Map.empty(lru_head \<mapsto> list_head lru_head, in_use_head \<mapsto> list_head in_use_head);
     (hp, t) \<leftarrow> mk_HandleTable hp;
     Some \<lparr>lc_capacity = 0, lc_usage = 0, lc_table = t, lc_heap = hp, lc_brk = 3, lc_deleted = []\<rparr>
   }"

definition SetCapacity :: "'v LRUCache \<Rightarrow> u64 \<Rightarrow> 'v LRUCache" where
  "SetCapacity c capacity = c\<lparr>lc_capacity := capacity\<rparr>"

definition LRU_Remove :: "'v lru_heap \<Rightarrow> lru_ptr \<Rightarrow> 'v lru_heap option" where
  "LRU_Remove hp e = do {
     x \<leftarrow> hp e;
     hp \<leftarrow> set_at hp (lh_next x) (\<lambda>y. y\<lparr>lh_prev := lh_prev x\<rparr>);
     x \<leftarrow> hp e;
     set_at hp (lh_prev x) (\<lambda>y. y\<lparr>lh_next := lh_next x\<rparr>)
   }"

definition LRU_Append :: "'v lru_heap \<Rightarrow> lru_ptr \<Rightarrow> lru_ptr \<Rightarrow> 'v lru_heap option" where
  "LRU_Append hp l e = do {
     hp \<leftarrow> set_at hp e (\<lambda>x. x\<lparr>lh_next := l\<rparr>);
     y \<leftarrow> hp l;
     hp \<leftarrow> set_at hp e (\<lambda>x. x\<lparr>lh_prev := lh_prev y\<rparr>);
     x \<leftarrow> hp e;
     hp \<leftarrow> set_at hp (lh_prev x) (\<lambda>y. y\<lparr>lh_next := e\<rparr>);
     x \<leftarrow> hp e;
     set_at hp (lh_next x) (\<lambda>y. y\<lparr>lh_prev := e\<rparr>)
   }"

definition Ref :: "'v LRUCache \<Rightarrow> lru_ptr \<Rightarrow> 'v LRUCache option" where
  "Ref c e = do {
     let hp = lc_heap c;
     x \<leftarrow> hp e;
     hp \<leftarrow> (if lh_refs x = 1 \<and> lh_in_cache x then do { hp \<leftarrow> LRU_Remove hp e; LRU_Append hp in_use_head e } else Some hp);
     hp \<leftarrow> set_at hp e (\<lambda>x. x\<lparr>lh_refs := lh_refs x + 1\<rparr>);
     Some (c\<lparr>lc_heap := hp\<rparr>)
   }"

definition Unref :: "'v LRUCache \<Rightarrow> lru_ptr \<Rightarrow> 'v LRUCache option" where
  "Unref c e = do {
     let hp = lc_heap c;
     x \<leftarrow> hp e;
     _ \<leftarrow> ensure (lh_refs x > 0);
     hp \<leftarrow> set_at hp e (\<lambda>x. x\<lparr>lh_refs := lh_refs x - 1\<rparr>);
     x \<leftarrow> hp e;
     if lh_refs x = 0
     then do {
       _ \<leftarrow> ensure (\<not> lh_in_cache x);
       key \<leftarrow> handle_key hp e;
       Some (c\<lparr>lc_heap := hp(e := None), lc_deleted := lc_deleted c @ [(key, lh_value x)]\<rparr>)
     }
     else if lh_in_cache x \<and> lh_refs x = 1
     then do {
       hp \<leftarrow> LRU_Remove hp e;
       hp \<leftarrow> LRU_Append hp lru_head e;
       Some (c\<lparr>lc_heap := hp\<rparr>)
     }
     else Some (c\<lparr>lc_heap := hp\<rparr>)
   }"

definition LRUCache_Lookup :: "'v LRUCache \<Rightarrow> Slice \<Rightarrow> u32 \<Rightarrow> (lru_ptr \<times> 'v LRUCache) option" where
  "LRUCache_Lookup c key hash = do {
     e \<leftarrow> HandleTable_Lookup (lc_heap c) (lc_table c) key hash;
     c \<leftarrow> (if e \<noteq> 0 then Ref c e else Some c);
     Some (e, c)
   }"

definition LRUCache_Release :: "'v LRUCache \<Rightarrow> lru_ptr \<Rightarrow> 'v LRUCache option" where
  "LRUCache_Release c h = Unref c h"

definition FinishErase :: "'v LRUCache \<Rightarrow> lru_ptr \<Rightarrow> (bool \<times> 'v LRUCache) option" where
  "FinishErase c e = do {
     c \<leftarrow>
       (if e \<noteq> 0
        then do {
          x \<leftarrow> lc_heap c e;
          _ \<leftarrow> ensure (lh_in_cache x);
          hp \<leftarrow> LRU_Remove (lc_heap c) e;
          hp \<leftarrow> set_at hp e (\<lambda>x. x\<lparr>lh_in_cache := False\<rparr>);
          x \<leftarrow> hp e;
          Unref (c\<lparr>lc_usage := lc_usage c - lh_charge x, lc_heap := hp\<rparr>) e
        }
        else Some c);
     Some (e \<noteq> 0, c)
   }"

text \<open>\<open>FinishErase(table_.Remove(key, hash))\<close>\<close>

definition remove_key :: "'v LRUCache \<Rightarrow> Slice \<Rightarrow> u32 \<Rightarrow> (bool \<times> 'v LRUCache) option" where
  "remove_key c key hash = do {
     (e, hp, t) \<leftarrow> HandleTable_Remove (lc_heap c) (lc_table c) key hash;
     FinishErase (c\<lparr>lc_table := t, lc_heap := hp\<rparr>) e
   }"

text \<open>The body of the loops of \<open>Insert\<close> and \<open>Prune\<close>: the oldest entry of \<open>lru_\<close> leaves the cache.\<close>

definition remove_oldest :: "'v LRUCache \<Rightarrow> lru_ptr \<Rightarrow> 'v LRUCache option" where
  "remove_oldest c old = do {
     x \<leftarrow> lc_heap c old;
     _ \<leftarrow> ensure (lh_refs x = 1);
     key \<leftarrow> handle_key (lc_heap c) old;
     (erased, c) \<leftarrow> remove_key c key (lh_hash x);
     _ \<leftarrow> ensure erased;
     Some c
   }"

partial_function (option) evict_loop :: "'v LRUCache \<Rightarrow> 'v LRUCache option" where
  "evict_loop c = do {
     l \<leftarrow> lc_heap c lru_head;
     if lc_usage c > lc_capacity c \<and> lh_next l \<noteq> lru_head
     then do {
       c \<leftarrow> remove_oldest c (lh_next l);
       evict_loop c
     }
     else Some c
   }"

text \<open>\<open>next\<close>, \<open>prev\<close> and \<open>next_hash\<close> of a new entry are not initialised; nothing reads them before they are set.\<close>

definition LRUCache_Insert :: "'v LRUCache \<Rightarrow> Slice \<Rightarrow> u32 \<Rightarrow> 'v \<Rightarrow> u64 \<Rightarrow> (lru_ptr \<times> 'v LRUCache) option" where
  "LRUCache_Insert c key hash val charge = do {
     let e = lc_brk c;
     let hp = (lc_heap c)(e \<mapsto> \<lparr>lh_value = Some val, lh_next_hash = 0, lh_next = 0, lh_prev = 0, lh_charge = charge, lh_key = key,
       lh_in_cache = False, lh_refs = 1, lh_hash = hash\<rparr>);
     let c = c\<lparr>lc_heap := hp, lc_brk := e + 1\<rparr>;
     c \<leftarrow>
       (if lc_capacity c > 0
        then do {
          hp \<leftarrow> set_at (lc_heap c) e (\<lambda>x. x\<lparr>lh_refs := lh_refs x + 1\<rparr>);
          hp \<leftarrow> set_at hp e (\<lambda>x. x\<lparr>lh_in_cache := True\<rparr>);
          hp \<leftarrow> LRU_Append hp in_use_head e;
          let c = c\<lparr>lc_usage := lc_usage c + charge, lc_heap := hp\<rparr>;
          (old, hp, t) \<leftarrow> HandleTable_Insert (lc_heap c) (lc_table c) e;
          (_, c) \<leftarrow> FinishErase (c\<lparr>lc_table := t, lc_heap := hp\<rparr>) old;
          Some c
        }
        else do {
          hp \<leftarrow> set_at (lc_heap c) e (\<lambda>x. x\<lparr>lh_next := 0\<rparr>);
          Some (c\<lparr>lc_heap := hp\<rparr>)
        });
     c \<leftarrow> evict_loop c;
     Some (e, c)
   }"

definition LRUCache_Erase :: "'v LRUCache \<Rightarrow> Slice \<Rightarrow> u32 \<Rightarrow> 'v LRUCache option" where
  "LRUCache_Erase c key hash = map_option snd (remove_key c key hash)"

partial_function (option) LRUCache_Prune :: "'v LRUCache \<Rightarrow> 'v LRUCache option" where
  "LRUCache_Prune c = do {
     l \<leftarrow> lc_heap c lru_head;
     if lh_next l \<noteq> lru_head
     then do {
       c \<leftarrow> remove_oldest c (lh_next l);
       LRUCache_Prune c
     }
     else Some c
   }"

definition LRUCache_TotalCharge :: "'v LRUCache \<Rightarrow> u64" where
  "LRUCache_TotalCharge c = lc_usage c"

text \<open>\<open>~LRUCache()\<close>\<close>

partial_function (option) destroy_loop :: "'v LRUCache \<Rightarrow> lru_ptr \<Rightarrow> 'v LRUCache option" where
  "destroy_loop c e =
     (if e = lru_head then Some c
      else do {
        x \<leftarrow> lc_heap c e;
        let next = lh_next x;
        _ \<leftarrow> ensure (lh_in_cache x);
        hp \<leftarrow> set_at (lc_heap c) e (\<lambda>x. x\<lparr>lh_in_cache := False\<rparr>);
        _ \<leftarrow> ensure (lh_refs x = 1);
        c \<leftarrow> Unref (c\<lparr>lc_heap := hp\<rparr>) e;
        destroy_loop c next
      })"

definition delete_LRUCache :: "'v LRUCache \<Rightarrow> 'v LRUCache option" where
  "delete_LRUCache c = do {
     u \<leftarrow> lc_heap c in_use_head;
     _ \<leftarrow> ensure (lh_next u = in_use_head);
     l \<leftarrow> lc_heap c lru_head;
     destroy_loop c (lh_next l)
   }"

subsection \<open>The sharded cache\<close>

text \<open>A handle is the number of the shard that allocated it and its address there.\<close>

definition kNumShardBits :: nat where
  "kNumShardBits = 4"

definition kNumShards :: nat where
  "kNumShards = 2 ^ kNumShardBits"

record 'v ShardedLRUCache =
  sc_shards :: "'v LRUCache list"
  sc_last_id :: u64

definition HashSlice :: "Slice \<Rightarrow> u32 option" where
  "HashSlice s = Hash s 0"

definition Shard :: "u32 \<Rightarrow> nat" where
  "Shard hash = unat (drop_bit (32 - kNumShardBits) hash)"

definition NewLRUCache :: "u64 \<Rightarrow> 'v ShardedLRUCache option" where
  "NewLRUCache capacity = do {
     c \<leftarrow> mk_LRUCache;
     let per_shard = (capacity + (of_nat kNumShards - 1)) div of_nat kNumShards;
     Some \<lparr>sc_shards = map (\<lambda>s. SetCapacity s per_shard) (replicate kNumShards c), sc_last_id = 0\<rparr>
   }"

definition get_shard :: "'v ShardedLRUCache \<Rightarrow> nat \<Rightarrow> 'v LRUCache option" where
  "get_shard sc i = (if i < length (sc_shards sc) then Some (sc_shards sc ! i) else None)"

definition put_shard :: "'v ShardedLRUCache \<Rightarrow> nat \<Rightarrow> 'v LRUCache \<Rightarrow> 'v ShardedLRUCache" where
  "put_shard sc i c = sc\<lparr>sc_shards := (sc_shards sc)[i := c]\<rparr>"

definition read_handle :: "'v ShardedLRUCache \<Rightarrow> nat \<times> lru_ptr \<Rightarrow> 'v LRUHandle option" where
  "read_handle sc h = do {
     c \<leftarrow> get_shard sc (fst h);
     lc_heap c (snd h)
   }"

definition Sharded_Insert :: "'v ShardedLRUCache \<Rightarrow> Slice \<Rightarrow> 'v \<Rightarrow> nat \<Rightarrow> ((nat \<times> lru_ptr) \<times> 'v ShardedLRUCache) option" where
  "Sharded_Insert sc key val charge = do {
     hash \<leftarrow> HashSlice key;
     c \<leftarrow> get_shard sc (Shard hash);
     (e, c) \<leftarrow> LRUCache_Insert c key hash val (of_nat charge);
     Some ((Shard hash, e), put_shard sc (Shard hash) c)
   }"

definition Sharded_Lookup :: "'v ShardedLRUCache \<Rightarrow> Slice \<Rightarrow> ((nat \<times> lru_ptr) option \<times> 'v ShardedLRUCache) option" where
  "Sharded_Lookup sc key = do {
     hash \<leftarrow> HashSlice key;
     c \<leftarrow> get_shard sc (Shard hash);
     (e, c) \<leftarrow> LRUCache_Lookup c key hash;
     Some (if e = 0 then None else Some (Shard hash, e), put_shard sc (Shard hash) c)
   }"

text \<open>The entry is in the memory of the shard its hash selects; another shard would not find it.\<close>

definition Sharded_Release :: "'v ShardedLRUCache \<Rightarrow> nat \<times> lru_ptr \<Rightarrow> 'v ShardedLRUCache option" where
  "Sharded_Release sc h = do {
     x \<leftarrow> read_handle sc h;
     _ \<leftarrow> ensure (Shard (lh_hash x) = fst h);
     c \<leftarrow> get_shard sc (Shard (lh_hash x));
     c \<leftarrow> LRUCache_Release c (snd h);
     Some (put_shard sc (Shard (lh_hash x)) c)
   }"

definition Sharded_Erase :: "'v ShardedLRUCache \<Rightarrow> Slice \<Rightarrow> 'v ShardedLRUCache option" where
  "Sharded_Erase sc key = do {
     hash \<leftarrow> HashSlice key;
     c \<leftarrow> get_shard sc (Shard hash);
     c \<leftarrow> LRUCache_Erase c key hash;
     Some (put_shard sc (Shard hash) c)
   }"

definition Sharded_Value :: "'v ShardedLRUCache \<Rightarrow> nat \<times> lru_ptr \<Rightarrow> 'v option" where
  "Sharded_Value sc h = read_handle sc h \<bind> lh_value"

definition NewId :: "'v ShardedLRUCache \<Rightarrow> u64 \<times> 'v ShardedLRUCache" where
  "NewId sc = (let n = sc_last_id sc + 1 in (n, sc\<lparr>sc_last_id := n\<rparr>))"

fun prune_shards :: "'v LRUCache list \<Rightarrow> 'v LRUCache list option" where
  "prune_shards [] = Some []"
| "prune_shards (c # cs) = do {
     c \<leftarrow> LRUCache_Prune c;
     cs \<leftarrow> prune_shards cs;
     Some (c # cs)
   }"

definition Sharded_Prune :: "'v ShardedLRUCache \<Rightarrow> 'v ShardedLRUCache option" where
  "Sharded_Prune sc = map_option (\<lambda>cs. sc\<lparr>sc_shards := cs\<rparr>) (prune_shards (sc_shards sc))"

text \<open>\<open>~ShardedLRUCache()\<close> destroys the elements of \<open>shard_\<close>.\<close>

fun delete_shards :: "'v LRUCache list \<Rightarrow> 'v LRUCache list option" where
  "delete_shards [] = Some []"
| "delete_shards (c # cs) = do {
     cs \<leftarrow> delete_shards cs;
     c \<leftarrow> delete_LRUCache c;
     Some (c # cs)
   }"

definition TotalCharge :: "'v ShardedLRUCache \<Rightarrow> nat" where
  "TotalCharge sc = unat (foldl (\<lambda>total c. total + LRUCache_TotalCharge c) 0 (sc_shards sc))"

definition ShardedLRUCache_ops :: "('v ShardedLRUCache, nat \<times> lru_ptr, 'v) Cache" where
  "ShardedLRUCache_ops =
     \<lparr>cache_Insert = Sharded_Insert, cache_Lookup = Sharded_Lookup, cache_Release = Sharded_Release, cache_Value = Sharded_Value,
      cache_Erase = Sharded_Erase, cache_NewId = NewId, cache_Prune = Sharded_Prune, cache_TotalCharge = TotalCharge\<rparr>"

end
