(* ===== verification/Lru_Table.thy ===== *)
theory Lru_Table imports Lru_Cache "HOL-Library.Multiset" begin

section \<open>leveldb: the linked lists and the hash table of the LRU cache\<close>

text \<open>
  What the pointers of a shard represent: \<open>dpath\<close> is a segment of a doubly linked list, \<open>chain\<close> a chain of
  \<open>next_hash\<close> pointers, \<open>buckets\<close> an array of chains with the set of its entries. An operation on the lists changes \<open>next\<close> and \<open>prev\<close>
  only (\<open>relink\<close>), one on the table \<open>next_hash\<close> only (\<open>rechain\<close>).
\<close>

definition nx :: "'v lru_heap \<Rightarrow> lru_ptr \<Rightarrow> lru_ptr" where "nx hp a = lh_next (the (hp a))"
definition pv :: "'v lru_heap \<Rightarrow> lru_ptr \<Rightarrow> lru_ptr" where "pv hp a = lh_prev (the (hp a))"
definition nh :: "'v lru_heap \<Rightarrow> lru_ptr \<Rightarrow> lru_ptr" where "nh hp a = lh_next_hash (the (hp a))"
definition key_at :: "'v lru_heap \<Rightarrow> lru_ptr \<Rightarrow> Slice" where "key_at hp a = lh_key (the (hp a))"
definition hash_at :: "'v lru_heap \<Rightarrow> lru_ptr \<Rightarrow> u32" where "hash_at hp a = lh_hash (the (hp a))"

definition rechain :: "(lru_ptr \<Rightarrow> lru_ptr) \<Rightarrow> 'v lru_heap \<Rightarrow> 'v lru_heap" where
  "rechain f hp = (\<lambda>a. map_option (\<lambda>x. x\<lparr>lh_next_hash := f a\<rparr>) (hp a))"

definition relink :: "(lru_ptr \<Rightarrow> lru_ptr) \<Rightarrow> (lru_ptr \<Rightarrow> lru_ptr) \<Rightarrow> 'v lru_heap \<Rightarrow> 'v lru_heap" where
  "relink n p hp = (\<lambda>a. map_option (\<lambda>x. x\<lparr>lh_next := n a, lh_prev := p a\<rparr>) (hp a))"

lemma rechain_rechain [simp]: "rechain g (rechain f hp) = rechain g hp"
  by (simp add: rechain_def option.map_comp comp_def)

lemma rechain_same [simp]: "rechain (nh hp) hp = hp"
  unfolding rechain_def nh_def by (rule ext) (simp add: map_option_case split: option.splits)

lemma dom_rechain [simp]: "dom (rechain f hp) = dom hp"
  by (auto simp: rechain_def)

lemma rechain_at: "rechain f hp a = map_option (\<lambda>x. x\<lparr>lh_next_hash := f a\<rparr>) (hp a)"
  by (simp add: rechain_def)

lemma relink_at: "relink n p hp a = map_option (\<lambda>x. x\<lparr>lh_next := n a, lh_prev := p a\<rparr>) (hp a)"
  by (simp add: relink_def)

lemma fields_rechain [simp]:
  assumes "a \<in> dom hp"
  shows "nh (rechain f hp) a = f a" "nx (rechain f hp) a = nx hp a" "pv (rechain f hp) a = pv hp a"
    "key_at (rechain f hp) a = key_at hp a" "hash_at (rechain f hp) a = hash_at hp a"
  using assms by (auto simp: rechain_def nh_def nx_def pv_def key_at_def hash_at_def)

lemma fields_relink [simp]:
  assumes "a \<in> dom hp"
  shows "nx (relink n p hp) a = n a" "pv (relink n p hp) a = p a" "nh (relink n p hp) a = nh hp a"
    "key_at (relink n p hp) a = key_at hp a" "hash_at (relink n p hp) a = hash_at hp a"
  using assms by (auto simp: relink_def nh_def nx_def pv_def key_at_def hash_at_def)

lemma dom_relink [simp]: "dom (relink n p hp) = dom hp"
  by (auto simp: relink_def)

lemma set_next_hash: "a \<in> dom hp \<Longrightarrow> set_at hp a (\<lambda>x. x\<lparr>lh_next_hash := v\<rparr>) = Some (rechain ((nh hp)(a := v)) hp)"
  by (auto simp: set_at_def rechain_def nh_def fun_eq_iff map_option_case split: option.splits)

subsection \<open>Chains\<close>

fun chain :: "(lru_ptr \<Rightarrow> lru_ptr) \<Rightarrow> lru_ptr \<Rightarrow> lru_ptr list \<Rightarrow> bool" where
  "chain f p [] \<longleftrightarrow> p = 0"
| "chain f p (x # xs) \<longleftrightarrow> p = x \<and> x \<noteq> 0 \<and> chain f (f x) xs"

lemma chain_cong: "(\<And>a. a \<in> set xs \<Longrightarrow> f a = g a) \<Longrightarrow> chain f p xs = chain g p xs"
  by (induction xs arbitrary: p) auto

lemma chain_not_null: "chain f p xs \<Longrightarrow> 0 \<notin> set xs"
  by (induction xs arbitrary: p) auto

text \<open>The pointer to the first entry of \<open>zs\<close> in a chain \<open>ys @ zs\<close> that starts at \<open>s\<close>.\<close>

definition slot_after :: "Slot \<Rightarrow> lru_ptr list \<Rightarrow> Slot" where
  "slot_after s ys = (if ys = [] then s else Next_hash (last ys))"

definition first_of :: "lru_ptr list \<Rightarrow> lru_ptr" where
  "first_of zs = (case zs of [] \<Rightarrow> 0 | z # _ \<Rightarrow> z)"

lemma chain_first: "chain f p xs \<Longrightarrow> p = first_of xs"
  by (cases xs) (simp_all add: first_of_def)

lemma chain_append_last: "chain f p (ys @ zs) \<Longrightarrow> ys \<noteq> [] \<Longrightarrow> chain f (f (last ys)) zs"
  by (induction ys arbitrary: p) auto

lemma chain_tail: "chain f p (ys @ zs) \<Longrightarrow> chain f (first_of zs) zs"
  by (induction ys arbitrary: p) (use chain_first in auto)

lemma chain_redirect:
  "chain f p (ys @ zs) \<Longrightarrow> ys \<noteq> [] \<Longrightarrow> distinct ys \<Longrightarrow> chain g v ws \<Longrightarrow> last ys \<notin> set ws \<Longrightarrow>
   (\<And>a. a \<in> set ys \<Longrightarrow> a \<noteq> last ys \<Longrightarrow> g a = f a) \<Longrightarrow> chain (g(last ys := v)) p (ys @ ws)"
proof (induction ys arbitrary: p)
  case (Cons y ys)
  show ?case
  proof (cases "ys = []")
    case True
    have "chain (g(y := v)) v ws = chain g v ws" by (rule chain_cong) (use Cons.prems True in auto)
    with True show ?thesis using Cons.prems by (auto simp del: fun_upd_apply simp: fun_upd_same)
  next
    case False
    then have "chain (g(last ys := v)) (f y) (ys @ ws)" using Cons.prems by (intro Cons.IH) auto
    moreover have "y \<noteq> last ys" using False Cons.prems(3) by auto
    ultimately show ?thesis using Cons.prems False by (auto simp del: fun_upd_apply simp: fun_upd_other)
  qed
qed simp

subsection \<open>Finding an entry\<close>

text \<open>\<open>hf\<close> is the hash function of the keys.\<close>

definition entry_ok :: "'v lru_heap \<Rightarrow> (Slice \<Rightarrow> u32) \<Rightarrow> lru_ptr \<Rightarrow> bool" where
  "entry_ok hp hf a \<longleftrightarrow> a \<in> dom hp \<and> a \<noteq> 0 \<and> nx hp a \<noteq> a \<and> hash_at hp a = hf (key_at hp a)"

lemma entry_ok_rechain [simp]: "entry_ok (rechain f hp) hf a = entry_ok hp hf a"
  by (cases "a \<in> dom hp") (simp_all add: entry_ok_def)

lemma handle_key_ok: "entry_ok hp hf a \<Longrightarrow> handle_key hp a = Some (key_at hp a)"
  by (auto simp: entry_ok_def handle_key_def nx_def key_at_def)

lemma find_loop_ok:
  assumes "read_slot hp t s = Some p" "chain (nh hp) p xs" "\<forall>a \<in> set xs. entry_ok hp hf a"
  shows "find_loop hp t k (hf k) s = Some (slot_after s (takeWhile (\<lambda>a. key_at hp a \<noteq> k) xs))"
  using assms
proof (induction xs arbitrary: s p)
  case Nil
  then show ?case by (subst find_loop.simps) (simp add: slot_after_def)
next
  case (Cons x xs)
  then have x: "p = x" "entry_ok hp hf x" by simp_all
  then obtain y where y: "hp x = Some y" by (auto simp: entry_ok_def)
  have hash: "lh_hash y = hf (key_at hp x)" using x(2) y by (simp add: entry_ok_def hash_at_def)
  have d: "(if lh_hash y \<noteq> hf k then Some True else map_option (\<lambda>k'. k \<noteq> k') (handle_key hp x)) = Some (key_at hp x \<noteq> k)"
    using hash handle_key_ok [OF x(2)] by auto
  show ?case
  proof (cases "key_at hp x = k")
    case True
    then show ?thesis using Cons.prems x y d by (subst find_loop.simps) (simp add: slot_after_def entry_ok_def)
  next
    case False
    have "find_loop hp t k (hf k) (Next_hash x) = Some (slot_after (Next_hash x) (takeWhile (\<lambda>a. key_at hp a \<noteq> k) xs))"
      by (rule Cons.IH [of _ "nh hp x"]) (use Cons.prems x y in \<open>simp_all add: read_slot_def nh_def\<close>)
    then show ?thesis using Cons.prems x y d False by (subst find_loop.simps) (simp add: slot_after_def entry_ok_def)
  qed
qed

lemma read_slot_after:
  assumes "read_slot hp t s = Some p" "chain (nh hp) p (ys @ zs)" "set ys \<subseteq> dom hp"
  shows "read_slot hp t (slot_after s ys) = Some (first_of zs)"
proof (cases "ys = []")
  case False
  then obtain y where "hp (last ys) = Some y" using assms(3) by (meson domD last_in_set subsetD)
  moreover have "nh hp (last ys) = first_of zs" by (rule chain_first [OF chain_append_last [OF assms(2) False]])
  ultimately show ?thesis using False by (simp add: slot_after_def read_slot_def nh_def)
qed (use assms chain_first in \<open>simp add: slot_after_def\<close>)

subsection \<open>Arrays of chains\<close>

definition buckets :: "'v lru_heap \<Rightarrow> lru_ptr list \<Rightarrow> lru_ptr list list \<Rightarrow> lru_ptr set \<Rightarrow> bool" where
  "buckets hp bl bss E \<longleftrightarrow> length bss = length bl \<and> finite E \<and> mset (concat bss) = mset_set E \<and>
     (\<forall>i < length bss. chain (nh hp) (bl ! i) (bss ! i) \<and> (\<forall>a \<in> set (bss ! i). bucket_of (hash_at hp a) (of_nat (length bl)) = i))"

lemma bucket_of_less: "0 < n \<Longrightarrow> bucket_of h (of_nat n) < n"
proof -
  assume "0 < n"
  then have "(of_nat n - 1 :: u32) = of_nat (n - 1)" by (simp add: of_nat_diff)
  then have "bucket_of h (of_nat n) \<le> unat (of_nat (n - 1) :: u32)"
    using word_and_le1 [of h "of_nat (n - 1) :: u32"] by (simp add: bucket_of_def word_le_nat_alt)
  also have "\<dots> \<le> n - 1" by (simp add: unsigned_of_nat take_bit_eq_mod)
  finally show ?thesis using \<open>0 < n\<close> by simp
qed

lemma mset_concat_update:
  assumes "i < length bss"
  shows "mset (concat (bss[i := ys])) + mset (bss ! i) = mset (concat bss) + mset ys"
proof -
  have "concat bss = concat (take i bss) @ bss ! i @ concat (drop (Suc i) bss)"
    by (metis assms concat.simps(2) concat_append id_take_nth_drop)
  moreover have "concat (bss[i := ys]) = concat (take i bss) @ ys @ concat (drop (Suc i) bss)"
    using assms by (simp add: upd_conv_take_nth_drop)
  ultimately show ?thesis by (simp add: ac_simps)
qed

lemma buckets_set: "buckets hp bl bss E \<Longrightarrow> set (concat bss) = E \<and> distinct (concat bss) \<and> length (concat bss) = card E"
proof -
  assume b: "buckets hp bl bss E"
  then have m: "mset (concat bss) = mset_set E" "finite E" by (simp_all add: buckets_def)
  have "set (concat bss) = E" using m by (metis finite_set_mset_mset_set set_mset_mset)
  moreover have "length (concat bss) = card E" using m by (metis size_mset size_mset_set)
  ultimately show ?thesis by (metis card_distinct)
qed

lemma buckets_member:
  assumes "buckets hp bl bss E" "a \<in> E"
  shows "bucket_of (hash_at hp a) (of_nat (length bl)) < length bss \<and> a \<in> set (bss ! bucket_of (hash_at hp a) (of_nat (length bl)))"
proof -
  from buckets_set [OF assms(1)] assms(2) obtain i where "i < length bss" "a \<in> set (bss ! i)"
    by (auto simp: in_set_conv_nth [of _ bss])
  then show ?thesis using assms(1) by (auto simp: buckets_def)
qed

text \<open>A chain replaced.\<close>

lemma buckets_update:
  assumes "buckets hp bl bss E" "i < length bl" "finite E'" "mset (bss ! i) + mset_set E' = mset_set E + mset ys"
    "\<And>j. j < length bl \<Longrightarrow> j \<noteq> i \<Longrightarrow> \<forall>a \<in> set (bss ! j). f a = nh hp a" "chain f v ys"
    "\<forall>a \<in> set ys. bucket_of (hash_at hp a) (of_nat (length bl)) = i" "E \<union> E' \<subseteq> dom hp"
  shows "buckets (rechain f hp) (bl[i := v]) (bss[i := ys]) E'"
proof -
  note b = assms(1) [unfolded buckets_def]
  have "mset (concat (bss[i := ys])) + mset (bss ! i) = mset_set E' + mset (bss ! i)"
    using mset_concat_update [of i bss ys] b assms(2,4) by (simp add: ac_simps)
  then have m: "mset (concat (bss[i := ys])) = mset_set E'" by simp
  have dom: "set (bss ! j) \<subseteq> dom hp" if "j < length bl" for j
  proof -
    have "bss ! j \<in> set bss" using b that by simp
    then have "set (bss ! j) \<subseteq> set (concat bss)" by (metis UN_upper set_concat)
    with buckets_set [OF assms(1)] assms(8) show ?thesis by blast
  qed
  have ysE: "set ys \<subseteq> dom hp"
  proof -
    have "ys \<in> set (bss[i := ys])" using assms(2) b by (simp add: set_update_memI)
    then have "set ys \<subseteq> set (concat (bss[i := ys]))" by (metis UN_upper set_concat)
    also have "\<dots> = E'" by (metis assms(3) finite_set_mset_mset_set m set_mset_mset)
    finally show ?thesis using assms(8) by blast
  qed
  have "chain (nh (rechain f hp)) (bl[i := v] ! j) (bss[i := ys] ! j) \<and>
      (\<forall>a \<in> set (bss[i := ys] ! j). bucket_of (hash_at (rechain f hp) a) (of_nat (length bl)) = j)" if j: "j < length bl" for j
  proof (cases "j = i")
    case True
    have "chain (nh (rechain f hp)) v ys = chain f v ys" by (rule chain_cong) (rule fields_rechain(1) [OF subsetD [OF ysE]])
    moreover have "hash_at (rechain f hp) a = hash_at hp a" if "a \<in> set ys" for a
      by (rule fields_rechain(5) [OF subsetD [OF ysE that]])
    ultimately show ?thesis using True assms(2,6,7) b by simp
  next
    case False
    have "chain (nh (rechain f hp)) (bl ! j) (bss ! j) = chain (nh hp) (bl ! j) (bss ! j)"
    proof (rule chain_cong)
      fix a assume a: "a \<in> set (bss ! j)"
      show "nh (rechain f hp) a = nh hp a"
        using assms(5) [OF j False] a by (simp add: fields_rechain(1) [OF subsetD [OF dom [OF j] a]])
    qed
    moreover have "hash_at (rechain f hp) a = hash_at hp a" if "a \<in> set (bss ! j)" for a
      by (rule fields_rechain(5) [OF subsetD [OF dom [OF j] that]])
    ultimately show ?thesis using False j b by simp
  qed
  with m assms(3) b show ?thesis by (simp add: buckets_def)
qed

lemma rechain_cong: "(\<And>a. a \<in> dom hp \<Longrightarrow> f a = g a) \<Longrightarrow> rechain f hp = rechain g hp"
  unfolding rechain_def by (rule ext) (simp add: map_option_case domI split: option.splits)

lemma set_next_hash_rechain:
  assumes "a \<in> dom hp"
  shows "set_at (rechain g hp) a (\<lambda>x. x\<lparr>lh_next_hash := v\<rparr>) = Some (rechain (g(a := v)) hp)"
proof -
  have "rechain ((nh (rechain g hp))(a := v)) hp = rechain (g(a := v)) hp" by (rule rechain_cong) simp
  then show ?thesis using set_next_hash [of a "rechain g hp" v] assms by simp
qed

lemma buckets_disjoint:
  assumes "buckets hp bl bss E" "i < length bl" "j < length bl" "i \<noteq> j" "a \<in> set (bss ! i)"
  shows "a \<notin> set (bss ! j)"
  using assms unfolding buckets_def by metis

lemma buckets_at:
  assumes "buckets hp bl bss E" "i < length bl"
  shows "chain (nh hp) (bl ! i) (bss ! i)" "distinct (bss ! i)" "set (bss ! i) \<subseteq> E" "length bss = length bl"
    "a \<in> set (bss ! i) \<Longrightarrow> bucket_of (hash_at hp a) (of_nat (length bl)) = i"
proof -
  show len: "length bss = length bl" and "chain (nh hp) (bl ! i) (bss ! i)"
    and "a \<in> set (bss ! i) \<Longrightarrow> bucket_of (hash_at hp a) (of_nat (length bl)) = i"
    using assms by (auto simp: buckets_def)
  have "bss ! i \<in> set bss" using assms(2) len by simp
  then show "distinct (bss ! i)" "set (bss ! i) \<subseteq> E" using buckets_set [OF assms(1)] by (auto simp: distinct_concat_iff)
qed

text \<open>Writing the slot after \<open>ys\<close> replaces the rest of the chain.\<close>

lemma write_slot_ok:
  assumes "buckets hp (ht_list t) bss E" "i < length (ht_list t)" "bss ! i = ys @ zs" "finite E'"
    "mset zs + mset_set E' = mset_set E + mset ws" "\<And>a. a \<in> E \<Longrightarrow> g a = nh hp a" "chain g v ws" "set ys \<inter> set ws = {}"
    "\<forall>a \<in> set ws. bucket_of (hash_at hp a) (of_nat (length (ht_list t))) = i" "E \<union> E' \<subseteq> dom hp"
  shows "\<exists>f bl. write_slot (rechain g hp) t (slot_after (Bucket i) ys) v = Some (rechain f hp, t\<lparr>ht_list := bl\<rparr>) \<and>
    length bl = length (ht_list t) \<and> buckets (rechain f hp) bl (bss[i := ys @ ws]) E'"
proof -
  note at = buckets_at [OF assms(1,2)]
  have m: "mset (bss ! i) + mset_set E' = mset_set E + mset (ys @ ws)" using assms(3,5) by (simp add: ac_simps)
  have ysE: "set ys \<subseteq> E" and dys: "distinct ys" using at(2,3) assms(3) by auto
  have ok: "\<forall>a \<in> set (ys @ ws). bucket_of (hash_at hp a) (of_nat (length (ht_list t))) = i"
    using at(5) assms(3,9) by auto
  have other: "a \<in> E" if "j < length (ht_list t)" "a \<in> set (bss ! j)" for j a
    using buckets_at(3) [OF assms(1) that(1)] that(2) by blast
  show ?thesis
  proof (cases "ys = []")
    case True
    have "buckets (rechain g hp) ((ht_list t)[i := v]) (bss[i := ys @ ws]) E'"
      by (rule buckets_update [OF assms(1,2,4) m _ _ ok assms(10)]) (use assms(6,7) other True in auto)
    then show ?thesis using True assms(2)
      by (intro exI [of _ g] exI [of _ "(ht_list t)[i := v]"]) (simp add: slot_after_def write_slot_def)
  next
    case False
    let ?y = "last ys"
    have y: "?y \<in> set ys" using False by simp
    then have yd: "?y \<in> dom hp" using ysE assms(10) by blast
    have "buckets (rechain (g(?y := v)) hp) ((ht_list t)[i := ht_list t ! i]) (bss[i := ys @ ws]) E'"
    proof (rule buckets_update [OF assms(1,2,4) m _ _ ok assms(10)])
      fix j assume j: "j < length (ht_list t)" "j \<noteq> i"
      have "?y \<in> set (bss ! i)" using y assms(3) by simp
      then have "?y \<notin> set (bss ! j)" using buckets_disjoint [OF assms(1,2) j(1)] j(2) by blast
      with other [OF j(1)] assms(6) show "\<forall>a \<in> set (bss ! j). (g(?y := v)) a = nh hp a" by auto
    next
      show "chain (g(?y := v)) (ht_list t ! i) (ys @ ws)"
        by (rule chain_redirect [where f = "nh hp" and zs = zs, OF _ False dys assms(7)]) (use at(1) assms(3,6,8) y ysE in auto)
    qed
    moreover have "write_slot (rechain g hp) t (slot_after (Bucket i) ys) v = Some (rechain (g(?y := v)) hp, t\<lparr>ht_list := ht_list t\<rparr>)"
      using False by (simp add: slot_after_def write_slot_def set_next_hash_rechain [OF yd])
    ultimately show ?thesis by (metis list_update_id)
  qed
qed

subsection \<open>The table\<close>

text \<open>The array may double as long as there are at most \<open>2 ^ 31\<close> entries.\<close>

definition max_entries :: nat where
  "max_entries = 2 ^ 31"

definition length_ok :: "HandleTable \<Rightarrow> bool" where
  "length_ok t \<longleftrightarrow> 0 < length (ht_list t) \<and> length (ht_list t) < 2 ^ 32 \<and> ht_length t = of_nat (length (ht_list t))"

lemma length_okD:
  assumes "length_ok t"
  shows "0 < length (ht_list t)" "ht_length t = of_nat (length (ht_list t))" "unat (ht_length t) = length (ht_list t)"
  using assms by (auto simp: length_ok_def unsigned_of_nat take_bit_nat_eq_self)

definition table_ok :: "'v lru_heap \<Rightarrow> (Slice \<Rightarrow> u32) \<Rightarrow> HandleTable \<Rightarrow> lru_ptr set \<Rightarrow> bool" where
  "table_ok hp hf t E \<longleftrightarrow> (\<exists>bss. buckets hp (ht_list t) bss E) \<and> ht_elems t = of_nat (card E) \<and> card E \<le> max_entries \<and>
     length_ok t \<and> (\<forall>a \<in> E. entry_ok hp hf a) \<and> inj_on (key_at hp) E"

lemma find_ok:
  fixes k :: Slice
  assumes "buckets hp (ht_list t) bss E" "length_ok t" "\<forall>a \<in> E. entry_ok hp hf a"
  defines "i \<equiv> bucket_of (hf k) (of_nat (length (ht_list t)))"
  obtains ys zs where "i < length (ht_list t)" "bss ! i = ys @ zs" "FindPointer hp t k (hf k) = Some (slot_after (Bucket i) ys)"
    "read_slot hp t (slot_after (Bucket i) ys) = Some (first_of zs)"
    "zs = [] \<Longrightarrow> \<forall>a \<in> E. key_at hp a \<noteq> k" "zs \<noteq> [] \<Longrightarrow> key_at hp (first_of zs) = k"
proof -
  have i: "i < length (ht_list t)" unfolding i_def by (rule bucket_of_less [OF length_okD(1) [OF assms(2)]])
  note at = buckets_at [OF assms(1) i]
  define ys zs where "ys = takeWhile (\<lambda>a. key_at hp a \<noteq> k) (bss ! i)" and "zs = dropWhile (\<lambda>a. key_at hp a \<noteq> k) (bss ! i)"
  have split: "bss ! i = ys @ zs" by (simp add: ys_def zs_def)
  have read: "read_slot hp t (Bucket i) = Some (ht_list t ! i)" using i by (simp add: read_slot_def)
  have "FindPointer hp t k (hf k) = Some (slot_after (Bucket i) ys)"
    unfolding FindPointer_def ys_def length_okD(2) [OF assms(2)] i_def [symmetric]
    by (rule find_loop_ok [OF read at(1)]) (use at(3) assms(3) in blast)
  moreover have "set ys \<subseteq> dom hp" using at(3) assms(3) split by (auto simp: entry_ok_def)
  then have "read_slot hp t (slot_after (Bucket i) ys) = Some (first_of zs)"
    using read_slot_after [OF read] at(1) split by simp
  moreover have "\<forall>a \<in> E. key_at hp a \<noteq> k" if "zs = []"
  proof
    fix a assume a: "a \<in> E"
    show "key_at hp a \<noteq> k"
    proof
      assume "key_at hp a = k"
      then have "hash_at hp a = hf k" using assms(3) a by (simp add: entry_ok_def)
      then have "a \<in> set (bss ! i)" using buckets_member [OF assms(1) a] by (simp add: i_def)
      then have "a \<in> set ys" using that split by simp
      then show False using \<open>key_at hp a = k\<close> by (auto simp: ys_def dest: set_takeWhileD)
    qed
  qed
  moreover have "key_at hp (first_of zs) = k" if "zs \<noteq> []"
    using that hd_dropWhile [of "\<lambda>a. key_at hp a \<noteq> k" "bss ! i"] by (cases zs) (simp_all add: zs_def [symmetric] first_of_def)
  ultimately show thesis using that i split by blast
qed

text \<open>What looking for a key gives: its entry, or the null pointer.\<close>

definition finds :: "'v lru_heap \<Rightarrow> lru_ptr set \<Rightarrow> Slice \<Rightarrow> lru_ptr \<Rightarrow> bool" where
  "finds hp E k e \<longleftrightarrow> (if e = 0 then \<forall>a \<in> E. key_at hp a \<noteq> k else e \<in> E \<and> key_at hp e = k)"

lemma first_in: "zs \<noteq> [] \<Longrightarrow> first_of zs \<in> set zs"
  by (cases zs) (simp_all add: first_of_def)

lemma first_zero: "0 \<notin> set zs \<Longrightarrow> first_of zs = 0 \<longleftrightarrow> zs = []"
  by (cases zs) (auto simp: first_of_def)

lemma HandleTable_Lookup_ok:
  assumes "table_ok hp hf t E"
  shows "\<exists>e. HandleTable_Lookup hp t k (hf k) = Some e \<and> finds hp E k e"
proof -
  obtain bss where b: "buckets hp (ht_list t) bss E" using assms by (auto simp: table_ok_def)
  have t: "length_ok t" "\<forall>a \<in> E. entry_ok hp hf a" using assms by (simp_all add: table_ok_def)
  obtain i ys zs where f: "i < length (ht_list t)" "bss ! i = ys @ zs" "FindPointer hp t k (hf k) = Some (slot_after (Bucket i) ys)"
    "read_slot hp t (slot_after (Bucket i) ys) = Some (first_of zs)"
    "zs = [] \<Longrightarrow> \<forall>a \<in> E. key_at hp a \<noteq> k" "zs \<noteq> [] \<Longrightarrow> key_at hp (first_of zs) = k"
    using find_ok [OF b t, of k] by metis
  note at = buckets_at [OF b f(1)]
  have "0 \<notin> set zs" using chain_not_null [OF at(1)] f(2) by simp
  then have "finds hp E k (first_of zs)"
    using f(5,6) first_zero [of zs] first_in [of zs] at(3) f(2) by (auto simp: finds_def)
  then show ?thesis using f(3,4) by (simp add: HandleTable_Lookup_def)
qed

subsection \<open>Resizing\<close>

lemma resize_length_ok:
  "0 < n \<Longrightarrow> unat e \<le> max_entries \<Longrightarrow> \<exists>m. resize_length n e = Some m \<and> n \<le> m"
proof (induction "unat e - unat n" arbitrary: n rule: less_induct)
  case less
  show ?case
  proof (cases "n < e")
    case True
    then have n: "unat n < unat e" "0 < unat n" using less.prems(1) by (simp_all add: word_less_nat_alt)
    then have "unat n * 2 < 2 ^ 32" using less.prems(2) unfolding max_entries_def by simp
    then have d: "unat (n * 2) = unat n * 2" by (simp add: unat_word_ariths)
    have "0 < n * 2" "n \<le> n * 2" using n(2) unfolding word_less_nat_alt word_le_nat_alt d by simp_all
    moreover have "unat e - unat (n * 2) < unat e - unat n" unfolding d using n by linarith
    ultimately obtain m where "resize_length (n * 2) e = Some m" "n * 2 \<le> m"
      using less.hyps [of "n * 2"] less.prems(2) by auto
    with True \<open>n \<le> n * 2\<close> show ?thesis by (subst resize_length.simps) auto
  qed (subst resize_length.simps, simp)
qed

lemma rehash_chain_ok:
  assumes "chain (nh hp) h xs" "buckets hp nl nbs E" "distinct xs" "set xs \<inter> E = {}" "set xs \<union> E \<subseteq> dom hp" "0 < length nl"
  shows "\<exists>f nl' nbs'. rehash_chain hp nl (of_nat (length nl)) h cnt = Some (rechain f hp, nl', cnt + of_nat (length xs)) \<and> length nl' = length nl \<and>
    buckets (rechain f hp) nl' nbs' (E \<union> set xs) \<and> (\<forall>a \<in> dom hp - set xs. f a = nh hp a)"
  using assms
proof (induction xs arbitrary: hp nl nbs E h cnt)
  case Nil
  then show ?case by (subst rehash_chain.simps) (auto intro!: exI [of _ "nh hp"])
next
  case (Cons x xs)
  obtain y where y: "hp x = Some y" using Cons.prems(5) by auto
  let ?i = "bucket_of (hash_at hp x) (of_nat (length nl))"
  have i: "?i < length nl" by (rule bucket_of_less [OF Cons.prems(6)])
  note at = buckets_at [OF Cons.prems(2) i]
  let ?f = "(nh hp)(x := nl ! ?i)"
  let ?hp = "rechain ?f hp"
  have fin: "finite E" using Cons.prems(2) by (simp add: buckets_def)
  have xE: "x \<notin> E" using Cons.prems(4) by auto
  have b: "buckets ?hp (nl[?i := x]) (nbs[?i := x # nbs ! ?i]) (insert x E)"
  proof (rule buckets_update [OF Cons.prems(2) i])
    show "mset (nbs ! ?i) + mset_set (insert x E) = mset_set E + mset (x # nbs ! ?i)" using fin xE by simp
    show "\<forall>a \<in> set (nbs ! j). ?f a = nh hp a" if "j < length nl" for j
      using buckets_at(3) [OF Cons.prems(2) that] xE by auto
    have "chain ?f (nl ! ?i) (nbs ! ?i) = chain (nh hp) (nl ! ?i) (nbs ! ?i)"
      by (rule chain_cong) (use at(3) xE in auto)
    then show "chain ?f x (x # nbs ! ?i)" using at(1) Cons.prems(1) by (simp del: fun_upd_apply add: fun_upd_same)
    show "\<forall>a \<in> set (x # nbs ! ?i). bucket_of (hash_at hp a) (of_nat (length nl)) = ?i" using at(5) by simp
    show "E \<union> insert x E \<subseteq> dom hp" using Cons.prems(5) by auto
  qed (use fin in simp)
  have "chain (nh ?hp) (nh hp x) xs = chain (nh hp) (nh hp x) xs"
  proof (rule chain_cong)
    fix a assume a: "a \<in> set xs"
    then have "a \<in> dom hp" "a \<noteq> x" using Cons.prems(3,5) by auto
    then show "nh ?hp a = nh hp a" by simp
  qed
  then have c: "chain (nh ?hp) (nh hp x) xs" using Cons.prems(1) by simp
  have p1: "set xs \<inter> insert x E = {}" "set xs \<union> insert x E \<subseteq> dom ?hp" "0 < length (nl[?i := x])"
    using Cons.prems(3-6) by auto
  have d: "distinct xs" using Cons.prems(3) by simp
  obtain f nl' nbs' where r: "rehash_chain ?hp (nl[?i := x]) (of_nat (length (nl[?i := x]))) (nh hp x) (cnt + 1) = Some (rechain f ?hp, nl', cnt + 1 + of_nat (length xs))"
    "length nl' = length (nl[?i := x])" "buckets (rechain f ?hp) nl' nbs' (insert x E \<union> set xs)"
    "\<forall>a \<in> dom ?hp - set xs. f a = nh ?hp a"
    using Cons.IH [OF c b d p1, of "cnt + 1"] by blast
  have "rehash_chain hp nl (of_nat (length nl)) h cnt = rehash_chain ?hp (nl[?i := x]) (of_nat (length (nl[?i := x]))) (nh hp x) (cnt + 1)"
    using Cons.prems(1) y i set_next_hash [of x hp "nl ! ?i"] domI [of hp x, OF y]
    by (subst rehash_chain.simps) (auto simp: nh_def hash_at_def Let_def)
  moreover have "\<forall>a \<in> dom hp - set (x # xs). f a = nh hp a"
  proof
    fix a assume a: "a \<in> dom hp - set (x # xs)"
    then have "f a = nh ?hp a" using r(4) by simp
    also have "\<dots> = nh hp a" using a by (subst fields_rechain(1)) auto
    finally show "f a = nh hp a" .
  qed
  ultimately show ?case using r(1-3) by (intro exI [of _ f] exI [of _ nl'] exI [of _ nbs']) simp
qed

lemma rehash_buckets_ok:
  assumes "list_all2 (chain (nh hp)) hs bs" "buckets hp nl nbs E" "distinct (concat bs)" "set (concat bs) \<inter> E = {}"
    "set (concat bs) \<union> E \<subseteq> dom hp" "0 < length nl"
  shows "\<exists>f nl' nbs'. rehash_buckets hp nl (of_nat (length nl)) hs cnt = Some (rechain f hp, nl', cnt + of_nat (length (concat bs))) \<and> length nl' = length nl \<and>
    buckets (rechain f hp) nl' nbs' (E \<union> set (concat bs))"
  using assms
proof (induction hs arbitrary: bs hp nl nbs E cnt)
  case Nil
  then show ?case by (auto intro!: exI [of _ "nh hp"])
next
  case (Cons h hs)
  then obtain b bs' where bs: "bs = b # bs'" "chain (nh hp) h b" "list_all2 (chain (nh hp)) hs bs'" by (auto simp: list_all2_Cons1)
  have p: "distinct b" "set b \<inter> E = {}" "set b \<union> E \<subseteq> dom hp" "set b \<inter> set (concat bs') = {}" "set (concat bs') \<subseteq> dom hp"
    "distinct (concat bs')" using Cons.prems(3-5) bs(1) by auto
  obtain f nl' nbs' where r: "rehash_chain hp nl (of_nat (length nl)) h cnt = Some (rechain f hp, nl', cnt + of_nat (length b))" "length nl' = length nl"
    "buckets (rechain f hp) nl' nbs' (E \<union> set b)" "\<forall>a \<in> dom hp - set b. f a = nh hp a"
    using rehash_chain_ok [OF bs(2) Cons.prems(2) p(1-3) Cons.prems(6), of cnt] by blast
  let ?hp = "rechain f hp"
  have "list_all2 (chain (nh ?hp)) hs bs'"
    using bs(3)
  proof (rule list.rel_mono_strong)
    fix x xs assume x: "chain (nh hp) x xs" "xs \<in> set bs'"
    have "chain (nh ?hp) x xs = chain (nh hp) x xs"
    proof (rule chain_cong)
      fix a assume a: "a \<in> set xs"
      then have "a \<in> set (concat bs')" using x(2) by auto
      then have "a \<in> dom hp" "a \<notin> set b" using p(4,5) by blast+
      then show "nh ?hp a = nh hp a" using r(4) by simp
    qed
    with x(1) show "chain (nh ?hp) x xs" by simp
  qed
  moreover have "set (concat bs') \<inter> (E \<union> set b) = {}" "set (concat bs') \<union> (E \<union> set b) \<subseteq> dom ?hp" "0 < length nl'"
    using p Cons.prems(4,6) bs(1) r(2) by auto
  ultimately obtain g nl2 nbs2 where "rehash_buckets ?hp nl' (of_nat (length nl')) hs (cnt + of_nat (length b)) =
      Some (rechain g ?hp, nl2, cnt + of_nat (length b) + of_nat (length (concat bs')))"
    "length nl2 = length nl'" "buckets (rechain g ?hp) nl2 nbs2 (E \<union> set b \<union> set (concat bs'))"
    using Cons.IH [OF _ r(3) p(6), of "cnt + of_nat (length b)"] by blast
  with r(1,2) bs(1) show ?case by (intro exI [of _ g] exI [of _ nl2] exI [of _ nbs2]) (simp add: Un_assoc)
qed

text \<open>A new table has no array yet.\<close>

lemma Resize_buckets:
  assumes "buckets hp (ht_list t) bss E" "ht_elems t = of_nat (card E)" "card E \<le> max_entries" "E \<subseteq> dom hp"
    "unat (ht_length t) = length (ht_list t)"
  shows "\<exists>f n bl bss'. Resize hp t = Some (rechain f hp, t\<lparr>ht_list := bl, ht_length := n\<rparr>) \<and>
    length_ok (t\<lparr>ht_list := bl, ht_length := n\<rparr>) \<and> buckets (rechain f hp) bl bss' E"
proof -
  have "unat (ht_elems t) \<le> max_entries"
    using assms(3) unfolding assms(2) by (simp add: max_entries_def unsigned_of_nat take_bit_nat_eq_self)
  then obtain n where n: "resize_length 4 (ht_elems t) = Some n" "4 \<le> n" using resize_length_ok [of 4] by fastforce
  then have pos: "0 < unat n" by (simp add: word_le_nat_alt)
  note s = buckets_set [OF assms(1)]
  have "buckets hp (replicate (unat n) 0) (replicate (unat n) []) {}" by (simp add: buckets_def)
  moreover have "list_all2 (chain (nh hp)) (ht_list t) bss" using assms(1) by (auto simp: buckets_def list_all2_conv_all_nth)
  ultimately obtain f bl bss' where r: "rehash_buckets hp (replicate (unat n) 0) n (ht_list t) 0 = Some (rechain f hp, bl, of_nat (length (concat bss)))"
    "length bl = unat n" "buckets (rechain f hp) bl bss' E"
    using rehash_buckets_ok [of hp "ht_list t" bss "replicate (unat n) 0" "replicate (unat n) []" "{}" 0] s assms(4) pos by auto
  then have "Resize hp t = Some (rechain f hp, t\<lparr>ht_list := bl, ht_length := n\<rparr>)"
    using n(1) s assms(2,5) by (simp add: Resize_def del: of_nat_add)
  moreover have "length_ok (t\<lparr>ht_list := bl, ht_length := n\<rparr>)"
    using r(2) pos unat_u32_less [of n] by (simp add: length_ok_def)
  ultimately show ?thesis using r(3) by (intro exI [of _ f] exI [of _ n] exI [of _ bl] exI [of _ bss']) simp
qed

lemma table_dom: "table_ok hp hf t E \<Longrightarrow> E \<subseteq> dom hp"
  by (auto simp: table_ok_def entry_ok_def)

lemma inj_key_rechain: "E \<subseteq> dom hp \<Longrightarrow> inj_on (key_at (rechain f hp)) E = inj_on (key_at hp) E"
  by (rule inj_on_cong) (use fields_rechain(4) in blast)

lemma table_okI:
  assumes "buckets (rechain f hp) (ht_list t) bss E" "ht_elems t = of_nat (card E)" "card E \<le> max_entries" "length_ok t"
    "\<forall>a \<in> E. entry_ok hp hf a" "inj_on (key_at hp) E"
  shows "table_ok (rechain f hp) hf t E"
proof -
  have "E \<subseteq> dom hp" using assms(5) by (auto simp: entry_ok_def)
  then have "inj_on (key_at (rechain f hp)) E" using assms(6) by (simp add: inj_key_rechain)
  then show ?thesis unfolding table_ok_def using assms(1-5) by (simp add: exI [of _ bss])
qed

lemma mk_HandleTable_ok: "\<exists>t. mk_HandleTable hp = Some (hp, t) \<and> table_ok hp hf t {}"
proof -
  have "resize_length 4 0 = Some 4" by (subst resize_length.simps) simp
  then have "mk_HandleTable hp = Some (hp, \<lparr>ht_length = 4, ht_elems = 0, ht_list = replicate 4 0\<rparr>)"
    by (simp add: mk_HandleTable_def Resize_def)
  moreover have "buckets hp (replicate 4 0) (replicate 4 []) {}" by (simp add: buckets_def)
  then have "table_ok hp hf \<lparr>ht_length = 4, ht_elems = 0, ht_list = replicate 4 0\<rparr> {}"
    unfolding table_ok_def length_ok_def by (auto intro!: exI [of _ "replicate 4 []"] simp del: replicate.simps)
  ultimately show ?thesis by blast
qed

subsection \<open>Inserting and removing\<close>

text \<open>The entries of the table after an insertion of \<open>h\<close> that displaced \<open>old\<close>, and after a removal of \<open>e\<close>.\<close>

lemma first_notin:
  assumes "distinct zs" "zs \<noteq> []"
  shows "first_of zs \<notin> set (tl zs)"
  using assms by (cases zs) (simp_all add: first_of_def)

lemma mset_first: "zs \<noteq> [] \<Longrightarrow> mset zs = add_mset (first_of zs) (mset (tl zs))"
  by (cases zs) (simp_all add: first_of_def)

lemma HandleTable_Insert_ok:
  assumes T: "table_ok hp hf t E" and h: "entry_ok hp hf h" "h \<notin> E"
    and space: "card (insert (key_at hp h) (key_at hp ` E)) \<le> max_entries"
  shows "\<exists>old f t'. HandleTable_Insert hp t h = Some (old, rechain f hp, t') \<and> finds hp E (key_at hp h) old \<and>
    table_ok (rechain f hp) hf t' (insert h (E - {old}))"
proof -
  obtain bss where b: "buckets hp (ht_list t) bss E" using T by (auto simp: table_ok_def)
  have t: "length_ok t" "\<forall>a \<in> E. entry_ok hp hf a" "ht_elems t = of_nat (card E)" "inj_on (key_at hp) E" "card E \<le> max_entries"
    using T by (simp_all add: table_ok_def)
  let ?k = "key_at hp h" and ?n = "length (ht_list t)"
  define i where "i = bucket_of (hf ?k) (of_nat ?n)"
  obtain ys zs where f: "i < ?n" "bss ! i = ys @ zs" "FindPointer hp t ?k (hf ?k) = Some (slot_after (Bucket i) ys)"
    "read_slot hp t (slot_after (Bucket i) ys) = Some (first_of zs)"
    "zs = [] \<Longrightarrow> \<forall>a \<in> E. key_at hp a \<noteq> ?k" "zs \<noteq> [] \<Longrightarrow> key_at hp (first_of zs) = ?k"
    using find_ok [OF b t(1,2), of ?k] unfolding i_def by metis
  note at = buckets_at [OF b f(1)]
  have fin: "finite E" using b by (simp add: buckets_def)
  have dom: "E \<subseteq> dom hp" by (rule table_dom [OF T])
  let ?old = "first_of zs"
  have z: "?old = 0 \<longleftrightarrow> zs = []" using first_zero [of zs] chain_not_null [OF at(1)] f(2) by simp
  have oldE: "?old \<in> E" if "zs \<noteq> []" using first_in [OF that] at(3) f(2) by auto
  have finds: "finds hp E ?k ?old" using z f(5,6) oldE by (simp add: finds_def)
  define nh0 where "nh0 = first_of (tl zs)"
  have nexto: "(if ?old = 0 then Some 0 else map_option lh_next_hash (hp ?old)) = Some nh0"
  proof (cases "zs = []")
    case True
    then show ?thesis using z by (simp add: nh0_def first_of_def)
  next
    case False
    then obtain z0 zs' where zs: "zs = z0 # zs'" by (cases zs) auto
    then have "z0 \<in> dom hp" using oldE dom by (auto simp: first_of_def)
    moreover have "chain (nh hp) (nh hp z0) zs'"
      using chain_append_last [of "nh hp" "ht_list t ! i" "ys @ [z0]" zs'] at(1) f(2) zs by simp
    then have "nh hp z0 = nh0" using chain_first zs by (simp add: nh0_def)
    ultimately show ?thesis using z zs by (auto simp: nh_def first_of_def)
  qed
  let ?g = "(nh hp)(h := nh0)" and ?E = "insert h (E - {?old})"
  have hd: "h \<in> dom hp" using h(1) by (simp add: entry_ok_def)
  have tlE: "set (tl zs) \<subseteq> E" using at(3) f(2) by (cases zs) auto
  have "chain (nh hp) nh0 (tl zs)"
  proof (cases zs)
    case Nil
    then show ?thesis by (simp add: nh0_def first_of_def)
  next
    case (Cons z0 zs')
    then show ?thesis using chain_tail [of "nh hp" "ht_list t ! i" "ys @ [z0]" zs'] at(1) f(2) by (simp add: nh0_def)
  qed
  moreover have "chain ?g nh0 (tl zs) = chain (nh hp) nh0 (tl zs)" by (rule chain_cong) (use tlE h(2) in auto)
  ultimately have c: "chain ?g h (h # tl zs)" using h(1) by (simp add: entry_ok_def del: fun_upd_apply) (simp add: fun_upd_same)
  have m: "mset zs + mset_set ?E = mset_set E + mset (h # tl zs)"
  proof (cases "zs = []")
    case True
    then have "?old \<notin> E" using z t(2) by (auto simp: entry_ok_def)
    then show ?thesis using True fin h(2) by simp
  next
    case False
    have "mset_set E = add_mset ?old (mset_set (E - {?old}))" using fin oldE [OF False] by (simp add: mset_set.remove)
    then show ?thesis using mset_first [OF False] fin h(2) by simp
  qed
  have bucket: "\<forall>a \<in> set (h # tl zs). bucket_of (hash_at hp a) (of_nat ?n) = i"
  proof
    fix a assume "a \<in> set (h # tl zs)"
    then consider "a = h" | "a \<in> set (bss ! i)" using f(2) by (cases zs) auto
    then show "bucket_of (hash_at hp a) (of_nat ?n) = i" by cases (use h(1) at(5) in \<open>simp_all add: entry_ok_def i_def\<close>)
  qed
  have disj: "set ys \<inter> set (h # tl zs) = {}" using at(2,3) f(2) h(2) by (cases zs) auto
  obtain f1 bl where w: "write_slot (rechain ?g hp) t (slot_after (Bucket i) ys) h = Some (rechain f1 hp, t\<lparr>ht_list := bl\<rparr>)"
    "length bl = ?n" "buckets (rechain f1 hp) bl (bss[i := ys @ h # tl zs]) ?E"
  proof -
    have "finite ?E" "E \<union> ?E \<subseteq> dom hp" using fin dom hd by auto
    moreover have "?g a = nh hp a" if "a \<in> E" for a using that h(2) by auto
    ultimately show thesis using that write_slot_ok [OF b f(1,2) _ m _ c disj bucket] by blast
  qed
  have ent: "\<forall>a \<in> ?E. entry_ok hp hf a" using t(2) h(1) by simp
  have inj: "inj_on (key_at hp) ?E"
  proof -
    have other: "key_at hp a \<noteq> ?k" if "a \<in> E - {?old}" for a
      using that finds inj_onD [OF t(4), of a ?old] by (auto simp: finds_def split: if_splits)
    have "?k \<notin> key_at hp ` (E - {?old} - {h})"
    proof
      assume "?k \<in> key_at hp ` (E - {?old} - {h})"
      then obtain a where a: "?k = key_at hp a" "a \<in> E - {?old} - {h}" by (rule imageE)
      then show False using other [of a] by simp
    qed
    moreover have "inj_on (key_at hp) (E - {?old})" by (rule inj_on_subset [OF t(4)]) blast
    ultimately show ?thesis unfolding inj_on_insert by blast
  qed
  have hash: "hash_at hp h = hf ?k" using h(1) by (simp add: entry_ok_def)
  obtain x where x: "hp h = Some x" using hd by blast
  let ?t = "t\<lparr>ht_list := bl\<rparr>"
  have pre: "HandleTable_Insert hp t h = (if ?old = 0
      then let t = ?t\<lparr>ht_elems := ht_elems ?t + 1\<rparr> in if ht_elems t > ht_length t then Resize (rechain f1 hp) t else Some (rechain f1 hp, t)
      else Some (rechain f1 hp, ?t)) \<bind> (\<lambda>(hp, t). Some (?old, hp, t))"
    using handle_key_ok [OF h(1)] x hash f(3,4) nexto w(1) set_next_hash [OF hd, of nh0]
    by (simp add: HandleTable_Insert_def hash_at_def del: fun_upd_apply)
  show ?thesis
  proof (cases "zs = []")
    case True
    let ?t1 = "?t\<lparr>ht_elems := of_nat (card ?E)\<rparr>"
    have "?old \<notin> E" using True z t(2) by (auto simp: entry_ok_def)
    then have card: "card ?E = card E + 1" using fin h(2) by simp
    have "?k \<notin> key_at hp ` E" using f(5) [OF True] by auto
    then have max: "card ?E \<le> max_entries" using space fin card card_image [OF t(4)] by simp
    have len: "length_ok ?t" using t(1) w(2) by (simp add: length_ok_def)
    have "unat (of_nat (card ?E) :: u32) = card ?E" using max by (simp add: max_entries_def unsigned_of_nat take_bit_nat_eq_self)
    then have big: "(of_nat (card ?E) > ht_length t) = (card ?E > length bl)"
      using length_okD(3) [OF len] by (simp only: word_less_nat_alt) simp
    have elems: "ht_elems ?t + 1 = of_nat (card ?E)" using t(3) card by simp
    have sel: "ht_elems (?t\<lparr>ht_elems := x\<rparr>) = x" "ht_length (?t\<lparr>ht_elems := x\<rparr>) = ht_length t" for x by simp_all
    have oz: "?old = 0" using z True by simp
    have pre1: "HandleTable_Insert hp t h = (if card ?E > length bl then Resize (rechain f1 hp) ?t1 else Some (rechain f1 hp, ?t1))
        \<bind> (\<lambda>(hp, t). Some (?old, hp, t))"
      unfolding pre if_P [OF oz] Let_def elems by (simp only: sel big)
    show ?thesis
    proof (cases "card ?E > length bl")
      case False
      then have "HandleTable_Insert hp t h = Some (?old, rechain f1 hp, ?t1)" unfolding pre1 by simp
      moreover have "table_ok (rechain f1 hp) hf ?t1 ?E"
        by (rule table_okI [OF _ _ max _ ent inj]) (use w len in \<open>simp_all add: length_ok_def\<close>)
      ultimately show ?thesis using finds by blast
    next
      case over: True
      have "?E \<subseteq> dom (rechain f1 hp)" using dom hd by auto
      then obtain f2 n2 bl2 bss2 where r: "Resize (rechain f1 hp) ?t1 = Some (rechain f2 hp, ?t1\<lparr>ht_list := bl2, ht_length := n2\<rparr>)"
        "length_ok (?t1\<lparr>ht_list := bl2, ht_length := n2\<rparr>)" "buckets (rechain f2 hp) bl2 bss2 ?E"
        using Resize_buckets [of "rechain f1 hp" ?t1 "bss[i := ys @ h # tl zs]" ?E] w(3) max length_okD(3) [OF len] by auto
      then have "HandleTable_Insert hp t h = Some (?old, rechain f2 hp, ?t1\<lparr>ht_list := bl2, ht_length := n2\<rparr>)"
        unfolding pre1 using over by simp
      moreover have "table_ok (rechain f2 hp) hf (?t1\<lparr>ht_list := bl2, ht_length := n2\<rparr>) ?E"
        by (rule table_okI [OF _ _ max r(2) ent inj]) (use r in simp_all)
      ultimately show ?thesis using finds by blast
    qed
  next
    case False
    then have "HandleTable_Insert hp t h = Some (?old, rechain f1 hp, ?t)" using pre z by simp
    moreover have "card ?E = card E"
    proof -
      have "card (E - {?old}) = card E - 1" "0 < card E" using oldE [OF False] fin by (auto simp: card_gt_0_iff)
      then show ?thesis using fin h(2) by simp
    qed
    then have "table_ok (rechain f1 hp) hf ?t ?E"
      by (intro table_okI [OF _ _ _ _ ent inj]) (use w t(1,3,5) in \<open>simp_all add: length_ok_def\<close>)
    ultimately show ?thesis using finds by blast
  qed
qed

lemma HandleTable_Remove_ok:
  assumes T: "table_ok hp hf t E"
  shows "\<exists>e f t'. HandleTable_Remove hp t k (hf k) = Some (e, rechain f hp, t') \<and> finds hp E k e \<and>
    table_ok (rechain f hp) hf t' (E - {e})"
proof -
  obtain bss where b: "buckets hp (ht_list t) bss E" using T by (auto simp: table_ok_def)
  have t: "length_ok t" "\<forall>a \<in> E. entry_ok hp hf a" "ht_elems t = of_nat (card E)" "inj_on (key_at hp) E" "card E \<le> max_entries"
    using T by (simp_all add: table_ok_def)
  let ?n = "length (ht_list t)"
  define i where "i = bucket_of (hf k) (of_nat ?n)"
  obtain ys zs where f: "i < ?n" "bss ! i = ys @ zs" "FindPointer hp t k (hf k) = Some (slot_after (Bucket i) ys)"
    "read_slot hp t (slot_after (Bucket i) ys) = Some (first_of zs)"
    "zs = [] \<Longrightarrow> \<forall>a \<in> E. key_at hp a \<noteq> k" "zs \<noteq> [] \<Longrightarrow> key_at hp (first_of zs) = k"
    using find_ok [OF b t(1,2), of k] unfolding i_def by metis
  note at = buckets_at [OF b f(1)]
  have fin: "finite E" using b by (simp add: buckets_def)
  have dom: "E \<subseteq> dom hp" by (rule table_dom [OF T])
  let ?e = "first_of zs" and ?E = "E - {first_of zs}"
  have z: "?e = 0 \<longleftrightarrow> zs = []" using first_zero [of zs] chain_not_null [OF at(1)] f(2) by simp
  show ?thesis
  proof (cases zs)
    case Nil
    then have e: "?e \<notin> E" using z t(2) by (auto simp: entry_ok_def)
    have "HandleTable_Remove hp t k (hf k) = Some (?e, rechain (nh hp) hp, t)" using f(3,4) z Nil by (simp add: HandleTable_Remove_def)
    moreover have "finds hp E k ?e" using z f(5) Nil by (simp add: finds_def)
    moreover have "table_ok (rechain (nh hp) hp) hf t (E - {?e})" using T e by simp
    ultimately show ?thesis by blast
  next
    case (Cons z0 zs')
    then have e: "?e = z0" by (simp add: first_of_def)
    have z0: "z0 \<in> E" "set zs' \<subseteq> E" using at(3) f(2) Cons by auto
    obtain x where x: "hp z0 = Some x" using z0 dom by blast
    have c: "chain (nh hp) (nh hp z0) zs'"
      using chain_append_last [of "nh hp" "ht_list t ! i" "ys @ [z0]" zs'] at(1) f(2) Cons by simp
    have m: "mset zs + mset_set (E - {z0}) = mset_set E + mset zs'"
      using fin z0(1) Cons by (simp add: mset_set.remove [of E z0])
    have disj: "set ys \<inter> set zs' = {}" "\<forall>a \<in> set zs'. bucket_of (hash_at hp a) (of_nat ?n) = i"
      using at(2,5) f(2) Cons by auto
    obtain f1 bl where w: "write_slot (rechain (nh hp) hp) t (slot_after (Bucket i) ys) (nh hp z0) = Some (rechain f1 hp, t\<lparr>ht_list := bl\<rparr>)"
      "length bl = ?n" "buckets (rechain f1 hp) bl (bss[i := ys @ zs']) (E - {z0})"
      using write_slot_ok [OF b f(1,2) _ m refl c disj] fin dom by auto
    have "HandleTable_Remove hp t k (hf k) = Some (z0, rechain f1 hp, t\<lparr>ht_list := bl, ht_elems := ht_elems t - 1\<rparr>)"
      using f(3,4) z Cons e x w(1) by (simp add: HandleTable_Remove_def nh_def)
    moreover have "finds hp E k z0" using z f(6) Cons e z0 by (auto simp: finds_def)
    moreover have "table_ok (rechain f1 hp) hf (t\<lparr>ht_list := bl, ht_elems := ht_elems t - 1\<rparr>) (E - {z0})"
    proof (rule table_okI)
      show "inj_on (key_at hp) (E - {z0})" by (rule inj_on_subset [OF t(4)]) blast
      have "card E = card (E - {z0}) + 1" using fin z0(1) by (metis Suc_eq_plus1 card_Suc_Diff1)
      then show "ht_elems (t\<lparr>ht_list := bl, ht_elems := ht_elems t - 1\<rparr>) = of_nat (card (E - {z0}))"
        "card (E - {z0}) \<le> max_entries" using t(3,5) by simp_all
    qed (use w t in \<open>simp_all add: length_ok_def\<close>)
    ultimately show ?thesis by blast
  qed
qed

end
