(* ===== verification/Lru_Facts.thy ===== *)
theory Lru_Facts imports Lru_Table begin

section \<open>leveldb: the lists and the invariant of a shard\<close>

text \<open>
  \<open>rings\<close> says that \<open>lru_\<close> and \<open>in_use_\<close> are circular doubly linked lists with the given entries; \<open>shard_inv\<close> is the
  invariant of a shard whose clients hold the references \<open>R\<close>. It takes the entries of the hash table as an argument of its own because
  inside an operation an entry is in the table and not in a list, or the other way round; \<open>shard_ok\<close> is the state between operations.
\<close>

fun dpath :: "(lru_ptr \<Rightarrow> lru_ptr) \<Rightarrow> (lru_ptr \<Rightarrow> lru_ptr) \<Rightarrow> lru_ptr \<Rightarrow> lru_ptr list \<Rightarrow> lru_ptr \<Rightarrow> bool" where
  "dpath n p a [] b \<longleftrightarrow> n a = b \<and> p b = a"
| "dpath n p a (x # xs) b \<longleftrightarrow> n a = x \<and> p x = a \<and> dpath n p x xs b"

lemma dpath_append: "dpath n p a (xs @ y # ys) b \<longleftrightarrow> dpath n p a xs y \<and> dpath n p y ys b"
  by (induction xs arbitrary: a) auto

lemma dpath_cong:
  "(\<And>c. c = a \<or> c \<in> set xs \<Longrightarrow> n c = n' c) \<Longrightarrow> (\<And>c. c = b \<or> c \<in> set xs \<Longrightarrow> p c = p' c) \<Longrightarrow>
   dpath n p a xs b = dpath n' p' a xs b"
  by (induction xs arbitrary: a) auto

lemma dpath_prev: "dpath n p a xs b \<Longrightarrow> p b = last (a # xs)"
  by (induction xs arbitrary: a) auto

lemma dpath_next: "dpath n p a xs b \<Longrightarrow> n a = hd (xs @ [b])"
  by (cases xs) auto

lemma dpath_not_self: "dpath n p a xs b \<Longrightarrow> distinct xs \<Longrightarrow> b \<notin> set xs \<Longrightarrow> c \<in> set xs \<Longrightarrow> n c \<noteq> c"
proof (induction xs arbitrary: a)
  case (Cons x xs)
  have "hd (xs @ [b]) \<in> set (xs @ [b])" by (rule hd_in_set) simp
  then have "n x \<in> set xs \<union> {b}" using Cons.prems(1) dpath_next [of n p x xs b] by simp
  then show ?case using Cons by auto
qed simp

lemma dpath_remove:
  assumes "dpath n p a (xs @ e # ys) b" "distinct (xs @ e # ys)" "a \<notin> set (xs @ e # ys)" "b \<notin> set (xs @ e # ys)"
  shows "dpath (n(p e := n e)) (p(n e := p e)) a (xs @ ys) b"
proof -
  have d: "dpath n p a xs e" "dpath n p e ys b" using assms(1) by (simp_all add: dpath_append)
  have pe: "p e = last (a # xs)" and ne: "n e = hd (ys @ [b])" using dpath_prev [OF d(1)] dpath_next [OF d(2)] by simp_all
  have "last (a # xs) \<in> set (a # xs)" by (rule last_in_set) simp
  then have pin: "p e = a \<or> p e \<in> set xs" using pe by simp
  have d2: "dpath (n(p e := n e)) (p(n e := p e)) (last (a # xs)) ys b"
  proof (cases ys)
    case Nil
    then show ?thesis using pe ne by simp
  next
    case (Cons y zs)
    have "dpath (n(p e := n e)) (p(n e := p e)) y zs b = dpath n p y zs b"
      by (rule dpath_cong) (use assms(2-4) pin ne Cons in auto)
    then show ?thesis using pe ne d(2) Cons by simp
  qed
  show ?thesis
  proof (cases xs rule: rev_cases)
    case Nil
    then show ?thesis using d2 by simp
  next
    case (snoc zs z)
    then have dz: "dpath n p a zs z" using d(1) by (simp add: dpath_append)
    have "dpath (n(p e := n e)) (p(n e := p e)) a zs z = dpath n p a zs z"
    proof (rule dpath_cong)
      show "(n(p e := n e)) c = n c" if "c = a \<or> c \<in> set zs" for c
        using that pe snoc assms(2,3) by auto
      have "n e \<in> set (ys @ [b])" unfolding ne by (rule hd_in_set) simp
      then show "(p(n e := p e)) c = p c" if "c = z \<or> c \<in> set zs" for c
        using that snoc assms(2,4) by auto
    qed
    then show ?thesis using dz d2 snoc by (simp add: dpath_append)
  qed
qed

lemma dpath_insert_last:
  assumes "dpath n p a xs b" "e \<notin> set xs" "e \<noteq> a" "e \<noteq> b" "b \<notin> set xs" "a \<notin> set xs" "distinct xs"
  shows "dpath (n(e := b, p b := e)) (p(e := p b, b := e)) a (xs @ [e]) b"
proof -
  have pb: "p b = last (a # xs)" by (rule dpath_prev [OF assms(1)])
  let ?n = "n(e := b, p b := e)" and ?p = "p(e := p b, b := e)"
  show ?thesis
  proof (cases xs rule: rev_cases)
    case Nil
    then show ?thesis using pb assms by auto
  next
    case (snoc zs z)
    then have dz: "dpath n p a zs z" using assms(1) by (simp add: dpath_append)
    have "dpath ?n ?p a zs z = dpath n p a zs z"
      by (rule dpath_cong) (use assms(2-7) pb snoc in auto)
    then show ?thesis using dz pb snoc assms by (auto simp: dpath_append)
  qed
qed

subsection \<open>The fields of the entries\<close>

definition charge_at :: "'v lru_heap \<Rightarrow> lru_ptr \<Rightarrow> u64" where "charge_at hp a = lh_charge (the (hp a))"
definition val_at :: "'v lru_heap \<Rightarrow> lru_ptr \<Rightarrow> 'v option" where "val_at hp a = lh_value (the (hp a))"
definition refs_at :: "'v lru_heap \<Rightarrow> lru_ptr \<Rightarrow> nat" where "refs_at hp a = unat (lh_refs (the (hp a)))"
definition in_cache_at :: "'v lru_heap \<Rightarrow> lru_ptr \<Rightarrow> bool" where "in_cache_at hp a = lh_in_cache (the (hp a))"

lemmas at_defs = nx_def pv_def nh_def key_at_def hash_at_def charge_at_def val_at_def refs_at_def in_cache_at_def

lemma fields_relink2 [simp]:
  assumes "a \<in> dom hp"
  shows "charge_at (relink n p hp) a = charge_at hp a" "val_at (relink n p hp) a = val_at hp a"
    "refs_at (relink n p hp) a = refs_at hp a" "in_cache_at (relink n p hp) a = in_cache_at hp a"
  using assms by (auto simp: relink_def at_defs)

lemma fields_rechain2 [simp]:
  assumes "a \<in> dom hp"
  shows "charge_at (rechain f hp) a = charge_at hp a" "val_at (rechain f hp) a = val_at hp a"
    "refs_at (rechain f hp) a = refs_at hp a" "in_cache_at (rechain f hp) a = in_cache_at hp a"
  using assms by (auto simp: rechain_def at_defs)

lemma relink_relink [simp]: "relink n p (relink n' p' hp) = relink n p hp"
  by (simp add: relink_def option.map_comp comp_def)

lemma relink_cong:
  "(\<And>a. a \<in> dom hp \<Longrightarrow> n a = n' a) \<Longrightarrow> (\<And>a. a \<in> dom hp \<Longrightarrow> p a = p' a) \<Longrightarrow> relink n p hp = relink n' p' hp"
  unfolding relink_def by (rule ext) (simp add: map_option_case domI split: option.splits)

lemma relink_same [simp]: "relink (nx hp) (pv hp) hp = hp"
  unfolding relink_def nx_def pv_def by (rule ext) (simp add: map_option_case split: option.splits)

lemma set_prev: "a \<in> dom hp \<Longrightarrow> set_at (relink n p hp) a (\<lambda>x. x\<lparr>lh_prev := v\<rparr>) = Some (relink n (p(a := v)) hp)"
  by (auto simp: set_at_def relink_def fun_eq_iff map_option_case split: option.splits)

lemma set_next: "a \<in> dom hp \<Longrightarrow> set_at (relink n p hp) a (\<lambda>x. x\<lparr>lh_next := v\<rparr>) = Some (relink (n(a := v)) p hp)"
  by (auto simp: set_at_def relink_def fun_eq_iff map_option_case split: option.splits)

lemma LRU_Remove_links:
  assumes "e \<in> dom hp" "nx hp e \<in> dom hp" "pv hp e \<in> dom hp"
  shows "LRU_Remove hp e = Some (relink ((nx hp)(pv hp e := nx hp e)) ((pv hp)(nx hp e := pv hp e)) hp)"
proof -
  obtain x where x: "hp e = Some x" using assms(1) by blast
  let ?p = "(pv hp)(nx hp e := pv hp e)"
  have 1: "set_at hp (nx hp e) (\<lambda>y. y\<lparr>lh_prev := pv hp e\<rparr>) = Some (relink (nx hp) ?p hp)"
    using set_prev [OF assms(2), of "nx hp" "pv hp"] by simp
  have 2: "relink (nx hp) ?p hp e = Some (x\<lparr>lh_next := nx hp e, lh_prev := pv hp e\<rparr>)" using x by (simp add: relink_at)
  show ?thesis using x 1 2 set_next [OF assms(3)] by (simp add: LRU_Remove_def at_defs)
qed

lemma LRU_Append_links:
  assumes "e \<in> dom hp" "l \<in> dom hp" "pv hp l \<in> dom hp" "e \<noteq> l" "pv hp l \<noteq> e"
  shows "LRU_Append hp l e = Some (relink ((nx hp)(e := l, pv hp l := e)) ((pv hp)(e := pv hp l, l := e)) hp)"
proof -
  obtain x y where x: "hp e = Some x" "hp l = Some y" using assms(1,2) by blast
  have pl: "lh_prev y = pv hp l" using x(2) by (simp add: pv_def)
  let ?n = "(nx hp)(e := l)" and ?p = "(pv hp)(e := pv hp l)"
  have 1: "set_at hp e (\<lambda>x. x\<lparr>lh_next := l\<rparr>) = Some (relink ?n (pv hp) hp)"
    using set_next [OF assms(1), of "nx hp" "pv hp"] by simp
  have 2: "relink ?n (pv hp) hp l = Some (y\<lparr>lh_next := nx hp l, lh_prev := pv hp l\<rparr>)" using x(2) assms(4) by (simp add: relink_at)
  have 3: "relink ?n ?p hp e = Some (x\<lparr>lh_next := l, lh_prev := pv hp l\<rparr>)" using x(1) by (simp add: relink_at)
  have 4: "relink (?n(pv hp l := e)) ?p hp e = Some (x\<lparr>lh_next := l, lh_prev := pv hp l\<rparr>)" using x(1) assms(5) by (simp add: relink_at)
  show ?thesis
    using 1 2 3 4 set_prev [OF assms(1)] set_next [OF assms(3)] set_prev [OF assms(2)]
    by (simp add: LRU_Append_def del: fun_upd_apply)
qed

subsection \<open>The two lists\<close>

definition rings :: "'v lru_heap \<Rightarrow> lru_ptr list \<Rightarrow> lru_ptr list \<Rightarrow> bool" where
  "rings hp lru use \<longleftrightarrow> dpath (nx hp) (pv hp) lru_head lru lru_head \<and> dpath (nx hp) (pv hp) in_use_head use in_use_head \<and>
     distinct (lru_head # in_use_head # lru @ use) \<and> set (lru_head # in_use_head # lru @ use) \<subseteq> dom hp \<and> 0 \<notin> dom hp \<and>
     (\<forall>a \<in> dom hp - {lru_head, in_use_head}. nx hp a \<noteq> a)"

text \<open>A ring \<open>h\<close>, \<open>xs\<close> beside the entries \<open>other\<close>.\<close>

lemma ring_remove:
  assumes "dpath (nx hp) (pv hp) h xs h" "distinct (h # xs)" "set (h # xs) \<subseteq> dom hp" "e \<in> set xs"
  shows "\<exists>n p. LRU_Remove hp e = Some (relink n p hp) \<and> dpath n p h (remove1 e xs) h \<and> (\<forall>a. a \<notin> set (h # xs) \<longrightarrow> n a = nx hp a \<and> p a = pv hp a) \<and>
    n e = nx hp e"
proof -
  obtain ys zs where xs: "xs = ys @ e # zs" using assms(4) by (metis split_list)
  have d: "dpath (nx hp) (pv hp) h ys e" "dpath (nx hp) (pv hp) e zs h" using assms(1) xs by (simp_all add: dpath_append)
  have pe: "pv hp e = last (h # ys)" and ne: "nx hp e = hd (zs @ [h])" using dpath_prev [OF d(1)] dpath_next [OF d(2)] by simp_all
  have "last (h # ys) \<in> set (h # ys)" by (rule last_in_set) simp
  then have pin: "pv hp e \<in> set (h # ys)" using pe by simp
  have "hd (zs @ [h]) \<in> set (zs @ [h])" by (rule hd_in_set) simp
  then have nin: "nx hp e \<in> set (zs @ [h])" using ne by simp
  have "LRU_Remove hp e = Some (relink ((nx hp)(pv hp e := nx hp e)) ((pv hp)(nx hp e := pv hp e)) hp)"
    by (rule LRU_Remove_links) (use assms(3) xs pin nin in auto)
  moreover have "dpath ((nx hp)(pv hp e := nx hp e)) ((pv hp)(nx hp e := pv hp e)) h (remove1 e xs) h"
    using dpath_remove [of "nx hp" "pv hp" h ys e zs h] assms(1,2) xs by (auto simp: remove1_append)
  moreover have "((nx hp)(pv hp e := nx hp e)) a = nx hp a \<and> ((pv hp)(nx hp e := pv hp e)) a = pv hp a" if "a \<notin> set (h # xs)" for a
    using that xs pin nin by auto
  moreover have "((nx hp)(pv hp e := nx hp e)) e = nx hp e" by simp
  ultimately show ?thesis by blast
qed

lemma ring_append:
  assumes "dpath (nx hp) (pv hp) h xs h" "distinct (h # xs)" "set (h # xs) \<subseteq> dom hp" "e \<in> dom hp" "e \<notin> set (h # xs)"
  shows "\<exists>n p. LRU_Append hp h e = Some (relink n p hp) \<and> dpath n p h (xs @ [e]) h \<and>
    (\<forall>a. a \<notin> set (h # e # xs) \<longrightarrow> n a = nx hp a \<and> p a = pv hp a)"
proof -
  have "last (h # xs) \<in> set (h # xs)" by (rule last_in_set) simp
  then have ph: "pv hp h \<in> set (h # xs)" using dpath_prev [OF assms(1)] by simp
  have "LRU_Append hp h e = Some (relink ((nx hp)(e := h, pv hp h := e)) ((pv hp)(e := pv hp h, h := e)) hp)"
    by (rule LRU_Append_links) (use assms(3-5) ph in auto)
  moreover have "dpath ((nx hp)(e := h, pv hp h := e)) ((pv hp)(e := pv hp h, h := e)) h (xs @ [e]) h"
    by (rule dpath_insert_last [OF assms(1)]) (use assms(2,5) in auto)
  moreover have "((nx hp)(e := h, pv hp h := e)) a = nx hp a \<and> ((pv hp)(e := pv hp h, h := e)) a = pv hp a"
    if "a \<notin> set (h # e # xs)" for a using that ph by auto
  ultimately show ?thesis by blast
qed

lemma dpath_relink:
  assumes "set (a # xs) \<subseteq> dom hp" "b \<in> dom hp"
  shows "dpath (nx (relink n p hp)) (pv (relink n p hp)) a xs b = dpath n p a xs b"
proof (rule dpath_cong)
  show "nx (relink n p hp) c = n c" if "c = a \<or> c \<in> set xs" for c
    by (rule fields_relink(1)) (use that assms(1) in auto)
  show "pv (relink n p hp) c = p c" if "c = b \<or> c \<in> set xs" for c
    by (rule fields_relink(2)) (use that assms in auto)
qed

lemma rings_relink:
  assumes "dpath n p lru_head lru lru_head" "dpath n p in_use_head use in_use_head"
    "distinct (lru_head # in_use_head # lru @ use)" "set (lru_head # in_use_head # lru @ use) \<subseteq> dom hp" "0 \<notin> dom hp"
    "\<forall>a \<in> dom hp - set (lru_head # in_use_head # lru @ use). n a \<noteq> a"
  shows "rings (relink n p hp) lru use"
proof -
  have "n a \<noteq> a" if a: "a \<in> set lru \<or> a \<in> set use" for a
    using a dpath_not_self [OF assms(1)] dpath_not_self [OF assms(2)] assms(3) by auto
  with assms(6) have "\<forall>a \<in> dom hp - {lru_head, in_use_head}. n a \<noteq> a" by auto
  then show ?thesis
    unfolding rings_def using assms(1-5) by (auto simp: dpath_relink)
qed

section \<open>leveldb: the operations of a shard keep its invariant\<close>

lemma upd_at [simp]:
  "nx (hp(e \<mapsto> y)) a = (if a = e then lh_next y else nx hp a)" "pv (hp(e \<mapsto> y)) a = (if a = e then lh_prev y else pv hp a)"
  "nh (hp(e \<mapsto> y)) a = (if a = e then lh_next_hash y else nh hp a)" "key_at (hp(e \<mapsto> y)) a = (if a = e then lh_key y else key_at hp a)"
  "hash_at (hp(e \<mapsto> y)) a = (if a = e then lh_hash y else hash_at hp a)" "val_at (hp(e \<mapsto> y)) a = (if a = e then lh_value y else val_at hp a)"
  "charge_at (hp(e \<mapsto> y)) a = (if a = e then lh_charge y else charge_at hp a)"
  "refs_at (hp(e \<mapsto> y)) a = (if a = e then unat (lh_refs y) else refs_at hp a)"
  "in_cache_at (hp(e \<mapsto> y)) a = (if a = e then lh_in_cache y else in_cache_at hp a)"
  by (simp_all add: at_defs)

lemma free_at [simp]:
  assumes "a \<noteq> e"
  shows "nx (hp(e := None)) a = nx hp a" "pv (hp(e := None)) a = pv hp a" "nh (hp(e := None)) a = nh hp a"
    "key_at (hp(e := None)) a = key_at hp a" "hash_at (hp(e := None)) a = hash_at hp a" "val_at (hp(e := None)) a = val_at hp a"
    "charge_at (hp(e := None)) a = charge_at hp a" "refs_at (hp(e := None)) a = refs_at hp a" "in_cache_at (hp(e := None)) a = in_cache_at hp a"
  using assms by (simp_all add: at_defs)

lemma at_some:
  assumes "hp e = Some x"
  shows "lh_next x = nx hp e" "lh_prev x = pv hp e" "lh_next_hash x = nh hp e" "lh_key x = key_at hp e" "lh_hash x = hash_at hp e"
    "lh_value x = val_at hp e" "lh_charge x = charge_at hp e" "unat (lh_refs x) = refs_at hp e" "lh_in_cache x = in_cache_at hp e"
  using assms by (simp_all add: at_defs)

subsection \<open>The invariant\<close>

abbreviation heads :: "lru_ptr set" where "heads \<equiv> {lru_head, in_use_head}"

text \<open>The flag and the counter of an entry: each client reference counts, and the cache's own.\<close>

definition refs_ok :: "lru_ptr set \<Rightarrow> lru_ptr multiset \<Rightarrow> bool \<Rightarrow> nat \<Rightarrow> lru_ptr \<Rightarrow> bool" where
  "refs_ok E R b n a \<longleftrightarrow> b = (a \<in> E) \<and> n = count R a + (if a \<in> E then 1 else 0) \<and> 0 < n"

lemma refs_ok_add: "refs_ok E R b n a \<Longrightarrow> refs_ok E (add_mset e R) b (n + (if a = e then 1 else 0)) a"
  by (auto simp: refs_ok_def)

lemma refs_ok_diff:
  "refs_ok E R b n a \<Longrightarrow> e \<in># R \<Longrightarrow> e \<in> E \<or> count R e \<noteq> 1 \<or> a \<noteq> e \<Longrightarrow> refs_ok E (R - {#e#}) b (n - (if a = e then 1 else 0)) a"
proof -
  assume a: "refs_ok E R b n a" "e \<in># R" "e \<in> E \<or> count R e \<noteq> 1 \<or> a \<noteq> e"
  obtain m where "count R e = Suc m" using a(2) by (meson count_eq_zero_iff not0_implies_Suc)
  with a(1,3) show ?thesis by (cases "a = e") (auto simp: refs_ok_def)
qed

lemma refs_ok_detach: "refs_ok E R b n a \<Longrightarrow> e \<in> E \<Longrightarrow> refs_ok (E - {e}) (add_mset e R) (a \<noteq> e \<and> b) n a"
  by (auto simp: refs_ok_def)

definition entries_ok ::
  "(Slice \<Rightarrow> u32) \<Rightarrow> (Slice \<Rightarrow> 'v \<Rightarrow> bool) \<Rightarrow> 'v lru_heap \<Rightarrow> lru_ptr set \<Rightarrow> lru_ptr multiset \<Rightarrow> bool" where
  "entries_ok hf Q hp E R \<longleftrightarrow> set_mset R \<subseteq> dom hp - heads \<and>
     (\<forall>a \<in> dom hp - heads. refs_ok E R (in_cache_at hp a) (refs_at hp a) a \<and> hash_at hp a = hf (key_at hp a) \<and> (\<exists>v. val_at hp a = Some v \<and> Q (key_at hp a) v))"

text \<open>The calls of deleters made and those still to come.\<close>

definition owed :: "'v LRUCache \<Rightarrow> (Slice \<times> 'v option) multiset" where
  "owed c = mset (lc_deleted c) + image_mset (\<lambda>a. (key_at (lc_heap c) a, val_at (lc_heap c) a)) (mset_set (dom (lc_heap c) - heads))"

definition shard_inv ::
  "(Slice \<Rightarrow> u32) \<Rightarrow> (Slice \<Rightarrow> 'v \<Rightarrow> bool) \<Rightarrow> lru_ptr set \<Rightarrow> 'v LRUCache \<Rightarrow> lru_ptr list \<Rightarrow> lru_ptr list \<Rightarrow> lru_ptr multiset \<Rightarrow> bool" where
  "shard_inv hf Q T c lru use R \<longleftrightarrow> rings (lc_heap c) lru use \<and> dom (lc_heap c) \<subseteq> {..<lc_brk c} \<and> table_ok (lc_heap c) hf (lc_table c) T \<and>
     lc_usage c = (\<Sum>a \<in> set lru \<union> set use. charge_at (lc_heap c) a) \<and> entries_ok hf Q (lc_heap c) (set lru \<union> set use) R \<and>
     (\<forall>a \<in> set lru. a \<notin># R) \<and> (\<forall>a \<in> set use. a \<in># R)"

abbreviation shard_ok ::
  "(Slice \<Rightarrow> u32) \<Rightarrow> (Slice \<Rightarrow> 'v \<Rightarrow> bool) \<Rightarrow> 'v LRUCache \<Rightarrow> lru_ptr list \<Rightarrow> lru_ptr list \<Rightarrow> lru_ptr multiset \<Rightarrow> bool" where
  "shard_ok hf Q c lru use R \<equiv> shard_inv hf Q (set lru \<union> set use) c lru use R"

text \<open>What an operation keeps: the capacity, the contents of the entries that remain, and the calls of deleters.\<close>

definition keeps :: "'v LRUCache \<Rightarrow> 'v LRUCache \<Rightarrow> bool" where
  "keeps c c' \<longleftrightarrow> lc_capacity c' = lc_capacity c \<and> dom (lc_heap c') \<subseteq> dom (lc_heap c) \<and> owed c' = owed c \<and>
     (\<forall>a \<in> dom (lc_heap c'). key_at (lc_heap c') a = key_at (lc_heap c) a \<and> val_at (lc_heap c') a = val_at (lc_heap c) a \<and>
        charge_at (lc_heap c') a = charge_at (lc_heap c) a)"

lemma keeps_refl [simp]: "keeps c c"
  by (simp add: keeps_def)

lemma keeps_trans: "keeps c1 c2 \<Longrightarrow> keeps c2 c3 \<Longrightarrow> keeps c1 c3"
  unfolding keeps_def by (metis subset_iff)

lemma rings_frame:
  assumes "rings hp lru use" "set lru \<union> set use \<union> heads \<subseteq> dom hp'" "0 \<notin> dom hp'"
    "\<And>a. a \<in> set lru \<union> set use \<union> heads \<Longrightarrow> nx hp' a = nx hp a \<and> pv hp' a = pv hp a" "\<And>a. a \<in> dom hp' - heads \<Longrightarrow> nx hp' a \<noteq> a"
  shows "rings hp' lru use"
proof -
  have "dpath (nx hp') (pv hp') lru_head lru lru_head = dpath (nx hp) (pv hp) lru_head lru lru_head"
    by (rule dpath_cong) (use assms(4) in auto)
  moreover have "dpath (nx hp') (pv hp') in_use_head use in_use_head = dpath (nx hp) (pv hp) in_use_head use in_use_head"
    by (rule dpath_cong) (use assms(4) in auto)
  ultimately show ?thesis using assms unfolding rings_def by auto
qed

lemma table_ok_frame:
  assumes "table_ok hp hf t T" "T \<subseteq> dom hp'"
    "\<And>a. a \<in> T \<Longrightarrow> nh hp' a = nh hp a \<and> key_at hp' a = key_at hp a \<and> hash_at hp' a = hash_at hp a \<and> nx hp' a \<noteq> a"
  shows "table_ok hp' hf t T"
proof -
  obtain bss where b: "buckets hp (ht_list t) bss T" using assms(1) by (auto simp: table_ok_def)
  have "buckets hp' (ht_list t) bss T"
  proof -
    have "chain (nh hp') (ht_list t ! i) (bss ! i) \<and> (\<forall>a \<in> set (bss ! i). bucket_of (hash_at hp' a) (of_nat (length (ht_list t))) = i)"
      if i: "i < length bss" for i
    proof -
      have i': "i < length (ht_list t)" using i b by (simp add: buckets_def)
      note at = buckets_at [OF b i']
      have "chain (nh hp') (ht_list t ! i) (bss ! i) = chain (nh hp) (ht_list t ! i) (bss ! i)"
        by (rule chain_cong) (use at(3) assms(3) in blast)
      then show ?thesis using at assms(3) by (metis subsetD)
    qed
    then show ?thesis using b by (simp add: buckets_def)
  qed
  moreover have "inj_on (key_at hp') T = inj_on (key_at hp) T" by (rule inj_on_cong) (use assms(3) in blast)
  moreover have "entry_ok hp' hf a" if "a \<in> T" for a
    using that assms unfolding table_ok_def entry_ok_def by (metis subsetD)
  ultimately show ?thesis using assms(1) unfolding table_ok_def by blast
qed

lemma heads_distinct [simp]: "lru_head \<noteq> in_use_head" "in_use_head \<noteq> lru_head"
  by (simp_all add: lru_head_def in_use_head_def)

lemma rings_facts:
  assumes "rings hp lru use"
  shows "set lru \<union> set use \<union> heads \<subseteq> dom hp" "distinct lru" "distinct use" "set lru \<inter> set use = {}" "set lru \<inter> heads = {}" "set use \<inter> heads = {}"
    "0 \<notin> dom hp" "a \<in> dom hp \<Longrightarrow> a \<notin> heads \<Longrightarrow> nx hp a \<noteq> a"
  using assms unfolding rings_def by auto

lemma rings_member: "rings hp lru use \<Longrightarrow> a \<in> set lru \<union> set use \<Longrightarrow> a \<in> dom hp \<and> a \<notin> heads \<and> nx hp a \<noteq> a"
  using rings_facts [of hp lru use] by blast

subsection \<open>Moving entries between the lists\<close>

lemma dpath_outside:
  assumes "\<forall>a. a \<notin> A \<longrightarrow> n a = n' a \<and> p a = p' a" "set (h # xs) \<inter> A = {}"
  shows "dpath n p h xs h = dpath n' p' h xs h"
proof (rule dpath_cong)
  have "c \<notin> A" if "c = h \<or> c \<in> set xs" for c using that assms(2) by auto
  then show "n c = n' c" "p c = p' c" if "c = h \<or> c \<in> set xs" for c using that assms(1) by simp_all
qed

lemma remove1_other: "e \<notin> set xs \<Longrightarrow> remove1 e xs = xs"
  by (induction xs) auto

lemma rings_remove:
  assumes R: "rings hp lru use" and e: "e \<in> set lru \<union> set use"
  shows "\<exists>n p. LRU_Remove hp e = Some (relink n p hp) \<and> rings (relink n p hp) (remove1 e lru) (remove1 e use)"
proof -
  have r: "dpath (nx hp) (pv hp) lru_head lru lru_head" "dpath (nx hp) (pv hp) in_use_head use in_use_head"
    "distinct (lru_head # in_use_head # lru @ use)" "set (lru_head # in_use_head # lru @ use) \<subseteq> dom hp" "0 \<notin> dom hp"
    "\<And>a. a \<in> dom hp - heads \<Longrightarrow> nx hp a \<noteq> a" using R by (simp_all add: rings_def)
  have final: ?thesis if rem: "LRU_Remove hp e = Some (relink n p hp)" "n e = nx hp e"
    "dpath n p lru_head (remove1 e lru) lru_head" "dpath n p in_use_head (remove1 e use) in_use_head"
    "\<And>a. a \<notin> set (lru_head # in_use_head # lru @ use) \<Longrightarrow> n a = nx hp a" for n p
  proof -
    have "rings (relink n p hp) (remove1 e lru) (remove1 e use)"
    proof (rule rings_relink [OF rem(3,4)])
      show "distinct (lru_head # in_use_head # remove1 e lru @ remove1 e use)" using r(3) by (auto dest: notin_set_remove1)
      show "set (lru_head # in_use_head # remove1 e lru @ remove1 e use) \<subseteq> dom hp"
        using r(4) set_remove1_subset [of e lru] set_remove1_subset [of e use] by auto
      show "0 \<notin> dom hp" by (rule r(5))
      show "\<forall>a \<in> dom hp - set (lru_head # in_use_head # remove1 e lru @ remove1 e use). n a \<noteq> a"
      proof
        fix a assume a: "a \<in> dom hp - set (lru_head # in_use_head # remove1 e lru @ remove1 e use)"
        then have "nx hp a \<noteq> a" using r(6) by auto
        moreover have "a = e \<or> a \<notin> set (lru_head # in_use_head # lru @ use)" using a by (auto simp: in_set_remove1)
        ultimately show "n a \<noteq> a" using rem(2,5) by auto
      qed
    qed
    with rem(1) show ?thesis by blast
  qed
  show ?thesis
  proof (cases "e \<in> set lru")
    case True
    obtain n p where np: "LRU_Remove hp e = Some (relink n p hp)" "dpath n p lru_head (remove1 e lru) lru_head" "n e = nx hp e"
      "\<forall>a. a \<notin> set (lru_head # lru) \<longrightarrow> n a = nx hp a \<and> p a = pv hp a"
      using ring_remove [OF r(1) _ _ True] r(3,4) by auto
    have "dpath n p in_use_head use in_use_head = dpath (nx hp) (pv hp) in_use_head use in_use_head"
      by (rule dpath_outside [OF np(4)]) (use r(3) in auto)
    moreover have "e \<notin> set use" using True r(3) by auto
    ultimately show ?thesis using r(2) np by (intro final [of n p]) (auto simp: remove1_other)
  next
    case False
    then have True: "e \<in> set use" using e by simp
    obtain n p where np: "LRU_Remove hp e = Some (relink n p hp)" "dpath n p in_use_head (remove1 e use) in_use_head" "n e = nx hp e"
      "\<forall>a. a \<notin> set (in_use_head # use) \<longrightarrow> n a = nx hp a \<and> p a = pv hp a"
      using ring_remove [OF r(2) _ _ True] r(3,4) by auto
    have "dpath n p lru_head lru lru_head = dpath (nx hp) (pv hp) lru_head lru lru_head"
      by (rule dpath_outside [OF np(4)]) (use r(3) in auto)
    then show ?thesis using r(1) np False by (intro final [of n p]) (auto simp: remove1_other)
  qed
qed

lemma rings_append:
  assumes R: "rings hp lru use" and e: "e \<in> dom hp" "e \<notin> set lru \<union> set use \<union> heads"
  shows "\<exists>n p. LRU_Append hp in_use_head e = Some (relink n p hp) \<and> rings (relink n p hp) lru (use @ [e])"
    "\<exists>n p. LRU_Append hp lru_head e = Some (relink n p hp) \<and> rings (relink n p hp) (lru @ [e]) use"
proof -
  have r: "dpath (nx hp) (pv hp) lru_head lru lru_head" "dpath (nx hp) (pv hp) in_use_head use in_use_head"
    "distinct (lru_head # in_use_head # lru @ use)" "set (lru_head # in_use_head # lru @ use) \<subseteq> dom hp" "0 \<notin> dom hp"
    "\<And>a. a \<in> dom hp - heads \<Longrightarrow> nx hp a \<noteq> a" using R by (simp_all add: rings_def)
  have final: "rings (relink n p hp) lru' use'" if np: "dpath n p lru_head lru' lru_head" "dpath n p in_use_head use' in_use_head"
      "distinct (lru_head # in_use_head # lru' @ use')" "set lru' \<union> set use' = insert e (set lru \<union> set use)"
      "\<And>a. a \<notin> set (lru_head # in_use_head # e # lru @ use) \<Longrightarrow> n a = nx hp a" for n p lru' use'
  proof (rule rings_relink [OF np(1-3) _ r(5)])
    show "set (lru_head # in_use_head # lru' @ use') \<subseteq> dom hp" using np(4) r(4) e(1) by auto
    show "\<forall>a \<in> dom hp - set (lru_head # in_use_head # lru' @ use'). n a \<noteq> a"
    proof
      fix a assume a: "a \<in> dom hp - set (lru_head # in_use_head # lru' @ use')"
      then have "nx hp a \<noteq> a" using r(6) by auto
      moreover have "a \<notin> set (lru_head # in_use_head # e # lru @ use)" using a np(4) by auto
      ultimately show "n a \<noteq> a" using np(5) by simp
    qed
  qed
  have use: "distinct (in_use_head # use)" "set (in_use_head # use) \<subseteq> dom hp" "e \<notin> set (in_use_head # use)" using r(3,4) e by auto
  obtain n p where np: "LRU_Append hp in_use_head e = Some (relink n p hp)" "dpath n p in_use_head (use @ [e]) in_use_head"
    "\<forall>a. a \<notin> set (in_use_head # e # use) \<longrightarrow> n a = nx hp a \<and> p a = pv hp a"
    using ring_append [OF r(2) use(1,2) e(1) use(3)] by blast
  have "dpath n p lru_head lru lru_head = dpath (nx hp) (pv hp) lru_head lru lru_head"
    by (rule dpath_outside [OF np(3)]) (use r(3) e in auto)
  then have "rings (relink n p hp) lru (use @ [e])" using r(1,3) np(2,3) e by (intro final) auto
  with np(1) show "\<exists>n p. LRU_Append hp in_use_head e = Some (relink n p hp) \<and> rings (relink n p hp) lru (use @ [e])" by blast
  have lru: "distinct (lru_head # lru)" "set (lru_head # lru) \<subseteq> dom hp" "e \<notin> set (lru_head # lru)" using r(3,4) e by auto
  obtain n p where np: "LRU_Append hp lru_head e = Some (relink n p hp)" "dpath n p lru_head (lru @ [e]) lru_head"
    "\<forall>a. a \<notin> set (lru_head # e # lru) \<longrightarrow> n a = nx hp a \<and> p a = pv hp a"
    using ring_append [OF r(1) lru(1,2) e(1) lru(3)] by blast
  have "dpath n p in_use_head use in_use_head = dpath (nx hp) (pv hp) in_use_head use in_use_head"
    by (rule dpath_outside [OF np(3)]) (use r(3) e in auto)
  then have "rings (relink n p hp) (lru @ [e]) use" using r(2,3) np(2,3) e by (intro final) auto
  with np(1) show "\<exists>n p. LRU_Append hp lru_head e = Some (relink n p hp) \<and> rings (relink n p hp) (lru @ [e]) use" by blast
qed

subsection \<open>References\<close>

lemma owed_same:
  assumes "lc_deleted c' = lc_deleted c" "dom (lc_heap c') = dom (lc_heap c)" "finite (dom (lc_heap c))"
    "\<And>a. a \<in> dom (lc_heap c) \<Longrightarrow> key_at (lc_heap c') a = key_at (lc_heap c) a \<and> val_at (lc_heap c') a = val_at (lc_heap c) a"
  shows "owed c' = owed c"
  unfolding owed_def assms(1,2) using assms(3,4) by (auto intro!: image_mset_cong)

lemma shard_finite: "shard_inv hf Q T c lru use R \<Longrightarrow> finite (dom (lc_heap c))"
  unfolding shard_inv_def by (meson finite_lessThan finite_subset)

lemma shard_facts:
  assumes "shard_inv hf Q T c lru use R"
  shows "rings (lc_heap c) lru use" "table_ok (lc_heap c) hf (lc_table c) T" "lc_usage c = (\<Sum>a \<in> set lru \<union> set use. charge_at (lc_heap c) a)"
    "set_mset R \<subseteq> dom (lc_heap c) - heads" "\<forall>a \<in> set lru. a \<notin># R" "\<forall>a \<in> set use. a \<in># R"
    "a \<in> dom (lc_heap c) \<Longrightarrow> a \<notin> heads \<Longrightarrow> refs_ok (set lru \<union> set use) R (in_cache_at (lc_heap c) a) (refs_at (lc_heap c) a) a \<and>
      hash_at (lc_heap c) a = hf (key_at (lc_heap c) a) \<and> (\<exists>v. val_at (lc_heap c) a = Some v \<and> Q (key_at (lc_heap c) a) v)"
proof -
  note i = assms [unfolded shard_inv_def entries_ok_def]
  from i show "rings (lc_heap c) lru use" "table_ok (lc_heap c) hf (lc_table c) T" "lc_usage c = (\<Sum>a \<in> set lru \<union> set use. charge_at (lc_heap c) a)"
    "set_mset R \<subseteq> dom (lc_heap c) - heads" "\<forall>a \<in> set lru. a \<notin># R" "\<forall>a \<in> set use. a \<in># R" by blast+
  from i have all: "\<forall>a \<in> dom (lc_heap c) - heads. refs_ok (set lru \<union> set use) R (in_cache_at (lc_heap c) a) (refs_at (lc_heap c) a) a \<and>
      hash_at (lc_heap c) a = hf (key_at (lc_heap c) a) \<and> (\<exists>v. val_at (lc_heap c) a = Some v \<and> Q (key_at (lc_heap c) a) v)" by blast
  show "refs_ok (set lru \<union> set use) R (in_cache_at (lc_heap c) a) (refs_at (lc_heap c) a) a \<and>
      hash_at (lc_heap c) a = hf (key_at (lc_heap c) a) \<and> (\<exists>v. val_at (lc_heap c) a = Some v \<and> Q (key_at (lc_heap c) a) v)"
    if "a \<in> dom (lc_heap c)" "a \<notin> heads" using all that by blast
qed

text \<open>A change of links, references and flags.\<close>

lemma shard_change:
  assumes I: "shard_inv hf Q T c lru use R"
    and c': "lc_table c' = lc_table c" "lc_brk c' = lc_brk c" "lc_capacity c' = lc_capacity c" "lc_deleted c' = lc_deleted c"
    and rings: "rings (lc_heap c') lru' use'"
    and dom: "dom (lc_heap c') = dom (lc_heap c)"
    and same: "\<And>a. a \<in> dom (lc_heap c) \<Longrightarrow> nh (lc_heap c') a = nh (lc_heap c) a \<and> key_at (lc_heap c') a = key_at (lc_heap c) a \<and>
      hash_at (lc_heap c') a = hash_at (lc_heap c) a \<and> val_at (lc_heap c') a = val_at (lc_heap c) a \<and> charge_at (lc_heap c') a = charge_at (lc_heap c) a"
    and T: "T \<inter> heads = {}"
    and usage: "lc_usage c' = (\<Sum>a \<in> set lru' \<union> set use'. charge_at (lc_heap c) a)"
    and refs: "\<And>a. a \<in> dom (lc_heap c) \<Longrightarrow> a \<notin> heads \<Longrightarrow>
      refs_ok (set lru' \<union> set use') R' (in_cache_at (lc_heap c') a) (refs_at (lc_heap c') a) a"
    and R': "set_mset R' \<subseteq> dom (lc_heap c) - heads" "\<forall>a \<in> set lru'. a \<notin># R'" "\<forall>a \<in> set use'. a \<in># R'"
  shows "shard_inv hf Q T c' lru' use' R' \<and> keeps c c'"
proof -
  note i = I [unfolded shard_inv_def]
  note r = rings_facts [OF rings]
  have tdom: "T \<subseteq> dom (lc_heap c)" using i table_dom by blast
  have "table_ok (lc_heap c') hf (lc_table c') T"
    unfolding c'(1)
  proof (rule table_ok_frame)
    show "table_ok (lc_heap c) hf (lc_table c) T" using i by simp
    show "T \<subseteq> dom (lc_heap c')" using tdom dom by simp
    fix a assume a: "a \<in> T"
    then have "a \<in> dom (lc_heap c)" "a \<notin> heads" using tdom T by auto
    then show "nh (lc_heap c') a = nh (lc_heap c) a \<and> key_at (lc_heap c') a = key_at (lc_heap c) a \<and>
        hash_at (lc_heap c') a = hash_at (lc_heap c) a \<and> nx (lc_heap c') a \<noteq> a"
      using same r(8) dom by simp
  qed
  moreover have "(\<Sum>a \<in> set lru' \<union> set use'. charge_at (lc_heap c) a) = (\<Sum>a \<in> set lru' \<union> set use'. charge_at (lc_heap c') a)"
  proof (rule sum.cong)
    fix a assume "a \<in> set lru' \<union> set use'"
    then have "a \<in> dom (lc_heap c)" using r(1) dom by auto
    then show "charge_at (lc_heap c) a = charge_at (lc_heap c') a" using same by simp
  qed simp
  moreover have "entries_ok hf Q (lc_heap c') (set lru' \<union> set use') R'"
    unfolding entries_ok_def
  proof (intro conjI)
    show "set_mset R' \<subseteq> dom (lc_heap c') - heads" using R'(1) dom by simp
    show "\<forall>a \<in> dom (lc_heap c') - heads. refs_ok (set lru' \<union> set use') R' (in_cache_at (lc_heap c') a) (refs_at (lc_heap c') a) a \<and>
        hash_at (lc_heap c') a = hf (key_at (lc_heap c') a) \<and> (\<exists>v. val_at (lc_heap c') a = Some v \<and> Q (key_at (lc_heap c') a) v)"
    proof
      fix a assume a: "a \<in> dom (lc_heap c') - heads"
      then have d: "a \<in> dom (lc_heap c)" "a \<notin> heads" using dom by auto
      then have "hash_at (lc_heap c) a = hf (key_at (lc_heap c) a) \<and> (\<exists>v. val_at (lc_heap c) a = Some v \<and> Q (key_at (lc_heap c) a) v)"
        using shard_facts(7) [OF I] by blast
      moreover have "refs_ok (set lru' \<union> set use') R' (in_cache_at (lc_heap c') a) (refs_at (lc_heap c') a) a"
        using refs d by blast
      moreover have "hash_at (lc_heap c') a = hash_at (lc_heap c) a" "key_at (lc_heap c') a = key_at (lc_heap c) a"
        "val_at (lc_heap c') a = val_at (lc_heap c) a" using same [OF d(1)] by blast+
      ultimately show "refs_ok (set lru' \<union> set use') R' (in_cache_at (lc_heap c') a) (refs_at (lc_heap c') a) a \<and>
        hash_at (lc_heap c') a = hf (key_at (lc_heap c') a) \<and> (\<exists>v. val_at (lc_heap c') a = Some v \<and> Q (key_at (lc_heap c') a) v)"
        by metis
    qed
  qed
  ultimately have "shard_inv hf Q T c' lru' use' R'" using i rings dom c' usage R'(2,3) by (simp add: shard_inv_def)
  moreover have "owed c' = owed c" by (rule owed_same [OF c'(4) dom shard_finite [OF I]]) (use same in blast)
  then have "keeps c c'" using c'(3) dom same by (simp add: keeps_def)
  ultimately show ?thesis ..
qed

lemma rings_set:
  assumes "rings hp lru use" "hp e = Some x" "lh_next y = lh_next x" "lh_prev y = lh_prev x"
  shows "rings (hp(e \<mapsto> y)) lru use"
proof (rule rings_frame [OF assms(1)])
  note r = rings_facts [OF assms(1)]
  have d: "dom (hp(e \<mapsto> y)) = dom hp" using assms(2) by auto
  have same: "nx (hp(e \<mapsto> y)) a = nx hp a" "pv (hp(e \<mapsto> y)) a = pv hp a" for a
    using at_some [of hp e x, OF assms(2)] assms(3,4) by simp_all
  show "set lru \<union> set use \<union> heads \<subseteq> dom (hp(e \<mapsto> y))" "0 \<notin> dom (hp(e \<mapsto> y))" unfolding d using r(1,7) by simp_all
  show "nx (hp(e \<mapsto> y)) a = nx hp a \<and> pv (hp(e \<mapsto> y)) a = pv hp a" for a using same by simp
  show "nx (hp(e \<mapsto> y)) a \<noteq> a" if "a \<in> dom (hp(e \<mapsto> y)) - heads" for a using that r(8) [of a] unfolding same d by blast
qed

lemma heap_set: "lc_heap (c\<lparr>lc_heap := hp\<rparr>) = hp"
  by simp

text \<open>How many references an entry may have before another one: the cache's own is not among them.\<close>

definition max_refs :: nat where
  "max_refs = 2 ^ 32 - 2"

lemma refs_up: "unat (w :: u32) \<le> max_refs \<Longrightarrow> unat (w + 1) = unat w + 1"
  by (simp add: max_refs_def unat_word_ariths)

lemma refs_down: "0 < unat (w :: u32) \<Longrightarrow> unat (w - 1) = unat w - 1 \<and> w \<noteq> 0"
proof -
  assume "0 < unat w"
  then have "w \<noteq> 0" "(1 :: u32) \<le> w" by (auto simp: word_le_nat_alt)
  then show ?thesis by (simp add: unat_sub)
qed

lemma refs_one: "(w :: u32) = 1 \<longleftrightarrow> unat w = 1"
  by (simp add: word_unat_eq_iff)

lemma Ref_ok:
  assumes I: "shard_ok hf Q c lru use R" and e: "e \<in> set lru \<union> set use" and few: "count R e < max_refs"
  shows "\<exists>c'. Ref c e = Some c' \<and> shard_ok hf Q c' (remove1 e lru) (if e \<in> set lru then use @ [e] else use) (add_mset e R) \<and> keeps c c'"
proof -
  let ?hp = "lc_heap c" and ?lru = "remove1 e lru" and ?use = "if e \<in> set lru then use @ [e] else use"
  note f = shard_facts [OF I]
  note r = rings_facts [OF f(1)]
  have ed: "e \<in> dom ?hp" "e \<notin> heads" using r(1,5,6) e by auto
  obtain x where x: "?hp e = Some x" using ed(1) by blast
  have refs: "unat (lh_refs x) = count R e + 1" "lh_in_cache x" using f(7) [OF ed] e at_some [of ?hp e x, OF x] by (auto simp: refs_ok_def)
  have zero: "count R e = 0 \<longleftrightarrow> e \<in> set lru" using f(5,6) e by (auto simp: count_eq_zero_iff)
  have "\<exists>n p. (if lh_refs x = 1 \<and> lh_in_cache x then do { hp \<leftarrow> LRU_Remove ?hp e; LRU_Append hp in_use_head e } else Some ?hp) = Some (relink n p ?hp) \<and>
    rings (relink n p ?hp) ?lru ?use"
  proof (cases "e \<in> set lru")
    case True
    then have notuse: "e \<notin> set use" using r(4) by auto
    obtain n p where 1: "LRU_Remove ?hp e = Some (relink n p ?hp)" "rings (relink n p ?hp) ?lru use"
      using rings_remove [OF f(1) e] notuse by (auto simp: remove1_other)
    obtain n' p' where 2: "LRU_Append (relink n p ?hp) in_use_head e = Some (relink n' p' (relink n p ?hp))"
      "rings (relink n' p' (relink n p ?hp)) ?lru (use @ [e])"
      using rings_append(1) [OF 1(2), of e] ed True r(2) notuse by (auto simp: dom_relink)
    from 1 2 True refs zero show ?thesis by (intro exI [of _ n'] exI [of _ p']) (simp add: refs_one)
  next
    case False
    then have "lh_refs x \<noteq> 1" using refs(1) zero by (simp add: refs_one)
    with False show ?thesis using f(1) by - (rule exI [of _ "nx ?hp"], rule exI [of _ "pv ?hp"], simp add: remove1_other)
  qed
  then obtain n p where np: "(if lh_refs x = 1 \<and> lh_in_cache x then do { hp \<leftarrow> LRU_Remove ?hp e; LRU_Append hp in_use_head e } else Some ?hp) = Some (relink n p ?hp)"
    "rings (relink n p ?hp) ?lru ?use" by blast
  let ?h = "relink n p ?hp"
  obtain y where y: "?h e = Some y" using x by (simp add: relink_at)
  have up: "unat (lh_refs y + 1) = refs_at ?hp e + 1"
  proof -
    have "unat (lh_refs y) = refs_at ?hp e" using at_some [of ?h e y, OF y] ed(1) by simp
    moreover have "refs_at ?hp e \<le> max_refs" using at_some [of ?hp e x, OF x] refs(1) few by simp
    ultimately show ?thesis by (simp add: refs_up)
  qed
  let ?hp' = "?h(e \<mapsto> y\<lparr>lh_refs := lh_refs y + 1\<rparr>)" and ?c' = "\<lambda>hp. c\<lparr>lc_heap := hp\<rparr>"
  have fields: "nh ?hp' a = nh ?hp a" "key_at ?hp' a = key_at ?hp a" "hash_at ?hp' a = hash_at ?hp a" "val_at ?hp' a = val_at ?hp a"
    "charge_at ?hp' a = charge_at ?hp a" "in_cache_at ?hp' a = in_cache_at ?hp a" "refs_at ?hp' a = refs_at ?hp a + (if a = e then 1 else 0)"
    if "a \<in> dom ?hp" for a
    using that ed(1) up by (simp_all add: at_some [of ?h e y, OF y])
  have lists: "set ?lru \<union> set ?use = set lru \<union> set use" using r(2) e by auto
  have "shard_ok hf Q (?c' ?hp') ?lru ?use (add_mset e R) \<and> keeps c (?c' ?hp')"
    unfolding lists
  proof (rule shard_change [OF I])
    show "rings (lc_heap (?c' ?hp')) ?lru ?use" using rings_set [OF np(2), of e] y by simp
    show "dom (lc_heap (?c' ?hp')) = dom ?hp" using ed by (simp add: insert_absorb)
    show "(set lru \<union> set use) \<inter> heads = {}" using r(5,6) by blast
    show "lc_usage (?c' ?hp') = (\<Sum>a \<in> set ?lru \<union> set ?use. charge_at ?hp a)" unfolding lists using f(3) by simp
    show "refs_ok (set ?lru \<union> set ?use) (add_mset e R) (in_cache_at (lc_heap (?c' ?hp')) a) (refs_at (lc_heap (?c' ?hp')) a) a"
      if a: "a \<in> dom ?hp" "a \<notin> heads" for a
      unfolding lists using refs_ok_add [OF conjunct1 [OF f(7) [OF a]], of e] by (simp only: heap_set fields [OF a(1)])
    show "set_mset (add_mset e R) \<subseteq> dom ?hp - heads" using f(4) ed by simp
    show "\<forall>a \<in> set ?lru. a \<notin># add_mset e R" using f(5) r(2) by auto
    show "\<forall>a \<in> set ?use. a \<in># add_mset e R" using f(6) by auto
  qed (simp_all only: heap_set fields LRUCache.simps, simp_all)
  moreover have "set_at ?h e (\<lambda>x. x\<lparr>lh_refs := lh_refs x + 1\<rparr>) = Some ?hp'" using y by (simp add: set_at_def)
  ultimately show ?thesis using x np(1) by (intro exI [of _ "?c' ?hp'"]) (simp add: Ref_def Let_def)
qed

lemma Unref_ok:
  assumes I: "shard_ok hf Q c lru use R" and e: "e \<in># R"
  shows "\<exists>c'. Unref c e = Some c' \<and> keeps c c' \<and>
    shard_ok hf Q c' (if count R e = 1 \<and> e \<in> set use then lru @ [e] else lru)
      (if count R e = 1 then remove1 e use else use) (R - {#e#})"
proof -
  let ?hp = "lc_heap c" and ?R = "R - {#e#}"
  define final where "final \<longleftrightarrow> count R e = 1"
  note f = shard_facts [OF I]
  note r = rings_facts [OF f(1)]
  have ed: "e \<in> dom ?hp" "e \<notin> heads" using f(4) e by auto
  obtain x where x: "?hp e = Some x" using ed(1) by blast
  note ex = at_some [of ?hp e x, OF x]
  have elru: "e \<notin> set lru" using f(5) e by blast
  have refs: "unat (lh_refs x) = count R e + (if e \<in> set use then 1 else 0)" "lh_in_cache x = (e \<in> set use)" "0 < unat (lh_refs x)"
    using f(7) [OF ed] elru ex by (auto simp: refs_ok_def)
  have pos: "0 < count R e" using e by simp
  note down = refs_down [OF refs(3)]
  have zero: "lh_refs x - 1 = 0 \<longleftrightarrow> count R e = 1 \<and> e \<notin> set use" "lh_refs x - 1 = 1 \<longleftrightarrow> count R e + (if e \<in> set use then 1 else 0) = 2"
    "lh_refs x > 0"
  proof -
    have "lh_refs x - 1 = 0 \<longleftrightarrow> unat (lh_refs x - 1) = 0" by (simp add: word_unat_eq_iff)
    then show "lh_refs x - 1 = 0 \<longleftrightarrow> count R e = 1 \<and> e \<notin> set use" using down refs(1) pos by auto
    have "lh_refs x - 1 = 1 \<longleftrightarrow> unat (lh_refs x - 1) = 1" by (simp add: word_unat_eq_iff)
    then show "lh_refs x - 1 = 1 \<longleftrightarrow> count R e + (if e \<in> set use then 1 else 0) = 2" using down refs(1) pos by auto
    show "lh_refs x > 0" using down by (simp add: word_neq_0_conv)
  qed
  let ?h = "?hp(e \<mapsto> x\<lparr>lh_refs := lh_refs x - 1\<rparr>)" and ?c' = "\<lambda>hp. c\<lparr>lc_heap := hp\<rparr>"
  have set': "set_at ?hp e (\<lambda>x. x\<lparr>lh_refs := lh_refs x - 1\<rparr>) = Some ?h" using x by (simp add: set_at_def)
  have ringsh: "rings ?h lru use" by (rule rings_set [OF f(1) x]) simp_all
  have domh: "dom ?h = dom ?hp" using ed(1) by (simp add: insert_absorb)
  have fields: "nh ?h a = nh ?hp a" "key_at ?h a = key_at ?hp a" "hash_at ?h a = hash_at ?hp a" "val_at ?h a = val_at ?hp a"
    "charge_at ?h a = charge_at ?hp a" "in_cache_at ?h a = in_cache_at ?hp a" "refs_at ?h a = refs_at ?hp a - (if a = e then 1 else 0)" for a
    using ex conjunct1 [OF down] by simp_all
  have Rd: "set_mset ?R \<subseteq> dom ?hp - heads" using f(4) by (meson in_diffD subset_iff)
  have change: "shard_ok hf Q (?c' (relink n p ?h)) lru' use' ?R \<and> keeps c (?c' (relink n p ?h))"
    if np: "rings (relink n p ?h) lru' use'" "set lru' \<union> set use' = set lru \<union> set use" "\<forall>a \<in> set lru'. a \<notin># ?R" "\<forall>a \<in> set use'. a \<in># ?R"
      "e \<in> set use \<or> \<not> final" for n p lru' use'
    unfolding np(2)
  proof (rule shard_change [OF I])
    show "rings (lc_heap (?c' (relink n p ?h))) lru' use'" using np(1) by simp
    show "dom (lc_heap (?c' (relink n p ?h))) = dom ?hp" by (simp only: heap_set dom_relink domh)
    show "(set lru \<union> set use) \<inter> heads = {}" using r(5,6) by blast
    show "lc_usage (?c' (relink n p ?h)) = (\<Sum>a \<in> set lru' \<union> set use'. charge_at ?hp a)" unfolding np(2) using f(3) by simp
    show "refs_ok (set lru' \<union> set use') ?R (in_cache_at (lc_heap (?c' (relink n p ?h))) a) (refs_at (lc_heap (?c' (relink n p ?h))) a) a"
      if a: "a \<in> dom ?hp" "a \<notin> heads" for a
    proof -
      have "a \<in> dom ?h" using a domh by blast
      then have "refs_at (relink n p ?h) a = refs_at ?hp a - (if a = e then 1 else 0)" "in_cache_at (relink n p ?h) a = in_cache_at ?hp a"
        by (simp_all only: fields_relink2 fields)
      moreover have "e \<in> set lru \<union> set use \<or> count R e \<noteq> 1 \<or> a \<noteq> e" using np(5) by (auto simp: final_def)
      ultimately show ?thesis unfolding np(2) using refs_ok_diff [OF conjunct1 [OF f(7) [OF a]] e] by (simp only: heap_set)
    qed
    show "nh (lc_heap (?c' (relink n p ?h))) a = nh ?hp a \<and> key_at (lc_heap (?c' (relink n p ?h))) a = key_at ?hp a \<and>
        hash_at (lc_heap (?c' (relink n p ?h))) a = hash_at ?hp a \<and> val_at (lc_heap (?c' (relink n p ?h))) a = val_at ?hp a \<and>
        charge_at (lc_heap (?c' (relink n p ?h))) a = charge_at ?hp a" if a: "a \<in> dom ?hp" for a
    proof -
      have "a \<in> dom ?h" using a domh by blast
      then show ?thesis by (simp only: fields_relink fields_relink2 fields heap_set simp_thms)
    qed
  qed (use Rd np(3,4) in simp_all)
  have hx: "?h e = Some (x\<lparr>lh_refs := lh_refs x - 1\<rparr>)" by simp
  show ?thesis
    unfolding final_def [symmetric]
  proof (cases "e \<in> set use")
    case use: True
    show "\<exists>c'. Unref c e = Some c' \<and> keeps c c' \<and> shard_ok hf Q c' (if final \<and> e \<in> set use then lru @ [e] else lru) (if final then remove1 e use else use) ?R"
    proof (cases final)
      case True
      have ins: "e \<in> set lru \<union> set use" using use by simp
      obtain n p where 1: "LRU_Remove ?h e = Some (relink n p ?h)" "rings (relink n p ?h) lru (remove1 e use)"
        using rings_remove [OF ringsh ins] elru by (auto simp: remove1_other)
      have "e \<in> dom (relink n p ?h)" "e \<notin> set lru \<union> set (remove1 e use) \<union> heads" using ed elru r(3) domh by simp_all
      then obtain n' p' where 2: "LRU_Append (relink n p ?h) lru_head e = Some (relink n' p' (relink n p ?h))"
        "rings (relink n' p' (relink n p ?h)) (lru @ [e]) (remove1 e use)"
        using rings_append(2) [OF 1(2)] by blast
      have one: "count R e = 1" using True by (simp add: final_def)
      have "shard_ok hf Q (?c' (relink n' p' ?h)) (lru @ [e]) (remove1 e use) ?R \<and> keeps c (?c' (relink n' p' ?h))"
      proof (rule change)
        show "rings (relink n' p' ?h) (lru @ [e]) (remove1 e use)" using 2(2) by simp
        show "set (lru @ [e]) \<union> set (remove1 e use) = set lru \<union> set use" using use r(3) by auto
        show "\<forall>a \<in> set (lru @ [e]). a \<notin># ?R" using f(5) one by (auto simp: not_in_iff dest: in_diffD)
        show "\<forall>a \<in> set (remove1 e use). a \<in># ?R" using f(6) r(3) by (auto simp: in_diff_count)
      qed (use use in simp)
      moreover have "Unref c e = Some (?c' (relink n' p' ?h))"
        using x set' refs(2) zero use one 1(1) 2(1) by (simp add: Unref_def Let_def)
      ultimately show ?thesis using True use by auto
    next
      case False
      have two: "2 \<le> count R e" using False pos unfolding final_def by linarith
      have "shard_ok hf Q (?c' (relink (nx ?h) (pv ?h) ?h)) lru use ?R \<and> keeps c (?c' (relink (nx ?h) (pv ?h) ?h))"
      proof (rule change)
        show "rings (relink (nx ?h) (pv ?h) ?h) lru use" using ringsh by (simp only: relink_same)
        show "\<forall>a \<in> set lru. a \<notin># ?R" using f(5) by (auto dest: in_diffD)
        show "\<forall>a \<in> set use. a \<in># ?R" using f(6) two by (auto simp: in_diff_count)
      qed (use False in simp_all)
      moreover have "Unref c e = Some (?c' ?h)" using x set' refs(2) zero use two by (simp add: Unref_def Let_def)
      ultimately show ?thesis using False by (simp only: relink_same) auto
    qed
  next
    case use: False
    have rem: "remove1 e use = use" using use by (rule remove1_other)
    show "\<exists>c'. Unref c e = Some c' \<and> keeps c c' \<and> shard_ok hf Q c' (if final \<and> e \<in> set use then lru @ [e] else lru) (if final then remove1 e use else use) ?R"
    proof (cases final)
      case False
      have two: "2 \<le> count R e" using False pos unfolding final_def by linarith
      have "shard_ok hf Q (?c' (relink (nx ?h) (pv ?h) ?h)) lru use ?R \<and> keeps c (?c' (relink (nx ?h) (pv ?h) ?h))"
      proof (rule change)
        show "rings (relink (nx ?h) (pv ?h) ?h) lru use" using ringsh by (simp only: relink_same)
        show "\<forall>a \<in> set lru. a \<notin># ?R" using f(5) by (auto dest: in_diffD)
        show "\<forall>a \<in> set use. a \<in># ?R" using f(6) use by (auto simp: in_diff_count)
      qed (use False in simp_all)
      moreover have "Unref c e = Some (?c' ?h)" using x set' refs(2) zero use two by (simp add: Unref_def Let_def)
      ultimately show ?thesis using False by (simp only: relink_same) auto
    next
      case True
      then have one: "count R e = 1" by (simp add: final_def)
      let ?f = "?hp(e := None)"
      let ?d = "c\<lparr>lc_heap := ?f, lc_deleted := lc_deleted c @ [(lh_key x, lh_value x)]\<rparr>"
      have notin: "e \<notin> set lru \<union> set use \<union> heads" using elru use ed by simp
      have domf: "dom ?f = dom ?hp - {e}" by simp
      have "handle_key ?h e = Some (lh_key x)" using r(8) [OF ed] ex by (simp add: handle_key_def)
      then have "Unref c e = Some ?d" using x set' refs(2) zero use one by (simp add: Unref_def Let_def)
      moreover have "shard_ok hf Q ?d lru use ?R"
        unfolding shard_inv_def
      proof (intro conjI)
        have fr: "rings ?f lru use"
        proof (rule rings_frame [OF f(1)])
          show "set lru \<union> set use \<union> heads \<subseteq> dom ?f" using r(1) notin domf by blast
          show "nx ?f a = nx ?hp a \<and> pv ?f a = pv ?hp a" if "a \<in> set lru \<union> set use \<union> heads" for a
            using that notin by (cases "a = e") simp_all
          show "nx ?f a \<noteq> a" if "a \<in> dom ?f - heads" for a using that r(8) [of a] by (cases "a = e") auto
        qed (use r(7) in auto)
        then show "rings (lc_heap ?d) lru use" by simp
        show "dom (lc_heap ?d) \<subseteq> {..<lc_brk ?d}" using I by (auto simp: shard_inv_def)
        have "table_ok ?f hf (lc_table c) (set lru \<union> set use)"
        proof (rule table_ok_frame [OF f(2)])
          show "set lru \<union> set use \<subseteq> dom ?f" using r(1) notin domf by blast
          fix a assume a: "a \<in> set lru \<union> set use"
          then have "a \<noteq> e" "nx ?f a \<noteq> a" using notin rings_member [OF fr a] by auto
          then show "nh ?f a = nh ?hp a \<and> key_at ?f a = key_at ?hp a \<and> hash_at ?f a = hash_at ?hp a \<and> nx ?f a \<noteq> a" by simp
        qed
        then show "table_ok (lc_heap ?d) hf (lc_table ?d) (set lru \<union> set use)" by simp
        have "(\<Sum>a \<in> set lru \<union> set use. charge_at ?hp a) = (\<Sum>a \<in> set lru \<union> set use. charge_at ?f a)"
        proof (rule sum.cong)
          fix a assume "a \<in> set lru \<union> set use"
          then have "a \<noteq> e" using notin by blast
          then show "charge_at ?hp a = charge_at ?f a" by simp
        qed simp
        then show "lc_usage ?d = (\<Sum>a \<in> set lru \<union> set use. charge_at (lc_heap ?d) a)" using f(3) by simp
        have zero: "e \<notin># ?R" using one by (simp add: not_in_iff)
        show "entries_ok hf Q (lc_heap ?d) (set lru \<union> set use) ?R"
          unfolding entries_ok_def
        proof (intro conjI ballI)
          show "set_mset ?R \<subseteq> dom (lc_heap ?d) - heads" using Rd zero by auto
          fix a assume a: "a \<in> dom (lc_heap ?d) - heads"
          then have ae: "a \<noteq> e" "a \<in> dom ?hp" "a \<notin> heads" by auto
          note fa = f(7) [OF ae(2,3)]
          show "refs_ok (set lru \<union> set use) ?R (in_cache_at (lc_heap ?d) a) (refs_at (lc_heap ?d) a) a"
            using refs_ok_diff [OF conjunct1 [OF fa] e] ae(1) by simp
          show "hash_at (lc_heap ?d) a = hf (key_at (lc_heap ?d) a)" "\<exists>v. val_at (lc_heap ?d) a = Some v \<and> Q (key_at (lc_heap ?d) a) v"
            using fa ae(1) by simp_all
        qed
        show "\<forall>a \<in> set lru. a \<notin># ?R" using f(5) by (auto dest: in_diffD)
        show "\<forall>a \<in> set use. a \<in># ?R" using f(6) use by (auto simp: in_diff_count)
      qed
      moreover have "keeps c ?d"
        unfolding keeps_def
      proof (intro conjI ballI)
        have "dom ?f - heads = dom ?hp - heads - {e}" by auto
        then have D: "mset_set (dom ?hp - heads) = add_mset e (mset_set (dom ?f - heads))"
          using ed shard_finite [OF I] by (simp add: mset_set.remove [of _ e])
        have "image_mset (\<lambda>a. (key_at ?f a, val_at ?f a)) (mset_set (dom ?f - heads)) =
          image_mset (\<lambda>a. (key_at ?hp a, val_at ?hp a)) (mset_set (dom ?f - heads))"
        proof (rule image_mset_cong)
          fix a assume "a \<in># mset_set (dom ?f - heads)"
          then have "a \<noteq> e" using shard_finite [OF I] by auto
          then show "(key_at ?f a, val_at ?f a) = (key_at ?hp a, val_at ?hp a)" by simp
        qed
        then show "owed ?d = owed c" unfolding owed_def by (simp add: D ex del: dom_fun_upd)
        fix a assume "a \<in> dom (lc_heap ?d)"
        then have "a \<noteq> e" by auto
        then show "key_at (lc_heap ?d) a = key_at ?hp a" "val_at (lc_heap ?d) a = val_at ?hp a" "charge_at (lc_heap ?d) a = charge_at ?hp a"
          by simp_all
      qed auto
      ultimately show ?thesis using True use rem by auto
    qed
  qed
qed

end
