(* ===== verification/Lru_Shard.thy ===== *)
theory Lru_Shard imports Lru_Facts begin

section \<open>leveldb: inserting into and removing from a shard\<close>

lemma shard_rechain:
  assumes I: "shard_inv hf Q T c lru use R" and T': "table_ok (rechain f (lc_heap c)) hf t T'"
  shows "shard_inv hf Q T' (c\<lparr>lc_table := t, lc_heap := rechain f (lc_heap c)\<rparr>) lru use R \<and>
    keeps c (c\<lparr>lc_table := t, lc_heap := rechain f (lc_heap c)\<rparr>)"
proof -
  let ?hp = "lc_heap c" let ?h = "rechain f ?hp"
  let ?c = "c\<lparr>lc_table := t, lc_heap := ?h\<rparr>"
  note i = I [unfolded shard_inv_def]
  note fs = shard_facts [OF I]
  note r = rings_facts [OF fs(1)]
  have "rings ?h lru use"
  proof (rule rings_frame [OF fs(1)])
    show "nx ?h a = nx ?hp a \<and> pv ?h a = pv ?hp a" if "a \<in> set lru \<union> set use \<union> heads" for a
    proof -
      have "a \<in> dom ?hp" using that r(1) by blast
      then show ?thesis by simp
    qed
    show "nx ?h a \<noteq> a" if "a \<in> dom ?h - heads" for a
    proof -
      have "a \<in> dom ?hp" "a \<notin> heads" using that by (auto simp: rechain_at)
      then show ?thesis using r(8) by simp
    qed
  qed (use r(1,7) in simp_all)
  moreover have "(\<Sum>a \<in> set lru \<union> set use. charge_at ?hp a) = (\<Sum>a \<in> set lru \<union> set use. charge_at ?h a)"
  proof (rule sum.cong)
    fix a assume "a \<in> set lru \<union> set use"
    then have "a \<in> dom ?hp" using r(1) by blast
    then show "charge_at ?hp a = charge_at ?h a" by simp
  qed simp
  moreover have "entries_ok hf Q ?h (set lru \<union> set use) R"
    unfolding entries_ok_def
  proof (intro conjI ballI)
    show "set_mset R \<subseteq> dom ?h - heads" using fs(4) by simp
    fix a assume "a \<in> dom ?h - heads"
    then have a: "a \<in> dom ?hp" "a \<notin> heads" by (auto simp: rechain_at)
    show "refs_ok (set lru \<union> set use) R (in_cache_at ?h a) (refs_at ?h a) a" "hash_at ?h a = hf (key_at ?h a)"
      "\<exists>v. val_at ?h a = Some v \<and> Q (key_at ?h a) v"
      using fs(7) [OF a] a(1) by simp_all
  qed
  ultimately have "shard_inv hf Q T' ?c lru use R" using i T' by (simp add: shard_inv_def)
  moreover have same: "key_at ?h a = key_at ?hp a" "val_at ?h a = val_at ?hp a" "charge_at ?h a = charge_at ?hp a" if "a \<in> dom ?hp" for a
    using that by simp_all
  then have "owed ?c = owed c" by (intro owed_same) (use shard_finite [OF I] in simp_all)
  then have "keeps c ?c" using same by (simp add: keeps_def)
  ultimately show ?thesis ..
qed

lemma FinishErase_ok:
  assumes I: "shard_inv hf Q (set lru \<union> set use - {e}) c lru use R" and e: "e = 0 \<or> e \<in> set lru \<union> set use"
  shows "\<exists>c'. FinishErase c e = Some (e \<noteq> 0, c') \<and> keeps c c' \<and> shard_ok hf Q c' (remove1 e lru) (remove1 e use) R"
proof (cases "e = 0")
  case True
  then have "e \<notin> set lru \<union> set use" using rings_facts [OF shard_facts(1) [OF I]] by blast
  with True I show ?thesis by (auto simp: FinishErase_def remove1_other)
next
  case False
  let ?hp = "lc_heap c" and ?E = "set lru \<union> set use" and ?lru = "remove1 e lru" and ?use = "remove1 e use"
  have eE: "e \<in> ?E" using e False by simp
  note f = shard_facts [OF I]
  note r = rings_facts [OF f(1)]
  have ed: "e \<in> dom ?hp" "e \<notin> heads" using rings_member [OF f(1) eE] by simp_all
  obtain x where x: "?hp e = Some x" using ed(1) by blast
  have inc: "lh_in_cache x" using f(7) [OF ed] eE at_some [of ?hp e x, OF x] by (auto simp: refs_ok_def)
  obtain n p where np: "LRU_Remove ?hp e = Some (relink n p ?hp)" "rings (relink n p ?hp) ?lru ?use"
    using rings_remove [OF f(1) eE] by blast
  let ?h = "relink n p ?hp"
  obtain y where y: "?h e = Some y" using x by (simp add: relink_at)
  let ?hp' = "?h(e \<mapsto> y\<lparr>lh_in_cache := False\<rparr>)"
  define c1 where "c1 = c\<lparr>lc_usage := lc_usage c - charge_at ?hp e, lc_heap := ?hp'\<rparr>"
  have fields: "nh ?hp' a = nh ?hp a" "key_at ?hp' a = key_at ?hp a" "hash_at ?hp' a = hash_at ?hp a" "val_at ?hp' a = val_at ?hp a"
    "charge_at ?hp' a = charge_at ?hp a" "in_cache_at ?hp' a = (a \<noteq> e \<and> in_cache_at ?hp a)" "refs_at ?hp' a = refs_at ?hp a"
    if "a \<in> dom ?hp" for a
    using that ed(1) by (simp_all add: at_some [of ?h e y, OF y])
  have lists: "set ?lru \<union> set ?use = ?E - {e}" using r(2,3) by auto
  have heap1: "lc_heap c1 = ?hp'" by (simp add: c1_def)
  have "shard_ok hf Q c1 ?lru ?use (add_mset e R) \<and> keeps c c1"
    unfolding lists
  proof (rule shard_change [OF I])
    show "rings (lc_heap c1) ?lru ?use" unfolding heap1 by (rule rings_set [of ?h ?lru ?use e y, OF np(2) y]) simp_all
    show "dom (lc_heap c1) = dom ?hp" unfolding heap1 using ed by (simp add: insert_absorb)
    show "(?E - {e}) \<inter> heads = {}" using r(5,6) by blast
    have "(\<Sum>a \<in> ?E. charge_at ?hp a) = charge_at ?hp e + (\<Sum>a \<in> ?E - {e}. charge_at ?hp a)" by (rule sum.remove [OF _ eE]) simp
    then show "lc_usage c1 = (\<Sum>a \<in> set ?lru \<union> set ?use. charge_at ?hp a)" unfolding lists using f(3) by (simp add: c1_def)
    show "refs_ok (set ?lru \<union> set ?use) (add_mset e R) (in_cache_at (lc_heap c1) a) (refs_at (lc_heap c1) a) a"
      if a: "a \<in> dom ?hp" "a \<notin> heads" for a
      unfolding lists heap1 using refs_ok_detach [OF conjunct1 [OF f(7) [OF a]] eE] by (simp only: fields [OF a(1)])
    show "set_mset (add_mset e R) \<subseteq> dom ?hp - heads" using f(4) ed by simp
    show "\<forall>a \<in> set ?lru. a \<notin># add_mset e R" using f(5) r(2) by auto
    show "\<forall>a \<in> set ?use. a \<in># add_mset e R" using f(6) r(3) by auto
    show "nh (lc_heap c1) a = nh ?hp a \<and> key_at (lc_heap c1) a = key_at ?hp a \<and> hash_at (lc_heap c1) a = hash_at ?hp a \<and>
        val_at (lc_heap c1) a = val_at ?hp a \<and> charge_at (lc_heap c1) a = charge_at ?hp a" if "a \<in> dom ?hp" for a
      unfolding heap1 using fields [OF that] by simp
  qed (simp_all add: c1_def)
  then have ok1: "shard_ok hf Q c1 ?lru ?use (add_mset e R)" and k1: "keeps c c1" by simp_all
  have eu: "e \<notin> set ?use" using r(3) by simp
  obtain c2 where c2: "Unref c1 e = Some c2" "keeps c1 c2" "shard_ok hf Q c2 ?lru ?use R"
    using Unref_ok [OF ok1, of e] eu remove1_other [OF eu] by (auto split: if_splits)
  have "set_at ?h e (\<lambda>x. x\<lparr>lh_in_cache := False\<rparr>) = Some ?hp'" using y by (simp add: set_at_def)
  moreover have "lh_charge y = charge_at ?hp e" using at_some [of ?h e y, OF y] ed(1) by simp
  ultimately have "FinishErase c e = Some (True, c2)"
    using False x inc np(1) c2(1) by (simp add: FinishErase_def c1_def)
  with False c2(2,3) keeps_trans [OF k1] show ?thesis by auto
qed

lemma remove_key_ok:
  assumes I: "shard_ok hf Q c lru use R"
  shows "\<exists>e c'. remove_key c k (hf k) = Some (e \<noteq> 0, c') \<and> finds (lc_heap c) (set lru \<union> set use) k e \<and> keeps c c' \<and>
    shard_ok hf Q c' (remove1 e lru) (remove1 e use) R"
proof -
  let ?E = "set lru \<union> set use"
  note f = shard_facts [OF I]
  obtain e g t where r: "HandleTable_Remove (lc_heap c) (lc_table c) k (hf k) = Some (e, rechain g (lc_heap c), t)"
    "finds (lc_heap c) ?E k e" "table_ok (rechain g (lc_heap c)) hf t (?E - {e})"
    using HandleTable_Remove_ok [OF f(2), of k] by blast
  let ?c = "c\<lparr>lc_table := t, lc_heap := rechain g (lc_heap c)\<rparr>"
  have s: "shard_inv hf Q (?E - {e}) ?c lru use R" "keeps c ?c" using shard_rechain [OF I r(3)] by simp_all
  have "e = 0 \<or> e \<in> ?E" using r(2) by (auto simp: finds_def split: if_splits)
  then obtain c' where "FinishErase ?c e = Some (e \<noteq> 0, c')" "keeps ?c c'" "shard_ok hf Q c' (remove1 e lru) (remove1 e use) R"
    using FinishErase_ok [OF s(1)] by blast
  with r(1,2) keeps_trans [OF s(2)] show ?thesis by (auto simp: remove_key_def)
qed

lemma key_unique:
  assumes "shard_ok hf Q c lru use R" "a \<in> set lru \<union> set use" "b \<in> set lru \<union> set use" "key_at (lc_heap c) a = key_at (lc_heap c) b"
  shows "a = b"
  using shard_facts(2) [OF assms(1)] assms(2-4) by (auto simp: table_ok_def dest: inj_onD)

lemma remove_oldest_ok:
  assumes I: "shard_ok hf Q c (e # lru) use R"
  shows "\<exists>c'. remove_oldest c e = Some c' \<and> keeps c c' \<and> shard_ok hf Q c' lru use R"
proof -
  let ?hp = "lc_heap c"
  note f = shard_facts [OF I]
  note r = rings_facts [OF f(1)]
  have ed: "e \<in> dom ?hp" "e \<notin> heads" "nx ?hp e \<noteq> e" using rings_member [OF f(1), of e] by simp_all
  obtain x where x: "?hp e = Some x" using ed(1) by blast
  note ex = at_some [of ?hp e x, OF x]
  have "count R e = 0" using f(5) by (simp add: not_in_iff)
  then have refs: "lh_refs x = 1" using f(7) [OF ed(1,2)] ex by (simp add: refs_ok_def refs_one)
  have hash: "lh_hash x = hf (key_at ?hp e)" using f(7) [OF ed(1,2)] ex by simp
  have key: "handle_key ?hp e = Some (key_at ?hp e)" using x ed(3) ex by (simp add: handle_key_def)
  obtain e' c' where rk: "remove_key c (key_at ?hp e) (hf (key_at ?hp e)) = Some (e' \<noteq> 0, c')"
    "finds ?hp (set (e # lru) \<union> set use) (key_at ?hp e) e'" "keeps c c'" "shard_ok hf Q c' (remove1 e' (e # lru)) (remove1 e' use) R"
    using remove_key_ok [OF I, of "key_at ?hp e"] by blast
  have "e' \<noteq> 0 \<and> e' = e"
  proof (cases "e' = 0")
    case False
    then have "e' \<in> set (e # lru) \<union> set use" "key_at ?hp e' = key_at ?hp e" using rk(2) by (simp_all add: finds_def)
    then show ?thesis using key_unique [OF I, of e' e] False by simp
  qed (use rk(2) in \<open>auto simp: finds_def\<close>)
  moreover have "e \<notin> set use" using r(4) by auto
  ultimately have "remove_oldest c e = Some c'" "shard_ok hf Q c' lru use R"
    using x refs hash key rk(1,4) by (simp_all add: remove_oldest_def remove1_other)
  with rk(3) show ?thesis by blast
qed

lemma lru_next:
  assumes "shard_inv hf Q T c lru use R"
  shows "\<exists>l. lc_heap c lru_head = Some l \<and> lh_next l = hd (lru @ [lru_head])"
proof -
  have r: "rings (lc_heap c) lru use" by (rule shard_facts(1) [OF assms])
  then obtain l where "lc_heap c lru_head = Some l" by (auto simp: rings_def)
  moreover have "nx (lc_heap c) lru_head = hd (lru @ [lru_head])" using r dpath_next by (auto simp: rings_def)
  ultimately show ?thesis by (auto simp: nx_def)
qed

lemma head_not_lru: "shard_inv hf Q T c (e # lru) use R \<Longrightarrow> e \<noteq> lru_head"
  using rings_member [OF shard_facts(1), of hf Q T c "e # lru" use R e] by auto

text \<open>Evicting removes the oldest entries that are not in use until the usage fits, and no more than needed.\<close>

lemma evict_loop_ok:
  assumes "shard_ok hf Q c lru use R"
  shows "\<exists>c' n. evict_loop c = Some c' \<and> keeps c c' \<and> shard_ok hf Q c' (drop n lru) use R \<and> (lc_usage c' \<le> lc_capacity c \<or> drop n lru = []) \<and>
    (\<forall>m < n. lc_capacity c < (\<Sum>a \<in> set (drop m lru) \<union> set use. charge_at (lc_heap c) a))"
  using assms
proof (induction lru arbitrary: c)
  case Nil
  obtain l where "lc_heap c lru_head = Some l" "lh_next l = lru_head" using lru_next [OF Nil] by auto
  then show ?case using Nil by (subst evict_loop.simps) auto
next
  case (Cons e lru)
  obtain l where l: "lc_heap c lru_head = Some l" "lh_next l = e" using lru_next [OF Cons.prems] by auto
  show ?case
  proof (cases "lc_usage c > lc_capacity c")
    case False
    then have "evict_loop c = Some c" using l by (subst evict_loop.simps) simp
    with False Cons.prems show ?thesis by (intro exI [of _ c] exI [of _ 0]) (simp add: not_less)
  next
    case True
    obtain c1 where c1: "remove_oldest c e = Some c1" "keeps c c1" "shard_ok hf Q c1 lru use R"
      using remove_oldest_ok [OF Cons.prems] by blast
    obtain c' n where c': "evict_loop c1 = Some c'" "keeps c1 c'" "shard_ok hf Q c' (drop n lru) use R"
      "lc_usage c' \<le> lc_capacity c1 \<or> drop n lru = []"
      "\<forall>m < n. lc_capacity c1 < (\<Sum>a \<in> set (drop m lru) \<union> set use. charge_at (lc_heap c1) a)"
      using Cons.IH [OF c1(3)] by blast
    have cap: "lc_capacity c1 = lc_capacity c" using c1(2) by (simp add: keeps_def)
    have "lc_capacity c < (\<Sum>a \<in> set (drop m (e # lru)) \<union> set use. charge_at (lc_heap c) a)" if m: "m < Suc n" for m
    proof (cases m)
      case 0
      then show ?thesis using True shard_facts(3) [OF Cons.prems] by simp
    next
      case (Suc k)
      have "(\<Sum>a \<in> set (drop k lru) \<union> set use. charge_at (lc_heap c1) a) = (\<Sum>a \<in> set (drop k lru) \<union> set use. charge_at (lc_heap c) a)"
      proof (rule sum.cong)
        fix a assume "a \<in> set (drop k lru) \<union> set use"
        then have "a \<in> dom (lc_heap c1)" using rings_member [OF shard_facts(1) [OF c1(3)]] by (auto dest: in_set_dropD)
        then show "charge_at (lc_heap c1) a = charge_at (lc_heap c) a" using c1(2) by (simp add: keeps_def)
      qed simp
      moreover have "k < n" using m Suc by simp
      ultimately show ?thesis using c'(5) [rule_format, of k] Suc cap by simp
    qed
    moreover have "evict_loop c = Some c'"
      using True l head_not_lru [OF Cons.prems] c1(1) c'(1) by (subst evict_loop.simps) simp
    ultimately show ?thesis using c' keeps_trans [OF c1(2)] cap by (intro exI [of _ c'] exI [of _ "Suc n"]) auto
  qed
qed

lemma LRUCache_Prune_ok:
  assumes "shard_ok hf Q c lru use R"
  shows "\<exists>c'. LRUCache_Prune c = Some c' \<and> keeps c c' \<and> shard_ok hf Q c' [] use R"
  using assms
proof (induction lru arbitrary: c)
  case Nil
  obtain l where "lc_heap c lru_head = Some l" "lh_next l = lru_head" using lru_next [OF Nil] by auto
  then show ?case using Nil by (subst LRUCache_Prune.simps) auto
next
  case (Cons e lru)
  obtain l where l: "lc_heap c lru_head = Some l" "lh_next l = e" using lru_next [OF Cons.prems] by auto
  obtain c1 where c1: "remove_oldest c e = Some c1" "keeps c c1" "shard_ok hf Q c1 lru use R"
    using remove_oldest_ok [OF Cons.prems] by blast
  obtain c' where c': "LRUCache_Prune c1 = Some c'" "keeps c1 c'" "shard_ok hf Q c' [] use R" using Cons.IH [OF c1(3)] by blast
  have "LRUCache_Prune c = Some c'"
    using l head_not_lru [OF Cons.prems] c1(1) c'(1) by (subst LRUCache_Prune.simps) simp
  with c' keeps_trans [OF c1(2)] show ?case by blast
qed

subsection \<open>Inserting\<close>

text \<open>What an insertion of \<open>e\<close> keeps.\<close>

definition inserts :: "'v LRUCache \<Rightarrow> lru_ptr \<Rightarrow> Slice \<Rightarrow> 'v \<Rightarrow> u64 \<Rightarrow> 'v LRUCache \<Rightarrow> bool" where
  "inserts c e k v ch c' \<longleftrightarrow> lc_capacity c' = lc_capacity c \<and> e \<notin> dom (lc_heap c) \<and> owed c' = add_mset (k, Some v) (owed c) \<and>
     (\<forall>a \<in> dom (lc_heap c'). if a = e then key_at (lc_heap c') a = k \<and> val_at (lc_heap c') a = Some v \<and> charge_at (lc_heap c') a = ch
        else a \<in> dom (lc_heap c) \<and> key_at (lc_heap c') a = key_at (lc_heap c) a \<and> val_at (lc_heap c') a = val_at (lc_heap c) a \<and>
          charge_at (lc_heap c') a = charge_at (lc_heap c) a)"

lemma inserts_keeps: "inserts c e k v ch c1 \<Longrightarrow> keeps c1 c2 \<Longrightarrow> inserts c e k v ch c2"
  unfolding inserts_def keeps_def by (metis subsetD)

text \<open>The new entry before it is cached.\<close>

lemma allocate_ok:
  fixes ch :: u64
  assumes I: "shard_ok hf Q c lru use R" and Q: "Q k v"
  defines "e \<equiv> lc_brk c"
  defines "x \<equiv> \<lparr>lh_value = Some v, lh_next_hash = 0, lh_next = 0, lh_prev = 0, lh_charge = ch, lh_key = k,
       lh_in_cache = False, lh_refs = 1, lh_hash = hf k\<rparr>"
  defines "c1 \<equiv> c\<lparr>lc_heap := (lc_heap c)(e \<mapsto> x), lc_brk := e + 1\<rparr>"
  shows "shard_ok hf Q c1 lru use (add_mset e R)" "inserts c e k v ch c1" "e \<notin> set lru \<union> set use \<union> heads" "e \<noteq> 0" "e \<notin># R"
proof -
  let ?hp = "lc_heap c" and ?h = "(lc_heap c)(e \<mapsto> x)"
  note f = shard_facts [OF I]
  note r = rings_facts [OF f(1)]
  have below: "dom ?hp \<subseteq> {..<e}" using I by (simp add: shard_inv_def e_def)
  then have new: "e \<notin> dom ?hp" by auto
  then show notin: "e \<notin> set lru \<union> set use \<union> heads" using r(1) by blast
  have "lru_head \<in> dom ?hp" using r(1) by simp
  then have "lru_head < e" using below by auto
  then show e0: "e \<noteq> 0" by simp
  show eR: "e \<notin># R" using f(4) new by blast
  have heap1: "lc_heap c1 = ?h" by (simp add: c1_def)
  have domh: "dom ?h = insert e (dom ?hp)" by simp
  show "shard_ok hf Q c1 lru use (add_mset e R)"
    unfolding shard_inv_def heap1
  proof (intro conjI)
    show fr: "rings ?h lru use"
    proof (rule rings_frame [OF f(1)])
      show "set lru \<union> set use \<union> heads \<subseteq> dom ?h" using r(1) by auto
      show "0 \<notin> dom ?h" using r(7) e0 by simp
      show "nx ?h a = nx ?hp a \<and> pv ?h a = pv ?hp a" if "a \<in> set lru \<union> set use \<union> heads" for a
        using that notin by (cases "a = e") simp_all
      show "nx ?h a \<noteq> a" if "a \<in> dom ?h - heads" for a
        using that r(8) [of a] e0 by (cases "a = e") (auto simp: x_def)
    qed
    show "dom ?h \<subseteq> {..<lc_brk c1}" using below by (auto simp: c1_def)
    have "table_ok ?h hf (lc_table c) (set lru \<union> set use)"
    proof (rule table_ok_frame [OF f(2)])
      show "set lru \<union> set use \<subseteq> dom ?h" using r(1) by auto
      fix a assume a: "a \<in> set lru \<union> set use"
      then have "a \<noteq> e" "nx ?h a \<noteq> a" using notin rings_member [OF fr a] by auto
      then show "nh ?h a = nh ?hp a \<and> key_at ?h a = key_at ?hp a \<and> hash_at ?h a = hash_at ?hp a \<and> nx ?h a \<noteq> a" by simp
    qed
    then show "table_ok ?h hf (lc_table c1) (set lru \<union> set use)" by (simp add: c1_def)
    have "(\<Sum>a \<in> set lru \<union> set use. charge_at ?hp a) = (\<Sum>a \<in> set lru \<union> set use. charge_at ?h a)"
    proof (rule sum.cong)
      fix a assume "a \<in> set lru \<union> set use"
      then have "a \<noteq> e" using notin by blast
      then show "charge_at ?hp a = charge_at ?h a" by simp
    qed simp
    then show "lc_usage c1 = (\<Sum>a \<in> set lru \<union> set use. charge_at ?h a)" using f(3) by (simp add: c1_def)
    show "entries_ok hf Q ?h (set lru \<union> set use) (add_mset e R)"
      unfolding entries_ok_def
    proof (intro conjI ballI)
      show "set_mset (add_mset e R) \<subseteq> dom ?h - heads" using f(4) notin domh by auto
      fix a assume a: "a \<in> dom ?h - heads"
      have d: "refs_ok (set lru \<union> set use) (add_mset e R) (in_cache_at ?h a) (refs_at ?h a) a \<and> hash_at ?h a = hf (key_at ?h a) \<and>
          (\<exists>w. val_at ?h a = Some w \<and> Q (key_at ?h a) w)"
      proof (cases "a = e")
        case True
        then show ?thesis using notin eR Q by (auto simp: x_def refs_ok_def not_in_iff)
      next
        case False
        then have ad: "a \<in> dom ?hp" "a \<notin> heads" using a by auto
        show ?thesis using refs_ok_add [OF conjunct1 [OF f(7) [OF ad]], of e] f(7) [OF ad] False by simp
      qed
      then show "refs_ok (set lru \<union> set use) (add_mset e R) (in_cache_at ?h a) (refs_at ?h a) a" "hash_at ?h a = hf (key_at ?h a)"
        "\<exists>w. val_at ?h a = Some w \<and> Q (key_at ?h a) w" by blast+
    qed
    show "\<forall>a \<in> set lru. a \<notin># add_mset e R" using f(5) notin by auto
    show "\<forall>a \<in> set use. a \<in># add_mset e R" using f(6) by auto
  qed
  have fin: "finite (dom ?hp)" by (rule shard_finite [OF I])
  have "dom ?h - heads = insert e (dom ?hp - heads)" using notin by auto
  then have D: "mset_set (dom ?h - heads) = add_mset e (mset_set (dom ?hp - heads))" using fin new by simp
  have "image_mset (\<lambda>a. (key_at ?h a, val_at ?h a)) (mset_set (dom ?hp - heads)) =
      image_mset (\<lambda>a. (key_at ?hp a, val_at ?hp a)) (mset_set (dom ?hp - heads))"
  proof (rule image_mset_cong)
    fix a assume "a \<in># mset_set (dom ?hp - heads)"
    then have "a \<noteq> e" using fin new by auto
    then show "(key_at ?h a, val_at ?h a) = (key_at ?hp a, val_at ?hp a)" by simp
  qed
  moreover have new_at: "key_at ?h e = k" "val_at ?h e = Some v" "lc_deleted c1 = lc_deleted c" by (simp_all add: x_def c1_def)
  ultimately have "owed c1 = add_mset (k, Some v) (owed c)"
    unfolding owed_def heap1 D image_mset_add_mset new_at by simp
  then show "inserts c e k v ch c1" using new unfolding inserts_def heap1 by (auto simp: c1_def x_def)
qed

text \<open>Linking the new entry into the list of entries in use.\<close>

lemma link_ok:
  assumes I: "shard_ok hf Q c lru use R" and e: "e \<in># R" "e \<notin> set lru \<union> set use" "lc_heap c e = Some x"
    and few: "unat (lh_refs x) \<le> max_refs"
  shows "\<exists>h. LRU_Append ((lc_heap c)(e \<mapsto> x\<lparr>lh_refs := lh_refs x + 1, lh_in_cache := True\<rparr>)) in_use_head e = Some h \<and>
    shard_inv hf Q (set lru \<union> set use) (c\<lparr>lc_usage := lc_usage c + lh_charge x, lc_heap := h\<rparr>) lru (use @ [e]) R \<and>
    keeps c (c\<lparr>lc_usage := lc_usage c + lh_charge x, lc_heap := h\<rparr>)"
proof -
  let ?hp = "lc_heap c" and ?y = "x\<lparr>lh_refs := lh_refs x + 1, lh_in_cache := True\<rparr>"
  let ?h = "?hp(e \<mapsto> ?y)"
  note f = shard_facts [OF I]
  note r = rings_facts [OF f(1)]
  have ed: "e \<in> dom ?hp" "e \<notin> heads" using f(4) e(1) by auto
  note ex = at_some [of ?hp e x, OF e(3)]
  have domh: "dom ?h = dom ?hp" using ed(1) by (simp add: insert_absorb)
  have rh: "rings ?h lru use" by (rule rings_set [OF f(1) e(3)]) simp_all
  have "e \<in> dom ?h" "e \<notin> set lru \<union> set use \<union> heads" using ed e(2) domh by auto
  then obtain n p where np: "LRU_Append ?h in_use_head e = Some (relink n p ?h)" "rings (relink n p ?h) lru (use @ [e])"
    using rings_append(1) [OF rh] by blast
  let ?c = "c\<lparr>lc_usage := lc_usage c + lh_charge x, lc_heap := relink n p ?h\<rparr>"
  have heap: "lc_heap ?c = relink n p ?h" by simp
  have fields: "nh ?h a = nh ?hp a" "key_at ?h a = key_at ?hp a" "hash_at ?h a = hash_at ?hp a" "val_at ?h a = val_at ?hp a"
    "charge_at ?h a = charge_at ?hp a" "in_cache_at ?h a = (a = e \<or> in_cache_at ?hp a)" "refs_at ?h a = refs_at ?hp a + (if a = e then 1 else 0)" for a
    using ex refs_up [OF few] by simp_all
  have "shard_inv hf Q (set lru \<union> set use) ?c lru (use @ [e]) R \<and> keeps c ?c"
  proof (rule shard_change [OF I])
    show "rings (lc_heap ?c) lru (use @ [e])" unfolding heap by (rule np(2))
    show "dom (lc_heap ?c) = dom ?hp" by (simp only: heap dom_relink domh)
    show "(set lru \<union> set use) \<inter> heads = {}" using r(5,6) by blast
    show "lc_usage ?c = (\<Sum>a \<in> set lru \<union> set (use @ [e]). charge_at ?hp a)" using f(3) e(2) ex by simp
    show "refs_ok (set lru \<union> set (use @ [e])) R (in_cache_at (lc_heap ?c) a) (refs_at (lc_heap ?c) a) a"
      if a: "a \<in> dom ?hp" "a \<notin> heads" for a
    proof -
      have "a \<in> dom ?h" using a(1) domh by blast
      then have "refs_at (lc_heap ?c) a = refs_at ?hp a + (if a = e then 1 else 0)" "in_cache_at (lc_heap ?c) a = (a = e \<or> in_cache_at ?hp a)"
        by (simp_all only: heap fields_relink2 fields)
      then show ?thesis using conjunct1 [OF f(7) [OF a]] e(2) by (auto simp: refs_ok_def)
    qed
    show "nh (lc_heap ?c) a = nh ?hp a \<and> key_at (lc_heap ?c) a = key_at ?hp a \<and> hash_at (lc_heap ?c) a = hash_at ?hp a \<and>
        val_at (lc_heap ?c) a = val_at ?hp a \<and> charge_at (lc_heap ?c) a = charge_at ?hp a" if a: "a \<in> dom ?hp" for a
    proof -
      have "a \<in> dom ?h" using a domh by blast
      then show ?thesis by (simp only: fields_relink fields_relink2 fields heap simp_thms)
    qed
    show "\<forall>a \<in> set (use @ [e]). a \<in># R" using f(6) e(1) by auto
  qed (use f(4,5) in simp_all)
  with np(1) show ?thesis by blast
qed

lemma brk_heap: "c\<lparr>lc_brk := b, lc_heap := h\<rparr> = c\<lparr>lc_heap := h, lc_brk := b\<rparr>"
  by (cases c) simp

lemma finds_cong: "E = E' \<Longrightarrow> (\<And>a. a \<in> E \<Longrightarrow> key_at hp a = key_at hp' a) \<Longrightarrow> finds hp E k e = finds hp' E' k e"
  by (auto simp: finds_def)

lemma LRUCache_Insert_ok:
  assumes I: "shard_ok hf Q c lru use R" and Q: "Q k v"
    and space: "card (insert k (key_at (lc_heap c) ` (set lru \<union> set use))) \<le> max_entries"
  shows "\<exists>e c' old n. LRUCache_Insert c k (hf k) v ch = Some (e, c') \<and> inserts c e k v ch c' \<and> e \<noteq> 0 \<and>
    (if lc_capacity c = 0 then old = 0 else finds (lc_heap c) (set lru \<union> set use) k old) \<and>
    shard_ok hf Q c' (drop n (remove1 old lru)) (remove1 old use @ (if lc_capacity c = 0 then [] else [e])) (add_mset e R) \<and>
    (lc_usage c' \<le> lc_capacity c \<or> drop n (remove1 old lru) = []) \<and>
    (\<forall>m < n. lc_capacity c < (\<Sum>a \<in> set (drop m (remove1 old lru)) \<union> set (remove1 old use @ (if lc_capacity c = 0 then [] else [e])).
       if a = e then ch else charge_at (lc_heap c) a))"
proof -
  let ?e = "lc_brk c" and ?E = "set lru \<union> set use"
  let ?x = "\<lparr>lh_value = Some v, lh_next_hash = 0, lh_next = 0, lh_prev = 0, lh_charge = ch, lh_key = k,
       lh_in_cache = False, lh_refs = 1, lh_hash = hf k\<rparr>"
  let ?c1 = "c\<lparr>lc_heap := (lc_heap c)(?e \<mapsto> ?x), lc_brk := ?e + 1\<rparr>"
  note a = allocate_ok(1,2) [OF I Q, where ch = ch] allocate_ok(3-5) [OF I Q]
  have xe: "lc_heap ?c1 ?e = Some ?x" by simp
  have charges: "(\<Sum>a \<in> A. charge_at (lc_heap c2) a) = (\<Sum>a \<in> A. if a = ?e then ch else charge_at (lc_heap c) a)"
    if "inserts c ?e k v ch c2" "A \<subseteq> dom (lc_heap c2)" for A c2
    by (rule sum.cong [OF refl]) (use that in \<open>auto simp: inserts_def subset_iff split: if_splits\<close>)
  have last: ?thesis if c2: "shard_ok hf Q c2 (remove1 old lru) (remove1 old use @ (if lc_capacity c = 0 then [] else [?e])) (add_mset ?e R)"
      "inserts c ?e k v ch c2" "if lc_capacity c = 0 then old = 0 else finds (lc_heap c) ?E k old"
      "LRUCache_Insert c k (hf k) v ch = evict_loop c2 \<bind> (\<lambda>c. Some (?e, c))" for c2 old
  proof -
    let ?lru = "remove1 old lru" and ?use = "remove1 old use @ (if lc_capacity c = 0 then [] else [?e])"
    have cap: "lc_capacity c2 = lc_capacity c" using c2(2) by (simp add: inserts_def)
    obtain c' n where c': "evict_loop c2 = Some c'" "keeps c2 c'" "shard_ok hf Q c' (drop n ?lru) ?use (add_mset ?e R)"
      "lc_usage c' \<le> lc_capacity c2 \<or> drop n ?lru = []"
      "\<forall>m < n. lc_capacity c2 < (\<Sum>a \<in> set (drop m ?lru) \<union> set ?use. charge_at (lc_heap c2) a)"
      using evict_loop_ok [OF c2(1)] by blast
    have "set (drop m ?lru) \<union> set ?use \<subseteq> dom (lc_heap c2)" for m
      using rings_member [OF shard_facts(1) [OF c2(1)]] by (auto dest: in_set_dropD)
    note same = charges [OF c2(2) this]
    have "\<forall>m < n. lc_capacity c < (\<Sum>a \<in> set (drop m ?lru) \<union> set ?use. if a = ?e then ch else charge_at (lc_heap c) a)"
      using c'(5) unfolding same cap .
    then show ?thesis
      using c' c2(3,4) inserts_keeps [OF c2(2) c'(2)] a(4) cap
      by (intro exI [of _ ?e] exI [of _ c'] exI [of _ old] exI [of _ n]) simp
  qed
  show ?thesis
  proof (cases "lc_capacity c = 0")
    case True
    have zero: "0 \<notin> ?E" using rings_facts(1,7) [OF shard_facts(1) [OF I]] by blast
    have "LRUCache_Insert c k (hf k) v ch = evict_loop ?c1 \<bind> (\<lambda>c. Some (?e, c))"
      using True by (simp add: LRUCache_Insert_def Let_def set_at_def brk_heap)
    then show ?thesis using last [where old = 0, of ?c1] a(1,2) True zero by (simp add: remove1_other)
  next
    case False
    have notin: "?e \<notin> ?E" using a(3) by simp
    obtain h where h: "LRU_Append ((lc_heap ?c1)(?e \<mapsto> ?x\<lparr>lh_refs := lh_refs ?x + 1, lh_in_cache := True\<rparr>)) in_use_head ?e = Some h"
      "shard_inv hf Q ?E (?c1\<lparr>lc_usage := lc_usage ?c1 + lh_charge ?x, lc_heap := h\<rparr>) lru (use @ [?e]) (add_mset ?e R)"
      "keeps ?c1 (?c1\<lparr>lc_usage := lc_usage ?c1 + lh_charge ?x, lc_heap := h\<rparr>)"
      using link_ok [OF a(1) _ notin xe] by (auto simp: max_refs_def)
    define c2 where "c2 = ?c1\<lparr>lc_usage := lc_usage ?c1 + lh_charge ?x, lc_heap := h\<rparr>"
    have i2: "shard_inv hf Q ?E c2 lru (use @ [?e]) (add_mset ?e R)" and ins2: "inserts c ?e k v ch c2"
      using h(2) inserts_keeps [OF a(2) h(3)] by (simp_all only: c2_def)
    note f2 = shard_facts [OF i2]
    have mem: "?e \<in> dom (lc_heap c2) \<and> ?e \<notin> heads \<and> nx (lc_heap c2) ?e \<noteq> ?e" by (rule rings_member [OF f2(1)]) simp
    have key: "key_at (lc_heap c2) ?e = k" using ins2 mem by (auto simp: inserts_def)
    have ent: "entry_ok (lc_heap c2) hf ?e" using mem f2(7) [of ?e] a(4) by (simp add: entry_ok_def)
    have keys: "key_at (lc_heap c2) b = key_at (lc_heap c) b" if b: "b \<in> ?E" for b
    proof -
      have "b \<in> dom (lc_heap c2)" using b rings_member [OF f2(1)] by auto
      moreover have "b \<noteq> ?e" using b notin by blast
      ultimately show ?thesis using ins2 by (simp add: inserts_def)
    qed
    have "key_at (lc_heap c2) ` ?E = key_at (lc_heap c) ` ?E" by (rule image_cong) (simp_all add: keys)
    then have space2: "card (insert (key_at (lc_heap c2) ?e) (key_at (lc_heap c2) ` ?E)) \<le> max_entries" using space key by simp
    obtain old g t where t: "HandleTable_Insert (lc_heap c2) (lc_table c2) ?e = Some (old, rechain g (lc_heap c2), t)"
      "finds (lc_heap c2) ?E (key_at (lc_heap c2) ?e) old" "table_ok (rechain g (lc_heap c2)) hf t (insert ?e (?E - {old}))"
      using HandleTable_Insert_ok [OF f2(2) ent notin space2] by blast
    have old: "old = 0 \<or> old \<in> ?E" using t(2) by (auto simp: finds_def split: if_splits)
    have olde: "old \<noteq> ?e" using old notin a(4) by auto
    have T: "insert ?e (?E - {old}) = set lru \<union> set (use @ [?e]) - {old}" using olde by auto
    let ?c3 = "c2\<lparr>lc_table := t, lc_heap := rechain g (lc_heap c2)\<rparr>"
    have i3: "shard_inv hf Q (set lru \<union> set (use @ [?e]) - {old}) ?c3 lru (use @ [?e]) (add_mset ?e R)" "keeps c2 ?c3"
      using shard_rechain [OF i2 t(3)] unfolding T by simp_all
    have "old = 0 \<or> old \<in> set lru \<union> set (use @ [?e])" using old by auto
    then obtain c4 where c4: "FinishErase ?c3 old = Some (old \<noteq> 0, c4)" "keeps ?c3 c4"
      "shard_ok hf Q c4 (remove1 old lru) (remove1 old (use @ [?e])) (add_mset ?e R)"
      using FinishErase_ok [OF i3(1)] by blast
    have rem: "remove1 old (use @ [?e]) = remove1 old use @ [?e]" using olde by (auto simp: remove1_append remove1_other)
    have "finds (lc_heap c2) ?E k old = finds (lc_heap c) ?E k old" by (rule finds_cong) (simp_all add: keys)
    then have fo: "finds (lc_heap c) ?E k old" using t(2) key by simp
    have "LRUCache_Insert c k (hf k) v ch = evict_loop c4 \<bind> (\<lambda>c. Some (?e, c))"
    proof -
      have cap: "lc_capacity c > 0" using False by (simp add: word_greater_zero_iff)
      have h': "LRU_Append ((lc_heap c)(?e \<mapsto> ?x\<lparr>lh_refs := 2, lh_in_cache := True\<rparr>)) in_use_head ?e = Some h"
        using h(1) by (simp add: numeral_2_eq_2)
      have "HandleTable_Insert h (lc_table c) ?e = Some (old, rechain g h, t)" using t(1) by (simp add: c2_def)
      moreover have "FinishErase (?c1\<lparr>lc_usage := lc_usage c + ch, lc_table := t, lc_heap := rechain g h\<rparr>) old = Some (old \<noteq> 0, c4)"
        using c4(1) by (simp add: c2_def)
      ultimately show ?thesis using cap h' by (simp add: LRUCache_Insert_def Let_def set_at_def numeral_2_eq_2)
    qed
    then show ?thesis
      using last [where old = old, of c4] c4(3) rem False fo inserts_keeps [OF inserts_keeps [OF ins2 i3(2)] c4(2)] by simp
  qed
qed

section \<open>leveldb: a shard of the LRU cache as a whole\<close>

text \<open>
  The operations of a shard in terms of what its clients see: the references they hold (\<open>shard_refs\<close>), the
  calls of deleters still to come (\<open>owed\<close>) and the contents, which are part of a map from keys to values (\<open>within\<close>).
\<close>

definition shard_refs :: "'v LRUCache \<Rightarrow> lru_ptr multiset" where
  "shard_refs c = (\<Sum>a \<in> dom (lc_heap c) - heads.
     replicate_mset (refs_at (lc_heap c) a - (if in_cache_at (lc_heap c) a then 1 else 0)) a)"

definition within :: "(Slice \<Rightarrow> 'v option) \<Rightarrow> 'v LRUCache \<Rightarrow> bool" where
  "within m c \<longleftrightarrow> (\<forall>a \<in> dom (lc_heap c) - heads. in_cache_at (lc_heap c) a \<longrightarrow> m (key_at (lc_heap c) a) = val_at (lc_heap c) a)"

definition shard_state :: "(Slice \<Rightarrow> u32) \<Rightarrow> (Slice \<Rightarrow> 'v \<Rightarrow> bool) \<Rightarrow> 'v LRUCache \<Rightarrow> bool" where
  "shard_state hf Q c \<longleftrightarrow> (\<exists>lru use. shard_ok hf Q c lru use (shard_refs c) \<and> (lc_capacity c = 0 \<longrightarrow> lru = [] \<and> use = []))"

lemma count_sum_mset: "finite A \<Longrightarrow> count (\<Sum>a \<in> A. f a) b = (\<Sum>a \<in> A. count (f a) b)"
  by (induction A rule: finite_induct) auto

lemma shard_refs_unique:
  assumes "shard_inv hf Q T c lru use R"
  shows "shard_refs c = R"
proof (rule multiset_eqI)
  fix b
  let ?D = "dom (lc_heap c) - heads" and ?E = "set lru \<union> set use" and ?hp = "lc_heap c"
  note f = shard_facts [OF assms]
  have fin: "finite ?D" using shard_finite [OF assms] by simp
  have one: "refs_at ?hp a - (if in_cache_at ?hp a then 1 else 0) = count R a" if "a \<in> ?D" for a
    using f(7) [of a] that by (auto simp: refs_ok_def)
  have "count (shard_refs c) b = (\<Sum>a \<in> ?D. if a = b then count R a else 0)"
    unfolding shard_refs_def count_sum_mset [OF fin] by (rule sum.cong) (use one in auto)
  also have "\<dots> = (if b \<in> ?D then count R b else 0)" using fin by simp
  also have "\<dots> = count R b" using f(4) by (auto simp: not_in_iff [symmetric])
  finally show "count (shard_refs c) b = count R b" .
qed

lemma shard_stateI: "shard_ok hf Q c lru use R \<Longrightarrow> (lc_capacity c = 0 \<Longrightarrow> lru = [] \<and> use = []) \<Longrightarrow> shard_state hf Q c"
  unfolding shard_state_def using shard_refs_unique by metis

lemma within_lists:
  assumes "shard_inv hf Q T c lru use R"
  shows "within m c \<longleftrightarrow> (\<forall>a \<in> set lru \<union> set use. m (key_at (lc_heap c) a) = val_at (lc_heap c) a)"
proof -
  note f = shard_facts [OF assms]
  have "in_cache_at (lc_heap c) a \<longleftrightarrow> a \<in> set lru \<union> set use" if "a \<in> dom (lc_heap c) - heads" for a
    using f(7) [of a] that by (simp add: refs_ok_def)
  moreover have "a \<in> dom (lc_heap c) - heads" if "a \<in> set lru \<union> set use" for a
    using rings_member [OF f(1) that] by blast
  ultimately show ?thesis unfolding within_def by blast
qed

lemma within_keeps:
  assumes "shard_inv hf Q T c lru use R" "shard_inv hf Q' T' c' lru' use' R'" "keeps c c'" "set lru' \<union> set use' \<subseteq> set lru \<union> set use" "within m c"
  shows "within m c'"
  unfolding within_lists [OF assms(2)]
proof
  fix a assume a: "a \<in> set lru' \<union> set use'"
  then have "a \<in> dom (lc_heap c')" using rings_member [OF shard_facts(1) [OF assms(2)]] by blast
  then have "key_at (lc_heap c') a = key_at (lc_heap c) a" "val_at (lc_heap c') a = val_at (lc_heap c) a" using assms(3) by (simp_all add: keeps_def)
  moreover have "m (key_at (lc_heap c) a) = val_at (lc_heap c) a" using assms(5) a assms(4) unfolding within_lists [OF assms(1)] by blast
  ultimately show "m (key_at (lc_heap c') a) = val_at (lc_heap c') a" by simp
qed

lemma keeps_cap: "keeps c c' \<Longrightarrow> lc_capacity c' = lc_capacity c"
  by (simp add: keeps_def)

lemma Lookup_state:
  assumes "shard_state hf Q c" "size (shard_refs c) < max_refs"
  shows "\<exists>e c'. LRUCache_Lookup c k (hf k) = Some (e, c') \<and> shard_state hf Q c' \<and> owed c' = owed c \<and> (\<forall>m. within m c \<longrightarrow> within m c') \<and>
    (if e = 0 then shard_refs c' = shard_refs c
     else shard_refs c' = add_mset e (shard_refs c) \<and> (\<exists>v. val_at (lc_heap c') e = Some v \<and> Q k v \<and> (\<forall>m. within m c \<longrightarrow> m k = Some v)))"
proof -
  obtain lru use where I: "shard_ok hf Q c lru use (shard_refs c)" and cap: "lc_capacity c = 0 \<Longrightarrow> lru = [] \<and> use = []"
    using assms(1) by (auto simp: shard_state_def)
  let ?E = "set lru \<union> set use"
  obtain e where e: "HandleTable_Lookup (lc_heap c) (lc_table c) k (hf k) = Some e" "finds (lc_heap c) ?E k e"
    using HandleTable_Lookup_ok [OF shard_facts(2) [OF I]] by blast
  show ?thesis
  proof (cases "e = 0")
    case True
    then have "LRUCache_Lookup c k (hf k) = Some (0, c)" using e(1) by (simp add: LRUCache_Lookup_def)
    with assms show ?thesis by auto
  next
    case False
    then have eE: "e \<in> ?E" "key_at (lc_heap c) e = k" using e(2) by (simp_all add: finds_def)
    obtain c' where c': "Ref c e = Some c'" "shard_ok hf Q c' (remove1 e lru) (if e \<in> set lru then use @ [e] else use) (add_mset e (shard_refs c))"
      "keeps c c'" using Ref_ok [OF I eE(1) le_less_trans [OF count_le_size assms(2)]] by blast
    have lists: "set (remove1 e lru) \<union> set (if e \<in> set lru then use @ [e] else use) \<subseteq> ?E"
      using set_remove1_subset [of e lru] by auto
    have st: "shard_state hf Q c'" using cap keeps_cap [OF c'(3)] eE(1) by (intro shard_stateI [OF c'(2)]) auto
    have w: "within m c'" if "within m c" for m by (rule within_keeps [OF I c'(2,3) lists that])
    have ed: "e \<in> dom (lc_heap c')" "e \<notin> heads" using shard_facts(4) [OF c'(2)] by auto
    have key: "key_at (lc_heap c') e = k" using ed(1) c'(3) eE(2) by (simp add: keeps_def)
    then obtain v where v: "val_at (lc_heap c') e = Some v" "Q k v" using shard_facts(7) [OF c'(2) ed] by auto
    have "m k = Some v" if "within m c" for m
    proof -
      have "val_at (lc_heap c') e = val_at (lc_heap c) e" using ed(1) c'(3) by (simp add: keeps_def)
      then show ?thesis using that eE v(1) unfolding within_lists [OF I] by auto
    qed
    then show ?thesis
      using False e(1) c' st w v shard_refs_unique [OF c'(2)] by (auto simp: LRUCache_Lookup_def keeps_def)
  qed
qed

lemma Release_state:
  assumes "shard_state hf Q c" "e \<in># shard_refs c"
  shows "\<exists>c'. LRUCache_Release c e = Some c' \<and> shard_state hf Q c' \<and> owed c' = owed c \<and> (\<forall>m. within m c \<longrightarrow> within m c') \<and>
    shard_refs c' = shard_refs c - {#e#}"
proof -
  obtain lru use where I: "shard_ok hf Q c lru use (shard_refs c)" and cap: "lc_capacity c = 0 \<Longrightarrow> lru = [] \<and> use = []"
    using assms by (auto simp: shard_state_def)
  define lru' where "lru' = (if count (shard_refs c) e = 1 \<and> e \<in> set use then lru @ [e] else lru)"
  define use' where "use' = (if count (shard_refs c) e = 1 then remove1 e use else use)"
  obtain c' where c': "Unref c e = Some c'" "keeps c c'" "shard_ok hf Q c' lru' use' (shard_refs c - {#e#})"
    using Unref_ok [OF I assms(2)] unfolding lru'_def use'_def by blast
  have lists: "set lru' \<union> set use' \<subseteq> set lru \<union> set use" using set_remove1_subset [of e use] by (auto simp: lru'_def use'_def)
  have "shard_state hf Q c'"
    using cap keeps_cap [OF c'(2)] by (intro shard_stateI [OF c'(3)]) (auto simp: lru'_def use'_def)
  moreover have "within m c'" if "within m c" for m by (rule within_keeps [OF I c'(3,2) lists that])
  ultimately show ?thesis using c'(1,2) shard_refs_unique [OF c'(3)] by (auto simp: LRUCache_Release_def keeps_def)
qed

lemma Erase_state:
  assumes "shard_state hf Q c"
  shows "\<exists>c'. LRUCache_Erase c k (hf k) = Some c' \<and> shard_state hf Q c' \<and> owed c' = owed c \<and> shard_refs c' = shard_refs c \<and>
    (\<forall>m. within m c \<longrightarrow> within (m(k := None)) c')"
proof -
  obtain lru use where I: "shard_ok hf Q c lru use (shard_refs c)" and cap: "lc_capacity c = 0 \<Longrightarrow> lru = [] \<and> use = []"
    using assms by (auto simp: shard_state_def)
  obtain e c' where c': "remove_key c k (hf k) = Some (e \<noteq> 0, c')" "finds (lc_heap c) (set lru \<union> set use) k e" "keeps c c'"
    "shard_ok hf Q c' (remove1 e lru) (remove1 e use) (shard_refs c)" using remove_key_ok [OF I] by blast
  note r = rings_facts [OF shard_facts(1) [OF I]]
  have lists: "set (remove1 e lru) \<union> set (remove1 e use) = set lru \<union> set use - {e}" using r(2,3) by auto
  have other: "key_at (lc_heap c) a \<noteq> k" if "a \<in> set lru \<union> set use - {e}" for a
    using that c'(2) key_unique [OF I, of a e] by (auto simp: finds_def split: if_splits)
  have "within (m(k := None)) c'" if "within m c" for m
    unfolding within_lists [OF c'(4)]
  proof
    fix a assume a: "a \<in> set (remove1 e lru) \<union> set (remove1 e use)"
    then have "a \<in> dom (lc_heap c')" using rings_member [OF shard_facts(1) [OF c'(4)]] by blast
    then have "key_at (lc_heap c') a = key_at (lc_heap c) a" "val_at (lc_heap c') a = val_at (lc_heap c) a" using c'(3) by (simp_all add: keeps_def)
    moreover have "m (key_at (lc_heap c) a) = val_at (lc_heap c) a" using that a unfolding within_lists [OF I] lists by blast
    ultimately show "(m(k := None)) (key_at (lc_heap c') a) = val_at (lc_heap c') a" using other a lists by simp
  qed
  moreover have "shard_state hf Q c'" using cap keeps_cap [OF c'(3)] by (intro shard_stateI [OF c'(4)]) auto
  ultimately show ?thesis using c'(1,3) shard_refs_unique [OF c'(4)] by (auto simp: LRUCache_Erase_def keeps_def)
qed

lemma Prune_state:
  assumes "shard_state hf Q c"
  shows "\<exists>c'. LRUCache_Prune c = Some c' \<and> shard_state hf Q c' \<and> owed c' = owed c \<and> shard_refs c' = shard_refs c \<and> (\<forall>m. within m c \<longrightarrow> within m c')"
proof -
  obtain lru use where I: "shard_ok hf Q c lru use (shard_refs c)" and cap: "lc_capacity c = 0 \<Longrightarrow> lru = [] \<and> use = []"
    using assms by (auto simp: shard_state_def)
  obtain c' where c': "LRUCache_Prune c = Some c'" "keeps c c'" "shard_ok hf Q c' [] use (shard_refs c)" using LRUCache_Prune_ok [OF I] by blast
  have "within m c'" if "within m c" for m by (rule within_keeps [OF I c'(3,2) _ that]) simp
  moreover have "shard_state hf Q c'" using cap keeps_cap [OF c'(2)] by (intro shard_stateI [OF c'(3)]) auto
  ultimately show ?thesis using c'(1,2) shard_refs_unique [OF c'(3)] by (auto simp: keeps_def)
qed

text \<open>The keys of the entries in memory.\<close>

definition shard_keys :: "'v LRUCache \<Rightarrow> Slice set" where
  "shard_keys c = key_at (lc_heap c) ` (dom (lc_heap c) - heads)"

lemma shard_keys_ok:
  assumes "shard_state hf Q c"
  shows "finite (shard_keys c)" "k \<in> shard_keys c \<Longrightarrow> \<exists>v. Q k v" "card (shard_keys c) \<le> size (owed c)"
proof -
  obtain lru use where I: "shard_ok hf Q c lru use (shard_refs c)" using assms by (auto simp: shard_state_def)
  have fin: "finite (dom (lc_heap c) - heads)" using shard_finite [OF I] by simp
  then show "finite (shard_keys c)" by (simp add: shard_keys_def)
  show "k \<in> shard_keys c \<Longrightarrow> \<exists>v. Q k v" using shard_facts(7) [OF I] by (auto simp: shard_keys_def)
  show "card (shard_keys c) \<le> size (owed c)"
    using card_image_le [OF fin, of "key_at (lc_heap c)"] by (simp add: shard_keys_def owed_def)
qed

lemma Insert_state:
  assumes "shard_state hf Q c" "Q k v" "card (insert k (shard_keys c)) \<le> max_entries"
  shows "\<exists>e c'. LRUCache_Insert c k (hf k) v ch = Some (e, c') \<and> shard_state hf Q c' \<and> owed c' = add_mset (k, Some v) (owed c) \<and>
    shard_refs c' = add_mset e (shard_refs c) \<and> (\<forall>m. within m c \<longrightarrow> within (m(k \<mapsto> v)) c')"
proof -
  obtain lru use where I: "shard_ok hf Q c lru use (shard_refs c)" and cap: "lc_capacity c = 0 \<Longrightarrow> lru = [] \<and> use = []"
    using assms(1) by (auto simp: shard_state_def)
  have "key_at (lc_heap c) ` (set lru \<union> set use) \<subseteq> shard_keys c"
    unfolding shard_keys_def using rings_member [OF shard_facts(1) [OF I]] by blast
  then have space: "card (insert k (key_at (lc_heap c) ` (set lru \<union> set use))) \<le> max_entries"
    using assms(3) shard_keys_ok(1) [OF assms(1)] by (meson card_mono finite_insert insert_mono le_trans)
  let ?e = "\<lambda>e. if lc_capacity c = 0 then [] else [e]"
  obtain e c' old n where i: "LRUCache_Insert c k (hf k) v ch = Some (e, c')" "inserts c e k v ch c'"
    "if lc_capacity c = 0 then old = 0 else finds (lc_heap c) (set lru \<union> set use) k old"
    "shard_ok hf Q c' (drop n (remove1 old lru)) (remove1 old use @ ?e e) (add_mset e (shard_refs c))"
    using LRUCache_Insert_ok [OF I assms(2) space, of ch] by blast
  note r = rings_facts [OF shard_facts(1) [OF I]]
  have lists: "set (remove1 old lru) = set lru - {old}" "set (remove1 old use) = set use - {old}" using r(2,3) by simp_all
  have other: "key_at (lc_heap c) a \<noteq> k" if "a \<in> set lru \<union> set use - {old}" for a
    using that i(3) key_unique [OF I, of a old] cap by (auto simp: finds_def split: if_splits)
  have "within (m(k \<mapsto> v)) c'" if "within m c" for m
    unfolding within_lists [OF i(4)]
  proof
    fix a assume a: "a \<in> set (drop n (remove1 old lru)) \<union> set (remove1 old use @ ?e e)"
    then have ad: "a \<in> dom (lc_heap c')" using rings_member [OF shard_facts(1) [OF i(4)]] by blast
    show "(m(k \<mapsto> v)) (key_at (lc_heap c') a) = val_at (lc_heap c') a"
    proof (cases "a = e")
      case True
      then show ?thesis using i(2) ad by (simp add: inserts_def)
    next
      case False
      then have aE: "a \<in> set lru \<union> set use - {old}" using a lists by (auto dest: in_set_dropD split: if_splits)
      have "key_at (lc_heap c') a = key_at (lc_heap c) a" "val_at (lc_heap c') a = val_at (lc_heap c) a"
        using i(2) ad False by (simp_all add: inserts_def)
      moreover have "m (key_at (lc_heap c) a) = val_at (lc_heap c) a" using that aE unfolding within_lists [OF I] by blast
      ultimately show ?thesis using other [OF aE] by simp
    qed
  qed
  moreover have "lc_capacity c' = lc_capacity c" using i(2) by (simp add: inserts_def)
  then have "shard_state hf Q c'" using cap by (intro shard_stateI [OF i(4)]) auto
  ultimately show ?thesis using i(1,2) shard_refs_unique [OF i(4)] by (auto simp: inserts_def)
qed

subsection \<open>Construction and destruction\<close>

lemma mk_LRUCache_ok: "\<exists>c. mk_LRUCache = Some c \<and> shard_ok hf Q c [] [] {#} \<and> owed c = {#}"
proof -
  let ?hp = "Map.empty(lru_head \<mapsto> list_head lru_head, in_use_head \<mapsto> list_head in_use_head) :: 'a lru_heap"
  obtain t where t: "mk_HandleTable ?hp = Some (?hp, t)" "table_ok ?hp hf t {}" using mk_HandleTable_ok by blast
  let ?c = "\<lparr>lc_capacity = 0, lc_usage = 0, lc_table = t, lc_heap = ?hp, lc_brk = 3, lc_deleted = []\<rparr>"
  have d: "dom ?hp = heads" by auto
  have "rings ?hp [] []"
    unfolding rings_def d by (auto simp: list_head_def nx_def pv_def lru_head_def in_use_head_def)
  moreover have "entries_ok hf Q ?hp {} {#}" unfolding entries_ok_def d by simp
  moreover have "dom ?hp \<subseteq> {..<3}" unfolding d by (simp add: lru_head_def in_use_head_def)
  ultimately have "shard_ok hf Q ?c [] [] {#}" using t(2) by (simp add: shard_inv_def)
  moreover have "owed ?c = {#}" unfolding owed_def by (simp add: d del: dom_fun_upd)
  moreover have "mk_LRUCache = Some ?c" using t(1) by (simp add: mk_LRUCache_def Let_def)
  ultimately show ?thesis by blast
qed

lemma destroy_loop_ok:
  assumes "dpath n p a lru lru_head" "distinct lru" "lru_head \<notin> set lru"
    "\<forall>e \<in> set lru. \<exists>x. lc_heap c e = Some x \<and> lh_next x = n e \<and> n e \<noteq> e \<and> lh_in_cache x \<and> lh_refs x = 1"
  shows "\<exists>c'. destroy_loop c (hd (lru @ [lru_head])) = Some c' \<and> lc_heap c' = lc_heap c |` (- set lru) \<and>
    lc_deleted c' = lc_deleted c @ map (\<lambda>e. (key_at (lc_heap c) e, val_at (lc_heap c) e)) lru"
  using assms
proof (induction lru arbitrary: c a)
  case Nil
  then show ?case by (subst destroy_loop.simps) (simp add: restrict_map_def)
next
  case (Cons e lru)
  obtain x where x: "lc_heap c e = Some x" "lh_next x = n e" "n e \<noteq> e" "lh_in_cache x" "lh_refs x = 1" using Cons.prems(4) by auto
  have ne: "n e = hd (lru @ [lru_head])" using Cons.prems(1) dpath_next by auto
  let ?c = "c\<lparr>lc_heap := (lc_heap c)(e := None), lc_deleted := lc_deleted c @ [(lh_key x, lh_value x)]\<rparr>"
  have "Unref (c\<lparr>lc_heap := (lc_heap c)(e \<mapsto> x\<lparr>lh_in_cache := False\<rparr>)\<rparr>) e = Some ?c"
    using x(2,3,5) by (simp add: Unref_def set_at_def handle_key_def Let_def)
  then have step: "destroy_loop c (hd ((e # lru) @ [lru_head])) = destroy_loop ?c (hd (lru @ [lru_head]))"
    using x ne Cons.prems(3) by (subst destroy_loop.simps) (simp add: set_at_def Let_def)
  have path: "dpath n p e lru lru_head" "distinct lru" "lru_head \<notin> set lru" using Cons.prems(1-3) by auto
  have rest: "\<forall>a \<in> set lru. \<exists>x. lc_heap ?c a = Some x \<and> lh_next x = n a \<and> n a \<noteq> a \<and> lh_in_cache x \<and> lh_refs x = 1"
    using Cons.prems(2,4) by auto
  obtain c' where c': "destroy_loop ?c (hd (lru @ [lru_head])) = Some c'" "lc_heap c' = lc_heap ?c |` (- set lru)"
    "lc_deleted c' = lc_deleted ?c @ map (\<lambda>e. (key_at (lc_heap ?c) e, val_at (lc_heap ?c) e)) lru"
    using Cons.IH [OF path rest] by blast
  have "lc_heap c' = lc_heap c |` (- set (e # lru))" unfolding c'(2) by (auto simp: restrict_map_def fun_eq_iff)
  moreover have "lc_deleted c' = lc_deleted c @ map (\<lambda>e. (key_at (lc_heap c) e, val_at (lc_heap c) e)) (e # lru)"
  proof -
    have "map (\<lambda>a. (key_at (lc_heap ?c) a, val_at (lc_heap ?c) a)) lru = map (\<lambda>a. (key_at (lc_heap c) a, val_at (lc_heap c) a)) lru"
    proof (rule map_cong [OF refl])
      fix a assume "a \<in> set lru"
      then have "a \<noteq> e" using Cons.prems(2) by auto
      then show "(key_at (lc_heap ?c) a, val_at (lc_heap ?c) a) = (key_at (lc_heap c) a, val_at (lc_heap c) a)" by simp
    qed
    then show ?thesis using c'(3) at_some [of "lc_heap c" e x, OF x(1)] by simp
  qed
  ultimately show ?case using step c'(1) by auto
qed

lemma delete_LRUCache_ok:
  assumes "shard_state hf Q c" "shard_refs c = {#}"
  shows "\<exists>c'. delete_LRUCache c = Some c' \<and> dom (lc_heap c') = heads \<and> mset (lc_deleted c') = owed c"
proof -
  obtain lru use where I: "shard_ok hf Q c lru use {#}" using assms by (auto simp: shard_state_def)
  note f = shard_facts [OF I]
  note r = rings_facts [OF f(1)]
  have use: "use = []" using f(6) by (cases use) auto
  have path: "dpath (nx (lc_heap c)) (pv (lc_heap c)) lru_head lru lru_head" "nx (lc_heap c) in_use_head = in_use_head"
    using f(1) use by (simp_all add: rings_def)
  have ent: "\<exists>x. lc_heap c e = Some x \<and> lh_next x = nx (lc_heap c) e \<and> nx (lc_heap c) e \<noteq> e \<and> lh_in_cache x \<and> lh_refs x = 1"
    if e: "e \<in> set lru" for e
  proof -
    have m: "e \<in> dom (lc_heap c) \<and> e \<notin> heads \<and> nx (lc_heap c) e \<noteq> e" using rings_member [OF f(1)] e by blast
    then obtain x where x: "lc_heap c e = Some x" by blast
    have "refs_ok (set lru \<union> set use) {#} (in_cache_at (lc_heap c) e) (refs_at (lc_heap c) e) e" using f(7) m by blast
    then show ?thesis using e m x at_some [of "lc_heap c" e x, OF x] by (simp add: refs_ok_def refs_one)
  qed
  have nohead: "lru_head \<notin> set lru" using r(5) by blast
  obtain c' where c': "destroy_loop c (hd (lru @ [lru_head])) = Some c'" "lc_heap c' = lc_heap c |` (- set lru)"
    "lc_deleted c' = lc_deleted c @ map (\<lambda>e. (key_at (lc_heap c) e, val_at (lc_heap c) e)) lru"
    using destroy_loop_ok [OF path(1) r(2) nohead ballI, OF ent] by blast
  obtain l where l: "lc_heap c lru_head = Some l" "lh_next l = hd (lru @ [lru_head])" using lru_next [OF I] by blast
  obtain u where u: "lc_heap c in_use_head = Some u" using r(1) by auto
  then have "lh_next u = in_use_head" using path(2) by (simp add: nx_def)
  then have "delete_LRUCache c = Some c'" using u l c'(1) by (simp add: delete_LRUCache_def)
  have all: "dom (lc_heap c) - heads = set lru"
  proof
    show "set lru \<subseteq> dom (lc_heap c) - heads" using rings_member [OF f(1)] by blast
    show "dom (lc_heap c) - heads \<subseteq> set lru"
    proof
      fix a assume "a \<in> dom (lc_heap c) - heads"
      then have "refs_ok (set lru \<union> set use) {#} (in_cache_at (lc_heap c) a) (refs_at (lc_heap c) a) a" using f(7) by blast
      then show "a \<in> set lru" using use by (auto simp: refs_ok_def split: if_splits)
    qed
  qed
  have "dom (lc_heap c') = heads" unfolding c'(2) dom_restrict using all r(1,5) by blast
  moreover have "mset (lc_deleted c') = owed c"
    unfolding owed_def all c'(3) using mset_set_set [OF r(2)] by simp
  ultimately show ?thesis using \<open>delete_LRUCache c = Some c'\<close> by blast
qed

end
