(* ===== verification/Lru_Theorems.thy ===== *)
theory Lru_Theorems imports Lru_Shard Bloom_Facts begin

section \<open>leveldb: the properties of the LRU cache\<close>

text \<open>
  The sharded cache is a cache in the sense of the interface (\<open>block_cache\<close>); a run of operations of it agrees with a map from keys to
  values, and every value that is inserted is passed to its deleter once.
\<close>

subsection \<open>The shards\<close>

definition hash_of :: "Slice \<Rightarrow> u32" where
  "hash_of k = the (HashSlice k)"

lemma HashSlice_total: "HashSlice k = Some (hash_of k)"
  using Hash_total [of k 0] by (auto simp: hash_of_def HashSlice_def)

lemma Shard_less: "Shard h < kNumShards"
proof -
  have "unat (drop_bit 28 h) = unat h div 2 ^ 28" by (simp only: unat_drop_bit_eq) (simp only: drop_bit_eq_div)
  moreover have "unat h < 2 ^ 32" using unsigned_less [of h] by simp
  ultimately show ?thesis by (simp add: Shard_def kNumShards_def kNumShardBits_def less_mult_imp_div_less)
qed

text \<open>The shard \<open>s\<close> holds keys that hash to it.\<close>

definition in_shard :: "nat \<Rightarrow> (Slice \<Rightarrow> 'v \<Rightarrow> bool) \<Rightarrow> Slice \<Rightarrow> 'v \<Rightarrow> bool" where
  "in_shard s Q k v \<longleftrightarrow> Q k v \<and> Shard (hash_of k) = s"

definition valid_lru :: "(Slice \<Rightarrow> 'v \<Rightarrow> bool) \<Rightarrow> 'v ShardedLRUCache \<Rightarrow> bool" where
  "valid_lru Q sc \<longleftrightarrow> length (sc_shards sc) = kNumShards \<and>
     (\<forall>s < kNumShards. shard_state hash_of (in_shard s Q) (sc_shards sc ! s))"

definition lru_refs :: "'v ShardedLRUCache \<Rightarrow> (nat \<times> lru_ptr) multiset" where
  "lru_refs sc = (\<Sum>s < length (sc_shards sc). image_mset (Pair s) (shard_refs (sc_shards sc ! s)))"

definition lru_owed :: "'v ShardedLRUCache \<Rightarrow> (Slice \<times> 'v option) multiset" where
  "lru_owed sc = (\<Sum>s < length (sc_shards sc). owed (sc_shards sc ! s))"

definition lru_within :: "(Slice \<Rightarrow> 'v option) \<Rightarrow> 'v ShardedLRUCache \<Rightarrow> bool" where
  "lru_within m sc \<longleftrightarrow> (\<forall>s < length (sc_shards sc). within m (sc_shards sc ! s))"

lemma put_shard_simps [simp]:
  "length (sc_shards (put_shard sc i c)) = length (sc_shards sc)"
  "s < length (sc_shards sc) \<Longrightarrow> sc_shards (put_shard sc i c) ! s = (if s = i then c else sc_shards sc ! s)"
  by (auto simp: put_shard_def nth_list_update)

text \<open>A sum over the shards when one of them changes.\<close>

lemma sum_put_shard:
  fixes f :: "nat \<Rightarrow> 'v LRUCache \<Rightarrow> 'm :: comm_monoid_add"
  assumes "i < length (sc_shards sc)"
  shows "(\<Sum>s < length (sc_shards (put_shard sc i c)). f s (sc_shards (put_shard sc i c) ! s)) =
    f i c + (\<Sum>s \<in> {..<length (sc_shards sc)} - {i}. f s (sc_shards sc ! s))"
proof -
  have "(\<Sum>s < length (sc_shards sc). f s (sc_shards (put_shard sc i c) ! s)) =
      f i (sc_shards (put_shard sc i c) ! i) + (\<Sum>s \<in> {..<length (sc_shards sc)} - {i}. f s (sc_shards (put_shard sc i c) ! s))"
    by (rule sum.remove) (use assms in simp_all)
  also have "(\<Sum>s \<in> {..<length (sc_shards sc)} - {i}. f s (sc_shards (put_shard sc i c) ! s)) =
      (\<Sum>s \<in> {..<length (sc_shards sc)} - {i}. f s (sc_shards sc ! s))"
    by (rule sum.cong) auto
  finally show ?thesis using assms by simp
qed

lemma sum_shard:
  fixes f :: "nat \<Rightarrow> 'v LRUCache \<Rightarrow> 'm :: comm_monoid_add"
  assumes "i < length (sc_shards sc)"
  shows "(\<Sum>s < length (sc_shards sc). f s (sc_shards sc ! s)) = f i (sc_shards sc ! i) + (\<Sum>s \<in> {..<length (sc_shards sc)} - {i}. f s (sc_shards sc ! s))"
  by (rule sum.remove) (use assms in simp_all)

lemma put_refs:
  assumes "i < length (sc_shards sc)"
  shows "lru_refs (put_shard sc i c) + image_mset (Pair i) (shard_refs (sc_shards sc ! i)) = lru_refs sc + image_mset (Pair i) (shard_refs c)"
  unfolding lru_refs_def
  using sum_put_shard [OF assms, of "\<lambda>s c. image_mset (Pair s) (shard_refs c)" c] sum_shard [OF assms, of "\<lambda>s c. image_mset (Pair s) (shard_refs c)"]
  by (simp add: ac_simps)

lemma put_owed:
  assumes "i < length (sc_shards sc)"
  shows "lru_owed (put_shard sc i c) + owed (sc_shards sc ! i) = lru_owed sc + owed c"
  unfolding lru_owed_def
  using sum_put_shard [OF assms, of "\<lambda>_. owed" c] sum_shard [OF assms, of "\<lambda>_. owed"] by (simp add: ac_simps)

lemma put_within:
  "lru_within m sc \<Longrightarrow> within m' c \<Longrightarrow> (\<And>s. s < length (sc_shards sc) \<Longrightarrow> s \<noteq> i \<Longrightarrow> within m (sc_shards sc ! s) \<Longrightarrow> within m' (sc_shards sc ! s)) \<Longrightarrow>
   lru_within m' (put_shard sc i c)"
  by (simp add: lru_within_def)

lemma put_valid:
  "valid_lru Q sc \<Longrightarrow> shard_state hash_of (in_shard i Q) c \<Longrightarrow> valid_lru Q (put_shard sc i c)"
  by (simp add: valid_lru_def)

lemma refs_member:
  assumes "h \<in># lru_refs sc"
  shows "fst h < length (sc_shards sc) \<and> snd h \<in># shard_refs (sc_shards sc ! fst h)"
  using assms by (auto simp: lru_refs_def set_mset_sum)

text \<open>A shard holds no key of another one.\<close>

lemma within_other:
  assumes "shard_state hash_of (in_shard s Q) c" "Shard (hash_of k) \<noteq> s" "within m c" "\<And>x. x \<noteq> k \<Longrightarrow> m' x = m x"
  shows "within m' c"
proof -
  obtain lru use where I: "shard_ok hash_of (in_shard s Q) c lru use (shard_refs c)" using assms(1) by (auto simp: shard_state_def)
  have "key_at (lc_heap c) a \<noteq> k" if "a \<in> dom (lc_heap c)" "a \<notin> heads" for a
    using shard_facts(7) [OF I that] assms(2) by (auto simp: in_shard_def)
  with assms(3,4) show ?thesis by (simp add: within_def)
qed

text \<open>A shard has a part of the references and of the entries.\<close>

lemma shard_part:
  assumes "i < length (sc_shards sc)"
  shows "size (shard_refs (sc_shards sc ! i)) \<le> size (lru_refs sc)" "size (owed (sc_shards sc ! i)) \<le> size (lru_owed sc)"
  unfolding lru_refs_def lru_owed_def
  using sum_shard [OF assms, of "\<lambda>s c. image_mset (Pair s) (shard_refs c)"] sum_shard [OF assms, of "\<lambda>_. owed"] by simp_all

text \<open>The keys in the memory of the shard of a key.\<close>

definition lru_keys :: "'v ShardedLRUCache \<Rightarrow> Slice \<Rightarrow> Slice set" where
  "lru_keys sc k = shard_keys (sc_shards sc ! Shard (hash_of k))"

subsection \<open>The operations\<close>

lemma valid_shard: "valid_lru Q sc \<Longrightarrow> i < kNumShards \<Longrightarrow> get_shard sc i = Some (sc_shards sc ! i) \<and> shard_state hash_of (in_shard i Q) (sc_shards sc ! i)"
  by (simp add: valid_lru_def get_shard_def)

lemma Sharded_Lookup_ok:
  assumes "valid_lru Q sc" "size (lru_refs sc) < max_refs"
  shows "\<exists>found sc'. Sharded_Lookup sc k = Some (found, sc') \<and> valid_lru Q sc' \<and> lru_owed sc' = lru_owed sc \<and>
    (\<forall>m. lru_within m sc \<longrightarrow> lru_within m sc') \<and>
    (case found of None \<Rightarrow> lru_refs sc' = lru_refs sc
     | Some h \<Rightarrow> lru_refs sc' = add_mset h (lru_refs sc) \<and>
         (\<exists>v. Sharded_Value sc' h = Some v \<and> Q k v \<and> (\<forall>m. lru_within m sc \<longrightarrow> m k = Some v)))"
proof -
  let ?s = "Shard (hash_of k)"
  have s: "?s < kNumShards" by (rule Shard_less)
  then have len: "?s < length (sc_shards sc)" using assms(1) by (simp add: valid_lru_def)
  note sh = valid_shard [OF assms(1) s]
  obtain e c' where c': "LRUCache_Lookup (sc_shards sc ! ?s) k (hash_of k) = Some (e, c')" "shard_state hash_of (in_shard ?s Q) c'"
    "owed c' = owed (sc_shards sc ! ?s)" "\<forall>m. within m (sc_shards sc ! ?s) \<longrightarrow> within m c'"
    "if e = 0 then shard_refs c' = shard_refs (sc_shards sc ! ?s)
     else shard_refs c' = add_mset e (shard_refs (sc_shards sc ! ?s)) \<and>
       (\<exists>v. val_at (lc_heap c') e = Some v \<and> in_shard ?s Q k v \<and> (\<forall>m. within m (sc_shards sc ! ?s) \<longrightarrow> m k = Some v))"
    using Lookup_state [of hash_of "in_shard ?s Q" "sc_shards sc ! ?s" k] sh le_less_trans [OF shard_part(1) [OF len] assms(2)] by blast
  let ?sc = "put_shard sc ?s c'"
  have look: "Sharded_Lookup sc k = Some (if e = 0 then None else Some (?s, e), ?sc)"
    using c'(1) sh by (simp add: Sharded_Lookup_def HashSlice_total)
  have w: "lru_within m ?sc" if "lru_within m sc" for m
    by (rule put_within [OF that]) (use that len c'(4) in \<open>auto simp: lru_within_def\<close>)
  have owed: "lru_owed ?sc = lru_owed sc" using put_owed [OF len, of c'] c'(3) by simp
  note v = put_valid [OF assms(1) c'(2)]
  show ?thesis
  proof (cases "e = 0")
    case True
    then have "lru_refs ?sc = lru_refs sc" using put_refs [OF len, of c'] c'(5) by simp
    then show ?thesis using look v owed w True by auto
  next
    case False
    then obtain x where x: "val_at (lc_heap c') e = Some x" "in_shard ?s Q k x" "\<forall>m. within m (sc_shards sc ! ?s) \<longrightarrow> m k = Some x"
      and refs: "shard_refs c' = add_mset e (shard_refs (sc_shards sc ! ?s))" using c'(5) by auto
    have "lru_refs ?sc = add_mset (?s, e) (lru_refs sc)" using put_refs [OF len, of c'] refs by simp
    moreover have "Sharded_Value ?sc (?s, e) = Some x"
    proof -
      have "e \<in># shard_refs c'" using refs by simp
      moreover obtain lru use where "shard_ok hash_of (in_shard ?s Q) c' lru use (shard_refs c')" using c'(2) by (auto simp: shard_state_def)
      ultimately have "e \<in> dom (lc_heap c')" using shard_facts(4) by blast
      then obtain y where "lc_heap c' e = Some y" by blast
      then show ?thesis using x(1) len by (simp add: Sharded_Value_def read_handle_def get_shard_def val_at_def)
    qed
    moreover have "\<forall>m. lru_within m sc \<longrightarrow> m k = Some x" using x(3) len by (simp add: lru_within_def)
    moreover have "Q k x" using x(2) by (simp add: in_shard_def)
    ultimately show ?thesis using look v owed w False by auto
  qed
qed

lemma Sharded_Insert_ok:
  assumes "valid_lru Q sc" "Q k v" "card (insert k (lru_keys sc k)) \<le> max_entries"
  shows "\<exists>h sc'. Sharded_Insert sc k v n = Some (h, sc') \<and> valid_lru Q sc' \<and> lru_owed sc' = add_mset (k, Some v) (lru_owed sc) \<and>
    (\<forall>m. lru_within m sc \<longrightarrow> lru_within (m(k \<mapsto> v)) sc') \<and> lru_refs sc' = add_mset h (lru_refs sc)"
proof -
  let ?s = "Shard (hash_of k)"
  have s: "?s < kNumShards" by (rule Shard_less)
  then have len: "?s < length (sc_shards sc)" using assms by (simp add: valid_lru_def)
  note sh = valid_shard [OF assms(1) s]
  obtain e c' where c': "LRUCache_Insert (sc_shards sc ! ?s) k (hash_of k) v (of_nat n) = Some (e, c')" "shard_state hash_of (in_shard ?s Q) c'"
    "owed c' = add_mset (k, Some v) (owed (sc_shards sc ! ?s))" "shard_refs c' = add_mset e (shard_refs (sc_shards sc ! ?s))"
    "\<forall>m. within m (sc_shards sc ! ?s) \<longrightarrow> within (m(k \<mapsto> v)) c'"
    using Insert_state [of hash_of "in_shard ?s Q" "sc_shards sc ! ?s" k v "of_nat n"] sh assms(2) assms(3) [unfolded lru_keys_def]
    by (auto simp: in_shard_def)
  let ?sc = "put_shard sc ?s c'"
  have "Sharded_Insert sc k v n = Some ((?s, e), ?sc)" using c'(1) sh by (simp add: Sharded_Insert_def HashSlice_total)
  moreover have "lru_owed ?sc = add_mset (k, Some v) (lru_owed sc)" using put_owed [OF len, of c'] c'(3) by simp
  moreover have "lru_refs ?sc = add_mset (?s, e) (lru_refs sc)" using put_refs [OF len, of c'] c'(4) by simp
  moreover have "lru_within (m(k \<mapsto> v)) ?sc" if m: "lru_within m sc" for m
  proof (rule put_within [OF m])
    show "within (m(k \<mapsto> v)) c'" using m len c'(5) by (simp add: lru_within_def)
    fix t assume t: "t < length (sc_shards sc)" "t \<noteq> ?s" "within m (sc_shards sc ! t)"
    have "shard_state hash_of (in_shard t Q) (sc_shards sc ! t)" using assms(1) t(1) by (simp add: valid_lru_def)
    then show "within (m(k \<mapsto> v)) (sc_shards sc ! t)" by (rule within_other [where k = k and m = m]) (use t in auto)
  qed
  ultimately show ?thesis using put_valid [OF assms(1) c'(2)] by blast
qed

lemma Sharded_Release_ok:
  assumes "valid_lru Q sc" "h \<in># lru_refs sc"
  shows "\<exists>sc'. Sharded_Release sc h = Some sc' \<and> valid_lru Q sc' \<and> lru_owed sc' = lru_owed sc \<and>
    (\<forall>m. lru_within m sc \<longrightarrow> lru_within m sc') \<and> lru_refs sc' = lru_refs sc - {#h#}"
proof -
  obtain s e where h: "h = (s, e)" by (cases h)
  have len: "s < length (sc_shards sc)" and e: "e \<in># shard_refs (sc_shards sc ! s)" using refs_member [OF assms(2)] h by simp_all
  have s: "s < kNumShards" using len assms(1) by (simp add: valid_lru_def)
  note sh = valid_shard [OF assms(1) s]
  obtain c' where c': "LRUCache_Release (sc_shards sc ! s) e = Some c'" "shard_state hash_of (in_shard s Q) c'"
    "owed c' = owed (sc_shards sc ! s)" "\<forall>m. within m (sc_shards sc ! s) \<longrightarrow> within m c'" "shard_refs c' = shard_refs (sc_shards sc ! s) - {#e#}"
    using Release_state [of hash_of "in_shard s Q" "sc_shards sc ! s" e] sh e by blast
  let ?sc = "put_shard sc s c'"
  obtain lru use where I: "shard_ok hash_of (in_shard s Q) (sc_shards sc ! s) lru use (shard_refs (sc_shards sc ! s))"
    using sh by (auto simp: shard_state_def)
  have ed: "e \<in> dom (lc_heap (sc_shards sc ! s))" "e \<notin> heads" using shard_facts(4) [OF I] e by auto
  then obtain x where x: "lc_heap (sc_shards sc ! s) e = Some x" by blast
  have "lh_hash x = hash_of (lh_key x)" "Shard (hash_of (lh_key x)) = s"
    using shard_facts(7) [OF I ed] at_some [of "lc_heap (sc_shards sc ! s)" e x, OF x] by (auto simp: in_shard_def)
  then have "Sharded_Release sc h = Some ?sc"
    using x sh c'(1) h by (simp add: Sharded_Release_def read_handle_def)
  moreover have "lru_owed ?sc = lru_owed sc" using put_owed [OF len, of c'] c'(3) by simp
  moreover have "lru_within m ?sc" if "lru_within m sc" for m
    by (rule put_within [OF that]) (use that len c'(4) in \<open>auto simp: lru_within_def\<close>)
  moreover have "lru_refs ?sc = lru_refs sc - {#h#}"
  proof -
    have "shard_refs (sc_shards sc ! s) = add_mset e (shard_refs c')" using c'(5) e by simp
    then have "add_mset h (lru_refs ?sc) = lru_refs sc" using put_refs [OF len, of c'] h by simp
    then show ?thesis by (metis add_mset_remove_trivial)
  qed
  ultimately show ?thesis using put_valid [OF assms(1) c'(2)] by blast
qed

lemma Sharded_Erase_ok:
  assumes "valid_lru Q sc"
  shows "\<exists>sc'. Sharded_Erase sc k = Some sc' \<and> valid_lru Q sc' \<and> lru_owed sc' = lru_owed sc \<and>
    (\<forall>m. lru_within m sc \<longrightarrow> lru_within (m(k := None)) sc') \<and> lru_refs sc' = lru_refs sc"
proof -
  let ?s = "Shard (hash_of k)"
  have s: "?s < kNumShards" by (rule Shard_less)
  then have len: "?s < length (sc_shards sc)" using assms by (simp add: valid_lru_def)
  note sh = valid_shard [OF assms s]
  obtain c' where c': "LRUCache_Erase (sc_shards sc ! ?s) k (hash_of k) = Some c'" "shard_state hash_of (in_shard ?s Q) c'"
    "owed c' = owed (sc_shards sc ! ?s)" "shard_refs c' = shard_refs (sc_shards sc ! ?s)"
    "\<forall>m. within m (sc_shards sc ! ?s) \<longrightarrow> within (m(k := None)) c'"
    using Erase_state [of hash_of "in_shard ?s Q" "sc_shards sc ! ?s" k] sh by blast
  let ?sc = "put_shard sc ?s c'"
  have "Sharded_Erase sc k = Some ?sc" using c'(1) sh by (simp add: Sharded_Erase_def HashSlice_total)
  moreover have "lru_owed ?sc = lru_owed sc" using put_owed [OF len, of c'] c'(3) by simp
  moreover have "lru_refs ?sc = lru_refs sc" using put_refs [OF len, of c'] c'(4) by simp
  moreover have "lru_within (m(k := None)) ?sc" if m: "lru_within m sc" for m
  proof (rule put_within [OF m])
    show "within (m(k := None)) c'" using m len c'(5) by (simp add: lru_within_def)
    fix t assume t: "t < length (sc_shards sc)" "t \<noteq> ?s" "within m (sc_shards sc ! t)"
    have "shard_state hash_of (in_shard t Q) (sc_shards sc ! t)" using assms(1) t(1) by (simp add: valid_lru_def)
    then show "within (m(k := None)) (sc_shards sc ! t)" by (rule within_other [where k = k and m = m]) (use t in auto)
  qed
  ultimately show ?thesis using put_valid [OF assms(1) c'(2)] by blast
qed

lemma prune_shards_ok:
  assumes "\<forall>i < length cs. shard_state hf (Q i) (cs ! i)"
  shows "\<exists>cs'. prune_shards cs = Some cs' \<and> length cs' = length cs \<and> (\<forall>i < length cs. shard_state hf (Q i) (cs' ! i) \<and> owed (cs' ! i) = owed (cs ! i) \<and>
    shard_refs (cs' ! i) = shard_refs (cs ! i) \<and> (\<forall>m. within m (cs ! i) \<longrightarrow> within m (cs' ! i)))"
  using assms
proof (induction cs arbitrary: Q)
  case (Cons c cs)
  have "shard_state hf (Q 0) c" using Cons.prems by force
  then obtain c' where c': "LRUCache_Prune c = Some c'" "shard_state hf (Q 0) c'" "owed c' = owed c" "shard_refs c' = shard_refs c"
    "\<forall>m. within m c \<longrightarrow> within m c'" using Prune_state by blast
  have "\<forall>i < length cs. shard_state hf (Q (Suc i)) (cs ! i)" using Cons.prems by force
  then obtain cs' where cs': "prune_shards cs = Some cs'" "length cs' = length cs"
    "\<forall>i < length cs. shard_state hf (Q (Suc i)) (cs' ! i) \<and> owed (cs' ! i) = owed (cs ! i) \<and>
      shard_refs (cs' ! i) = shard_refs (cs ! i) \<and> (\<forall>m. within m (cs ! i) \<longrightarrow> within m (cs' ! i))"
    using Cons.IH [of "\<lambda>i. Q (Suc i)"] by blast
  then show ?case using c' by (auto simp: less_Suc_eq_0_disj)
qed simp

lemma Sharded_Prune_ok:
  assumes "valid_lru Q sc"
  shows "\<exists>sc'. Sharded_Prune sc = Some sc' \<and> valid_lru Q sc' \<and> lru_owed sc' = lru_owed sc \<and>
    (\<forall>m. lru_within m sc \<longrightarrow> lru_within m sc') \<and> lru_refs sc' = lru_refs sc"
proof -
  have len: "length (sc_shards sc) = kNumShards" using assms by (simp add: valid_lru_def)
  obtain cs' where cs': "prune_shards (sc_shards sc) = Some cs'" "length cs' = kNumShards"
    "\<forall>i < kNumShards. shard_state hash_of (in_shard i Q) (cs' ! i) \<and> owed (cs' ! i) = owed (sc_shards sc ! i) \<and>
      shard_refs (cs' ! i) = shard_refs (sc_shards sc ! i) \<and> (\<forall>m. within m (sc_shards sc ! i) \<longrightarrow> within m (cs' ! i))"
    using prune_shards_ok [of "sc_shards sc" hash_of "\<lambda>i. in_shard i Q"] assms len by (auto simp: valid_lru_def)
  let ?sc = "sc\<lparr>sc_shards := cs'\<rparr>"
  have "lru_owed ?sc = lru_owed sc" unfolding lru_owed_def using cs'(2,3) len by (auto intro!: sum.cong)
  moreover have "lru_refs ?sc = lru_refs sc" unfolding lru_refs_def using cs'(2,3) len by (auto intro!: sum.cong)
  ultimately show ?thesis
    using cs' len by (intro exI [of _ ?sc]) (auto simp: Sharded_Prune_def valid_lru_def lru_within_def)
qed

lemma NewId_ok: "valid_lru Q (snd (NewId sc)) = valid_lru Q sc" "lru_refs (snd (NewId sc)) = lru_refs sc"
  by (simp_all add: NewId_def Let_def valid_lru_def lru_refs_def)

lemma NewLRUCache_ok: "\<exists>sc :: 'v ShardedLRUCache. NewLRUCache capacity = Some sc \<and> (\<forall>Q. valid_lru Q sc) \<and> lru_refs sc = {#} \<and> lru_owed sc = {#} \<and> lru_within m sc"
proof -
  obtain c :: "'v LRUCache" where c: "mk_LRUCache = Some c" using mk_LRUCache_ok by blast
  have ok: "shard_ok hf Q c [] [] {#}" "owed c = {#}" for hf Q using mk_LRUCache_ok [of hf Q] c by (metis option.inject)+
  define p where "p = (capacity + (of_nat kNumShards - 1)) div of_nat kNumShards"
  have heap: "lc_heap (SetCapacity c p) = lc_heap c" "lc_deleted (SetCapacity c p) = lc_deleted c" by (simp_all add: SetCapacity_def)
  have ok2: "shard_ok hf Q (SetCapacity c p) [] [] {#}" for hf Q using ok(1) [of hf Q] by (simp add: shard_inv_def SetCapacity_def)
  then have st: "shard_state hf Q (SetCapacity c p)" for hf Q by (rule shard_stateI) simp
  have refs: "shard_refs (SetCapacity c p) = {#}" by (rule shard_refs_unique [OF ok2])
  have owed: "owed (SetCapacity c p) = {#}" using ok(2) unfolding owed_def heap .
  have w: "within m (SetCapacity c p)" unfolding within_lists [OF ok2] by simp
  let ?sc = "\<lparr>sc_shards = map (\<lambda>s. SetCapacity s p) (replicate kNumShards c), sc_last_id = 0\<rparr>"
  have "NewLRUCache capacity = Some ?sc" unfolding NewLRUCache_def c by (simp add: p_def Let_def)
  moreover have "valid_lru Q ?sc" for Q by (simp add: valid_lru_def st)
  moreover have "lru_refs ?sc = {#}" "lru_owed ?sc = {#}" by (simp_all add: lru_refs_def lru_owed_def refs owed)
  moreover have "lru_within m ?sc" by (simp add: lru_within_def w)
  ultimately show ?thesis by blast
qed

lemma lru_space:
  assumes "valid_lru Q sc"
  shows "finite {k. \<exists>v. Q k v} \<Longrightarrow> card {k. \<exists>v. Q k v} \<le> 2 ^ 31 \<Longrightarrow> Q k v \<Longrightarrow> card (insert k (lru_keys sc k)) \<le> max_entries"
    and "size (lru_owed sc) < max_entries \<Longrightarrow> card (insert k (lru_keys sc k)) \<le> max_entries"
proof -
  let ?s = "Shard (hash_of k)"
  have len: "?s < length (sc_shards sc)" using assms Shard_less by (simp add: valid_lru_def)
  note keys = shard_keys_ok [OF conjunct2 [OF valid_shard [OF assms Shard_less [of "hash_of k"]]], folded lru_keys_def]
  show "card (insert k (lru_keys sc k)) \<le> max_entries" if "finite {k. \<exists>v. Q k v}" "card {k. \<exists>v. Q k v} \<le> 2 ^ 31" "Q k v"
  proof -
    have "insert k (lru_keys sc k) \<subseteq> {k. \<exists>v. Q k v}" using keys(2) that(3) by (auto simp: in_shard_def)
    then have "card (insert k (lru_keys sc k)) \<le> card {k. \<exists>v. Q k v}" by (rule card_mono [OF that(1)])
    with that(2) show ?thesis by (simp add: max_entries_def)
  qed
  show "card (insert k (lru_keys sc k)) \<le> max_entries" if "size (lru_owed sc) < max_entries"
  proof -
    have "card (insert k (lru_keys sc k)) \<le> Suc (card (lru_keys sc k))" using keys(1) by (simp add: card_insert_if)
    also have "\<dots> \<le> Suc (size (lru_owed sc))" using keys(3) shard_part(2) [OF len] by simp
    finally show ?thesis using that by simp
  qed
qed

interpretation lru: block_cache ShardedLRUCache_ops valid_lru lru_refs max_refs
proof
  fix Q :: "Slice \<Rightarrow> 'a \<Rightarrow> bool" and c k v n h
  show "\<exists>found c'. cache_Lookup ShardedLRUCache_ops c k = Some (found, c') \<and> valid_lru Q c' \<and>
      (case found of None \<Rightarrow> lru_refs c' = lru_refs c
       | Some h \<Rightarrow> lru_refs c' = lru_refs c + {#h#} \<and> (\<exists>v. cache_Value ShardedLRUCache_ops c' h = Some v \<and> Q k v))"
    if v: "valid_lru Q c" "size (lru_refs c) < max_refs"
  proof -
    obtain found c' where "Sharded_Lookup c k = Some (found, c')" "valid_lru Q c'"
      "case found of None \<Rightarrow> lru_refs c' = lru_refs c | Some h \<Rightarrow> lru_refs c' = add_mset h (lru_refs c) \<and>
         (\<exists>v. Sharded_Value c' h = Some v \<and> Q k v \<and> (\<forall>m. lru_within m c \<longrightarrow> m k = Some v))"
      using Sharded_Lookup_ok [OF v, of k] by blast
    then show ?thesis by (auto simp: ShardedLRUCache_ops_def split: option.splits)
  qed
  show "\<exists>h c'. cache_Insert ShardedLRUCache_ops c k v n = Some (h, c') \<and> valid_lru Q c' \<and> lru_refs c' = lru_refs c + {#h#}"
    if "valid_lru Q c" "Q k v" "finite {k. \<exists>v. Q k v}" "card {k. \<exists>v. Q k v} \<le> 2 ^ 31"
    using Sharded_Insert_ok [OF that(1,2) lru_space(1) [OF that(1,3,4,2)], of n] by (auto simp: ShardedLRUCache_ops_def)
  show "\<exists>c'. cache_Release ShardedLRUCache_ops c h = Some c' \<and> valid_lru Q c' \<and> lru_refs c' = lru_refs c - {#h#}"
    if "valid_lru Q c" "h \<in># lru_refs c"
    using Sharded_Release_ok [OF that] by (auto simp: ShardedLRUCache_ops_def)
  show "valid_lru Q (snd (cache_NewId ShardedLRUCache_ops c)) \<and> lru_refs (snd (cache_NewId ShardedLRUCache_ops c)) = lru_refs c"
    if "valid_lru Q c" using that by (simp add: ShardedLRUCache_ops_def NewId_ok)
qed

subsection \<open>Runs\<close>

text \<open>
  A run of operations of a client that keeps the list of its handles: an insertion and a lookup that finds something add a handle
  at the end, \<open>Op_Release i\<close> releases the handle at position \<open>i\<close> if there is one. The results are the values that lookups found.
\<close>

datatype 'v cache_op = Op_Insert Slice 'v nat | Op_Lookup Slice | Op_Release nat | Op_Erase Slice | Op_Prune | Op_NewId

definition drop_nth :: "nat \<Rightarrow> 'a list \<Rightarrow> 'a list" where
  "drop_nth i xs = take i xs @ drop (Suc i) xs"

fun cache_run :: "('c, 'h, 'v) Cache \<Rightarrow> 'v cache_op list \<Rightarrow> 'c \<Rightarrow> 'h list \<Rightarrow> ('v option list \<times> 'c \<times> 'h list) option" where
  "cache_run C [] c hs = Some ([], c, hs)"
| "cache_run C (Op_Insert k v n # ops) c hs = do {
     (h, c) \<leftarrow> cache_Insert C c k v n;
     (rs, st) \<leftarrow> cache_run C ops c (hs @ [h]);
     Some (None # rs, st)
   }"
| "cache_run C (Op_Lookup k # ops) c hs = do {
     (found, c) \<leftarrow> cache_Lookup C c k;
     (case found of
        None \<Rightarrow> do { (rs, st) \<leftarrow> cache_run C ops c hs; Some (None # rs, st) }
      | Some h \<Rightarrow> do { v \<leftarrow> cache_Value C c h; (rs, st) \<leftarrow> cache_run C ops c (hs @ [h]); Some (Some v # rs, st) })
   }"
| "cache_run C (Op_Release i # ops) c hs = do {
     (c, hs) \<leftarrow> (if i < length hs then do { c \<leftarrow> cache_Release C c (hs ! i); Some (c, drop_nth i hs) } else Some (c, hs));
     (rs, st) \<leftarrow> cache_run C ops c hs;
     Some (None # rs, st)
   }"
| "cache_run C (Op_Erase k # ops) c hs = do {
     c \<leftarrow> cache_Erase C c k;
     (rs, st) \<leftarrow> cache_run C ops c hs;
     Some (None # rs, st)
   }"
| "cache_run C (Op_Prune # ops) c hs = do {
     c \<leftarrow> cache_Prune C c;
     (rs, st) \<leftarrow> cache_run C ops c hs;
     Some (None # rs, st)
   }"
| "cache_run C (Op_NewId # ops) c hs = do {
     (rs, st) \<leftarrow> cache_run C ops (snd (cache_NewId C c)) hs;
     Some (None # rs, st)
   }"

text \<open>The specification: a map from keys to the values last inserted. A lookup finds nothing or the value of the map.\<close>

fun answers :: "'v cache_op list \<Rightarrow> (Slice \<Rightarrow> 'v option) \<Rightarrow> 'v option list \<Rightarrow> bool" where
  "answers [] m rs \<longleftrightarrow> rs = []"
| "answers (Op_Insert k v n # ops) m rs \<longleftrightarrow> rs \<noteq> [] \<and> hd rs = None \<and> answers ops (m(k \<mapsto> v)) (tl rs)"
| "answers (Op_Erase k # ops) m rs \<longleftrightarrow> rs \<noteq> [] \<and> hd rs = None \<and> answers ops (m(k := None)) (tl rs)"
| "answers (Op_Lookup k # ops) m rs \<longleftrightarrow> rs \<noteq> [] \<and> (hd rs = None \<or> hd rs = m k) \<and> answers ops m (tl rs)"
| "answers (_ # ops) m rs \<longleftrightarrow> rs \<noteq> [] \<and> hd rs = None \<and> answers ops m (tl rs)"

fun inserted :: "'v cache_op list \<Rightarrow> (Slice \<times> 'v option) list" where
  "inserted [] = []"
| "inserted (Op_Insert k v n # ops) = (k, Some v) # inserted ops"
| "inserted (_ # ops) = inserted ops"

lemma mset_drop_nth: "i < length xs \<Longrightarrow> mset (drop_nth i xs) = mset xs - {#xs ! i#}"
proof -
  assume i: "i < length xs"
  have "mset xs = mset (take i xs @ xs ! i # drop (Suc i) xs)" using id_take_nth_drop [OF i] by simp
  then show ?thesis by (simp add: drop_nth_def)
qed

lemma lru_run:
  assumes "valid_lru (\<lambda>_ _. True) sc" "mset hs = lru_refs sc" "lru_within m sc"
    "size (lru_owed sc) + length ops \<le> max_entries" "length hs + length ops \<le> max_entries"
  shows "\<exists>rs sc' hs'. cache_run ShardedLRUCache_ops ops sc hs = Some (rs, sc', hs') \<and> valid_lru (\<lambda>_ _. True) sc' \<and>
    mset hs' = lru_refs sc' \<and> answers ops m rs \<and> lru_owed sc' = mset (inserted ops) + lru_owed sc"
  using assms
proof (induction ops arbitrary: sc hs m)
  case Nil
  then show ?case by simp
next
  case (Cons op ops)
  note ops = ShardedLRUCache_ops_def
  have "size (lru_refs sc) = length hs" using Cons.prems(2) by (metis size_mset)
  then have few: "size (lru_owed sc) < max_entries" "size (lru_refs sc) < max_refs"
    using Cons.prems(4,5) by (simp_all add: max_entries_def max_refs_def)
  show ?case
  proof (cases op)
    case (Op_Insert k v n)
    obtain h sc1 where 1: "Sharded_Insert sc k v n = Some (h, sc1)" "valid_lru (\<lambda>_ _. True) sc1" "lru_owed sc1 = add_mset (k, Some v) (lru_owed sc)"
      "lru_within (m(k \<mapsto> v)) sc1" "lru_refs sc1 = add_mset h (lru_refs sc)"
      using Sharded_Insert_ok [OF Cons.prems(1) TrueI lru_space(2) [OF Cons.prems(1) few(1)], where v = v and n = n] Cons.prems(3) by blast
    have m: "mset (hs @ [h]) = lru_refs sc1" using 1(5) Cons.prems(2) by simp
    have b: "size (lru_owed sc1) + length ops \<le> max_entries" "length (hs @ [h]) + length ops \<le> max_entries"
      using 1(3) Cons.prems(4,5) by (simp_all add: drop_nth_def)
    from Cons.IH [OF 1(2) m 1(4) b] obtain rs sc' hs' where 2: "cache_run ShardedLRUCache_ops ops sc1 (hs @ [h]) = Some (rs, sc', hs')"
      "valid_lru (\<lambda>_ _. True) sc'" "mset hs' = lru_refs sc'" "answers ops (m(k \<mapsto> v)) rs" "lru_owed sc' = mset (inserted ops) + lru_owed sc1"
      by blast
    show ?thesis using 1(1,3) 2 Op_Insert
      by (intro exI [of _ "None # rs"] exI [of _ sc'] exI [of _ hs']) (simp add: ops)
  next
    case (Op_Lookup k)
    obtain found sc1 where 1: "Sharded_Lookup sc k = Some (found, sc1)" "valid_lru (\<lambda>_ _. True) sc1" "lru_owed sc1 = lru_owed sc"
      "lru_within m sc1" and f: "case found of None \<Rightarrow> lru_refs sc1 = lru_refs sc
     | Some h \<Rightarrow> lru_refs sc1 = add_mset h (lru_refs sc) \<and>
         (\<exists>v. Sharded_Value sc1 h = Some v \<and> True \<and> (\<forall>m. lru_within m sc \<longrightarrow> m k = Some v))"
      using Sharded_Lookup_ok [OF Cons.prems(1) few(2), of k] Cons.prems(3) by blast
    show ?thesis
    proof (cases found)
      case None
      have m: "mset hs = lru_refs sc1" using f None Cons.prems(2) by simp
      have b: "size (lru_owed sc1) + length ops \<le> max_entries" "length hs + length ops \<le> max_entries"
        using 1(3) Cons.prems(4,5) by (simp_all add: drop_nth_def)
      from Cons.IH [OF 1(2) m 1(4) b] obtain rs sc' hs' where 2: "cache_run ShardedLRUCache_ops ops sc1 hs = Some (rs, sc', hs')"
        "valid_lru (\<lambda>_ _. True) sc'" "mset hs' = lru_refs sc'" "answers ops m rs" "lru_owed sc' = mset (inserted ops) + lru_owed sc1" by blast
      show ?thesis using 1(1,3) 2 Op_Lookup None
        by (intro exI [of _ "None # rs"] exI [of _ sc'] exI [of _ hs']) (simp add: ops)
    next
      case (Some h)
      then obtain v where v: "Sharded_Value sc1 h = Some v" "m k = Some v" and refs: "lru_refs sc1 = add_mset h (lru_refs sc)"
        using f Cons.prems(3) by auto
      have m: "mset (hs @ [h]) = lru_refs sc1" using refs Cons.prems(2) by simp
      have b: "size (lru_owed sc1) + length ops \<le> max_entries" "length (hs @ [h]) + length ops \<le> max_entries"
        using 1(3) Cons.prems(4,5) by (simp_all add: drop_nth_def)
      from Cons.IH [OF 1(2) m 1(4) b] obtain rs sc' hs' where 2: "cache_run ShardedLRUCache_ops ops sc1 (hs @ [h]) = Some (rs, sc', hs')"
        "valid_lru (\<lambda>_ _. True) sc'" "mset hs' = lru_refs sc'" "answers ops m rs" "lru_owed sc' = mset (inserted ops) + lru_owed sc1" by blast
      show ?thesis using 1(1,3) 2 Op_Lookup Some v
        by (intro exI [of _ "Some v # rs"] exI [of _ sc'] exI [of _ hs']) (simp add: ops)
    qed
  next
    case (Op_Release i)
    show ?thesis
    proof (cases "i < length hs")
      case True
      then have "hs ! i \<in># lru_refs sc" unfolding Cons.prems(2) [symmetric] by simp
      then obtain sc1 where 1: "Sharded_Release sc (hs ! i) = Some sc1" "valid_lru (\<lambda>_ _. True) sc1" "lru_owed sc1 = lru_owed sc"
        "lru_within m sc1" "lru_refs sc1 = lru_refs sc - {#hs ! i#}"
        using Sharded_Release_ok [OF Cons.prems(1)] Cons.prems(3) by blast
      have m: "mset (drop_nth i hs) = lru_refs sc1" using mset_drop_nth [OF True] 1(5) Cons.prems(2) by simp
      have b: "size (lru_owed sc1) + length ops \<le> max_entries" "length (drop_nth i hs) + length ops \<le> max_entries"
        using 1(3) Cons.prems(4,5) by (simp_all add: drop_nth_def)
      from Cons.IH [OF 1(2) m 1(4) b] obtain rs sc' hs' where 2: "cache_run ShardedLRUCache_ops ops sc1 (drop_nth i hs) = Some (rs, sc', hs')"
        "valid_lru (\<lambda>_ _. True) sc'" "mset hs' = lru_refs sc'" "answers ops m rs" "lru_owed sc' = mset (inserted ops) + lru_owed sc1" by blast
      show ?thesis using 1(1,3) 2 Op_Release True
        by (intro exI [of _ "None # rs"] exI [of _ sc'] exI [of _ hs']) (simp add: ops)
    next
      case False
      from Cons.IH [OF Cons.prems(1-3)] Cons.prems(4,5) obtain rs sc' hs' where 2: "cache_run ShardedLRUCache_ops ops sc hs = Some (rs, sc', hs')"
        "valid_lru (\<lambda>_ _. True) sc'" "mset hs' = lru_refs sc'" "answers ops m rs" "lru_owed sc' = mset (inserted ops) + lru_owed sc" by auto
      show ?thesis using 2 Op_Release False
        by (intro exI [of _ "None # rs"] exI [of _ sc'] exI [of _ hs']) simp
    qed
  next
    case (Op_Erase k)
    obtain sc1 where 1: "Sharded_Erase sc k = Some sc1" "valid_lru (\<lambda>_ _. True) sc1" "lru_owed sc1 = lru_owed sc"
      "lru_within (m(k := None)) sc1" "lru_refs sc1 = lru_refs sc"
      using Sharded_Erase_ok [OF Cons.prems(1), of k] Cons.prems(3) by blast
    have m: "mset hs = lru_refs sc1" using 1(5) Cons.prems(2) by simp
    have b: "size (lru_owed sc1) + length ops \<le> max_entries" "length hs + length ops \<le> max_entries"
      using 1(3) Cons.prems(4,5) by (simp_all add: drop_nth_def)
    from Cons.IH [OF 1(2) m 1(4) b] obtain rs sc' hs' where 2: "cache_run ShardedLRUCache_ops ops sc1 hs = Some (rs, sc', hs')"
      "valid_lru (\<lambda>_ _. True) sc'" "mset hs' = lru_refs sc'" "answers ops (m(k := None)) rs" "lru_owed sc' = mset (inserted ops) + lru_owed sc1"
      by blast
    show ?thesis using 1(1,3) 2 Op_Erase
      by (intro exI [of _ "None # rs"] exI [of _ sc'] exI [of _ hs']) (simp add: ops)
  next
    case Op_Prune
    obtain sc1 where 1: "Sharded_Prune sc = Some sc1" "valid_lru (\<lambda>_ _. True) sc1" "lru_owed sc1 = lru_owed sc"
      "lru_within m sc1" "lru_refs sc1 = lru_refs sc" using Sharded_Prune_ok [OF Cons.prems(1)] Cons.prems(3) by blast
    have m: "mset hs = lru_refs sc1" using 1(5) Cons.prems(2) by simp
    have b: "size (lru_owed sc1) + length ops \<le> max_entries" "length hs + length ops \<le> max_entries"
      using 1(3) Cons.prems(4,5) by (simp_all add: drop_nth_def)
    from Cons.IH [OF 1(2) m 1(4) b] obtain rs sc' hs' where 2: "cache_run ShardedLRUCache_ops ops sc1 hs = Some (rs, sc', hs')"
      "valid_lru (\<lambda>_ _. True) sc'" "mset hs' = lru_refs sc'" "answers ops m rs" "lru_owed sc' = mset (inserted ops) + lru_owed sc1" by blast
    show ?thesis using 1(1,3) 2 Op_Prune
      by (intro exI [of _ "None # rs"] exI [of _ sc'] exI [of _ hs']) (simp add: ops)
  next
    case Op_NewId
    let ?sc = "snd (NewId sc)"
    have "valid_lru (\<lambda>_ _. True) ?sc" "mset hs = lru_refs ?sc" "lru_within m ?sc" "lru_owed ?sc = lru_owed sc"
      using Cons.prems by (simp_all add: lru_within_def lru_owed_def lru_refs_def valid_lru_def NewId_def Let_def)
    then obtain rs sc' hs' where 2: "cache_run ShardedLRUCache_ops ops ?sc hs = Some (rs, sc', hs')"
      "valid_lru (\<lambda>_ _. True) sc'" "mset hs' = lru_refs sc'" "answers ops m rs" "lru_owed sc' = mset (inserted ops) + lru_owed sc"
      using Cons.IH [of ?sc hs m] Cons.prems(4,5) by auto
    show ?thesis using 2 Op_NewId
      by (intro exI [of _ "None # rs"] exI [of _ sc'] exI [of _ hs']) (simp add: ops)
  qed
qed

text \<open>Destroying a cache without handles.\<close>

lemma delete_shards_ok:
  fixes cs :: "'v LRUCache list"
  assumes "\<forall>i < length cs. (\<exists>Q. shard_state hf Q (cs ! i)) \<and> shard_refs (cs ! i) = {#}"
  shows "\<exists>cs' :: 'v LRUCache list. delete_shards cs = Some cs' \<and> mset (concat (map lc_deleted cs')) = (\<Sum>i < length cs. owed (cs ! i)) \<and>
    (\<forall>c \<in> set cs'. dom (lc_heap c) = heads)"
  using assms
proof (induction cs)
  case (Cons c cs)
  obtain Q where "shard_state hf Q c" "shard_refs c = {#}" using Cons.prems by force
  then obtain c' :: "'v LRUCache" where c': "delete_LRUCache c = Some c'" "dom (lc_heap c') = heads" "mset (lc_deleted c') = owed c"
    using delete_LRUCache_ok by blast
  have "\<forall>i < length cs. (\<exists>Q. shard_state hf Q (cs ! i)) \<and> shard_refs (cs ! i) = {#}" using Cons.prems by force
  then obtain cs' :: "'v LRUCache list" where cs': "delete_shards cs = Some cs'" "mset (concat (map lc_deleted cs')) = (\<Sum>i < length cs. owed (cs ! i))"
    "\<forall>c \<in> set cs'. dom (lc_heap c) = heads" using Cons.IH by blast
  have "(\<Sum>i < length (c # cs). owed ((c # cs) ! i)) = owed c + (\<Sum>i < length cs. owed (cs ! i))"
    unfolding length_Cons sum.lessThan_Suc_shift by simp
  moreover have "delete_shards (c # cs) = Some (c' # cs')" using c'(1) cs'(1) by simp
  moreover have "mset (concat (map lc_deleted (c' # cs'))) = owed c + (\<Sum>i < length cs. owed (cs ! i))" using c'(3) cs'(2) by simp
  ultimately show ?case using c'(2) cs'(3) by (intro exI [of _ "c' # cs'"]) (simp only: list.set, simp)
qed simp

lemma lru_refs_empty: "lru_refs sc = {#} \<Longrightarrow> i < length (sc_shards sc) \<Longrightarrow> shard_refs (sc_shards sc ! i) = {#}"
proof (rule ccontr)
  assume a: "lru_refs sc = {#}" "i < length (sc_shards sc)" "shard_refs (sc_shards sc ! i) \<noteq> {#}"
  then obtain e where "e \<in># shard_refs (sc_shards sc ! i)" by blast
  then have "(i, e) \<in># lru_refs sc" using a(2) by (auto simp: lru_refs_def set_mset_sum)
  then show False using a(1) by simp
qed

lemma release_all:
  assumes "valid_lru Q sc" "mset hs = lru_refs sc"
  shows "\<exists>rs sc'. cache_run ShardedLRUCache_ops (replicate (length hs) (Op_Release 0)) sc hs = Some (rs, sc', []) \<and>
    valid_lru Q sc' \<and> lru_refs sc' = {#} \<and> lru_owed sc' = lru_owed sc"
  using assms
proof (induction hs arbitrary: sc)
  case (Cons h hs)
  have "h \<in># lru_refs sc" unfolding Cons.prems(2) [symmetric] by simp
  then obtain sc1 where 1: "Sharded_Release sc h = Some sc1" "valid_lru Q sc1" "lru_owed sc1 = lru_owed sc" "lru_refs sc1 = lru_refs sc - {#h#}"
    using Sharded_Release_ok [OF Cons.prems(1)] by blast
  have "mset hs = lru_refs sc1" using 1(4) unfolding Cons.prems(2) [symmetric] by simp
  then obtain rs sc' where "cache_run ShardedLRUCache_ops (replicate (length hs) (Op_Release 0)) sc1 hs = Some (rs, sc', [])"
    "valid_lru Q sc'" "lru_refs sc' = {#}" "lru_owed sc' = lru_owed sc1" using Cons.IH [OF 1(2)] by blast
  with 1(1,3) show ?case
    by (intro exI [of _ "None # rs"] exI [of _ sc']) (simp add: ShardedLRUCache_ops_def drop_nth_def)
qed simp

subsection \<open>The properties\<close>

text \<open>C4: Any sequence of up to \<open>2 ^ 31\<close> operations on a new LRU cache returns - no handle dangles, no assertion fails, no chain or list is
  broken, no 32-bit counter wraps - and the cache is a map that may forget: a lookup finds nothing or the value last inserted under its key and
  not erased since. This holds for every capacity, every charge and every order of insertions, lookups, releases, erasures and prunings.\<close>

theorem lru_cache_is_a_map:
  fixes ops :: "'v cache_op list"
  assumes "length ops \<le> 2 ^ 31"
  shows "\<exists>sc rs sc' hs. NewLRUCache capacity = Some sc \<and> cache_run ShardedLRUCache_ops ops sc [] = Some (rs, sc', hs) \<and> answers ops Map.empty rs"
proof -
  obtain sc :: "'v ShardedLRUCache" where sc: "NewLRUCache capacity = Some sc" "valid_lru (\<lambda>_ _. True) sc" "lru_refs sc = {#}"
    "lru_within Map.empty sc" "lru_owed sc = {#}"
    using NewLRUCache_ok [of capacity Map.empty] by blast
  then show ?thesis using lru_run [OF sc(2), of "[]" Map.empty ops] assms by (auto simp: max_entries_def)
qed

lemma lru_cache_is_a_map_witness:
  "\<exists>sc rs sc' hs. NewLRUCache 100 = Some sc \<and>
     cache_run ShardedLRUCache_ops [Op_Insert [1] (5 :: nat) 1, Op_Lookup [1], Op_Release 0, Op_Erase [1], Op_Lookup [1]] sc [] = Some (rs, sc', hs) \<and>
     answers [Op_Insert [1] 5 1, Op_Lookup [1], Op_Release 0, Op_Erase [1], Op_Lookup [1]] Map.empty rs"
  by (rule lru_cache_is_a_map) simp

text \<open>C5: An insertion into a shard keeps the policy of the cache: an older entry of the key leaves it, the new one is in use and is what a
  lookup finds, and of the entries that are not in use exactly the shortest prefix of the list is evicted - those released longest
  ago - such that the charges fit, or all of them.\<close>

theorem lru_insert_evicts_oldest:
  assumes "shard_ok hf Q c lru use R" "Q k v" "lc_capacity c \<noteq> 0" "length lru + length use < 2 ^ 31"
  shows "\<exists>e c' n rest. LRUCache_Insert c k (hf k) v ch = Some (e, c') \<and> rest = filter (\<lambda>a. key_at (lc_heap c) a \<noteq> k) lru \<and>
    shard_ok hf Q c' (drop n rest) (filter (\<lambda>a. key_at (lc_heap c) a \<noteq> k) use @ [e]) (add_mset e R) \<and>
    key_at (lc_heap c') e = k \<and> val_at (lc_heap c') e = Some v \<and> map_option fst (LRUCache_Lookup c' k (hf k)) = Some e \<and>
    (lc_usage c' \<le> lc_capacity c \<or> drop n rest = []) \<and>
    (\<forall>m < n. lc_capacity c < (\<Sum>a \<in> set (drop m rest) \<union> set (filter (\<lambda>a. key_at (lc_heap c) a \<noteq> k) use @ [e]). if a = e then ch else charge_at (lc_heap c) a))"
proof -
  have "card (insert k (key_at (lc_heap c) ` (set lru \<union> set use))) \<le> Suc (card (key_at (lc_heap c) ` (set lru \<union> set use)))"
    by (simp add: card_insert_if)
  also have "card (key_at (lc_heap c) ` (set lru \<union> set use)) \<le> card (set lru \<union> set use)" by (rule card_image_le) simp
  also have "\<dots> \<le> length lru + length use" by (rule order_trans [OF card_Un_le]) (rule add_mono [OF card_length card_length])
  finally have space: "card (insert k (key_at (lc_heap c) ` (set lru \<union> set use))) \<le> max_entries"
    using assms(4) unfolding max_entries_def by linarith
  obtain e c' old n where i: "LRUCache_Insert c k (hf k) v ch = Some (e, c')" "inserts c e k v ch c'" "e \<noteq> 0"
    "finds (lc_heap c) (set lru \<union> set use) k old"
    "shard_ok hf Q c' (drop n (remove1 old lru)) (remove1 old use @ [e]) (add_mset e R)"
    "lc_usage c' \<le> lc_capacity c \<or> drop n (remove1 old lru) = []"
    "\<forall>m < n. lc_capacity c < (\<Sum>a \<in> set (drop m (remove1 old lru)) \<union> set (remove1 old use @ [e]). if a = e then ch else charge_at (lc_heap c) a)"
    using LRUCache_Insert_ok [OF assms(1,2) space, of ch] assms(3) by auto
  note r = rings_facts [OF shard_facts(1) [OF assms(1)]]
  have unique: "key_at (lc_heap c) a = k \<longleftrightarrow> a = old" if "a \<in> set lru \<union> set use" for a
  proof -
    have "a \<in> dom (lc_heap c)" using rings_member [OF shard_facts(1) [OF assms(1)] that] by simp
    then have "a \<noteq> 0" using r(7) by metis
    show ?thesis
    proof (cases "old = 0")
      case True
      then have "key_at (lc_heap c) a \<noteq> k" using i(4) that by (simp add: finds_def)
      with True \<open>a \<noteq> 0\<close> show ?thesis by simp
    next
      case False
      then have old: "old \<in> set lru \<union> set use" "key_at (lc_heap c) old = k" using i(4) by (simp_all add: finds_def)
      then show ?thesis using key_unique [OF assms(1) that old(1)] by auto
    qed
  qed
  have rem: "remove1 old xs = filter (\<lambda>a. key_at (lc_heap c) a \<noteq> k) xs" if "distinct xs" "set xs \<subseteq> set lru \<union> set use" for xs
  proof -
    have "filter (\<lambda>a. key_at (lc_heap c) a \<noteq> k) xs = filter ((\<noteq>) old) xs"
    proof (rule filter_cong [OF refl])
      fix a assume "a \<in> set xs"
      then have "a \<in> set lru \<union> set use" using that(2) by blast
      from unique [OF this] show "key_at (lc_heap c) a \<noteq> k \<longleftrightarrow> old \<noteq> a" by blast
    qed
    then show ?thesis using that(1) by (simp add: distinct_remove1_removeAll removeAll_filter_not_eq)
  qed
  note f' = shard_facts [OF i(5)]
  have ein: "e \<in> set (drop n (remove1 old lru)) \<union> set (remove1 old use @ [e])" by simp
  have ed: "e \<in> dom (lc_heap c')" using rings_member [OF f'(1) ein] by blast
  then have new: "key_at (lc_heap c') e = k" "val_at (lc_heap c') e = Some v" using i(2) by (simp_all add: inserts_def)
  have st: "shard_ok hf Q c' (drop n (remove1 old lru)) (remove1 old use @ [e]) (add_mset e R)" by (rule i(5))
  obtain e' where e': "HandleTable_Lookup (lc_heap c') (lc_table c') k (hf k) = Some e'"
    "finds (lc_heap c') (set (drop n (remove1 old lru)) \<union> set (remove1 old use @ [e])) k e'"
    using HandleTable_Lookup_ok [OF f'(2)] by blast
  have "e' \<noteq> 0"
  proof
    assume "e' = 0"
    then have "\<forall>a \<in> set (drop n (remove1 old lru)) \<union> set (remove1 old use @ [e]). key_at (lc_heap c') a \<noteq> k"
      using e'(2) by (simp add: finds_def)
    with ein new(1) show False by blast
  qed
  then have e'in: "e' \<in> set (drop n (remove1 old lru)) \<union> set (remove1 old use @ [e])" and e'key: "key_at (lc_heap c') e' = k"
    using e'(2) by (simp_all add: finds_def)
  have "e' = e" by (rule key_unique [OF st e'in ein]) (simp add: e'key new(1))
  moreover have "count R e = 0"
  proof -
    have "e \<notin> dom (lc_heap c)" using i(2) by (simp add: inserts_def)
    then have "e \<notin># R" using shard_facts(4) [OF assms(1)] by blast
    then show ?thesis by (simp add: not_in_iff)
  qed
  then obtain c'' where "Ref c' e = Some c''" using Ref_ok [OF st ein] by (auto simp: max_refs_def)
  ultimately have "map_option fst (LRUCache_Lookup c' k (hf k)) = Some e" using e'(1) i(3) by (simp add: LRUCache_Lookup_def)
  then show ?thesis
    using i(1,5-7) new rem [of lru] rem [of use] r(2,3) by (intro exI [of _ e] exI [of _ c'] exI [of _ n]) simp
qed

lemma lru_insert_evicts_oldest_witness:
  "\<exists>c e c'. map_option (\<lambda>c. SetCapacity c 10) (mk_LRUCache :: nat LRUCache option) = Some c \<and>
     LRUCache_Insert c [1] (hash_of [1]) 5 20 = Some (e, c') \<and> map_option fst (LRUCache_Lookup c' [1] (hash_of [1])) = Some e"
proof -
  obtain c :: "nat LRUCache" where c: "mk_LRUCache = Some c" "shard_ok hash_of (\<lambda>_ _. True) c [] [] {#}"
    using mk_LRUCache_ok [of hash_of "\<lambda>_ _. True"] by blast
  have "shard_ok hash_of (\<lambda>_ _. True) (SetCapacity c 10) [] [] {#}" using c(2) by (simp add: shard_inv_def SetCapacity_def)
  moreover have "lc_capacity (SetCapacity c 10) \<noteq> 0" by (simp add: SetCapacity_def)
  ultimately show ?thesis using lru_insert_evicts_oldest
      [where hf = hash_of and Q = "\<lambda>_ _. True" and c = "SetCapacity c 10" and lru = "[]" and use = "[]" and R = "{#}" and k = "[1]" and v = 5 and ch = 20]
    unfolding c(1) option.map(2) by fastforce
qed

text \<open>C6: Nothing is leaked and nothing is deleted twice: after any run of up to \<open>2 ^ 31\<close> operations, when the client has released its handles and the cache is
  destroyed, the deleters have been called exactly once for every insertion, and no entry is left in memory.\<close>

theorem lru_cache_deletes_once:
  fixes ops :: "'v cache_op list"
  assumes "length ops \<le> 2 ^ 31"
  shows "\<exists>sc rs sc1 hs rs2 sc2 cs. NewLRUCache capacity = Some sc \<and> cache_run ShardedLRUCache_ops ops sc [] = Some (rs, sc1, hs) \<and>
     cache_run ShardedLRUCache_ops (replicate (length hs) (Op_Release 0)) sc1 hs = Some (rs2, sc2, []) \<and>
     delete_shards (sc_shards sc2) = Some cs \<and> mset (concat (map lc_deleted cs)) = mset (inserted ops) \<and>
     (\<Union>c \<in> set cs. dom (lc_heap c)) \<subseteq> {lru_head, in_use_head}"
proof -
  obtain sc :: "'v ShardedLRUCache" where sc: "NewLRUCache capacity = Some sc" "valid_lru (\<lambda>_ _. True) sc" "lru_refs sc = {#}" "lru_owed sc = {#}" "lru_within Map.empty sc"
    using NewLRUCache_ok [of capacity Map.empty] by blast
  obtain rs sc1 hs where 1: "cache_run ShardedLRUCache_ops ops sc [] = Some (rs, sc1, hs)" "valid_lru (\<lambda>_ _. True) sc1" "mset hs = lru_refs sc1"
    "lru_owed sc1 = mset (inserted ops)"
    using lru_run [OF sc(2), of "[]" Map.empty ops] sc(3-5) assms by (auto simp: max_entries_def)
  obtain rs2 sc2 where 2: "cache_run ShardedLRUCache_ops (replicate (length hs) (Op_Release 0)) sc1 hs = Some (rs2, sc2, [])"
    "valid_lru (\<lambda>_ _. True) sc2" "lru_refs sc2 = {#}" "lru_owed sc2 = lru_owed sc1" using release_all [OF 1(2,3)] by blast
  have "\<forall>i < length (sc_shards sc2). (\<exists>Q. shard_state hash_of Q (sc_shards sc2 ! i)) \<and> shard_refs (sc_shards sc2 ! i) = {#}"
    using 2(2) lru_refs_empty [OF 2(3)] by (auto simp: valid_lru_def)
  from delete_shards_ok [OF this] obtain cs where 3: "delete_shards (sc_shards sc2) = Some cs"
    "mset (concat (map lc_deleted cs)) = (\<Sum>i < length (sc_shards sc2). owed (sc_shards sc2 ! i))" "\<forall>c \<in> set cs. dom (lc_heap c) = heads" by blast
  have "mset (concat (map lc_deleted cs)) = mset (inserted ops)" using 3(2) 2(4) 1(4) by (simp add: lru_owed_def)
  moreover have "(\<Union>c \<in> set cs. dom (lc_heap c)) \<subseteq> heads" using 3(3) by auto
  ultimately show ?thesis using sc(1) 1(1) 2(1) 3(1) by blast
qed

lemma lru_cache_deletes_once_witness:
  "\<exists>sc rs sc1 hs rs2 sc2 cs. NewLRUCache 100 = Some sc \<and>
     cache_run ShardedLRUCache_ops [Op_Insert [1] (5 :: nat) 1, Op_Insert [1] 6 1, Op_Lookup [1]] sc [] = Some (rs, sc1, hs) \<and>
     cache_run ShardedLRUCache_ops (replicate (length hs) (Op_Release 0)) sc1 hs = Some (rs2, sc2, []) \<and>
     delete_shards (sc_shards sc2) = Some cs \<and>
     mset (concat (map lc_deleted cs)) = mset (inserted [Op_Insert [1] (5 :: nat) 1, Op_Insert [1] 6 1, Op_Lookup [1]]) \<and>
     (\<Union>c \<in> set cs. dom (lc_heap c)) \<subseteq> {lru_head, in_use_head}"
  by (rule lru_cache_deletes_once) simp

end
