(* ===== verification/Table_Get_Theorems.thy ===== *)
theory Table_Get_Theorems imports Table_Get Block_Theorems Lru_Theorems begin

section \<open>leveldb: the properties of tables\<close>

text \<open>
  The two ends of a table together: \<open>build_table\<close> writes the entries to a file, \<open>Table::Open\<close> opens the file, and then
  iterating gives the entries and lookups find them. \<open>block_cache\<close> is the contract of the block cache; without
  one (\<open>None\<close>) nothing is assumed of it.
\<close>

text \<open>A fresh cache may be used by any table, and leaves room for the two handles a table holds at most.\<close>

definition fresh_cache :: "('c, 'h, Block) Cache option \<Rightarrow> ((Slice \<Rightarrow> Block \<Rightarrow> bool) \<Rightarrow> 'c \<Rightarrow> bool) \<Rightarrow>
    ('c \<Rightarrow> 'h multiset) \<Rightarrow> nat \<Rightarrow> 'c \<Rightarrow> bool" where
  "fresh_cache bc valid_cache refs limit c \<longleftrightarrow> bc = None \<or> ((\<forall>Q. valid_cache Q c) \<and> size (refs c) + 1 < limit)"

text \<open>Lookups one after the other.\<close>

fun table_lookups ::
  "('c, 'h, Block) Cache option \<Rightarrow> Table \<Rightarrow> ReadOptions \<Rightarrow> 'c \<Rightarrow> Slice list \<Rightarrow> ((Status \<times> kv option) list \<times> 'c) option" where
  "table_lookups bc table ro c [] = Some ([], c)"
| "table_lookups bc table ro c (k # ks) = do {
     (s, found, c) \<leftarrow> InternalGet bc table ro c k;
     (rs, c) \<leftarrow> table_lookups bc table ro c ks;
     Some ((s, found) # rs, c)
   }"

context table_options
begin

lemma lookups_ok:
  fixes bc :: "('c, 'h, Block) Cache option"
  assumes "table_layout opt key_ok stored bs seps" "ordered_entries (opt_comparator opt) key_ok (entries_of bs)"
    "random_access_file rf stored" "table_open opt key_ok rf bs seps table" "cache_laws bc valid_cache refs limit"
    "block_env bc valid_cache table (block_handles bs) c" "\<forall>k \<in> set ks. key_ok k"
    "size (block_refs bc refs c) + 1 < block_room bc limit"
  shows "\<exists>rs c'. table_lookups bc table ro c ks = Some (rs, c') \<and>
    list_all2 (\<lambda>k (s, found). s = StatusOK \<and> get_answer (opt_comparator opt) (entries_of bs) k found) ks rs"
  using assms(6-8)
proof (induction ks arbitrary: c)
  case (Cons k ks)
  then obtain found c1 where get: "InternalGet bc table ro c k = Some (StatusOK, found, c1)"
    "get_answer (opt_comparator opt) (entries_of bs) k found" "block_env bc valid_cache table (block_handles bs) c1"
    "block_refs bc refs c1 = block_refs bc refs c"
    using InternalGet_ok [OF assms(1-5) Cons.prems(1) _ Cons.prems(3)] Cons.prems(2) by fastforce
  obtain rs c2 where "table_lookups bc table ro c1 ks = Some (rs, c2)"
    "list_all2 (\<lambda>k (s, found). s = StatusOK \<and> get_answer (opt_comparator opt) (entries_of bs) k found) ks rs"
    using Cons.IH [OF get(3)] Cons.prems(2,3) get(4) by auto
  with get show ?case by simp
qed simp

end

context table_file
begin

lemma open_built_table:
  fixes bc :: "('c, 'h, Block) Cache option"
  assumes "contents f = []" "sorted_wrt (key_less (opt_comparator opt)) kvs" "\<forall>e \<in> set kvs. key_ok (fst e)"
    "table_bound opt per_key kvs < 2 ^ 32" "cache_laws bc valid_cache refs limit" "fresh_cache bc valid_cache refs limit c"
  obtains f' bs seps where "build_table ops opt f kvs = Some (StatusOK, f')" "table_layout opt key_ok (contents f') bs seps"
    "entries_of bs = kvs" "ordered_entries (opt_comparator opt) key_ok kvs"
    "\<And>rf. random_access_file rf (contents f') \<Longrightarrow> \<exists>table c1.
      Table_Open bc opt rf (of_nat (length (contents f'))) c = Some (StatusOK, Some table, c1) \<and>
      table_open opt key_ok rf bs seps table \<and> block_env bc valid_cache table (block_handles bs) c1 \<and>
      size (block_refs bc refs c1) + 1 < block_room bc limit"
proof -
  obtain f' bs seps where built: "build_table ops opt f kvs = Some (StatusOK, f')" "table_layout opt key_ok (contents f') bs seps"
    "entries_of bs = kvs"
    using build_table_layout [OF assms(1-4)] by blast
  have "ordered_entries (opt_comparator opt) key_ok kvs"
    using assms(2,3) by (simp add: ordered_entries_def)
  moreover have "\<exists>table c1. Table_Open bc opt rf (of_nat (length (contents f'))) c = Some (StatusOK, Some table, c1) \<and>
      table_open opt key_ok rf bs seps table \<and> block_env bc valid_cache table (block_handles bs) c1 \<and>
      size (block_refs bc refs c1) + 1 < block_room bc limit"
    if rf: "random_access_file rf (contents f')" for rf
  proof -
    obtain table where table: "Table_Open bc opt rf (of_nat (length (contents f'))) c =
        Some (StatusOK, Some table, case bc of None \<Rightarrow> c | Some cache \<Rightarrow> snd (cache_NewId cache c))"
      "table_open opt key_ok rf bs seps table"
      using Table_Open_ok [OF built(2) rf, of bc c] by blast
    let ?c = "case bc of None \<Rightarrow> c | Some cache \<Rightarrow> snd (cache_NewId cache c)"
    have "block_env bc valid_cache table (block_handles bs) ?c \<and> size (block_refs bc refs ?c) + 1 < block_room bc limit"
      using assms(5,6) block_cache.new_id
      by (cases bc) (fastforce simp: block_env_def block_refs_def block_room_def cache_laws_def fresh_cache_def)+
    with table show ?thesis by blast
  qed
  ultimately show thesis using that built by blast
qed

end

text \<open>C2: A table that was built from sorted entries opens, and its iterator gives exactly these entries: forwards from
  \<open>SeekToFirst\<close> with \<open>Next\<close>, backwards from \<open>SeekToLast\<close> with \<open>Prev\<close>, and after each scan it is not valid. This holds
  with every comparator and filter policy that keep their contracts, for every restart interval and block size, on every file that
  keeps what is written, and with any block cache that keeps its contract, or none.\<close>

theorem table_iterates:
  fixes bc :: "('c, 'h, Block) Cache option"
  assumes "table_file opt key_ok per_key ops contents" "contents f = []"
    "sorted_wrt (key_less (opt_comparator opt)) kvs" "\<forall>e \<in> set kvs. key_ok (fst e)" "kvs \<noteq> []"
    "table_bound opt per_key kvs < 2 ^ 32" "cache_laws bc valid_cache refs limit" "fresh_cache bc valid_cache refs limit c"
  shows "\<exists>f'. build_table ops opt f kvs = Some (StatusOK, f') \<and>
    (\<forall>rf. random_access_file rf (contents f') \<longrightarrow> (\<exists>table c1 t t1 t2 t3 t4.
       Table_Open bc opt rf (of_nat (length (contents f'))) c = Some (StatusOK, Some table, c1) \<and>
       Table_NewIterator bc table ro c1 = Some t \<and>
       iter_SeekToFirst (Table_Iter bc table ro) t = Some t1 \<and>
       collect (Table_Iter bc table ro) (length kvs) t1 = Some (kvs, t2) \<and>
       iter_SeekToLast (Table_Iter bc table ro) t2 = Some t3 \<and>
       collect_back (Table_Iter bc table ro) (length kvs) t3 = Some (rev kvs, t4) \<and>
       iter_status (Table_Iter bc table ro) t4 = StatusOK))"
proof -
  note TF = assms(1) and TO = table_file.axioms(1) [OF assms(1)]
  obtain f' bs seps where built: "build_table ops opt f kvs = Some (StatusOK, f')" "table_layout opt key_ok (contents f') bs seps"
    "entries_of bs = kvs" "ordered_entries (opt_comparator opt) key_ok kvs"
    "\<And>rf. random_access_file rf (contents f') \<Longrightarrow> \<exists>table c1.
      Table_Open bc opt rf (of_nat (length (contents f'))) c = Some (StatusOK, Some table, c1) \<and>
      table_open opt key_ok rf bs seps table \<and> block_env bc valid_cache table (block_handles bs) c1 \<and>
      size (block_refs bc refs c1) + 1 < block_room bc limit"
    by (rule table_file.open_built_table [OF TF assms(2-4,6-8)]) blast
  show ?thesis
  proof (intro exI [of _ f'] conjI allI impI built(1))
    fix rf assume rf: "random_access_file rf (contents f')"
    obtain table c1 where table: "Table_Open bc opt rf (of_nat (length (contents f'))) c = Some (StatusOK, Some table, c1)"
      "table_open opt key_ok rf bs seps table" "block_env bc valid_cache table (block_handles bs) c1"
      "size (block_refs bc refs c1) + 1 < block_room bc limit"
      using built(5) [OF rf] by blast
    obtain view t where I: "ordered_iterator (opt_comparator opt) key_ok (Table_Iter bc table ro) view"
      "Table_NewIterator bc table ro c1 = Some t" "view t kvs (length kvs)"
      using table_options.Table_NewIterator_ok [OF TO built(2) _ rf table(2) assms(7) table(3,4)] built(3,4) by fastforce
    obtain t1 t2 where first: "iter_SeekToFirst (Table_Iter bc table ro) t = Some t1"
      "collect (Table_Iter bc table ro) (length kvs) t1 = Some (kvs, t2)" "view t2 kvs (length kvs)"
      using ordered_iterator.scan [OF I(1,3)] by blast
    obtain t3 t4 where "iter_SeekToLast (Table_Iter bc table ro) t2 = Some t3"
      "collect_back (Table_Iter bc table ro) (length kvs) t3 = Some (rev kvs, t4)" "view t4 kvs (length kvs)"
      using ordered_iterator.scan_back [OF I(1) first(3) assms(5)] by blast
    with table(1) I(2) first(1,2) ordered_iterator.status [OF I(1)]
    show "\<exists>table c1 t t1 t2 t3 t4.
       Table_Open bc opt rf (of_nat (length (contents f'))) c = Some (StatusOK, Some table, c1) \<and>
       Table_NewIterator bc table ro c1 = Some t \<and>
       iter_SeekToFirst (Table_Iter bc table ro) t = Some t1 \<and>
       collect (Table_Iter bc table ro) (length kvs) t1 = Some (kvs, t2) \<and>
       iter_SeekToLast (Table_Iter bc table ro) t2 = Some t3 \<and>
       collect_back (Table_Iter bc table ro) (length kvs) t3 = Some (rev kvs, t4) \<and>
       iter_status (Table_Iter bc table ro) t4 = StatusOK" by blast
  qed
qed

text \<open>C1: Any sequence of lookups in a table that was built and opened succeeds: a key that was stored is found with its
  value, and when a lookup reports an entry it is the first stored one that is not before the key. The filter block, the index,
  the data blocks and the block cache together lose no entry.\<close>

theorem table_get:
  fixes bc :: "('c, 'h, Block) Cache option"
  assumes "table_file opt key_ok per_key ops contents" "contents f = []"
    "sorted_wrt (key_less (opt_comparator opt)) kvs" "\<forall>e \<in> set kvs. key_ok (fst e)"
    "table_bound opt per_key kvs < 2 ^ 32" "cache_laws bc valid_cache refs limit" "fresh_cache bc valid_cache refs limit c"
    "\<forall>k \<in> set ks. key_ok k"
  shows "\<exists>f'. build_table ops opt f kvs = Some (StatusOK, f') \<and>
    (\<forall>rf. random_access_file rf (contents f') \<longrightarrow> (\<exists>table c1 rs c2.
       Table_Open bc opt rf (of_nat (length (contents f'))) c = Some (StatusOK, Some table, c1) \<and>
       table_lookups bc table ro c1 ks = Some (rs, c2) \<and>
       list_all2 (\<lambda>k (s, found). s = StatusOK \<and> get_answer (opt_comparator opt) kvs k found) ks rs))"
proof -
  note TF = assms(1) and TO = table_file.axioms(1) [OF assms(1)]
  obtain f' bs seps where built: "build_table ops opt f kvs = Some (StatusOK, f')" "table_layout opt key_ok (contents f') bs seps"
    "entries_of bs = kvs" "ordered_entries (opt_comparator opt) key_ok kvs"
    "\<And>rf. random_access_file rf (contents f') \<Longrightarrow> \<exists>table c1.
      Table_Open bc opt rf (of_nat (length (contents f'))) c = Some (StatusOK, Some table, c1) \<and>
      table_open opt key_ok rf bs seps table \<and> block_env bc valid_cache table (block_handles bs) c1 \<and>
      size (block_refs bc refs c1) + 1 < block_room bc limit"
    by (rule table_file.open_built_table [OF TF assms(2-7)]) blast
  show ?thesis
  proof (intro exI [of _ f'] conjI allI impI built(1))
    fix rf assume rf: "random_access_file rf (contents f')"
    obtain table c1 where table: "Table_Open bc opt rf (of_nat (length (contents f'))) c = Some (StatusOK, Some table, c1)"
      "table_open opt key_ok rf bs seps table" "block_env bc valid_cache table (block_handles bs) c1"
      "size (block_refs bc refs c1) + 1 < block_room bc limit"
      using built(5) [OF rf] by blast
    with table_options.lookups_ok [OF TO built(2) _ rf table(2) assms(6) table(3) assms(8) table(4)] built(3,4)
    show "\<exists>table c1 rs c2. Table_Open bc opt rf (of_nat (length (contents f'))) c = Some (StatusOK, Some table, c1) \<and>
       table_lookups bc table ro c1 ks = Some (rs, c2) \<and>
       list_all2 (\<lambda>k (s, found). s = StatusOK \<and> get_answer (opt_comparator opt) kvs k found) ks rs" by fastforce
  qed
qed

subsection \<open>Instances\<close>

definition table_options_example :: Options where
  "table_options_example = example_options\<lparr>opt_filter_policy := Some (bloom_policy 10)\<rparr>"

interpretation memory_table: table_file table_options_example "\<lambda>_. True" 27 memory_writable "\<lambda>f. f"
proof (intro table_file.intro table_options.intro memory_writable.writable_file_axioms table_options_axioms.intro)
  show "short_comparator (opt_comparator table_options_example) (\<lambda>_. True)"
    using short_bytewise.short_comparator_axioms by (simp add: table_options_example_def example_options_def)
  show "1 \<le> opt_block_restart_interval table_options_example" by (simp add: table_options_example_def example_options_def)
  show "sized_filter_policy p (\<lambda>_. True) 27" if "opt_filter_policy table_options_example = Some p" for p
    using that sized_bloom10.sized_filter_policy_axioms by (simp add: table_options_example_def)
qed

lemma table_example:
  "sorted_wrt (key_less (opt_comparator table_options_example)) example_entries" "table_bound table_options_example 27 example_entries < 2 ^ 32"
  using example_block(5)
  by (simp_all add: table_options_example_def table_bound_def example_entries_def kv_size_def bloom_policy_def)

lemma table_iterates_witness:
  "\<exists>f' table c1 t t1 t2 t3 t4. build_table memory_writable table_options_example [] example_entries = Some (StatusOK, f') \<and>
       Table_Open (None :: (unit, unit, Block) Cache option) table_options_example (memory_random_access f') (of_nat (length f')) () =
         Some (StatusOK, Some table, c1) \<and>
       Table_NewIterator None table mk_ReadOptions c1 = Some t \<and>
       iter_SeekToFirst (Table_Iter (None :: (unit, unit, Block) Cache option) table mk_ReadOptions) t = Some t1 \<and>
       collect (Table_Iter None table mk_ReadOptions) 3 t1 = Some (example_entries, t2) \<and>
       iter_SeekToLast (Table_Iter None table mk_ReadOptions) t2 = Some t3 \<and>
       collect_back (Table_Iter None table mk_ReadOptions) 3 t3 = Some (rev example_entries, t4)"
proof -
  have "length example_entries = 3" "example_entries \<noteq> []" by (simp_all add: example_entries_def)
  with table_iterates [where f = "[]" and c = "()" and valid_cache = "\<lambda>_ _. True" and ro = mk_ReadOptions,
      OF memory_table.table_file_axioms _ table_example(1) _ _ table_example(2) cache_laws_none]
    memory_random_access
  show ?thesis unfolding fresh_cache_def by simp blast
qed

text \<open>The lookups run with an LRU cache for the blocks.\<close>

lemma table_get_witness:
  "\<exists>f' sc table c1 rs c2. build_table memory_writable table_options_example [] example_entries = Some (StatusOK, f') \<and>
       NewLRUCache 1000 = Some sc \<and>
       Table_Open (Some ShardedLRUCache_ops) table_options_example (memory_random_access f') (of_nat (length f')) sc = Some (StatusOK, Some table, c1) \<and>
       table_lookups (Some ShardedLRUCache_ops) table mk_ReadOptions c1 [[1, 2, 4], [7], [1, 2, 4]] = Some (rs, c2) \<and>
       list_all2 (\<lambda>k (s, found). s = StatusOK \<and> get_answer BytewiseComparator example_entries k found) [[1, 2, 4], [7], [1, 2, 4]] rs"
proof -
  obtain sc :: "Block ShardedLRUCache" where sc: "NewLRUCache 1000 = Some sc" "\<forall>Q. valid_lru Q sc"
    "lru_refs sc = {#}"
    using NewLRUCache_ok by blast
  have laws: "cache_laws (Some ShardedLRUCache_ops) valid_lru lru_refs max_refs" unfolding cache_laws_def by (simp add: lru.block_cache_axioms)
  have "fresh_cache (Some ShardedLRUCache_ops) valid_lru lru_refs max_refs sc"
    using sc(2,3) by (simp add: fresh_cache_def max_refs_def)
  moreover have "opt_comparator table_options_example = BytewiseComparator" by (simp add: table_options_example_def example_options_def)
  ultimately show ?thesis
    using table_get [where f = "[]" and c = sc and ro = mk_ReadOptions and ks = "[[1, 2, 4], [7], [1, 2, 4]]",
      OF memory_table.table_file_axioms _ table_example(1) _ table_example(2) laws] memory_random_access sc(1)
    by simp blast
qed

end
