(* ===== verification/Spec2Isabelle.thy ===== *)
theory Spec2Isabelle imports Encode Decode_Message Cct_Tables Wire_Theorems Base64_Theorems Field_Iter_Theorems Message_Theorems
  Leveldb_Theorems Log_Theorems Write_Batch_Facts Filter_Block_Theorems Block_Theorems Two_Level_Facts Table
  Table_Builder Table_Layout Table_Get_Theorems begin

text \<open>
  This library models the C and C++ code that the ThermoCheck application carries in its pods:
  nanopb, the protocol buffer runtime (\<open>src/ThermoCheck/Pods/nanopb\<close>); the message tables that
  GoogleDataTransport and FirebaseCoreDiagnostics feed to it; the base64 routines of FirebaseDatabase
  (\<open>fbase64.c\<close>); and leveldb, the storage engine under FirebaseDatabase's persistence
  (\<open>src/ThermoCheck/Pods/leveldb-library\<close>). The application itself is Swift user interface code and the
  other pods are Objective-C; neither is modelled.

  \<^bold>\<open>Conventions.\<close> Machine integers are words of the C type's width on the target (64-bit, little endian,
  \<open>pb_size_t\<close> 32 bits, \<open>char\<close> signed). A function into an option type returns \<open>None\<close> for a failed
  \<open>assert\<close>, an access outside a buffer, a call through a null pointer or a loop that does not end; so a theorem that says
  \<open>= Some\<close> states at once that the code returns, that its assertions hold and that it stays inside its
  buffers. Loops whose end is not evident are \<open>partial_function (option)\<close>; the recursion over
  submessages carries a depth, and the theorems hold for every depth that is at least the nesting of the tables.
  Memory (theory Memory) is a byte-addressed map of allocated regions with the aliasing of the C structures; leveldb's
  objects are values, its files and comparators tables of functions (the virtual classes of the source), and the entries of
  its cache a heap of records linked by addresses. Prelude has the shared types, the outcome of a call and the generic lemmas.

  \<^bold>\<open>nanopb.\<close> Pb_Types and Descriptors hold the descriptors and macros of \<open>pb.h\<close>; Field_Iter \<open>pb_common.c\<close>; Ostream and
  Encode \<open>pb_encode.c\<close>; Istream, Defaults, Decode_Field, Decode and Decode_Message \<open>pb_decode.c\<close> (User_Code has
  the callbacks of the user as parameters); Cct_Tables the generated structures and tables. Codec has the table of the
  field codecs; Wire_Bytes, Varint and Wire_Format are the abstract wire format. Wire_Theorems shows the round trips of varints, tags,
  strings and the exact behaviour of the readers on malformed input; Field_Iter_Theorems that the iterator visits every
  field of a table, finds the fields by their numbers, and leads to the members, flags and counters of the generated
  structures; Safe_Stream (the contract of a stream, a locale), Static_Messages, Dec_Fields, Dec_Static and Decode_Safety
  that decoding any input into a message of static fields returns and writes inside the structure only, which
  Message_Theorems states; Required_Fields that \<open>pb_decode_noinit\<close> succeeds exactly when no required field is missing among the
  tags its loop has read; and Integer_Theorems the ranges of integer fields.

  \<^bold>\<open>base64.\<close> Base64 has \<open>f_b64_ntop\<close> and \<open>f_b64_pton\<close> with their target buffers, and
  Base64_Theorems the text by the definition of the encoding (digits to the base 64 of 24-bit numbers), the proof that the
  encoder writes it, the round trip and the bounds.

  \<^bold>\<open>leveldb, bottom up.\<close> Ldb_Coding is \<open>util/coding.cc\<close>, Crc32c and Crc32c_Tables \<open>util/crc32c.cc\<close>, Bloom
  \<open>util/hash.cc\<close> and \<open>util/bloom.cc\<close>, Dbformat \<open>util/comparator.cc\<close> and \<open>db/dbformat.cc\<close>, Ldb_Status
  \<open>util/status.cc\<close>, Ldb_Files the contracts of files, Log_Format and Log_Reader the log of
  \<open>db/log_writer.cc\<close> and \<open>db/log_reader.cc\<close> (Log_Records its fragments), Write_Batch \<open>db/write_batch.cc\<close>, Filter_Block
  \<open>table/filter_block.cc\<close>, Ldb_Iterator \<open>table/iterator.cc\<close>, Block_Builder and Block \<open>table/block_builder.cc\<close> and \<open>table/block.cc\<close>,
  Table_Format \<open>table/format.cc\<close>, Table_Builder and Table \<open>table/table_builder.cc\<close> and \<open>table/table.cc\<close>, Two_Level_Iterator
  \<open>table/two_level_iterator.cc\<close>, Ldb_Cache the interface of a cache, and Lru_Cache \<open>util/cache.cc\<close>. The theories
  named \<open>_Facts\<close> and \<open>_Theorems\<close> have the lemmas and the properties of each; Leveldb_Theorems those of the small components.

  \<^item> \<^emph>\<open>Tables.\<close> Table_Builder_Facts and Table_Finish show what the builder writes, in terms of Table_Layout (where the blocks, the
    filter, the index and the footer lie in the file); Table_Facts that \<open>Table::Open\<close> recovers them from such a file;
    Table_Blocks that the block function of a table opens the block of each index entry, through the block cache or not;
    Table_Get that the iterator and \<open>InternalGet\<close> then answer from the entries; Table_Get_Theorems puts the two ends together.
  \<^item> \<^emph>\<open>Cache.\<close> Lru_Table proves the hash table of the cache, Lru_Facts its two circular lists, Lru_Shard the operations of a shard and
    their invariant, Lru_Theorems the sharded cache: it refines a map that may forget entries, evicts the oldest first,
    and calls each deleter once. The reference and entry counters are \<open>uint32_t\<close>, as in the code, and wrap; the theorems
    therefore bound the run (at most \<open>2 ^ 31\<close> operations; below that no counter can wrap and the table can still double), and the
    contract of the cache (locale \<open>block_cache\<close>) says how many handles may be held at once and how many keys there may be. A table
    holds two handles at most and has fewer blocks than that, so the properties of tables need no bound on the lookups.

  \<^bold>\<open>Interfaces.\<close> The locale \<open>comparator\<close> is the contract of a comparator, interpreted for byte order and lifted to internal
  keys (\<open>short_comparator\<close> adds the length of separators); \<open>filter_policy\<close> (\<open>sized_filter_policy\<close> with the size of a filter) that
  of a filter policy, interpreted for the Bloom filter; \<open>ordered_iterator\<close> that of an
  iterator over a sorted sequence (Ordered_Iterator), interpreted for blocks (Block_Interface) and for the iterators of tables; \<open>two_level\<close> that of the blocks under
  a two-level iterator, interpreted for the blocks of tables; \<open>writable_file\<close>,
  \<open>sequential_file\<close> and \<open>random_access_file\<close> those of files, interpreted for files in memory; \<open>block_cache\<close> that of a block
  cache, interpreted for the LRU cache; \<open>table_options\<close> and \<open>table_file\<close> what a table is built with, interpreted for the byte
  order, the Bloom filter and a file in memory; \<open>safe_stream\<close> and \<open>submessage_decoder\<close> those of nanopb's
  streams and of the decoder of submessages, interpreted for buffers and user callbacks; \<open>wire_codec\<close> and
  \<open>slice_codec\<close> those of a writer and its reader, interpreted for the encodings of nanopb and of leveldb.

  \<^bold>\<open>Not modelled.\<close> The parts of leveldb that run threads or touch the file system (\<open>db_impl.cc\<close>, \<open>env_posix.cc\<close>),
  the version set, the memtable and its skip list, the C interface, Snappy (not configured in this build) and the Objective-C
  and Swift code.
\<close>

end
